(* ===== verification/Prelude.thy ===== *)
theory Prelude
  imports Complex_Main "HOL-Library.Word" "HOL-Library.List_Lexorder" "HOL-Library.Sublist"
begin

text \<open>
  Shared vocabulary of the RustBlade development.

  \<^item> Machine integers: the Rust types \<open>u8\<close>, \<open>u16\<close>, \<open>u32\<close>, \<open>u64\<close>, \<open>i32\<close> are words of their
    width. A \<open>usize\<close> that measures or indexes memory is a \<open>nat\<close>.
  \<^item> Strings: a Rust \<open>str\<close> is its UTF-8 byte sequence (type \<open>rstr\<close>); literals are written
    \<open>str ''abc''\<close>. The order of \<open>str\<close> is the lexicographic order of the bytes, which is
    the order of lists of words.
  \<^item> Failures: \<open>RustBladeError\<close> is the error enum of \<open>Rust/Error.rs\<close>, results are
    \<open>RustBladeError + 'a\<close>.
  \<^item> Byte layout: little-endian encoding of integers (\<open>to_le_bytes\<close>, \<open>from_le_bytes\<close>),
    sub-slices (\<open>subslice\<close>) and \<open>copy_from_slice\<close> into a sub-subslice (\<open>put\<close>).
\<close>

named_theorems codec \<open>round trips and lengths of byte encodings\<close>
named_theorems wf_intro \<open>operations preserve the well-formedness of their component\<close>

unbundle bit_operations_syntax

type_synonym u8 = "8 word"
type_synonym u16 = "16 word"
type_synonym u32 = "32 word"
type_synonym u64 = "64 word"
type_synonym i32 = "32 word"
type_synonym bytes = "8 word list"
type_synonym rstr = "8 word list"

definition str :: "string \<Rightarrow> rstr" where
  "str cs = map of_char cs"

lemma str_simps: "str [] = []" "str (c # cs) = of_char c # str cs"
  by (simp_all add: str_def)

datatype RustBladeError =
    Io
  | Serde
  | InvalidFormat
  | IndexNotBuilt
  | DocumentNotFound u64
  | DimensionMismatch nat nat
  | EmptyIndex
  | InvalidQuery rstr

type_synonym 'a result = "RustBladeError + 'a"

subsection \<open>Sub-slices\<close>

definition subslice :: "nat \<Rightarrow> nat \<Rightarrow> 'a list \<Rightarrow> 'a list" where
  "subslice a b xs = take (b - a) (drop a xs)"

definition put :: "nat \<Rightarrow> 'a list \<Rightarrow> 'a list \<Rightarrow> 'a list" where
  "put off ys xs = take off xs @ ys @ drop (off + length ys) xs"

lemma length_slice [simp]: "length (subslice a b xs) = min (b - a) (length xs - a)"
  by (simp add: subslice_def)

lemma length_put [simp]: "off + length ys \<le> length xs \<Longrightarrow> length (put off ys xs) = length xs"
  by (simp add: put_def)

lemma slice_put_same:
  "off + length ys \<le> length xs \<Longrightarrow> subslice off (off + length ys) (put off ys xs) = ys"
  by (simp add: subslice_def put_def)

lemma slice_put_before:
  assumes "b \<le> off" and "off \<le> length xs"
  shows "subslice a b (put off ys xs) = subslice a b xs"
proof (rule nth_equalityI)
  show "length (subslice a b (put off ys xs)) = length (subslice a b xs)"
    using assms by (auto simp: put_def)
next
  fix i assume "i < length (subslice a b (put off ys xs))"
  then show "subslice a b (put off ys xs) ! i = subslice a b xs ! i"
    using assms by (auto simp: subslice_def put_def nth_append)
qed

lemma slice_put_after:
  assumes "off + length ys \<le> a" and "off + length ys \<le> length xs"
  shows "subslice a b (put off ys xs) = subslice a b xs"
proof -
  have "drop a (put off ys xs) = drop a xs"
    using assms by (simp add: put_def)
  then show ?thesis
    by (simp add: subslice_def)
qed

lemma slice_put_inside:
  assumes "off \<le> a" and "b \<le> off + length ys" and "off \<le> length xs"
  shows "subslice a b (put off ys xs) = subslice (a - off) (b - off) ys"
proof -
  have "drop a (put off ys xs) = drop (a - off) ys @ drop (a - (off + length ys)) (drop (off + length ys) xs)"
    using assms by (simp add: put_def)
  moreover have "take (b - a) (drop (a - off) ys @ zs) = take (b - a) (drop (a - off) ys)" for zs
    using assms by simp
  ultimately show ?thesis
    using assms by (simp add: subslice_def)
qed

lemma slice_slice:
  "b \<le> d - c \<Longrightarrow> subslice a b (subslice c d xs) = subslice (c + a) (c + b) xs"
  by (simp add: subslice_def drop_take add.commute min_def)

lemma slice_all [simp]: "length xs \<le> b \<Longrightarrow> subslice 0 b xs = xs"
  by (simp add: subslice_def)

lemma slice_take_drop: "subslice a (a + n) xs = take n (drop a xs)"
  by (simp add: subslice_def)

lemma slice_append_left: "b \<le> length xs \<Longrightarrow> subslice a b (xs @ ys) = subslice a b xs"
  by (simp add: subslice_def)

lemma slice_append_right:
  "length xs \<le> a \<Longrightarrow> subslice a b (xs @ ys) = subslice (a - length xs) (b - length xs) ys"
  by (simp add: subslice_def)

lemma take_Suc_drop_Cons:
  assumes "take (Suc n) (drop p xs) = b # bs"
  shows "p < length xs" and "xs ! p = b" and "take n (drop (p + 1) xs) = bs"
proof -
  show "p < length xs"
    using assms by (cases "p < length xs") auto
  then have "drop p xs = xs ! p # drop (Suc p) xs"
    by (rule Cons_nth_drop_Suc [symmetric])
  with assms show "xs ! p = b" and "take n (drop (p + 1) xs) = bs"
    by simp_all
qed

lemma nth_put_outside:
  "i < off \<or> off + length ys \<le> i \<Longrightarrow> off + length ys \<le> length xs \<Longrightarrow> put off ys xs ! i = xs ! i"
  by (auto simp: put_def nth_append)

subsection \<open>Little-endian integers\<close>

lemma unat_bound: "unat (w :: 'a::len word) < 2 ^ LENGTH('a)"
  by simp

lemma unat32_of_nat: "n < 2 ^ 32 \<Longrightarrow> unat (word_of_nat n :: u32) = n"
  by (simp add: unat_of_nat)

lemma unat16_of_nat: "n < 2 ^ 16 \<Longrightarrow> unat (word_of_nat n :: u16) = n"
  by (simp add: unsigned_of_nat take_bit_nat_eq_self)

lemma unat_up: "unat (ucast (c :: u32) :: u64) = unat c"
proof -
  have "unat c < 2 ^ 64" using unat_bound [of c] by simp
  then show ?thesis by (simp add: unsigned_ucast_eq take_bit_nat_eq_self)
qed

lemma unat_down: "unat (w :: u64) < 2 ^ 32 \<Longrightarrow> unat (ucast w :: u32) = unat w"
  by (simp add: unsigned_ucast_eq take_bit_nat_eq_self)

primrec le_nat :: "nat \<Rightarrow> nat \<Rightarrow> bytes" where
  "le_nat 0 k = []"
| "le_nat (Suc n) k = word_of_nat (k mod 256) # le_nat n (k div 256)"

primrec nat_le :: "bytes \<Rightarrow> nat" where
  "nat_le [] = 0"
| "nat_le (b # bs) = unat b + 256 * nat_le bs"

lemma length_le_nat [simp]: "length (le_nat n k) = n"
  by (induction n arbitrary: k) auto

lemma nat_le_bound: "nat_le bs < 256 ^ length bs"
proof (induction bs)
  case Nil
  then show ?case by simp
next
  case (Cons b bs)
  have "unat b < 256"
    using unat_bound [of b] by simp
  with Cons show ?case by simp
qed

lemma unat_word_of_nat_mod256 [simp]: "unat (word_of_nat (k mod 256) :: u8) = k mod 256"
  by (simp add: unat_of_nat)

lemma nat_le_le_nat: "k < 256 ^ n \<Longrightarrow> nat_le (le_nat n k) = k"
  by (induction n arbitrary: k) (auto simp: less_mult_imp_div_less mult.commute)

lemma le_nat_nat_le: "le_nat (length bs) (nat_le bs) = bs"
proof (induction bs)
  case Nil
  then show ?case by simp
next
  case (Cons b bs)
  have "unat b < 256"
    using unat_bound [of b] by simp
  with Cons show ?case by (simp add: unat_of_nat)
qed

definition u16_to_le :: "u16 \<Rightarrow> bytes" where
  "u16_to_le w = le_nat 2 (unat w)"

definition u32_to_le :: "u32 \<Rightarrow> bytes" where
  "u32_to_le w = le_nat 4 (unat w)"

definition u64_to_le :: "u64 \<Rightarrow> bytes" where
  "u64_to_le w = le_nat 8 (unat w)"

definition u16_from_le :: "bytes \<Rightarrow> u16" where
  "u16_from_le bs = word_of_nat (nat_le bs)"

definition u32_from_le :: "bytes \<Rightarrow> u32" where
  "u32_from_le bs = word_of_nat (nat_le bs)"

definition u64_from_le :: "bytes \<Rightarrow> u64" where
  "u64_from_le bs = word_of_nat (nat_le bs)"

lemma length_u16_to_le [simp, codec]: "length (u16_to_le w) = 2"
  by (simp add: u16_to_le_def)

lemma length_u32_to_le [simp, codec]: "length (u32_to_le w) = 4"
  by (simp add: u32_to_le_def)

lemma length_u64_to_le [simp, codec]: "length (u64_to_le w) = 8"
  by (simp add: u64_to_le_def)

lemma u16_from_to_le [simp, codec]: "u16_from_le (u16_to_le w) = w"
  using unat_bound [of w] by (simp add: u16_from_le_def u16_to_le_def nat_le_le_nat)

lemma u32_from_to_le [simp, codec]: "u32_from_le (u32_to_le w) = w"
  using unat_bound [of w] by (simp add: u32_from_le_def u32_to_le_def nat_le_le_nat)

lemma u64_from_to_le [simp, codec]: "u64_from_le (u64_to_le w) = w"
  using unat_bound [of w] by (simp add: u64_from_le_def u64_to_le_def nat_le_le_nat)

lemma u16_to_from_le: "length bs = 2 \<Longrightarrow> u16_to_le (u16_from_le bs) = bs"
  using nat_le_bound [of bs] le_nat_nat_le [of bs]
  by (simp add: u16_from_le_def u16_to_le_def unat_of_nat)

lemma u32_to_from_le: "length bs = 4 \<Longrightarrow> u32_to_le (u32_from_le bs) = bs"
  using nat_le_bound [of bs] le_nat_nat_le [of bs]
  by (simp add: u32_from_le_def u32_to_le_def unat_of_nat)

lemma u64_to_from_le: "length bs = 8 \<Longrightarrow> u64_to_le (u64_from_le bs) = bs"
  using nat_le_bound [of bs] le_nat_nat_le [of bs]
  by (simp add: u64_from_le_def u64_to_le_def unat_of_nat)

subsection \<open>Checked arithmetic of \<open>u64\<close>\<close>

definition checked_add64 :: "u64 \<Rightarrow> u64 \<Rightarrow> u64 option" where
  "checked_add64 a b = (if unat a + unat b < 2 ^ 64 then Some (a + b) else None)"

definition checked_mul64 :: "u64 \<Rightarrow> u64 \<Rightarrow> u64 option" where
  "checked_mul64 a b = (if unat a * unat b < 2 ^ 64 then Some (a * b) else None)"

lemma checked_add64_Some:
  "checked_add64 a b = Some c \<longleftrightarrow> unat a + unat b < 2 ^ 64 \<and> c = a + b \<and> unat c = unat a + unat b"
  by (auto simp: checked_add64_def unat_word_ariths)

lemma checked_mul64_Some:
  "checked_mul64 a b = Some c \<longleftrightarrow> unat a * unat b < 2 ^ 64 \<and> c = a * b \<and> unat c = unat a * unat b"
  by (auto simp: checked_mul64_def unat_word_ariths)

subsection \<open>UTF-8 validity\<close>

text \<open>
  \<open>std::str::from_utf8\<close>: the well-formed byte sequences of the Unicode standard (no overlong
  forms, no surrogates, nothing above U+10FFFF).
\<close>

definition cont_byte :: "u8 \<Rightarrow> bool" where
  "cont_byte b \<longleftrightarrow> 0x80 \<le> b \<and> b \<le> 0xBF"

fun utf8_valid :: "bytes \<Rightarrow> bool" where
  "utf8_valid [] = True"
| "utf8_valid (a # xs) =
    (if a < 0x80 then utf8_valid xs
     else case xs of
       [] \<Rightarrow> False
     | b # ys \<Rightarrow>
         if 0xC2 \<le> a \<and> a \<le> 0xDF then cont_byte b \<and> utf8_valid ys
         else case ys of
           [] \<Rightarrow> False
         | c # zs \<Rightarrow>
             if 0xE0 \<le> a \<and> a \<le> 0xEF then
               cont_byte b \<and> (a = 0xE0 \<longrightarrow> 0xA0 \<le> b) \<and> (a = 0xED \<longrightarrow> b \<le> 0x9F) \<and>
               cont_byte c \<and> utf8_valid zs
             else case zs of
               [] \<Rightarrow> False
             | d # ws \<Rightarrow>
                 0xF0 \<le> a \<and> a \<le> 0xF4 \<and>
                 cont_byte b \<and> (a = 0xF0 \<longrightarrow> 0x90 \<le> b) \<and> (a = 0xF4 \<longrightarrow> b \<le> 0x8F) \<and>
                 cont_byte c \<and> cont_byte d \<and> utf8_valid ws)"

lemma utf8_valid_ascii: "\<forall>b \<in> set bs. b < 0x80 \<Longrightarrow> utf8_valid bs"
  by (induction bs) auto

definition from_utf8 :: "bytes \<Rightarrow> rstr option" where
  "from_utf8 bs = (if utf8_valid bs then Some bs else None)"

subsection \<open>Strictly ascending lists\<close>

abbreviation ascending :: "'a::linorder list \<Rightarrow> bool" where
  "ascending xs \<equiv> sorted_wrt (<) xs"

lemma ascending_dropWhile: "ascending xs \<Longrightarrow> ascending (dropWhile P xs)"
  by (induction xs) auto

lemma dropWhile_less_ascending:
  fixes xs :: "'a::linorder list"
  shows "ascending xs \<Longrightarrow> dropWhile (\<lambda>x. x < t) xs = filter (\<lambda>x. t \<le> x) xs"
proof (induction xs)
  case Nil
  then show ?case by simp
next
  case (Cons a xs)
  show ?case
  proof (cases "a < t")
    case True
    with Cons show ?thesis by auto
  next
    case False
    with Cons.prems have "\<forall>x \<in> set xs. t \<le> x" by auto
    then have "filter (\<lambda>x. t \<le> x) xs = xs" by simp
    with False show ?thesis by auto
  qed
qed

lemma ascending_set_eq:
  fixes xs ys :: "'a::linorder list"
  assumes "ascending xs" and "ascending ys" and "set xs = set ys"
  shows "xs = ys"
  using assms by (simp add: strict_sorted_equal)

end
