(* ===== verification/PostingStore.thy ===== *)
theory PostingStore
  imports Prelude "HOL-Library.AList"
begin

text \<open>
  \<open>IndexAccess/PostingStore.rs\<close>: the in-memory posting store. A hash map is an association list
  with one entry per key; the source never depends on its iteration order, because every
  iteration sorts by key first or is a commutative sum. \<open>f32\<close> values that are only stored are
  their bit patterns. The invariant \<open>store_wf\<close> and the lookup behaviour of \<open>AddPosting\<close> are at
  the end of the theory.
\<close>

type_synonym f32_bits = "32 word"

record IndexEntry =
  ie_doc_id :: u64
  ie_term_frequency :: u32

record PostingList =
  entries :: "IndexEntry list"

definition PostingList_default :: PostingList where
  "PostingList_default = \<lparr>entries = []\<rparr>"

definition doc_freq :: "PostingList \<Rightarrow> u32" where
  "doc_freq pl = word_of_nat (length (entries pl))"

text \<open>
  \<open>vb_write\<close> appends the variable-byte form of a document id: seven payload bits per byte,
  low bits first, the high bit set on every byte but the last.
\<close>

function vb_write :: "u64 \<Rightarrow> bytes" where
  "vb_write v =
     (if v < 0x80 then [ucast v]
      else ucast ((v AND 0x7F) OR 0x80) # vb_write (drop_bit 7 v))"
  by pat_completeness auto
termination
proof (relation "measure unat")
  fix v :: u64
  assume "\<not> v < 0x80"
  then have "128 \<le> unat v"
    by (simp add: word_le_nat_alt not_less)
  then show "(drop_bit 7 v, v) \<in> measure unat"
    by (simp add: drop_bit_eq_div unat_div_distrib)
qed simp

declare vb_write.simps [simp del]

text \<open>
  \<open>tf8_encode\<close>: \<open>(16.0 * (1.0 + tf as f64).log2()).round()\<close> clamped to a byte. The sum and the
  scaling by a power of two are exact in \<open>f64\<close>; \<open>log2_f64 n\<close> is the value the platform's \<open>log2\<close>
  returns at the integer \<open>n\<close>; \<open>round\<close> rounds halves away from zero.
\<close>

definition round_half_away :: "rat \<Rightarrow> int" where
  "round_half_away x = (if 0 \<le> x then \<lfloor>x + 1 / 2\<rfloor> else - \<lfloor>- x + 1 / 2\<rfloor>)"

definition tf8_encode :: "(nat \<Rightarrow> rat) \<Rightarrow> u32 \<Rightarrow> u8" where
  "tf8_encode log2_f64 tf =
     word_of_int (max 0 (min 255 (round_half_away (16 * log2_f64 (1 + unat tf)))))"

definition encode_entry :: "(nat \<Rightarrow> rat) \<Rightarrow> IndexEntry \<Rightarrow> bytes" where
  "encode_entry log2_f64 e = vb_write (ie_doc_id e) @ [tf8_encode log2_f64 (ie_term_frequency e)]"

definition encode :: "(nat \<Rightarrow> rat) \<Rightarrow> PostingList \<Rightarrow> bytes" where
  "encode log2_f64 pl = concat (map (encode_entry log2_f64) (entries pl))"

definition get_bytes :: "(nat \<Rightarrow> rat) \<Rightarrow> PostingList \<Rightarrow> bytes" where
  "get_bytes log2_f64 pl = encode log2_f64 pl"

record DocStats =
  doc_len :: u32
  unique_terms :: u32
  title_len :: u32
  body_len :: u32
  url_len :: u32
  anchor_len :: u32
  meta_len :: u32
  importance :: f32_bits
  path :: rstr

definition DocStats_default :: DocStats where
  "DocStats_default = \<lparr>doc_len = 0, unique_terms = 0, title_len = 0, body_len = 0, url_len = 0,
     anchor_len = 0, meta_len = 0, importance = 0, path = []\<rparr>"

definition DOC_VECTOR_DIM :: nat where
  "DOC_VECTOR_DIM = 128"

record PostingStore =
  m_Postings :: "(rstr \<times> PostingList) list"
  m_DocStats :: "(u64 \<times> DocStats) list"
  m_DocVectors :: "(u64 \<times> bytes) list"
  m_TotalTerms :: u64
  m_PostingEntries :: u64

definition PostingStore_new :: PostingStore where
  "PostingStore_new = \<lparr>m_Postings = [], m_DocStats = [], m_DocVectors = [],
     m_TotalTerms = 0, m_PostingEntries = 0\<rparr>"

text \<open>\<open>HashMap::entry(k).or_default()\<close> reads the value a key has or would be given.\<close>

definition entry_or :: "'v \<Rightarrow> ('k \<times> 'v) list \<Rightarrow> 'k \<Rightarrow> 'v" where
  "entry_or d m k = (case map_of m k of None \<Rightarrow> d | Some v \<Rightarrow> v)"

text \<open>
  \<open>slice::binary_search_by_key\<close> on a slice sorted by the key: \<open>Ok\<close> (here \<open>Inr\<close>) with the
  position of the key, or \<open>Err\<close> (here \<open>Inl\<close>) with the position where it can be inserted.
\<close>

definition binary_search_by_key :: "'k::linorder \<Rightarrow> ('e \<Rightarrow> 'k) \<Rightarrow> 'e list \<Rightarrow> nat + nat" where
  "binary_search_by_key k key es =
     (let i = length (takeWhile (\<lambda>e. key e < k) es)
      in if i < length es \<and> key (es ! i) = k then Inr i else Inl i)"

definition AddPosting :: "rstr \<Rightarrow> u64 \<Rightarrow> u32 \<Rightarrow> PostingStore \<Rightarrow> PostingStore" where
  "AddPosting stream_key doc_id tf s =
     (let es = entries (entry_or PostingList_default (m_Postings s) stream_key);
          upd = (\<lambda>es'. AList.update stream_key \<lparr>entries = es'\<rparr> (m_Postings s));
          new = \<lparr>ie_doc_id = doc_id, ie_term_frequency = tf\<rparr>
      in if es = [] \<or> ie_doc_id (last es) < doc_id then
           s\<lparr>m_Postings := upd (es @ [new]), m_PostingEntries := m_PostingEntries s + 1\<rparr>
         else if ie_doc_id (last es) = doc_id then
           s\<lparr>m_Postings := upd (butlast es @ [(last es)\<lparr>ie_term_frequency := tf\<rparr>])\<rparr>
         else case binary_search_by_key doc_id ie_doc_id es of
           Inr i \<Rightarrow> s\<lparr>m_Postings := upd (es[i := (es ! i)\<lparr>ie_term_frequency := tf\<rparr>])\<rparr>
         | Inl i \<Rightarrow> s\<lparr>m_Postings := upd (take i es @ new # drop i es),
                      m_PostingEntries := m_PostingEntries s + 1\<rparr>)"

definition upd_stats :: "u64 \<Rightarrow> (DocStats \<Rightarrow> DocStats) \<Rightarrow> PostingStore \<Rightarrow> PostingStore" where
  "upd_stats doc_id f s =
     s\<lparr>m_DocStats := AList.update doc_id (f (entry_or DocStats_default (m_DocStats s) doc_id))
                       (m_DocStats s)\<rparr>"

definition AddDocTokens :: "u64 \<Rightarrow> u32 \<Rightarrow> PostingStore \<Rightarrow> PostingStore" where
  "AddDocTokens doc_id count s =
     (upd_stats doc_id (\<lambda>st. st\<lparr>doc_len := doc_len st + count\<rparr>) s)
       \<lparr>m_TotalTerms := m_TotalTerms s + ucast count\<rparr>"

definition AddStreamStats :: "u64 \<Rightarrow> u8 \<Rightarrow> u32 \<Rightarrow> u32 \<Rightarrow> PostingStore \<Rightarrow> PostingStore" where
  "AddStreamStats doc_id stream token_count unique_count s =
     upd_stats doc_id
       (\<lambda>st. let st = st\<lparr>unique_terms := unique_terms st + unique_count\<rparr> in
          if stream = of_char CHR ''T'' then st\<lparr>title_len := title_len st + token_count\<rparr>
          else if stream = of_char CHR ''B'' then st\<lparr>body_len := body_len st + token_count\<rparr>
          else if stream = of_char CHR ''U'' then st\<lparr>url_len := url_len st + token_count\<rparr>
          else if stream = of_char CHR ''A'' then st\<lparr>anchor_len := anchor_len st + token_count\<rparr>
          else if stream = of_char CHR ''M'' then st\<lparr>meta_len := meta_len st + token_count\<rparr>
          else st) s"

definition AddDocTokensForStream :: "u64 \<Rightarrow> u8 \<Rightarrow> u32 \<Rightarrow> PostingStore \<Rightarrow> PostingStore" where
  "AddDocTokensForStream doc_id stream count s =
     AddStreamStats doc_id stream count count (AddDocTokens doc_id count s)"

definition saturating_sub64 :: "u64 \<Rightarrow> u64 \<Rightarrow> u64" where
  "saturating_sub64 a b = (if b \<le> a then a - b else 0)"

definition SetDocLengths ::
  "u64 \<Rightarrow> u32 \<Rightarrow> u32 \<Rightarrow> u32 \<Rightarrow> u32 \<Rightarrow> u32 \<Rightarrow> PostingStore \<Rightarrow> PostingStore" where
  "SetDocLengths doc_id title body url anchor meta s =
     (let old = entry_or DocStats_default (m_DocStats s) doc_id;
          total = saturating_sub64 (m_TotalTerms s) (ucast (doc_len old));
          len = title + body + url + anchor + meta
      in (upd_stats doc_id
            (\<lambda>st. st\<lparr>title_len := title, body_len := body, url_len := url, anchor_len := anchor,
                     meta_len := meta, doc_len := len, unique_terms := len\<rparr>) s)
           \<lparr>m_TotalTerms := total + ucast len\<rparr>)"

definition SetDocImportance :: "u64 \<Rightarrow> f32_bits \<Rightarrow> PostingStore \<Rightarrow> PostingStore" where
  "SetDocImportance doc_id score s = upd_stats doc_id (\<lambda>st. st\<lparr>importance := score\<rparr>) s"

definition SetDocPath :: "u64 \<Rightarrow> rstr \<Rightarrow> PostingStore \<Rightarrow> PostingStore" where
  "SetDocPath doc_id p s = upd_stats doc_id (\<lambda>st. st\<lparr>path := p\<rparr>) s"

definition SetDocVectorBytes :: "u64 \<Rightarrow> bytes \<Rightarrow> PostingStore \<Rightarrow> bool \<times> PostingStore" where
  "SetDocVectorBytes doc_id vector s =
     (if length vector < DOC_VECTOR_DIM then (False, s)
      else (True, (upd_stats doc_id id s)
              \<lparr>m_DocVectors := AList.update doc_id (take DOC_VECTOR_DIM vector) (m_DocVectors s)\<rparr>))"

text \<open>\<open>QuantizeVector\<close> computes in floating point and is an argument.\<close>

definition SetDocVector :: "(u32 list \<Rightarrow> bytes) \<Rightarrow> u64 \<Rightarrow> u32 list \<Rightarrow> PostingStore \<Rightarrow> bool \<times> PostingStore" where
  "SetDocVector quantize doc_id vector s =
     (if length vector \<noteq> DOC_VECTOR_DIM then (False, s)
      else (True, (upd_stats doc_id id s)
              \<lparr>m_DocVectors := AList.update doc_id (quantize vector) (m_DocVectors s)\<rparr>))"

text \<open>\<open>GetDocVector\<close> panics (\<open>expect\<close>) on a document without a vector: \<open>None\<close>.\<close>

definition GetDocVector :: "PostingStore \<Rightarrow> u64 \<Rightarrow> bytes option" where
  "GetDocVector s doc_id = map_of (m_DocVectors s) doc_id"

definition HasDocVector :: "PostingStore \<Rightarrow> u64 \<Rightarrow> bool" where
  "HasDocVector s doc_id \<longleftrightarrow> map_of (m_DocVectors s) doc_id \<noteq> None"

definition GetDocPath :: "PostingStore \<Rightarrow> u64 \<Rightarrow> rstr" where
  "GetDocPath s doc_id = (case map_of (m_DocStats s) doc_id of Some st \<Rightarrow> path st | None \<Rightarrow> [])"

definition GetPostingList :: "PostingStore \<Rightarrow> rstr \<Rightarrow> PostingList option" where
  "GetPostingList s key = map_of (m_Postings s) key"

definition GetDocLen :: "PostingStore \<Rightarrow> u64 \<Rightarrow> u32" where
  "GetDocLen s doc_id = (case map_of (m_DocStats s) doc_id of Some st \<Rightarrow> doc_len st | None \<Rightarrow> 1)"

definition stream_len_of :: "DocStats \<Rightarrow> u8 \<Rightarrow> u32" where
  "stream_len_of st stream =
     (if stream = of_char CHR ''T'' then title_len st
      else if stream = of_char CHR ''B'' then body_len st
      else if stream = of_char CHR ''U'' then url_len st
      else if stream = of_char CHR ''A'' then anchor_len st
      else if stream = of_char CHR ''M'' then meta_len st
      else 0)"

definition GetStreamLen :: "PostingStore \<Rightarrow> u64 \<Rightarrow> u8 \<Rightarrow> u32" where
  "GetStreamLen s doc_id stream =
     (case map_of (m_DocStats s) doc_id of
        None \<Rightarrow> 1
      | Some st \<Rightarrow>
          (let doc_len = max (body_len st) 1; stream_len = stream_len_of st stream
           in if stream_len > 0 then stream_len else doc_len))"

definition GetRawStreamLen :: "PostingStore \<Rightarrow> u64 \<Rightarrow> u8 \<Rightarrow> u32" where
  "GetRawStreamLen s doc_id stream =
     (case map_of (m_DocStats s) doc_id of None \<Rightarrow> 0 | Some st \<Rightarrow> stream_len_of st stream)"

definition GetDocImportance :: "PostingStore \<Rightarrow> u64 \<Rightarrow> f32_bits" where
  "GetDocImportance s doc_id =
     (case map_of (m_DocStats s) doc_id of Some st \<Rightarrow> importance st | None \<Rightarrow> 0)"

definition HasDoc :: "PostingStore \<Rightarrow> u64 \<Rightarrow> bool" where
  "HasDoc s doc_id \<longleftrightarrow> map_of (m_DocStats s) doc_id \<noteq> None"

definition TotalDocs :: "PostingStore \<Rightarrow> u64" where
  "TotalDocs s = word_of_nat (length (m_DocStats s))"

definition UniqueTermCount :: "PostingStore \<Rightarrow> nat" where
  "UniqueTermCount s = length (m_Postings s)"

definition DocFreq :: "PostingStore \<Rightarrow> rstr \<Rightarrow> u32" where
  "DocFreq s key = (case map_of (m_Postings s) key of Some pl \<Rightarrow> doc_freq pl | None \<Rightarrow> 0)"

subsection \<open>The store invariant\<close>

text \<open>
  Every key has one posting list, every list is sorted by strictly ascending document id, and
  the entry counter is the number of entries (modulo its width).
\<close>

definition postings_wf :: "IndexEntry list \<Rightarrow> bool" where
  "postings_wf es \<longleftrightarrow> ascending (map ie_doc_id es)"

definition store_wf :: "PostingStore \<Rightarrow> bool" where
  "store_wf s \<longleftrightarrow>
     distinct (map fst (m_Postings s)) \<and>
     (\<forall>(k, pl) \<in> set (m_Postings s). postings_wf (entries pl)) \<and>
     distinct (map fst (m_DocStats s)) \<and>
     m_PostingEntries s = word_of_nat (sum_list (map (length \<circ> entries \<circ> snd) (m_Postings s)))"

text \<open>
  The vector table: one vector per document, and every document with a vector has statistics,
  that is, it is a document of the store.
\<close>

definition vectors_wf :: "PostingStore \<Rightarrow> bool" where
  "vectors_wf s \<longleftrightarrow>
     distinct (map fst (m_DocVectors s)) \<and> fst ` set (m_DocVectors s) \<subseteq> fst ` set (m_DocStats s)"

definition tf_map :: "IndexEntry list \<Rightarrow> u64 \<rightharpoonup> u32" where
  "tf_map es = map_of (map (\<lambda>e. (ie_doc_id e, ie_term_frequency e)) es)"

text \<open>The abstract view: which documents carry a key, and how often.\<close>

definition postings_of :: "PostingStore \<Rightarrow> rstr \<Rightarrow> u64 \<rightharpoonup> u32" where
  "postings_of s key = tf_map (entries (entry_or PostingList_default (m_Postings s) key))"

text \<open>The three ways \<open>AddPosting\<close> edits one list, as one function.\<close>

definition put_posting :: "u64 \<Rightarrow> u32 \<Rightarrow> IndexEntry list \<Rightarrow> IndexEntry list" where
  "put_posting d tf es =
     takeWhile (\<lambda>e. ie_doc_id e < d) es @
     \<lparr>ie_doc_id = d, ie_term_frequency = tf\<rparr> #
     dropWhile (\<lambda>e. ie_doc_id e \<le> d) es"

lemma postings_wf_append:
  "postings_wf (xs @ ys) \<longleftrightarrow>
     postings_wf xs \<and> postings_wf ys \<and> (\<forall>x \<in> set xs. \<forall>y \<in> set ys. ie_doc_id x < ie_doc_id y)"
  by (auto simp: postings_wf_def sorted_wrt_append)

lemma postings_wf_Cons:
  "postings_wf (e # es) \<longleftrightarrow> (\<forall>x \<in> set es. ie_doc_id e < ie_doc_id x) \<and> postings_wf es"
  by (auto simp: postings_wf_def)

lemma postings_wf_Nil [simp]: "postings_wf []"
  by (simp add: postings_wf_def)

lemma postings_wf_filter: "postings_wf es \<Longrightarrow> postings_wf (filter P es)"
  by (induction es) (auto simp: postings_wf_Cons)

lemma takeWhile_postings:
  "postings_wf es \<Longrightarrow> takeWhile (\<lambda>e. ie_doc_id e < d) es = filter (\<lambda>e. ie_doc_id e < d) es"
proof (induction es)
  case Nil
  then show ?case by simp
next
  case (Cons a es)
  have "filter (\<lambda>e. ie_doc_id e < d) es = []" if "\<not> ie_doc_id a < d"
    using Cons.prems that by (fastforce simp: postings_wf_Cons filter_empty_conv)
  with Cons show ?case by (auto simp: postings_wf_Cons)
qed

lemma dropWhile_postings:
  "postings_wf es \<Longrightarrow> dropWhile (\<lambda>e. ie_doc_id e \<le> d) es = filter (\<lambda>e. d < ie_doc_id e) es"
proof (induction es)
  case Nil
  then show ?case by simp
next
  case (Cons a es)
  have "filter (\<lambda>e. d < ie_doc_id e) es = es" if "d < ie_doc_id a"
    using Cons.prems that by (auto simp: postings_wf_Cons filter_id_conv)
  with Cons show ?case by (auto simp: postings_wf_Cons)
qed

lemma put_posting_filter:
  assumes "postings_wf es"
  shows "put_posting d tf es =
    filter (\<lambda>e. ie_doc_id e < d) es @ \<lparr>ie_doc_id = d, ie_term_frequency = tf\<rparr> #
    filter (\<lambda>e. d < ie_doc_id e) es"
  by (simp add: put_posting_def takeWhile_postings dropWhile_postings assms)

lemma put_posting_wf: "postings_wf es \<Longrightarrow> postings_wf (put_posting d tf es)"
  by (auto simp: put_posting_filter postings_wf_append postings_wf_Cons intro: postings_wf_filter)

lemma tf_map_put_posting:
  assumes "postings_wf es"
  shows "tf_map (put_posting d tf es) = (tf_map es)(d \<mapsto> tf)"
proof
  have eq: "map_of (map (\<lambda>e. (ie_doc_id e, ie_term_frequency e)) (filter P es)) x =
      (if P' x then map_of (map (\<lambda>e. (ie_doc_id e, ie_term_frequency e)) es) x else None)"
    if "\<And>e. P e = P' (ie_doc_id e)" for P P' x
    using that by (induction es) auto
  fix x
  show "tf_map (put_posting d tf es) x = ((tf_map es)(d \<mapsto> tf)) x"
    using assms
    by (auto simp: put_posting_filter tf_map_def map_add_def eq [where P' = "\<lambda>x. x < d"]
        eq [where P' = "\<lambda>x. d < x"] split: option.splits)
qed

lemma length_put_posting:
  assumes "postings_wf es"
  shows "length (put_posting d tf es) = length es + (if d \<in> ie_doc_id ` set es then 0 else 1)"
  using assms
proof (induction es)
  case Nil
  then show ?case by (simp add: put_posting_def)
next
  case (Cons a es)
  then have wf: "postings_wf es" and above: "\<forall>x \<in> set es. ie_doc_id a < ie_doc_id x"
    by (auto simp: postings_wf_Cons)
  consider "ie_doc_id a < d" | "ie_doc_id a = d" | "d < ie_doc_id a"
    by (rule linorder_cases)
  then show ?case
  proof cases
    case 1
    with Cons.IH [OF wf] show ?thesis by (auto simp: put_posting_def)
  next
    case 2
    then have "dropWhile (\<lambda>e. ie_doc_id e \<le> d) es = es"
      using above by (cases es) auto
    with 2 show ?thesis by (simp add: put_posting_def)
  next
    case 3
    then have "d \<notin> ie_doc_id ` set (a # es)"
      using above by auto
    with 3 show ?thesis by (auto simp: put_posting_def)
  qed
qed

lemma put_posting_last_less:
  assumes "postings_wf es" and "es = [] \<or> ie_doc_id (last es) < d"
  shows "put_posting d tf es = es @ [\<lparr>ie_doc_id = d, ie_term_frequency = tf\<rparr>]"
    and "d \<notin> ie_doc_id ` set es"
proof -
  have less: "ie_doc_id e < d" if "e \<in> set es" for e
  proof (cases es rule: rev_cases)
    case Nil
    with that show ?thesis by simp
  next
    case (snoc ys y)
    with assms that show ?thesis by (auto simp: postings_wf_append)
  qed
  then show "d \<notin> ie_doc_id ` set es" by auto
  show "put_posting d tf es = es @ [\<lparr>ie_doc_id = d, ie_term_frequency = tf\<rparr>]"
    using less by (simp add: put_posting_def less_imp_le)
qed

lemma put_posting_last_eq:
  assumes "postings_wf es" and "es \<noteq> []" and "ie_doc_id (last es) = d"
  shows "put_posting d tf es = butlast es @ [(last es)\<lparr>ie_term_frequency := tf\<rparr>]"
proof -
  obtain ys y where es: "es = ys @ [y]"
    using assms(2) by (cases es rule: rev_cases) auto
  then have less: "\<forall>e \<in> set ys. ie_doc_id e < d" and y: "ie_doc_id y = d"
    using assms by (auto simp: postings_wf_append)
  then show ?thesis
    by (simp add: es put_posting_def less_imp_le)
qed

lemma binary_search_put_posting:
  assumes "postings_wf es"
  shows "case binary_search_by_key d ie_doc_id es of
      Inr i \<Rightarrow> put_posting d tf es = es[i := (es ! i)\<lparr>ie_term_frequency := tf\<rparr>] \<and> d \<in> ie_doc_id ` set es
    | Inl i \<Rightarrow> put_posting d tf es = take i es @ \<lparr>ie_doc_id = d, ie_term_frequency = tf\<rparr> # drop i es
               \<and> d \<notin> ie_doc_id ` set es"
proof -
  define pre where "pre = takeWhile (\<lambda>e. ie_doc_id e < d) es"
  define post where "post = dropWhile (\<lambda>e. ie_doc_id e < d) es"
  have es: "es = pre @ post" by (simp add: pre_def post_def)
  have pre: "\<forall>e \<in> set pre. ie_doc_id e < d"
    by (auto simp: pre_def dest: set_takeWhileD)
  have tw: "takeWhile (\<lambda>e. ie_doc_id e < d) es = pre"
    by (simp add: pre_def)
  have dw: "dropWhile (\<lambda>e. ie_doc_id e \<le> d) es = dropWhile (\<lambda>e. ie_doc_id e \<le> d) post"
    by (subst es) (use pre in \<open>simp add: less_imp_le\<close>)
  have put: "put_posting d tf es = pre @ \<lparr>ie_doc_id = d, ie_term_frequency = tf\<rparr> #
      dropWhile (\<lambda>e. ie_doc_id e \<le> d) post"
    unfolding put_posting_def tw dw by simp
  show ?thesis
  proof (cases post)
    case Nil
    with put pre show ?thesis
      by (auto simp: binary_search_by_key_def Let_def tw) (auto simp: es)
  next
    case (Cons y ys)
    then have "\<not> ie_doc_id y < d"
      unfolding post_def by (metis dropWhile_eq_Cons_conv)
    moreover have above: "\<forall>x \<in> set ys. ie_doc_id y < ie_doc_id x"
      using assms by (simp add: es Cons postings_wf_append postings_wf_Cons)
    moreover from this have "dropWhile (\<lambda>e. ie_doc_id e \<le> ie_doc_id y) ys = ys"
      by (cases ys) auto
    ultimately show ?thesis
      using put pre
      by (auto simp: binary_search_by_key_def Let_def tw Cons)
        (auto simp: es Cons nth_append list_update_append)
  qed
qed

lemma AddPosting_eq:
  assumes "postings_wf es" and "es = entries (entry_or PostingList_default (m_Postings s) k)"
  shows "AddPosting k d tf s =
    s\<lparr>m_Postings := AList.update k \<lparr>entries = put_posting d tf es\<rparr> (m_Postings s),
      m_PostingEntries := m_PostingEntries s + (if d \<in> ie_doc_id ` set es then 0 else 1)\<rparr>"
proof -
  consider (app) "es = [] \<or> ie_doc_id (last es) < d"
    | (lst) "es \<noteq> []" "ie_doc_id (last es) = d"
    | (mid) "es \<noteq> []" "\<not> ie_doc_id (last es) < d" "ie_doc_id (last es) \<noteq> d"
    by fastforce
  then show ?thesis
  proof cases
    case app
    note last = put_posting_last_less [OF assms(1) app]
    with app show ?thesis
      by (auto simp: AddPosting_def Let_def assms(2) [symmetric])
  next
    case lst
    then have "d \<in> ie_doc_id ` set es" by force
    with lst put_posting_last_eq [OF assms(1) lst, of tf] show ?thesis
      by (simp add: AddPosting_def Let_def assms(2) [symmetric])
  next
    case mid
    with binary_search_put_posting [OF assms(1), of d tf] show ?thesis
      by (auto simp: AddPosting_def Let_def assms(2) [symmetric] split: sum.splits)
  qed
qed

lemma sum_list_update:
  "sum_list (map (g \<circ> snd) (AList.update k v al)) +
     (case map_of al k of None \<Rightarrow> 0 | Some v' \<Rightarrow> g v') = sum_list (map (g \<circ> snd) al) + (g v :: nat)"
  by (induction al) (auto simp: add.left_commute split: option.splits)

lemma entry_wf:
  assumes "store_wf s"
  shows "postings_wf (entries (entry_or PostingList_default (m_Postings s) k))"
proof (cases "map_of (m_Postings s) k")
  case None
  then show ?thesis by (simp add: entry_or_def PostingList_default_def)
next
  case (Some pl)
  with map_of_SomeD [OF this] assms show ?thesis
    by (auto simp: entry_or_def store_wf_def)
qed

lemma store_wf_new [wf_intro]: "store_wf PostingStore_new"
  by (simp add: store_wf_def PostingStore_new_def)

lemma store_wf_upd_stats [wf_intro]: "store_wf s \<Longrightarrow> store_wf (upd_stats d f s)"
  by (simp add: store_wf_def upd_stats_def distinct_update)

lemma store_wf_total [simp]: "store_wf (s\<lparr>m_TotalTerms := n\<rparr>) = store_wf s"
  by (simp add: store_wf_def)

lemma store_wf_vectors [simp]: "store_wf (s\<lparr>m_DocVectors := v\<rparr>) = store_wf s"
  by (simp add: store_wf_def)

lemma set_update_mem: "(k', v') \<in> set (AList.update k v al) \<Longrightarrow> (k', v') \<in> set al \<or> (k' = k \<and> v' = v)"
  by (induction al) (auto split: if_splits)

lemma store_wf_AddPosting [wf_intro]:
  assumes wf: "store_wf s"
  shows "store_wf (AddPosting k d tf s)"
proof -
  define es where "es = entries (entry_or PostingList_default (m_Postings s) k)"
  define es' where "es' = put_posting d tf es"
  let ?g = "length \<circ> entries"
  have es: "postings_wf es" using entry_wf [OF wf] by (simp add: es_def)
  have es': "postings_wf es'" using put_posting_wf [OF es] by (simp add: es'_def)
  have len: "length es' = length es + (if d \<in> ie_doc_id ` set es then 0 else 1)"
    using length_put_posting [OF es] by (simp add: es'_def)
  have old: "(case map_of (m_Postings s) k of None \<Rightarrow> 0 | Some v' \<Rightarrow> ?g v') = length es"
    by (auto simp: es_def entry_or_def PostingList_default_def split: option.splits)
  have sum: "sum_list (map (?g \<circ> snd) (AList.update k \<lparr>entries = es'\<rparr> (m_Postings s))) =
      sum_list (map (?g \<circ> snd) (m_Postings s)) + (if d \<in> ie_doc_id ` set es then 0 else 1)"
    using sum_list_update [of ?g k "\<lparr>entries = es'\<rparr>" "m_Postings s"] len unfolding old by simp
  show ?thesis
    unfolding AddPosting_eq [OF es es_def] es'_def [symmetric] store_wf_def
    using wf es' sum
    by (auto simp: store_wf_def distinct_update o_assoc dest!: set_update_mem)
qed

lemma store_wf_AddDocTokens [wf_intro]: "store_wf s \<Longrightarrow> store_wf (AddDocTokens d c s)"
  by (simp add: AddDocTokens_def store_wf_upd_stats)

lemma store_wf_AddStreamStats [wf_intro]: "store_wf s \<Longrightarrow> store_wf (AddStreamStats d c t u s)"
  by (simp add: AddStreamStats_def store_wf_upd_stats)

lemma store_wf_SetDocLengths [wf_intro]: "store_wf s \<Longrightarrow> store_wf (SetDocLengths d t b u a m s)"
  by (simp add: SetDocLengths_def Let_def store_wf_upd_stats)

lemma store_wf_SetDocVectorBytes [wf_intro]: "store_wf s \<Longrightarrow> store_wf (snd (SetDocVectorBytes d v s))"
  by (simp add: SetDocVectorBytes_def store_wf_upd_stats)

lemma store_wf_SetDocVector [wf_intro]: "store_wf s \<Longrightarrow> store_wf (snd (SetDocVector q d v s))"
  by (simp add: SetDocVector_def store_wf_upd_stats)

text \<open>The operations of the store, as one alphabet of calls.\<close>

datatype store_op =
    OpPosting rstr u64 u32
  | OpTokens u64 u32
  | OpStreamStats u64 u8 u32 u32
  | OpTokensForStream u64 u8 u32
  | OpLengths u64 u32 u32 u32 u32 u32
  | OpImportance u64 f32_bits
  | OpPath u64 rstr
  | OpVectorBytes u64 bytes
  | OpVector "u32 list \<Rightarrow> bytes" u64 "u32 list"

fun run_op :: "store_op \<Rightarrow> PostingStore \<Rightarrow> PostingStore" where
  "run_op (OpPosting k d tf) s = AddPosting k d tf s"
| "run_op (OpTokens d c) s = AddDocTokens d c s"
| "run_op (OpStreamStats d st c u) s = AddStreamStats d st c u s"
| "run_op (OpTokensForStream d st c) s = AddDocTokensForStream d st c s"
| "run_op (OpLengths d t b u a m) s = SetDocLengths d t b u a m s"
| "run_op (OpImportance d x) s = SetDocImportance d x s"
| "run_op (OpPath d p) s = SetDocPath d p s"
| "run_op (OpVectorBytes d v) s = snd (SetDocVectorBytes d v s)"
| "run_op (OpVector q d v) s = snd (SetDocVector q d v s)"

lemma store_wf_run_op: "store_wf s \<Longrightarrow> store_wf (run_op op s)"
  by (cases op)
    (auto simp: AddDocTokensForStream_def SetDocImportance_def SetDocPath_def intro!: wf_intro)

lemma vectors_wf_new: "vectors_wf PostingStore_new"
  by (simp add: vectors_wf_def PostingStore_new_def)

lemma vectors_wf_upd_stats: "vectors_wf s \<Longrightarrow> vectors_wf (upd_stats d f s)"
  by (auto simp: vectors_wf_def upd_stats_def dom_update)

lemma vectors_wf_total: "vectors_wf (s\<lparr>m_TotalTerms := n\<rparr>) = vectors_wf s"
  by (simp add: vectors_wf_def)

lemma vectors_wf_AddPosting: "vectors_wf s \<Longrightarrow> vectors_wf (AddPosting k d tf s)"
  by (simp add: vectors_wf_def AddPosting_def Let_def split: sum.split)

lemma vectors_wf_put:
  "vectors_wf s \<Longrightarrow> vectors_wf ((upd_stats d f s)\<lparr>m_DocVectors := AList.update d v (m_DocVectors s)\<rparr>)"
  by (auto simp: vectors_wf_def upd_stats_def dom_update distinct_update)

lemmas vectors_wf_ops = vectors_wf_upd_stats vectors_wf_total vectors_wf_AddPosting vectors_wf_put

lemma vectors_wf_run_op: "vectors_wf s \<Longrightarrow> vectors_wf (run_op op s)"
  by (cases op)
    (simp_all add: vectors_wf_ops AddDocTokens_def AddStreamStats_def AddDocTokensForStream_def
      SetDocLengths_def SetDocImportance_def SetDocPath_def SetDocVectorBytes_def SetDocVector_def Let_def)

text \<open>
  C1. Every sequence of store operations from an empty store keeps the store well formed: the
  postings, the statistics and the vectors have one entry per key, each posting list is strictly
  ascending in the document id, the entry counter is the number of entries modulo \<open>2 ^ 64\<close>, and
  every document with a vector is a document of the store.
\<close>

theorem store_ops_wf:
  "store_wf (fold run_op ops PostingStore_new) \<and> vectors_wf (fold run_op ops PostingStore_new)"
proof -
  have "store_wf s \<Longrightarrow> vectors_wf s \<Longrightarrow> store_wf (fold run_op ops s) \<and> vectors_wf (fold run_op ops s)" for s
    by (induction ops arbitrary: s) (auto intro: store_wf_run_op vectors_wf_run_op)
  then show ?thesis using store_wf_new vectors_wf_new by blast
qed

lemma entry_or_update: "entry_or d (AList.update k v al) = (entry_or d al)(k := v)"
  by (auto simp: entry_or_def update_conv fun_eq_iff)

lemma postings_of_AddPosting:
  assumes "store_wf s"
  shows "postings_of (AddPosting k d tf s) = (postings_of s)(k := (postings_of s k)(d \<mapsto> tf))"
proof -
  let ?es = "entries (entry_or PostingList_default (m_Postings s) k)"
  have wf: "postings_wf ?es" by (rule entry_wf [OF assms])
  show ?thesis
    unfolding AddPosting_eq [OF wf refl]
    by (auto simp: postings_of_def entry_or_update tf_map_put_posting [OF wf] fun_eq_iff)
qed

text \<open>
  C2. \<open>AddPosting\<close> is a map update: the key's document gets the given frequency (an existing
  entry is overwritten), and every other key and document is left as it was.
\<close>

theorem AddPosting_updates:
  assumes "store_wf s"
  shows "postings_of (AddPosting k d tf s) k' d' =
    (if k' = k \<and> d' = d then Some tf else postings_of s k' d')"
  using postings_of_AddPosting [OF assms] by simp

theorem AddPosting_updates_witness:
  "store_wf PostingStore_new \<and>
   postings_of (AddPosting (str ''catB'') 7 3 PostingStore_new) (str ''catB'') 7 = Some 3"
  using AddPosting_updates [OF store_wf_new, of "str ''catB''" 7 3 "str ''catB''" 7] store_wf_new
  by simp

end
