(* ===== verification/IndexFormat.thy ===== *)
theory IndexFormat
  imports PostingStore
begin

text \<open>
  The on-disk structures of \<open>IndexAccess/BlockTable.rs\<close>: the file header with its layout check,
  the header of the minimal perfect hash, the hash functions, continuation headers, head
  entries and leaf blocks. Fixed-size arrays are lists; the \<open>*_wf\<close> predicates state the lengths
  that the Rust types guarantee.
\<close>

definition PAGE_SIZE :: nat where "PAGE_SIZE = 4096"
definition DOC_REC_SIZE :: nat where "DOC_REC_SIZE = 256"
definition HEAD_TERM_KEY_MAX :: nat where "HEAD_TERM_KEY_MAX = 26"
definition LEAF_TERM_DIRECTORY_COUNT :: nat where "LEAF_TERM_DIRECTORY_COUNT = 161"
definition LEAF_TERM_DATA_OFFSET :: nat where
  "LEAF_TERM_DATA_OFFSET = LEAF_TERM_DIRECTORY_COUNT * 2"
definition PATH_PREFIX_SIDECAR_BYTES :: nat where "PATH_PREFIX_SIDECAR_BYTES = 20 * PAGE_SIZE"
definition INDEX_FILE_MAGIC :: bytes where "INDEX_FILE_MAGIC = str ''MOONSHOT''"
definition INDEX_FILE_HEADER_SIZE :: nat where "INDEX_FILE_HEADER_SIZE = 136"
definition INDEX_FORMAT_VERSION :: u32 where "INDEX_FORMAT_VERSION = 20"
definition INDEX_BLOCK_CONTINUATION_HEADER_SIZE :: nat where
  "INDEX_BLOCK_CONTINUATION_HEADER_SIZE = 12"
definition TERM_MPHF_MAGIC :: u64 where "TERM_MPHF_MAGIC = 0x4850464d4d524554"
definition TERM_MPHF_HEADER_SIZE :: nat where "TERM_MPHF_HEADER_SIZE = 48"
definition LEAF_TERM_ENTRY_SIZE :: nat where "LEAF_TERM_ENTRY_SIZE = 16"
definition TERM_MPHF_ENTRY_SIZE :: nat where "TERM_MPHF_ENTRY_SIZE = 32"

lemmas size_consts = PAGE_SIZE_def DOC_REC_SIZE_def HEAD_TERM_KEY_MAX_def
  LEAF_TERM_DIRECTORY_COUNT_def LEAF_TERM_DATA_OFFSET_def PATH_PREFIX_SIDECAR_BYTES_def
  INDEX_FILE_HEADER_SIZE_def INDEX_BLOCK_CONTINUATION_HEADER_SIZE_def TERM_MPHF_HEADER_SIZE_def
  LEAF_TERM_ENTRY_SIZE_def TERM_MPHF_ENTRY_SIZE_def

subsection \<open>The file header\<close>

record IndexFileHeader =
  IFH_Magic :: bytes
  IFH_Version :: u32
  IFH_AvgDocLength :: f32_bits
  IFH_NumDocuments :: u64
  IFH_NumTerms :: u64
  IFH_HeadTermEntryOffset :: u64
  IFH_HeadTermEntryCount :: u64
  IFH_LeafTermBlockOffset :: u64
  IFH_LeafTermBlockCount :: u64
  IFH_DocDataOffset :: u64
  IFH_IndexBlockOffset :: u64
  IFH_IndexBlockCount :: u64
  IFH_TermMphfHeaderOffset :: u64
  IFH_TermMphfHeaderCount :: u64
  IFH_TermMphfDisplacementOffset :: u64
  IFH_TermMphfDisplacementCount :: u64
  IFH_TermMphfEntryOffset :: u64
  IFH_TermMphfEntryPageCount :: u64

definition IndexFileHeader_zeroed :: IndexFileHeader where
  "IndexFileHeader_zeroed = \<lparr>IFH_Magic = replicate 8 0, IFH_Version = 0, IFH_AvgDocLength = 0,
     IFH_NumDocuments = 0, IFH_NumTerms = 0, IFH_HeadTermEntryOffset = 0,
     IFH_HeadTermEntryCount = 0, IFH_LeafTermBlockOffset = 0, IFH_LeafTermBlockCount = 0,
     IFH_DocDataOffset = 0, IFH_IndexBlockOffset = 0, IFH_IndexBlockCount = 0,
     IFH_TermMphfHeaderOffset = 0, IFH_TermMphfHeaderCount = 0,
     IFH_TermMphfDisplacementOffset = 0, IFH_TermMphfDisplacementCount = 0,
     IFH_TermMphfEntryOffset = 0, IFH_TermMphfEntryPageCount = 0\<rparr>"

definition IndexFileHeader_default :: IndexFileHeader where
  "IndexFileHeader_default = IndexFileHeader_zeroed
     \<lparr>IFH_Magic := INDEX_FILE_MAGIC, IFH_Version := INDEX_FORMAT_VERSION\<rparr>"

definition header_words :: "IndexFileHeader \<Rightarrow> u64 list" where
  "header_words h =
     [IFH_NumDocuments h, IFH_NumTerms h, IFH_HeadTermEntryOffset h, IFH_HeadTermEntryCount h,
      IFH_LeafTermBlockOffset h, IFH_LeafTermBlockCount h, IFH_DocDataOffset h,
      IFH_IndexBlockOffset h, IFH_IndexBlockCount h, IFH_TermMphfHeaderOffset h,
      IFH_TermMphfHeaderCount h, IFH_TermMphfDisplacementOffset h,
      IFH_TermMphfDisplacementCount h, IFH_TermMphfEntryOffset h, IFH_TermMphfEntryPageCount h]"

definition header_to_bytes :: "IndexFileHeader \<Rightarrow> bytes" where
  "header_to_bytes h =
     IFH_Magic h @ u32_to_le (IFH_Version h) @ u32_to_le (IFH_AvgDocLength h) @
     concat (map u64_to_le (header_words h))"

definition is_zeroed :: "IndexFileHeader \<Rightarrow> bool" where
  "is_zeroed h \<longleftrightarrow> list_all (\<lambda>b. b = 0) (header_to_bytes h)"

definition header_parse :: "bytes \<Rightarrow> IndexFileHeader result" where
  "header_parse data =
     (if length data < INDEX_FILE_HEADER_SIZE \<or> subslice 0 8 data \<noteq> INDEX_FILE_MAGIC
      then Inl InvalidFormat
      else if u32_from_le (subslice 8 12 data) \<noteq> INDEX_FORMAT_VERSION then Inl InvalidFormat
      else Inr \<lparr>IFH_Magic = subslice 0 8 data,
        IFH_Version = u32_from_le (subslice 8 12 data),
        IFH_AvgDocLength = u32_from_le (subslice 12 16 data),
        IFH_NumDocuments = u64_from_le (subslice 16 24 data),
        IFH_NumTerms = u64_from_le (subslice 24 32 data),
        IFH_HeadTermEntryOffset = u64_from_le (subslice 32 40 data),
        IFH_HeadTermEntryCount = u64_from_le (subslice 40 48 data),
        IFH_LeafTermBlockOffset = u64_from_le (subslice 48 56 data),
        IFH_LeafTermBlockCount = u64_from_le (subslice 56 64 data),
        IFH_DocDataOffset = u64_from_le (subslice 64 72 data),
        IFH_IndexBlockOffset = u64_from_le (subslice 72 80 data),
        IFH_IndexBlockCount = u64_from_le (subslice 80 88 data),
        IFH_TermMphfHeaderOffset = u64_from_le (subslice 88 96 data),
        IFH_TermMphfHeaderCount = u64_from_le (subslice 96 104 data),
        IFH_TermMphfDisplacementOffset = u64_from_le (subslice 104 112 data),
        IFH_TermMphfDisplacementCount = u64_from_le (subslice 112 120 data),
        IFH_TermMphfEntryOffset = u64_from_le (subslice 120 128 data),
        IFH_TermMphfEntryPageCount = u64_from_le (subslice 128 136 data)\<rparr>)"

definition checked_end :: "u64 \<Rightarrow> u64 \<Rightarrow> u64 \<Rightarrow> u64 option" where
  "checked_end offset count width =
     (case checked_mul64 count width of None \<Rightarrow> None | Some n \<Rightarrow> checked_add64 offset n)"

text \<open>
  \<open>validate_layout\<close>: each section has to start where the one before it ends, computed with
  checked arithmetic; the last end must lie within the file when its size is known.
\<close>

definition bad_counts :: "IndexFileHeader \<Rightarrow> bool" where
  "bad_counts h \<longleftrightarrow>
     IFH_TermMphfHeaderCount h > 1 \<or> IFH_HeadTermEntryCount h > 0xFFFFFFFF \<or>
     IFH_LeafTermBlockCount h > 0xFFFFFFFF \<or> IFH_IndexBlockCount h > 0xFFFFFFFF \<or>
     IFH_TermMphfDisplacementCount h > 0xFFFFFFFF \<or> IFH_TermMphfEntryPageCount h > 0xFFFFFFFF \<or>
     (IFH_TermMphfHeaderCount h = 0 \<and>
       (IFH_TermMphfDisplacementCount h \<noteq> 0 \<or> IFH_TermMphfEntryPageCount h \<noteq> 0)) \<or>
     (IFH_TermMphfHeaderCount h = 1 \<and>
       (IFH_TermMphfDisplacementCount h = 0 \<or> IFH_TermMphfEntryPageCount h = 0))"

text \<open>One section: the end of the previous one becomes the required offset of the next.\<close>

definition section_end :: "u64 \<Rightarrow> u64 \<Rightarrow> nat \<Rightarrow> u64 \<Rightarrow> u64 result" where
  "section_end start count width next_offset =
     (case checked_end start count (word_of_nat width) of
        None \<Rightarrow> Inl InvalidFormat
      | Some e \<Rightarrow> if next_offset \<noteq> e then Inl InvalidFormat else Inr e)"

definition bind_result :: "'a result \<Rightarrow> ('a \<Rightarrow> 'b result) \<Rightarrow> 'b result" where
  "bind_result r f = (case r of Inl e \<Rightarrow> Inl e | Inr x \<Rightarrow> f x)"

definition validate_layout :: "IndexFileHeader \<Rightarrow> u64 option \<Rightarrow> u64 result" where
  "validate_layout h file_bytes =
     (if bad_counts h then Inl InvalidFormat
      else let head = word_of_nat (INDEX_FILE_HEADER_SIZE + PATH_PREFIX_SIDECAR_BYTES) in
        if IFH_HeadTermEntryOffset h \<noteq> head then Inl InvalidFormat else
        bind_result (section_end head (IFH_HeadTermEntryCount h) 32 (IFH_LeafTermBlockOffset h)) (\<lambda>leaf.
        bind_result (section_end leaf (IFH_LeafTermBlockCount h) PAGE_SIZE (IFH_DocDataOffset h)) (\<lambda>docdata.
        bind_result (section_end docdata (IFH_NumDocuments h) DOC_REC_SIZE (IFH_IndexBlockOffset h)) (\<lambda>index.
        bind_result (section_end index (IFH_IndexBlockCount h) PAGE_SIZE (IFH_TermMphfHeaderOffset h)) (\<lambda>mphf.
        bind_result (section_end mphf (IFH_TermMphfHeaderCount h) TERM_MPHF_HEADER_SIZE
                       (IFH_TermMphfDisplacementOffset h)) (\<lambda>displacement.
        bind_result (section_end displacement (IFH_TermMphfDisplacementCount h) 4
                       (IFH_TermMphfEntryOffset h)) (\<lambda>entries.
        case checked_end entries (IFH_TermMphfEntryPageCount h) (word_of_nat PAGE_SIZE) of
          None \<Rightarrow> Inl InvalidFormat
        | Some e \<Rightarrow>
            if (case file_bytes of None \<Rightarrow> False | Some n \<Rightarrow> e > n) then Inl InvalidFormat
            else Inr e)))))))"

subsection \<open>Hash functions and the header of the perfect hash\<close>

definition xorshift_right :: "nat \<Rightarrow> u64 \<Rightarrow> u64" where
  "xorshift_right n x = x XOR drop_bit n x"

definition TermMphfHash :: "bytes \<Rightarrow> u64 \<Rightarrow> u64" where
  "TermMphfHash term seed =
     (let h = fold (\<lambda>b h. (h XOR ucast b) * 1099511628211) term (1469598103934665603 XOR seed)
      in xorshift_right 32 (xorshift_right 32 h * 0xd6e8feb86659fd93))"

definition TermMphfSlotSeed :: "u64 \<Rightarrow> u32 \<Rightarrow> u64" where
  "TermMphfSlotSeed seed displacement =
     (let x = seed XOR (0x9e3779b97f4a7c15 * (ucast displacement + 1));
          x = xorshift_right 30 x * 0xbf58476d1ce4e5b9;
          x = xorshift_right 27 x * 0x94d049bb133111eb
      in xorshift_right 31 x)"

record TermMphfHeader =
  TMH_Magic :: u64
  TMH_TermCount :: u64
  TMH_BucketCount :: u32
  TMH_SlotCount :: u32
  TMH_BucketSeed :: u64
  TMH_SlotSeed :: u64
  TMH_FingerprintSeed :: u64

definition TermMphfHeader_default :: TermMphfHeader where
  "TermMphfHeader_default = \<lparr>TMH_Magic = TERM_MPHF_MAGIC, TMH_TermCount = 0, TMH_BucketCount = 0,
     TMH_SlotCount = 0, TMH_BucketSeed = 0, TMH_SlotSeed = 0, TMH_FingerprintSeed = 0\<rparr>"

definition TermMphfHeader_zeroed :: TermMphfHeader where
  "TermMphfHeader_zeroed = TermMphfHeader_default\<lparr>TMH_Magic := 0\<rparr>"

definition mphf_to_bytes :: "TermMphfHeader \<Rightarrow> bytes" where
  "mphf_to_bytes h =
     u64_to_le (TMH_Magic h) @ u64_to_le (TMH_TermCount h) @ u32_to_le (TMH_BucketCount h) @
     u32_to_le (TMH_SlotCount h) @ u64_to_le (TMH_BucketSeed h) @ u64_to_le (TMH_SlotSeed h) @
     u64_to_le (TMH_FingerprintSeed h)"

definition mphf_from_bytes :: "bytes \<Rightarrow> TermMphfHeader option" where
  "mphf_from_bytes data =
     (if length data < TERM_MPHF_HEADER_SIZE then None
      else Some \<lparr>TMH_Magic = u64_from_le (subslice 0 8 data),
        TMH_TermCount = u64_from_le (subslice 8 16 data),
        TMH_BucketCount = u32_from_le (subslice 16 20 data),
        TMH_SlotCount = u32_from_le (subslice 20 24 data),
        TMH_BucketSeed = u64_from_le (subslice 24 32 data),
        TMH_SlotSeed = u64_from_le (subslice 32 40 data),
        TMH_FingerprintSeed = u64_from_le (subslice 40 48 data)\<rparr>)"

subsection \<open>Continuation headers and head entries\<close>

record IndexBlockContinuationHeader =
  IBCH_MaxDocID :: u64
  IBCH_DataLength :: u32

definition ibch_from_bytes :: "bytes \<Rightarrow> IndexBlockContinuationHeader option" where
  "ibch_from_bytes data =
     (if length data < INDEX_BLOCK_CONTINUATION_HEADER_SIZE then None
      else Some \<lparr>IBCH_MaxDocID = u64_from_le (subslice 0 8 data),
                 IBCH_DataLength = u32_from_le (subslice 8 12 data)\<rparr>)"

definition ibch_bytes :: "IndexBlockContinuationHeader \<Rightarrow> bytes" where
  "ibch_bytes h = u64_to_le (IBCH_MaxDocID h) @ u32_to_le (IBCH_DataLength h)"

record HeadTermEntry =
  HTE_LeafTermBlockID :: u32
  HTE_FirstTermLength :: u16
  HTE_FirstTerm :: bytes

text \<open>\<open>HeadTermEntry::new\<close> panics when the term does not fit the array: \<open>None\<close>.\<close>

definition HeadTermEntry_new :: "rstr \<Rightarrow> u32 \<Rightarrow> HeadTermEntry option" where
  "HeadTermEntry_new term block_id =
     (if length term > HEAD_TERM_KEY_MAX then None
      else Some \<lparr>HTE_LeafTermBlockID = block_id, HTE_FirstTermLength = word_of_nat (length term),
                 HTE_FirstTerm = put 0 term (replicate HEAD_TERM_KEY_MAX 0)\<rparr>)"

definition first_term :: "HeadTermEntry \<Rightarrow> rstr" where
  "first_term e =
     (case from_utf8 (subslice 0 (unat (HTE_FirstTermLength e)) (HTE_FirstTerm e)) of
        None \<Rightarrow> [] | Some t \<Rightarrow> t)"

definition hte_to_bytes :: "HeadTermEntry \<Rightarrow> bytes" where
  "hte_to_bytes e =
     u32_to_le (HTE_LeafTermBlockID e) @ u16_to_le (HTE_FirstTermLength e) @ HTE_FirstTerm e"

definition hte_from_bytes :: "bytes \<Rightarrow> HeadTermEntry option" where
  "hte_from_bytes data =
     (if length data < 32 then None
      else let term_length = u16_from_le (subslice 4 6 data) in
        if unat term_length > HEAD_TERM_KEY_MAX then None
        else Some \<lparr>HTE_LeafTermBlockID = u32_from_le (subslice 0 4 data),
                   HTE_FirstTermLength = term_length, HTE_FirstTerm = subslice 6 32 data\<rparr>)"

subsection \<open>Leaf blocks\<close>

record LeafTermEntry =
  LTE_Term :: rstr
  LTE_DocFreq :: u32
  LTE_IndexBlockID :: u32
  LTE_IndexOffset :: u16
  LTE_IndexLength :: u16
  LTE_ContinuationBlockCount :: u16
  LTE_Flags :: u8
  LTE_TermLength :: u8

definition lte_byte_len :: "LeafTermEntry \<Rightarrow> nat" where
  "lte_byte_len e = LEAF_TERM_ENTRY_SIZE + length (LTE_Term e)"

record LeafTermBlock =
  LTB_Directory :: "u16 list"
  LTB_Data :: bytes

definition LeafTermBlock_default :: LeafTermBlock where
  "LeafTermBlock_default =
     \<lparr>LTB_Directory = replicate LEAF_TERM_DIRECTORY_COUNT 0,
      LTB_Data = replicate (PAGE_SIZE - LEAF_TERM_DATA_OFFSET) 0\<rparr>"

definition leaf_block_wf :: "LeafTermBlock \<Rightarrow> bool" where
  "leaf_block_wf b \<longleftrightarrow> length (LTB_Directory b) = LEAF_TERM_DIRECTORY_COUNT \<and>
     length (LTB_Data b) = PAGE_SIZE - LEAF_TERM_DATA_OFFSET"

definition entry_count :: "LeafTermBlock \<Rightarrow> nat" where
  "entry_count b =
     min (unat (LTB_Directory b ! (LEAF_TERM_DIRECTORY_COUNT - 1))) (LEAF_TERM_DIRECTORY_COUNT - 1)"

definition leaf_entry :: "LeafTermBlock \<Rightarrow> nat \<Rightarrow> LeafTermEntry option" where
  "leaf_entry b index =
     (if index \<ge> entry_count b then None
      else let block_offset = unat (LTB_Directory b ! index) in
        if block_offset < LEAF_TERM_DATA_OFFSET then None
        else let offset = block_offset - LEAF_TERM_DATA_OFFSET in
          if offset + LEAF_TERM_ENTRY_SIZE > length (LTB_Data b) then None
          else let data = drop offset (LTB_Data b); term_len = unat (data ! 15) in
            if offset + LEAF_TERM_ENTRY_SIZE + term_len > length (LTB_Data b) then None
            else case from_utf8 (subslice 16 (16 + term_len) data) of
              None \<Rightarrow> None
            | Some t \<Rightarrow> Some \<lparr>LTE_Term = t,
                LTE_DocFreq = u32_from_le (subslice 0 4 data),
                LTE_IndexBlockID = u32_from_le (subslice 4 8 data),
                LTE_IndexOffset = u16_from_le (subslice 8 10 data),
                LTE_IndexLength = u16_from_le (subslice 10 12 data),
                LTE_ContinuationBlockCount = u16_from_le (subslice 12 14 data),
                LTE_Flags = data ! 14, LTE_TermLength = data ! 15\<rparr>)"

definition leaf_entries :: "LeafTermBlock \<Rightarrow> LeafTermEntry list" where
  "leaf_entries b = List.map_filter (leaf_entry b) [0..<entry_count b]"

definition leaf_to_bytes :: "LeafTermBlock \<Rightarrow> bytes" where
  "leaf_to_bytes b = concat (map u16_to_le (LTB_Directory b)) @ LTB_Data b"

definition leaf_from_bytes :: "bytes \<Rightarrow> LeafTermBlock option" where
  "leaf_from_bytes data =
     (if length data < PAGE_SIZE then None
      else let dir = map (\<lambda>i. u16_from_le (subslice (i * 2) (i * 2 + 2) data)) [0..<LEAF_TERM_DIRECTORY_COUNT];
               block = \<lparr>LTB_Directory = dir, LTB_Data = subslice LEAF_TERM_DATA_OFFSET PAGE_SIZE data\<rparr>
        in if unat (dir ! (LEAF_TERM_DIRECTORY_COUNT - 1)) > LEAF_TERM_DIRECTORY_COUNT - 1 then None
           else if list_all (\<lambda>i. leaf_entry block i \<noteq> None) [0..<entry_count block] then Some block
           else None)"

text \<open>\<open>WriteLeafEntry\<close> of \<open>IndexSerializer.rs\<close>: a directory slot and the record it points to.\<close>

definition lte_bytes :: "LeafTermEntry \<Rightarrow> bytes" where
  "lte_bytes e =
     u32_to_le (LTE_DocFreq e) @ u32_to_le (LTE_IndexBlockID e) @ u16_to_le (LTE_IndexOffset e) @
     u16_to_le (LTE_IndexLength e) @ u16_to_le (LTE_ContinuationBlockCount e) @
     [LTE_Flags e, LTE_TermLength e] @ LTE_Term e"

definition WriteLeafEntry :: "LeafTermBlock \<Rightarrow> nat \<Rightarrow> nat \<Rightarrow> LeafTermEntry \<Rightarrow> LeafTermBlock" where
  "WriteLeafEntry b entryIndex offset e =
     b\<lparr>LTB_Directory := (LTB_Directory b)[entryIndex := word_of_nat (LEAF_TERM_DATA_OFFSET + offset)],
       LTB_Data := put offset (lte_bytes e) (LTB_Data b)\<rparr>"

subsection \<open>Round trips\<close>

lemma slice_append_slice: "a \<le> b \<Longrightarrow> b \<le> c \<Longrightarrow> subslice a b xs @ subslice b c xs = subslice a c xs"
  using take_add [of "b - a" "c - b" "drop a xs"] by (simp add: subslice_def)

lemma slice_append_exact:
  "length xs = n \<Longrightarrow> subslice 0 n (xs @ ys) = xs"
  "length xs = n \<Longrightarrow> n \<le> a \<Longrightarrow> subslice a b (xs @ ys) = subslice (a - n) (b - n) ys"
  by (simp_all add: subslice_def)

lemmas slice_app = slice_append_exact [OF length_u16_to_le] slice_append_exact [OF length_u32_to_le]
  slice_append_exact [OF length_u64_to_le]

lemma magic_length [simp]: "length INDEX_FILE_MAGIC = 8"
  by (simp add: INDEX_FILE_MAGIC_def str_def)

lemma header_parse_to_bytes:
  assumes "IFH_Magic h = INDEX_FILE_MAGIC" and "IFH_Version h = INDEX_FORMAT_VERSION"
  shows "header_parse (header_to_bytes h) = Inr h"
  using assms
  by (simp add: header_parse_def header_to_bytes_def header_words_def size_consts
      slice_append_exact [OF magic_length] slice_app)

lemma header_to_bytes_parse:
  assumes "header_parse data = Inr h"
  shows "IFH_Magic h = INDEX_FILE_MAGIC" and "IFH_Version h = INDEX_FORMAT_VERSION"
    and "header_to_bytes h = subslice 0 136 data"
proof -
  have len: "136 \<le> length data" and magic: "subslice 0 8 data = INDEX_FILE_MAGIC"
    and version: "u32_from_le (subslice 8 12 data) = INDEX_FORMAT_VERSION"
    using assms by (auto simp: header_parse_def size_consts not_less split: if_splits)
  show hm: "IFH_Magic h = INDEX_FILE_MAGIC" and hv: "IFH_Version h = INDEX_FORMAT_VERSION"
    using assms by (auto simp: header_parse_def split: if_splits)
  have v: "u32_to_le INDEX_FORMAT_VERSION = subslice 8 12 data"
    unfolding version [symmetric] using len by (simp add: u32_to_from_le)
  have "u32_to_le (IFH_AvgDocLength h) @ concat (map u64_to_le (header_words h)) = subslice 12 136 data"
    using assms len
    by (auto simp: header_parse_def header_words_def u32_to_from_le u64_to_from_le
        slice_append_slice split: if_splits)
  then show "header_to_bytes h = subslice 0 136 data"
    by (simp add: header_to_bytes_def hm hv v magic [symmetric] slice_append_slice)
qed

lemma mphf_from_to_bytes [codec]: "mphf_from_bytes (mphf_to_bytes h) = Some h"
  by (simp add: mphf_from_bytes_def mphf_to_bytes_def size_consts slice_app)

lemma hte_from_to_bytes [codec]:
  assumes "length (HTE_FirstTerm e) = HEAD_TERM_KEY_MAX"
    and "unat (HTE_FirstTermLength e) \<le> HEAD_TERM_KEY_MAX"
  shows "hte_from_bytes (hte_to_bytes e) = Some e"
  using assms by (simp add: hte_from_bytes_def hte_to_bytes_def size_consts slice_app Let_def)

lemma ibch_from_bytes_append [codec]: "ibch_from_bytes (ibch_bytes h @ rest) = Some h"
  by (simp add: ibch_from_bytes_def ibch_bytes_def size_consts slice_app)

lemma length_ibch_bytes [simp]: "length (ibch_bytes h) = 12"
  by (simp add: ibch_bytes_def)

lemma first_term_new:
  assumes "HeadTermEntry_new term block_id = Some e" and "utf8_valid term"
  shows "first_term e = term" and "HTE_LeafTermBlockID e = block_id"
    and "length (HTE_FirstTerm e) = HEAD_TERM_KEY_MAX"
    and "unat (HTE_FirstTermLength e) \<le> HEAD_TERM_KEY_MAX"
proof -
  have len: "length term \<le> 26" and e: "e = \<lparr>HTE_LeafTermBlockID = block_id,
      HTE_FirstTermLength = word_of_nat (length term), HTE_FirstTerm = put 0 term (replicate 26 0)\<rparr>"
    using assms(1) by (auto simp: HeadTermEntry_new_def size_consts split: if_splits)
  have "unat (word_of_nat (length term) :: u16) = length term"
    using len by (simp add: unat_of_nat)
  then show "first_term e = term" and "HTE_LeafTermBlockID e = block_id"
    and "length (HTE_FirstTerm e) = HEAD_TERM_KEY_MAX"
    and "unat (HTE_FirstTermLength e) \<le> HEAD_TERM_KEY_MAX"
    using len assms(2)
    by (simp_all add: e first_term_def from_utf8_def size_consts subslice_def put_def)
qed

subsection \<open>The layout check\<close>

text \<open>The same condition over the natural numbers: contiguous sections without overflow.\<close>

definition layout_ends :: "IndexFileHeader \<Rightarrow> nat list" where
  "layout_ends h =
     (let head = 136 + 20 * 4096;
          leaf = head + unat (IFH_HeadTermEntryCount h) * 32;
          docdata = leaf + unat (IFH_LeafTermBlockCount h) * 4096;
          index = docdata + unat (IFH_NumDocuments h) * 256;
          mphf = index + unat (IFH_IndexBlockCount h) * 4096;
          disp = mphf + unat (IFH_TermMphfHeaderCount h) * 48;
          ents = disp + unat (IFH_TermMphfDisplacementCount h) * 4;
          stop = ents + unat (IFH_TermMphfEntryPageCount h) * 4096
      in [head, leaf, docdata, index, mphf, disp, ents, stop])"

definition header_offsets :: "IndexFileHeader \<Rightarrow> u64 list" where
  "header_offsets h =
     [IFH_HeadTermEntryOffset h, IFH_LeafTermBlockOffset h, IFH_DocDataOffset h,
      IFH_IndexBlockOffset h, IFH_TermMphfHeaderOffset h, IFH_TermMphfDisplacementOffset h,
      IFH_TermMphfEntryOffset h]"

lemma checked_end_Some:
  "checked_end offset count width = Some e \<longleftrightarrow>
     unat offset + unat count * unat width < 2 ^ 64 \<and> unat e = unat offset + unat count * unat width"
  (is "?l \<longleftrightarrow> ?r")
proof
  assume ?l
  then show ?r
    by (auto simp: checked_end_def checked_add64_Some checked_mul64_Some split: option.splits)
next
  assume r: ?r
  then have m: "checked_mul64 count width = Some (count * width)"
    and um: "unat (count * width) = unat count * unat width"
    by (auto simp: checked_mul64_def unat_word_ariths)
  have "unat e = unat (offset + count * width)"
    using r um by (simp add: unat_word_ariths)
  then have "e = offset + count * width" by (simp add: word_unat_eq_iff)
  with r um show ?l
    by (simp add: checked_end_def m checked_add64_def)
qed

lemma checked_end_None:
  "checked_end offset count width = None \<longleftrightarrow> \<not> unat offset + unat count * unat width < 2 ^ 64"
proof (cases "unat offset + unat count * unat width < 2 ^ 64")
  case True
  then have "unat (word_of_nat (unat offset + unat count * unat width) :: u64) =
      unat offset + unat count * unat width"
    by (subst unat_of_nat) simp
  with True have "checked_end offset count width = Some (word_of_nat (unat offset + unat count * unat width))"
    by (simp only: checked_end_Some simp_thms)
  with True show ?thesis by simp
next
  case False
  then show ?thesis
    by (metis checked_end_Some not_None_eq)
qed

lemma section_end_Inr:
  assumes "width < 2 ^ 64"
  shows "section_end start count width next_offset = Inr e \<longleftrightarrow>
    e = next_offset \<and> unat start + unat count * width < 2 ^ 64 \<and>
    unat next_offset = unat start + unat count * width"
proof -
  have w: "unat (word_of_nat width :: u64) = width"
    using assms by (simp add: unat_of_nat)
  show ?thesis
  proof (cases "checked_end start count (word_of_nat width)")
    case None
    moreover from None have "\<not> unat start + unat count * width < 2 ^ 64"
      by (simp add: checked_end_None w)
    ultimately show ?thesis by (simp add: section_end_def)
  next
    case (Some a)
    then have "unat start + unat count * width < 2 ^ 64" and "unat a = unat start + unat count * width"
      by (simp_all add: checked_end_Some w)
    with Some show ?thesis
      by (auto simp: section_end_def word_unat_eq_iff)
  qed
qed

lemma bind_result_Inr: "bind_result r f = Inr y \<longleftrightarrow> (\<exists>x. r = Inr x \<and> f x = Inr y)"
  by (auto simp: bind_result_def split: sum.splits)

lemma validate_layout_iff:
  "validate_layout h file_bytes = Inr e \<longleftrightarrow>
     \<not> bad_counts h \<and> map unat (header_offsets h) = butlast (layout_ends h) \<and>
     last (layout_ends h) < 2 ^ 64 \<and> unat e = last (layout_ends h) \<and>
     (case file_bytes of None \<Rightarrow> True | Some n \<Rightarrow> e \<le> n)"
proof -
  have fin: "(case checked_end s c 4096 of None \<Rightarrow> Inl InvalidFormat
        | Some e \<Rightarrow> if (case file_bytes of None \<Rightarrow> False | Some n \<Rightarrow> e > n) then Inl InvalidFormat else Inr e) = Inr e
      \<longleftrightarrow> unat s + unat c * 4096 < 2 ^ 64 \<and> unat e = unat s + unat c * 4096 \<and>
          (case file_bytes of None \<Rightarrow> True | Some n \<Rightarrow> e \<le> n)" for s c :: u64
  proof (cases "checked_end s c 4096")
    case None
    moreover from None have "\<not> unat s + unat c * 4096 < 2 ^ 64"
      by (simp add: checked_end_None)
    ultimately show ?thesis by simp
  next
    case (Some a)
    then have "unat s + unat c * 4096 < 2 ^ 64" and "unat a = unat s + unat c * 4096"
      by (simp_all add: checked_end_Some)
    moreover from this have "e = a \<longleftrightarrow> unat e = unat s + unat c * 4096"
      by (simp add: word_unat_eq_iff)
    ultimately show ?thesis
      using Some by (auto simp: not_less split: option.splits)
  qed
  have head: "IFH_HeadTermEntryOffset h = 82056 \<longleftrightarrow> unat (IFH_HeadTermEntryOffset h) = 82056"
    by (simp add: word_unat_eq_iff)
  show ?thesis
    unfolding validate_layout_def Let_def size_consts
    by (auto simp: bind_result_Inr section_end_Inr fin head layout_ends_def Let_def header_offsets_def)
qed

subsection \<open>Leaf entries\<close>

lemma length_lte_bytes [simp]: "length (lte_bytes e) = lte_byte_len e"
  by (simp add: lte_bytes_def lte_byte_len_def size_consts)

text \<open>A leaf entry the serializer may write: a valid term of at most 26 bytes, with its length.\<close>

definition leaf_entry_wf :: "LeafTermEntry \<Rightarrow> bool" where
  "leaf_entry_wf e \<longleftrightarrow> utf8_valid (LTE_Term e) \<and> length (LTE_Term e) \<le> HEAD_TERM_KEY_MAX \<and>
     LTE_TermLength e = word_of_nat (length (LTE_Term e))"

lemma leaf_entry_at:
  assumes "index < entry_count b" and "unat (LTB_Directory b ! index) = LEAF_TERM_DATA_OFFSET + offset"
    and "subslice offset (offset + lte_byte_len e) (LTB_Data b) = lte_bytes e"
    and "leaf_entry_wf e"
  shows "leaf_entry b index = Some e"
proof -
  have fits: "offset + lte_byte_len e \<le> length (LTB_Data b)"
    using arg_cong [OF assms(3), of length] by (auto simp: lte_byte_len_def size_consts min_def split: if_splits)
  define data where "data = drop offset (LTB_Data b)"
  obtain rest where data: "data = lte_bytes e @ rest"
    using assms(3) by (metis append_take_drop_id data_def slice_take_drop)
  have tl: "unat (LTE_TermLength e) = length (LTE_Term e)"
    using assms(4) by (simp add: leaf_entry_wf_def size_consts unat_of_nat)
  have fields: "data ! 14 = LTE_Flags e" "data ! 15 = LTE_TermLength e"
    "subslice 16 (16 + length (LTE_Term e)) data = LTE_Term e"
    "u32_from_le (subslice 0 4 data) = LTE_DocFreq e" "u32_from_le (subslice 4 8 data) = LTE_IndexBlockID e"
    "u16_from_le (subslice 8 10 data) = LTE_IndexOffset e" "u16_from_le (subslice 10 12 data) = LTE_IndexLength e"
    "u16_from_le (subslice 12 14 data) = LTE_ContinuationBlockCount e"
    by (simp_all add: data lte_bytes_def nth_append slice_app) (simp_all add: subslice_def)
  have "from_utf8 (subslice 16 (16 + length (LTE_Term e)) data) = Some (LTE_Term e)"
    using assms(4) by (simp add: fields from_utf8_def leaf_entry_wf_def)
  then show ?thesis
    using assms(1,2) fits
    by (simp add: leaf_entry_def Let_def data_def [symmetric] fields tl lte_byte_len_def size_consts)
qed

lemma concat_u16_slices:
  "i < length ws \<Longrightarrow> subslice (i * 2) (Suc (Suc (i * 2))) (concat (map u16_to_le ws) @ ys) = u16_to_le (ws ! i)"
proof (induction ws arbitrary: i)
  case Nil
  then show ?case by simp
next
  case (Cons w ws)
  show ?case
  proof (cases i)
    case 0
    then show ?thesis by (simp add: subslice_def)
  next
    case (Suc k)
    with Cons show ?thesis by (simp add: subslice_def)
  qed
qed

lemma length_concat_u16 [simp]: "length (concat (map u16_to_le ws)) = 2 * length ws"
  by (induction ws) auto

lemma leaf_from_to_bytes:
  assumes "leaf_block_wf b" and "unat (LTB_Directory b ! 160) \<le> 160"
    and "\<forall>i < entry_count b. leaf_entry b i \<noteq> None"
  shows "leaf_from_bytes (leaf_to_bytes b) = Some b"
proof -
  have len: "length (LTB_Directory b) = 161" "length (LTB_Data b) = 3774"
    using assms(1) by (simp_all add: leaf_block_wf_def size_consts)
  have dir: "map (\<lambda>i. u16_from_le (subslice (i * 2) (i * 2 + 2) (leaf_to_bytes b))) [0..<161] = LTB_Directory b"
    by (rule nth_equalityI) (simp_all add: len leaf_to_bytes_def concat_u16_slices)
  have data: "subslice LEAF_TERM_DATA_OFFSET PAGE_SIZE (leaf_to_bytes b) = LTB_Data b"
    by (simp add: leaf_to_bytes_def slice_append_right len size_consts)
  have same: "\<lparr>LTB_Directory = LTB_Directory b, LTB_Data = LTB_Data b\<rparr> = b"
    by simp
  have "length (leaf_to_bytes b) = 4096"
    by (simp add: leaf_to_bytes_def len)
  then show ?thesis
    unfolding leaf_from_bytes_def Let_def data LEAF_TERM_DIRECTORY_COUNT_def dir same
    using assms(2,3) by (simp add: PAGE_SIZE_def list_all_iff)
qed

lemma header_parse_prefix:
  "136 \<le> length data \<Longrightarrow> header_parse data = header_parse (subslice 0 136 data)"
  by (simp add: header_parse_def size_consts slice_slice)

lemma header_parse_error: "header_parse data = Inl e \<Longrightarrow> e = InvalidFormat"
  by (auto simp: header_parse_def Let_def split: if_splits)

text \<open>
  C4. The header codec is exact: \<open>parse\<close> accepts a byte string if and only if it starts with the
  136-byte serialisation of a header with the right magic and version, and it returns that header;
  every other byte string is answered with \<open>InvalidFormat\<close>, a string that is too short as well as
  one with another magic or another version.
\<close>

theorem header_parse_exact:
  "(header_parse data = Inr h \<longleftrightarrow>
      136 \<le> length data \<and> subslice 0 136 data = header_to_bytes h \<and>
      IFH_Magic h = INDEX_FILE_MAGIC \<and> IFH_Version h = INDEX_FORMAT_VERSION) \<and>
   (header_parse data = Inl e \<longleftrightarrow>
      e = InvalidFormat \<and>
      (\<nexists>h'. 136 \<le> length data \<and> subslice 0 136 data = header_to_bytes h' \<and>
        IFH_Magic h' = INDEX_FILE_MAGIC \<and> IFH_Version h' = INDEX_FORMAT_VERSION))"
proof -
  let ?ok = "\<lambda>h. 136 \<le> length data \<and> subslice 0 136 data = header_to_bytes h \<and>
     IFH_Magic h = INDEX_FILE_MAGIC \<and> IFH_Version h = INDEX_FORMAT_VERSION"
  have iff: "header_parse data = Inr h' \<longleftrightarrow> ?ok h'" for h'
  proof
    assume parse: "header_parse data = Inr h'"
    then have "136 \<le> length data"
      by (auto simp: header_parse_def size_consts split: if_splits)
    with header_to_bytes_parse [OF parse] show "?ok h'" by simp
  next
    assume "?ok h'"
    then show "header_parse data = Inr h'"
      using header_parse_prefix [of data] header_parse_to_bytes [of h'] by simp
  qed
  have "header_parse data = Inl e \<longleftrightarrow> e = InvalidFormat \<and> (\<nexists>h'. header_parse data = Inr h')"
    using header_parse_error [of data] by (cases "header_parse data") auto
  then show ?thesis by (simp add: iff)
qed

text \<open>
  C5. The layout check accepts a header exactly when its counts are admissible, every section
  offset is the end of the section before it computed without overflow, and the end of the last
  section (the value returned) lies within the file when the file size is known.
\<close>

theorem validate_layout_exact:
  "validate_layout h file_bytes = Inr e \<longleftrightarrow>
     \<not> bad_counts h \<and> map unat (header_offsets h) = butlast (layout_ends h) \<and>
     last (layout_ends h) < 2 ^ 64 \<and> unat e = last (layout_ends h) \<and>
     (case file_bytes of None \<Rightarrow> True | Some n \<Rightarrow> e \<le> n)"
  by (rule validate_layout_iff)

end
