(* ===== verification/BlockCache.thy ===== *)
theory BlockCache
  imports IndexFormat
begin

text \<open>
  The block cache of \<open>IndexAccess/BlockTable.rs\<close> (\<open>BlockCachePool\<close>, \<open>ProcessGetBlockLocked\<close>,
  \<open>TryPinReadyOrWait\<close>, \<open>LoadSequentialWindow\<close>, \<open>SetPoolMemory\<close>, \<open>Init\<close>, \<open>BlockHandle::drop\<close>).

  The pinned memory is a list of page frames, one per slot. Every critical section under the
  pool's mutex is one function; the read from disk between the two sections of
  \<open>ProcessGetBlockLocked\<close> happens without the lock, so other threads' sections may come in
  between: \<open>cache_step\<close> interleaves them freely. Waiting on the condition variable is the outcome
  \<open>RWait\<close>, which changes nothing and is retried.
\<close>

definition MAX32 :: u32 where "MAX32 = 0xFFFFFFFF"

record IndexSlotEntry =
  BlockID :: u32
  Ref :: u32
  Loading :: bool

definition IndexSlotEntry_default :: IndexSlotEntry where
  "IndexSlotEntry_default = \<lparr>BlockID = MAX32, Ref = 0, Loading = False\<rparr>"

record BlockCacheState =
  BCP_Pages :: "bytes list option"
  BCP_BaseOffset :: u64
  BCP_TotalBlockCount :: u32
  BCP_SlotCount :: u32
  BCP_EvictSlot :: u32
  BCP_LogicTable :: "u32 list option"
  BCP_SlotTable :: "IndexSlotEntry list option"

definition BlockCacheState_new :: BlockCacheState where
  "BlockCacheState_new = \<lparr>BCP_Pages = None, BCP_BaseOffset = 0, BCP_TotalBlockCount = 0,
     BCP_SlotCount = 0, BCP_EvictSlot = 0, BCP_LogicTable = None, BCP_SlotTable = None\<rparr>"

record BlockAccessCounters =
  m_CacheHits :: u64
  m_CacheMisses :: u64
  m_DiskReads :: u64

text \<open>\<open>SetPoolMemory\<close>: every block resident in the slot of its own number.\<close>

definition SetPoolMemory :: "bytes list option \<Rightarrow> BlockCacheState" where
  "SetPoolMemory blocks =
     (case blocks of
        None \<Rightarrow> BlockCacheState_new
      | Some bs \<Rightarrow> BlockCacheState_new
          \<lparr>BCP_TotalBlockCount := word_of_nat (length bs), BCP_SlotCount := word_of_nat (length bs),
           BCP_EvictSlot := word_of_nat (length bs), BCP_Pages := Some bs,
           BCP_LogicTable := Some (map word_of_nat [0..<length bs]),
           BCP_SlotTable := Some (map (\<lambda>i. \<lparr>BlockID = word_of_nat i, Ref = 0, Loading = False\<rparr>)
                                    [0..<length bs])\<rparr>)"

text \<open>
  \<open>Init\<close>: tables for \<open>blockCount\<close> blocks and the resident window filled from the file. \<open>opened\<close> is
  the outcome of opening the path (\<open>None\<close> without a path), \<open>read_window n\<close> that of the one \<open>ReadBlock\<close>
  of the first \<open>n\<close> pages. On an error the state is left as far as it was built.
\<close>

datatype InitError = NotFound | InvalidInput | UnexpectedEof

definition Init_pool ::
  "bool option \<Rightarrow> (nat \<Rightarrow> bytes list option) \<Rightarrow> u64 \<Rightarrow> u32 \<Rightarrow> u32 \<Rightarrow> InitError option \<times> BlockCacheState" where
  "Init_pool opened read_window baseOffset blockCount slotCount =
     (let n = min slotCount blockCount;
          s = BlockCacheState_new
            \<lparr>BCP_BaseOffset := baseOffset, BCP_TotalBlockCount := blockCount, BCP_SlotCount := n,
             BCP_EvictSlot := n\<rparr>;
          s' = s\<lparr>BCP_Pages := Some (replicate (unat n) (replicate PAGE_SIZE 0)),
             BCP_LogicTable := Some (replicate (unat blockCount) MAX32),
             BCP_SlotTable := Some (replicate (unat n) IndexSlotEntry_default)\<rparr>
      in if opened = Some False then (Some NotFound, s)
         else if n = 0 then (None, s')
         else if opened = None then (Some InvalidInput, s')
         else case read_window (unat n) of
           None \<Rightarrow> (Some UnexpectedEof, s')
         | Some pages \<Rightarrow> (None, s'
             \<lparr>BCP_Pages := Some pages,
              BCP_LogicTable := Some (map word_of_nat [0..<unat n] @
                                        replicate (unat blockCount - unat n) MAX32),
              BCP_SlotTable := Some (map (\<lambda>i. IndexSlotEntry_default\<lparr>BlockID := word_of_nat i\<rparr>)
                                       [0..<unat n])\<rparr>))"

text \<open>The eviction scan: up to \<open>SlotCount\<close> candidates from the clock hand on.\<close>

fun evict_scan :: "nat \<Rightarrow> IndexSlotEntry list \<Rightarrow> u32 \<Rightarrow> u32 \<Rightarrow> u32 \<times> u32" where
  "evict_scan 0 slots slotCount evictSlot = (MAX32, evictSlot)"
| "evict_scan (Suc n) slots slotCount evictSlot =
     (let candidate = evictSlot mod slotCount; evictSlot' = evictSlot + 1;
          entry = slots ! unat candidate
      in if Ref entry = 0 \<and> \<not> Loading entry then (candidate, evictSlot')
         else evict_scan n slots slotCount evictSlot')"

datatype reserve_result = RNone | RHit u32 | RWait | RMiss u32

definition reserve_miss ::
  "u32 \<Rightarrow> u32 list \<Rightarrow> IndexSlotEntry list \<Rightarrow> BlockCacheState \<Rightarrow> reserve_result \<times> BlockCacheState" where
  "reserve_miss seq logic slots s =
     (let (found, evict) = evict_scan (unat (BCP_SlotCount s)) slots (BCP_SlotCount s) (BCP_EvictSlot s);
          s = s\<lparr>BCP_EvictSlot := evict\<rparr>
      in if found = MAX32 then (RNone, s)
         else let oldBlock = BlockID (slots ! unat found);
                  logic = (if oldBlock \<noteq> MAX32 then logic[unat oldBlock := MAX32] else logic);
                  slots = slots[unat found := \<lparr>BlockID = seq, Ref = 1, Loading = True\<rparr>]
           in (RMiss found, s\<lparr>BCP_LogicTable := Some (logic[unat seq := found]),
                              BCP_SlotTable := Some slots\<rparr>))"

text \<open>First critical section of \<open>ProcessGetBlockLocked\<close>.\<close>

definition get_reserve ::
  "u32 \<Rightarrow> BlockCacheState \<times> BlockAccessCounters \<Rightarrow> reserve_result \<times> BlockCacheState \<times> BlockAccessCounters" where
  "get_reserve seq = (\<lambda>(s, c).
     (case (BCP_Pages s, BCP_LogicTable s, BCP_SlotTable s) of
        (Some pages, Some logic, Some slots) \<Rightarrow>
          if seq \<ge> BCP_TotalBlockCount s \<or> BCP_SlotCount s = 0 then (RNone, s, c)
          else
            let slot = logic ! unat seq; entry = slots ! unat slot;
                miss = (case reserve_miss seq logic slots s of
                          (r, s') \<Rightarrow> (r, s', c\<lparr>m_CacheMisses := m_CacheMisses c + 1\<rparr>))
            in if slot = MAX32 \<or> slot \<ge> BCP_SlotCount s then miss
               else if \<not> Loading entry then
                 if BlockID entry = seq then
                   (RHit slot,
                    s\<lparr>BCP_SlotTable := Some (slots[unat slot := entry\<lparr>Ref := Ref entry + 1\<rparr>])\<rparr>,
                    c\<lparr>m_CacheHits := m_CacheHits c + 1\<rparr>)
                 else miss
               else (RWait, s, c)
      | _ \<Rightarrow> (RNone, s, c)))"

text \<open>
  Second critical section: \<open>frame\<close> is what the read left in the slot's page, \<open>ok\<close> its outcome.
\<close>

definition get_complete ::
  "u32 \<Rightarrow> u32 \<Rightarrow> bool \<Rightarrow> bytes \<Rightarrow> BlockCacheState \<times> BlockAccessCounters \<Rightarrow>
   BlockCacheState \<times> BlockAccessCounters" where
  "get_complete seq found ok frame = (\<lambda>(s, c).
     (let s = s\<lparr>BCP_Pages := map_option (\<lambda>pages. pages[unat found := frame]) (BCP_Pages s)\<rparr>;
          c = (if ok then c\<lparr>m_DiskReads := m_DiskReads c + 1\<rparr> else c);
          slot_upd = (\<lambda>f. map_option (\<lambda>slots. if found < BCP_SlotCount s
                           then slots[unat found := f (slots ! unat found)] else slots) (BCP_SlotTable s))
      in if \<not> ok then
           (s\<lparr>BCP_LogicTable := map_option (\<lambda>logic.
                if seq < BCP_TotalBlockCount s \<and> logic ! unat seq = found
                then logic[unat seq := MAX32] else logic) (BCP_LogicTable s),
              BCP_SlotTable := slot_upd (\<lambda>_. IndexSlotEntry_default)\<rparr>, c)
         else (s\<lparr>BCP_SlotTable := slot_upd (\<lambda>e. e\<lparr>Loading := False\<rparr>)\<rparr>, c)))"

text \<open>\<open>BlockHandle::drop\<close>: give the pin back.\<close>

definition handle_drop :: "u32 \<Rightarrow> BlockCacheState \<Rightarrow> BlockCacheState" where
  "handle_drop slot s =
     s\<lparr>BCP_SlotTable := map_option (\<lambda>slots.
        if slot < BCP_SlotCount s \<and> Ref (slots ! unat slot) > 0
        then slots[unat slot := (slots ! unat slot)\<lparr>Ref := Ref (slots ! unat slot) - 1\<rparr>]
        else slots) (BCP_SlotTable s)\<rparr>"

text \<open>
  \<open>TryPinReadyOrWait\<close>: pin a resident block without going through the worker; \<open>RWait\<close> while it
  is being loaded.
\<close>

definition try_pin ::
  "u32 \<Rightarrow> BlockCacheState \<times> BlockAccessCounters \<Rightarrow> reserve_result \<times> BlockCacheState \<times> BlockAccessCounters" where
  "try_pin seq = (\<lambda>(s, c).
     (if seq \<ge> BCP_TotalBlockCount s then (RNone, s, c)
      else case (BCP_LogicTable s, BCP_SlotTable s) of
        (Some logic, Some slots) \<Rightarrow>
          (let slot = logic ! unat seq; entry = slots ! unat slot
           in if slot = MAX32 \<or> slot \<ge> BCP_SlotCount s then (RNone, s, c)
              else if Loading entry then (RWait, s, c)
              else if BlockID entry \<noteq> seq then (RNone, s, c)
              else (RHit slot,
                    s\<lparr>BCP_SlotTable := Some (slots[unat slot := entry\<lparr>Ref := Ref entry + 1\<rparr>])\<rparr>,
                    c\<lparr>m_CacheHits := m_CacheHits c + 1\<rparr>))
      | _ \<Rightarrow> (RNone, s, c)))"

text \<open>The page a handle on a slot dereferences to.\<close>

definition slot_page :: "BlockCacheState \<Rightarrow> u32 \<Rightarrow> bytes option" where
  "slot_page s slot =
     (case BCP_Pages s of
        None \<Rightarrow> None
      | Some pages \<Rightarrow> if unat slot < length pages then Some (pages ! unat slot) else None)"

text \<open>
  \<open>GetBlock\<close> in direct mode, run by one thread without interference: reserve, read, complete.
  \<open>read_block\<close> is \<open>None\<close> for a pool without a file; otherwise \<open>read_block seq\<close> is the outcome of
  \<open>ReadBlock\<close> and what it left in the page.
\<close>

definition GetBlock_direct ::
  "(u32 \<Rightarrow> bool \<times> bytes) option \<Rightarrow> u32 \<Rightarrow> BlockCacheState \<times> BlockAccessCounters \<Rightarrow>
   (u32 \<times> bytes) option \<times> BlockCacheState \<times> BlockAccessCounters" where
  "GetBlock_direct read_block seq sc =
     (case get_reserve seq sc of
        (RHit slot, s, c) \<Rightarrow> (map_option (\<lambda>p. (slot, p)) (slot_page s slot), s, c)
      | (RMiss slot, s, c) \<Rightarrow>
          (let (ok, frame) = (case read_block of
                 None \<Rightarrow> (False, the (slot_page s slot)) | Some rd \<Rightarrow> rd seq);
               (s', c') = get_complete seq slot ok frame (s, c)
           in (if ok then map_option (\<lambda>p. (slot, p)) (slot_page s' slot) else None, s', c'))
      | (_, s, c) \<Rightarrow> (None, s, c))"

text \<open>
  \<open>LoadSequentialWindow\<close>: refused while any slot is pinned; otherwise the whole window is
  replaced by the blocks from \<open>startBlock\<close> on. \<open>read_run start n\<close> is the outcome of the
  positioned read of \<open>n\<close> pages and what it left in them, \<open>has_file\<close> whether the pool has a file. The refusal of windows
  of more than \<open>i32::MAX\<close> bytes is the guard on the page count.
\<close>

definition clear_window :: "IndexSlotEntry list \<Rightarrow> u32 list \<Rightarrow> u32 list" where
  "clear_window slots logic =
     fold (\<lambda>e l. if BlockID e \<noteq> MAX32 then l[unat (BlockID e) := MAX32] else l) slots logic"

definition LoadSequentialWindow ::
  "bool \<Rightarrow> (u32 \<Rightarrow> nat \<Rightarrow> bool \<times> bytes list) \<Rightarrow> u32 \<Rightarrow> BlockCacheState \<Rightarrow> bool \<times> BlockCacheState" where
  "LoadSequentialWindow has_file read_run startBlock s =
     (case (BCP_Pages s, BCP_LogicTable s, BCP_SlotTable s) of
        (Some pages, Some logic, Some slots) \<Rightarrow>
          if \<not> has_file \<or> startBlock \<ge> BCP_TotalBlockCount s \<or> BCP_SlotCount s = 0 then (False, s)
          else if list_ex (\<lambda>e. Ref e > 0) slots then (False, s)
          else
            let logic = clear_window slots logic;
                slots = map (\<lambda>_. IndexSlotEntry_default) slots;
                cleared = s\<lparr>BCP_LogicTable := Some logic, BCP_SlotTable := Some slots\<rparr>;
                n = unat (min (BCP_SlotCount s) (BCP_TotalBlockCount s - startBlock))
            in if n * PAGE_SIZE > 0x7FFFFFFF then (False, cleared)
               else
                 (let (ok, new) = read_run startBlock n;
                      cleared = cleared\<lparr>BCP_Pages := Some (put 0 new pages)\<rparr>;
                      logic = put (unat startBlock) (map word_of_nat [0..<n]) logic;
                      slots = put 0 (map (\<lambda>i. \<lparr>BlockID = startBlock + word_of_nat i, Ref = 0,
                                               Loading = False\<rparr>) [0..<n]) slots
                  in if \<not> ok then (False, cleared)
                     else (logic ! unat startBlock \<noteq> MAX32,
                           cleared\<lparr>BCP_LogicTable := Some logic, BCP_SlotTable := Some slots,
                                   BCP_EvictSlot := word_of_nat n\<rparr>))
      | _ \<Rightarrow> (False, s))"

text \<open>
  \<open>GetBlock\<close> with \<open>sequential\<close> set: pin the block's slot if it has one, otherwise move the window.
\<close>

definition pin_slot :: "u32 \<Rightarrow> BlockCacheState \<Rightarrow> BlockCacheState" where
  "pin_slot slot s = s\<lparr>BCP_SlotTable := map_option (\<lambda>slots.
     slots[unat slot := (slots ! unat slot)\<lparr>Ref := Ref (slots ! unat slot) + 1\<rparr>]) (BCP_SlotTable s)\<rparr>"

definition resident_slot :: "u32 \<Rightarrow> BlockCacheState \<Rightarrow> u32 option" where
  "resident_slot seq s =
     (case (BCP_Pages s, BCP_LogicTable s, BCP_SlotTable s) of
        (Some _, Some logic, Some _) \<Rightarrow>
          if seq < BCP_TotalBlockCount s \<and> logic ! unat seq \<noteq> MAX32 \<and> logic ! unat seq < BCP_SlotCount s
          then Some (logic ! unat seq) else None
      | _ \<Rightarrow> None)"

definition GetBlock_sequential ::
  "bool \<Rightarrow> (u32 \<Rightarrow> nat \<Rightarrow> bool \<times> bytes list) \<Rightarrow> u32 \<Rightarrow> BlockCacheState \<Rightarrow> (u32 \<times> bytes) option \<times> BlockCacheState" where
  "GetBlock_sequential has_file read_run seq s =
     (case resident_slot seq s of
        Some slot \<Rightarrow> (map_option (\<lambda>p. (slot, p)) (slot_page s slot), pin_slot slot s)
      | None \<Rightarrow>
          (case LoadSequentialWindow has_file read_run seq s of
             (False, s') \<Rightarrow> (None, s')
           | (True, s') \<Rightarrow>
               (case BCP_LogicTable s' of
                  None \<Rightarrow> (None, s')
                | Some logic \<Rightarrow>
                    (let slot = logic ! unat seq
                     in (map_option (\<lambda>p. (slot, p)) (slot_page s' slot), pin_slot slot s')))))"

text \<open>\<open>CopyPoolBlocks\<close>: the resident pages, at most one per block.\<close>

definition CopyPoolBlocks :: "BlockCacheState \<Rightarrow> bytes list" where
  "CopyPoolBlocks s =
     (case BCP_Pages s of
        None \<Rightarrow> []
      | Some pages \<Rightarrow> take (unat (min (BCP_TotalBlockCount s) (BCP_SlotCount s))) pages)"

subsection \<open>The invariant of a ready pool\<close>

text \<open>
  \<open>handles\<close> are the live handles and \<open>inflight\<close> the loads between their two critical sections,
  both as pairs of a slot and the block it was asked for; \<open>disk\<close> is the content of the file.
  The slot table and the logic table are inverse to each other, \<open>Ref\<close> counts the holders of a
  slot, a slot is \<open>Loading\<close> exactly while a load is in flight, and every other occupied slot
  holds the page of its block.
\<close>

type_synonym holder = "u32 \<times> u32"

definition holders :: "nat \<Rightarrow> holder list \<Rightarrow> nat" where
  "holders i hs = length (filter (\<lambda>h. unat (fst h) = i) hs)"

definition slot_ok ::
  "(u32 \<Rightarrow> bytes) \<Rightarrow> holder list \<Rightarrow> holder list \<Rightarrow> u32 list \<Rightarrow> nat \<Rightarrow> IndexSlotEntry \<Rightarrow> bytes \<Rightarrow> bool" where
  "slot_ok disk handles inflight logic i e page \<longleftrightarrow>
     (BlockID e \<noteq> MAX32 \<longrightarrow> unat (BlockID e) < length logic \<and> unat (logic ! unat (BlockID e)) = i) \<and>
     unat (Ref e) = holders i handles + holders i inflight \<and>
     holders i inflight = (if Loading e then 1 else 0) \<and>
     (\<forall>h \<in> set handles. unat (fst h) = i \<longrightarrow> BlockID e = snd h \<and> \<not> Loading e) \<and>
     (\<forall>h \<in> set inflight. unat (fst h) = i \<longrightarrow> BlockID e = snd h) \<and>
     (BlockID e \<noteq> MAX32 \<and> \<not> Loading e \<longrightarrow> page = disk (BlockID e))"

definition tables_ok ::
  "(u32 \<Rightarrow> bytes) \<Rightarrow> holder list \<Rightarrow> holder list \<Rightarrow> bytes list \<Rightarrow> u32 list \<Rightarrow> IndexSlotEntry list \<Rightarrow> bool" where
  "tables_ok disk handles inflight pages logic slots \<longleftrightarrow>
     length pages = length slots \<and> length slots < 2 ^ 32 \<and> length logic < 2 ^ 32 \<and>
     (\<forall>i < length slots. slot_ok disk handles inflight logic i (slots ! i) (pages ! i)) \<and>
     (\<forall>b < length logic. logic ! b \<noteq> MAX32 \<longrightarrow>
        unat (logic ! b) < length slots \<and> unat (BlockID (slots ! unat (logic ! b))) = b) \<and>
     (\<forall>h \<in> set handles \<union> set inflight. unat (fst h) < length slots \<and> unat (snd h) < length logic)"

definition pool_wf :: "(u32 \<Rightarrow> bytes) \<Rightarrow> holder list \<Rightarrow> holder list \<Rightarrow> BlockCacheState \<Rightarrow> bool" where
  "pool_wf disk handles inflight s \<longleftrightarrow>
     (case (BCP_Pages s, BCP_LogicTable s, BCP_SlotTable s) of
        (Some pages, Some logic, Some slots) \<Rightarrow>
          length slots = unat (BCP_SlotCount s) \<and> length logic = unat (BCP_TotalBlockCount s) \<and>
          tables_ok disk handles inflight pages logic slots
      | _ \<Rightarrow> False)"

lemma pool_wfE:
  assumes "pool_wf disk handles inflight s"
  obtains pages logic slots where
    "BCP_Pages s = Some pages" "BCP_LogicTable s = Some logic" "BCP_SlotTable s = Some slots"
    "length slots = unat (BCP_SlotCount s)" "length logic = unat (BCP_TotalBlockCount s)"
    "tables_ok disk handles inflight pages logic slots"
  using assms by (auto simp: pool_wf_def split: option.splits)

lemma holders_Cons [simp]:
  "holders i (h # hs) = (if unat (fst h) = i then 1 else 0) + holders i hs"
  by (simp add: holders_def)

lemma holders_Nil [simp]: "holders i [] = 0"
  by (simp add: holders_def)

lemma holders_0: "holders i hs = 0 \<longleftrightarrow> (\<forall>h \<in> set hs. unat (fst h) \<noteq> i)"
  by (auto simp: holders_def filter_empty_conv)

lemma holders_remove1:
  "h \<in> set hs \<Longrightarrow> holders i (remove1 h hs) + (if unat (fst h) = i then 1 else 0) = holders i hs"
  by (induction hs) auto

lemma unat_MAX32: "unat MAX32 = 2 ^ 32 - 1"
  by (simp add: MAX32_def)

lemma less_not_MAX32: "unat x < n \<Longrightarrow> n < 2 ^ 32 \<Longrightarrow> x \<noteq> MAX32"
  using unat_MAX32 by auto

lemma holders_le: "holders i hs \<le> length hs"
  by (simp add: holders_def)

lemma evict_scan_found:
  assumes "evict_scan n slots sc e = (found, e')" and "found \<noteq> MAX32" and "sc \<noteq> 0"
  shows "unat found < unat sc \<and> Ref (slots ! unat found) = 0 \<and> \<not> Loading (slots ! unat found)"
  using assms
proof (induction n arbitrary: e)
  case 0
  then show ?case by simp
next
  case (Suc n)
  have "unat (e mod sc) < unat sc"
    using Suc.prems(3) by (simp add: unat_mod_distrib unat_gt_0)
  with Suc show ?case
    by (auto simp: Let_def split: if_splits)
qed

subsection \<open>Every critical section keeps the tables consistent\<close>

lemma tables_ok_slotD:
  "tables_ok disk hs fs pages logic slots \<Longrightarrow> i < length slots \<Longrightarrow>
   slot_ok disk hs fs logic i (slots ! i) (pages ! i)"
  by (simp add: tables_ok_def)

lemma tables_ok_logicD:
  "tables_ok disk hs fs pages logic slots \<Longrightarrow> b < length logic \<Longrightarrow> logic ! b \<noteq> MAX32 \<Longrightarrow>
   unat (logic ! b) < length slots \<and> unat (BlockID (slots ! unat (logic ! b))) = b"
  by (simp add: tables_ok_def)

lemma tables_okI:
  assumes "length pages = length slots" "length slots < 2 ^ 32" "length logic < 2 ^ 32"
    and "\<And>i. i < length slots \<Longrightarrow> slot_ok disk hs fs logic i (slots ! i) (pages ! i)"
    and "\<And>b. b < length logic \<Longrightarrow> logic ! b \<noteq> MAX32 \<Longrightarrow>
        unat (logic ! b) < length slots \<and> unat (BlockID (slots ! unat (logic ! b))) = b"
    and "\<forall>h \<in> set hs \<union> set fs. unat (fst h) < length slots \<and> unat (snd h) < length logic"
  shows "tables_ok disk hs fs pages logic slots"
  unfolding tables_ok_def using assms by blast

lemma tables_ok_lengthsD:
  assumes "tables_ok disk hs fs pages logic slots"
  shows "length pages = length slots" "length slots < 2 ^ 32" "length logic < 2 ^ 32"
  using assms by (auto simp: tables_ok_def)

lemma tables_ok_holderD:
  assumes "tables_ok disk hs fs pages logic slots"
  shows "\<forall>h \<in> set hs \<union> set fs. unat (fst h) < length slots \<and> unat (snd h) < length logic"
  using assms unfolding tables_ok_def by blast

lemma unat_inject: "unat x = unat y \<longleftrightarrow> x = (y :: 'a :: len word)"
  by (simp add: word_unat_eq_iff)

lemma in_remove1D: "x \<in> set (remove1 y xs) \<Longrightarrow> x \<in> set xs"
  by (metis notin_set_remove1)

lemma tables_ok_pin:
  assumes ok: "tables_ok disk hs fs pages logic slots"
    and slot: "unat slot < length slots" "BlockID (slots ! unat slot) = seq"
      "\<not> Loading (slots ! unat slot)" "unat seq < length logic"
    and room: "length hs + length fs < 2 ^ 32 - 1"
  shows "tables_ok disk ((slot, seq) # hs) fs pages logic
           (slots[unat slot := (slots ! unat slot)\<lparr>Ref := Ref (slots ! unat slot) + 1\<rparr>])"
proof -
  let ?e = "slots ! unat slot"
  have e: "slot_ok disk hs fs logic (unat slot) ?e (pages ! unat slot)"
    using tables_ok_slotD [OF ok slot(1)] .
  have "unat (Ref ?e) < 2 ^ 32 - 1"
    using e room holders_le [of "unat slot" hs] holders_le [of "unat slot" fs]
    by (simp add: slot_ok_def)
  then have ref: "unat (Ref ?e + 1) = Suc (unat (Ref ?e))"
    by (simp add: unat_word_ariths)
  have "slot_ok disk ((slot, seq) # hs) fs logic i
          (slots[unat slot := ?e\<lparr>Ref := Ref ?e + 1\<rparr>] ! i) (pages ! i)" if "i < length slots" for i
    using tables_ok_slotD [OF ok that] slot that ref
    by (cases "i = unat slot") (auto simp: slot_ok_def nth_list_update)
  then show ?thesis
    using tables_ok_lengthsD [OF ok] tables_ok_logicD [OF ok] tables_ok_holderD [OF ok] slot
    by (intro tables_okI) (auto simp: nth_list_update)
qed

lemma tables_ok_reserve:
  assumes ok: "tables_ok disk hs fs pages logic slots"
    and free: "unat found < length slots" "Ref (slots ! unat found) = 0" "\<not> Loading (slots ! unat found)"
    and seq: "unat seq < length logic" "logic ! unat seq = MAX32"
    and old: "old = BlockID (slots ! unat found)"
  shows "tables_ok disk hs ((found, seq) # fs) pages
           ((if old \<noteq> MAX32 then logic[unat old := MAX32] else logic)[unat seq := found])
           (slots[unat found := \<lparr>BlockID = seq, Ref = 1, Loading = True\<rparr>])"
    (is "tables_ok _ _ _ _ ?logic ?slots")
proof -
  note lens = tables_ok_lengthsD [OF ok] and holder = tables_ok_holderD [OF ok]
  have f: "slot_ok disk hs fs logic (unat found) (slots ! unat found) (pages ! unat found)"
    using tables_ok_slotD [OF ok free(1)] .
  have none: "\<forall>h \<in> set hs \<union> set fs. unat (fst h) \<noteq> unat found"
    using f free(2) holders_0 [of "unat found"] by (auto simp: slot_ok_def)
  have found_max: "found \<noteq> MAX32"
    using less_not_MAX32 [OF free(1)] lens by simp
  have inverse: "unat (?logic ! unat b) = i"
    if "unat b < length logic" "unat (logic ! unat b) = i" "i < length slots" "i \<noteq> unat found" for b :: u32 and i
  proof -
    have "b \<noteq> seq" using that seq unat_MAX32 lens by auto
    moreover have "old \<noteq> MAX32 \<longrightarrow> b \<noteq> old" using that f old by (auto simp: slot_ok_def)
    ultimately show ?thesis using that by (auto simp: nth_list_update unat_inject)
  qed
  have slot: "slot_ok disk hs ((found, seq) # fs) ?logic i (?slots ! i) (pages ! i)"
    if i: "i < length slots" for i
  proof (cases "i = unat found")
    case True
    then show ?thesis
      using none i seq holders_0 [of i] by (auto simp: slot_ok_def nth_list_update)
  next
    case False
    then show ?thesis
      using tables_ok_slotD [OF ok i] inverse [OF _ _ i False] i
      by (auto simp: slot_ok_def nth_list_update)
  qed
  have forward: "unat (?logic ! b) < length ?slots \<and> unat (BlockID (?slots ! unat (?logic ! b))) = b"
    if b: "b < length ?logic" "?logic ! b \<noteq> MAX32" for b
  proof (cases "b = unat seq")
    case True
    then show ?thesis using free seq by (auto simp: nth_list_update)
  next
    case False
    then have "old \<noteq> MAX32 \<longrightarrow> b \<noteq> unat old"
      using b by (auto split: if_splits)
    with False have lb: "?logic ! b = logic ! b" "old \<noteq> MAX32 \<longrightarrow> b \<noteq> unat old"
      by auto
    then have "unat (logic ! b) < length slots" "unat (BlockID (slots ! unat (logic ! b))) = b"
      using tables_ok_logicD [OF ok, of b] b by (auto split: if_splits)
    moreover have "unat (logic ! b) \<noteq> unat found"
      using calculation lb(2) old b unat_MAX32 lens by (auto split: if_splits)
    ultimately show ?thesis using lb by (simp add: nth_list_update)
  qed
  show ?thesis
    using lens slot forward free seq holder by (intro tables_okI) auto
qed

lemma tables_ok_load_done:
  assumes ok: "tables_ok disk hs fs pages logic slots" and h: "(found, seq) \<in> set fs"
    and page: "page = disk seq"
  shows "tables_ok disk ((found, seq) # hs) (remove1 (found, seq) fs) (pages[unat found := page]) logic
           (slots[unat found := (slots ! unat found)\<lparr>Loading := False\<rparr>])"
proof -
  note lens = tables_ok_lengthsD [OF ok] and holder = tables_ok_holderD [OF ok]
  have found: "unat found < length slots" "unat seq < length logic"
    using bspec [OF holder, of "(found, seq)"] h by auto
  have "slot_ok disk ((found, seq) # hs) (remove1 (found, seq) fs) logic i
          (slots[unat found := (slots ! unat found)\<lparr>Loading := False\<rparr>] ! i)
          (pages[unat found := page] ! i)" if i: "i < length slots" for i
  proof (cases "i = unat found")
    case True
    have "slot_ok disk hs fs logic i (slots ! i) (pages ! i)"
      using tables_ok_slotD [OF ok i] .
    moreover have "holders i (remove1 (found, seq) fs) + 1 = holders i fs"
      using holders_remove1 [OF h, of i] True by simp
    moreover have "Loading (slots ! i)" "BlockID (slots ! i) = seq"
      using calculation h True by (auto simp: slot_ok_def split: if_splits)
    ultimately show ?thesis
      using True i page lens by (auto simp: slot_ok_def dest: in_remove1D)
  next
    case False
    then show ?thesis
      using tables_ok_slotD [OF ok i] holders_remove1 [OF h, of i]
      by (auto simp: slot_ok_def dest: in_remove1D)
  qed
  then show ?thesis
    using lens found holder tables_ok_logicD [OF ok]
    by (intro tables_okI) (auto simp: nth_list_update dest: in_remove1D)
qed

lemma tables_ok_load_failed:
  assumes ok: "tables_ok disk hs fs pages logic slots" and h: "(found, seq) \<in> set fs"
  shows "logic ! unat seq = found"
    and "tables_ok disk hs (remove1 (found, seq) fs) (pages[unat found := page])
           (logic[unat seq := MAX32]) (slots[unat found := IndexSlotEntry_default])"
proof -
  note lens = tables_ok_lengthsD [OF ok] and holder = tables_ok_holderD [OF ok]
  have found: "unat found < length slots" "unat seq < length logic"
    using bspec [OF holder, of "(found, seq)"] h by auto
  have f: "slot_ok disk hs fs logic (unat found) (slots ! unat found) (pages ! unat found)"
    using tables_ok_slotD [OF ok found(1)] .
  have one: "Loading (slots ! unat found)" "holders (unat found) fs = 1" "BlockID (slots ! unat found) = seq"
    using f h holders_0 [of "unat found" fs] by (auto simp: slot_ok_def split: if_splits)
  have seq_max: "seq \<noteq> MAX32" using less_not_MAX32 [OF found(2)] lens by simp
  then show logic: "logic ! unat seq = found"
    using f one(3) by (auto simp: slot_ok_def simp flip: word_unat_eq_iff)
  have none: "holders (unat found) hs = 0" "holders (unat found) (remove1 (found, seq) fs) = 0"
    using f one holders_remove1 [OF h, of "unat found"] holders_0 [of "unat found" hs]
    by (auto simp: slot_ok_def)
  have slot: "slot_ok disk hs (remove1 (found, seq) fs) (logic[unat seq := MAX32]) i
          (slots[unat found := IndexSlotEntry_default] ! i) (pages[unat found := page] ! i)"
    if i: "i < length slots" for i
  proof (cases "i = unat found")
    case True
    then show ?thesis
      using none holders_0 [of i] i lens by (auto simp: slot_ok_def IndexSlotEntry_default_def)
  next
    case False
    have "BlockID (slots ! i) \<noteq> seq"
      using tables_ok_slotD [OF ok i] logic False seq_max by (auto simp: slot_ok_def)
    then show ?thesis
      using tables_ok_slotD [OF ok i] False holders_remove1 [OF h, of i] i
      by (auto simp: slot_ok_def nth_list_update unat_inject dest: in_remove1D)
  qed
  have forward: "unat (logic ! b) < length slots \<and>
      unat (BlockID (slots[unat found := IndexSlotEntry_default] ! unat (logic ! b))) = b"
    if "b < length logic" "logic ! b \<noteq> MAX32" "b \<noteq> unat seq" for b
    using tables_ok_logicD [OF ok that(1,2)] that(3) one(3)
    by (cases "unat (logic ! b) = unat found") auto
  show "tables_ok disk hs (remove1 (found, seq) fs) (pages[unat found := page])
           (logic[unat seq := MAX32]) (slots[unat found := IndexSlotEntry_default])"
  proof (rule tables_okI)
    fix b assume b: "b < length (logic[unat seq := MAX32])" "logic[unat seq := MAX32] ! b \<noteq> MAX32"
    then have "b \<noteq> unat seq" by auto
    with b forward [of b] show "unat (logic[unat seq := MAX32] ! b) < length (slots[unat found := IndexSlotEntry_default]) \<and>
        unat (BlockID (slots[unat found := IndexSlotEntry_default] ! unat (logic[unat seq := MAX32] ! b))) = b"
      by simp
  qed (use lens slot holder in \<open>auto dest: in_remove1D\<close>)
qed

lemma tables_ok_drop:
  assumes ok: "tables_ok disk hs fs pages logic slots" and h: "(slot, seq) \<in> set hs"
  shows "unat slot < length slots" "0 < Ref (slots ! unat slot)"
    and "tables_ok disk (remove1 (slot, seq) hs) fs pages logic
           (slots[unat slot := (slots ! unat slot)\<lparr>Ref := Ref (slots ! unat slot) - 1\<rparr>])"
proof -
  let ?e = "slots ! unat slot"
  note lens = tables_ok_lengthsD [OF ok] and holder = tables_ok_holderD [OF ok]
  show slot: "unat slot < length slots"
    using bspec [OF holder, of "(slot, seq)"] h by auto
  have e: "slot_ok disk hs fs logic (unat slot) ?e (pages ! unat slot)"
    using tables_ok_slotD [OF ok slot] .
  have pos: "0 < unat (Ref ?e)"
    using e h holders_remove1 [OF h, of "unat slot"] by (auto simp: slot_ok_def)
  then show "0 < Ref ?e" by (simp add: unat_gt_0 word_neq_0_conv [symmetric])
  have ref: "unat (Ref ?e - 1) = unat (Ref ?e) - 1"
    using pos by (simp add: unat_sub word_le_nat_alt)
  have "slot_ok disk (remove1 (slot, seq) hs) fs logic i
          (slots[unat slot := ?e\<lparr>Ref := Ref ?e - 1\<rparr>] ! i) (pages ! i)" if "i < length slots" for i
    using tables_ok_slotD [OF ok that] holders_remove1 [OF h, of i] that ref
    by (cases "i = unat slot") (auto simp: slot_ok_def nth_list_update dest: in_remove1D)
  then show "tables_ok disk (remove1 (slot, seq) hs) fs pages logic
           (slots[unat slot := ?e\<lparr>Ref := Ref ?e - 1\<rparr>])"
    using lens slot holder tables_ok_logicD [OF ok]
    by (intro tables_okI) (auto simp: nth_list_update dest: in_remove1D)
qed

lemma clear_window_length [simp]: "length (clear_window slots logic) = length logic"
  unfolding clear_window_def by (induction slots arbitrary: logic) auto

lemma clear_window_nth:
  "b < length logic \<Longrightarrow> clear_window slots logic ! b =
     (if \<exists>e \<in> set slots. BlockID e \<noteq> MAX32 \<and> unat (BlockID e) = b then MAX32 else logic ! b)"
proof (induction slots arbitrary: logic)
  case Nil
  then show ?case by (simp add: clear_window_def)
next
  case (Cons e slots)
  let ?l = "if BlockID e \<noteq> MAX32 then logic[unat (BlockID e) := MAX32] else logic"
  have "clear_window (e # slots) logic = clear_window slots ?l"
    by (simp add: clear_window_def)
  with Cons.IH [of ?l] Cons.prems show ?case
    by (auto simp: nth_list_update)
qed

lemma clear_window_all:
  assumes ok: "tables_ok disk hs fs pages logic slots"
  shows "clear_window slots logic = replicate (length logic) MAX32"
proof (rule nth_equalityI)
  fix b assume "b < length (clear_window slots logic)"
  then have b: "b < length logic" by simp
  have "\<exists>e \<in> set slots. BlockID e \<noteq> MAX32 \<and> unat (BlockID e) = b" if "logic ! b \<noteq> MAX32"
    using tables_ok_logicD [OF ok b that] less_not_MAX32 [of "BlockID (slots ! unat (logic ! b))" "length logic"]
      b tables_ok_lengthsD [OF ok] by (auto intro!: bexI [of _ "slots ! unat (logic ! b)"])
  then show "clear_window slots logic ! b = replicate (length logic) MAX32 ! b"
    using b by (auto simp: clear_window_nth)
qed simp

lemma tables_ok_idle_none:
  assumes "tables_ok disk hs fs pages logic slots" and "\<not> list_ex (\<lambda>e. Ref e > 0) slots"
  shows "hs = [] \<and> fs = []"
proof -
  have "Ref (slots ! i) = 0" if "i < length slots" for i
    using assms(2) that by (auto simp: list_ex_iff word_neq_0_conv) (metis nth_mem word_neq_0_conv)
  then have "holders i hs = 0 \<and> holders i fs = 0" if "i < length slots" for i
    using tables_ok_slotD [OF assms(1) that] that by (auto simp: slot_ok_def)
  then have "unat (fst h) \<noteq> i" if "h \<in> set hs \<union> set fs" "i < length slots" for h i
    using that by (auto simp: holders_0)
  then have "False" if "h \<in> set hs \<union> set fs" for h
    using that bspec [OF tables_ok_holderD [OF assms(1)] that] by blast
  then show ?thesis by (cases hs; cases fs) auto
qed

lemma tables_ok_window:
  assumes n: "n \<le> length slots" "start + n \<le> tbc" "length slots < 2 ^ 32" "tbc < 2 ^ 32"
    and pages: "length pages = length slots" "\<And>i. i < n \<Longrightarrow> pages ! i = disk (word_of_nat (start + i))"
    and slots: "\<And>i. i < length slots \<Longrightarrow> slots ! i =
        (if i < n then \<lparr>BlockID = word_of_nat (start + i), Ref = 0, Loading = False\<rparr> else IndexSlotEntry_default)"
    and logic: "length logic = tbc"
        "\<And>b. b < tbc \<Longrightarrow> logic ! b = (if start \<le> b \<and> b < start + n then word_of_nat (b - start) else MAX32)"
  shows "tables_ok disk [] [] pages logic slots"
proof (rule tables_okI)
  fix i assume i: "i < length slots"
  have "unat (word_of_nat (start + i) :: u32) = start + i" "unat (word_of_nat i :: u32) = i" if "i < n"
    using that n by (simp_all add: unat32_of_nat del: of_nat_add)
  then show "slot_ok disk [] [] logic i (slots ! i) (pages ! i)"
    using slots [OF i] logic(2) [of "start + i"] pages(2) [of i] n
    by (auto simp: slot_ok_def IndexSlotEntry_default_def logic(1))
next
  fix b assume "b < length logic" "logic ! b \<noteq> MAX32"
  then have b: "start \<le> b" "b < start + n" "logic ! b = word_of_nat (b - start)"
    using logic(2) [of b] logic(1) by (auto split: if_splits)
  then have "unat (logic ! b) = b - start"
    using n by (simp add: unat32_of_nat del: of_nat_diff)
  moreover have "unat (word_of_nat b :: u32) = b"
    using b n by (simp add: unat32_of_nat)
  ultimately show "unat (logic ! b) < length slots \<and> unat (BlockID (slots ! unat (logic ! b))) = b"
    using b n slots [of "b - start"] by auto
qed (use assms in auto)

lemma put_nth:
  "i < length xs \<Longrightarrow> p + length ys \<le> length xs \<Longrightarrow>
   put p ys xs ! i = (if p \<le> i \<and> i < p + length ys then ys ! (i - p) else xs ! i)"
  by (auto simp: put_def nth_append min_def)

text \<open>What the reads of the file promise: whole pages of the disk when they succeed.\<close>

definition honest_run :: "(u32 \<Rightarrow> bytes) \<Rightarrow> (u32 \<Rightarrow> nat \<Rightarrow> bool \<times> bytes list) \<Rightarrow> bool" where
  "honest_run disk read_run \<longleftrightarrow> (\<forall>start n. case read_run start n of (ok, new) \<Rightarrow>
     length new = n \<and> (ok \<longrightarrow> new = map (\<lambda>i. disk (start + word_of_nat i)) [0..<n]))"

definition honest_window :: "(u32 \<Rightarrow> bytes) \<Rightarrow> (nat \<Rightarrow> bytes list option) \<Rightarrow> bool" where
  "honest_window disk read_window \<longleftrightarrow> (\<forall>n. case read_window n of None \<Rightarrow> True
     | Some new \<Rightarrow> new = map (\<lambda>i. disk (word_of_nat i)) [0..<n])"

lemma word_add_of_nat_unat: "word_of_nat (unat x + i) = (x :: 'a :: len word) + word_of_nat i"
  by simp

lemma Init_pool_wf:
  assumes honest: "honest_window disk read_window"
    and init: "Init_pool opened read_window base tbc slotCount = (None, s)"
  shows "pool_wf disk [] [] s"
proof -
  let ?n = "min slotCount tbc"
  have len: "unat ?n \<le> unat tbc" by (simp add: min_def word_le_nat_alt)
  have mn: "unat (x :: u32) < 2 ^ 32" for x using unat_bound [of x] by simp
  show ?thesis
  proof (cases "?n = 0")
    case True
    then have s: "BCP_Pages s = Some []" "BCP_LogicTable s = Some (replicate (unat tbc) MAX32)"
      "BCP_SlotTable s = Some []" "BCP_SlotCount s = 0" "BCP_TotalBlockCount s = tbc"
      using init by (auto simp: Init_pool_def Let_def split: if_splits)
    show ?thesis using s mn [of tbc]
      by (auto simp: pool_wf_def intro!: tables_okI)
  next
    case False
    let ?pages = "map (\<lambda>i. disk (word_of_nat i)) [0..<unat ?n]"
    have s: "BCP_Pages s = Some ?pages"
      "BCP_LogicTable s = Some (map word_of_nat [0..<unat ?n] @ replicate (unat tbc - unat ?n) MAX32)"
      "BCP_SlotTable s = Some (map (\<lambda>i. IndexSlotEntry_default\<lparr>BlockID := word_of_nat i\<rparr>) [0..<unat ?n])"
      "BCP_SlotCount s = ?n" "BCP_TotalBlockCount s = tbc"
      using init honest [unfolded honest_window_def, rule_format, of "unat ?n"] False
      by (auto simp: Init_pool_def Let_def split: option.splits if_splits)
    have "tables_ok disk [] [] ?pages (map word_of_nat [0..<unat ?n] @ replicate (unat tbc - unat ?n) MAX32)
        (map (\<lambda>i. IndexSlotEntry_default\<lparr>BlockID := word_of_nat i\<rparr>) [0..<unat ?n])"
      by (rule tables_ok_window [where start = 0 and n = "unat ?n" and tbc = "unat tbc"])
        (use len mn [of ?n] mn [of tbc] in \<open>auto simp: nth_append IndexSlotEntry_default_def\<close>)
    then show ?thesis using s len by (simp add: pool_wf_def)
  qed
qed

lemma pool_wfI:
  "BCP_Pages s = Some pages \<Longrightarrow> BCP_LogicTable s = Some logic \<Longrightarrow> BCP_SlotTable s = Some slots \<Longrightarrow>
   length slots = unat (BCP_SlotCount s) \<Longrightarrow> length logic = unat (BCP_TotalBlockCount s) \<Longrightarrow>
   tables_ok disk hs fs pages logic slots \<Longrightarrow> pool_wf disk hs fs s"
  by (simp add: pool_wf_def)

lemma honest_runD:
  assumes "honest_run disk read_run" and "read_run start n = (ok, new)"
  shows "length new = n" and "ok \<Longrightarrow> new = map (\<lambda>i. disk (start + word_of_nat i)) [0..<n]"
proof -
  have "case read_run start n of (ok, new) \<Rightarrow>
     length new = n \<and> (ok \<longrightarrow> new = map (\<lambda>i. disk (start + word_of_nat i)) [0..<n])"
    using assms(1) [unfolded honest_run_def, THEN spec [of _ start], THEN spec [of _ n]] .
  then show "length new = n" "ok \<Longrightarrow> new = map (\<lambda>i. disk (start + word_of_nat i)) [0..<n]"
    by (simp_all add: assms(2))
qed

lemma LoadSequentialWindow_wf:
  assumes wf: "pool_wf disk hs fs s" and honest: "honest_run disk read_run"
    and load: "LoadSequentialWindow has_file read_run start s = (r, s')"
  shows "pool_wf disk hs fs s'"
    and "r \<Longrightarrow> \<exists>logic. BCP_LogicTable s' = Some logic \<and> logic ! unat start = 0"
    and "r \<Longrightarrow> \<exists>slots. BCP_SlotTable s' = Some slots \<and> \<not> Loading (slots ! 0)"
proof -
  from wf obtain pages logic slots where
    s: "BCP_Pages s = Some pages" "BCP_LogicTable s = Some logic" "BCP_SlotTable s = Some slots"
      "length slots = unat (BCP_SlotCount s)" "length logic = unat (BCP_TotalBlockCount s)"
    and ok: "tables_ok disk hs fs pages logic slots" by (rule pool_wfE)
  note lens = tables_ok_lengthsD [OF ok]
  let ?n = "unat (min (BCP_SlotCount s) (BCP_TotalBlockCount s - start))"
  obtain rok new where run: "read_run start ?n = (rok, new)" by force
  note new = honest_runD [OF honest run]
  let ?ready = "start < BCP_TotalBlockCount s \<and> \<not> list_ex (\<lambda>e. Ref e > 0) slots"
  have n: "?n \<le> length slots" "unat start + ?n \<le> length logic" if ?ready
    using that s by (auto simp: min_def word_le_nat_alt word_less_nat_alt unat_sub)
  have pos: "0 < ?n" if ?ready "BCP_SlotCount s \<noteq> 0"
    using that by (auto simp: min_def unat_sub word_less_nat_alt unat_gt_0)
  have cleared: "tables_ok disk hs fs (put 0 new pages) (clear_window slots logic) (map (\<lambda>_. IndexSlotEntry_default) slots)"
    "tables_ok disk hs fs pages (clear_window slots logic) (map (\<lambda>_. IndexSlotEntry_default) slots)" if ?ready
    unfolding clear_window_all [OF ok]
    using tables_ok_idle_none [OF ok] that lens new n
    by (auto intro!: tables_ok_window [where start = 0 and n = 0 and tbc = "length logic"])
  have loaded: "tables_ok disk hs fs (put 0 new pages)
      (put (unat start) (map word_of_nat [0..<?n]) (clear_window slots logic))
      (put 0 (map (\<lambda>i. \<lparr>BlockID = start + word_of_nat i, Ref = 0, Loading = False\<rparr>) [0..<?n])
        (map (\<lambda>_. IndexSlotEntry_default) slots))" if ?ready rok
    unfolding clear_window_all [OF ok]
    using tables_ok_idle_none [OF ok] that lens new n [OF that(1)]
    by (auto intro!: tables_ok_window [where start = "unat start" and n = ?n and tbc = "length logic"]
        simp: put_nth)
  show "pool_wf disk hs fs s'"
    using load wf s cleared loaded run new n unfolding LoadSequentialWindow_def
    by (auto simp: pool_wf_def Let_def not_le split: if_splits)
  show "\<exists>logic. BCP_LogicTable s' = Some logic \<and> logic ! unat start = 0" if r
    using load s run n that lens pos unfolding LoadSequentialWindow_def
    by (auto simp: Let_def not_le put_nth word_less_nat_alt split: if_splits)
  show "\<exists>slots. BCP_SlotTable s' = Some slots \<and> \<not> Loading (slots ! 0)" if r
    using load s run n that lens pos unfolding LoadSequentialWindow_def
    by (auto simp: Let_def not_le put_nth word_less_nat_alt split: if_splits)
qed

lemma get_reserve_wf:
  assumes wf: "pool_wf disk hs fs s" and res: "get_reserve seq (s, c) = (r, s', c')"
    and room: "length hs + length fs < 2 ^ 32 - 1"
  shows "case r of
      RHit slot \<Rightarrow> pool_wf disk ((slot, seq) # hs) fs s'
    | RMiss slot \<Rightarrow> pool_wf disk hs ((slot, seq) # fs) s'
    | _ \<Rightarrow> pool_wf disk hs fs s'"
proof -
  from wf obtain pages logic slots where
    s: "BCP_Pages s = Some pages" "BCP_LogicTable s = Some logic" "BCP_SlotTable s = Some slots"
      "length slots = unat (BCP_SlotCount s)" "length logic = unat (BCP_TotalBlockCount s)"
    and ok: "tables_ok disk hs fs pages logic slots" by (rule pool_wfE)
  let ?slot = "logic ! unat seq"
  show ?thesis
  proof (cases "seq < BCP_TotalBlockCount s \<and> BCP_SlotCount s \<noteq> 0")
    case False
    then show ?thesis using res s wf by (auto simp: get_reserve_def not_less)
  next
    case True
    then have seq: "unat seq < length logic" by (simp add: s word_less_nat_alt)
    show ?thesis
    proof (cases "?slot = MAX32")
      case False
      have slot: "unat ?slot < length slots" "BlockID (slots ! unat ?slot) = seq"
        using tables_ok_logicD [OF ok seq False] by (simp_all add: unat_inject)
      then have "?slot < BCP_SlotCount s" by (simp add: s word_less_nat_alt)
      then show ?thesis
        using res s wf True False slot tables_ok_pin [OF ok slot _ seq room]
        by (auto simp: get_reserve_def Let_def not_le pool_wf_def split: if_splits)
    next
      case max: True
      obtain found e' where scan:
        "evict_scan (unat (BCP_SlotCount s)) slots (BCP_SlotCount s) (BCP_EvictSlot s) = (found, e')" by force
      have miss: "reserve_miss seq logic slots s = (r, s')"
        using res s True max leD [of "BCP_TotalBlockCount s" seq]
        by (auto simp: get_reserve_def Let_def split: prod.splits if_splits)
      show ?thesis
      proof (cases "found = MAX32")
        case True
        then show ?thesis
          using miss scan s ok by (auto simp: reserve_miss_def pool_wf_def)
      next
        case False
        with evict_scan_found [OF scan] True s(4) have
          free: "unat found < length slots" "Ref (slots ! unat found) = 0" "\<not> Loading (slots ! unat found)"
          by auto
        show ?thesis
          using miss scan s False tables_ok_reserve [OF ok free seq max refl]
          by (auto simp: reserve_miss_def pool_wf_def Let_def)
      qed
    qed
  qed
qed

lemma try_pin_wf:
  assumes wf: "pool_wf disk hs fs s" and res: "try_pin seq (s, c) = (r, s', c')"
    and room: "length hs + length fs < 2 ^ 32 - 1"
  shows "case r of RHit slot \<Rightarrow> pool_wf disk ((slot, seq) # hs) fs s' | _ \<Rightarrow> s' = s"
proof -
  from wf obtain pages logic slots where
    s: "BCP_Pages s = Some pages" "BCP_LogicTable s = Some logic" "BCP_SlotTable s = Some slots"
      "length slots = unat (BCP_SlotCount s)" "length logic = unat (BCP_TotalBlockCount s)"
    and ok: "tables_ok disk hs fs pages logic slots" by (rule pool_wfE)
  let ?slot = "logic ! unat seq"
  have "pool_wf disk ((?slot, seq) # hs) fs
      (s\<lparr>BCP_SlotTable := Some (slots[unat ?slot := (slots ! unat ?slot)\<lparr>Ref := Ref (slots ! unat ?slot) + 1\<rparr>])\<rparr>)"
    if "\<not> seq \<ge> BCP_TotalBlockCount s" "?slot < BCP_SlotCount s" "BlockID (slots ! unat ?slot) = seq"
      "\<not> Loading (slots ! unat ?slot)"
    using tables_ok_pin [OF ok _ that(3,4) _ room] that s
    by (simp add: pool_wf_def not_le word_less_nat_alt)
  then show ?thesis
    using res s by (auto simp: try_pin_def Let_def not_le split: if_splits)
qed

lemma get_complete_wf:
  assumes wf: "pool_wf disk hs fs s" and h: "(slot, seq) \<in> set fs"
    and res: "get_complete seq slot ok frame (s, c) = (s', c')" and honest: "ok \<Longrightarrow> frame = disk seq"
  shows "pool_wf disk (if ok then (slot, seq) # hs else hs) (remove1 (slot, seq) fs) s'"
proof -
  from wf obtain pages logic slots where
    s: "BCP_Pages s = Some pages" "BCP_LogicTable s = Some logic" "BCP_SlotTable s = Some slots"
      "length slots = unat (BCP_SlotCount s)" "length logic = unat (BCP_TotalBlockCount s)"
    and tab: "tables_ok disk hs fs pages logic slots" by (rule pool_wfE)
  have "slot < BCP_SlotCount s" "seq < BCP_TotalBlockCount s"
    using bspec [OF tables_ok_holderD [OF tab], of "(slot, seq)"] h s by (auto simp: word_less_nat_alt)
  then show ?thesis
    using res s honest tables_ok_load_failed [OF tab h] tables_ok_load_done [OF tab h, of frame]
    by (auto simp: get_complete_def Let_def pool_wf_def)
qed

lemma handle_drop_wf:
  assumes wf: "pool_wf disk hs fs s" and h: "(slot, seq) \<in> set hs"
  shows "pool_wf disk (remove1 (slot, seq) hs) fs (handle_drop slot s)"
proof -
  from wf obtain pages logic slots where
    s: "BCP_Pages s = Some pages" "BCP_LogicTable s = Some logic" "BCP_SlotTable s = Some slots"
      "length slots = unat (BCP_SlotCount s)" "length logic = unat (BCP_TotalBlockCount s)"
    and tab: "tables_ok disk hs fs pages logic slots" by (rule pool_wfE)
  then show ?thesis
    using tables_ok_drop [OF tab h] by (simp add: handle_drop_def pool_wf_def word_less_nat_alt)
qed

lemma pool_wf_handle:
  assumes wf: "pool_wf disk hs fs s" and h: "(slot, seq) \<in> set hs"
  shows "slot_page s slot = Some (disk seq)"
    and "\<exists>slots. BCP_SlotTable s = Some slots \<and> unat slot < length slots \<and>
      BlockID (slots ! unat slot) = seq \<and> \<not> Loading (slots ! unat slot) \<and> Ref (slots ! unat slot) \<noteq> 0"
proof -
  from wf obtain pages logic slots where
    s: "BCP_Pages s = Some pages" "BCP_LogicTable s = Some logic" "BCP_SlotTable s = Some slots"
      "length slots = unat (BCP_SlotCount s)" "length logic = unat (BCP_TotalBlockCount s)"
    and tab: "tables_ok disk hs fs pages logic slots" by (rule pool_wfE)
  have bounds: "unat slot < length slots" "unat seq < length logic"
    using bspec [OF tables_ok_holderD [OF tab], of "(slot, seq)"] h by auto
  have "seq \<noteq> MAX32" using less_not_MAX32 [OF bounds(2)] tables_ok_lengthsD [OF tab] by simp
  moreover have "slot_ok disk hs fs logic (unat slot) (slots ! unat slot) (pages ! unat slot)"
    using tables_ok_slotD [OF tab bounds(1)] .
  ultimately have *: "BlockID (slots ! unat slot) = seq" "\<not> Loading (slots ! unat slot)"
    "pages ! unat slot = disk seq"
    using h by (auto simp: slot_ok_def)
  show "slot_page s slot = Some (disk seq)"
    using s(1) bounds tables_ok_lengthsD [OF tab] *(3) by (simp add: slot_page_def)
  show "\<exists>slots. BCP_SlotTable s = Some slots \<and> unat slot < length slots \<and>
      BlockID (slots ! unat slot) = seq \<and> \<not> Loading (slots ! unat slot) \<and> Ref (slots ! unat slot) \<noteq> 0"
    using s(3) bounds * tables_ok_drop(2) [OF tab h] by auto
qed

subsection \<open>The sequential path\<close>

text \<open>
  The sequential \<open>GetBlock\<close> pins the slot the logic table names without looking at \<open>Loading\<close>. The
  slot is ready when it is not being loaded.
\<close>

definition sequential_ready :: "u32 \<Rightarrow> BlockCacheState \<Rightarrow> bool" where
  "sequential_ready seq s \<longleftrightarrow>
     (case (resident_slot seq s, BCP_SlotTable s) of
        (Some slot, Some slots) \<Rightarrow> \<not> Loading (slots ! unat slot)
      | _ \<Rightarrow> True)"

lemma pin_slot_wf:
  assumes wf: "pool_wf disk hs fs s" and room: "length hs + length fs < 2 ^ 32 - 1"
    and slot: "BCP_LogicTable s = Some logic" "seq < BCP_TotalBlockCount s" "logic ! unat seq = slot"
      "slot \<noteq> MAX32"
    and ready: "\<exists>slots. BCP_SlotTable s = Some slots \<and> \<not> Loading (slots ! unat slot)"
  shows "pool_wf disk ((slot, seq) # hs) fs (pin_slot slot s)"
proof -
  from wf slot(1) obtain pages slots where
    s: "BCP_Pages s = Some pages" "BCP_SlotTable s = Some slots"
      "length slots = unat (BCP_SlotCount s)" "length logic = unat (BCP_TotalBlockCount s)"
    and ok: "tables_ok disk hs fs pages logic slots" by (auto elim: pool_wfE)
  have seq: "unat seq < length logic" using slot(2) s(4) by (simp add: word_less_nat_alt)
  have at: "unat slot < length slots" "BlockID (slots ! unat slot) = seq"
    using tables_ok_logicD [OF ok seq] slot(3,4) by (auto simp: unat_inject)
  show ?thesis
    using tables_ok_pin [OF ok at _ seq room] ready s slot(1)
    by (simp add: pin_slot_def pool_wf_def)
qed

lemma slot_page_pin [simp]: "slot_page (pin_slot slot s) = slot_page s"
  by (simp add: slot_page_def pin_slot_def fun_eq_iff)

lemma GetBlock_sequential_wf:
  assumes wf: "pool_wf disk hs fs s" and ready: "sequential_ready seq s"
    and room: "length hs + length fs < 2 ^ 32 - 1" and honest: "honest_run disk read_run"
    and get: "GetBlock_sequential has_file read_run seq s = (h, s')"
  shows "case h of None \<Rightarrow> pool_wf disk hs fs s'
       | Some (slot, page) \<Rightarrow> page = disk seq \<and> pool_wf disk ((slot, seq) # hs) fs s'"
proof -
  have hit: "pool_wf disk ((slot, seq) # hs) fs (pin_slot slot t) \<and> slot_page t slot = Some (disk seq)"
    if "pool_wf disk hs fs t" "BCP_LogicTable t = Some logic" "seq < BCP_TotalBlockCount t"
      "logic ! unat seq = slot" "slot \<noteq> MAX32" "\<exists>slots. BCP_SlotTable t = Some slots \<and> \<not> Loading (slots ! unat slot)"
    for t logic slot
    using pin_slot_wf [OF that(1) room that(2-6)]
      pool_wf_handle(1) [of disk "(slot, seq) # hs" fs "pin_slot slot t" slot seq] by simp
  show ?thesis
  proof (cases "resident_slot seq s")
    case (Some slot)
    then obtain logic slots where "BCP_LogicTable s = Some logic" "seq < BCP_TotalBlockCount s"
      "logic ! unat seq = slot" "slot \<noteq> MAX32" and slots: "BCP_SlotTable s = Some slots"
      by (auto simp: resident_slot_def split: option.splits if_splits)
    from hit [OF wf this(1-4)] show ?thesis
      using get Some slots ready by (auto simp: GetBlock_sequential_def sequential_ready_def)
  next
    case None
    obtain r t where load: "LoadSequentialWindow has_file read_run seq s = (r, t)" by force
    note t = LoadSequentialWindow_wf [OF wf honest load]
    show ?thesis
    proof (cases r)
      case False
      then show ?thesis using get None load t(1) by (auto simp: GetBlock_sequential_def)
    next
      case True
      then obtain logic where logic: "BCP_LogicTable t = Some logic" "logic ! unat seq = 0"
        using t(2) by auto
      have seq: "seq < BCP_TotalBlockCount t"
        using load True unfolding LoadSequentialWindow_def
        by (auto simp: Let_def not_le split: if_splits option.splits prod.splits)
      from hit [OF t(1) logic(1) seq logic(2)] t(3) [OF True] show ?thesis
        using get None load True logic by (auto simp: GetBlock_sequential_def Let_def MAX32_def)
    qed
  qed
qed

subsection \<open>Threads sharing a pool\<close>

text \<open>
  A system state is the pool together with what the threads hold: live handles and loads whose
  disk read is under way. One step is one critical section of some thread, in any order: the two
  sections of a get, the pin of a resident block, the release of a handle, and the one section of
  a sequential get, which pins a resident block or moves the whole window. The number of holders
  stays below \<open>u32::MAX\<close>, so that \<open>Ref\<close> does not wrap. The sequential get is restricted to slots
  that are not being loaded; the code does not check that (see \<open>GetBlock_sequential_unloaded\<close>).
\<close>

record cache_sys =
  cs_pool :: BlockCacheState
  cs_counters :: BlockAccessCounters
  cs_handles :: "holder list"
  cs_inflight :: "holder list"

inductive cache_step :: "(u32 \<Rightarrow> bytes) \<Rightarrow> cache_sys \<Rightarrow> cache_sys \<Rightarrow> bool" for disk where
  get_hit: "get_reserve seq (s, c) = (RHit slot, s', c') \<Longrightarrow> length hs + length fs < 2 ^ 32 - 1 \<Longrightarrow>
     cache_step disk \<lparr>cs_pool = s, cs_counters = c, cs_handles = hs, cs_inflight = fs\<rparr>
       \<lparr>cs_pool = s', cs_counters = c', cs_handles = (slot, seq) # hs, cs_inflight = fs\<rparr>"
| get_miss: "get_reserve seq (s, c) = (RMiss slot, s', c') \<Longrightarrow> length hs + length fs < 2 ^ 32 - 1 \<Longrightarrow>
     cache_step disk \<lparr>cs_pool = s, cs_counters = c, cs_handles = hs, cs_inflight = fs\<rparr>
       \<lparr>cs_pool = s', cs_counters = c', cs_handles = hs, cs_inflight = (slot, seq) # fs\<rparr>"
| get_idle: "get_reserve seq (s, c) = (r, s', c') \<Longrightarrow> r = RNone \<or> r = RWait \<Longrightarrow>
     length hs + length fs < 2 ^ 32 - 1 \<Longrightarrow>
     cache_step disk \<lparr>cs_pool = s, cs_counters = c, cs_handles = hs, cs_inflight = fs\<rparr>
       \<lparr>cs_pool = s', cs_counters = c', cs_handles = hs, cs_inflight = fs\<rparr>"
| load_ok: "(slot, seq) \<in> set fs \<Longrightarrow> get_complete seq slot True (disk seq) (s, c) = (s', c') \<Longrightarrow>
     cache_step disk \<lparr>cs_pool = s, cs_counters = c, cs_handles = hs, cs_inflight = fs\<rparr>
       \<lparr>cs_pool = s', cs_counters = c', cs_handles = (slot, seq) # hs, cs_inflight = remove1 (slot, seq) fs\<rparr>"
| load_failed: "(slot, seq) \<in> set fs \<Longrightarrow> get_complete seq slot False frame (s, c) = (s', c') \<Longrightarrow>
     cache_step disk \<lparr>cs_pool = s, cs_counters = c, cs_handles = hs, cs_inflight = fs\<rparr>
       \<lparr>cs_pool = s', cs_counters = c', cs_handles = hs, cs_inflight = remove1 (slot, seq) fs\<rparr>"
| pin: "try_pin seq (s, c) = (RHit slot, s', c') \<Longrightarrow> length hs + length fs < 2 ^ 32 - 1 \<Longrightarrow>
     cache_step disk \<lparr>cs_pool = s, cs_counters = c, cs_handles = hs, cs_inflight = fs\<rparr>
       \<lparr>cs_pool = s', cs_counters = c', cs_handles = (slot, seq) # hs, cs_inflight = fs\<rparr>"
| release: "(slot, seq) \<in> set hs \<Longrightarrow>
     cache_step disk \<lparr>cs_pool = s, cs_counters = c, cs_handles = hs, cs_inflight = fs\<rparr>
       \<lparr>cs_pool = handle_drop slot s, cs_counters = c, cs_handles = remove1 (slot, seq) hs, cs_inflight = fs\<rparr>"
| sequential: "GetBlock_sequential has_file read_run seq s = (h, s') \<Longrightarrow> sequential_ready seq s \<Longrightarrow>
     honest_run disk read_run \<Longrightarrow> length hs + length fs < 2 ^ 32 - 1 \<Longrightarrow>
     cache_step disk \<lparr>cs_pool = s, cs_counters = c, cs_handles = hs, cs_inflight = fs\<rparr>
       \<lparr>cs_pool = s', cs_counters = c,
        cs_handles = (case h of None \<Rightarrow> hs | Some (slot, page) \<Rightarrow> (slot, seq) # hs), cs_inflight = fs\<rparr>"

inductive cache_reachable :: "(u32 \<Rightarrow> bytes) \<Rightarrow> cache_sys \<Rightarrow> bool" for disk where
  opened: "Init_pool file_opened read_window base tbc slotCount = (None, s) \<Longrightarrow> honest_window disk read_window \<Longrightarrow>
     cache_reachable disk \<lparr>cs_pool = s, cs_counters = c, cs_handles = [], cs_inflight = []\<rparr>"
| step: "cache_reachable disk sys \<Longrightarrow> cache_step disk sys sys' \<Longrightarrow> cache_reachable disk sys'"

definition sys_wf :: "(u32 \<Rightarrow> bytes) \<Rightarrow> cache_sys \<Rightarrow> bool" where
  "sys_wf disk sys = pool_wf disk (cs_handles sys) (cs_inflight sys) (cs_pool sys)"

lemma cache_step_wf:
  assumes "cache_step disk sys sys'" and "sys_wf disk sys"
  shows "sys_wf disk sys'"
  using assms
proof (induction rule: cache_step.induct)
  case (get_hit seq s c slot s' c' hs fs)
  then show ?case using get_reserve_wf [of disk hs fs s seq c "RHit slot" s' c'] by (simp add: sys_wf_def)
next
  case (get_miss seq s c slot s' c' hs fs)
  then show ?case using get_reserve_wf [of disk hs fs s seq c "RMiss slot" s' c'] by (simp add: sys_wf_def)
next
  case (get_idle seq s c r s' c' hs fs)
  then show ?case using get_reserve_wf [of disk hs fs s seq c r s' c'] by (auto simp: sys_wf_def)
next
  case (load_ok slot seq fs s c s' c' hs)
  then show ?case using get_complete_wf [of disk hs fs s slot seq True "disk seq" c s' c']
    by (simp add: sys_wf_def)
next
  case (load_failed slot seq fs frame s c s' c' hs)
  then show ?case using get_complete_wf [of disk hs fs s slot seq False frame c s' c']
    by (simp add: sys_wf_def)
next
  case (pin seq s c slot s' c' hs fs)
  then show ?case using try_pin_wf [of disk hs fs s seq c "RHit slot" s' c'] by (simp add: sys_wf_def)
next
  case (release slot seq hs s c fs)
  then show ?case using handle_drop_wf [of disk hs fs s slot seq] by (simp add: sys_wf_def)
next
  case (sequential has_file read_run seq s h s' hs fs c)
  then show ?case using GetBlock_sequential_wf [of disk hs fs s seq read_run has_file h s']
    by (auto simp: sys_wf_def split: option.splits)
qed

lemma cache_reachable_wf: "cache_reachable disk sys \<Longrightarrow> sys_wf disk sys"
  by (induction rule: cache_reachable.induct)
    (auto simp: sys_wf_def Init_pool_wf intro: cache_step_wf [unfolded sys_wf_def])

lemma evict_scan_none:
  assumes "evict_scan n slots sc e = (MAX32, e')" and "sc \<noteq> 0" and "unat e + n \<le> 2 ^ 32"
    and "k < n"
  shows "Ref (slots ! ((unat e + k) mod unat sc)) \<noteq> 0 \<or> Loading (slots ! ((unat e + k) mod unat sc))"
  using assms
proof (induction n arbitrary: e k)
  case 0
  then show ?case by simp
next
  case (Suc n)
  have cand: "unat (e mod sc) = unat e mod unat sc" by (simp add: unat_mod_distrib)
  then have "unat (e mod sc) < unat sc"
    using Suc.prems(2) by (simp add: unat_gt_0)
  moreover have "unat sc < 2 ^ 32" using unat_bound [of sc] by simp
  ultimately have "e mod sc \<noteq> MAX32" by (rule less_not_MAX32)
  then have busy: "Ref (slots ! unat (e mod sc)) \<noteq> 0 \<or> Loading (slots ! unat (e mod sc))"
    and rest: "evict_scan n slots sc (e + 1) = (MAX32, e')"
    using Suc.prems(1) by (auto simp: Let_def split: if_splits)
  show ?case
  proof (cases k)
    case 0
    with busy cand show ?thesis by simp
  next
    case (Suc k')
    then have "unat (e + 1) = Suc (unat e)"
      using Suc.prems(3,4) by (simp add: unat_word_ariths)
    then show ?thesis
      using Suc.IH [OF rest Suc.prems(2), of k'] Suc.prems(3,4) \<open>k = Suc k'\<close> by simp
  qed
qed

lemma evict_scan_complete:
  assumes "i < unat sc" and "Ref (slots ! i) = 0" and "\<not> Loading (slots ! i)"
    and "unat e + unat sc \<le> 2 ^ 32"
  shows "fst (evict_scan (unat sc) slots sc e) \<noteq> MAX32"
proof
  assume "fst (evict_scan (unat sc) slots sc e) = MAX32"
  then obtain e' where scan: "evict_scan (unat sc) slots sc e = (MAX32, e')"
    by (metis prod.collapse)
  define k where "k = (i + (unat sc - unat e mod unat sc)) mod unat sc"
  have "(unat e + k) mod unat sc = (unat e mod unat sc + (i + (unat sc - unat e mod unat sc))) mod unat sc"
    unfolding k_def by (simp add: mod_simps)
  also have "\<dots> = (i + unat sc) mod unat sc"
  proof -
    have "unat e mod unat sc < unat sc" using assms(1) by simp
    then have "unat e mod unat sc + (i + (unat sc - unat e mod unat sc)) = i + unat sc" by arith
    then show ?thesis by (rule arg_cong)
  qed
  finally have "(unat e + k) mod unat sc = i" using assms(1) by simp
  moreover have "k < unat sc" "sc \<noteq> 0" using assms(1) by (auto simp: k_def)
  ultimately show False
    using evict_scan_none [OF scan _ assms(4), of k] assms(2,3) by simp
qed

subsection \<open>Properties of the cache\<close>

text \<open>
  C8. However the threads' critical sections interleave, those of the sequential path included, a
  live handle on a block always points into the page of that block: its slot is pinned, is not
  being loaded, still belongs to the block (it was not evicted), and its frame holds the block's
  content on disk. The interleavings are those in which a sequential get does not meet a slot that
  is being loaded.
\<close>

theorem cache_handle_safe:
  assumes "cache_reachable disk sys" and "(slot, seq) \<in> set (cs_handles sys)"
  shows "slot_page (cs_pool sys) slot = Some (disk seq) \<and>
    (\<exists>slots. BCP_SlotTable (cs_pool sys) = Some slots \<and> unat slot < length slots \<and>
      BlockID (slots ! unat slot) = seq \<and> \<not> Loading (slots ! unat slot) \<and> Ref (slots ! unat slot) \<noteq> 0)"
  using pool_wf_handle [of disk "cs_handles sys" "cs_inflight sys" "cs_pool sys" slot seq]
    cache_reachable_wf [OF assms(1)] assms(2) by (simp add: sys_wf_def)

definition disk2 :: "u32 \<Rightarrow> bytes" where
  "disk2 b = [ucast b, 7]"

definition counters0 :: BlockAccessCounters where
  "counters0 = \<lparr>m_CacheHits = 0, m_CacheMisses = 0, m_DiskReads = 0\<rparr>"

definition opened_pool :: BlockCacheState where
  "opened_pool = \<lparr>BCP_Pages = Some [[0, 7]], BCP_BaseOffset = 4096, BCP_TotalBlockCount = 2,
     BCP_SlotCount = 1, BCP_EvictSlot = 1, BCP_LogicTable = Some [0, MAX32],
     BCP_SlotTable = Some [\<lparr>BlockID = 0, Ref = 0, Loading = False\<rparr>]\<rparr>"

lemma opened_pool_Init:
  "Init_pool (Some True) (\<lambda>n. Some (map (\<lambda>i. disk2 (word_of_nat i)) [0..<n])) 4096 2 1 = (None, opened_pool)"
  by (simp add: Init_pool_def opened_pool_def disk2_def IndexSlotEntry_default_def
      BlockCacheState_new_def Let_def min_def)

lemma opened_pool_reachable:
  "cache_reachable disk2 \<lparr>cs_pool = opened_pool, cs_counters = counters0, cs_handles = [], cs_inflight = []\<rparr>"
  by (rule cache_reachable.opened [OF opened_pool_Init]) (simp add: honest_window_def)

definition missed_pool :: BlockCacheState where
  "missed_pool = opened_pool\<lparr>BCP_EvictSlot := 2, BCP_LogicTable := Some [MAX32, 0],
     BCP_SlotTable := Some [\<lparr>BlockID = 1, Ref = 1, Loading = True\<rparr>]\<rparr>"

lemma opened_pool_miss:
  "get_reserve 1 (opened_pool, counters0) = (RMiss 0, missed_pool, counters0\<lparr>m_CacheMisses := 1\<rparr>)"
  by (simp add: get_reserve_def reserve_miss_def opened_pool_def missed_pool_def counters0_def
      Let_def MAX32_def word_le_nat_alt)

lemma missed_pool_reachable:
  "cache_reachable disk2 \<lparr>cs_pool = missed_pool, cs_counters = counters0\<lparr>m_CacheMisses := 1\<rparr>,
     cs_handles = [], cs_inflight = [(0, 1)]\<rparr>"
  by (rule cache_reachable.step [OF opened_pool_reachable]) (auto intro!: get_miss opened_pool_miss)

definition loaded_pool :: BlockCacheState where
  "loaded_pool = missed_pool\<lparr>BCP_Pages := Some [[1, 7]],
     BCP_SlotTable := Some [\<lparr>BlockID = 1, Ref = 1, Loading = False\<rparr>]\<rparr>"

lemma missed_pool_complete:
  "get_complete 1 0 True (disk2 1) (missed_pool, counters0\<lparr>m_CacheMisses := 1\<rparr>) =
     (loaded_pool, counters0\<lparr>m_CacheMisses := 1, m_DiskReads := 1\<rparr>)"
  by (simp add: get_complete_def missed_pool_def loaded_pool_def opened_pool_def disk2_def
      counters0_def Let_def)

lemma loaded_pool_reachable:
  "cache_reachable disk2 \<lparr>cs_pool = loaded_pool,
     cs_counters = counters0\<lparr>m_CacheMisses := 1, m_DiskReads := 1\<rparr>,
     cs_handles = [(0, 1)], cs_inflight = []\<rparr>"
  using load_ok [of 0 1 "[(0, 1)]" disk2, OF _ missed_pool_complete]
  by (intro cache_reachable.step [OF missed_pool_reachable]) auto

theorem cache_handle_safe_witness:
  "slot_page loaded_pool 0 = Some (disk2 1) \<and>
   (\<exists>slots. BCP_SlotTable loaded_pool = Some slots \<and> unat (0 :: u32) < length slots \<and>
      BlockID (slots ! unat (0 :: u32)) = 1 \<and> \<not> Loading (slots ! unat (0 :: u32)) \<and> Ref (slots ! unat (0 :: u32)) \<noteq> 0)"
  using cache_handle_safe [OF loaded_pool_reachable, of 0 1] by simp

text \<open>A pool is able to serve a block when the block is resident or some slot is unpinned.\<close>

definition can_serve :: "u32 \<Rightarrow> BlockCacheState \<Rightarrow> bool" where
  "can_serve seq s \<longleftrightarrow> seq < BCP_TotalBlockCount s \<and> BCP_SlotCount s \<noteq> 0 \<and>
     unat (BCP_EvictSlot s) + unat (BCP_SlotCount s) \<le> 2 ^ 32 \<and>
     (case (BCP_LogicTable s, BCP_SlotTable s) of
        (Some logic, Some slots) \<Rightarrow> logic ! unat seq \<noteq> MAX32 \<or> list_ex (\<lambda>e. Ref e = 0) slots
      | _ \<Rightarrow> False)"

lemma quiet_not_loading:
  assumes "tables_ok disk hs [] pages logic slots" and "i < length slots"
  shows "\<not> Loading (slots ! i)"
  using tables_ok_slotD [OF assms] by (auto simp: slot_ok_def split: if_splits)

lemma get_reserve_serves:
  assumes wf: "pool_wf disk hs [] s" and serve: "can_serve seq s"
    and res: "get_reserve seq (s, c) = (r, s', c')"
  shows "(\<exists>slot. r = RHit slot) \<or> (\<exists>slot. r = RMiss slot)"
proof -
  from wf obtain pages logic slots where
    s: "BCP_Pages s = Some pages" "BCP_LogicTable s = Some logic" "BCP_SlotTable s = Some slots"
      "length slots = unat (BCP_SlotCount s)" "length logic = unat (BCP_TotalBlockCount s)"
    and ok: "tables_ok disk hs [] pages logic slots" by (rule pool_wfE)
  have seq: "unat seq < length logic" and ns: "\<not> BCP_TotalBlockCount s \<le> seq" "BCP_SlotCount s \<noteq> 0"
    using serve s by (auto simp: can_serve_def word_less_nat_alt word_le_nat_alt)
  let ?slot = "logic ! unat seq"
  show ?thesis
  proof (cases "?slot = MAX32")
    case False
    have "unat ?slot < length slots" "BlockID (slots ! unat ?slot) = seq"
      using tables_ok_logicD [OF ok seq False] by (simp_all add: unat_inject)
    moreover from this have "\<not> BCP_SlotCount s \<le> ?slot" by (simp add: s word_le_nat_alt)
    ultimately show ?thesis
      using res s False ns quiet_not_loading [OF ok] by (auto simp: get_reserve_def Let_def)
  next
    case True
    then have "list_ex (\<lambda>e. Ref e = 0) slots"
      using serve s by (auto simp: can_serve_def)
    then obtain i where i: "i < length slots" "Ref (slots ! i) = 0"
      by (auto simp: list_ex_iff in_set_conv_nth)
    then have "fst (evict_scan (unat (BCP_SlotCount s)) slots (BCP_SlotCount s) (BCP_EvictSlot s)) \<noteq> MAX32"
      using quiet_not_loading [OF ok i(1)] serve s(4)
      by (intro evict_scan_complete [of i]) (auto simp: can_serve_def)
    then show ?thesis
      using res s True ns by (auto simp: get_reserve_def reserve_miss_def Let_def split: prod.splits)
  qed
qed

lemma GetBlock_direct_serves:
  assumes wf: "pool_wf disk hs [] s" and serve: "can_serve seq s"
    and room: "length hs < 2 ^ 32 - 1" and rd: "rd seq = (True, disk seq)"
  shows "\<exists>slot s' c'. GetBlock_direct (Some rd) seq (s, c) = (Some (slot, disk seq), s', c') \<and>
           pool_wf disk ((slot, seq) # hs) [] s'"
proof -
  obtain r s' c' where res: "get_reserve seq (s, c) = (r, s', c')" by (metis prod_cases3)
  have step: "case r of RHit slot \<Rightarrow> pool_wf disk ((slot, seq) # hs) [] s'
    | RMiss slot \<Rightarrow> pool_wf disk hs [(slot, seq)] s' | _ \<Rightarrow> pool_wf disk hs [] s'"
    using get_reserve_wf [OF wf res] room by simp
  from get_reserve_serves [OF wf serve res] show ?thesis
  proof (elim disjE exE)
    fix slot assume r: "r = RHit slot"
    with step have "pool_wf disk ((slot, seq) # hs) [] s'" by simp
    then show ?thesis
      using r res pool_wf_handle(1) [of disk "(slot, seq) # hs" "[]" s' slot seq]
      by (simp add: GetBlock_direct_def)
  next
    fix slot assume r: "r = RMiss slot"
    obtain s'' c'' where fin: "get_complete seq slot True (disk seq) (s', c') = (s'', c'')" by force
    have "pool_wf disk ((slot, seq) # hs) [] s''"
      using get_complete_wf [of disk hs "[(slot, seq)]" s' slot seq True "disk seq" c' s'' c''] step r fin by simp
    then show ?thesis
      using r res rd fin pool_wf_handle(1) [of disk "(slot, seq) # hs" "[]" s'' slot seq]
      by (simp add: GetBlock_direct_def)
  qed
qed

lemma GetBlock_direct_fails:
  assumes wf: "pool_wf disk hs [] s" and room: "length hs < 2 ^ 32 - 1"
    and rd: "case read of None \<Rightarrow> True | Some rd \<Rightarrow> \<not> fst (rd seq) \<or> snd (rd seq) = disk seq"
    and get: "GetBlock_direct read seq (s, c) = (None, s', c')"
  shows "pool_wf disk hs [] s'"
proof -
  obtain r s1 c1 where res: "get_reserve seq (s, c) = (r, s1, c1)" by (metis prod_cases3)
  have step: "case r of RHit slot \<Rightarrow> pool_wf disk ((slot, seq) # hs) [] s1
    | RMiss slot \<Rightarrow> pool_wf disk hs [(slot, seq)] s1 | _ \<Rightarrow> pool_wf disk hs [] s1"
    using get_reserve_wf [OF wf res] room by simp
  show ?thesis
  proof (cases r)
    case (RHit slot)
    then show ?thesis
      using step get res pool_wf_handle(1) [of disk "(slot, seq) # hs" "[]" s1 slot seq]
      by (simp add: GetBlock_direct_def)
  next
    case (RMiss slot)
    define ok frame where "ok = (case read of None \<Rightarrow> False | Some rd \<Rightarrow> fst (rd seq))"
      and "frame = (case read of None \<Rightarrow> the (slot_page s1 slot) | Some rd \<Rightarrow> snd (rd seq))"
    obtain s2 c2 where fin: "get_complete seq slot ok frame (s1, c1) = (s2, c2)" by force
    have g: "GetBlock_direct read seq (s, c) =
        (if ok then map_option (\<lambda>p. (slot, p)) (slot_page s2 slot) else None, s2, c2)"
      using RMiss res fin by (auto simp: GetBlock_direct_def ok_def frame_def split: option.splits prod.splits)
    have wf2: "pool_wf disk (if ok then (slot, seq) # hs else hs) [] s2"
      using get_complete_wf [of disk hs "[(slot, seq)]" s1 slot seq ok frame c1 s2 c2] step RMiss fin rd
      by (auto simp: ok_def frame_def split: option.splits)
    have "\<not> ok"
    proof
      assume ok
      with wf2 have "slot_page s2 slot = Some (disk seq)" by (auto intro: pool_wf_handle(1))
      with g get \<open>ok\<close> show False by simp
    qed
    with g get wf2 show ?thesis by simp
  qed (use step get res in \<open>auto simp: GetBlock_direct_def\<close>)
qed

text \<open>
  On a pool in a consistent state with no load under way, a direct \<open>GetBlock\<close> for a block of
  the file returns a handle on exactly that block's page whenever the read succeeds and the
  block is resident or some slot is unpinned, and leaves a consistent pool that counts the new
  handle.
\<close>

theorem GetBlock_direct_correct:
  assumes "pool_wf disk hs [] s" and "can_serve seq s"
    and "length hs < 2 ^ 32 - 1" and "rd seq = (True, disk seq)"
  shows "\<exists>slot s' c'. GetBlock_direct (Some rd) seq (s, c) = (Some (slot, disk seq), s', c') \<and>
           pool_wf disk ((slot, seq) # hs) [] s'"
  using GetBlock_direct_serves [of disk hs s seq rd c] assms by blast

theorem GetBlock_direct_correct_witness:
  "\<exists>slot s' c'. GetBlock_direct (Some (\<lambda>b. (True, disk2 b))) 1 (opened_pool, counters0) =
       (Some (slot, disk2 1), s', c') \<and> pool_wf disk2 [(slot, 1)] [] s'"
proof (rule GetBlock_direct_correct)
  show "pool_wf disk2 [] [] opened_pool"
    using cache_reachable_wf [OF opened_pool_reachable] by (simp add: sys_wf_def)
  show "can_serve 1 opened_pool"
    by (simp add: can_serve_def opened_pool_def word_less_nat_alt)
qed simp_all

text \<open>
  A sequential \<open>GetBlock\<close> on a pool with no load under way always finds its slot ready; one that
  gets a handle has the page of the block it was asked for.
\<close>

lemma sequential_ready_quiet:
  assumes "pool_wf disk hs [] s"
  shows "sequential_ready seq s"
proof (cases "resident_slot seq s")
  case (Some slot)
  from assms obtain pages logic slots where
    s: "BCP_Pages s = Some pages" "BCP_LogicTable s = Some logic" "BCP_SlotTable s = Some slots"
      "length slots = unat (BCP_SlotCount s)"
    and ok: "tables_ok disk hs [] pages logic slots" by (auto elim: pool_wfE)
  have "unat slot < length slots"
    using Some s by (auto simp: resident_slot_def word_less_nat_alt split: if_splits)
  from quiet_not_loading [OF ok this] show ?thesis
    using Some s by (simp add: sequential_ready_def)
qed (simp add: sequential_ready_def)

lemma GetBlock_sequential_demo:
  "case GetBlock_sequential True (\<lambda>start n. (True, map (\<lambda>i. disk2 (start + word_of_nat i)) [0..<n])) 1 opened_pool
   of (None, s') \<Rightarrow> False
    | (Some (slot, page), s') \<Rightarrow> page = disk2 1 \<and> pool_wf disk2 [(slot, 1)] [] s'"
proof -
  let ?rd = "\<lambda>start n. (True, map (\<lambda>i. disk2 (start + word_of_nat i)) [0..<n])"
  let ?s = "opened_pool\<lparr>BCP_Pages := Some [[1, 7]], BCP_LogicTable := Some [MAX32, 0],
    BCP_SlotTable := Some [\<lparr>BlockID = 1, Ref = 1, Loading = False\<rparr>]\<rparr>"
  have get: "GetBlock_sequential True ?rd 1 opened_pool = (Some (0, [1, 7]), ?s)"
    by (simp add: GetBlock_sequential_def resident_slot_def LoadSequentialWindow_def opened_pool_def
        clear_window_def Let_def MAX32_def size_consts put_def slot_page_def pin_slot_def min_def
        word_le_nat_alt word_less_nat_alt disk2_def IndexSlotEntry_default_def)
  have "pool_wf disk2 [] [] opened_pool"
    using cache_reachable_wf [OF opened_pool_reachable] by (simp add: sys_wf_def)
  from GetBlock_sequential_wf [OF this sequential_ready_quiet [OF this] _ _ get] show ?thesis
    unfolding get by (auto simp: honest_run_def)
qed

text \<open>
  Without the restriction to ready slots the sequential path hands out pages too early: it does not look at
  \<open>Loading\<close>. From a pool with one slot, a thread that reserved block 1 and is still reading it
  leaves the slot with the page of block 0; a sequential \<open>GetBlock\<close> of block 1 then returns it.
\<close>

lemma GetBlock_sequential_unloaded:
  "cache_reachable disk2 \<lparr>cs_pool = missed_pool, cs_counters = counters0\<lparr>m_CacheMisses := 1\<rparr>,
     cs_handles = [], cs_inflight = [(0, 1)]\<rparr> \<and>
   fst (GetBlock_sequential has_file read_run 1 missed_pool) = Some (0, disk2 0) \<and> disk2 0 \<noteq> disk2 1"
  using missed_pool_reachable
  by (simp add: GetBlock_sequential_def resident_slot_def missed_pool_def opened_pool_def
      slot_page_def MAX32_def disk2_def word_less_nat_alt)

text \<open>
  The clock hand is a \<open>u32\<close> that wraps. When \<open>SlotCount\<close> does not divide \<open>2 ^ 32\<close> the scan that
  crosses the wrap visits some slots twice and others not at all, and may miss a free slot.
\<close>

lemma evict_scan_wrap_misses:
  "evict_scan 3 [\<lparr>BlockID = 0, Ref = 1, Loading = False\<rparr>, \<lparr>BlockID = 1, Ref = 1, Loading = False\<rparr>,
      \<lparr>BlockID = 2, Ref = 0, Loading = False\<rparr>] 3 0xFFFFFFFF = (MAX32, 2)"
  by (simp add: MAX32_def Let_def numeral_3_eq_3)

subsection \<open>What the readers of the index rely on\<close>

text \<open>
  The clients of the cache (term lookup, posting readers) only need a source of pages: a block
  below the count comes back as its page, any other is refused. \<open>block_source\<close> is that contract;
  the memory pool built by \<open>SetPoolMemory\<close> and a pool over a file in a servable state both meet it.
\<close>

definition fetch_block ::
  "(u32 \<Rightarrow> bool \<times> bytes) option \<Rightarrow> BlockCacheState \<times> BlockAccessCounters \<Rightarrow> u32 \<Rightarrow> bytes option" where
  "fetch_block read_block sc seq = map_option snd (fst (GetBlock_direct read_block seq sc))"

locale block_source =
  fixes invar :: "'s \<Rightarrow> bool"
    and count :: "'s \<Rightarrow> u32"
    and page :: "'s \<Rightarrow> u32 \<Rightarrow> bytes"
    and fetch :: "'s \<Rightarrow> u32 \<Rightarrow> bytes option"
  assumes fetch_page: "invar s \<Longrightarrow> seq < count s \<Longrightarrow> fetch s seq = Some (page s seq)"
    and fetch_beyond: "invar s \<Longrightarrow> \<not> seq < count s \<Longrightarrow> fetch s seq = None"
begin

lemma fetch_Some: "invar s \<Longrightarrow> fetch s seq = Some p \<Longrightarrow> seq < count s \<and> p = page s seq"
  using fetch_page [of s seq] fetch_beyond [of s seq] by (cases "seq < count s") auto

end

lemma get_reserve_beyond:
  assumes "\<not> seq < BCP_TotalBlockCount s"
  shows "get_reserve seq (s, c) = (RNone, s, c)"
  using assms by (auto simp: get_reserve_def not_less split: option.splits)

lemma SetPoolMemory_wf:
  assumes "length bs < 2 ^ 32"
  shows "pool_wf (\<lambda>b. bs ! unat b) [] [] (SetPoolMemory (Some bs))"
proof -
  have len: "unat (word_of_nat (length bs) :: u32) = length bs" using assms by (rule unat32_of_nat)
  have "tables_ok (\<lambda>b. bs ! unat b) [] [] bs (map word_of_nat [0..<length bs])
      (map (\<lambda>i. \<lparr>BlockID = word_of_nat i, Ref = 0, Loading = False\<rparr>) [0..<length bs])"
    by (rule tables_ok_window [where start = 0 and n = "length bs" and tbc = "length bs"])
      (use assms in \<open>auto simp: unat32_of_nat\<close>)
  then show ?thesis using len by (simp add: SetPoolMemory_def pool_wf_def)
qed

lemma fetch_memory:
  assumes len: "length bs < 2 ^ 32" and seq: "unat seq < length bs"
  shows "fetch_block None (SetPoolMemory (Some bs), c) seq = Some (bs ! unat seq)"
proof -
  let ?s = "SetPoolMemory (Some bs)"
  have T: "unat (word_of_nat (length bs) :: u32) = length bs" using len by (rule unat32_of_nat)
  have "(word_of_nat (unat seq) :: u32) = seq" by simp
  moreover have "seq \<noteq> MAX32" "(word_of_nat (length bs) :: u32) \<noteq> 0"
    using less_not_MAX32 [OF seq len] T seq by auto
  ultimately show ?thesis
    using seq T
    by (simp add: fetch_block_def GetBlock_direct_def get_reserve_def SetPoolMemory_def Let_def
        slot_page_def word_le_nat_alt)
qed

definition source_memory_ok :: "bytes list \<times> BlockAccessCounters \<Rightarrow> bool" where
  "source_memory_ok m \<longleftrightarrow> length (fst m) < 2 ^ 32"

interpretation memory: block_source source_memory_ok "\<lambda>(bs, c). word_of_nat (length bs)"
  "\<lambda>(bs, c) seq. bs ! unat seq" "\<lambda>(bs, c). fetch_block None (SetPoolMemory (Some bs), c)"
proof unfold_locales
  fix m :: "bytes list \<times> BlockAccessCounters" and seq :: u32
  obtain bs c where m: "m = (bs, c)" by force
  assume "source_memory_ok m"
  then have len: "length bs < 2 ^ 32" by (simp add: m source_memory_ok_def)
  then have T: "unat (word_of_nat (length bs) :: u32) = length bs" by (rule unat32_of_nat)
  show "(case m of (bs, c) \<Rightarrow> fetch_block None (SetPoolMemory (Some bs), c)) seq =
      Some ((case m of (bs, c) \<Rightarrow> \<lambda>seq. bs ! unat seq) seq)"
    if "seq < (case m of (bs, c) \<Rightarrow> word_of_nat (length bs))"
    using fetch_memory [OF len] that T by (simp add: m word_less_nat_alt)
  show "(case m of (bs, c) \<Rightarrow> fetch_block None (SetPoolMemory (Some bs), c)) seq = None"
    if "\<not> seq < (case m of (bs, c) \<Rightarrow> word_of_nat (length bs))"
    using that by (simp add: m fetch_block_def GetBlock_direct_def get_reserve_beyond SetPoolMemory_def)
qed

text \<open>A pool over a file, in a state where every block can be served.\<close>

type_synonym file_source = "(u32 \<Rightarrow> bool \<times> bytes) \<times> BlockCacheState \<times> BlockAccessCounters"

definition disk_of :: "file_source \<Rightarrow> u32 \<Rightarrow> bytes" where
  "disk_of f seq = snd (fst f seq)"

definition source_file_ok :: "file_source \<Rightarrow> bool" where
  "source_file_ok f \<longleftrightarrow> (\<exists>hs. length hs < 2 ^ 32 - 1 \<and> pool_wf (disk_of f) hs [] (fst (snd f))) \<and>
     (\<forall>seq < BCP_TotalBlockCount (fst (snd f)). can_serve seq (fst (snd f)) \<and> fst (fst f seq))"

interpretation pool_file: block_source source_file_ok "\<lambda>(rd, s, c). BCP_TotalBlockCount s"
  disk_of "\<lambda>(rd, sc). fetch_block (Some rd) sc"
proof unfold_locales
  fix f :: file_source and seq :: u32
  obtain rd s c where f: "f = (rd, s, c)" by (metis prod_cases3)
  assume ok: "source_file_ok f"
  then obtain hs where hs: "length hs < 2 ^ 32 - 1" "pool_wf (disk_of f) hs [] s"
    by (auto simp: source_file_ok_def f)
  show "(case f of (rd, sc) \<Rightarrow> fetch_block (Some rd) sc) seq = Some (disk_of f seq)"
    if "seq < (case f of (rd, s, c) \<Rightarrow> BCP_TotalBlockCount s)"
  proof -
    have serve: "can_serve seq s" "rd seq = (True, disk_of f seq)"
      using ok that by (auto simp: source_file_ok_def f disk_of_def prod_eq_iff)
    then obtain slot s' c' where "GetBlock_direct (Some rd) seq (s, c) = (Some (slot, disk_of f seq), s', c')"
      using GetBlock_direct_serves [of "disk_of f" hs s seq rd c] hs by blast
    then show ?thesis by (simp add: f fetch_block_def)
  qed
  show "(case f of (rd, sc) \<Rightarrow> fetch_block (Some rd) sc) seq = None"
    if "\<not> seq < (case f of (rd, s, c) \<Rightarrow> BCP_TotalBlockCount s)"
    using that by (simp add: f fetch_block_def GetBlock_direct_def get_reserve_beyond)
qed

end
