(* ===== verification/TermLookup.thy ===== *)
theory TermLookup
  imports BlockCache
begin

text \<open>
  Term lookup of \<open>IndexAccess/BlockTable.rs\<close>: the table record \<open>IndexBlockTable\<close> with its setters,
  the lookup through the minimal perfect hash (\<open>FindTermDataMphf\<close>) and the lookup through the
  head entries and a leaf page (\<open>FindTermDataHeadLeaf\<close>), joined by \<open>FindTermData\<close>.

  The leaf page is obtained with \<open>GetBlock\<close>; here that is the argument \<open>fetch\<close>, and the lemmas
  hold for every \<open>fetch\<close> that meets the contract \<open>block_source\<close> of the block cache.
\<close>

subsection \<open>The block table\<close>

record IndexLocation =
  index_block_id :: u32
  index_offset :: nat
  index_length :: nat
  loc_doc_freq :: u32
  continuation_block_count :: u32

record IndexBlockTable =
  m_IndexPool :: BlockCacheState
  m_LeafTermPool :: BlockCacheState
  m_TermMphfHeader :: TermMphfHeader
  m_TermMphfDisplacements :: "i32 list"
  m_TermMphfDisplacementCount :: u32
  m_TermMphfEntryPages :: "bytes list"
  m_TermMphfEntryPageCount :: u32
  m_TermMphfEnabled :: bool
  m_HeadTermEntries :: "HeadTermEntry list"
  m_HeadTermEntryCount :: u32

definition IndexBlockTable_new :: IndexBlockTable where
  "IndexBlockTable_new = \<lparr>m_IndexPool = BlockCacheState_new, m_LeafTermPool = BlockCacheState_new,
     m_TermMphfHeader = TermMphfHeader_default, m_TermMphfDisplacements = [],
     m_TermMphfDisplacementCount = 0, m_TermMphfEntryPages = [], m_TermMphfEntryPageCount = 0,
     m_TermMphfEnabled = True, m_HeadTermEntries = [], m_HeadTermEntryCount = 0\<rparr>"

definition SetHeadTermEntries :: "HeadTermEntry list \<Rightarrow> IndexBlockTable \<Rightarrow> IndexBlockTable" where
  "SetHeadTermEntries head t =
     t\<lparr>m_HeadTermEntryCount := word_of_nat (min (length head) (2 ^ 32 - 1)), m_HeadTermEntries := head\<rparr>"

definition ClearTermMphf :: "IndexBlockTable \<Rightarrow> IndexBlockTable" where
  "ClearTermMphf t =
     t\<lparr>m_TermMphfHeader := TermMphfHeader_default, m_TermMphfDisplacements := [],
       m_TermMphfDisplacementCount := 0, m_TermMphfEntryPages := [], m_TermMphfEntryPageCount := 0\<rparr>"

definition SetTermMphf ::
  "TermMphfHeader \<Rightarrow> i32 list \<Rightarrow> bytes list \<Rightarrow> IndexBlockTable \<Rightarrow> IndexBlockTable" where
  "SetTermMphf header displacements entryPages t =
     (let t = ClearTermMphf t in
      if TMH_TermCount header = 0 \<or> TMH_BucketCount header = 0 \<or> TMH_SlotCount header = 0 \<or>
         displacements = [] \<or> entryPages = [] then t
      else if TMH_Magic header \<noteq> TERM_MPHF_MAGIC \<or>
         ucast (TMH_SlotCount header) \<noteq> TMH_TermCount header \<or>
         length displacements \<noteq> unat (TMH_BucketCount header) \<or>
         unat (TMH_SlotCount header) * TERM_MPHF_ENTRY_SIZE > length entryPages * PAGE_SIZE then t
      else t\<lparr>m_TermMphfHeader := header, m_TermMphfDisplacements := displacements,
             m_TermMphfDisplacementCount := word_of_nat (length displacements),
             m_TermMphfEntryPages := entryPages,
             m_TermMphfEntryPageCount := word_of_nat (length entryPages)\<rparr>)"

definition SetTermMphfEnabled :: "bool \<Rightarrow> IndexBlockTable \<Rightarrow> IndexBlockTable" where
  "SetTermMphfEnabled enabled t = t\<lparr>m_TermMphfEnabled := enabled\<rparr>"

definition SetBlockMemory ::
  "bytes list option \<Rightarrow> bytes list option \<Rightarrow> IndexBlockTable \<Rightarrow> IndexBlockTable" where
  "SetBlockMemory indexBlocks leafTermBlocks t =
     (let t = t\<lparr>m_IndexPool := SetPoolMemory indexBlocks, m_LeafTermPool := SetPoolMemory leafTermBlocks\<rparr>
      in if indexBlocks = None \<and> leafTermBlocks = None then ClearTermMphf t else t)"

definition HasTermMphf :: "IndexBlockTable \<Rightarrow> bool" where
  "HasTermMphf t \<longleftrightarrow>
     m_TermMphfEnabled t \<and> TMH_Magic (m_TermMphfHeader t) = TERM_MPHF_MAGIC \<and>
     TMH_TermCount (m_TermMphfHeader t) > 0 \<and> TMH_BucketCount (m_TermMphfHeader t) > 0 \<and>
     TMH_SlotCount (m_TermMphfHeader t) > 0 \<and>
     m_TermMphfDisplacementCount t = TMH_BucketCount (m_TermMphfHeader t) \<and>
     length (m_TermMphfDisplacements t) = unat (m_TermMphfDisplacementCount t) \<and>
     length (m_TermMphfEntryPages t) = unat (m_TermMphfEntryPageCount t) \<and>
     unat (m_TermMphfEntryPageCount t) * PAGE_SIZE \<ge>
       unat (TMH_SlotCount (m_TermMphfHeader t)) * TERM_MPHF_ENTRY_SIZE"

subsection \<open>Lookup through the perfect hash\<close>

text \<open>The record of a slot: 32 bytes, the fingerprint last. A zero fingerprint is stored as one.\<close>

definition mphf_fingerprint :: "bytes \<Rightarrow> u64 \<Rightarrow> u64" where
  "mphf_fingerprint term seed = (let f = TermMphfHash term seed in if f = 0 then 1 else f)"

definition FindTermDataMphf :: "IndexBlockTable \<Rightarrow> bytes \<Rightarrow> IndexLocation option" where
  "FindTermDataMphf t term =
     (if \<not> HasTermMphf t then None
      else
        let h = m_TermMphfHeader t;
            bucket = unat (TermMphfHash term (TMH_BucketSeed h) mod ucast (TMH_BucketCount h))
        in if bucket \<ge> length (m_TermMphfDisplacements t) then None
        else
          let displacement = m_TermMphfDisplacements t ! bucket;
              slot = (if displacement <s 0 then word_of_int (- sint displacement - 1)
                      else TermMphfHash term (TermMphfSlotSeed (TMH_SlotSeed h) displacement) mod
                             ucast (TMH_SlotCount h)) :: u64
          in if slot \<ge> ucast (TMH_SlotCount h) then None
          else
            let byteOffset = unat slot * TERM_MPHF_ENTRY_SIZE; pageID = byteOffset div PAGE_SIZE
            in if pageID \<ge> unat (m_TermMphfEntryPageCount t) then None
            else if pageID \<ge> length (m_TermMphfEntryPages t) then None
            else
              let data = subslice (byteOffset mod PAGE_SIZE) (byteOffset mod PAGE_SIZE + TERM_MPHF_ENTRY_SIZE)
                           (m_TermMphfEntryPages t ! pageID)
              in if u64_from_le (subslice 24 32 data) \<noteq> mphf_fingerprint term (TMH_FingerprintSeed h) then None
              else Some \<lparr>index_block_id = u32_from_le (subslice 4 8 data),
                         index_offset = unat (u32_from_le (subslice 8 12 data)),
                         index_length = unat (u32_from_le (subslice 12 16 data)),
                         loc_doc_freq = u32_from_le (subslice 0 4 data),
                         continuation_block_count = u32_from_le (subslice 16 20 data)\<rparr>)"

subsection \<open>Lookup through head entries and a leaf page\<close>

text \<open>A page of the leaf pool read in place as a \<open>LeafTermBlock\<close>.\<close>

definition leaf_view :: "bytes \<Rightarrow> LeafTermBlock" where
  "leaf_view page =
     \<lparr>LTB_Directory = map (\<lambda>i. u16_from_le (subslice (i * 2) (i * 2 + 2) page)) [0..<LEAF_TERM_DIRECTORY_COUNT],
      LTB_Data = subslice LEAF_TERM_DATA_OFFSET PAGE_SIZE page\<rparr>"

text \<open>The binary search in the page; \<open>None\<close> when an entry on the way does not decode.\<close>

function leaf_search :: "LeafTermBlock \<Rightarrow> rstr \<Rightarrow> nat \<Rightarrow> nat \<Rightarrow> nat option" where
  "leaf_search block term left right =
     (if left < right then
        let mid = left + (right - left) div 2
        in case leaf_entry block mid of
             None \<Rightarrow> None
           | Some e \<Rightarrow> if LTE_Term e < term then leaf_search block term (mid + 1) right
                       else leaf_search block term left mid
      else Some left)"
  by pat_completeness auto
termination
  by (relation "measure (\<lambda>(block, term, left, right). right - left)") auto

declare leaf_search.simps [simp del]

definition entry_location :: "LeafTermEntry \<Rightarrow> IndexLocation" where
  "entry_location e =
     \<lparr>index_block_id = LTE_IndexBlockID e, index_offset = unat (LTE_IndexOffset e),
      index_length = unat (LTE_IndexLength e), loc_doc_freq = LTE_DocFreq e,
      continuation_block_count = ucast (LTE_ContinuationBlockCount e)\<rparr>"

definition find_in_leaf :: "LeafTermBlock \<Rightarrow> rstr \<Rightarrow> IndexLocation option" where
  "find_in_leaf block term =
     (case leaf_search block term 0 (entry_count block) of
        None \<Rightarrow> None
      | Some left \<Rightarrow>
          if left = entry_count block then None
          else case leaf_entry block left of
            None \<Rightarrow> None
          | Some e \<Rightarrow> if LTE_Term e \<noteq> term then None else Some (entry_location e))"

text \<open>\<open>partition_point\<close>: the number of leading entries whose first term is not above \<open>term\<close>.\<close>

definition FindTermDataHeadLeaf ::
  "(u32 \<Rightarrow> bytes option) \<Rightarrow> IndexBlockTable \<Rightarrow> rstr \<Rightarrow> IndexLocation option" where
  "FindTermDataHeadLeaf fetch t term =
     (if m_HeadTermEntryCount t = 0 \<or> length term > HEAD_TERM_KEY_MAX then None
      else if unat (m_HeadTermEntryCount t) > length (m_HeadTermEntries t) then None
      else
        let entries = take (unat (m_HeadTermEntryCount t)) (m_HeadTermEntries t);
            pos = length (takeWhile (\<lambda>e. first_term e \<le> term) entries)
        in if pos = 0 then None
           else case fetch (HTE_LeafTermBlockID (entries ! (pos - 1))) of
             None \<Rightarrow> None
           | Some page \<Rightarrow> find_in_leaf (leaf_view page) term)"

text \<open>
  \<open>FindTermData\<close>: the key ends at its first NUL byte; the Bloom filter of the code always answers
  yes.
\<close>

definition BloomFilter_CanTermExist :: "bytes \<Rightarrow> bool" where
  "BloomFilter_CanTermExist term = True"

definition FindTermData ::
  "(u32 \<Rightarrow> bytes option) \<Rightarrow> IndexBlockTable \<Rightarrow> rstr \<Rightarrow> IndexLocation option" where
  "FindTermData fetch t term =
     (let term = takeWhile (\<lambda>b. b \<noteq> 0) term in
      if \<not> BloomFilter_CanTermExist term then None
      else case (if HasTermMphf t then FindTermDataMphf t term else None) of
        Some location \<Rightarrow> Some location
      | None \<Rightarrow> FindTermDataHeadLeaf fetch t term)"

text \<open>The lookup reads pages through \<open>fetch\<close> alone.\<close>

lemma FindTermData_pools: "FindTermData fetch (t\<lparr>m_IndexPool := ip, m_LeafTermPool := lp\<rparr>) term = FindTermData fetch t term"
  by (simp add: FindTermData_def FindTermDataMphf_def FindTermDataHeadLeaf_def HasTermMphf_def Let_def cong: if_cong option.case_cong)

subsection \<open>What a dictionary of leaf pages holds\<close>

definition leaf_holds :: "bytes \<Rightarrow> LeafTermEntry list \<Rightarrow> bool" where
  "leaf_holds page es \<longleftrightarrow> entry_count (leaf_view page) = length es \<and>
     (\<forall>i < length es. leaf_entry (leaf_view page) i = Some (es ! i))"

text \<open>
  \<open>dict_ok heads blocks\<close>: one head entry per leaf page, numbered in order, carrying the first term
  of its page; the terms of all pages in order are strictly ascending and within the key limit.
\<close>

definition dict_ok :: "HeadTermEntry list \<Rightarrow> LeafTermEntry list list \<Rightarrow> bool" where
  "dict_ok heads blocks \<longleftrightarrow> length heads = length blocks \<and> length blocks < 2 ^ 32 \<and>
     (\<forall>i < length blocks. blocks ! i \<noteq> [] \<and> HTE_LeafTermBlockID (heads ! i) = word_of_nat i \<and>
        first_term (heads ! i) = LTE_Term (hd (blocks ! i))) \<and>
     ascending (map LTE_Term (concat blocks)) \<and>
     (\<forall>e \<in> set (concat blocks). length (LTE_Term e) \<le> HEAD_TERM_KEY_MAX)"

definition dict_entries :: "LeafTermEntry list list \<Rightarrow> rstr \<rightharpoonup> LeafTermEntry" where
  "dict_entries blocks key = List.find (\<lambda>e. LTE_Term e = key) (concat blocks)"

lemma leaf_search_bound:
  assumes "\<forall>i < n. leaf_entry b i = Some (es ! i)" and "length es = n" and "ascending (map LTE_Term es)"
    and "left \<le> right" and "right \<le> n"
    and "\<forall>i < left. LTE_Term (es ! i) < key" and "\<forall>i. right \<le> i \<and> i < n \<longrightarrow> \<not> LTE_Term (es ! i) < key"
  shows "\<exists>k \<le> n. leaf_search b key left right = Some k \<and> (\<forall>i < k. LTE_Term (es ! i) < key) \<and>
           (\<forall>i. k \<le> i \<and> i < n \<longrightarrow> \<not> LTE_Term (es ! i) < key)"
  using assms
proof (induction b key left right rule: leaf_search.induct)
  case (1 b key left right)
  show ?case
  proof (cases "left < right")
    case False
    then show ?thesis
      using "1.prems" by (intro exI [of _ left]) (simp add: leaf_search.simps)
  next
    case True
    define mid where "mid = left + (right - left) div 2"
    have mid: "left \<le> mid" "mid < right" using True by (auto simp: mid_def)
    have entry: "leaf_entry b mid = Some (es ! mid)" using mid "1.prems"(1,5) by simp
    have sorted: "LTE_Term (es ! i) < LTE_Term (es ! j)" if "i < j" "j < n" for i j
      using "1.prems"(2,3) that by (auto simp: sorted_wrt_iff_nth_less)
    show ?thesis
    proof (cases "LTE_Term (es ! mid) < key")
      case less: True
      have "\<forall>i < mid + 1. LTE_Term (es ! i) < key"
      proof (intro allI impI)
        fix i assume "i < mid + 1"
        then have "i = mid \<or> i < mid" by auto
        then show "LTE_Term (es ! i) < key"
          using less sorted [of i mid] mid "1.prems"(5) by auto
      qed
      moreover have "leaf_search b key left right = leaf_search b key (mid + 1) right"
        using True entry less by (subst leaf_search.simps) (simp add: Let_def mid_def)
      ultimately show ?thesis
        using "1.IH"(1) [OF True mid_def entry less "1.prems"(1-3)] mid "1.prems" by simp
    next
      case ge: False
      have "\<forall>i. mid \<le> i \<and> i < n \<longrightarrow> \<not> LTE_Term (es ! i) < key"
      proof (intro allI impI)
        fix i assume i: "mid \<le> i \<and> i < n"
        then have "LTE_Term (es ! mid) \<le> LTE_Term (es ! i)"
          using sorted [of mid i] by (cases "i = mid") auto
        with ge show "\<not> LTE_Term (es ! i) < key" by auto
      qed
      moreover have "leaf_search b key left right = leaf_search b key left mid"
        using True entry ge by (subst leaf_search.simps) (simp add: Let_def mid_def)
      ultimately show ?thesis
        using "1.IH"(2) [OF True mid_def entry ge "1.prems"(1-3)] mid "1.prems" by simp
    qed
  qed
qed

lemma find_in_leaf_exact:
  assumes holds: "leaf_holds page es" and asc: "ascending (map LTE_Term es)"
  shows "find_in_leaf (leaf_view page) key = map_option entry_location (List.find (\<lambda>e. LTE_Term e = key) es)"
proof -
  let ?b = "leaf_view page" and ?n = "length es"
  have cnt: "entry_count ?b = ?n" and ent: "\<forall>i < ?n. leaf_entry ?b i = Some (es ! i)"
    using holds by (auto simp: leaf_holds_def)
  obtain k where k: "k \<le> ?n" "leaf_search ?b key 0 ?n = Some k" "\<forall>i < k. LTE_Term (es ! i) < key"
    "\<forall>i. k \<le> i \<and> i < ?n \<longrightarrow> \<not> LTE_Term (es ! i) < key"
    using leaf_search_bound [OF ent refl asc, of 0 ?n key] by fastforce
  have below: "LTE_Term (es ! i) \<noteq> key" if "i < k" for i using k(3) that by auto
  show ?thesis
  proof (cases "k < ?n \<and> LTE_Term (es ! k) = key")
    case True
    then have "List.find (\<lambda>e. LTE_Term e = key) es = Some (es ! k)"
      using below by (auto simp: find_Some_iff intro!: exI [of _ k])
    then show ?thesis using True k(2) ent by (simp add: find_in_leaf_def cnt)
  next
    case False
    have "LTE_Term (es ! i) \<noteq> key" if i: "i < ?n" for i
    proof (cases "i \<le> k")
      case True
      then show ?thesis using below [of i] False i by (cases "i = k") auto
    next
      case False
      then have "LTE_Term (es ! k) < LTE_Term (es ! i)"
        using asc i by (auto simp: sorted_wrt_iff_nth_less)
      moreover have "\<not> LTE_Term (es ! k) < key" using k(4) False i by auto
      ultimately show ?thesis by auto
    qed
    then have "List.find (\<lambda>e. LTE_Term e = key) es = None"
      by (auto simp: find_None_iff in_set_conv_nth)
    then show ?thesis using False k ent by (auto simp: find_in_leaf_def cnt)
  qed
qed

lemma ascending_hd_le:
  "ascending (map f xs) \<Longrightarrow> e \<in> set xs \<Longrightarrow> f (hd xs) \<le> f e"
  by (cases xs) auto

lemma ascending_concat_nth:
  "ascending (map f (concat xss)) \<Longrightarrow> j < length xss \<Longrightarrow> ascending (map f (xss ! j))"
  by (induction xss arbitrary: j) (auto simp: sorted_wrt_append nth_Cons split: nat.splits)

lemma find_append:
  "List.find P (xs @ ys) = (case List.find P xs of None \<Rightarrow> List.find P ys | Some x \<Rightarrow> Some x)"
  by (induction xs) auto

lemma find_None_all: "(\<And>x. x \<in> set xs \<Longrightarrow> \<not> P x) \<Longrightarrow> List.find P xs = None"
  by (auto simp: find_None_iff)

lemma dict_find_block:
  assumes ok: "dict_ok heads blocks"
    and pos: "pos = length (takeWhile (\<lambda>e. first_term e \<le> key) heads)"
  shows "dict_entries blocks key =
           (if pos = 0 then None else List.find (\<lambda>e. LTE_Term e = key) (blocks ! (pos - 1)))"
proof -
  have asc: "ascending (map LTE_Term (concat blocks))" and len: "length heads = length blocks"
    and at: "\<And>i. i < length blocks \<Longrightarrow> blocks ! i \<noteq> [] \<and> first_term (heads ! i) = LTE_Term (hd (blocks ! i))"
    using ok by (auto simp: dict_ok_def)
  have le: "pos \<le> length blocks" by (simp add: pos flip: len) (rule length_takeWhile_le)
  have above: "List.find (\<lambda>e. LTE_Term e = key) (concat (drop pos blocks)) = None"
  proof (rule find_None_all)
    fix e assume e: "e \<in> set (concat (drop pos blocks))"
    then have p: "pos < length blocks" by (cases "pos < length blocks") auto
    then have "\<not> first_term (heads ! pos) \<le> key"
      using nth_length_takeWhile [of "\<lambda>e. first_term e \<le> key" heads] by (simp add: pos len)
    moreover have "ascending (map LTE_Term (concat (drop pos blocks)))"
      using asc by (subst (asm) append_take_drop_id [of pos blocks, symmetric])
        (simp only: concat_append map_append sorted_wrt_append)
    then have "LTE_Term (hd (concat (drop pos blocks))) \<le> LTE_Term e"
      using e by (rule ascending_hd_le)
    moreover have "hd (concat (drop pos blocks)) = hd (blocks ! pos)"
      using p at [OF p] by (simp flip: Cons_nth_drop_Suc)
    ultimately show "LTE_Term e \<noteq> key" using at [OF p] by auto
  qed
  show ?thesis
  proof (cases "pos = 0")
    case True
    then show ?thesis using above by (simp add: dict_entries_def)
  next
    case False
    define j where "j = pos - 1"
    have j: "pos = Suc j" "j < length blocks" using False le by (auto simp: j_def)
    have split: "blocks = take j blocks @ blocks ! j # drop pos blocks"
      using j by (simp add: id_take_nth_drop)
    have "first_term (heads ! j) \<le> key"
      using j(1) pos by (metis lessI nth_mem set_takeWhileD takeWhile_nth)
    moreover have "LTE_Term e < LTE_Term (hd (blocks ! j))" if "e \<in> set (concat (take j blocks))" for e
      using asc at [OF j(2)] that by (subst (asm) split) (auto simp: sorted_wrt_append)
    ultimately have "List.find (\<lambda>e. LTE_Term e = key) (concat (take j blocks)) = None"
      using at [OF j(2)] by (intro find_None_all) force
    then show ?thesis
      unfolding dict_entries_def
      by (subst split) (auto simp: find_append above [unfolded j(1)] j(1) split: option.splits)
  qed
qed

lemma FindTermDataHeadLeaf_dict:
  assumes ok: "dict_ok (m_HeadTermEntries t) blocks" and cnt: "unat (m_HeadTermEntryCount t) = length blocks"
    and pages: "\<And>i. i < length blocks \<Longrightarrow> \<exists>page. fetch (word_of_nat i) = Some page \<and> leaf_holds page (blocks ! i)"
  shows "FindTermDataHeadLeaf fetch t key = map_option entry_location (dict_entries blocks key)"
proof (cases "length key > HEAD_TERM_KEY_MAX")
  case True
  have "length (LTE_Term e) \<le> HEAD_TERM_KEY_MAX" if "e \<in> set (concat blocks)" for e
    using ok that unfolding dict_ok_def by blast
  with True have "dict_entries blocks key = None"
    unfolding dict_entries_def by (intro find_None_all) (metis leD)
  then show ?thesis using True by (simp add: FindTermDataHeadLeaf_def)
next
  case False
  let ?heads = "m_HeadTermEntries t"
  define pos where "pos = length (takeWhile (\<lambda>e. first_term e \<le> key) ?heads)"
  have len: "length ?heads = length blocks" using ok by (simp add: dict_ok_def)
  have le: "pos \<le> length blocks" unfolding pos_def len [symmetric] by (rule length_takeWhile_le)
  note find = dict_find_block [OF ok pos_def]
  show ?thesis
  proof (cases "pos = 0")
    case True
    then show ?thesis using False cnt len find
      by (simp add: FindTermDataHeadLeaf_def Let_def pos_def)
  next
    case pos: False
    define j where "j = pos - 1"
    have j: "j < length blocks" using pos le by (auto simp: j_def)
    from pages [OF j] obtain page where page: "fetch (word_of_nat j) = Some page" "leaf_holds page (blocks ! j)"
      by auto
    have asc: "ascending (map LTE_Term (blocks ! j))"
      using ok j ascending_concat_nth unfolding dict_ok_def by blast
    have "HTE_LeafTermBlockID (?heads ! j) = word_of_nat j" using ok j by (simp add: dict_ok_def)
    moreover have "m_HeadTermEntryCount t \<noteq> 0" "takeWhile (\<lambda>e. first_term e \<le> key) ?heads \<noteq> []"
      using cnt j pos by (auto simp: pos_def)
    ultimately show ?thesis
      using False cnt len find pos page find_in_leaf_exact [OF page(2) asc]
      by (simp add: FindTermDataHeadLeaf_def Let_def pos_def [symmetric] j_def)
  qed
qed

context block_source
begin

lemma FindTermDataHeadLeaf_source:
  assumes "invar s" and "dict_ok (m_HeadTermEntries t) blocks"
    and "unat (m_HeadTermEntryCount t) = length blocks" and "unat (count s) = length blocks"
    and "\<forall>i < length blocks. leaf_holds (page s (word_of_nat i)) (blocks ! i)"
  shows "FindTermDataHeadLeaf (fetch s) t key = map_option entry_location (dict_entries blocks key)"
proof (rule FindTermDataHeadLeaf_dict [OF assms(2,3)])
  fix i assume i: "i < length blocks"
  then have "(word_of_nat i :: u32) < count s"
    using assms(2,4) by (simp add: word_less_nat_alt dict_ok_def unat32_of_nat)
  then show "\<exists>p. fetch s (word_of_nat i) = Some p \<and> leaf_holds p (blocks ! i)"
    using fetch_page [OF assms(1)] assms(5) i by blast
qed

end

lemma FindTermData_plain:
  assumes "\<not> HasTermMphf t" and "0 \<notin> set key"
  shows "FindTermData fetch t key = FindTermDataHeadLeaf fetch t key"
proof -
  have key: "takeWhile (\<lambda>b. b \<noteq> 0) key = key"
    using assms(2) by (induction key) auto
  show ?thesis
    using assms(1) unfolding FindTermData_def Let_def key by (simp add: BloomFilter_CanTermExist_def)
qed

text \<open>
  C7. Looking a term up through the head entries and the block cache over a file is exact: on a
  consistent pool whose leaf pages hold an ascending dictionary, \<open>FindTermData\<close> returns the
  location stored for the term if the dictionary has it, and nothing otherwise, whichever page
  the binary searches have to visit.
\<close>

theorem FindTermData_file_exact:
  assumes "source_file_ok f" and "\<not> HasTermMphf t" and "0 \<notin> set key"
    and "dict_ok (m_HeadTermEntries t) blocks" and "unat (m_HeadTermEntryCount t) = length blocks"
    and "unat (BCP_TotalBlockCount (fst (snd f))) = length blocks"
    and "\<forall>i < length blocks. leaf_holds (disk_of f (word_of_nat i)) (blocks ! i)"
  shows "FindTermData (fetch_block (Some (fst f)) (snd f)) t key =
           map_option entry_location (dict_entries blocks key)"
  using pool_file.FindTermDataHeadLeaf_source [of f t blocks key] assms
  by (simp add: FindTermData_plain case_prod_beta)

end
