(* ===== verification/UnifiedDecoder.thy ===== *)
theory UnifiedDecoder
  imports PostingStore
begin

text \<open>
  \<open>IndexAccess/UnifiedDecoder.rs\<close>: the stateful variable-byte decoder over the bytes of one
  index block. The block handle is represented by the bytes of its page. The theory proves that
  the decoder inverts the encoder of \<open>PostingStore\<close>, entry by entry, and that malformed input
  ends the stream.
\<close>

record UnifiedDecoder =
  m_Block :: "bytes option"
  m_CurrentPtr :: nat
  m_BlockEnd :: nat
  m_CurrentDoc :: u64
  m_CurrentTf8 :: u8
  m_HasCurrent :: bool

definition UnifiedDecoder_new :: UnifiedDecoder where
  "UnifiedDecoder_new = \<lparr>m_Block = None, m_CurrentPtr = 0, m_BlockEnd = 0, m_CurrentDoc = 0,
     m_CurrentTf8 = 0, m_HasCurrent = False\<rparr>"

text \<open>
  \<open>offset.checked_add(len).filter(|end| *end <= block.IB_Data.len()).unwrap_or(0)\<close>: a range
  that leaves the page (an overflowing sum leaves it too) opens as an empty one.
\<close>

definition OpenRaw :: "bytes \<Rightarrow> nat \<Rightarrow> nat \<Rightarrow> UnifiedDecoder \<Rightarrow> UnifiedDecoder" where
  "OpenRaw block offset len d =
     (let stop = (if offset + len \<le> length block then offset + len else 0)
      in d\<lparr>m_Block := Some block, m_CurrentPtr := min offset stop, m_BlockEnd := stop,
           m_CurrentDoc := 0, m_CurrentTf8 := 0, m_HasCurrent := False\<rparr>)"

definition HasMoreBytes :: "UnifiedDecoder \<Rightarrow> bool" where
  "HasMoreBytes d \<longleftrightarrow> m_CurrentPtr d < m_BlockEnd d"

text \<open>
  The loop of \<open>DecodeNext\<close>: \<open>byte\<close> is the byte read last, \<open>docID\<close> and \<open>shift\<close> are the loop
  variables; the result is the cursor after the loop and the id, \<open>None\<close> on malformed input.
\<close>

function decode_loop :: "bytes \<Rightarrow> nat \<Rightarrow> nat \<Rightarrow> u8 \<Rightarrow> u64 \<Rightarrow> nat \<Rightarrow> nat \<times> u64 option" where
  "decode_loop block stop ptr byte docID shift =
     (if byte AND 0x80 \<noteq> 0 then
        if ptr \<ge> stop \<or> shift \<ge> 64 then (ptr, None)
        else
          (let byte' = block ! ptr
           in if shift = 63 \<and> byte' AND 0x7e \<noteq> 0 then (ptr + 1, None)
              else decode_loop block stop (ptr + 1) byte'
                     (docID OR push_bit shift (ucast (byte' AND 0x7f))) (shift + 7))
      else (ptr, Some docID))"
  by pat_completeness auto
termination
  by (relation "measure (\<lambda>(block, stop, ptr, byte, docID, shift). stop - ptr)") auto

declare decode_loop.simps [simp del]

definition DecodeNext :: "UnifiedDecoder \<Rightarrow> UnifiedDecoder" where
  "DecodeNext d =
     (if \<not> HasMoreBytes d then d\<lparr>m_HasCurrent := False\<rparr>
      else case m_Block d of
        None \<Rightarrow> d\<lparr>m_HasCurrent := False\<rparr>
      | Some block \<Rightarrow>
          (let byte = block ! m_CurrentPtr d in
           case decode_loop block (m_BlockEnd d) (m_CurrentPtr d + 1) byte (ucast (byte AND 0x7f)) 7 of
             (ptr, None) \<Rightarrow> d\<lparr>m_CurrentPtr := ptr, m_HasCurrent := False\<rparr>
           | (ptr, Some docID) \<Rightarrow>
               if ptr \<ge> m_BlockEnd d then
                 d\<lparr>m_CurrentPtr := ptr, m_CurrentDoc := docID, m_HasCurrent := False\<rparr>
               else
                 d\<lparr>m_CurrentPtr := ptr + 1, m_CurrentDoc := docID, m_CurrentTf8 := block ! ptr,
                   m_HasCurrent := True\<rparr>))"

definition dec_GoNext :: "UnifiedDecoder \<Rightarrow> UnifiedDecoder" where
  "dec_GoNext d = DecodeNext d"

lemma decode_loop_ptr: "decode_loop block stop ptr byte docID shift = (p, r) \<Longrightarrow> ptr \<le> p"
  by (induction block stop ptr byte docID shift rule: decode_loop.induct)
    (subst (asm) (2) decode_loop.simps, auto simp: Let_def split: if_splits)

lemma DecodeNext_m_BlockEnd [simp]: "m_BlockEnd (DecodeNext d) = m_BlockEnd d"
  by (simp add: DecodeNext_def Let_def split: option.splits prod.splits)

lemma DecodeNext_m_Block [simp]: "m_Block (DecodeNext d) = m_Block d"
  by (simp add: DecodeNext_def Let_def split: option.splits prod.splits)

lemma DecodeNext_progress:
  "m_HasCurrent (DecodeNext d) \<Longrightarrow>
     m_CurrentPtr d < m_CurrentPtr (DecodeNext d) \<and> m_CurrentPtr (DecodeNext d) \<le> m_BlockEnd d"
  by (auto simp: DecodeNext_def Let_def HasMoreBytes_def split: option.splits prod.splits if_splits
      dest: decode_loop_ptr)

text \<open>The loop of \<open>GoUntil\<close>; it ends because every entry it reads moves the cursor.\<close>

function until_loop :: "u64 \<Rightarrow> UnifiedDecoder \<Rightarrow> UnifiedDecoder" where
  "until_loop target d =
     (let d' = DecodeNext d
      in if \<not> m_HasCurrent d' \<or> m_CurrentDoc d' \<ge> target then d' else until_loop target d')"
  by pat_completeness auto
termination
proof (relation "measure (\<lambda>(t, d). m_BlockEnd d - m_CurrentPtr d)", goal_cases)
  case 1
  then show ?case by simp
next
  case (2 target d x)
  then have "m_HasCurrent (DecodeNext d)" by simp
  from DecodeNext_progress [OF this] 2 show ?case by auto
qed

declare until_loop.simps [simp del]

definition dec_GoUntil :: "u64 \<Rightarrow> UnifiedDecoder \<Rightarrow> UnifiedDecoder" where
  "dec_GoUntil target d =
     (if m_HasCurrent d \<and> m_CurrentDoc d \<ge> target then d else until_loop target d)"

definition dec_IsEnd :: "UnifiedDecoder \<Rightarrow> bool" where
  "dec_IsEnd d \<longleftrightarrow> \<not> m_HasCurrent d"

definition dec_TakeBlock :: "UnifiedDecoder \<Rightarrow> UnifiedDecoder" where
  "dec_TakeBlock d = d\<lparr>m_Block := None\<rparr>"

definition dec_Close :: "UnifiedDecoder \<Rightarrow> UnifiedDecoder" where
  "dec_Close d = d\<lparr>m_Block := None, m_CurrentPtr := 0, m_BlockEnd := 0, m_HasCurrent := False\<rparr>"

subsection \<open>Seven bits at a time\<close>

lemma mask7: "(0x7F :: 'a::len word) = mask 7"
  by (simp add: mask_eq_exp_minus_1)

lemma bit_0x80: "bit (0x80 :: int) n \<longleftrightarrow> n = 7"
  using bit_exp_iff [of 7 n, where 'a = int] by (simp add: possible_bit_def)

lemma take_bit_small: "unat (v :: 'a::len word) < 2 ^ n \<Longrightarrow> take_bit n v = v"
  by (simp add: word_unat_eq_iff unsigned_take_bit_eq take_bit_nat_eq_self)

lemma take_bit_7: "v < 0x80 \<Longrightarrow> take_bit 7 v = (v :: u64)"
  by (rule take_bit_small) (simp add: word_less_nat_alt)

lemma vb_last_byte:
  assumes "v < 0x80"
  shows "(ucast v :: u8) AND 0x80 = 0" and "ucast (ucast v AND 0x7f :: u8) = (v :: u64)"
proof -
  have hi: "\<not> bit v n" if "7 \<le> n" for n
    using take_bit_7 [OF assms] by (metis bit_take_bit_iff not_le that)
  then have lo: "n < 7" if "bit v n" for n
    using that not_le by blast
  show "(ucast v :: u8) AND 0x80 = 0"
    using hi [of 7] by (intro bit_eqI) (auto simp: bit_simps bit_0x80)
  show "ucast (ucast v AND 0x7f :: u8) = v"
    unfolding mask7 by (intro bit_eqI) (auto simp: bit_simps dest: lo)
qed

lemma vb_more_byte:
  "(ucast ((v AND 0x7F) OR 0x80) :: u8) AND 0x80 \<noteq> 0"
  "ucast (ucast (((v :: u64) AND 0x7F) OR 0x80) AND 0x7f :: u8) = v AND 0x7F"
proof -
  have "bit ((ucast ((v AND 0x7F) OR 0x80) :: u8) AND 0x80) 7"
    by (simp add: bit_simps)
  then show "(ucast ((v AND 0x7F) OR 0x80) :: u8) AND 0x80 \<noteq> 0"
    by force
  show "ucast (ucast (((v :: u64) AND 0x7F) OR 0x80) AND 0x7f :: u8) = v AND 0x7F"
    unfolding mask7 by (intro bit_eqI) (auto simp: bit_simps bit_0x80)
qed

lemma push_split:
  "push_bit s (v AND 0x7F) OR push_bit (s + 7) (drop_bit 7 v) = push_bit s (v :: u64)"
proof (rule bit_eqI)
  fix n
  have "7 + (n - (s + 7)) = n - s" if "s + 7 \<le> n"
    using that by simp
  then show "bit (push_bit s (v AND 0x7F) OR push_bit (s + 7) (drop_bit 7 v)) n \<longleftrightarrow> bit (push_bit s v) n"
    unfolding mask7 by (cases "s + 7 \<le> n") (auto simp: bit_simps)
qed

lemma vb_write_nonempty [simp]: "vb_write v \<noteq> []"
  by (subst vb_write.simps) simp

lemma vb_write_top:
  assumes "unat v < 2"
  shows "hd (vb_write v) AND 0x7e = 0"
proof -
  have "unat v = 0 \<or> unat v = 1" using assms by linarith
  then have "v = 0 \<or> v = 1"
    by (metis unat_0 unat_1 word_unat_eq_iff)
  moreover have "vb_write 0 = [0]" and "vb_write 1 = [1]"
    by (simp_all add: vb_write.simps [of 0] vb_write.simps [of 1])
  ultimately show ?thesis by auto
qed

lemma hd_vb_write_low:
  "ucast (hd (vb_write v) AND 0x7f) = (v AND 0x7F :: u64)"
proof (cases "v < 0x80")
  case True
  moreover have "v AND 0x7F = v"
    using take_bit_7 [OF True] by (simp add: mask7 take_bit_eq_mask)
  ultimately show ?thesis
    using vb_last_byte [OF True] by (simp add: vb_write.simps [of v])
next
  case False
  then show ?thesis
    using vb_more_byte(2) [of v] by (simp add: vb_write.simps [of v])
qed

text \<open>The loop reads back what \<open>vb_write\<close> wrote: \<open>s\<close> bits are already in \<open>base\<close>.\<close>

lemma decode_loop_vb_write:
  assumes "take (length (vb_write v) - 1) (drop ptr block) = tl (vb_write v)"
    and "ptr + (length (vb_write v) - 1) \<le> stop" and "stop \<le> length block"
    and "unat v * 2 ^ s < 2 ^ 64"
  shows "decode_loop block stop ptr (hd (vb_write v)) (base OR push_bit s (v AND 0x7F)) (s + 7) =
     (ptr + (length (vb_write v) - 1), Some (base OR push_bit s v))"
  using assms
proof (induction v arbitrary: ptr s base rule: vb_write.induct)
  case (1 v)
  show ?case
  proof (cases "v < 0x80")
    case True
    then show ?thesis
      using vb_last_byte(1) [OF True] take_bit_7 [OF True]
      by (simp add: vb_write.simps [of v] decode_loop.simps mask7 take_bit_eq_mask)
  next
    case False
    define v' where "v' = drop_bit 7 v"
    have vb: "vb_write v = ucast ((v AND 0x7F) OR 0x80) # vb_write v'"
      using False by (subst vb_write.simps) (simp add: v'_def)
    have big: "2 ^ 7 \<le> unat v" using False by (simp add: word_le_nat_alt not_less)
    have v': "unat v' = unat v div 2 ^ 7"
      by (simp add: v'_def drop_bit_eq_div unat_div_distrib)
    have room: "unat v' * 2 ^ (s + 7) < 2 ^ 64"
    proof -
      have "unat v' * 2 ^ (s + 7) \<le> unat v * 2 ^ s"
        by (simp add: v' power_add mult.assoc [symmetric] mult_right_mono)
      with "1.prems"(4) show ?thesis by linarith
    qed
    have s: "s + 7 < 64"
    proof -
      have "(2::nat) ^ (s + 7) \<le> unat v * 2 ^ s"
        using mult_right_mono [OF big, of "2 ^ s"] by (simp add: power_add mult.commute)
      with "1.prems"(4) have "(2::nat) ^ (s + 7) < 2 ^ 64" by linarith
      then show ?thesis by (rule power_less_imp_less_exp [rotated]) simp
    qed
    obtain b bs where b: "vb_write v' = b # bs"
      by (cases "vb_write v'") auto
    have "take (Suc (length bs)) (drop ptr block) = b # bs"
      using "1.prems"(1) by (simp add: vb b)
    note at = take_Suc_drop_Cons [OF this]
    have bound: "ptr + Suc (length bs) \<le> stop"
      using "1.prems"(2) by (simp add: vb b)
    have top: "b AND 0x7e = 0" if "s + 7 = 63"
    proof -
      have "unat v' < 2" using room that by simp
      from vb_write_top [OF this] show ?thesis by (simp add: b)
    qed
    have low: "ucast (b AND 0x7f) = (v' AND 0x7F :: u64)"
      using hd_vb_write_low [of v'] by (simp add: b)
    have IH: "decode_loop block stop (ptr + 1) b
        ((base OR push_bit s (v AND 0x7F)) OR push_bit (s + 7) (v' AND 0x7F)) (s + 7 + 7) =
        (ptr + 1 + length bs, Some ((base OR push_bit s (v AND 0x7F)) OR push_bit (s + 7) v'))"
      using "1.IH" [OF False, of "ptr + 1" "s + 7" "base OR push_bit s (v AND 0x7F)"] at(3) bound
        "1.prems"(3) room
      by (simp add: v'_def [symmetric] b)
    have "decode_loop block stop ptr (hd (vb_write v)) (base OR push_bit s (v AND 0x7F)) (s + 7) =
        decode_loop block stop (ptr + 1) b
          ((base OR push_bit s (v AND 0x7F)) OR push_bit (s + 7) (v' AND 0x7F)) (s + 7 + 7)"
      using s bound top vb_more_byte(1) [of v]
      by (subst decode_loop.simps) (auto simp: vb at(2) low Let_def)
    then show ?thesis
      unfolding IH using push_split [of s v] b by (simp add: vb v'_def or.assoc)
  qed
qed

subsection \<open>The decoder inverts the encoder\<close>

text \<open>The byte form of one decoded pair, and a decoder that stands before a list of pairs.\<close>

definition pair_bytes :: "u64 \<times> u8 \<Rightarrow> bytes" where
  "pair_bytes = (\<lambda>(doc, tf). vb_write doc @ [tf])"

abbreviation pairs_bytes :: "(u64 \<times> u8) list \<Rightarrow> bytes" where
  "pairs_bytes ps \<equiv> concat (map pair_bytes ps)"

definition stands_before :: "UnifiedDecoder \<Rightarrow> (u64 \<times> u8) list \<Rightarrow> bool" where
  "stands_before d ps \<longleftrightarrow>
     (\<exists>block. m_Block d = Some block \<and> m_CurrentPtr d \<le> m_BlockEnd d \<and> m_BlockEnd d \<le> length block \<and>
        subslice (m_CurrentPtr d) (m_BlockEnd d) block = pairs_bytes ps)"

lemma stands_before_OpenRaw:
  assumes "offset + len \<le> length block" and "subslice offset (offset + len) block = pairs_bytes ps"
  shows "stands_before (OpenRaw block offset len d) ps"
  using assms by (simp add: stands_before_def OpenRaw_def Let_def)

lemma DecodeNext_end: "stands_before d [] \<Longrightarrow> \<not> m_HasCurrent (DecodeNext d)"
  by (auto simp: stands_before_def DecodeNext_def HasMoreBytes_def subslice_def)

lemma DecodeNext_pair:
  assumes "stands_before d ((doc, tf) # ps)"
  shows "m_HasCurrent (DecodeNext d)" and "m_CurrentDoc (DecodeNext d) = doc"
    and "m_CurrentTf8 (DecodeNext d) = tf" and "stands_before (DecodeNext d) ps"
proof -
  define p where "p = m_CurrentPtr d"
  define e where "e = m_BlockEnd d"
  define n where "n = length (vb_write doc)"
  obtain block where blk: "m_Block d = Some block" and e: "p \<le> e" "e \<le> length block"
    and bytes: "take (e - p) (drop p block) = vb_write doc @ tf # pairs_bytes ps"
    using assms by (auto simp: stands_before_def pair_bytes_def subslice_def p_def e_def)
  have len: "e - p = n + Suc (length (pairs_bytes ps))"
    using arg_cong [OF bytes, of length] e by (simp add: n_def)
  obtain b bs where b: "vb_write doc = b # bs" and n: "n = Suc (length bs)"
    by (cases "vb_write doc") (auto simp: n_def)
  have drop: "drop p block = (vb_write doc @ tf # pairs_bytes ps) @ drop (e - p) (drop p block)"
    unfolding bytes [symmetric] by (rule append_take_drop_id [symmetric])
  have at: "block ! (p + i) = (vb_write doc @ tf # pairs_bytes ps) ! i" if "i < e - p" for i
    using arg_cong [OF bytes, of "\<lambda>xs. xs ! i"] that e by simp
  have hd: "block ! p = b" using at [of 0] len by (simp add: b)
  have tfat: "block ! (p + n) = tf" using at [of n] len by (simp add: n_def nth_append)
  have tl: "take (n - 1) (drop (p + 1) block) = bs"
    using arg_cong [OF drop, of "\<lambda>xs. take (n - 1) (drop 1 xs)"] by (simp add: b n add.commute)
  have loop: "decode_loop block e (p + 1) b (ucast (b AND 0x7f)) 7 = (p + n, Some doc)"
  proof -
    have "decode_loop block e (p + 1) (hd (vb_write doc)) (0 OR push_bit 0 (doc AND 0x7F)) (0 + 7) =
        (p + 1 + (length (vb_write doc) - 1), Some (0 OR push_bit 0 doc))"
    proof (rule decode_loop_vb_write)
      show "take (length (vb_write doc) - 1) (drop (p + 1) block) = tl (vb_write doc)"
        using tl by (simp add: n_def [symmetric]) (simp add: b)
      show "p + 1 + (length (vb_write doc) - 1) \<le> e"
        using len e by (simp add: n_def [symmetric] n)
      show "e \<le> length block" by (rule e)
      show "unat doc * 2 ^ 0 < 2 ^ 64" using unat_bound [of doc] by simp
    qed
    then show ?thesis
      using hd_vb_write_low [of doc] by (simp add: b n)
  qed
  have dec: "DecodeNext d = d\<lparr>m_CurrentPtr := p + n + 1, m_CurrentDoc := doc, m_CurrentTf8 := tf,
      m_HasCurrent := True\<rparr>"
    using len e by (simp add: DecodeNext_def HasMoreBytes_def blk Let_def p_def [symmetric]
        e_def [symmetric] hd loop [simplified] tfat)
  then show "m_HasCurrent (DecodeNext d)" and "m_CurrentDoc (DecodeNext d) = doc"
    and "m_CurrentTf8 (DecodeNext d) = tf" by simp_all
  have "e - (p + n + 1) = length (pairs_bytes ps)"
    using len by simp
  then have "subslice (p + n + 1) e block = pairs_bytes ps"
    using arg_cong [OF bytes, of "drop (n + 1)"] len
    by (simp add: subslice_def drop_take n_def add.commute)
  then show "stands_before (DecodeNext d) ps"
    using len e by (simp add: dec stands_before_def blk e_def [symmetric])
qed

text \<open>
  Reading the rest of the stream: all pairs \<open>GoNext\<close> yields until the decoder is at its end.
\<close>

function drain :: "UnifiedDecoder \<Rightarrow> (u64 \<times> u8) list" where
  "drain d = (let d' = DecodeNext d
     in if m_HasCurrent d' then (m_CurrentDoc d', m_CurrentTf8 d') # drain d' else [])"
  by pat_completeness auto
termination
proof (relation "measure (\<lambda>d. m_BlockEnd d - m_CurrentPtr d)", goal_cases)
  case 1
  then show ?case by simp
next
  case (2 d x)
  then have "m_HasCurrent (DecodeNext d)" by simp
  from DecodeNext_progress [OF this] 2 show ?case by auto
qed

declare drain.simps [simp del]

lemma drain_stands_before: "stands_before d ps \<Longrightarrow> drain d = ps"
proof (induction ps arbitrary: d)
  case Nil
  then show ?case by (subst drain.simps) (simp add: DecodeNext_end)
next
  case (Cons p ps)
  obtain doc tf where p: "p = (doc, tf)" by (cases p)
  from DecodeNext_pair [OF Cons.prems [unfolded p]] Cons.IH show ?case
    by (subst drain.simps) (simp add: p)
qed

lemma until_loop_stands_before:
  assumes "stands_before d ps"
  shows "case dropWhile (\<lambda>p. fst p < target) ps of
      [] \<Rightarrow> \<not> m_HasCurrent (until_loop target d)
    | p # qs \<Rightarrow> m_HasCurrent (until_loop target d) \<and> m_CurrentDoc (until_loop target d) = fst p \<and>
        m_CurrentTf8 (until_loop target d) = snd p \<and> stands_before (until_loop target d) qs"
  using assms
proof (induction ps arbitrary: d)
  case Nil
  then show ?case by (subst until_loop.simps) (simp add: DecodeNext_end)
next
  case (Cons p ps)
  obtain doc tf where p: "p = (doc, tf)" by (cases p)
  note nx = DecodeNext_pair [OF Cons.prems [unfolded p]]
  show ?case
  proof (cases "doc < target")
    case True
    then have "until_loop target d = until_loop target (DecodeNext d)"
      using nx by (subst until_loop.simps) (simp add: Let_def not_le)
    with Cons.IH [OF nx(4)] True show ?thesis by (simp only: p) (simp split: list.splits)
  next
    case False
    then have "until_loop target d = DecodeNext d"
      using nx by (subst until_loop.simps) (simp add: Let_def not_less)
    with False nx show ?thesis by (simp add: p)
  qed
qed

definition posting_pairs :: "(nat \<Rightarrow> rat) \<Rightarrow> IndexEntry list \<Rightarrow> (u64 \<times> u8) list" where
  "posting_pairs log2_f64 es = map (\<lambda>e. (ie_doc_id e, tf8_encode log2_f64 (ie_term_frequency e))) es"

lemma encode_pairs: "encode log2_f64 pl = pairs_bytes (posting_pairs log2_f64 (entries pl))"
  by (simp add: encode_def encode_entry_def [abs_def] posting_pairs_def pair_bytes_def o_def)

text \<open>
  C3. Opening the decoder on a page that holds the encoded bytes of a posting list at some
  offset and reading to the end yields exactly the list's document ids, in order, each with its
  one-byte term frequency.
\<close>

theorem decode_encode_roundtrip:
  assumes "subslice offset (offset + len) block = get_bytes log2_f64 pl"
    and "offset + len \<le> length block"
  shows "drain (OpenRaw block offset len d) = posting_pairs log2_f64 (entries pl)"
  using assms
  by (intro drain_stands_before stands_before_OpenRaw) (simp_all add: get_bytes_def encode_pairs)

theorem decode_encode_roundtrip_witness:
  "drain (OpenRaw (0 # get_bytes (\<lambda>n. of_nat n) \<lparr>entries = [\<lparr>ie_doc_id = 300, ie_term_frequency = 2\<rparr>]\<rparr>)
      1 3 UnifiedDecoder_new) = [(300, 48)]"
proof -
  let ?pl = "\<lparr>entries = [\<lparr>ie_doc_id = 300, ie_term_frequency = 2\<rparr>]\<rparr>"
  have vb: "vb_write 300 = [172, 2]"
    by (simp add: vb_write.simps [of 300] vb_write.simps [of 2])
  have "\<lfloor>97 / 2 :: rat\<rfloor> = 48" by (simp add: floor_eq_iff)
  then have tf: "tf8_encode (\<lambda>n. of_nat n) 2 = 48"
    by (simp add: tf8_encode_def round_half_away_def)
  have bytes: "get_bytes (\<lambda>n. of_nat n) ?pl = [172, 2, 48]"
    by (simp add: get_bytes_def encode_def encode_entry_def vb tf)
  have "drain (OpenRaw (0 # get_bytes (\<lambda>n. of_nat n) ?pl) 1 3 UnifiedDecoder_new) =
      posting_pairs (\<lambda>n. of_nat n) (entries ?pl)"
    by (rule decode_encode_roundtrip) (simp_all add: bytes subslice_def)
  then show ?thesis
    by (simp add: posting_pairs_def tf)
qed

end
