(* ===== verification/BlockBuilder.thy ===== *)
theory BlockBuilder
  imports TermLookup UnifiedDecoder
begin

text \<open>
  \<open>IndexSerializer::BuildBlocks\<close> of \<open>IndexAccess/IndexSerializer.rs\<close> with its helpers
  (\<open>ReadVbcPairEnd\<close>, \<open>PostingPrefixBytes\<close>, \<open>VbRead\<close>, \<open>MaxDocIDInPairs\<close>): posting lists are laid out
  over 4096-byte index pages, splitting only between (document, frequency) pairs, with a header
  on every continuation page; the dictionary goes into leaf pages with one head entry each.

  The closures' shared locals are two records, \<open>index_build\<close> for the index pages and \<open>leaf_build\<close>
  for the dictionary. \<open>None\<close> stands for the panic of \<open>HeadTermEntry::new\<close> on a long key.
\<close>

subsection \<open>Scanning pairs\<close>

function vb_skip :: "bytes \<Rightarrow> nat \<Rightarrow> nat option" where
  "vb_skip data offset =
     (if offset < length data then
        if data ! offset AND 0x80 = 0 then Some (offset + 1) else vb_skip data (offset + 1)
      else None)"
  by pat_completeness auto
termination
  by (relation "measure (\<lambda>(data, offset). length data - offset)") auto

declare vb_skip.simps [simp del]

definition ReadVbcPairEnd :: "bytes \<Rightarrow> nat \<Rightarrow> nat option" where
  "ReadVbcPairEnd data offset =
     (case vb_skip data offset of
        None \<Rightarrow> None
      | Some p \<Rightarrow> if p \<ge> length data then None else Some (p + 1))"

lemma vb_skip_greater: "vb_skip data offset = Some p \<Longrightarrow> offset < p"
  by (induction data offset rule: vb_skip.induct)
    (subst (asm) (2) vb_skip.simps, auto split: if_splits)

lemma ReadVbcPairEnd_greater: "ReadVbcPairEnd data offset = Some p \<Longrightarrow> offset < p"
  by (auto simp: ReadVbcPairEnd_def dest: vb_skip_greater split: option.splits if_splits)

function prefix_loop :: "bytes \<Rightarrow> nat \<Rightarrow> nat \<Rightarrow> nat" where
  "prefix_loop data limit cursor =
     (if cursor < limit then
        case ReadVbcPairEnd data cursor of
          None \<Rightarrow> cursor
        | Some c \<Rightarrow> if c > limit then cursor else prefix_loop data limit c
      else cursor)"
  by pat_completeness auto
termination
  by (relation "measure (\<lambda>(data, limit, cursor). limit - cursor)")
    (auto dest: ReadVbcPairEnd_greater)

declare prefix_loop.simps [simp del]

text \<open>At the top of the loop \<open>last_pair_end\<close> equals \<open>cursor\<close>, so one variable carries both.\<close>

definition PostingPrefixBytes :: "bytes \<Rightarrow> nat \<Rightarrow> nat" where
  "PostingPrefixBytes data capacity = prefix_loop data (min (length data) capacity) 0"

text \<open>
  \<open>VbRead\<close>: \<open>shift\<close> is a \<open>u8\<close> that wraps, and a shift of a \<open>u64\<close> uses its low six bits.
\<close>

function vb_read_loop :: "bytes \<Rightarrow> nat \<Rightarrow> u64 \<Rightarrow> nat \<Rightarrow> u64 \<times> nat" where
  "vb_read_loop data pos val shift =
     (if pos \<ge> length data then (val, pos)
      else
        let byte = data ! pos; val' = val OR push_bit (shift mod 64) (ucast (byte AND 0x7F))
        in if byte AND 0x80 = 0 then (val', pos + 1)
           else vb_read_loop data (pos + 1) val' ((shift + 7) mod 256))"
  by pat_completeness auto
termination
  by (relation "measure (\<lambda>(data, pos, val, shift). length data - pos)") auto

declare vb_read_loop.simps [simp del]

definition VbRead :: "bytes \<Rightarrow> nat \<Rightarrow> u64 \<times> nat" where
  "VbRead data start = (case vb_read_loop data start 0 0 of (val, pos) \<Rightarrow> (val, pos - start))"

function max_loop :: "bytes \<Rightarrow> nat \<Rightarrow> u64 \<Rightarrow> u64" where
  "max_loop data cursor max_doc_id =
     (if cursor < length data then
        case VbRead data cursor of
          (doc_id, doc_bytes) \<Rightarrow>
            if cursor + doc_bytes \<ge> length data then max_doc_id
            else max_loop data (cursor + doc_bytes + 1) doc_id
      else max_doc_id)"
  by pat_completeness auto
termination
  by (relation "measure (\<lambda>(data, cursor, m). length data - cursor)") auto

declare max_loop.simps [simp del]

definition MaxDocIDInPairs :: "bytes \<Rightarrow> u64" where
  "MaxDocIDInPairs data = max_loop data 0 0"

subsection \<open>Index pages\<close>

record index_build =
  ib_blocks :: "bytes list"
  ib_cur :: bytes
  ib_wptr :: nat
  ib_seq :: u32

definition index_build_new :: index_build where
  "index_build_new = \<lparr>ib_blocks = [], ib_cur = replicate PAGE_SIZE 0, ib_wptr = 0, ib_seq = 0\<rparr>"

definition flush_index_block :: "index_build \<Rightarrow> index_build" where
  "flush_index_block ib =
     \<lparr>ib_blocks = ib_blocks ib @ [ib_cur ib], ib_cur = replicate PAGE_SIZE 0, ib_wptr = 0,
      ib_seq = ib_seq ib + 1\<rparr>"

definition write_bytes :: "bytes \<Rightarrow> index_build \<Rightarrow> index_build" where
  "write_bytes bs ib =
     ib\<lparr>ib_cur := put (ib_wptr ib) bs (ib_cur ib), ib_wptr := ib_wptr ib + length bs\<rparr>"

lemma prefix_loop_le: "cursor \<le> limit \<Longrightarrow> prefix_loop data limit cursor \<le> limit"
  by (induction data limit cursor rule: prefix_loop.induct)
    (subst prefix_loop.simps, auto split: option.splits)

lemma PostingPrefixBytes_le: "PostingPrefixBytes data capacity \<le> min (length data) capacity"
  unfolding PostingPrefixBytes_def by (rule prefix_loop_le) simp

text \<open>The continuation loop; \<open>bytes\<close> is what remains to be written.\<close>

function write_continuations :: "index_build \<Rightarrow> bytes \<Rightarrow> u32 \<Rightarrow> index_build \<times> u32" where
  "write_continuations ib bytes n =
     (if bytes = [] then (ib, n)
      else
        let cont_here = PostingPrefixBytes bytes (PAGE_SIZE - INDEX_BLOCK_CONTINUATION_HEADER_SIZE)
        in if cont_here = 0 then (ib, n)
           else
             let more_cont = cont_here < length bytes;
                 header = \<lparr>IBCH_MaxDocID = MaxDocIDInPairs (take cont_here bytes),
                           IBCH_DataLength = word_of_nat cont_here\<rparr>;
                 ib = write_bytes (take cont_here bytes) (write_bytes (ibch_bytes header) ib);
                 ib = (if more_cont then flush_index_block ib else ib)
             in write_continuations ib (drop cont_here bytes) (n + 1))"
  by pat_completeness auto
termination
  by (relation "measure (\<lambda>(ib, bytes, n). length bytes)") auto

declare write_continuations.simps [simp del]

text \<open>
  The body of the term loop up to the leaf entry: first block, offset, bytes there and the
  number of continuation blocks, or nothing when not even one pair fits an empty page.
\<close>

definition place_posting :: "bytes \<Rightarrow> index_build \<Rightarrow> (u32 \<times> nat \<times> nat \<times> u32) option \<times> index_build" where
  "place_posting bytes ib =
     (let ib = (if ib_wptr ib \<ge> PAGE_SIZE then flush_index_block ib else ib);
          here0 = PostingPrefixBytes bytes (PAGE_SIZE - ib_wptr ib);
          ib = (if here0 = 0 then flush_index_block ib else ib);
          data_here = (if here0 = 0 then PostingPrefixBytes bytes PAGE_SIZE else here0)
      in if data_here = 0 then (None, ib)
         else
           let index_block_id = ib_seq ib; data_offset = ib_wptr ib;
               ib = write_bytes (take data_here bytes) ib;
               rest = drop data_here bytes
           in if rest = [] then (Some (index_block_id, data_offset, data_here, 0), ib)
              else case write_continuations (flush_index_block ib) rest 0 of
                (ib, n) \<Rightarrow> (Some (index_block_id, data_offset, data_here, n), ib))"

subsection \<open>Leaf pages\<close>

record leaf_build =
  lb_blocks :: "LeafTermBlock list"
  lb_heads :: "HeadTermEntry list"
  lb_block :: LeafTermBlock
  lb_write_offset :: nat
  lb_entry_count :: nat
  lb_first_term :: rstr

definition leaf_build_new :: leaf_build where
  "leaf_build_new = \<lparr>lb_blocks = [], lb_heads = [], lb_block = LeafTermBlock_default,
     lb_write_offset = 0, lb_entry_count = 0, lb_first_term = []\<rparr>"

definition flush_leaf_block :: "leaf_build \<Rightarrow> leaf_build option" where
  "flush_leaf_block lb =
     (if lb_entry_count lb = 0 then Some lb
      else
        let block = (lb_block lb)\<lparr>LTB_Directory := (LTB_Directory (lb_block lb))
                      [LEAF_TERM_DIRECTORY_COUNT - 1 := word_of_nat (lb_entry_count lb)]\<rparr>
        in map_option (\<lambda>head. \<lparr>lb_blocks = lb_blocks lb @ [block], lb_heads = lb_heads lb @ [head],
                               lb_block = LeafTermBlock_default, lb_write_offset = 0,
                               lb_entry_count = 0, lb_first_term = []\<rparr>)
             (HeadTermEntry_new (lb_first_term lb) (word_of_nat (length (lb_blocks lb)))))"

definition add_leaf_entry :: "LeafTermEntry \<Rightarrow> leaf_build \<Rightarrow> leaf_build option" where
  "add_leaf_entry e lb =
     map_option (\<lambda>lb.
         (let lb = (if lb_entry_count lb = 0 then lb\<lparr>lb_first_term := LTE_Term e\<rparr> else lb)
          in lb\<lparr>lb_block := WriteLeafEntry (lb_block lb) (lb_entry_count lb) (lb_write_offset lb) e,
                lb_write_offset := lb_write_offset lb + lte_byte_len e,
                lb_entry_count := lb_entry_count lb + 1\<rparr>))
       (if lb_entry_count lb > 0 \<and>
           (lb_entry_count lb \<ge> LEAF_TERM_DIRECTORY_COUNT - 1 \<or>
            lb_write_offset lb + lte_byte_len e > PAGE_SIZE - LEAF_TERM_DATA_OFFSET)
        then flush_leaf_block lb else Some lb)"

subsection \<open>Building the blocks\<close>

record BuildBlocksResult =
  BBR_IndexBlocks :: "bytes list"
  BBR_HeadTermEntries :: "HeadTermEntry list"
  BBR_LeafTermBlocks :: "LeafTermBlock list"
  BBR_TermMphfHeader :: TermMphfHeader
  BBR_TermMphfDisplacements :: "i32 list"
  BBR_TermMphfEntryPages :: "bytes list"
  BBR_TotalTerms :: u64

definition leaf_entry_of :: "rstr \<Rightarrow> PostingList \<Rightarrow> u32 \<times> nat \<times> nat \<times> u32 \<Rightarrow> LeafTermEntry" where
  "leaf_entry_of key pl = (\<lambda>(index_block_id, data_offset, data_here, conts).
     \<lparr>LTE_Term = key, LTE_DocFreq = doc_freq pl, LTE_IndexBlockID = index_block_id,
      LTE_IndexOffset = word_of_nat data_offset, LTE_IndexLength = word_of_nat data_here,
      LTE_ContinuationBlockCount = ucast conts, LTE_Flags = 0,
      LTE_TermLength = word_of_nat (length key)\<rparr>)"

fun build_terms ::
  "(nat \<Rightarrow> rat) \<Rightarrow> (rstr \<times> PostingList) list \<Rightarrow> index_build \<times> leaf_build \<times> u64 \<Rightarrow>
   (index_build \<times> leaf_build \<times> u64) option" where
  "build_terms log2_f64 [] st = Some st"
| "build_terms log2_f64 ((key, pl) # terms) (ib, lb, total_terms) =
     (let bytes = get_bytes log2_f64 pl in
      if length key > HEAD_TERM_KEY_MAX \<or> bytes = [] then
        build_terms log2_f64 terms (ib, lb, total_terms)
      else case place_posting bytes ib of
        (None, ib) \<Rightarrow> build_terms log2_f64 terms (ib, lb, total_terms)
      | (Some loc, ib) \<Rightarrow>
          case add_leaf_entry (leaf_entry_of key pl loc) lb of
            None \<Rightarrow> None
          | Some lb \<Rightarrow> build_terms log2_f64 terms (ib, lb, total_terms + 1))"

definition BuildBlocks :: "(nat \<Rightarrow> rat) \<Rightarrow> PostingStore \<Rightarrow> BuildBlocksResult option" where
  "BuildBlocks log2_f64 store =
     (case build_terms log2_f64 (sort_key fst (m_Postings store)) (index_build_new, leaf_build_new, 0) of
        None \<Rightarrow> None
      | Some (ib, lb, total_terms) \<Rightarrow>
          (let ib = (if ib_wptr ib > 0 then flush_index_block ib else ib)
           in map_option (\<lambda>lb. \<lparr>BBR_IndexBlocks = ib_blocks ib, BBR_HeadTermEntries = lb_heads lb,
                  BBR_LeafTermBlocks = lb_blocks lb, BBR_TermMphfHeader = TermMphfHeader_zeroed,
                  BBR_TermMphfDisplacements = [], BBR_TermMphfEntryPages = [],
                  BBR_TotalTerms = total_terms\<rparr>)
                (flush_leaf_block lb)))"

subsection \<open>Scanning what the encoder wrote\<close>

lemma drop_Cons_nth:
  "drop n xs = y # ys \<Longrightarrow> n < length xs \<and> xs ! n = y \<and> drop (Suc n) xs = ys"
  by (metis Cons_nth_drop_Suc drop_eq_Nil list.discI list.inject not_le_imp_less)

lemma vb_skip_vb_write:
  "drop offset data = vb_write v @ rest \<Longrightarrow> vb_skip data offset = Some (offset + length (vb_write v))"
proof (induction v arbitrary: offset rule: vb_write.induct)
  case (1 v)
  show ?case
  proof (cases "v < 0x80")
    case True
    then show ?thesis
      using drop_Cons_nth [of offset data] "1.prems" vb_last_byte(1) [OF True]
      by (subst vb_skip.simps) (simp add: vb_write.simps [of v])
  next
    case False
    then have vb: "vb_write v = ucast ((v AND 0x7F) OR 0x80) # vb_write (drop_bit 7 v)"
      by (subst vb_write.simps) simp
    note at = drop_Cons_nth [of offset data, OF "1.prems" [unfolded vb append_Cons]]
    then show ?thesis
      using "1.IH" [OF False, of "Suc offset"] vb_more_byte(1) [of v]
      by (subst vb_skip.simps) (simp add: vb)
  qed
qed

lemma vb_read_loop_vb_write:
  assumes "drop pos data = vb_write v @ rest" and "unat v * 2 ^ s < 2 ^ 64" and "s < 64"
  shows "vb_read_loop data pos base s = (base OR push_bit s v, pos + length (vb_write v))"
  using assms
proof (induction v arbitrary: pos s base rule: vb_write.induct)
  case (1 v)
  show ?case
  proof (cases "v < 0x80")
    case True
    then show ?thesis
      using drop_Cons_nth [of pos data] "1.prems" vb_last_byte [OF True]
      by (subst vb_read_loop.simps) (simp add: vb_write.simps [of v] Let_def)
  next
    case False
    define v' where "v' = drop_bit 7 v"
    have vb: "vb_write v = ucast ((v AND 0x7F) OR 0x80) # vb_write v'"
      using False by (subst vb_write.simps) (simp add: v'_def)
    note at = drop_Cons_nth [of pos data, OF "1.prems"(1) [unfolded vb append_Cons]]
    have big: "2 ^ 7 \<le> unat v" using False by (simp add: word_le_nat_alt not_less)
    have room: "unat v' * 2 ^ (s + 7) < 2 ^ 64"
    proof -
      have "unat v' * 2 ^ (s + 7) \<le> unat v * 2 ^ s"
        by (simp add: v'_def drop_bit_eq_div unat_div_distrib power_add mult.assoc [symmetric] mult_right_mono)
      with "1.prems"(2) show ?thesis by linarith
    qed
    have s: "s + 7 < 64"
    proof -
      have "(2::nat) ^ (s + 7) \<le> unat v * 2 ^ s"
        using mult_right_mono [OF big, of "2 ^ s"] by (simp add: power_add mult.commute)
      with "1.prems"(2) have "(2::nat) ^ (s + 7) < 2 ^ 64" by linarith
      then show ?thesis by (rule power_less_imp_less_exp [rotated]) simp
    qed
    have "vb_read_loop data pos base s =
        vb_read_loop data (Suc pos) (base OR push_bit s (v AND 0x7F)) (s + 7)"
      using at s vb_more_byte [of v] by (subst vb_read_loop.simps) (simp add: Let_def)
    then show ?thesis
      using "1.IH" [OF False, of "Suc pos" "s + 7" "base OR push_bit s (v AND 0x7F)"] at room s push_split [of s v]
      by (simp add: vb v'_def [symmetric] or.assoc)
  qed
qed

lemma length_vb_write: "unat v < 2 ^ (7 * n) \<Longrightarrow> 0 < n \<Longrightarrow> length (vb_write v) \<le> n"
proof (induction n arbitrary: v)
  case 0
  then show ?case by simp
next
  case (Suc n)
  show ?case
  proof (cases "v < 0x80")
    case True
    then show ?thesis by (subst vb_write.simps) simp
  next
    case False
    then have "2 ^ 7 \<le> unat v" by (simp add: word_le_nat_alt not_less)
    with Suc.prems(1) have "0 < n" by (cases n) auto
    moreover have "unat (drop_bit 7 v) < 2 ^ (7 * n)"
      using Suc.prems(1) by (simp add: drop_bit_eq_div unat_div_distrib power_add less_mult_imp_div_less mult.commute)
    ultimately show ?thesis
      using Suc.IH [of "drop_bit 7 v"] False by (subst vb_write.simps) simp
  qed
qed

lemma length_pair_bytes_eq: "length (pair_bytes p) = length (vb_write (fst p)) + 1"
  by (simp add: pair_bytes_def case_prod_beta)

lemma length_pair_bytes: "length (pair_bytes p) \<le> 11"
proof -
  have "unat (fst p) < 2 ^ (7 * 10)"
    using unat_bound [of "fst p"] by (simp add: less_trans)
  then show ?thesis
    using length_vb_write [of "fst p" 10] by (simp add: pair_bytes_def case_prod_beta)
qed

lemma ReadVbcPairEnd_pair:
  assumes "data = pairs_bytes xs @ pair_bytes p @ rest"
  shows "ReadVbcPairEnd data (length (pairs_bytes xs)) = Some (length (pairs_bytes (xs @ [p])))"
  using vb_skip_vb_write [of "length (pairs_bytes xs)" data "fst p" "[snd p] @ rest"] assms
  by (simp add: ReadVbcPairEnd_def pair_bytes_def case_prod_beta)

lemma prefix_loop_pairs:
  assumes "data = pairs_bytes (xs @ ys)" and "length (pairs_bytes xs) \<le> limit"
  shows "\<exists>k \<le> length ys. prefix_loop data limit (length (pairs_bytes xs)) = length (pairs_bytes (xs @ take k ys)) \<and>
    (case ys of [] \<Rightarrow> True | p # _ \<Rightarrow> length (pairs_bytes (xs @ [p])) \<le> limit \<longrightarrow> 0 < k) \<and>
    (k < length ys \<longrightarrow> limit < length (pairs_bytes (xs @ take (Suc k) ys)))"
  using assms
proof (induction ys arbitrary: xs)
  case Nil
  then show ?case
    by (subst prefix_loop.simps) (auto simp: ReadVbcPairEnd_def vb_skip.simps)
next
  case (Cons p ys)
  have rd: "ReadVbcPairEnd data (length (pairs_bytes xs)) = Some (length (pairs_bytes (xs @ [p])))"
    using ReadVbcPairEnd_pair [of data xs p "pairs_bytes ys"] Cons.prems(1) by simp
  have pos: "0 < length (pair_bytes p)" by (simp add: pair_bytes_def case_prod_beta)
  show ?case
  proof (cases "length (pairs_bytes (xs @ [p])) \<le> limit")
    case True
    have step: "prefix_loop data limit (length (pairs_bytes xs)) =
        prefix_loop data limit (length (pairs_bytes (xs @ [p])))"
    proof -
      have "length (pairs_bytes xs) < limit" using True pos by (simp del: length_greater_0_conv)
      then show ?thesis
        using rd True by (subst prefix_loop.simps) (simp del: map_append concat_append)
    qed
    from Cons.IH [of "xs @ [p]"] True Cons.prems(1) obtain k where
      "k \<le> length ys" "prefix_loop data limit (length (pairs_bytes (xs @ [p]))) = length (pairs_bytes ((xs @ [p]) @ take k ys))"
      "k < length ys \<longrightarrow> limit < length (pairs_bytes ((xs @ [p]) @ take (Suc k) ys))"
      by auto
    then show ?thesis
      by (intro exI [of _ "Suc k"]) (simp add: step)
  next
    case False
    then show ?thesis
      using rd by (subst prefix_loop.simps) (auto simp del: map_append concat_append)
  qed
qed

lemma PostingPrefixBytes_pairs:
  "\<exists>k \<le> length ps. PostingPrefixBytes (pairs_bytes ps) capacity = length (pairs_bytes (take k ps)) \<and>
     (ps \<noteq> [] \<longrightarrow> 11 \<le> capacity \<longrightarrow> 0 < k) \<and>
     (k < length ps \<longrightarrow> capacity < length (pairs_bytes (take k ps)) + 11)"
proof -
  let ?l = "min (length (pairs_bytes ps)) capacity"
  obtain k where k: "k \<le> length ps" "prefix_loop (pairs_bytes ps) ?l 0 = length (pairs_bytes (take k ps))"
    "case ps of [] \<Rightarrow> True | p # _ \<Rightarrow> length (pairs_bytes [p]) \<le> ?l \<longrightarrow> 0 < k"
    "k < length ps \<longrightarrow> ?l < length (pairs_bytes (take (Suc k) ps))"
    using prefix_loop_pairs [of "pairs_bytes ps" "[]" ps ?l] unfolding append_Nil by auto
  moreover have "0 < k" if "ps \<noteq> []" "11 \<le> capacity"
    using k(3) that length_pair_bytes [of "hd ps"] by (cases ps) auto
  moreover have "capacity < length (pairs_bytes (take k ps)) + 11" if less: "k < length ps"
  proof -
    have "length (pairs_bytes (take (Suc k) ps)) \<le> length (pairs_bytes (take k ps)) + 11"
      using less length_pair_bytes [of "ps ! k"] by (simp add: take_Suc_conv_app_nth)
    moreover have "pairs_bytes ps = pairs_bytes (take (Suc k) ps) @ pairs_bytes (drop (Suc k) ps)"
      by (metis append_take_drop_id concat_append map_append)
    then have "length (pairs_bytes (take (Suc k) ps)) \<le> length (pairs_bytes ps)"
      by (metis length_append le_add1)
    ultimately show ?thesis using k(4) less by linarith
  qed
  ultimately show ?thesis by (auto simp: PostingPrefixBytes_def)
qed

lemma VbRead_pair:
  assumes "data = pairs_bytes xs @ pair_bytes p @ rest"
  shows "VbRead data (length (pairs_bytes xs)) = (fst p, length (vb_write (fst p)))"
  using vb_read_loop_vb_write [of "length (pairs_bytes xs)" data "fst p" "[snd p] @ rest" 0 0] assms
    unat_bound [of "fst p"]
  by (simp add: VbRead_def pair_bytes_def case_prod_beta)

lemma max_loop_pairs:
  "data = pairs_bytes (xs @ ys) \<Longrightarrow>
   max_loop data (length (pairs_bytes xs)) m = (if ys = [] then m else fst (last ys))"
proof (induction ys arbitrary: xs m)
  case Nil
  then show ?case by (subst max_loop.simps) simp
next
  case (Cons p ys)
  have rd: "VbRead data (length (pairs_bytes xs)) = (fst p, length (vb_write (fst p)))"
    using Cons.prems by (intro VbRead_pair [of _ _ _ "pairs_bytes ys"]) simp
  have "length (pairs_bytes xs) + length (vb_write (fst p)) + 1 = length (pairs_bytes (xs @ [p]))"
    by (simp add: length_pair_bytes_eq)
  moreover have "\<not> length data \<le> length (pairs_bytes xs) + length (vb_write (fst p))"
    using Cons.prems by (simp add: length_pair_bytes_eq)
  ultimately have "max_loop data (length (pairs_bytes xs)) m = max_loop data (length (pairs_bytes (xs @ [p]))) (fst p)"
    by (subst max_loop.simps) (simp add: rd length_pair_bytes_eq)
  then show ?case using Cons.IH [of "xs @ [p]" "fst p"] Cons.prems by simp
qed

lemma MaxDocIDInPairs_pairs: "ps \<noteq> [] \<Longrightarrow> MaxDocIDInPairs (pairs_bytes ps) = fst (last ps)"
  using max_loop_pairs [of "pairs_bytes ps" "[]" ps 0] by (simp add: MaxDocIDInPairs_def)

subsection \<open>What the index pages hold\<close>

text \<open>
  \<open>page_at\<close> numbers the finished pages and the current one; \<open>limit_at\<close> is how much of a page is
  final. Later steps only extend the final part.
\<close>

definition page_at :: "index_build \<Rightarrow> nat \<Rightarrow> bytes" where
  "page_at ib i = (ib_blocks ib @ [ib_cur ib]) ! i"

definition limit_at :: "index_build \<Rightarrow> nat \<Rightarrow> nat" where
  "limit_at ib i = (if i < length (ib_blocks ib) then PAGE_SIZE else ib_wptr ib)"

definition index_wf :: "index_build \<Rightarrow> bool" where
  "index_wf ib \<longleftrightarrow> ib_wptr ib \<le> PAGE_SIZE \<and> length (ib_cur ib) = PAGE_SIZE \<and>
     (\<forall>page \<in> set (ib_blocks ib). length page = PAGE_SIZE) \<and>
     ib_seq ib = word_of_nat (length (ib_blocks ib))"

definition index_ext :: "index_build \<Rightarrow> index_build \<Rightarrow> bool" where
  "index_ext ib ib' \<longleftrightarrow> length (ib_blocks ib) \<le> length (ib_blocks ib') \<and>
     (\<forall>i \<le> length (ib_blocks ib). limit_at ib i \<le> limit_at ib' i \<and>
        take (limit_at ib i) (page_at ib' i) = take (limit_at ib i) (page_at ib i))"

definition region_holds :: "index_build \<Rightarrow> nat \<Rightarrow> nat \<Rightarrow> bytes \<Rightarrow> bool" where
  "region_holds ib i off bs \<longleftrightarrow> i \<le> length (ib_blocks ib) \<and> off + length bs \<le> limit_at ib i \<and>
     subslice off (off + length bs) (page_at ib i) = bs"

definition cont_bytes :: "(u64 \<times> u8) list \<Rightarrow> bytes" where
  "cont_bytes c = ibch_bytes \<lparr>IBCH_MaxDocID = fst (last c), IBCH_DataLength = word_of_nat (length (pairs_bytes c))\<rparr>
     @ pairs_bytes c"

fun conts_hold :: "index_build \<Rightarrow> nat \<Rightarrow> (u64 \<times> u8) list list \<Rightarrow> bool" where
  "conts_hold ib i [] = True"
| "conts_hold ib i (c # cs) \<longleftrightarrow> c \<noteq> [] \<and> length (pairs_bytes c) \<le> 4084 \<and>
     region_holds ib (Suc i) 0 (cont_bytes c) \<and> conts_hold ib (Suc i) cs"

lemma index_ext_refl [simp]: "index_ext ib ib"
  by (simp add: index_ext_def)

lemma index_ext_trans:
  assumes "index_ext a b" and "index_ext b c"
  shows "index_ext a c"
proof -
  have "take (limit_at a i) (page_at c i) = take (limit_at a i) (page_at a i)" "limit_at a i \<le> limit_at c i"
    if "i \<le> length (ib_blocks a)" for i
  proof -
    have ab: "limit_at a i \<le> limit_at b i" "take (limit_at a i) (page_at b i) = take (limit_at a i) (page_at a i)"
      using assms(1) that by (auto simp: index_ext_def)
    have bc: "limit_at b i \<le> limit_at c i" "take (limit_at b i) (page_at c i) = take (limit_at b i) (page_at b i)"
      using assms that by (auto simp: index_ext_def)
    show "take (limit_at a i) (page_at c i) = take (limit_at a i) (page_at a i)"
      using ab(2) arg_cong [OF bc(2), of "take (limit_at a i)"] ab(1) by (simp add: min_def)
    show "limit_at a i \<le> limit_at c i" using ab(1) bc(1) by simp
  qed
  then show ?thesis using assms by (auto simp: index_ext_def)
qed

lemma region_holds_ext:
  assumes "region_holds ib i off bs" and "index_ext ib ib'"
  shows "region_holds ib' i off bs"
proof -
  let ?l = "limit_at ib i"
  have i: "i \<le> length (ib_blocks ib)" "off + length bs \<le> ?l" "subslice off (off + length bs) (page_at ib i) = bs"
    using assms(1) by (auto simp: region_holds_def)
  then have ext: "?l \<le> limit_at ib' i" "take ?l (page_at ib' i) = take ?l (page_at ib i)"
    "i \<le> length (ib_blocks ib')"
    using assms(2) by (auto simp: index_ext_def)
  have "subslice off (off + length bs) p = subslice off (off + length bs) (take ?l p)" for p :: bytes
    using i(2) by (simp add: subslice_def drop_take min_def)
  then show ?thesis using ext i by (metis region_holds_def le_trans)
qed

lemma conts_hold_ext: "conts_hold ib i cs \<Longrightarrow> index_ext ib ib' \<Longrightarrow> conts_hold ib' i cs"
  by (induction cs arbitrary: i) (auto intro: region_holds_ext)

lemma flush_index_block_wf: "index_wf ib \<Longrightarrow> index_wf (flush_index_block ib)"
  by (auto simp: index_wf_def flush_index_block_def)

lemma flush_index_block_ext: "index_wf ib \<Longrightarrow> index_ext ib (flush_index_block ib)"
  by (auto simp: index_ext_def index_wf_def flush_index_block_def limit_at_def page_at_def nth_append)

lemma write_bytes_wf:
  "index_wf ib \<Longrightarrow> ib_wptr ib + length bs \<le> PAGE_SIZE \<Longrightarrow> index_wf (write_bytes bs ib)"
  by (auto simp: index_wf_def write_bytes_def)

lemma write_bytes_ext:
  "index_wf ib \<Longrightarrow> ib_wptr ib + length bs \<le> PAGE_SIZE \<Longrightarrow> index_ext ib (write_bytes bs ib)"
  by (auto simp: index_ext_def index_wf_def write_bytes_def limit_at_def page_at_def nth_append put_def)

lemma write_bytes_holds:
  assumes "index_wf ib" and "ib_wptr ib + length bs \<le> PAGE_SIZE"
  shows "region_holds (write_bytes bs ib) (length (ib_blocks ib)) (ib_wptr ib) bs"
  using assms slice_put_same [of "ib_wptr ib" bs "ib_cur ib"]
  by (simp add: region_holds_def write_bytes_def limit_at_def page_at_def index_wf_def)

lemma put_put:
  assumes "p + (length xs + length ys) \<le> length zs"
  shows "put (p + length xs) ys (put p xs zs) = put p (xs @ ys) zs"
  using assms by (intro nth_equalityI) (auto simp: put_nth nth_append)

lemma write_bytes_append:
  "ib_wptr ib + (length xs + length ys) \<le> length (ib_cur ib) \<Longrightarrow>
   write_bytes ys (write_bytes xs ib) = write_bytes (xs @ ys) ib"
  by (simp add: write_bytes_def put_put)

lemma pair_bytes_nonempty [simp]: "pair_bytes p \<noteq> []"
  by (simp add: pair_bytes_def case_prod_beta)

lemma pairs_bytes_Nil: "pairs_bytes ps = [] \<longleftrightarrow> ps = []"
  by (cases ps) auto

lemma write_continuations_Cons:
  assumes "ps \<noteq> []" and "index_wf ib" and "ib_wptr ib = 0"
  shows "\<exists>k. 0 < k \<and> k \<le> length ps \<and> length (pairs_bytes (take k ps)) \<le> 4084 \<and>
    (k < length ps \<longrightarrow> 4074 \<le> length (pairs_bytes (take k ps))) \<and>
    write_continuations ib (pairs_bytes ps) n =
      write_continuations (if k < length ps then flush_index_block (write_bytes (cont_bytes (take k ps)) ib)
                           else write_bytes (cont_bytes (take k ps)) ib) (pairs_bytes (drop k ps)) (n + 1)"
proof -
  obtain k where k: "k \<le> length ps" "PostingPrefixBytes (pairs_bytes ps) 4084 = length (pairs_bytes (take k ps))" "0 < k"
    and big: "k < length ps \<longrightarrow> 4084 < length (pairs_bytes (take k ps)) + 11"
    using PostingPrefixBytes_pairs [of ps 4084] assms(1) by auto
  have big: "k < length ps \<longrightarrow> 4074 \<le> length (pairs_bytes (take k ps))"
    using big by linarith
  let ?c = "take k ps"
  have le: "length (pairs_bytes ?c) \<le> 4084"
    using PostingPrefixBytes_le [of "pairs_bytes ps" 4084] k(2) by simp
  have split: "pairs_bytes ps = pairs_bytes ?c @ pairs_bytes (drop k ps)"
    by (metis append_take_drop_id concat_append map_append)
  note ne = pairs_bytes_Nil
  have c: "?c \<noteq> []" using k assms(1) by simp
  then have pos: "length (pairs_bytes ?c) \<noteq> 0" unfolding length_0_conv ne .
  note max = MaxDocIDInPairs_pairs [OF c]
  have more: "length (pairs_bytes ?c) < length (pairs_bytes ps) \<longleftrightarrow> k < length ps"
  proof -
    have "length (pairs_bytes ps) = length (pairs_bytes ?c) + length (pairs_bytes (drop k ps))"
      using arg_cong [OF split, of length] by simp
    moreover have "length (pairs_bytes (drop k ps)) = 0 \<longleftrightarrow> length ps \<le> k"
      using ne [of "drop k ps"] by (metis drop_eq_Nil length_0_conv)
    ultimately show ?thesis by linarith
  qed
  have cut: "take (length (pairs_bytes ?c)) (pairs_bytes ps) = pairs_bytes ?c"
    "drop (length (pairs_bytes ?c)) (pairs_bytes ps) = pairs_bytes (drop k ps)"
    by (subst split, simp)+
  have w: "write_bytes (pairs_bytes ?c) (write_bytes (ibch_bytes \<lparr>IBCH_MaxDocID = fst (last ?c),
      IBCH_DataLength = word_of_nat (length (pairs_bytes ?c))\<rparr>) ib) = write_bytes (cont_bytes ?c) ib"
    using write_bytes_append [of ib] assms(2,3) le unfolding cont_bytes_def
    by (simp add: index_wf_def PAGE_SIZE_def)
  have cap: "PAGE_SIZE - INDEX_BLOCK_CONTINUATION_HEADER_SIZE = 4084" by (simp add: size_consts)
  have psne: "pairs_bytes ps \<noteq> []" using ne [of ps] assms(1) by simp
  have "write_continuations ib (pairs_bytes ps) n =
      write_continuations (if k < length ps then flush_index_block (write_bytes (cont_bytes ?c) ib)
                           else write_bytes (cont_bytes ?c) ib) (pairs_bytes (drop k ps)) (n + 1)"
    unfolding write_continuations.simps [of ib "pairs_bytes ps" n] Let_def cap k(2) cut max w more
    by (subst if_not_P [OF psne], subst if_not_P [OF pos]) (rule refl)
  with k(1,3) le big show ?thesis by (intro exI [of _ k] conjI)
qed

lemma write_continuations_hold:
  assumes "ps \<noteq> []" and "index_wf ib" and "ib_wptr ib = 0" and "length (ib_blocks ib) = Suc i"
  shows "\<exists>cs ib'. write_continuations ib (pairs_bytes ps) n = (ib', n + word_of_nat (length cs)) \<and>
    concat cs = ps \<and> conts_hold ib' i cs \<and> index_wf ib' \<and> index_ext ib ib' \<and>
    4074 * length cs \<le> length (pairs_bytes ps) + 4073"
  using assms
proof (induction "length ps" arbitrary: ps ib i n rule: less_induct)
  case less
  obtain k where k: "0 < k" "k \<le> length ps" "length (pairs_bytes (take k ps)) \<le> 4084"
    and big: "k < length ps \<longrightarrow> 4074 \<le> length (pairs_bytes (take k ps))"
    and step: "write_continuations ib (pairs_bytes ps) n =
      write_continuations (if k < length ps then flush_index_block (write_bytes (cont_bytes (take k ps)) ib)
                           else write_bytes (cont_bytes (take k ps)) ib) (pairs_bytes (drop k ps)) (n + 1)"
    using write_continuations_Cons [OF less.prems(1-3)] by blast
  let ?c = "take k ps" and ?w = "write_bytes (cont_bytes (take k ps)) ib"
  have fits: "ib_wptr ib + length (cont_bytes ?c) \<le> PAGE_SIZE"
    using k(3) less.prems(3) by (simp add: cont_bytes_def PAGE_SIZE_def)
  note w = write_bytes_wf [OF less.prems(2) fits] write_bytes_ext [OF less.prems(2) fits]
  have holds: "region_holds ?w (Suc i) 0 (cont_bytes ?c)"
    using write_bytes_holds [OF less.prems(2) fits] less.prems(3,4) by simp
  have c: "?c \<noteq> []" using k less.prems(1) by simp
  show ?case
  proof (cases "k < length ps")
    case False
    then have "write_continuations ib (pairs_bytes ps) n = (?w, n + word_of_nat (length [?c]))"
      using step by (simp add: write_continuations.simps)
    moreover have "concat [?c] = ps" "conts_hold ?w i [?c]"
      using False holds c k(3) by simp_all
    moreover have "4074 * length [?c] \<le> length (pairs_bytes ps) + 4073"
      using less.prems(1) pairs_bytes_Nil [of ps] by (cases "pairs_bytes ps") simp_all
    ultimately show ?thesis using w by blast
  next
    case True
    let ?f = "flush_index_block ?w"
    have f: "index_wf ?f" "index_ext ib ?f" "index_ext ?w ?f"
      using flush_index_block_wf [OF w(1)] flush_index_block_ext [OF w(1)] index_ext_trans w(2) by blast+
    have at: "ib_wptr ?f = 0" "length (ib_blocks ?f) = Suc (Suc i)"
      using less.prems(4) by (simp_all add: flush_index_block_def write_bytes_def)
    have rest: "length (drop k ps) < length ps" "drop k ps \<noteq> []" using True k(1) by auto
    from less.hyps [OF rest f(1) at, of "n + 1"] obtain cs ib' where
      IH: "write_continuations ?f (pairs_bytes (drop k ps)) (n + 1) = (ib', n + 1 + word_of_nat (length cs))"
        "concat cs = drop k ps" "conts_hold ib' (Suc i) cs" "index_wf ib'" "index_ext ?f ib'"
        "4074 * length cs \<le> length (pairs_bytes (drop k ps)) + 4073"
      by blast
    have "4074 * length (?c # cs) \<le> length (pairs_bytes ps) + 4073"
    proof -
      have "length (pairs_bytes ps) = length (pairs_bytes ?c) + length (pairs_bytes (drop k ps))"
        by (metis append_take_drop_id concat_append length_append map_append)
      then show ?thesis using IH(6) big True by simp
    qed
    moreover have "write_continuations ib (pairs_bytes ps) n = (ib', n + word_of_nat (length (?c # cs)))"
      using step True IH(1) by (simp add: add.assoc add.commute)
    moreover have "concat (?c # cs) = ps" using IH(2) by simp
    moreover have "conts_hold ib' i (?c # cs)"
      using IH(3) c k(3) region_holds_ext [OF holds index_ext_trans [OF f(3) IH(5)]] by simp
    ultimately show ?thesis using IH(4) index_ext_trans [OF f(2) IH(5)] by blast
  qed
qed

text \<open>What \<open>place_posting\<close> reports about a list of pairs it has stored.\<close>

definition placed :: "index_build \<Rightarrow> u32 \<times> nat \<times> nat \<times> u32 \<Rightarrow> (u64 \<times> u8) list \<Rightarrow> bool" where
  "placed ib loc ps \<longleftrightarrow> (\<exists>i off c cs. loc = (word_of_nat i, off, length (pairs_bytes c), word_of_nat (length cs)) \<and>
     ps = c @ concat cs \<and> c \<noteq> [] \<and> off \<le> PAGE_SIZE \<and>
     4074 * length cs \<le> length (pairs_bytes ps) + 4073 \<and>
     region_holds ib i off (pairs_bytes c) \<and> conts_hold ib i cs)"

lemma placed_ext: "placed ib loc ps \<Longrightarrow> index_ext ib ib' \<Longrightarrow> placed ib' loc ps"
  unfolding placed_def by (elim exE conjE, intro exI conjI) (auto intro: region_holds_ext conts_hold_ext)

lemma place_first:
  assumes wf: "index_wf ib" and k: "0 < k" "k \<le> length ps" "ib_wptr ib + length (pairs_bytes (take k ps)) \<le> PAGE_SIZE"
    and ib1: "ib1 = write_bytes (pairs_bytes (take k ps)) ib"
  shows "\<exists>n ib'. (if drop k ps = [] then (0, ib1) else
        case write_continuations (flush_index_block ib1) (pairs_bytes (drop k ps)) 0 of (ib, n) \<Rightarrow> (n, ib)) = (n, ib') \<and>
      placed ib' (ib_seq ib, ib_wptr ib, length (pairs_bytes (take k ps)), n) ps \<and> index_wf ib' \<and> index_ext ib ib'"
proof -
  let ?i = "length (ib_blocks ib)"
  have c: "take k ps \<noteq> []" using k by auto
  have seq: "ib_seq ib = word_of_nat ?i" "ib_wptr ib \<le> PAGE_SIZE" using wf by (auto simp: index_wf_def)
  note w = write_bytes_wf [OF wf k(3), folded ib1] write_bytes_ext [OF wf k(3), folded ib1]
    write_bytes_holds [OF wf k(3), folded ib1]
  show ?thesis
  proof (cases "drop k ps = []")
    case True
    then have "placed ib1 (ib_seq ib, ib_wptr ib, length (pairs_bytes (take k ps)), 0) ps"
      unfolding placed_def using w(3) c seq
      by (intro exI [of _ ?i] exI [of _ "ib_wptr ib"] exI [of _ "take k ps"] exI [of _ "[]"]) simp
    then show ?thesis using True w by auto
  next
    case False
    let ?f = "flush_index_block ib1"
    have f: "index_wf ?f" "index_ext ib1 ?f" "index_ext ib ?f"
      using flush_index_block_wf [OF w(1)] flush_index_block_ext [OF w(1)] index_ext_trans w(2) by blast+
    have "ib_wptr ?f = 0" "length (ib_blocks ?f) = Suc ?i"
      by (simp_all add: flush_index_block_def write_bytes_def ib1)
    from write_continuations_hold [OF False f(1) this, of 0] obtain cs ib' where
      cs: "write_continuations ?f (pairs_bytes (drop k ps)) 0 = (ib', word_of_nat (length cs))"
        "concat cs = drop k ps" "conts_hold ib' ?i cs" "index_wf ib'" "index_ext ?f ib'"
        "4074 * length cs \<le> length (pairs_bytes (drop k ps)) + 4073"
      by auto
    have bound: "4074 * length cs \<le> length (pairs_bytes ps) + 4073"
    proof -
      have "length (pairs_bytes ps) = length (pairs_bytes (take k ps)) + length (pairs_bytes (drop k ps))"
        by (metis append_take_drop_id concat_append length_append map_append)
      then show ?thesis using cs(6) by linarith
    qed
    have "region_holds ib' ?i (ib_wptr ib) (pairs_bytes (take k ps))"
      using region_holds_ext [OF w(3) index_ext_trans [OF f(2) cs(5)]] .
    then have "placed ib' (ib_seq ib, ib_wptr ib, length (pairs_bytes (take k ps)), word_of_nat (length cs)) ps"
      unfolding placed_def using cs(2,3) c seq bound
      by (intro exI [of _ ?i] exI [of _ "ib_wptr ib"] exI [of _ "take k ps"] exI [of _ cs]) simp
    then show ?thesis using False cs(1,4) index_ext_trans [OF f(3) cs(5)] by auto
  qed
qed

lemma pairs_bytes_cut:
  "take (length (pairs_bytes (take k ps))) (pairs_bytes ps) = pairs_bytes (take k ps)"
  "drop (length (pairs_bytes (take k ps))) (pairs_bytes ps) = pairs_bytes (drop k ps)"
proof -
  have split: "pairs_bytes ps = pairs_bytes (take k ps) @ pairs_bytes (drop k ps)"
    by (metis append_take_drop_id concat_append map_append)
  show "take (length (pairs_bytes (take k ps))) (pairs_bytes ps) = pairs_bytes (take k ps)"
    "drop (length (pairs_bytes (take k ps))) (pairs_bytes ps) = pairs_bytes (drop k ps)"
    by (subst split, simp)+
qed

lemma place_posting_placed:
  assumes ps: "ps \<noteq> []" and wf: "index_wf ib"
  shows "\<exists>loc ib'. place_posting (pairs_bytes ps) ib = (Some loc, ib') \<and> placed ib' loc ps \<and>
    index_wf ib' \<and> index_ext ib ib'"
proof -
  define ibA where "ibA = (if ib_wptr ib \<ge> PAGE_SIZE then flush_index_block ib else ib)"
  have A: "index_wf ibA" "index_ext ib ibA"
    using wf flush_index_block_wf [OF wf] flush_index_block_ext [OF wf] by (auto simp: ibA_def)
  define here0 where "here0 = PostingPrefixBytes (pairs_bytes ps) (PAGE_SIZE - ib_wptr ibA)"
  define ibB where "ibB = (if here0 = 0 then flush_index_block ibA else ibA)"
  have B: "index_wf ibB" "index_ext ib ibB"
    using A flush_index_block_wf [OF A(1)] flush_index_block_ext [OF A(1)] index_ext_trans by (auto simp: ibB_def)
  define here where "here = (if here0 = 0 then PostingPrefixBytes (pairs_bytes ps) PAGE_SIZE else here0)"
  have here: "here = PostingPrefixBytes (pairs_bytes ps) (PAGE_SIZE - ib_wptr ibB) \<and> here \<noteq> 0"
  proof (cases "here0 = 0")
    case True
    obtain k where "PostingPrefixBytes (pairs_bytes ps) PAGE_SIZE = length (pairs_bytes (take k ps))" "0 < k"
      using PostingPrefixBytes_pairs [of ps PAGE_SIZE] ps by (auto simp: PAGE_SIZE_def)
    moreover from this have "pairs_bytes (take k ps) \<noteq> []" unfolding pairs_bytes_Nil using ps by simp
    ultimately show ?thesis using True
      by (simp add: here_def ibB_def flush_index_block_def del: length_concat concat_eq_Nil_conv)
  qed (simp add: here_def ibB_def here0_def)
  obtain k where k: "k \<le> length ps" "here = length (pairs_bytes (take k ps))"
    using here PostingPrefixBytes_pairs [of ps "PAGE_SIZE - ib_wptr ibB"] by auto
  have "0 < k" using here k(2) by (cases k) auto
  moreover have "ib_wptr ibB + length (pairs_bytes (take k ps)) \<le> PAGE_SIZE"
  proof -
    have "here \<le> PAGE_SIZE - ib_wptr ibB"
      using here PostingPrefixBytes_le [of "pairs_bytes ps" "PAGE_SIZE - ib_wptr ibB"] by auto
    moreover have "ib_wptr ibB \<le> PAGE_SIZE" using B(1) by (simp add: index_wf_def)
    ultimately show ?thesis unfolding k(2) [symmetric] by linarith
  qed
  ultimately obtain n ib' where
    first: "(if drop k ps = [] then (0, write_bytes (pairs_bytes (take k ps)) ibB) else
        case write_continuations (flush_index_block (write_bytes (pairs_bytes (take k ps)) ibB))
          (pairs_bytes (drop k ps)) 0 of (ib, n) \<Rightarrow> (n, ib)) = (n, ib')"
    and res: "placed ib' (ib_seq ibB, ib_wptr ibB, length (pairs_bytes (take k ps)), n) ps" "index_wf ib'" "index_ext ibB ib'"
    using place_first [OF B(1) _ k(1) _ refl] by blast
  have "place_posting (pairs_bytes ps) ib = (Some (ib_seq ibB, ib_wptr ibB, here, n), ib')"
    unfolding place_posting_def Let_def ibA_def [symmetric] here0_def [symmetric] ibB_def [symmetric] here_def [symmetric]
      if_not_P [OF conjunct2 [OF here]]
    unfolding k(2) pairs_bytes_cut pairs_bytes_Nil
    using first by (auto split: if_splits prod.splits)
  then show ?thesis using res index_ext_trans [OF B(2) res(3)] unfolding k(2) by blast
qed

subsection \<open>What the leaf pages hold\<close>

definition entry_offset :: "LeafTermEntry list \<Rightarrow> nat \<Rightarrow> nat" where
  "entry_offset es i = sum_list (map lte_byte_len (take i es))"

definition leaf_written :: "LeafTermBlock \<Rightarrow> LeafTermEntry list \<Rightarrow> bool" where
  "leaf_written b es \<longleftrightarrow> leaf_block_wf b \<and> length es \<le> 160 \<and> entry_offset es (length es) \<le> 3774 \<and>
     (\<forall>e \<in> set es. leaf_entry_wf e) \<and>
     (\<forall>i < length es. unat (LTB_Directory b ! i) = LEAF_TERM_DATA_OFFSET + entry_offset es i \<and>
        subslice (entry_offset es i) (entry_offset es i + lte_byte_len (es ! i)) (LTB_Data b) = lte_bytes (es ! i))"

lemma entry_offset_Suc: "i < length es \<Longrightarrow> entry_offset es (Suc i) = entry_offset es i + lte_byte_len (es ! i)"
  by (simp add: entry_offset_def take_Suc_conv_app_nth)

lemma entry_offset_mono: "i \<le> j \<Longrightarrow> entry_offset es i \<le> entry_offset es j"
  by (simp add: entry_offset_def) (metis le_add1 map_append sum_list_append take_add le_Suc_ex)

lemma entry_offset_append [simp]: "i \<le> length es \<Longrightarrow> entry_offset (es @ [e]) i = entry_offset es i"
  by (simp add: entry_offset_def)

lemma entry_offset_snoc [simp]: "entry_offset (es @ [e]) (Suc (length es)) = entry_offset es (length es) + lte_byte_len e"
  by (simp add: entry_offset_def)

lemma leaf_written_Nil: "leaf_written LeafTermBlock_default []"
  by (simp add: leaf_written_def leaf_block_wf_def LeafTermBlock_default_def entry_offset_def)

lemma leaf_written_snoc:
  assumes w: "leaf_written b es" and n: "length es < 160" and e: "leaf_entry_wf e"
    and fits: "entry_offset es (length es) + lte_byte_len e \<le> 3774"
  shows "leaf_written (WriteLeafEntry b (length es) (entry_offset es (length es)) e) (es @ [e])"
proof -
  let ?o = "entry_offset es (length es)"
  have len: "length (LTB_Directory b) = 161" "length (LTB_Data b) = 3774"
    using w by (simp_all add: leaf_written_def leaf_block_wf_def size_consts)
  have old: "unat (LTB_Directory b ! i) = LEAF_TERM_DATA_OFFSET + entry_offset es i"
    "subslice (entry_offset es i) (entry_offset es i + lte_byte_len (es ! i)) (LTB_Data b) = lte_bytes (es ! i)"
    if "i < length es" for i
    using w that by (auto simp: leaf_written_def)
  have new: "unat (word_of_nat (LEAF_TERM_DATA_OFFSET + ?o) :: u16) = LEAF_TERM_DATA_OFFSET + ?o"
    using fits by (simp add: unat_of_nat size_consts del: of_nat_add)
  have end_le: "entry_offset es i + lte_byte_len (es ! i) \<le> ?o" if "i < length es" for i
    using entry_offset_mono [of "Suc i" "length es" es] that by (simp add: entry_offset_Suc)
  have "unat ((LTB_Directory b)[length es := word_of_nat (LEAF_TERM_DATA_OFFSET + ?o)] ! i) =
      LEAF_TERM_DATA_OFFSET + entry_offset (es @ [e]) i \<and>
      subslice (entry_offset (es @ [e]) i) (entry_offset (es @ [e]) i + lte_byte_len ((es @ [e]) ! i))
        (put ?o (lte_bytes e) (LTB_Data b)) = lte_bytes ((es @ [e]) ! i)" if i: "i < Suc (length es)" for i
  proof (cases "i = length es")
    case True
    then show ?thesis
      using new n len fits slice_put_same [of ?o "lte_bytes e" "LTB_Data b"] by simp
  next
    case False
    then have i: "i < length es" using i by simp
    then show ?thesis
      using old [OF i] end_le [OF i] fits len n
      by (simp add: nth_append slice_put_before)
  qed
  then show ?thesis
    using w n e fits len
    by (auto simp: leaf_written_def WriteLeafEntry_def leaf_block_wf_def size_consts)
qed

definition leaf_done :: "LeafTermBlock \<Rightarrow> LeafTermEntry list \<Rightarrow> bool" where
  "leaf_done b es \<longleftrightarrow> leaf_written b es \<and> unat (LTB_Directory b ! 160) = length es"

definition head_entry_wf :: "HeadTermEntry \<Rightarrow> bool" where
  "head_entry_wf h \<longleftrightarrow> length (HTE_FirstTerm h) = HEAD_TERM_KEY_MAX \<and> unat (HTE_FirstTermLength h) \<le> HEAD_TERM_KEY_MAX"

definition leaf_inv :: "leaf_build \<Rightarrow> LeafTermEntry list list \<Rightarrow> LeafTermEntry list \<Rightarrow> bool" where
  "leaf_inv lb finished cur \<longleftrightarrow>
     length (lb_blocks lb) = length finished \<and> length (lb_heads lb) = length finished \<and>
     (\<forall>i < length finished. finished ! i \<noteq> [] \<and> leaf_done (lb_blocks lb ! i) (finished ! i) \<and>
        HTE_LeafTermBlockID (lb_heads lb ! i) = word_of_nat i \<and>
        first_term (lb_heads lb ! i) = LTE_Term (hd (finished ! i)) \<and> head_entry_wf (lb_heads lb ! i)) \<and>
     leaf_written (lb_block lb) cur \<and> lb_entry_count lb = length cur \<and>
     lb_write_offset lb = entry_offset cur (length cur) \<and>
     (cur \<noteq> [] \<longrightarrow> lb_first_term lb = LTE_Term (hd cur))"

lemma leaf_inv_new: "leaf_inv leaf_build_new [] []"
  by (simp add: leaf_inv_def leaf_build_new_def leaf_written_Nil entry_offset_def)

lemma flush_leaf_block_inv:
  assumes inv: "leaf_inv lb finished cur"
  shows "\<exists>lb'. flush_leaf_block lb = Some lb' \<and>
    leaf_inv lb' (if cur = [] then finished else finished @ [cur]) []"
proof (cases "cur = []")
  case True
  then show ?thesis using inv by (simp add: flush_leaf_block_def leaf_inv_def)
next
  case False
  let ?b = "(lb_block lb)\<lparr>LTB_Directory := (LTB_Directory (lb_block lb))[160 := word_of_nat (length cur)]\<rparr>"
  have w: "leaf_written (lb_block lb) cur" and ft: "lb_first_term lb = LTE_Term (hd cur)"
    using inv False by (auto simp: leaf_inv_def)
  have hd_wf: "leaf_entry_wf (hd cur)" using w False by (auto simp: leaf_written_def)
  then obtain h where h: "HeadTermEntry_new (lb_first_term lb) (word_of_nat (length (lb_blocks lb))) = Some h"
    by (auto simp: HeadTermEntry_new_def leaf_entry_wf_def ft)
  have valid: "utf8_valid (lb_first_term lb)" using hd_wf by (simp add: ft leaf_entry_wf_def)
  note first = first_term_new [OF h valid]
  have "length cur \<le> 160" "length (LTB_Directory (lb_block lb)) = 161"
    using w by (simp_all add: leaf_written_def leaf_block_wf_def size_consts)
  then have "leaf_done ?b cur"
    using w by (auto simp: leaf_done_def leaf_written_def leaf_block_wf_def unat_of_nat)
  then show ?thesis
    using inv False h first ft
    by (auto simp: flush_leaf_block_def leaf_inv_def Let_def size_consts nth_append leaf_written_Nil
        entry_offset_def less_Suc_eq head_entry_wf_def)
qed

lemma leaf_inv_write:
  assumes inv: "leaf_inv lb finished cur" and e: "leaf_entry_wf e"
    and room: "length cur < 160" "lb_write_offset lb + lte_byte_len e \<le> 3774"
  shows "leaf_inv ((if lb_entry_count lb = 0 then lb\<lparr>lb_first_term := LTE_Term e\<rparr> else lb)
      \<lparr>lb_block := WriteLeafEntry (lb_block lb) (lb_entry_count lb) (lb_write_offset lb) e,
       lb_write_offset := lb_write_offset lb + lte_byte_len e,
       lb_entry_count := lb_entry_count lb + 1\<rparr>) finished (cur @ [e])"
  using inv leaf_written_snoc [of "lb_block lb" cur e] e room
  by (auto simp: leaf_inv_def)

lemma add_leaf_entry_inv:
  assumes inv: "leaf_inv lb finished cur" and e: "leaf_entry_wf e"
  shows "\<exists>lb' finished' cur'. add_leaf_entry e lb = Some lb' \<and> leaf_inv lb' finished' cur' \<and>
    concat finished' @ cur' = concat finished @ cur @ [e]"
proof -
  let ?full = "lb_entry_count lb > 0 \<and> (lb_entry_count lb \<ge> LEAF_TERM_DIRECTORY_COUNT - 1 \<or>
            lb_write_offset lb + lte_byte_len e > PAGE_SIZE - LEAF_TERM_DATA_OFFSET)"
  obtain lb1 fin1 cur1 where lb1: "(if ?full then flush_leaf_block lb else Some lb) = Some lb1"
    "leaf_inv lb1 fin1 cur1" "concat fin1 @ cur1 = concat finished @ cur"
    "length cur1 < 160" "lb_write_offset lb1 + lte_byte_len e \<le> 3774"
  proof (cases ?full)
    case True
    from flush_leaf_block_inv [OF inv] obtain lb1 where
      f: "flush_leaf_block lb = Some lb1" "leaf_inv lb1 (if cur = [] then finished else finished @ [cur]) []"
      by blast
    then have "lb_write_offset lb1 = 0" by (simp add: leaf_inv_def entry_offset_def)
    moreover have "lte_byte_len e \<le> 3774"
      using e by (simp add: lte_byte_len_def leaf_entry_wf_def size_consts)
    ultimately show ?thesis
      using that [of lb1 _ "[]"] f True by (auto split: if_splits)
  next
    case False
    have small: "lte_byte_len e \<le> 3774"
      using e by (simp add: lte_byte_len_def leaf_entry_wf_def size_consts)
    have "lb_entry_count lb = length cur" "lb_write_offset lb = entry_offset cur (length cur)"
      using inv by (auto simp: leaf_inv_def)
    then have "length cur < 160 \<and> lb_write_offset lb + lte_byte_len e \<le> 3774"
      using False small by (cases cur) (auto simp: size_consts entry_offset_def)
    then show ?thesis using that [of lb finished cur] inv False by auto
  qed
  define lb2 where "lb2 = (if lb_entry_count lb1 = 0 then lb1\<lparr>lb_first_term := LTE_Term e\<rparr> else lb1)
      \<lparr>lb_block := WriteLeafEntry (lb_block lb1) (lb_entry_count lb1) (lb_write_offset lb1) e,
       lb_write_offset := lb_write_offset lb1 + lte_byte_len e,
       lb_entry_count := lb_entry_count lb1 + 1\<rparr>"
  have "add_leaf_entry e lb = Some lb2"
    unfolding add_leaf_entry_def lb1(1) by (simp add: Let_def lb2_def)
  moreover have "leaf_inv lb2 fin1 (cur1 @ [e])"
    unfolding lb2_def by (rule leaf_inv_write [OF lb1(2) e lb1(4,5)])
  moreover have "concat fin1 @ cur1 @ [e] = concat finished @ cur @ [e]"
    using lb1(3) by (metis append.assoc)
  ultimately show ?thesis by blast
qed

subsection \<open>The term loop\<close>

definition kept :: "rstr \<times> PostingList \<Rightarrow> bool" where
  "kept = (\<lambda>(key, pl). length key \<le> HEAD_TERM_KEY_MAX \<and> entries pl \<noteq> [])"

definition entry_for :: "(nat \<Rightarrow> rat) \<Rightarrow> index_build \<Rightarrow> rstr \<times> PostingList \<Rightarrow> LeafTermEntry \<Rightarrow> bool" where
  "entry_for log2_f64 ib = (\<lambda>(key, pl) e. \<exists>loc. e = leaf_entry_of key pl loc \<and>
     placed ib loc (posting_pairs log2_f64 (entries pl)))"

lemma entry_for_ext: "entry_for log2_f64 ib t e \<Longrightarrow> index_ext ib ib' \<Longrightarrow> entry_for log2_f64 ib' t e"
  by (cases t) (auto simp: entry_for_def simp del: split_paired_Ex intro: placed_ext)

lemma leaf_entry_of_wf:
  "length key \<le> HEAD_TERM_KEY_MAX \<Longrightarrow> utf8_valid key \<Longrightarrow> leaf_entry_wf (leaf_entry_of key pl loc)"
  by (cases loc) (simp add: leaf_entry_wf_def leaf_entry_of_def)

lemma posting_pairs_Nil [simp]: "posting_pairs l es = [] \<longleftrightarrow> es = []"
  by (simp add: posting_pairs_def)

lemma build_terms_inv:
  assumes "\<forall>(key, pl) \<in> set terms. utf8_valid key" and "index_wf ib" and "leaf_inv lb finished cur"
  shows "\<exists>ib' lb' finished' cur' news. build_terms log2_f64 terms (ib, lb, n) = Some (ib', lb', n + word_of_nat (length news)) \<and>
    index_wf ib' \<and> index_ext ib ib' \<and> leaf_inv lb' finished' cur' \<and>
    concat finished' @ cur' = concat finished @ cur @ news \<and>
    list_all2 (entry_for log2_f64 ib') (filter kept terms) news"
  using assms
proof (induction terms arbitrary: ib lb n finished cur)
  case Nil
  then show ?case by (intro exI [of _ ib] exI [of _ lb] exI [of _ finished] exI [of _ cur] exI [of _ "[]"]) simp
next
  case (Cons t terms)
  obtain key pl where t: "t = (key, pl)" by force
  let ?ps = "posting_pairs log2_f64 (entries pl)"
  have bytes: "get_bytes log2_f64 pl = pairs_bytes ?ps" by (simp add: get_bytes_def encode_pairs)
  have empty: "get_bytes log2_f64 pl = [] \<longleftrightarrow> entries pl = []" unfolding bytes pairs_bytes_Nil by simp
  have rest: "\<forall>(key, pl) \<in> set terms. utf8_valid key" and valid: "utf8_valid key" using Cons.prems(1) by (auto simp: t)
  show ?case
  proof (cases "kept t")
    case False
    then have "build_terms log2_f64 (t # terms) (ib, lb, n) = build_terms log2_f64 terms (ib, lb, n)"
      by (auto simp: t kept_def empty Let_def)
    then show ?thesis using Cons.IH [OF rest Cons.prems(2,3), of n] False by simp
  next
    case True
    then have len: "length key \<le> HEAD_TERM_KEY_MAX" and ne: "?ps \<noteq> []" by (auto simp: t kept_def)
    from place_posting_placed [OF ne Cons.prems(2)] obtain loc ib1 where
      p: "place_posting (get_bytes log2_f64 pl) ib = (Some loc, ib1)" "placed ib1 loc ?ps" "index_wf ib1" "index_ext ib ib1"
      unfolding bytes by blast
    let ?e = "leaf_entry_of key pl loc"
    from add_leaf_entry_inv [OF Cons.prems(3) leaf_entry_of_wf [OF len valid]] obtain lb1 fin1 cur1 where
      a: "add_leaf_entry ?e lb = Some lb1" "leaf_inv lb1 fin1 cur1" "concat fin1 @ cur1 = concat finished @ cur @ [?e]"
      by blast
    have step: "build_terms log2_f64 (t # terms) (ib, lb, n) = build_terms log2_f64 terms (ib1, lb1, n + 1)"
      using True p(1) a(1) empty by (simp add: t kept_def Let_def)
    from Cons.IH [OF rest p(3) a(2), of "n + 1"] obtain ib' lb' fin' cur' news where
      IH: "build_terms log2_f64 terms (ib1, lb1, n + 1) = Some (ib', lb', n + 1 + word_of_nat (length news))"
        "index_wf ib'" "index_ext ib1 ib'" "leaf_inv lb' fin' cur'"
        "concat fin' @ cur' = concat fin1 @ cur1 @ news"
        "list_all2 (entry_for log2_f64 ib') (filter kept terms) news"
      by blast
    have "entry_for log2_f64 ib' t ?e"
      using placed_ext [OF p(2) IH(3)] by (auto simp: entry_for_def t simp del: split_paired_Ex)
    then have "list_all2 (entry_for log2_f64 ib') (filter kept (t # terms)) (?e # news)"
      using True IH(6) by simp
    moreover have "build_terms log2_f64 (t # terms) (ib, lb, n) = Some (ib', lb', n + word_of_nat (length (?e # news)))"
      unfolding step IH(1) by (simp add: add.assoc add.commute)
    moreover have "concat fin' @ cur' = concat finished @ cur @ ?e # news"
      using IH(5) a(3) by (metis append.assoc append_Cons append_Nil)
    ultimately show ?thesis using IH(2,4) index_ext_trans [OF p(4) IH(3)] by blast
  qed
qed

subsection \<open>Where the reader finds a posting list\<close>

text \<open>
  \<open>stored_at fetch loc ps\<close>: the pairs \<open>ps\<close> lie in pages obtained with \<open>fetch\<close>, a first piece at the
  location's offset and one piece on each continuation page, whose header names the largest
  document of the piece and its length.
\<close>

fun cont_chunks :: "(u32 \<Rightarrow> bytes option) \<Rightarrow> u32 \<Rightarrow> (u64 \<times> u8) list list \<Rightarrow> bool" where
  "cont_chunks fetch seq [] = True"
| "cont_chunks fetch seq (c # cs) \<longleftrightarrow> c \<noteq> [] \<and> length (pairs_bytes c) < 2 ^ 32 \<and>
     (\<exists>page. fetch (seq + 1) = Some page \<and>
        ibch_from_bytes page = Some \<lparr>IBCH_MaxDocID = fst (last c), IBCH_DataLength = word_of_nat (length (pairs_bytes c))\<rparr> \<and>
        12 + length (pairs_bytes c) \<le> length page \<and> subslice 12 (12 + length (pairs_bytes c)) page = pairs_bytes c) \<and>
     cont_chunks fetch (seq + 1) cs"

definition stored_at :: "(u32 \<Rightarrow> bytes option) \<Rightarrow> IndexLocation \<Rightarrow> (u64 \<times> u8) list \<Rightarrow> bool" where
  "stored_at fetch loc ps \<longleftrightarrow> (\<exists>c cs. ps = c @ concat cs \<and> c \<noteq> [] \<and>
     (\<exists>page. fetch (index_block_id loc) = Some page \<and> index_offset loc + index_length loc \<le> length page \<and>
        subslice (index_offset loc) (index_offset loc + index_length loc) page = pairs_bytes c) \<and>
     unat (continuation_block_count loc) = length cs \<and> cont_chunks fetch (index_block_id loc) cs)"

definition page_list :: "bytes list \<Rightarrow> u32 \<Rightarrow> bytes option" where
  "page_list pages seq = (if unat seq < length pages then Some (pages ! unat seq) else None)"

definition final_pages :: "index_build \<Rightarrow> bytes list" where
  "final_pages ib = ib_blocks (if ib_wptr ib > 0 then flush_index_block ib else ib)"

lemma region_final:
  assumes "region_holds ib i off bs" and "bs \<noteq> []" and "index_wf ib"
  shows "i < length (final_pages ib)" and "final_pages ib ! i = page_at ib i" and "length (page_at ib i) = PAGE_SIZE"
    and "off + length bs \<le> PAGE_SIZE" and "subslice off (off + length bs) (page_at ib i) = bs"
proof -
  have i: "i \<le> length (ib_blocks ib)" "off + length bs \<le> limit_at ib i"
    and sub: "subslice off (off + length bs) (page_at ib i) = bs"
    using assms(1) by (auto simp: region_holds_def)
  have w: "i = length (ib_blocks ib) \<Longrightarrow> 0 < ib_wptr ib"
    using i(2) assms(2) by (cases bs) (auto simp: limit_at_def)
  show "i < length (final_pages ib)" "final_pages ib ! i = page_at ib i"
    using i(1) w by (cases "i = length (ib_blocks ib)",
        auto simp: final_pages_def flush_index_block_def page_at_def nth_append)+
  show "length (page_at ib i) = PAGE_SIZE"
    using i(1) assms(3) by (auto simp: page_at_def nth_append index_wf_def)
  show "off + length bs \<le> PAGE_SIZE"
    using i(2) assms(3) by (auto simp: limit_at_def index_wf_def split: if_splits)
  show "subslice off (off + length bs) (page_at ib i) = bs" by (rule sub)
qed

lemma conts_hold_chunks:
  assumes "conts_hold ib i cs" and "index_wf ib" and "length (final_pages ib) < 2 ^ 32"
  shows "cont_chunks (page_list (final_pages ib)) (word_of_nat i) cs"
  using assms
proof (induction cs arbitrary: i)
  case Nil
  then show ?case by simp
next
  case (Cons c cs)
  have h: "region_holds ib (Suc i) 0 (cont_bytes c)" "c \<noteq> []" "length (pairs_bytes c) \<le> 4084"
    using Cons.prems(1) by auto
  have "cont_bytes c \<noteq> []" by (metis append_is_Nil_conv cont_bytes_def h(2) pairs_bytes_Nil)
  note f = region_final [OF h(1) this Cons.prems(2)]
  let ?page = "page_at ib (Suc i)" and ?n = "length (pairs_bytes c)"
    and ?h = "\<lparr>IBCH_MaxDocID = fst (last c), IBCH_DataLength = word_of_nat (length (pairs_bytes c))\<rparr>"
  have seq: "(word_of_nat i :: u32) + 1 = word_of_nat (Suc i)" "unat (word_of_nat (Suc i) :: u32) = Suc i"
    using f(1) Cons.prems(3) by (simp, intro unat32_of_nat) simp
  have page: "?page = ibch_bytes ?h @ pairs_bytes c @ drop (12 + ?n) ?page"
  proof -
    have "take (12 + ?n) ?page = ibch_bytes ?h @ pairs_bytes c"
      using f(5) by (simp add: cont_bytes_def subslice_def)
    then show ?thesis by (metis append_take_drop_id append.assoc)
  qed
  have "ibch_from_bytes ?page = Some ?h" by (subst page) (rule ibch_from_bytes_append)
  moreover have "subslice 12 (12 + ?n) ?page = pairs_bytes c"
    by (subst page) (simp add: subslice_def)
  moreover have "12 + ?n \<le> length ?page" using f(3) h(3) by (simp add: PAGE_SIZE_def)
  moreover have "page_list (final_pages ib) (word_of_nat i + 1) = Some ?page"
    unfolding seq(1) page_list_def seq(2) using f(1,2) by simp
  ultimately show ?case
    using Cons.IH [of "Suc i"] Cons.prems h(2,3) unfolding cont_chunks.simps seq(1) by auto
qed

lemma unat_ucast_16: "unat (ucast (ucast (x :: u32) :: u16) :: u32) = unat x mod 65536"
  by (simp add: unsigned_ucast_eq take_bit_eq_mod unat_mod_distrib)

lemma placed_stored:
  assumes "placed ib loc ps" and "index_wf ib" and "length (final_pages ib) < 2 ^ 32"
    and small: "length (pairs_bytes ps) + 4073 < 4074 * 65536"
  shows "stored_at (page_list (final_pages ib)) (entry_location (leaf_entry_of key pl loc)) ps"
proof -
  from assms(1) obtain i off c cs where
    loc: "loc = (word_of_nat i, off, length (pairs_bytes c), word_of_nat (length cs))"
    and p: "ps = c @ concat cs" "c \<noteq> []" "off \<le> PAGE_SIZE" "4074 * length cs \<le> length (pairs_bytes ps) + 4073"
      "region_holds ib i off (pairs_bytes c)" "conts_hold ib i cs"
    unfolding placed_def by blast
  have "pairs_bytes c \<noteq> []" using p(2) unfolding pairs_bytes_Nil .
  note f = region_final [OF p(5) this assms(2)]
  have i: "unat (word_of_nat i :: u32) = i" using f(1) assms(3) by (intro unat32_of_nat) simp
  have off: "unat (word_of_nat off :: u16) = off"
    "unat (word_of_nat (length (pairs_bytes c)) :: u16) = length (pairs_bytes c)"
    using f(4) by (auto simp: PAGE_SIZE_def unat_of_nat)
  have "length cs < 65536" using p(4) small by linarith
  then have cs: "unat (ucast (ucast (word_of_nat (length cs) :: u32) :: u16) :: u32) = length cs"
    by (simp add: unat_ucast_16 unat_of_nat)
  show ?thesis
    unfolding stored_at_def
    using p(1,2) f i off cs conts_hold_chunks [OF p(6) assms(2,3)]
    by (intro exI [of _ c] exI [of _ cs])
      (simp add: entry_location_def leaf_entry_of_def loc page_list_def)
qed

lemma leaf_view_to_bytes:
  assumes "leaf_block_wf b"
  shows "leaf_view (leaf_to_bytes b) = b"
proof -
  have len: "length (LTB_Directory b) = 161" "length (LTB_Data b) = 3774"
    using assms by (simp_all add: leaf_block_wf_def size_consts)
  have dir: "map (\<lambda>i. u16_from_le (subslice (i * 2) (i * 2 + 2) (leaf_to_bytes b))) [0..<161] = LTB_Directory b"
    by (rule nth_equalityI) (simp_all add: len leaf_to_bytes_def concat_u16_slices)
  have data: "subslice LEAF_TERM_DATA_OFFSET PAGE_SIZE (leaf_to_bytes b) = LTB_Data b"
    by (simp add: leaf_to_bytes_def slice_append_right len size_consts)
  show ?thesis unfolding leaf_view_def LEAF_TERM_DIRECTORY_COUNT_def dir data by simp
qed

lemma leaf_done_holds:
  assumes "leaf_done b es"
  shows "leaf_holds (leaf_to_bytes b) es"
proof -
  have w: "leaf_written b es" "unat (LTB_Directory b ! 160) = length es"
    using assms by (auto simp: leaf_done_def)
  have cnt: "entry_count b = length es"
    using w by (simp add: entry_count_def leaf_written_def size_consts)
  have "leaf_entry b i = Some (es ! i)" if "i < length es" for i
    using w(1) that by (intro leaf_entry_at [where offset = "entry_offset es i"]) (auto simp: cnt leaf_written_def)
  then show ?thesis
    using w(1) by (simp add: leaf_holds_def leaf_view_to_bytes leaf_written_def cnt)
qed

lemma leaf_done_decodes:
  assumes "leaf_done b es"
  shows "leaf_from_bytes (leaf_to_bytes b) = Some b"
proof (rule leaf_from_to_bytes)
  have w: "leaf_written b es" "unat (LTB_Directory b ! 160) = length es"
    using assms by (auto simp: leaf_done_def)
  then show wf: "leaf_block_wf b" and "unat (LTB_Directory b ! 160) \<le> 160"
    by (auto simp: leaf_written_def)
  have "leaf_holds (leaf_to_bytes b) es" using assms by (rule leaf_done_holds)
  then have "entry_count b = length es \<and> (\<forall>i < length es. leaf_entry b i = Some (es ! i))"
    by (simp add: leaf_holds_def leaf_view_to_bytes [OF wf])
  then show "\<forall>i < entry_count b. leaf_entry b i \<noteq> None" by simp
qed

subsection \<open>Properties of the builder\<close>

text \<open>
  A store the builder can lay out: keys are Rust strings, and no posting list needs more than
  65535 continuation pages (the entry's counter has 16 bits).
\<close>

definition store_buildable :: "(nat \<Rightarrow> rat) \<Rightarrow> PostingStore \<Rightarrow> bool" where
  "store_buildable log2_f64 s \<longleftrightarrow> store_wf s \<and> (\<forall>(key, pl) \<in> set (m_Postings s). utf8_valid key \<and>
     length (get_bytes log2_f64 pl) + 4073 < 4074 * 65536)"

definition entry_stored :: "(nat \<Rightarrow> rat) \<Rightarrow> bytes list \<Rightarrow> rstr \<times> PostingList \<Rightarrow> LeafTermEntry \<Rightarrow> bool" where
  "entry_stored log2_f64 pages t e \<longleftrightarrow> LTE_Term e = fst t \<and> LTE_DocFreq e = doc_freq (snd t) \<and>
     stored_at (page_list pages) (entry_location e) (posting_pairs log2_f64 (entries (snd t)))"

definition built_ok :: "(nat \<Rightarrow> rat) \<Rightarrow> PostingStore \<Rightarrow> BuildBlocksResult \<Rightarrow> LeafTermEntry list list \<Rightarrow> bool" where
  "built_ok log2_f64 s r blocks \<longleftrightarrow>
     length (BBR_LeafTermBlocks r) = length blocks \<and>
     (\<forall>i < length blocks. leaf_holds (leaf_to_bytes (BBR_LeafTermBlocks r ! i)) (blocks ! i)) \<and>
     dict_ok (BBR_HeadTermEntries r) blocks \<and>
     list_all2 (entry_stored log2_f64 (BBR_IndexBlocks r)) (filter kept (sort_key fst (m_Postings s))) (concat blocks) \<and>
     BBR_TermMphfDisplacements r = [] \<and> BBR_TermMphfEntryPages r = [] \<and>
     (\<forall>p \<in> set (BBR_IndexBlocks r). length p = PAGE_SIZE) \<and> (\<forall>h \<in> set (BBR_HeadTermEntries r). head_entry_wf h) \<and>
     (\<forall>b \<in> set (BBR_LeafTermBlocks r). leaf_from_bytes (leaf_to_bytes b) = Some b)"

definition built_fits :: "BuildBlocksResult \<Rightarrow> bool" where
  "built_fits r \<longleftrightarrow> length (BBR_IndexBlocks r) < 2 ^ 32 \<and> length (BBR_LeafTermBlocks r) < 2 ^ 32"

lemma ascending_kept:
  assumes "distinct (map fst (m_Postings s))"
  shows "ascending (map fst (filter kept (sort_key fst (m_Postings s))))"
proof -
  have "distinct (map fst (sort_key fst (m_Postings s)))"
    using assms by (simp add: distinct_map)
  then have "ascending (map fst (sort_key fst (m_Postings s)))"
    by (simp add: strict_sorted_iff)
  then show ?thesis unfolding sorted_wrt_map by (rule sorted_wrt_filter)
qed

lemma entry_for_built:
  assumes "entry_for log2_f64 ib t e" and "index_wf ib" and "length (final_pages ib) < 2 ^ 32"
    and "length (get_bytes log2_f64 (snd t)) + 4073 < 4074 * 65536"
  shows "entry_stored log2_f64 (final_pages ib) t e"
proof -
  obtain loc where e: "e = leaf_entry_of (fst t) (snd t) loc" and p: "placed ib loc (posting_pairs log2_f64 (entries (snd t)))"
    using assms(1) by (cases t) (auto simp: entry_for_def simp del: split_paired_Ex)
  have "stored_at (page_list (final_pages ib)) (entry_location e) (posting_pairs log2_f64 (entries (snd t)))"
    unfolding e using assms(4) by (intro placed_stored [OF p assms(2,3)]) (simp add: get_bytes_def encode_pairs)
  moreover have "LTE_Term e = fst t" "LTE_DocFreq e = doc_freq (snd t)"
    by (cases loc, simp add: e leaf_entry_of_def)+
  ultimately show ?thesis by (simp add: entry_stored_def)
qed

text \<open>What makes a result an index of the store, whoever laid the pages out.\<close>

lemma built_okI:
  assumes inv: "leaf_inv lb blocks []" and fits: "built_fits r" and dist: "distinct (map fst (m_Postings s))"
    and all: "list_all2 (entry_stored log2_f64 (BBR_IndexBlocks r)) (filter kept (sort_key fst (m_Postings s))) (concat blocks)"
    and pages: "\<forall>p \<in> set (BBR_IndexBlocks r). length p = PAGE_SIZE"
    and parts: "BBR_HeadTermEntries r = lb_heads lb" "BBR_LeafTermBlocks r = lb_blocks lb"
      "BBR_TermMphfDisplacements r = []" "BBR_TermMphfEntryPages r = []"
  shows "built_ok log2_f64 s r blocks"
proof -
  let ?terms = "sort_key fst (m_Postings s)"
  have terms: "map LTE_Term (concat blocks) = map fst (filter kept ?terms)"
    using all by (induction rule: list_all2_induct) (auto simp: entry_stored_def)
  have "ascending (map LTE_Term (concat blocks))" unfolding terms using dist by (rule ascending_kept)
  moreover have "\<forall>e \<in> set (concat blocks). length (LTE_Term e) \<le> HEAD_TERM_KEY_MAX"
  proof
    fix e assume "e \<in> set (concat blocks)"
    then have "LTE_Term e \<in> set (map fst (filter kept ?terms))" unfolding terms [symmetric] by simp
    then show "length (LTE_Term e) \<le> HEAD_TERM_KEY_MAX" by (auto simp: kept_def)
  qed
  ultimately have "dict_ok (BBR_HeadTermEntries r) blocks"
    using inv fits parts by (simp add: dict_ok_def leaf_inv_def built_fits_def)
  moreover have "leaf_holds (leaf_to_bytes (BBR_LeafTermBlocks r ! i)) (blocks ! i)" if "i < length blocks" for i
    using inv that parts by (intro leaf_done_holds) (simp add: leaf_inv_def)
  moreover have "leaf_from_bytes (leaf_to_bytes b) = Some b" if "b \<in> set (BBR_LeafTermBlocks r)" for b
    using that inv parts by (auto simp: in_set_conv_nth leaf_inv_def intro: leaf_done_decodes)
  moreover have "head_entry_wf h" if "h \<in> set (BBR_HeadTermEntries r)" for h
    using that inv parts by (auto simp: in_set_conv_nth leaf_inv_def)
  ultimately show ?thesis
    using inv all pages parts by (simp add: built_ok_def leaf_inv_def)
qed

lemma BuildBlocks_built:
  assumes ok: "store_buildable log2_f64 s"
  shows "\<exists>r. BuildBlocks log2_f64 s = Some r \<and> (built_fits r \<longrightarrow> (\<exists>blocks. built_ok log2_f64 s r blocks))"
proof -
  let ?terms = "sort_key fst (m_Postings s)"
  have wf: "index_wf index_build_new" by (simp add: index_wf_def index_build_new_def)
  have valid: "\<forall>(key, pl) \<in> set ?terms. utf8_valid key"
    using ok by (auto simp: store_buildable_def)
  from build_terms_inv [OF valid wf leaf_inv_new, of log2_f64 0] obtain ib lb finished cur news where
    b: "build_terms log2_f64 ?terms (index_build_new, leaf_build_new, 0) = Some (ib, lb, word_of_nat (length news))"
      "index_wf ib" "leaf_inv lb finished cur" "concat finished @ cur = news"
      "list_all2 (entry_for log2_f64 ib) (filter kept ?terms) news"
    unfolding append_Nil concat.simps add_0 by blast
  from flush_leaf_block_inv [OF b(3)] obtain lb' where
    f: "flush_leaf_block lb = Some lb'" "leaf_inv lb' (if cur = [] then finished else finished @ [cur]) []" by blast
  define blocks where "blocks = (if cur = [] then finished else finished @ [cur])"
  have news: "concat blocks = news" using b(4) by (auto simp: blocks_def)
  define r where "r = \<lparr>BBR_IndexBlocks = final_pages ib, BBR_HeadTermEntries = lb_heads lb',
                  BBR_LeafTermBlocks = lb_blocks lb', BBR_TermMphfHeader = TermMphfHeader_zeroed,
                  BBR_TermMphfDisplacements = [], BBR_TermMphfEntryPages = [],
                  BBR_TotalTerms = word_of_nat (length news)\<rparr>"
  have build: "BuildBlocks log2_f64 s = Some r"
    using b(1) f(1) by (simp add: BuildBlocks_def r_def final_pages_def)
  have "built_ok log2_f64 s r blocks" if fits: "built_fits r"
  proof -
    have inv: "leaf_inv lb' blocks []" using f(2) by (simp add: blocks_def)
    have pages: "length (final_pages ib) < 2 ^ 32" using fits by (simp add: built_fits_def r_def)
    have all: "list_all2 (entry_stored log2_f64 (BBR_IndexBlocks r)) (filter kept ?terms) (concat blocks)"
    proof (rule list.rel_mono_strong [OF b(5) [folded news]])
      fix t e assume t: "t \<in> set (filter kept ?terms)" "entry_for log2_f64 ib t e"
      have "length (get_bytes log2_f64 (snd t)) + 4073 < 4074 * 65536"
        using ok t(1) by (auto simp: store_buildable_def)
      from entry_for_built [OF t(2) b(2) pages this] show "entry_stored log2_f64 (BBR_IndexBlocks r) t e"
        by (simp add: r_def)
    qed
    moreover have "\<forall>p \<in> set (BBR_IndexBlocks r). length p = PAGE_SIZE"
      using b(2) by (auto simp: r_def final_pages_def flush_index_block_def index_wf_def)
    ultimately show ?thesis
      using inv fits ok by (intro built_okI) (simp_all add: r_def store_buildable_def store_wf_def)
  qed
  with build show ?thesis by blast
qed

text \<open>
  The table \<open>IndexContext\<close> installs after a build: everything resident in memory. A perfect hash is
  installed when the result has one; \<open>BuildBlocks\<close> never makes one.
\<close>

definition built_table :: "BuildBlocksResult \<Rightarrow> IndexBlockTable" where
  "built_table r =
     (let t = SetHeadTermEntries (BBR_HeadTermEntries r)
                (SetBlockMemory (Some (BBR_IndexBlocks r)) (Some (map leaf_to_bytes (BBR_LeafTermBlocks r)))
                   IndexBlockTable_new)
      in if BBR_TermMphfDisplacements r \<noteq> [] \<and> BBR_TermMphfEntryPages r \<noteq> [] then
           SetTermMphf (BBR_TermMphfHeader r) (BBR_TermMphfDisplacements r) (BBR_TermMphfEntryPages r) t
         else t)"

definition leaf_fetch :: "IndexBlockTable \<Rightarrow> BlockAccessCounters \<Rightarrow> u32 \<Rightarrow> bytes option" where
  "leaf_fetch t c = fetch_block None (m_LeafTermPool t, c)"

definition index_fetch :: "IndexBlockTable \<Rightarrow> BlockAccessCounters \<Rightarrow> u32 \<Rightarrow> bytes option" where
  "index_fetch t c = fetch_block None (m_IndexPool t, c)"

lemma page_list_memory:
  assumes "length pages < 2 ^ 32"
  shows "fetch_block None (SetPoolMemory (Some pages), c) = page_list pages"
proof
  fix seq
  have "source_memory_ok (pages, c)" using assms by (simp add: source_memory_ok_def)
  note m = memory.fetch_page [OF this] memory.fetch_beyond [OF this]
  have "unat (word_of_nat (length pages) :: u32) = length pages" using assms by (rule unat32_of_nat)
  then show "fetch_block None (SetPoolMemory (Some pages), c) seq = page_list pages seq"
    using m [of seq] by (cases "seq < word_of_nat (length pages)") (auto simp: page_list_def word_less_nat_alt)
qed

lemma built_table_parts [simp]:
  "m_IndexPool (built_table r) = SetPoolMemory (Some (BBR_IndexBlocks r))"
  "m_LeafTermPool (built_table r) = SetPoolMemory (Some (map leaf_to_bytes (BBR_LeafTermBlocks r)))"
  "m_HeadTermEntries (built_table r) = BBR_HeadTermEntries r"
  "m_HeadTermEntryCount (built_table r) = word_of_nat (min (length (BBR_HeadTermEntries r)) (2 ^ 32 - 1))"
  by (simp_all add: built_table_def SetHeadTermEntries_def SetBlockMemory_def SetTermMphf_def ClearTermMphf_def Let_def)

lemma built_table_plain: "built_ok log2_f64 s r blocks \<Longrightarrow> \<not> HasTermMphf (built_table r)"
  by (simp add: built_ok_def HasTermMphf_def built_table_def SetHeadTermEntries_def SetBlockMemory_def
      IndexBlockTable_new_def TermMphfHeader_default_def)

lemma built_table_lookup:
  assumes ok: "built_ok log2_f64 s r blocks" and fits: "built_fits r" and key: "0 \<notin> set key"
  shows "FindTermData (leaf_fetch (built_table r) c) (built_table r) key =
    map_option entry_location (dict_entries blocks key)"
proof -
  let ?t = "built_table r" and ?pages = "map leaf_to_bytes (BBR_LeafTermBlocks r)"
  have len: "length ?pages = length blocks" "length blocks < 2 ^ 32"
    using ok fits by (auto simp: built_ok_def built_fits_def)
  have dict: "dict_ok (m_HeadTermEntries ?t) blocks" and hl: "length (BBR_HeadTermEntries r) = length blocks"
    using ok by (auto simp: built_ok_def dict_ok_def)
  have cnt: "unat (m_HeadTermEntryCount ?t) = length blocks"
  proof -
    have "min (length blocks) (2 ^ 32 - 1) = length blocks" using len(2) by simp
    then show ?thesis
      using len(2) hl by (simp add: unat32_of_nat)
  qed
  have src: "source_memory_ok (?pages, c)" using len by (simp add: source_memory_ok_def)
  have "\<forall>i < length blocks. leaf_holds (?pages ! unat (word_of_nat i :: u32)) (blocks ! i)"
    using ok len(2) by (auto simp: built_ok_def unat32_of_nat)
  then have "FindTermDataHeadLeaf (leaf_fetch ?t c) ?t key = map_option entry_location (dict_entries blocks key)"
    using memory.FindTermDataHeadLeaf_source [OF src dict cnt, of key] len
    by (simp add: leaf_fetch_def unat32_of_nat)
  then show ?thesis using FindTermData_plain [OF built_table_plain [OF ok] key] by simp
qed

lemma dict_entries_built:
  assumes ok: "built_ok log2_f64 s r blocks" and wf: "store_wf s"
  shows "case map_of (filter kept (m_Postings s)) key of
      None \<Rightarrow> dict_entries blocks key = None
    | Some pl \<Rightarrow> \<exists>e. dict_entries blocks key = Some e \<and> entry_stored log2_f64 (BBR_IndexBlocks r) (key, pl) e"
proof -
  let ?terms = "filter kept (sort_key fst (m_Postings s))"
  have all: "list_all2 (entry_stored log2_f64 (BBR_IndexBlocks r)) ?terms (concat blocks)"
    using ok by (simp add: built_ok_def)
  have dist: "distinct (map fst ?terms)"
    using wf by (auto simp: store_wf_def distinct_map inj_on_def)
  have "distinct (map fst (filter kept (m_Postings s)))"
    using wf by (auto simp: store_wf_def distinct_map inj_on_def)
  then have same: "map_of (filter kept (m_Postings s)) = map_of ?terms"
    using dist by (intro map_of_inject_set [THEN iffD2]) auto
  have "case map_of ts key of
      None \<Rightarrow> List.find (\<lambda>e. LTE_Term e = key) es = None
    | Some pl \<Rightarrow> \<exists>e. List.find (\<lambda>e. LTE_Term e = key) es = Some e \<and> entry_stored log2_f64 (BBR_IndexBlocks r) (key, pl) e"
    if "list_all2 (entry_stored log2_f64 (BBR_IndexBlocks r)) ts es" for ts es
    using that by (induction rule: list_all2_induct)
      (auto simp: entry_stored_def split: option.splits if_splits)
  from this [OF all] show ?thesis unfolding same dict_entries_def .
qed

subsection \<open>A small index\<close>

definition demo_key :: rstr where "demo_key = [0x61, 0x42]"

definition demo_list :: PostingList where
  "demo_list = \<lparr>entries = [\<lparr>ie_doc_id = 5, ie_term_frequency = 1\<rparr>]\<rparr>"

definition demo_store :: PostingStore where
  "demo_store = AddPosting demo_key 5 1 PostingStore_new"

abbreviation demo_log2 :: "nat \<Rightarrow> rat" where
  "demo_log2 \<equiv> (\<lambda>n. of_nat n)"

lemma demo_store_postings: "m_Postings demo_store = [(demo_key, demo_list)]"
  by (simp add: demo_store_def demo_list_def AddPosting_def PostingStore_new_def entry_or_def PostingList_default_def)

lemma demo_bytes: "get_bytes demo_log2 demo_list = [5, 32]"
proof -
  have "\<lfloor>65 / 2 :: rat\<rfloor> = 32" by (simp add: floor_eq_iff)
  then show ?thesis
    by (simp add: get_bytes_def encode_def encode_entry_def demo_list_def vb_write.simps [of 5]
        tf8_encode_def round_half_away_def)
qed

lemma demo_buildable: "store_buildable demo_log2 demo_store"
proof -
  have "store_wf demo_store"
    using store_wf_AddPosting [OF store_wf_new] by (simp add: demo_store_def)
  then show ?thesis
    using demo_bytes by (simp add: store_buildable_def demo_store_postings demo_key_def)
qed

lemma demo_leaf:
  "\<exists>lb. add_leaf_entry (leaf_entry_of demo_key demo_list (0, 0, 2, 0)) leaf_build_new = Some lb \<and>
     lb_entry_count lb = 1 \<and> lb_blocks lb = [] \<and> lb_first_term lb = demo_key"
  by (simp add: add_leaf_entry_def leaf_build_new_def leaf_entry_of_def Let_def)

lemma demo_built:
  "\<exists>r. BuildBlocks demo_log2 demo_store = Some r \<and> length (BBR_IndexBlocks r) = 1 \<and> length (BBR_LeafTermBlocks r) = 1"
proof -
  have place: "place_posting [5, 32] index_build_new = (Some (0, 0, 2, 0), write_bytes [5, 32] index_build_new)"
    by (simp add: place_posting_def index_build_new_def PostingPrefixBytes_def prefix_loop.simps
        ReadVbcPairEnd_def vb_skip.simps PAGE_SIZE_def)
  from demo_leaf obtain lb where lb: "add_leaf_entry (leaf_entry_of demo_key demo_list (0, 0, 2, 0)) leaf_build_new = Some lb"
    "lb_entry_count lb = 1" "lb_blocks lb = []" "lb_first_term lb = demo_key" by blast
  have short: "\<not> HEAD_TERM_KEY_MAX < length demo_key" by (simp add: demo_key_def HEAD_TERM_KEY_MAX_def)
  have "build_terms demo_log2 [(demo_key, demo_list)] (index_build_new, leaf_build_new, 0) =
      Some (write_bytes [5, 32] index_build_new, lb, 1)"
    using short lb(1) by (simp add: demo_bytes place)
  then show ?thesis
    using lb(2-4) short
    by (simp add: BuildBlocks_def demo_store_postings flush_leaf_block_def HeadTermEntry_new_def Let_def
        write_bytes_def index_build_new_def flush_index_block_def)
qed

definition one_page_pool :: "bytes \<Rightarrow> BlockCacheState" where
  "one_page_pool page = \<lparr>BCP_Pages = Some [page], BCP_BaseOffset = 0, BCP_TotalBlockCount = 1,
     BCP_SlotCount = 1, BCP_EvictSlot = 1, BCP_LogicTable = Some [0],
     BCP_SlotTable = Some [\<lparr>BlockID = 0, Ref = 0, Loading = False\<rparr>]\<rparr>"

lemma one_page_pool_ok: "source_file_ok (\<lambda>b. (True, page), one_page_pool page, c)"
proof -
  let ?f = "(\<lambda>b. (True, page), one_page_pool page, c) :: file_source"
  have "Init_pool (Some True) (\<lambda>n. Some (map (\<lambda>i. page) [0..<n])) 0 1 1 = (None, one_page_pool page)"
    by (simp add: Init_pool_def one_page_pool_def IndexSlotEntry_default_def BlockCacheState_new_def Let_def)
  then have "pool_wf (disk_of ?f) [] [] (one_page_pool page)"
    by (rule Init_pool_wf [rotated]) (simp add: honest_window_def disk_of_def)
  moreover have "can_serve seq (one_page_pool page)" if "seq < 1" for seq
    using that by (simp add: can_serve_def one_page_pool_def word_less_nat_alt)
  ultimately show ?thesis
    unfolding source_file_ok_def by (intro conjI exI [of _ "[]"]) (auto simp: one_page_pool_def)
qed

theorem FindTermData_file_exact_witness:
  "\<exists>r loc. BuildBlocks demo_log2 demo_store = Some r \<and>
     FindTermData (fetch_block (Some (\<lambda>b. (True, leaf_to_bytes (BBR_LeafTermBlocks r ! 0))))
         (one_page_pool (leaf_to_bytes (BBR_LeafTermBlocks r ! 0)), counters0)) (built_table r) demo_key = Some loc \<and>
     loc_doc_freq loc = 1"
proof -
  from demo_built obtain r where r: "BuildBlocks demo_log2 demo_store = Some r"
    "length (BBR_IndexBlocks r) = 1" "length (BBR_LeafTermBlocks r) = 1" by blast
  then have fits: "built_fits r" by (simp add: built_fits_def)
  obtain blocks where ok: "built_ok demo_log2 demo_store r blocks"
    using BuildBlocks_built [OF demo_buildable] r(1) fits by auto
  have n: "length blocks = 1" using ok r(3) by (simp add: built_ok_def)
  let ?page = "leaf_to_bytes (BBR_LeafTermBlocks r ! 0)"
  let ?f = "(\<lambda>b. (True, ?page), one_page_pool ?page, counters0) :: file_source"
  have key: "0 \<notin> set demo_key" by (simp add: demo_key_def)
  have hd: "dict_ok (m_HeadTermEntries (built_table r)) blocks" "unat (m_HeadTermEntryCount (built_table r)) = length blocks"
    using ok n by (auto simp: built_ok_def dict_ok_def)
  have "FindTermData (fetch_block (Some (fst ?f)) (snd ?f)) (built_table r) demo_key =
      map_option entry_location (dict_entries blocks demo_key)"
    using ok n
    by (intro FindTermData_file_exact [OF one_page_pool_ok built_table_plain [OF ok] key hd])
      (auto simp: one_page_pool_def built_ok_def disk_of_def)
  moreover have "\<exists>e. dict_entries blocks demo_key = Some e \<and> LTE_DocFreq e = 1"
    using dict_entries_built [OF ok, of demo_key] demo_buildable
    by (auto simp: store_buildable_def demo_store_postings kept_def demo_list_def demo_key_def
        HEAD_TERM_KEY_MAX_def entry_stored_def doc_freq_def)
  ultimately show ?thesis using r(1) by (auto simp: entry_location_def)
qed

end
