(* ===== verification/AdvancedReader.thy ===== *)
theory AdvancedReader
  imports BlockBuilder
begin

text \<open>
  \<open>AdvancedIndexReader\<close> (\<open>IndexAccess/AdvancedIndexReader.rs\<close>): one (term, stream) posting list read
  through the decoder, page after page. \<open>fetch\<close> is \<open>GetBlock\<close> on the index pool. The BM25 factors
  (\<open>m_Idf\<close> and the two length factors) are floating point and left out; of the two assertions in
  \<open>Open\<close> the second is about such a factor and is the argument \<open>avg_positive\<close>.
\<close>

subsection \<open>Source masks\<close>

definition NO_MORE_DOCS :: u64 where "NO_MORE_DOCS = 0xFFFFFFFFFFFFFFFF"
definition READER_DOCID_SOURCE_SHIFT :: nat where "READER_DOCID_SOURCE_SHIFT = 59"
definition READER_DOCID_VALUE_MASK :: u64 where
  "READER_DOCID_VALUE_MASK = push_bit READER_DOCID_SOURCE_SHIFT 1 - 1"
definition READER_SOURCE_ANCHOR :: u8 where "READER_SOURCE_ANCHOR = 1"
definition READER_SOURCE_URL :: u8 where "READER_SOURCE_URL = 2"
definition READER_SOURCE_TITLE :: u8 where "READER_SOURCE_TITLE = 4"
definition READER_SOURCE_BODY :: u8 where "READER_SOURCE_BODY = 8"
definition READER_SOURCE_VECTOR :: u8 where "READER_SOURCE_VECTOR = 16"

definition ReaderDocumentIDValue :: "u64 \<Rightarrow> u64" where
  "ReaderDocumentIDValue docId = docId AND READER_DOCID_VALUE_MASK"

definition ReaderDocumentIDSourceMask :: "u64 \<Rightarrow> u8" where
  "ReaderDocumentIDSourceMask docId = ucast (drop_bit READER_DOCID_SOURCE_SHIFT docId)"

definition MakeReaderDocumentID :: "u64 \<Rightarrow> u8 \<Rightarrow> u64" where
  "MakeReaderDocumentID docId sourceMask =
     push_bit READER_DOCID_SOURCE_SHIFT (ucast sourceMask) OR (docId AND READER_DOCID_VALUE_MASK)"

text \<open>
  The stream letter is the last character of a key. The five letters are ASCII, and no other
  character ends in one of their bytes, so the last byte decides.
\<close>

definition ReaderSourceMaskForStream :: "u8 \<Rightarrow> u8" where
  "ReaderSourceMaskForStream stream =
     (if stream = 0x41 then READER_SOURCE_ANCHOR
      else if stream = 0x55 then READER_SOURCE_URL
      else if stream = 0x54 then READER_SOURCE_TITLE
      else if stream = 0x42 then READER_SOURCE_BODY
      else if stream = 0x56 then READER_SOURCE_VECTOR
      else 0)"

lemma MakeReaderDocumentID_parts:
  "ReaderDocumentIDValue (MakeReaderDocumentID d m) = d AND READER_DOCID_VALUE_MASK"
  "ReaderDocumentIDSourceMask (MakeReaderDocumentID d m) = m AND 0x1F"
proof -
  have vmask: "READER_DOCID_VALUE_MASK = mask 59"
    by (simp add: READER_DOCID_VALUE_MASK_def READER_DOCID_SOURCE_SHIFT_def mask_eq_exp_minus_1 push_bit_eq_mult)
  have m5: "(0x1F :: u8) = mask 5" by (simp add: mask_eq_exp_minus_1)
  show "ReaderDocumentIDValue (MakeReaderDocumentID d m) = d AND READER_DOCID_VALUE_MASK"
    unfolding ReaderDocumentIDValue_def MakeReaderDocumentID_def vmask READER_DOCID_SOURCE_SHIFT_def
    by (intro bit_eqI) (auto simp: bit_simps)
  show "ReaderDocumentIDSourceMask (MakeReaderDocumentID d m) = m AND 0x1F"
    unfolding ReaderDocumentIDSourceMask_def MakeReaderDocumentID_def vmask READER_DOCID_SOURCE_SHIFT_def m5
    by (intro bit_eqI) (auto simp: bit_simps)
qed

subsection \<open>The reader\<close>

record AdvancedIndexReader =
  m_DocFreq :: u32
  m_Stream :: u8
  m_SourceMask :: u8
  m_BlockSeqNumber :: u32
  m_RemainingContinuationBlocks :: u32
  m_Decoder :: UnifiedDecoder

definition ReleaseCurrentBlock :: "AdvancedIndexReader \<Rightarrow> AdvancedIndexReader" where
  "ReleaseCurrentBlock r = r\<lparr>m_Decoder := dec_TakeBlock (m_Decoder r)\<rparr>"

definition OpenContinuation :: "bytes \<Rightarrow> AdvancedIndexReader \<Rightarrow> AdvancedIndexReader" where
  "OpenContinuation block r =
     (case ibch_from_bytes block of
        Some header \<Rightarrow> r\<lparr>m_Decoder := OpenRaw block INDEX_BLOCK_CONTINUATION_HEADER_SIZE
                            (unat (IBCH_DataLength header)) (m_Decoder r)\<rparr>
      | None \<Rightarrow> r\<lparr>m_Decoder := OpenRaw block 0 0 (m_Decoder r)\<rparr>)"

definition saturating_pred :: "u32 \<Rightarrow> u32" where
  "saturating_pred n = (if n = 0 then 0 else n - 1)"

definition LoadContinuation ::
  "(u32 \<Rightarrow> bytes option) \<Rightarrow> AdvancedIndexReader \<Rightarrow> bool \<times> AdvancedIndexReader" where
  "LoadContinuation fetch r =
     (let nextSeq = m_BlockSeqNumber r + 1; r = ReleaseCurrentBlock r
      in case fetch nextSeq of
           None \<Rightarrow> (False, r)
         | Some block \<Rightarrow>
             (let r = OpenContinuation block (r\<lparr>m_BlockSeqNumber := nextSeq\<rparr>)
              in (True, r\<lparr>m_RemainingContinuationBlocks :=
                           saturating_pred (m_RemainingContinuationBlocks r)\<rparr>)))"

definition adv_IsEnd :: "AdvancedIndexReader \<Rightarrow> bool" where
  "adv_IsEnd r = dec_IsEnd (m_Decoder r)"

lemma LoadContinuation_remaining:
  "LoadContinuation fetch r = (True, r') \<Longrightarrow>
   m_RemainingContinuationBlocks r' = saturating_pred (m_RemainingContinuationBlocks r)"
  by (auto simp: LoadContinuation_def OpenContinuation_def ReleaseCurrentBlock_def Let_def split: option.splits)

lemma saturating_pred_less: "0 < n \<Longrightarrow> unat (saturating_pred n) < unat n"
  by (simp add: saturating_pred_def unat_gt_0 unat_minus_one word_neq_0_conv)

function next_loop :: "(u32 \<Rightarrow> bytes option) \<Rightarrow> AdvancedIndexReader \<Rightarrow> AdvancedIndexReader" where
  "next_loop fetch r =
     (if adv_IsEnd r \<and> m_RemainingContinuationBlocks r > 0 then
        case LoadContinuation fetch r of
          (False, r') \<Rightarrow> r'
        | (True, r') \<Rightarrow> next_loop fetch (r'\<lparr>m_Decoder := dec_GoNext (m_Decoder r')\<rparr>)
      else r)"
  by pat_completeness auto
termination
  by (relation "measure (\<lambda>(fetch, r). unat (m_RemainingContinuationBlocks r))")
    (auto dest!: LoadContinuation_remaining [OF sym] simp: saturating_pred_less)

declare next_loop.simps [simp del]

definition close_if_done :: "AdvancedIndexReader \<Rightarrow> AdvancedIndexReader" where
  "close_if_done r =
     (if adv_IsEnd r \<and> m_RemainingContinuationBlocks r = 0
      then (ReleaseCurrentBlock r)\<lparr>m_Decoder := dec_Close (m_Decoder (ReleaseCurrentBlock r))\<rparr>
      else r)"

definition adv_GoNext :: "(u32 \<Rightarrow> bytes option) \<Rightarrow> AdvancedIndexReader \<Rightarrow> AdvancedIndexReader" where
  "adv_GoNext fetch r =
     close_if_done (next_loop fetch (r\<lparr>m_Decoder := dec_GoNext (m_Decoder r)\<rparr>))"

function seek_loop :: "(u32 \<Rightarrow> bytes option) \<Rightarrow> u64 \<Rightarrow> AdvancedIndexReader \<Rightarrow> AdvancedIndexReader" where
  "seek_loop fetch target r =
     (let r = r\<lparr>m_Decoder := dec_GoUntil target (m_Decoder r)\<rparr>
      in if \<not> adv_IsEnd r then r
         else if m_RemainingContinuationBlocks r = 0 then ReleaseCurrentBlock r
         else
           let r = ReleaseCurrentBlock r
           in case fetch (m_BlockSeqNumber r + 1) of
                None \<Rightarrow> r
              | Some block \<Rightarrow>
                  (case ibch_from_bytes block of
                     None \<Rightarrow> r
                   | Some header \<Rightarrow>
                       let r = r\<lparr>m_BlockSeqNumber := m_BlockSeqNumber r + 1,
                                 m_RemainingContinuationBlocks :=
                                   saturating_pred (m_RemainingContinuationBlocks r)\<rparr>
                       in if target > IBCH_MaxDocID header then seek_loop fetch target r
                          else
                            let r = OpenContinuation block r;
                                r = r\<lparr>m_Decoder := dec_GoNext (m_Decoder r)\<rparr>
                            in if adv_IsEnd r then ReleaseCurrentBlock r
                               else seek_loop fetch target r))"
  by pat_completeness auto
termination
  by (relation "measure (\<lambda>(fetch, target, r). unat (m_RemainingContinuationBlocks r))")
    (auto simp: ReleaseCurrentBlock_def OpenContinuation_def saturating_pred_less word_neq_0_conv
      split: option.splits)

declare seek_loop.simps [simp del]

definition adv_GoUntil :: "(u32 \<Rightarrow> bytes option) \<Rightarrow> u64 \<Rightarrow> AdvancedIndexReader \<Rightarrow> AdvancedIndexReader" where
  "adv_GoUntil fetch target r = close_if_done (seek_loop fetch target r)"

definition adv_GetDocumentID :: "AdvancedIndexReader \<Rightarrow> u64" where
  "adv_GetDocumentID r = m_CurrentDoc (m_Decoder r)"

definition adv_GetTermFreq :: "AdvancedIndexReader \<Rightarrow> u32" where
  "adv_GetTermFreq r = ucast (m_CurrentTf8 (m_Decoder r))"

definition adv_Close :: "AdvancedIndexReader \<Rightarrow> AdvancedIndexReader" where
  "adv_Close r = (ReleaseCurrentBlock r)\<lparr>m_Decoder := dec_Close (m_Decoder (ReleaseCurrentBlock r))\<rparr>"

definition adv_new :: "rstr \<Rightarrow> AdvancedIndexReader" where
  "adv_new stream_key =
     \<lparr>m_DocFreq = 0, m_Stream = (if stream_key = [] then 0x42 else last stream_key),
      m_SourceMask = (if stream_key = [] then 0 else ReaderSourceMaskForStream (last stream_key)),
      m_BlockSeqNumber = 0, m_RemainingContinuationBlocks = 0, m_Decoder = UnifiedDecoder_new\<rparr>"

definition adv_Open ::
  "(u32 \<Rightarrow> bytes option) \<Rightarrow> (u32 \<Rightarrow> bytes option) \<Rightarrow> IndexBlockTable \<Rightarrow> u64 \<Rightarrow> bool \<Rightarrow> rstr \<Rightarrow>
   AdvancedIndexReader option" where
  "adv_Open fetch_leaf fetch block_table num_documents avg_positive stream_key =
     (let reader = adv_new stream_key in
      case FindTermData fetch_leaf block_table stream_key of
        None \<Rightarrow> Some (adv_GoNext fetch reader)
      | Some location \<Rightarrow>
          if \<not> (num_documents > 0 \<and> avg_positive) then None
          else
            let reader = reader
                  \<lparr>m_BlockSeqNumber := index_block_id location,
                   m_RemainingContinuationBlocks := continuation_block_count location,
                   m_DocFreq := loc_doc_freq location\<rparr>;
                reader = (case fetch (index_block_id location) of
                   Some block \<Rightarrow> reader\<lparr>m_Decoder := OpenRaw block (index_offset location)
                                         (index_length location) (m_Decoder reader)\<rparr>
                 | None \<Rightarrow> reader)
            in Some (adv_GoNext fetch reader))"

subsection \<open>The list a reader stands on\<close>

text \<open>
  \<open>adv_at fetch r ps\<close>: the reader is on the first pair of \<open>ps\<close> and the others follow, in the open
  page and on the remaining continuation pages; with no pair left it is closed.
\<close>

definition adv_at :: "(u32 \<Rightarrow> bytes option) \<Rightarrow> AdvancedIndexReader \<Rightarrow> (u64 \<times> u8) list \<Rightarrow> bool" where
  "adv_at fetch r ps \<longleftrightarrow>
     (case ps of
        [] \<Rightarrow> adv_IsEnd r \<and> m_Block (m_Decoder r) = None \<and> m_RemainingContinuationBlocks r = 0
      | p # qs \<Rightarrow> \<not> adv_IsEnd r \<and> m_CurrentDoc (m_Decoder r) = fst p \<and> m_CurrentTf8 (m_Decoder r) = snd p \<and>
          (\<exists>c cs. qs = c @ concat cs \<and> stands_before (m_Decoder r) c \<and>
             unat (m_RemainingContinuationBlocks r) = length cs \<and> cont_chunks fetch (m_BlockSeqNumber r) cs))"

text \<open>A decoder that has run out of its page, with pages \<open>cs\<close> still to come.\<close>

definition adv_between :: "(u32 \<Rightarrow> bytes option) \<Rightarrow> AdvancedIndexReader \<Rightarrow> (u64 \<times> u8) list list \<Rightarrow> bool" where
  "adv_between fetch r cs \<longleftrightarrow> adv_IsEnd r \<and> unat (m_RemainingContinuationBlocks r) = length cs \<and>
     cont_chunks fetch (m_BlockSeqNumber r) cs"

lemma OpenContinuation_chunk:
  assumes "ibch_from_bytes page = Some \<lparr>IBCH_MaxDocID = m, IBCH_DataLength = word_of_nat (length (pairs_bytes c))\<rparr>"
    and "12 + length (pairs_bytes c) \<le> length page" and "length (pairs_bytes c) < 2 ^ 32"
    and "subslice 12 (12 + length (pairs_bytes c)) page = pairs_bytes c"
  shows "stands_before (m_Decoder (OpenContinuation page r)) c"
    and "m_BlockSeqNumber (OpenContinuation page r) = m_BlockSeqNumber r"
    and "m_RemainingContinuationBlocks (OpenContinuation page r) = m_RemainingContinuationBlocks r"
  using assms stands_before_OpenRaw [of 12 "length (pairs_bytes c)" page c]
  by (simp_all add: OpenContinuation_def unat32_of_nat size_consts)

lemma unat_saturating_pred: "unat n = Suc k \<Longrightarrow> unat (saturating_pred n) = k"
  using saturating_pred_less [of n] by (auto simp: saturating_pred_def unat_minus_one split: if_splits)

lemma DecodeNext_first:
  assumes "stands_before d (p # ps)"
  shows "\<not> dec_IsEnd (dec_GoNext d) \<and> m_CurrentDoc (dec_GoNext d) = fst p \<and>
    m_CurrentTf8 (dec_GoNext d) = snd p \<and> stands_before (dec_GoNext d) ps"
  using DecodeNext_pair [of d "fst p" "snd p" ps] assms by (simp add: dec_IsEnd_def dec_GoNext_def)

lemma close_if_done_at: "adv_between fetch r [] \<Longrightarrow> adv_at fetch (close_if_done r) []"
  by (simp add: adv_between_def adv_at_def close_if_done_def adv_IsEnd_def ReleaseCurrentBlock_def
      dec_Close_def dec_IsEnd_def unat_eq_0)

lemma close_if_done_open: "\<not> adv_IsEnd r \<Longrightarrow> close_if_done r = r"
  by (simp add: close_if_done_def)

lemma adv_at_concat_Cons:
  assumes "\<not> adv_IsEnd r" and "m_CurrentDoc (m_Decoder r) = fst p" and "m_CurrentTf8 (m_Decoder r) = snd p"
    and "stands_before (m_Decoder r) c" and "unat (m_RemainingContinuationBlocks r) = length cs"
    and "cont_chunks fetch (m_BlockSeqNumber r) cs"
  shows "adv_at fetch r (p # c @ concat cs)"
  using assms by (auto simp: adv_at_def)

lemma next_loop_between:
  assumes "adv_between fetch r cs"
  shows "adv_at fetch (close_if_done (next_loop fetch r)) (concat cs)"
proof (cases cs)
  case Nil
  with assms have "next_loop fetch r = r"
    by (subst next_loop.simps) (simp add: adv_between_def unat_eq_0)
  then show ?thesis using assms Nil close_if_done_at by simp
next
  case (Cons c cs')
  then obtain page where page: "fetch (m_BlockSeqNumber r + 1) = Some page"
    and hd: "ibch_from_bytes page = Some \<lparr>IBCH_MaxDocID = fst (last c), IBCH_DataLength = word_of_nat (length (pairs_bytes c))\<rparr>"
      "12 + length (pairs_bytes c) \<le> length page" "length (pairs_bytes c) < 2 ^ 32"
      "subslice 12 (12 + length (pairs_bytes c)) page = pairs_bytes c"
    and c: "c \<noteq> []" and rest: "cont_chunks fetch (m_BlockSeqNumber r + 1) cs'"
    using assms by (auto simp: adv_between_def)
  have n: "unat (m_RemainingContinuationBlocks r) = Suc (length cs')" and e: "adv_IsEnd r"
    using assms Cons by (auto simp: adv_between_def)
  then have pos: "m_RemainingContinuationBlocks r > 0" by (simp add: word_less_nat_alt)
  obtain p c' where pc: "c = p # c'" using c by (cases c) auto
  define r1 where "r1 = OpenContinuation page ((ReleaseCurrentBlock r)\<lparr>m_BlockSeqNumber := m_BlockSeqNumber r + 1\<rparr>)"
  note op = OpenContinuation_chunk [OF hd, of "(ReleaseCurrentBlock r)\<lparr>m_BlockSeqNumber := m_BlockSeqNumber r + 1\<rparr>", folded r1_def]
  define r2 where "r2 = r1\<lparr>m_RemainingContinuationBlocks := saturating_pred (m_RemainingContinuationBlocks r1)\<rparr>"
  define r3 where "r3 = r2\<lparr>m_Decoder := dec_GoNext (m_Decoder r2)\<rparr>"
  have load: "LoadContinuation fetch r = (True, r2)"
    using page by (simp add: LoadContinuation_def r1_def r2_def Let_def ReleaseCurrentBlock_def)
  note nx = DecodeNext_first [OF op(1) [unfolded pc]]
  have r3: "\<not> adv_IsEnd r3" "m_CurrentDoc (m_Decoder r3) = fst p" "m_CurrentTf8 (m_Decoder r3) = snd p"
    "stands_before (m_Decoder r3) c'" "unat (m_RemainingContinuationBlocks r3) = length cs'"
    "m_BlockSeqNumber r3 = m_BlockSeqNumber r + 1"
    using nx op n unat_saturating_pred [OF n]
    by (simp_all add: r3_def r2_def adv_IsEnd_def ReleaseCurrentBlock_def)
  have "next_loop fetch r = next_loop fetch r3"
    using e pos load by (subst next_loop.simps) (simp add: r3_def)
  also have "\<dots> = r3" using r3(1) by (subst next_loop.simps) simp
  finally show ?thesis
    using r3 rest by (simp add: close_if_done_open Cons pc adv_at_concat_Cons)
qed

lemma adv_GoNext_stands:
  assumes c: "stands_before (m_Decoder r) c"
    and cs: "unat (m_RemainingContinuationBlocks r) = length cs" "cont_chunks fetch (m_BlockSeqNumber r) cs"
  shows "adv_at fetch (adv_GoNext fetch r) (c @ concat cs)"
proof -
  let ?r = "r\<lparr>m_Decoder := dec_GoNext (m_Decoder r)\<rparr>"
  show ?thesis
  proof (cases c)
    case Nil
    then have "adv_between fetch ?r cs"
      using c cs DecodeNext_end [of "m_Decoder r"]
      by (simp add: adv_between_def adv_IsEnd_def dec_IsEnd_def dec_GoNext_def)
    from next_loop_between [OF this] show ?thesis using Nil by (simp add: adv_GoNext_def)
  next
    case (Cons q c')
    note nx = DecodeNext_first [OF c [unfolded Cons]]
    then have "next_loop fetch ?r = ?r" by (subst next_loop.simps) (simp add: adv_IsEnd_def)
    then show ?thesis
      using nx cs Cons by (simp add: adv_GoNext_def close_if_done_open adv_IsEnd_def adv_at_concat_Cons)
  qed
qed

lemma adv_GoNext_at: "adv_at fetch r (p # ps) \<Longrightarrow> adv_at fetch (adv_GoNext fetch r) ps"
  by (auto simp: adv_at_def intro: adv_GoNext_stands [unfolded adv_at_def])

lemma DecodeNext_no_block: "m_Block d = None \<Longrightarrow> \<not> m_HasCurrent (DecodeNext d)"
  by (simp add: DecodeNext_def)

lemma adv_GoNext_ended:
  assumes "adv_at fetch r []"
  shows "adv_at fetch (adv_GoNext fetch r) []"
proof -
  let ?r = "r\<lparr>m_Decoder := dec_GoNext (m_Decoder r)\<rparr>"
  have "adv_between fetch ?r []"
    using assms DecodeNext_no_block [of "m_Decoder r"]
    by (simp add: adv_between_def adv_at_def adv_IsEnd_def dec_IsEnd_def dec_GoNext_def)
  from next_loop_between [OF this] show ?thesis by (simp add: adv_GoNext_def)
qed

lemma until_loop_no_block: "m_Block d = None \<Longrightarrow> \<not> m_HasCurrent (until_loop t d)"
  by (subst until_loop.simps) (simp add: Let_def DecodeNext_no_block)

lemma dec_GoUntil_no_block: "m_Block d = None \<Longrightarrow> dec_IsEnd d \<Longrightarrow> dec_IsEnd (dec_GoUntil t d)"
  by (simp add: dec_GoUntil_def dec_IsEnd_def until_loop_no_block)

lemma dec_GoUntil_at:
  assumes cur: "\<not> dec_IsEnd d" "m_CurrentDoc d = fst p" "m_CurrentTf8 d = snd p" and c: "stands_before d c"
  shows "case dropWhile (\<lambda>q. fst q < t) (p # c) of
      [] \<Rightarrow> dec_IsEnd (dec_GoUntil t d)
    | q # qs \<Rightarrow> \<not> dec_IsEnd (dec_GoUntil t d) \<and> m_CurrentDoc (dec_GoUntil t d) = fst q \<and>
        m_CurrentTf8 (dec_GoUntil t d) = snd q \<and> stands_before (dec_GoUntil t d) qs"
proof (cases "fst p < t")
  case True
  then have "dec_GoUntil t d = until_loop t d" "dropWhile (\<lambda>q. fst q < t) (p # c) = dropWhile (\<lambda>q. fst q < t) c"
    using cur by (auto simp: dec_GoUntil_def)
  then show ?thesis using until_loop_stands_before [OF c, of t] by (simp only: dec_IsEnd_def not_not)
next
  case False
  then have "dropWhile (\<lambda>q. fst q < t) (p # c) = p # c" "t \<le> fst p" by auto
  moreover from this(2) have "dec_GoUntil t d = d" using cur by (simp add: dec_GoUntil_def dec_IsEnd_def)
  ultimately show ?thesis using assms by simp
qed

lemma dropWhile_append_case:
  "dropWhile P (xs @ ys) = (case dropWhile P xs of [] \<Rightarrow> dropWhile P ys | z # zs \<Rightarrow> z # zs @ ys)"
  by (induction xs) auto

lemma seek_open:
  assumes cur: "\<not> adv_IsEnd r" "m_CurrentDoc (m_Decoder r) = fst p" "m_CurrentTf8 (m_Decoder r) = snd p"
    and c: "stands_before (m_Decoder r) c" "dropWhile (\<lambda>q. fst q < t) (p # c) = q # qs"
    and cs: "unat (m_RemainingContinuationBlocks r) = length cs" "cont_chunks fetch (m_BlockSeqNumber r) cs"
  shows "adv_at fetch (seek_loop fetch t r) (q # qs @ concat cs) \<and> \<not> adv_IsEnd (seek_loop fetch t r)"
proof -
  have d: "\<not> dec_IsEnd (dec_GoUntil t (m_Decoder r))" "m_CurrentDoc (dec_GoUntil t (m_Decoder r)) = fst q"
    "m_CurrentTf8 (dec_GoUntil t (m_Decoder r)) = snd q" "stands_before (dec_GoUntil t (m_Decoder r)) qs"
    using dec_GoUntil_at [OF cur(1) [unfolded adv_IsEnd_def] cur(2,3) c(1), of t] c(2) by auto
  have "seek_loop fetch t r = r\<lparr>m_Decoder := dec_GoUntil t (m_Decoder r)\<rparr>"
    using d(1) by (subst seek_loop.simps) (simp add: adv_IsEnd_def)
  then show ?thesis using d cs by (simp add: adv_at_concat_Cons adv_IsEnd_def)
qed

lemma dropWhile_all_less_last:
  assumes "ascending (map fst c)" and "c \<noteq> []" and "fst (last c) < (t :: u64)"
  shows "dropWhile (\<lambda>q. fst q < t) c = []"
proof -
  have "fst q \<le> fst (last c)" if "q \<in> set c" for q
    using assms(1) that assms(2)
    by (induction c) (auto simp: order_less_imp_le)
  then show ?thesis using assms(3) by (auto intro: le_less_trans)
qed

lemma seek_between:
  assumes "adv_between fetch (r\<lparr>m_Decoder := dec_GoUntil t (m_Decoder r)\<rparr>) cs"
    and "ascending (map fst (concat cs))"
  shows "adv_at fetch (close_if_done (seek_loop fetch t r)) (dropWhile (\<lambda>q. fst q < t) (concat cs))"
  using assms
proof (induction cs arbitrary: r)
  case Nil
  let ?r = "r\<lparr>m_Decoder := dec_GoUntil t (m_Decoder r)\<rparr>"
  have "seek_loop fetch t r = ReleaseCurrentBlock ?r"
    using Nil(1) by (subst seek_loop.simps) (simp add: adv_between_def unat_eq_0)
  moreover have "adv_between fetch (ReleaseCurrentBlock ?r) []"
    using Nil(1) by (simp add: adv_between_def ReleaseCurrentBlock_def adv_IsEnd_def dec_IsEnd_def dec_TakeBlock_def)
  ultimately show ?case using close_if_done_at by simp
next
  case (Cons c cs)
  define r1 where "r1 = ReleaseCurrentBlock (r\<lparr>m_Decoder := dec_GoUntil t (m_Decoder r)\<rparr>)"
  have b: "adv_between fetch r1 (c # cs)" "m_Block (m_Decoder r1) = None"
    using Cons.prems(1)
    by (auto simp: r1_def adv_between_def ReleaseCurrentBlock_def adv_IsEnd_def dec_IsEnd_def dec_TakeBlock_def)
  then obtain page where page: "fetch (m_BlockSeqNumber r1 + 1) = Some page"
    and hd: "ibch_from_bytes page = Some \<lparr>IBCH_MaxDocID = fst (last c), IBCH_DataLength = word_of_nat (length (pairs_bytes c))\<rparr>"
      "12 + length (pairs_bytes c) \<le> length page" "length (pairs_bytes c) < 2 ^ 32"
      "subslice 12 (12 + length (pairs_bytes c)) page = pairs_bytes c"
    and c: "c \<noteq> []" and rest: "cont_chunks fetch (m_BlockSeqNumber r1 + 1) cs"
    by (auto simp: adv_between_def)
  have n: "unat (m_RemainingContinuationBlocks r1) = Suc (length cs)"
    using b by (simp add: adv_between_def)
  have asc: "ascending (map fst c)" "ascending (map fst (concat cs))"
    using Cons.prems(2) by (simp_all add: sorted_wrt_append)
  define r2 where "r2 = r1\<lparr>m_BlockSeqNumber := m_BlockSeqNumber r1 + 1,
     m_RemainingContinuationBlocks := saturating_pred (m_RemainingContinuationBlocks r1)\<rparr>"
  have unfold: "seek_loop fetch t r = (if t > fst (last c) then seek_loop fetch t r2
      else let r3 = OpenContinuation page r2; r3 = r3\<lparr>m_Decoder := dec_GoNext (m_Decoder r3)\<rparr>
        in if adv_IsEnd r3 then ReleaseCurrentBlock r3 else seek_loop fetch t r3)"
    using Cons.prems(1) page hd(1)
    by (subst seek_loop.simps) (auto simp: Let_def r1_def [symmetric] r2_def adv_between_def unat_eq_0)
  have r2: "unat (m_RemainingContinuationBlocks r2) = length cs" "m_BlockSeqNumber r2 = m_BlockSeqNumber r1 + 1"
    using unat_saturating_pred [OF n] by (simp_all add: r2_def)
  show ?case
  proof (cases "fst (last c) < t")
    case True
    have "dec_IsEnd (dec_GoUntil t (m_Decoder r2))"
      using b by (intro dec_GoUntil_no_block) (auto simp: r2_def adv_between_def adv_IsEnd_def)
    then have "adv_between fetch (r2\<lparr>m_Decoder := dec_GoUntil t (m_Decoder r2)\<rparr>) cs"
      using r2 rest by (simp add: adv_between_def adv_IsEnd_def)
    from Cons.IH [OF this asc(2)] show ?thesis
      using True unfold dropWhile_all_less_last [OF asc(1) c True] by (simp add: dropWhile_append)
  next
    case False
    obtain p c' where pc: "c = p # c'" using c by (cases c) auto
    define r3 where "r3 = (OpenContinuation page r2)\<lparr>m_Decoder := dec_GoNext (m_Decoder (OpenContinuation page r2))\<rparr>"
    note op = OpenContinuation_chunk [OF hd, of r2]
    note nx = DecodeNext_first [OF op(1) [unfolded pc]]
    have r3: "\<not> adv_IsEnd r3" "m_CurrentDoc (m_Decoder r3) = fst p" "m_CurrentTf8 (m_Decoder r3) = snd p"
      "stands_before (m_Decoder r3) c'" "unat (m_RemainingContinuationBlocks r3) = length cs"
      "cont_chunks fetch (m_BlockSeqNumber r3) cs"
      using nx op r2 rest by (simp_all add: r3_def adv_IsEnd_def)
    have "dropWhile (\<lambda>q. fst q < t) c \<noteq> []"
      using False c by (auto simp: dropWhile_eq_Nil_conv)
    then obtain q qs where q: "dropWhile (\<lambda>q. fst q < t) (p # c') = q # qs"
      unfolding pc by (metis neq_Nil_conv)
    from seek_open [OF r3(1-4) q r3(5,6)] have
      "adv_at fetch (seek_loop fetch t r3) (q # qs @ concat cs)" "\<not> adv_IsEnd (seek_loop fetch t r3)" by auto
    moreover have "seek_loop fetch t r = seek_loop fetch t r3"
      using unfold False r3(1) by (simp add: Let_def r3_def)
    moreover have "dropWhile (\<lambda>q. fst q < t) (c @ concat cs) = q # qs @ concat cs"
      unfolding dropWhile_append_case q [folded pc] by simp
    ultimately show ?thesis by (simp add: close_if_done_open)
  qed
qed

lemma adv_GoUntil_at:
  assumes at: "adv_at fetch r ps" and asc: "ascending (map fst ps)"
  shows "adv_at fetch (adv_GoUntil fetch t r) (dropWhile (\<lambda>q. fst q < t) ps)"
proof (cases ps)
  case Nil
  then have "adv_between fetch (r\<lparr>m_Decoder := dec_GoUntil t (m_Decoder r)\<rparr>) []"
    using at by (auto simp: adv_at_def adv_between_def adv_IsEnd_def dec_GoUntil_no_block)
  from seek_between [OF this] show ?thesis using Nil by (simp add: adv_GoUntil_def)
next
  case (Cons p qs)
  then obtain c cs where qs: "qs = c @ concat cs" and cur: "\<not> adv_IsEnd r" "m_CurrentDoc (m_Decoder r) = fst p"
      "m_CurrentTf8 (m_Decoder r) = snd p" and c: "stands_before (m_Decoder r) c"
    and cs: "unat (m_RemainingContinuationBlocks r) = length cs" "cont_chunks fetch (m_BlockSeqNumber r) cs"
    using at by (auto simp: adv_at_def)
  have split: "dropWhile (\<lambda>q. fst q < t) ps = (case dropWhile (\<lambda>q. fst q < t) (p # c) of
      [] \<Rightarrow> dropWhile (\<lambda>q. fst q < t) (concat cs) | q # qs \<Rightarrow> q # qs @ concat cs)"
    using dropWhile_append_case [of _ "p # c" "concat cs"] by (simp only: Cons qs append_Cons)
  show ?thesis
  proof (cases "dropWhile (\<lambda>q. fst q < t) (p # c)")
    case (Cons q qs)
    from seek_open [OF cur c Cons cs] show ?thesis
      unfolding split Cons adv_GoUntil_def by (simp add: close_if_done_open)
  next
    case Nil
    have "dec_IsEnd (dec_GoUntil t (m_Decoder r))"
      using dec_GoUntil_at [OF cur(1) [unfolded adv_IsEnd_def] cur(2,3) c, of t] unfolding Nil by simp
    then have "adv_between fetch (r\<lparr>m_Decoder := dec_GoUntil t (m_Decoder r)\<rparr>) cs"
      using cs by (simp add: adv_between_def adv_IsEnd_def)
    moreover have "ascending (map fst (concat cs))"
      using asc by (simp add: Cons qs sorted_wrt_append)
    ultimately show ?thesis unfolding split Nil adv_GoUntil_def using seek_between by simp
  qed
qed

subsection \<open>Opening and reading\<close>

lemma adv_Open_stored:
  assumes find: "FindTermData fetch_leaf t key = Some loc" and st: "stored_at fetch loc ps" and n: "0 < num_documents"
  shows "\<exists>r. adv_Open fetch_leaf fetch t num_documents True key = Some r \<and> adv_at fetch r ps"
proof -
  from st obtain c cs page where ps: "ps = c @ concat cs"
    and page: "fetch (index_block_id loc) = Some page" "index_offset loc + index_length loc \<le> length page"
      "subslice (index_offset loc) (index_offset loc + index_length loc) page = pairs_bytes c"
    and cs: "unat (continuation_block_count loc) = length cs" "cont_chunks fetch (index_block_id loc) cs"
    unfolding stored_at_def by blast
  let ?r = "(adv_new key)\<lparr>m_BlockSeqNumber := index_block_id loc,
    m_RemainingContinuationBlocks := continuation_block_count loc, m_DocFreq := loc_doc_freq loc\<rparr>"
  let ?r' = "?r\<lparr>m_Decoder := OpenRaw page (index_offset loc) (index_length loc) (m_Decoder ?r)\<rparr>"
  have "adv_Open fetch_leaf fetch t num_documents True key = Some (adv_GoNext fetch ?r')"
    using find n page(1) by (simp add: adv_Open_def Let_def)
  moreover have "adv_at fetch (adv_GoNext fetch ?r') ps"
    unfolding ps using stands_before_OpenRaw [OF page(2,3)] cs by (intro adv_GoNext_stands) simp_all
  ultimately show ?thesis by blast
qed

lemma adv_Open_absent:
  assumes "FindTermData fetch_leaf t key = None"
  shows "\<exists>r. adv_Open fetch_leaf fetch t num_documents avg_positive key = Some r \<and> adv_at fetch r []"
proof -
  have "adv_at fetch (adv_new key) []"
    by (simp add: adv_at_def adv_new_def adv_IsEnd_def dec_IsEnd_def UnifiedDecoder_new_def)
  then show ?thesis using assms adv_GoNext_ended by (simp add: adv_Open_def)
qed

text \<open>Any mix of \<open>GoNext\<close> and \<open>GoUntil\<close>, and what it means on the list of pairs.\<close>

datatype read_op = Next | Until u64

fun adv_op :: "(u32 \<Rightarrow> bytes option) \<Rightarrow> read_op \<Rightarrow> AdvancedIndexReader \<Rightarrow> AdvancedIndexReader" where
  "adv_op fetch Next r = adv_GoNext fetch r"
| "adv_op fetch (Until t) r = adv_GoUntil fetch t r"

fun list_op :: "read_op \<Rightarrow> (u64 \<times> 'a) list \<Rightarrow> (u64 \<times> 'a) list" where
  "list_op Next ps = tl ps"
| "list_op (Until t) ps = dropWhile (\<lambda>p. fst p < t) ps"

text \<open>What a client sees of a reader: the current pair, if there is one.\<close>

definition adv_current :: "AdvancedIndexReader \<Rightarrow> (u64 \<times> u32) option" where
  "adv_current r = (if adv_IsEnd r then None else Some (adv_GetDocumentID r, adv_GetTermFreq r))"

definition list_current :: "(u64 \<times> u8) list \<Rightarrow> (u64 \<times> u32) option" where
  "list_current ps = (case ps of [] \<Rightarrow> None | p # _ \<Rightarrow> Some (fst p, ucast (snd p)))"

lemma adv_at_current: "adv_at fetch r ps \<Longrightarrow> adv_current r = list_current ps"
  by (auto simp: adv_at_def adv_current_def list_current_def adv_GetDocumentID_def adv_GetTermFreq_def
      split: list.splits)

lemma ascending_list_op: "ascending (map fst ps) \<Longrightarrow> ascending (map fst (list_op op ps))"
proof (cases op)
  case Next
  then show "ascending (map fst ps) \<Longrightarrow> ?thesis" by (cases ps) auto
next
  case (Until t)
  assume "ascending (map fst ps)"
  then have "ascending (dropWhile (\<lambda>x. x < t) (map fst ps))" by (rule ascending_dropWhile)
  then show ?thesis using Until by (simp add: dropWhile_map o_def)
qed

lemma adv_op_at:
  assumes "adv_at fetch r ps" and "ascending (map fst ps)"
  shows "adv_at fetch (adv_op fetch op r) (list_op op ps)"
proof (cases op)
  case Next
  then show ?thesis using assms adv_GoNext_at adv_GoNext_ended by (cases ps) auto
next
  case (Until t)
  then show ?thesis using adv_GoUntil_at [OF assms] by simp
qed

lemma adv_ops_at:
  "adv_at fetch r ps \<Longrightarrow> ascending (map fst ps) \<Longrightarrow>
   adv_at fetch (fold (adv_op fetch) ops r) (fold list_op ops ps)"
  by (induction ops arbitrary: r ps) (auto intro: adv_op_at ascending_list_op)

subsection \<open>From the store to the reader\<close>

definition store_pairs :: "(nat \<Rightarrow> rat) \<Rightarrow> PostingStore \<Rightarrow> rstr \<Rightarrow> (u64 \<times> u8) list" where
  "store_pairs log2_f64 s key =
     (case map_of (filter kept (m_Postings s)) key of
        None \<Rightarrow> [] | Some pl \<Rightarrow> posting_pairs log2_f64 (entries pl))"

lemma ascending_store_pairs: "store_wf s \<Longrightarrow> ascending (map fst (store_pairs log2_f64 s key))"
  by (auto simp: store_pairs_def posting_pairs_def o_def store_wf_def postings_wf_def split: option.splits
      dest!: map_of_SomeD)

lemma adv_Open_built_ok:
  assumes bk: "built_ok log2_f64 s r blocks" and wf: "store_wf s" and fits: "built_fits r"
    and key: "0 \<notin> set key" and n: "0 < num_documents"
  shows "\<exists>rd. adv_Open (leaf_fetch (built_table r) c) (index_fetch (built_table r) c) (built_table r)
      num_documents True key = Some rd \<and> adv_at (index_fetch (built_table r) c) rd (store_pairs log2_f64 s key)"
proof -
  let ?t = "built_table r"
  have fetch: "index_fetch ?t c = page_list (BBR_IndexBlocks r)"
    using fits page_list_memory [of "BBR_IndexBlocks r" c]
    by (simp add: index_fetch_def built_fits_def)
  note lookup = built_table_lookup [OF bk fits key, of c] and dict = dict_entries_built [OF bk wf, of key]
  show ?thesis
  proof (cases "map_of (filter kept (m_Postings s)) key")
    case None
    then have "FindTermData (leaf_fetch ?t c) ?t key = None" using lookup dict by simp
    then show ?thesis using adv_Open_absent None by (simp add: store_pairs_def)
  next
    case (Some pl)
    then obtain e where "FindTermData (leaf_fetch ?t c) ?t key = Some (entry_location e)"
      "stored_at (index_fetch ?t c) (entry_location e) (posting_pairs log2_f64 (entries pl))"
      using lookup dict by (auto simp: entry_stored_def fetch)
    from adv_Open_stored [OF this n] Some show ?thesis by (simp add: store_pairs_def)
  qed
qed

lemma adv_Open_built:
  assumes "store_buildable log2_f64 s" and "BuildBlocks log2_f64 s = Some r" and "built_fits r"
    and "0 \<notin> set key" and "0 < num_documents"
  shows "\<exists>rd. adv_Open (leaf_fetch (built_table r) c) (index_fetch (built_table r) c) (built_table r)
      num_documents True key = Some rd \<and> adv_at (index_fetch (built_table r) c) rd (store_pairs log2_f64 s key)"
  using BuildBlocks_built [OF assms(1)] assms adv_Open_built_ok by (fastforce simp: store_buildable_def)

text \<open>
  C6. Indexing then reading gives back the posting list. Build the blocks of any well-formed
  store, install them in a table, open a reader on a key: whatever sequence of \<open>GoNext\<close> and
  \<open>GoUntil\<close> follows, the reader shows exactly the pair that the same steps reach on the store's own
  list for that key, and is at its end exactly when that list is exhausted (at once for a key the
  store lacks, or one that is too long for the dictionary).
\<close>

theorem build_open_read:
  assumes "store_buildable log2_f64 s" and "BuildBlocks log2_f64 s = Some r" and "built_fits r"
    and "0 \<notin> set key" and "0 < num_documents"
  shows "\<exists>rd. adv_Open (leaf_fetch (built_table r) c) (index_fetch (built_table r) c) (built_table r)
      num_documents True key = Some rd \<and>
    (\<forall>ops. adv_current (fold (adv_op (index_fetch (built_table r) c)) ops rd) =
      list_current (fold list_op ops (store_pairs log2_f64 s key)))"
proof -
  have wf: "store_wf s" using assms(1) by (simp add: store_buildable_def)
  from adv_Open_built [OF assms] obtain rd where
    rd: "adv_Open (leaf_fetch (built_table r) c) (index_fetch (built_table r) c) (built_table r)
      num_documents True key = Some rd" "adv_at (index_fetch (built_table r) c) rd (store_pairs log2_f64 s key)" by blast
  with adv_at_current [OF adv_ops_at [OF rd(2) ascending_store_pairs [OF wf]]] show ?thesis by blast
qed

theorem build_open_read_witness:
  "\<exists>r rd. BuildBlocks demo_log2 demo_store = Some r \<and>
     adv_Open (leaf_fetch (built_table r) counters0) (index_fetch (built_table r) counters0) (built_table r)
       1 True demo_key = Some rd \<and>
     adv_current rd = Some (5, 32) \<and>
     adv_current (adv_GoUntil (index_fetch (built_table r) counters0) 6 rd) = None"
proof -
  from demo_built obtain r where r: "BuildBlocks demo_log2 demo_store = Some r"
    "length (BBR_IndexBlocks r) = 1" "length (BBR_LeafTermBlocks r) = 1" by blast
  then have fits: "built_fits r" by (simp add: built_fits_def)
  have key: "0 \<notin> set demo_key" by (simp add: demo_key_def)
  have one: "0 < (1 :: u64)" by simp
  have pairs: "store_pairs demo_log2 demo_store demo_key = [(5, 32)]"
    using demo_bytes
    by (simp add: store_pairs_def demo_store_postings kept_def demo_key_def HEAD_TERM_KEY_MAX_def demo_list_def
        posting_pairs_def get_bytes_def encode_def encode_entry_def vb_write.simps [of 5])
  from build_open_read [OF demo_buildable r(1) fits key one, of counters0] obtain rd where
    rd: "adv_Open (leaf_fetch (built_table r) counters0) (index_fetch (built_table r) counters0) (built_table r) 1 True demo_key = Some rd"
    and ops: "\<And>ops. adv_current (fold (adv_op (index_fetch (built_table r) counters0)) ops rd) =
      list_current (fold list_op ops [(5, 32)])"
    unfolding pairs by blast
  show ?thesis
    using r(1) rd ops [of "[]"] ops [of "[Until 6]"] by (auto simp: list_current_def)
qed

end
