(* ===== verification/Readers.thy ===== *)
theory Readers
  imports AdvancedReader
begin

text \<open>
  The reader interface (\<open>IndexAccess/IndexReader.rs\<close>) and the composite readers
  (\<open>IndexAccess/IndexReaderImpl.rs\<close>).

  A \<open>Box<dyn IndexReader>\<close> is a state nobody outside can see together with the trait's methods: the
  codatatype \<open>Dyn\<close>. Its fields are what the methods answer and the reader they leave behind;
  \<open>None\<close> in place of a reader means that the method does not return. The loops of the composite
  readers are \<open>partial_function (option)\<close>; that they return is part of what is proved.

  \<open>GetScore\<close> and the debug output are left out.
\<close>

subsection \<open>The interface\<close>

codatatype Dyn = Dyn
  (d_IsEnd: bool)
  (d_Doc: u64)
  (d_Tf: u32)
  (d_GoNext: "Dyn option")
  (d_GoUntil: "u64 \<Rightarrow> u64 \<Rightarrow> Dyn option")
  (d_Mask: "(u8 \<times> Dyn) option")
  (d_Close: Dyn)

text \<open>A sequence of documents a reader may deliver: ascending, below the end marker.\<close>

definition doc_list :: "u64 list \<Rightarrow> bool" where
  "doc_list docs \<longleftrightarrow> ascending docs \<and> (\<forall>d \<in> set docs. d < NO_MORE_DOCS)"

text \<open>
  \<open>reads d docs\<close>: the reader delivers exactly \<open>docs\<close>, whatever calls come in between, and every
  method returns.
\<close>

coinductive reads :: "Dyn \<Rightarrow> u64 list \<Rightarrow> bool" where
  "d_IsEnd d \<longleftrightarrow> docs = [] \<Longrightarrow> (docs \<noteq> [] \<longrightarrow> d_Doc d = hd docs) \<Longrightarrow>
   (\<exists>n. d_GoNext d = Some n \<and> reads n (tl docs)) \<Longrightarrow>
   (\<forall>t. \<exists>u. d_GoUntil d t NO_MORE_DOCS = Some u \<and> reads u (dropWhile (\<lambda>x. x < t) docs)) \<Longrightarrow>
   (\<exists>m k. d_Mask d = Some (m, k) \<and> reads k docs) \<Longrightarrow> reads d docs"

lemma readsD:
  assumes "reads d docs"
  shows "d_IsEnd d \<longleftrightarrow> docs = []" and "docs \<noteq> [] \<Longrightarrow> d_Doc d = hd docs"
    and "\<exists>n. d_GoNext d = Some n \<and> reads n (tl docs)"
    and "\<exists>u. d_GoUntil d t NO_MORE_DOCS = Some u \<and> reads u (dropWhile (\<lambda>x. x < t) docs)"
    and "\<exists>m k. d_Mask d = Some (m, k) \<and> reads k docs"
  using assms by (auto elim: reads.cases)

subsection \<open>Leaf readers\<close>

primcorec dyn_adv :: "(u32 \<Rightarrow> bytes option) \<Rightarrow> AdvancedIndexReader \<Rightarrow> Dyn" where
  "d_IsEnd (dyn_adv fetch r) = adv_IsEnd r"
| "d_Doc (dyn_adv fetch r) = adv_GetDocumentID r"
| "d_Tf (dyn_adv fetch r) = adv_GetTermFreq r"
| "d_GoNext (dyn_adv fetch r) = map_option (dyn_adv fetch) (Some (adv_GoNext fetch r))"
| "d_GoUntil (dyn_adv fetch r) = (\<lambda>t l. map_option (dyn_adv fetch) (Some (adv_GoUntil fetch t r)))"
| "d_Mask (dyn_adv fetch r) = map_option (map_prod id (dyn_adv fetch)) (Some (m_SourceMask r, r))"
| "d_Close (dyn_adv fetch r) = dyn_adv fetch (adv_Close r)"

record VectorIndexReader =
  m_Results :: "u64 list"
  m_Pos :: nat

definition VectorIndexReader_new :: "u64 list \<Rightarrow> VectorIndexReader" where
  "VectorIndexReader_new results = \<lparr>m_Results = sort results, m_Pos = 0\<rparr>"

definition vec_IsEnd :: "VectorIndexReader \<Rightarrow> bool" where
  "vec_IsEnd r \<longleftrightarrow> m_Pos r \<ge> length (m_Results r)"

definition vec_GetDocumentID :: "VectorIndexReader \<Rightarrow> u64" where
  "vec_GetDocumentID r = (if vec_IsEnd r then NO_MORE_DOCS else m_Results r ! m_Pos r)"

definition vec_GoNext :: "VectorIndexReader \<Rightarrow> VectorIndexReader" where
  "vec_GoNext r = (if \<not> vec_IsEnd r then r\<lparr>m_Pos := m_Pos r + 1\<rparr> else r)"

function vec_GoUntil :: "u64 \<Rightarrow> u64 \<Rightarrow> VectorIndexReader \<Rightarrow> VectorIndexReader" where
  "vec_GoUntil target limit r =
     (if \<not> vec_IsEnd r \<and> vec_GetDocumentID r < target \<and> vec_GetDocumentID r < limit
      then vec_GoUntil target limit (r\<lparr>m_Pos := m_Pos r + 1\<rparr>) else r)"
  by pat_completeness auto
termination
  by (relation "measure (\<lambda>(t, l, r). length (m_Results r) - m_Pos r)") (auto simp: vec_IsEnd_def)

declare vec_GoUntil.simps [simp del]

definition vec_GetSourceMask :: "VectorIndexReader \<Rightarrow> u8" where
  "vec_GetSourceMask r = (if vec_IsEnd r then 0 else READER_SOURCE_VECTOR)"

definition vec_Close :: "VectorIndexReader \<Rightarrow> VectorIndexReader" where
  "vec_Close r = r\<lparr>m_Pos := length (m_Results r)\<rparr>"

primcorec dyn_vec :: "VectorIndexReader \<Rightarrow> Dyn" where
  "d_IsEnd (dyn_vec r) = vec_IsEnd r"
| "d_Doc (dyn_vec r) = vec_GetDocumentID r"
| "d_Tf (dyn_vec r) = 1"
| "d_GoNext (dyn_vec r) = map_option dyn_vec (Some (vec_GoNext r))"
| "d_GoUntil (dyn_vec r) = (\<lambda>t l. map_option dyn_vec (Some (vec_GoUntil t l r)))"
| "d_Mask (dyn_vec r) = map_option (map_prod id dyn_vec) (Some (vec_GetSourceMask r, r))"
| "d_Close (dyn_vec r) = dyn_vec (vec_Close r)"

subsection \<open>AND\<close>

text \<open>One pass over the children: \<open>True\<close> when \<open>AlignToPivot\<close> returns, \<open>False\<close> when it starts over.\<close>

fun align_pass :: "u64 \<Rightarrow> Dyn list \<Rightarrow> (bool \<times> Dyn list) option" where
  "align_pass pivot [] = Some (True, [])"
| "align_pass pivot (c # cs) =
     (if d_Doc c \<noteq> pivot then
        case d_GoUntil c pivot NO_MORE_DOCS of
          None \<Rightarrow> None
        | Some c' \<Rightarrow>
            if d_IsEnd c' then Some (True, c' # cs)
            else if d_Doc c' \<noteq> pivot then Some (False, c' # cs)
            else map_option (map_prod id ((#) c')) (align_pass pivot cs)
      else map_option (map_prod id ((#) c)) (align_pass pivot cs))"

definition pivot_of :: "Dyn list \<Rightarrow> u64" where
  "pivot_of cs = (case map d_Doc cs of [] \<Rightarrow> NO_MORE_DOCS | d # ds \<Rightarrow> fold max ds d)"

partial_function (option) AlignToPivot :: "Dyn list \<Rightarrow> Dyn list option" where
  "AlignToPivot cs =
     (if list_ex d_IsEnd cs then Some cs
      else case align_pass (pivot_of cs) cs of
        None \<Rightarrow> None
      | Some r \<Rightarrow> if fst r then Some (snd r) else AlignToPivot (snd r))"

definition and_IsEnd :: "Dyn list \<Rightarrow> bool" where
  "and_IsEnd cs \<longleftrightarrow> cs = [] \<or> list_ex d_IsEnd cs"

definition and_GetDocumentID :: "Dyn list \<Rightarrow> u64" where
  "and_GetDocumentID cs = (if and_IsEnd cs then NO_MORE_DOCS else d_Doc (hd cs))"

text \<open>Apply a method that returns a new reader to every child, in order.\<close>

fun each :: "(Dyn \<Rightarrow> Dyn option) \<Rightarrow> Dyn list \<Rightarrow> Dyn list option" where
  "each f [] = Some []"
| "each f (c # cs) =
     (case f c of None \<Rightarrow> None | Some c' \<Rightarrow> map_option ((#) c') (each f cs))"

definition and_GoNext :: "Dyn list \<Rightarrow> Dyn list option" where
  "and_GoNext cs =
     (if and_IsEnd cs then Some cs
      else
        let doc = and_GetDocumentID cs
        in case each (\<lambda>c. if \<not> d_IsEnd c \<and> d_Doc c = doc then d_GoNext c else Some c) cs of
             None \<Rightarrow> None | Some cs' \<Rightarrow> AlignToPivot cs')"

definition and_GoUntil :: "u64 \<Rightarrow> u64 \<Rightarrow> Dyn list \<Rightarrow> Dyn list option" where
  "and_GoUntil target limit cs =
     (case each (\<lambda>c. d_GoUntil c target limit) cs of
        None \<Rightarrow> None | Some cs' \<Rightarrow> AlignToPivot cs')"

text \<open>The masks of the children that pass a test, or-ed; the others keep their state.\<close>

fun mask_children :: "(Dyn \<Rightarrow> bool) \<Rightarrow> Dyn list \<Rightarrow> (u8 \<times> Dyn list) option" where
  "mask_children P [] = Some (0, [])"
| "mask_children P (c # cs) =
     (if P c then
        case d_Mask c of
          None \<Rightarrow> None
        | Some mk \<Rightarrow> map_option (map_prod ((OR) (fst mk)) ((#) (snd mk))) (mask_children P cs)
      else map_option (map_prod id ((#) c)) (mask_children P cs))"

definition and_GetSourceMask :: "Dyn list \<Rightarrow> (u8 \<times> Dyn list) option" where
  "and_GetSourceMask cs =
     mask_children (\<lambda>c. \<not> d_IsEnd c \<and> d_Doc c = and_GetDocumentID cs) cs"

primcorec dyn_and :: "Dyn list \<Rightarrow> Dyn" where
  "d_IsEnd (dyn_and cs) = and_IsEnd cs"
| "d_Doc (dyn_and cs) = and_GetDocumentID cs"
| "d_Tf (dyn_and cs) = sum_list (map d_Tf cs)"
| "d_GoNext (dyn_and cs) = map_option dyn_and (and_GoNext cs)"
| "d_GoUntil (dyn_and cs) = (\<lambda>t l. map_option dyn_and (and_GoUntil t l cs))"
| "d_Mask (dyn_and cs) = map_option (map_prod id dyn_and) (and_GetSourceMask cs)"
| "d_Close (dyn_and cs) = dyn_and (map d_Close cs)"

definition AndIndexReader_new :: "Dyn list \<Rightarrow> Dyn option" where
  "AndIndexReader_new children = map_option dyn_and (AlignToPivot children)"

subsection \<open>OR and WEAK-AND\<close>

record cached_reader =
  c_Children :: "Dyn list"
  c_ChildDocs :: "u64 list"
  c_Matching :: "nat list"
  c_MinShouldMatch :: u32
  c_CurrentDoc :: u64

definition child_doc :: "Dyn \<Rightarrow> u64" where
  "child_doc c = (if d_IsEnd c then NO_MORE_DOCS else d_Doc c)"

definition min_doc :: "u64 list \<Rightarrow> u64" where
  "min_doc docs = (case docs of [] \<Rightarrow> NO_MORE_DOCS | d # ds \<Rightarrow> fold min ds d)"

definition matching_at :: "u64 \<Rightarrow> u64 list \<Rightarrow> nat list" where
  "matching_at doc docs = filter (\<lambda>i. docs ! i = doc) [0..<length docs]"

definition RefreshCurrentDoc :: "cached_reader \<Rightarrow> cached_reader" where
  "RefreshCurrentDoc r =
     (let doc = min_doc (c_ChildDocs r)
      in r\<lparr>c_CurrentDoc := doc,
           c_Matching := (if doc = NO_MORE_DOCS then [] else matching_at doc (c_ChildDocs r))\<rparr>)"

text \<open>Move the children of the given positions and update their cached documents.\<close>

fun move_children :: "(Dyn \<Rightarrow> Dyn option) \<Rightarrow> nat list \<Rightarrow> cached_reader \<Rightarrow> cached_reader option" where
  "move_children f [] r = Some r"
| "move_children f (i # is) r =
     (case f (c_Children r ! i) of
        None \<Rightarrow> None
      | Some c \<Rightarrow> move_children f is
          (r\<lparr>c_Children := (c_Children r)[i := c], c_ChildDocs := (c_ChildDocs r)[i := child_doc c]\<rparr>))"

definition cached_IsEnd :: "cached_reader \<Rightarrow> bool" where
  "cached_IsEnd r \<longleftrightarrow> c_CurrentDoc r = NO_MORE_DOCS"

definition or_GoNext :: "cached_reader \<Rightarrow> cached_reader option" where
  "or_GoNext r =
     (if cached_IsEnd r then Some r
      else map_option RefreshCurrentDoc (move_children d_GoNext (c_Matching r) r))"

definition or_GoUntil :: "u64 \<Rightarrow> u64 \<Rightarrow> cached_reader \<Rightarrow> cached_reader option" where
  "or_GoUntil target limit r =
     map_option RefreshCurrentDoc
       (move_children (\<lambda>c. d_GoUntil c target limit)
          (filter (\<lambda>i. c_ChildDocs r ! i < target) [0..<length (c_Children r)]) r)"

text \<open>The masks of the matching children, in order of position.\<close>

fun mask_at :: "nat list \<Rightarrow> Dyn list \<Rightarrow> (u8 \<times> Dyn list) option" where
  "mask_at [] cs = Some (0, cs)"
| "mask_at (i # is) cs =
     (case d_Mask (cs ! i) of
        None \<Rightarrow> None
      | Some mk \<Rightarrow> map_option (map_prod ((OR) (fst mk)) id) (mask_at is (cs[i := snd mk])))"

definition cached_GetSourceMask :: "cached_reader \<Rightarrow> (u8 \<times> cached_reader) option" where
  "cached_GetSourceMask r =
     map_option (map_prod id (\<lambda>cs. r\<lparr>c_Children := cs\<rparr>)) (mask_at (c_Matching r) (c_Children r))"

definition cached_GetTermFreq :: "cached_reader \<Rightarrow> u32" where
  "cached_GetTermFreq r = sum_list (map (\<lambda>i. d_Tf (c_Children r ! i)) (c_Matching r))"

primcorec dyn_or :: "cached_reader \<Rightarrow> Dyn" where
  "d_IsEnd (dyn_or r) = cached_IsEnd r"
| "d_Doc (dyn_or r) = c_CurrentDoc r"
| "d_Tf (dyn_or r) = cached_GetTermFreq r"
| "d_GoNext (dyn_or r) = map_option dyn_or (or_GoNext r)"
| "d_GoUntil (dyn_or r) = (\<lambda>t l. map_option dyn_or (or_GoUntil t l r))"
| "d_Mask (dyn_or r) = map_option (map_prod id dyn_or) (cached_GetSourceMask r)"
| "d_Close (dyn_or r) = dyn_or (r\<lparr>c_Children := map d_Close (c_Children r)\<rparr>)"

definition cached_new :: "Dyn list \<Rightarrow> u32 \<Rightarrow> cached_reader" where
  "cached_new children min_should_match =
     \<lparr>c_Children = children, c_ChildDocs = map child_doc children, c_Matching = [],
      c_MinShouldMatch = max min_should_match 1, c_CurrentDoc = NO_MORE_DOCS\<rparr>"

definition OrIndexReader_new :: "Dyn list \<Rightarrow> Dyn" where
  "OrIndexReader_new children = dyn_or (RefreshCurrentDoc (cached_new children 1))"

partial_function (option) AlignToMatch :: "cached_reader \<Rightarrow> cached_reader option" where
  "AlignToMatch r =
     (let doc = min_doc (c_ChildDocs r); matching = matching_at doc (c_ChildDocs r)
      in if doc = NO_MORE_DOCS then Some (r\<lparr>c_CurrentDoc := NO_MORE_DOCS, c_Matching := []\<rparr>)
         else if length matching \<ge> unat (c_MinShouldMatch r)
         then Some (r\<lparr>c_Matching := matching, c_CurrentDoc := doc\<rparr>)
         else case move_children d_GoNext matching (r\<lparr>c_Matching := matching\<rparr>) of
           None \<Rightarrow> None | Some r' \<Rightarrow> AlignToMatch r')"

definition weak_GoNext :: "cached_reader \<Rightarrow> cached_reader option" where
  "weak_GoNext r =
     (if cached_IsEnd r then Some r
      else case move_children d_GoNext (c_Matching r) r of
        None \<Rightarrow> None | Some r' \<Rightarrow> AlignToMatch r')"

definition weak_GoUntil :: "u64 \<Rightarrow> u64 \<Rightarrow> cached_reader \<Rightarrow> cached_reader option" where
  "weak_GoUntil target limit r =
     (case move_children (\<lambda>c. d_GoUntil c target limit)
          (filter (\<lambda>i. c_ChildDocs r ! i < target) [0..<length (c_Children r)]) r of
        None \<Rightarrow> None | Some r' \<Rightarrow> AlignToMatch r')"

primcorec dyn_weak :: "cached_reader \<Rightarrow> Dyn" where
  "d_IsEnd (dyn_weak r) = cached_IsEnd r"
| "d_Doc (dyn_weak r) = c_CurrentDoc r"
| "d_Tf (dyn_weak r) = cached_GetTermFreq r"
| "d_GoNext (dyn_weak r) = map_option dyn_weak (weak_GoNext r)"
| "d_GoUntil (dyn_weak r) = (\<lambda>t l. map_option dyn_weak (weak_GoUntil t l r))"
| "d_Mask (dyn_weak r) = map_option (map_prod id dyn_weak) (cached_GetSourceMask r)"
| "d_Close (dyn_weak r) = dyn_weak (r\<lparr>c_Children := map d_Close (c_Children r)\<rparr>)"

definition WeakAndIndexReader_new :: "Dyn list \<Rightarrow> u32 \<Rightarrow> Dyn option" where
  "WeakAndIndexReader_new children min_should_match =
     map_option dyn_weak (AlignToMatch (cached_new children min_should_match))"

subsection \<open>BOOST and NOT\<close>

record BoostIndexReader =
  b_Base :: Dyn
  b_Boost :: Dyn
  b_CurrentDoc :: u64
  b_BoostDoc :: u64

definition boost_new :: "Dyn \<Rightarrow> Dyn \<Rightarrow> BoostIndexReader" where
  "boost_new base boost = \<lparr>b_Base = base, b_Boost = boost, b_CurrentDoc = child_doc base,
     b_BoostDoc = child_doc boost\<rparr>"

definition boost_IsEnd :: "BoostIndexReader \<Rightarrow> bool" where
  "boost_IsEnd r \<longleftrightarrow> b_CurrentDoc r = NO_MORE_DOCS"

definition BoostMatchesBase :: "BoostIndexReader \<Rightarrow> (bool \<times> BoostIndexReader) option" where
  "BoostMatchesBase r =
     (if b_BoostDoc r = NO_MORE_DOCS \<or> boost_IsEnd r then Some (False, r)
      else if b_BoostDoc r < b_CurrentDoc r then
        map_option (\<lambda>b. (child_doc b = b_CurrentDoc r, r\<lparr>b_Boost := b, b_BoostDoc := child_doc b\<rparr>))
          (d_GoUntil (b_Boost r) (b_CurrentDoc r) NO_MORE_DOCS)
      else Some (b_BoostDoc r = b_CurrentDoc r, r))"

definition boost_moved :: "BoostIndexReader \<Rightarrow> Dyn \<Rightarrow> BoostIndexReader" where
  "boost_moved r base = r\<lparr>b_Base := base, b_CurrentDoc := child_doc base\<rparr>"

definition boost_GoNext :: "BoostIndexReader \<Rightarrow> BoostIndexReader option" where
  "boost_GoNext r = (if boost_IsEnd r then Some r else map_option (boost_moved r) (d_GoNext (b_Base r)))"

definition boost_GoUntil :: "u64 \<Rightarrow> u64 \<Rightarrow> BoostIndexReader \<Rightarrow> BoostIndexReader option" where
  "boost_GoUntil target limit r = map_option (boost_moved r) (d_GoUntil (b_Base r) target limit)"

definition boost_GetTermFreq :: "BoostIndexReader \<Rightarrow> u32" where
  "boost_GetTermFreq r = (if boost_IsEnd r then 0 else d_Tf (b_Base r))"

definition boost_GetSourceMask :: "BoostIndexReader \<Rightarrow> (u8 \<times> BoostIndexReader) option" where
  "boost_GetSourceMask r =
     (if boost_IsEnd r then Some (0, r)
      else case d_Mask (b_Base r) of
        None \<Rightarrow> None
      | Some bm \<Rightarrow>
          (case BoostMatchesBase (r\<lparr>b_Base := snd bm\<rparr>) of
             None \<Rightarrow> None
           | Some mr \<Rightarrow>
               if fst mr then
                 map_option (\<lambda>xm. (fst bm OR fst xm, (snd mr)\<lparr>b_Boost := snd xm\<rparr>)) (d_Mask (b_Boost (snd mr)))
               else Some (fst bm, snd mr)))"

definition boost_Close :: "BoostIndexReader \<Rightarrow> BoostIndexReader" where
  "boost_Close r = \<lparr>b_Base = d_Close (b_Base r), b_Boost = d_Close (b_Boost r),
     b_CurrentDoc = NO_MORE_DOCS, b_BoostDoc = NO_MORE_DOCS\<rparr>"

primcorec dyn_boost :: "BoostIndexReader \<Rightarrow> Dyn" where
  "d_IsEnd (dyn_boost r) = boost_IsEnd r"
| "d_Doc (dyn_boost r) = b_CurrentDoc r"
| "d_Tf (dyn_boost r) = boost_GetTermFreq r"
| "d_GoNext (dyn_boost r) = map_option dyn_boost (boost_GoNext r)"
| "d_GoUntil (dyn_boost r) = (\<lambda>t l. map_option dyn_boost (boost_GoUntil t l r))"
| "d_Mask (dyn_boost r) = map_option (map_prod id dyn_boost) (boost_GetSourceMask r)"
| "d_Close (dyn_boost r) = dyn_boost (boost_Close r)"

record NotIndexReader =
  n_Base :: Dyn
  n_Exclude :: Dyn

partial_function (option) SkipExcluded :: "NotIndexReader \<Rightarrow> NotIndexReader option" where
  "SkipExcluded r =
     (if d_IsEnd (n_Base r) then Some r
      else
        let doc = d_Doc (n_Base r)
        in case d_GoUntil (n_Exclude r) doc NO_MORE_DOCS of
             None \<Rightarrow> None
           | Some x \<Rightarrow>
               if \<not> d_IsEnd x \<and> d_Doc x = doc then
                 (case d_GoNext (n_Base r) of
                    None \<Rightarrow> None
                  | Some b \<Rightarrow> SkipExcluded \<lparr>n_Base = b, n_Exclude = x\<rparr>)
               else Some (r\<lparr>n_Exclude := x\<rparr>))"

definition not_moved :: "NotIndexReader \<Rightarrow> Dyn option \<Rightarrow> NotIndexReader option" where
  "not_moved r base = (case base of None \<Rightarrow> None | Some b \<Rightarrow> SkipExcluded (r\<lparr>n_Base := b\<rparr>))"

definition not_GoNext :: "NotIndexReader \<Rightarrow> NotIndexReader option" where
  "not_GoNext r = not_moved r (d_GoNext (n_Base r))"

definition not_GoUntil :: "u64 \<Rightarrow> u64 \<Rightarrow> NotIndexReader \<Rightarrow> NotIndexReader option" where
  "not_GoUntil target limit r = not_moved r (d_GoUntil (n_Base r) target limit)"

definition not_GetSourceMask :: "NotIndexReader \<Rightarrow> (u8 \<times> NotIndexReader) option" where
  "not_GetSourceMask r = map_option (map_prod id (\<lambda>b. r\<lparr>n_Base := b\<rparr>)) (d_Mask (n_Base r))"

definition not_Close :: "NotIndexReader \<Rightarrow> NotIndexReader" where
  "not_Close r = \<lparr>n_Base = d_Close (n_Base r), n_Exclude = d_Close (n_Exclude r)\<rparr>"

primcorec dyn_not :: "NotIndexReader \<Rightarrow> Dyn" where
  "d_IsEnd (dyn_not r) = d_IsEnd (n_Base r)"
| "d_Doc (dyn_not r) = d_Doc (n_Base r)"
| "d_Tf (dyn_not r) = d_Tf (n_Base r)"
| "d_GoNext (dyn_not r) = map_option dyn_not (not_GoNext r)"
| "d_GoUntil (dyn_not r) = (\<lambda>t l. map_option dyn_not (not_GoUntil t l r))"
| "d_Mask (dyn_not r) = map_option (map_prod id dyn_not) (not_GetSourceMask r)"
| "d_Close (dyn_not r) = dyn_not (not_Close r)"

definition NotIndexReader_new :: "Dyn \<Rightarrow> Dyn \<Rightarrow> Dyn option" where
  "NotIndexReader_new base exclude = map_option dyn_not (SkipExcluded \<lparr>n_Base = base, n_Exclude = exclude\<rparr>)"

subsection \<open>The contract an implementation has to meet\<close>

text \<open>
  \<open>stands r docs\<close> relates a state of an implementation to the documents it still delivers. Whoever
  meets these laws gives, wrapped as a \<open>Dyn\<close>, a reader in the sense of \<open>reads\<close>; the composite
  readers in turn rely on nothing else about their children.
\<close>

locale reader_impl =
  fixes dyn :: "'r \<Rightarrow> Dyn"
    and stands :: "'r \<Rightarrow> u64 list \<Rightarrow> bool"
    and isEnd :: "'r \<Rightarrow> bool"
    and doc :: "'r \<Rightarrow> u64"
    and goNext :: "'r \<Rightarrow> 'r option"
    and goUntil :: "u64 \<Rightarrow> u64 \<Rightarrow> 'r \<Rightarrow> 'r option"
    and mask :: "'r \<Rightarrow> (u8 \<times> 'r) option"
  assumes dyn_IsEnd: "d_IsEnd (dyn r) = isEnd r"
    and dyn_Doc: "d_Doc (dyn r) = doc r"
    and dyn_GoNext: "d_GoNext (dyn r) = map_option dyn (goNext r)"
    and dyn_GoUntil: "d_GoUntil (dyn r) t l = map_option dyn (goUntil t l r)"
    and dyn_Mask: "d_Mask (dyn r) = map_option (map_prod id dyn) (mask r)"
    and at_end: "stands r docs \<Longrightarrow> isEnd r \<longleftrightarrow> docs = []"
    and at_doc: "stands r docs \<Longrightarrow> docs \<noteq> [] \<Longrightarrow> doc r = hd docs"
    and at_next: "stands r docs \<Longrightarrow> \<exists>r'. goNext r = Some r' \<and> stands r' (tl docs)"
    and at_until: "stands r docs \<Longrightarrow> \<exists>r'. goUntil t NO_MORE_DOCS r = Some r' \<and> stands r' (dropWhile (\<lambda>x. x < t) docs)"
    and at_mask: "stands r docs \<Longrightarrow> \<exists>m r'. mask r = Some (m, r') \<and> stands r' docs"
begin

lemma reads_dyn:
  assumes "stands r docs"
  shows "reads (dyn r) docs"
  using assms
proof (coinduction arbitrary: r docs rule: reads.coinduct)
  case reads
  from at_next [OF reads] obtain n where n: "goNext r = Some n" "stands n (tl docs)" by blast
  from at_mask [OF reads] obtain m k where k: "mask r = Some (m, k)" "stands k docs" by blast
  have "\<forall>t. \<exists>u. goUntil t NO_MORE_DOCS r = Some u \<and> stands u (dropWhile (\<lambda>x. x < t) docs)"
    using at_until [OF reads] by blast
  then show ?case
    using n k at_end [OF reads] at_doc [OF reads]
    by (fastforce simp: dyn_IsEnd dyn_Doc dyn_GoNext dyn_GoUntil dyn_Mask)
qed

end

subsection \<open>Ascending document lists as sets\<close>

lemma doc_list_Nil [simp]: "doc_list []"
  by (simp add: doc_list_def)

lemma doc_list_tl: "doc_list ds \<Longrightarrow> doc_list (tl ds)"
  by (cases ds) (auto simp: doc_list_def)

lemma doc_list_dropWhile: "doc_list ds \<Longrightarrow> doc_list (dropWhile P ds)"
  by (auto simp: doc_list_def ascending_dropWhile dest: set_dropWhileD)

lemma doc_list_hd_le: "doc_list ds \<Longrightarrow> x \<in> set ds \<Longrightarrow> hd ds \<le> x"
  by (cases ds) (auto simp: doc_list_def)

lemma set_tl_doc_list: "doc_list ds \<Longrightarrow> ds \<noteq> [] \<Longrightarrow> set (tl ds) = set ds - {hd ds}"
  by (cases ds) (auto simp: doc_list_def)

lemma set_dropWhile_doc_list: "doc_list ds \<Longrightarrow> set (dropWhile (\<lambda>x. x < t) ds) = {x \<in> set ds. t \<le> x}"
  by (auto simp: doc_list_def dropWhile_less_ascending)

lemma doc_list_minimum:
  assumes "doc_list ds" and "x \<in> set ds" and "\<And>y. y \<in> set ds \<Longrightarrow> x \<le> y"
  shows "ds \<noteq> [] \<and> hd ds = x"
  using assms(2,3) doc_list_hd_le [OF assms(1,2)] by (cases ds) (auto intro: order_antisym)

lemma length_dropWhile_less: "ds \<noteq> [] \<Longrightarrow> P (hd ds) \<Longrightarrow> length (dropWhile P ds) < length ds"
  using length_dropWhile_le [of P "tl ds"] by (cases ds) auto

subsection \<open>Leaf readers meet the contract\<close>

definition adv_stands :: "(u32 \<Rightarrow> bytes option) \<Rightarrow> AdvancedIndexReader \<Rightarrow> u64 list \<Rightarrow> bool" where
  "adv_stands fetch r docs \<longleftrightarrow> (\<exists>ps. adv_at fetch r ps \<and> ascending (map fst ps) \<and> docs = map fst ps)"

interpretation adv: reader_impl "dyn_adv fetch" "adv_stands fetch" adv_IsEnd adv_GetDocumentID
  "\<lambda>r. Some (adv_GoNext fetch r)" "\<lambda>t l r. Some (adv_GoUntil fetch t r)" "\<lambda>r. Some (m_SourceMask r, r)"
  for fetch
proof
  fix r docs t
  assume "adv_stands fetch r docs"
  then obtain ps where ps: "adv_at fetch r ps" "ascending (map fst ps)" "docs = map fst ps"
    by (auto simp: adv_stands_def)
  show "adv_IsEnd r \<longleftrightarrow> docs = []" "docs \<noteq> [] \<Longrightarrow> adv_GetDocumentID r = hd docs"
    using ps by (auto simp: adv_at_def adv_GetDocumentID_def split: list.splits)
  have "adv_stands fetch (adv_op fetch op r) (map fst (list_op op ps))" for op
    using adv_op_at [OF ps(1,2), of op] ascending_list_op [OF ps(2), of op] by (auto simp: adv_stands_def)
  from this [of Next] this [of "Until t"]
  show "\<exists>r'. Some (adv_GoNext fetch r) = Some r' \<and> adv_stands fetch r' (tl docs)"
    "\<exists>r'. Some (adv_GoUntil fetch t r) = Some r' \<and> adv_stands fetch r' (dropWhile (\<lambda>x. x < t) docs)"
    by (simp_all add: ps(3) map_tl dropWhile_map o_def)
  show "\<exists>m r'. Some (m_SourceMask r, r) = Some (m, r') \<and> adv_stands fetch r' docs"
    using \<open>adv_stands fetch r docs\<close> by simp
qed simp_all

definition vec_stands :: "VectorIndexReader \<Rightarrow> u64 list \<Rightarrow> bool" where
  "vec_stands r docs \<longleftrightarrow> docs = drop (m_Pos r) (m_Results r) \<and> doc_list docs"

lemma vec_GoUntil_stands:
  "vec_stands r docs \<Longrightarrow> vec_stands (vec_GoUntil t NO_MORE_DOCS r) (dropWhile (\<lambda>x. x < t) docs)"
proof (induction docs arbitrary: r)
  case Nil
  then show ?case by (subst vec_GoUntil.simps) (simp add: vec_stands_def vec_IsEnd_def)
next
  case (Cons d docs)
  note at = drop_Cons_nth [of "m_Pos r" "m_Results r" d docs]
  have d: "\<not> vec_IsEnd r" "vec_GetDocumentID r = d" "d < NO_MORE_DOCS"
    using Cons.prems at by (auto simp: vec_stands_def vec_IsEnd_def vec_GetDocumentID_def doc_list_def)
  have "doc_list docs"
    using Cons.prems doc_list_tl [of "d # docs"] unfolding vec_stands_def list.sel by blast
  moreover have "docs = drop (m_Pos r + 1) (m_Results r)"
    using Cons.prems by (metis Suc_eq_plus1 drop_Suc list.sel(3) tl_drop vec_stands_def)
  ultimately have "vec_stands (r\<lparr>m_Pos := m_Pos r + 1\<rparr>) docs"
    by (simp add: vec_stands_def)
  from Cons.IH [OF this] Cons.prems d show ?case
    by (subst vec_GoUntil.simps) auto
qed

interpretation vec: reader_impl dyn_vec vec_stands vec_IsEnd vec_GetDocumentID
  "\<lambda>r. Some (vec_GoNext r)" "\<lambda>t l r. Some (vec_GoUntil t l r)" "\<lambda>r. Some (vec_GetSourceMask r, r)"
proof
  fix r docs t
  assume s: "vec_stands r docs"
  then show "vec_IsEnd r \<longleftrightarrow> docs = []" "docs \<noteq> [] \<Longrightarrow> vec_GetDocumentID r = hd docs"
    by (auto simp: vec_stands_def vec_IsEnd_def vec_GetDocumentID_def hd_drop_conv_nth)
  show "\<exists>r'. Some (vec_GoNext r) = Some r' \<and> vec_stands r' (tl docs)"
    using s doc_list_tl [of docs] by (auto simp: vec_stands_def vec_GoNext_def vec_IsEnd_def drop_Suc tl_drop)
  show "\<exists>r'. Some (vec_GoUntil t NO_MORE_DOCS r) = Some r' \<and> vec_stands r' (dropWhile (\<lambda>x. x < t) docs)"
    using vec_GoUntil_stands [OF s] by simp
  show "\<exists>m r'. Some (vec_GetSourceMask r, r) = Some (m, r') \<and> vec_stands r' docs" using s by simp
qed simp_all

subsection \<open>AND delivers the intersection\<close>

definition common :: "u64 list list \<Rightarrow> u64 set" where
  "common docss = (\<Inter>ds \<in> set docss. set ds)"

definition settled :: "u64 list list \<Rightarrow> bool" where
  "settled docss \<longleftrightarrow> [] \<in> set docss \<or> (\<forall>ds \<in> set docss. hd ds = hd (hd docss))"

definition and_stands :: "Dyn list \<Rightarrow> u64 list \<Rightarrow> bool" where
  "and_stands cs docs \<longleftrightarrow> (\<exists>docss. list_all2 reads cs docss \<and> cs \<noteq> [] \<and> (\<forall>ds \<in> set docss. doc_list ds) \<and>
     doc_list docs \<and> set docs = common docss \<and> settled docss)"

lemma list_ex_reads: "list_all2 reads cs docss \<Longrightarrow> list_ex d_IsEnd cs \<longleftrightarrow> [] \<in> set docss"
  by (induction rule: list_all2_induct) (auto dest: readsD(1))

lemma reads_docs: "list_all2 reads cs docss \<Longrightarrow> [] \<notin> set docss \<Longrightarrow> map d_Doc cs = map hd docss"
  by (induction rule: list_all2_induct) (auto dest: readsD(2))

lemma fold_max_in: "fold max ds d \<in> set (d # ds)" for d :: u64
  by (induction ds arbitrary: d) (auto simp: max_def)

lemma fold_max_ge_init: "d \<le> fold max ds d" for d :: u64
  by (induction ds arbitrary: d) (auto intro: order_trans [OF max.cobounded2])

lemma fold_max_ge: "x \<in> set ds \<Longrightarrow> x \<le> fold max ds d" for d :: u64
proof (induction ds arbitrary: d)
  case (Cons e ds)
  then show ?case
    using order_trans [OF max.cobounded1 fold_max_ge_init [of "max e d" ds]] by auto
qed simp

lemma pivot_of_reads:
  assumes "list_all2 reads cs docss" and "[] \<notin> set docss" and "cs \<noteq> []"
  shows "\<exists>ds \<in> set docss. hd ds = pivot_of cs" and "\<And>ds. ds \<in> set docss \<Longrightarrow> hd ds \<le> pivot_of cs"
proof -
  from assms obtain ds dss where docss: "docss = ds # dss" by (cases docss) auto
  then have p: "pivot_of cs = fold max (map hd dss) (hd ds)"
    using reads_docs [OF assms(1,2)] by (simp add: pivot_of_def)
  show "\<exists>ds \<in> set docss. hd ds = pivot_of cs"
    using fold_max_in [of "map hd dss" "hd ds"] by (auto simp: p docss)
  show "hd es \<le> pivot_of cs" if "es \<in> set docss" for es
    using that fold_max_ge_init fold_max_ge [of "hd es" "map hd dss"] by (auto simp: p docss)
qed

text \<open>What one pass does to the documents of a child: nothing, or a move to the pivot.\<close>

definition passed :: "u64 \<Rightarrow> u64 list \<Rightarrow> u64 list \<Rightarrow> bool" where
  "passed p ds ds' \<longleftrightarrow> ds' = ds \<or> ds' = dropWhile (\<lambda>x. x < p) ds"

lemma passed_cases [simp]: "passed p ds ds" "passed p ds (dropWhile (\<lambda>x. x < p) ds)"
  by (simp_all add: passed_def)

lemma passed_length: "list_all2 (passed p) dss dss' \<Longrightarrow> sum_list (map length dss') \<le> sum_list (map length dss)"
  by (induction rule: list_all2_induct) (auto simp: passed_def intro!: add_mono length_dropWhile_le)

lemma passed_doc_list:
  "list_all2 (passed p) dss dss' \<Longrightarrow> \<forall>ds \<in> set dss. doc_list ds \<Longrightarrow> \<forall>ds \<in> set dss'. doc_list ds"
  by (induction rule: list_all2_induct) (auto simp: passed_def doc_list_dropWhile)

lemma common_Cons [simp]: "common (ds # dss) = set ds \<inter> common dss"
  by (auto simp: common_def)

lemma passed_common:
  assumes "list_all2 (passed p) dss dss'" and "\<forall>ds \<in> set dss. doc_list ds"
  shows "common dss \<inter> {x. p \<le> x} = common dss' \<inter> {x. p \<le> x}" and "common dss' \<subseteq> common dss"
  using assms
  by (induction rule: list_all2_induct) (auto simp: passed_def set_dropWhile_doc_list common_def)

lemma align_pass_reads:
  assumes "list_all2 reads cs docss" and "\<forall>ds \<in> set docss. doc_list ds \<and> ds \<noteq> [] \<and> hd ds \<le> p"
  shows "\<exists>stop cs' docss'. align_pass p cs = Some (stop, cs') \<and> list_all2 reads cs' docss' \<and>
     list_all2 (passed p) docss docss' \<and>
     (stop \<longrightarrow> [] \<in> set docss' \<or> (\<forall>ds \<in> set docss'. hd ds = p)) \<and>
     (\<not> stop \<longrightarrow> sum_list (map length docss') < sum_list (map length docss))"
  using assms
proof (induction rule: list_all2_induct)
  case Nil
  then show ?case by auto
next
  case (Cons c cs ds dss)
  have same: "list_all2 (passed p) dss dss" by (simp add: list.rel_refl)
  from Cons obtain stop cs' dss' where ih: "align_pass p cs = Some (stop, cs')" "list_all2 reads cs' dss'"
    "list_all2 (passed p) dss dss'" "stop \<longrightarrow> [] \<in> set dss' \<or> (\<forall>ds \<in> set dss'. hd ds = p)"
    "\<not> stop \<longrightarrow> sum_list (map length dss') < sum_list (map length dss)" by auto
  show ?case
  proof (cases "hd ds = p")
    case True
    then have "align_pass p (c # cs) = Some (stop, c # cs')"
      using Cons ih(1) readsD(2) [OF Cons.hyps(1)] by simp
    then show ?thesis
      using Cons.hyps(1) ih True
      by (intro exI [of _ stop] exI [of _ "c # cs'"] exI [of _ "ds # dss'"]) (auto simp del: align_pass.simps)
  next
    case False
    then have lt: "hd ds < p" "d_Doc c \<noteq> p" using Cons.prems readsD(2) [OF Cons.hyps(1)] by auto
    let ?ds = "dropWhile (\<lambda>x. x < p) ds"
    have less: "length ?ds < length ds" using lt Cons.prems by (intro length_dropWhile_less) auto
    from readsD(4) [OF Cons.hyps(1), of p] obtain u where
      u: "d_GoUntil c p NO_MORE_DOCS = Some u" "reads u ?ds" by blast
    note at = readsD(1,2) [OF u(2)]
    show ?thesis
    proof (cases "?ds = [] \<or> hd ?ds \<noteq> p")
      case True
      then have "align_pass p (c # cs) = Some (?ds = [], u # cs)" using lt u at by auto
      then show ?thesis
        using u Cons.hyps(2) same less
        by (intro exI [of _ "?ds = []"] exI [of _ "u # cs"] exI [of _ "?ds # dss"]) (auto simp del: align_pass.simps dropWhile_eq_Nil_conv)
    next
      case False
      then have "align_pass p (c # cs) = Some (stop, u # cs')" using lt u at ih(1) by auto
      then show ?thesis
        using u ih less False passed_length [OF ih(3)]
        by (intro exI [of _ stop] exI [of _ "u # cs'"] exI [of _ "?ds # dss'"]) (auto simp del: align_pass.simps)
    qed
  qed
qed

lemma AlignToPivot_reads:
  assumes "list_all2 reads cs docss" and "\<forall>ds \<in> set docss. doc_list ds" and "cs \<noteq> []"
  shows "\<exists>cs' docss'. AlignToPivot cs = Some cs' \<and> list_all2 reads cs' docss' \<and> cs' \<noteq> [] \<and>
     (\<forall>ds \<in> set docss'. doc_list ds) \<and> common docss' = common docss \<and> settled docss'"
  using assms
proof (induction "sum_list (map length docss)" arbitrary: cs docss rule: less_induct)
  case less
  show ?case
  proof (cases "[] \<in> set docss")
    case True
    then have "AlignToPivot cs = Some cs"
      using list_ex_reads [OF less.prems(1)] by (subst AlignToPivot.simps) simp
    then show ?thesis using less.prems True by (auto simp: settled_def)
  next
    case False
    note piv = pivot_of_reads [OF less.prems(1) False less.prems(3)]
    from less.prems False piv(2)
    have "\<forall>ds \<in> set docss. doc_list ds \<and> ds \<noteq> [] \<and> hd ds \<le> pivot_of cs" by auto
    from align_pass_reads [OF less.prems(1) this] obtain stop cs' docss' where
      pass: "align_pass (pivot_of cs) cs = Some (stop, cs')" "list_all2 reads cs' docss'"
        "list_all2 (passed (pivot_of cs)) docss docss'"
        "stop \<Longrightarrow> [] \<in> set docss' \<or> (\<forall>ds \<in> set docss'. hd ds = pivot_of cs)"
        "\<not> stop \<Longrightarrow> sum_list (map length docss') < sum_list (map length docss)" by blast
    note lists = passed_doc_list [OF pass(3) less.prems(2)]
    have nonempty: "cs' \<noteq> []" using pass(2,3) less.prems by (auto dest: list_all2_lengthD)
    have "common docss \<subseteq> {x. pivot_of cs \<le> x}"
      using piv(1) less.prems(2) doc_list_hd_le by (fastforce simp: common_def)
    then have common: "common docss' = common docss"
      using passed_common [OF pass(3) less.prems(2)] by blast
    have unfold: "AlignToPivot cs = (if stop then Some cs' else AlignToPivot cs')"
      using list_ex_reads [OF less.prems(1)] False pass(1) by (subst AlignToPivot.simps) simp
    show ?thesis
    proof (cases stop)
      case True
      then have "settled docss'"
        using pass(4) nonempty pass(2) by (cases docss') (auto simp: settled_def)
      then show ?thesis using True unfold pass(2) lists common nonempty by auto
    next
      case False
      from less.hyps [OF pass(5) [OF False] pass(2) lists nonempty] False show ?thesis
        by (simp add: unfold common)
    qed
  qed
qed

lemma common_docs: "common docss \<subseteq> set (hd docss)" if "docss \<noteq> []"
  using that by (cases docss) auto

lemma finite_common: "docss \<noteq> [] \<Longrightarrow> finite (common docss)"
  using common_docs finite_subset by blast

text \<open>The documents of a set, in order.\<close>

definition doc_order :: "u64 set \<Rightarrow> u64 list" where
  "doc_order D = sorted_list_of_set D"

lemma doc_list_order: "finite D \<Longrightarrow> (\<And>d. d \<in> D \<Longrightarrow> d < NO_MORE_DOCS) \<Longrightarrow> doc_list (doc_order D)"
  by (simp add: doc_list_def doc_order_def)

lemma set_doc_order [simp]: "finite D \<Longrightarrow> set (doc_order D) = D"
  by (simp add: doc_order_def)

lemma each_reads:
  assumes "list_all2 reads cs docss"
    and "\<And>c ds. c \<in> set cs \<Longrightarrow> ds \<in> set docss \<Longrightarrow> reads c ds \<Longrightarrow> \<exists>c'. f c = Some c' \<and> reads c' (g ds)"
  shows "\<exists>cs'. each f cs = Some cs' \<and> list_all2 reads cs' (map g docss)"
  using assms
proof (induction rule: list_all2_induct)
  case (Cons c cs ds dss)
  from Cons.prems [of c ds] Cons.hyps(1) obtain c' where c': "f c = Some c'" "reads c' (g ds)" by auto
  have "\<And>c ds. c \<in> set cs \<Longrightarrow> ds \<in> set dss \<Longrightarrow> reads c ds \<Longrightarrow> \<exists>c'. f c = Some c' \<and> reads c' (g ds)"
    using Cons.prems by auto
  from Cons.IH [OF this] c' show ?case by auto
qed simp

lemma mask_children_reads:
  assumes "list_all2 reads cs docss"
  shows "\<exists>m cs'. mask_children P cs = Some (m, cs') \<and> list_all2 reads cs' docss"
  using assms
proof (induction rule: list_all2_induct)
  case (Cons c cs ds dss)
  from readsD(5) [OF Cons.hyps(1)] Cons.IH Cons.hyps(1) show ?case by fastforce
qed simp

lemma and_stands_AlignToPivot:
  assumes "list_all2 reads cs docss" and "\<forall>ds \<in> set docss. doc_list ds" and "cs \<noteq> []"
    and "doc_list docs" and "set docs = common docss"
  shows "\<exists>cs'. AlignToPivot cs = Some cs' \<and> and_stands cs' docs"
  using AlignToPivot_reads [OF assms(1-3)] assms(4,5) unfolding and_stands_def by metis

lemma settled_common:
  assumes "settled docss" and "docss \<noteq> []" and "\<forall>ds \<in> set docss. doc_list ds"
    and "doc_list docs" and "set docs = common docss"
  shows "docs = [] \<longleftrightarrow> [] \<in> set docss" and "docs \<noteq> [] \<Longrightarrow> ds \<in> set docss \<Longrightarrow> ds \<noteq> [] \<and> hd ds = hd docs"
proof -
  have empty: "docs = []" if "[] \<in> set docss"
  proof -
    from that have "common docss \<subseteq> set []" unfolding common_def by (rule INF_lower)
    then show ?thesis using assms(5) by simp
  qed
  have same: "docs \<noteq> [] \<and> (\<forall>ds \<in> set docss. hd ds = hd docs)" if ne: "[] \<notin> set docss"
  proof -
    have hds: "\<forall>ds \<in> set docss. hd ds = hd (hd docss)" using assms(1) ne by (simp add: settled_def)
    have "ds \<noteq> [] \<and> hd (hd docss) \<in> set ds" if "ds \<in> set docss" for ds
      using that ne hds hd_in_set [of ds] by (cases ds) auto
    then have "hd (hd docss) \<in> set docs" by (auto simp: assms(5) common_def)
    moreover have "hd (hd docss) \<le> y" if "y \<in> set docs" for y
      using that assms(2,3,5) common_docs [of docss] doc_list_hd_le [of "hd docss" y] by auto
    ultimately show ?thesis using doc_list_minimum [OF assms(4)] hds by metis
  qed
  show "docs = [] \<longleftrightarrow> [] \<in> set docss" using empty same by blast
  show "docs \<noteq> [] \<Longrightarrow> ds \<in> set docss \<Longrightarrow> ds \<noteq> [] \<and> hd ds = hd docs" using empty same by blast
qed

lemma and_stands_ops:
  assumes "and_stands cs docs"
  shows "and_IsEnd cs \<longleftrightarrow> docs = []" and "docs \<noteq> [] \<Longrightarrow> and_GetDocumentID cs = hd docs"
    and "\<exists>cs'. and_GoNext cs = Some cs' \<and> and_stands cs' (tl docs)"
    and "\<exists>cs'. and_GoUntil t NO_MORE_DOCS cs = Some cs' \<and> and_stands cs' (dropWhile (\<lambda>x. x < t) docs)"
    and "\<exists>m cs'. and_GetSourceMask cs = Some (m, cs') \<and> and_stands cs' docs"
proof -
  from assms obtain docss where s: "list_all2 reads cs docss" "cs \<noteq> []" "\<forall>ds \<in> set docss. doc_list ds"
    "doc_list docs" "set docs = common docss" "settled docss" by (auto simp: and_stands_def)
  then have ne: "docss \<noteq> []" by auto
  note at = settled_common [OF s(6) ne s(3-5)]
  show isend: "and_IsEnd cs \<longleftrightarrow> docs = []" using s(2) at(1) list_ex_reads [OF s(1)] by (simp add: and_IsEnd_def)
  have doc: "d_Doc c = hd docs" if "docs \<noteq> []" "c \<in> set cs" for c
    using that reads_docs [OF s(1)] at
    by (metis (no_types, opaque_lifting) imageE image_eqI list.set_map)
  show getdoc: "and_GetDocumentID cs = hd docs" if "docs \<noteq> []"
    using that isend doc [OF that] s(2) by (simp add: and_GetDocumentID_def)
  have elim: "\<exists>cs'. AlignToPivot ds = Some cs' \<and> and_stands cs' docs'"
    if "list_all2 reads ds (map g docss)" "\<And>ds. doc_list ds \<Longrightarrow> doc_list (g ds)" "doc_list docs'"
      "set docs' = common (map g docss)" for ds g docs'
    using that s(2,3) ne by (intro and_stands_AlignToPivot) (auto dest: list_all2_lengthD)
  show "\<exists>cs'. and_GoNext cs = Some cs' \<and> and_stands cs' (tl docs)"
  proof (cases "docs = []")
    case False
    let ?f = "\<lambda>c. if \<not> d_IsEnd c \<and> d_Doc c = hd docs then d_GoNext c else Some c"
    have "\<exists>cs'. each ?f cs = Some cs' \<and> list_all2 reads cs' (map tl docss)"
      using doc [OF False] at(2) [OF False] readsD(1,3) by (intro each_reads [OF s(1)]) auto
    then obtain cs' where cs': "each ?f cs = Some cs'" "list_all2 reads cs' (map tl docss)" by blast
    have "set (tl docs) = common (map tl docss)"
      using s(3) ne at(2) [OF False] by (auto simp: set_tl_doc_list [OF s(4) False] s(5) set_tl_doc_list common_def)
    from elim [OF cs'(2) doc_list_tl doc_list_tl [OF s(4)] this] cs'(1) False show ?thesis
      by (simp add: and_GoNext_def isend getdoc)
  qed (use assms isend in \<open>simp add: and_GoNext_def\<close>)
  show "\<exists>cs'. and_GoUntil t NO_MORE_DOCS cs = Some cs' \<and> and_stands cs' (dropWhile (\<lambda>x. x < t) docs)"
  proof -
    let ?g = "dropWhile (\<lambda>x. x < t)"
    from each_reads [OF s(1), of "\<lambda>c. d_GoUntil c t NO_MORE_DOCS" ?g] readsD(4) obtain cs' where
      cs': "each (\<lambda>c. d_GoUntil c t NO_MORE_DOCS) cs = Some cs'" "list_all2 reads cs' (map ?g docss)" by blast
    from ne obtain ds where "ds \<in> set docss" by (cases docss) auto
    then have "set (?g docs) = common (map ?g docss)"
      using s(3)
      by (auto simp: set_dropWhile_doc_list [OF s(4)] s(5) set_dropWhile_doc_list common_def)
    from elim [OF cs'(2) doc_list_dropWhile doc_list_dropWhile [OF s(4)] this] cs'(1) show ?thesis
      by (simp add: and_GoUntil_def)
  qed
  show "\<exists>m cs'. and_GetSourceMask cs = Some (m, cs') \<and> and_stands cs' docs"
  proof -
    from mask_children_reads [OF s(1)] obtain m cs' where
      "and_GetSourceMask cs = Some (m, cs')" "list_all2 reads cs' docss"
      unfolding and_GetSourceMask_def by blast
    then show ?thesis using s ne unfolding and_stands_def by (metis list_all2_Nil)
  qed
qed

interpretation and_r: reader_impl dyn_and and_stands and_IsEnd and_GetDocumentID and_GoNext and_GoUntil
  and_GetSourceMask
  by unfold_locales (use and_stands_ops in \<open>auto\<close>)

subsection \<open>OR and WEAK-AND deliver what enough children deliver\<close>

definition first_doc :: "u64 list \<Rightarrow> u64" where
  "first_doc ds = (case ds of [] \<Rightarrow> NO_MORE_DOCS | d # _ \<Rightarrow> d)"

definition matched :: "nat \<Rightarrow> u64 list list \<Rightarrow> u64 set" where
  "matched m docss = {d. m \<le> length (filter (\<lambda>ds. d \<in> set ds) docss)}"

definition cached_ok :: "cached_reader \<Rightarrow> u64 list list \<Rightarrow> bool" where
  "cached_ok r docss \<longleftrightarrow> list_all2 reads (c_Children r) docss \<and> (\<forall>ds \<in> set docss. doc_list ds) \<and>
     c_ChildDocs r = map first_doc docss \<and> 1 \<le> c_MinShouldMatch r"

lemma child_doc_reads: "reads c ds \<Longrightarrow> child_doc c = first_doc ds"
  using readsD(1,2) by (auto simp: child_doc_def first_doc_def split: list.splits)

lemma first_doc_ne: "first_doc ds \<noteq> NO_MORE_DOCS \<Longrightarrow> ds \<noteq> [] \<and> hd ds = first_doc ds"
  by (cases ds) (simp_all add: first_doc_def)

lemma first_doc_less: "doc_list ds \<Longrightarrow> first_doc ds < NO_MORE_DOCS \<longleftrightarrow> ds \<noteq> []"
  by (cases ds) (auto simp: first_doc_def doc_list_def)

lemma NO_MORE_DOCS_max [simp]: "d \<le> NO_MORE_DOCS" "\<not> NO_MORE_DOCS < d"
  using unsigned_less [of d, where ?'a = nat] by (simp_all add: NO_MORE_DOCS_def word_le_nat_alt word_less_nat_alt)

lemma first_doc_le: "doc_list ds \<Longrightarrow> x \<in> set ds \<Longrightarrow> first_doc ds \<le> x"
  using doc_list_hd_le [of ds x] by (cases ds) (auto simp: first_doc_def)

lemma fold_min_in: "fold min ds d \<in> set (d # ds)" for d :: u64
  by (induction ds arbitrary: d) (auto simp: min_def)

lemma fold_min_le: "fold min ds d \<le> d \<and> (\<forall>x \<in> set ds. fold min ds d \<le> x)" for d :: u64
proof (induction ds arbitrary: d)
  case (Cons e ds)
  from Cons [of "min e d"] show ?case by auto
qed simp

lemma min_doc_le: "x \<in> set docs \<Longrightarrow> min_doc docs \<le> x"
  using fold_min_le by (cases docs) (auto simp: min_doc_def)

lemma min_doc_in: "docs \<noteq> [] \<Longrightarrow> min_doc docs \<in> set docs"
  using fold_min_in by (cases docs) (auto simp: min_doc_def)

text \<open>The least cached document is at the head of every child that still has it.\<close>

lemma min_doc_first:
  assumes "\<forall>ds \<in> set docss. doc_list ds" and "min_doc (map first_doc docss) = doc"
  shows "ds \<in> set docss \<Longrightarrow> x \<in> set ds \<Longrightarrow> doc \<le> x"
    and "doc \<noteq> NO_MORE_DOCS \<Longrightarrow> ds \<in> set docss \<Longrightarrow> first_doc ds = doc \<longleftrightarrow> doc \<in> set ds"
    and "doc \<noteq> NO_MORE_DOCS \<Longrightarrow> \<exists>ds \<in> set docss. first_doc ds = doc"
proof -
  show le: "doc \<le> x" if "ds \<in> set docss" "x \<in> set ds" for ds x
    using min_doc_le [of "first_doc ds" "map first_doc docss"] first_doc_le [of ds x] assms that
    by (auto intro: order_trans)
  show "first_doc ds = doc \<longleftrightarrow> doc \<in> set ds" if "doc \<noteq> NO_MORE_DOCS" "ds \<in> set docss"
    using that assms(1) le [OF that(2)] first_doc_le [of ds doc]
    by (cases ds) (auto simp: first_doc_def intro: order_antisym)
  show "\<exists>ds \<in> set docss. first_doc ds = doc" if "doc \<noteq> NO_MORE_DOCS"
    using that assms(2) min_doc_in [of "map first_doc docss"] by (cases docss) (auto simp: min_doc_def)
qed

lemma move_children_reads:
  assumes "cached_ok r docss" and "distinct is" and "\<forall>i \<in> set is. i < length docss"
    and "\<And>c ds. reads c ds \<Longrightarrow> \<exists>c'. f c = Some c' \<and> reads c' (g ds)" and "\<And>ds. doc_list ds \<Longrightarrow> doc_list (g ds)"
  shows "\<exists>r'. move_children f is r = Some r' \<and>
     cached_ok r' (map (\<lambda>i. if i \<in> set is then g (docss ! i) else docss ! i) [0..<length docss]) \<and>
     c_MinShouldMatch r' = c_MinShouldMatch r \<and> c_Matching r' = c_Matching r \<and> c_CurrentDoc r' = c_CurrentDoc r"
  using assms(1-3)
proof (induction "is" arbitrary: r docss)
  case Nil
  then show ?case by (simp add: map_nth)
next
  case (Cons i "is")
  have i: "i < length docss" "reads (c_Children r ! i) (docss ! i)"
    using Cons.prems by (auto simp: cached_ok_def dest: list_all2_nthD2)
  from assms(4) [OF i(2)] obtain c where c: "f (c_Children r ! i) = Some c" "reads c (g (docss ! i))" by blast
  let ?r = "r\<lparr>c_Children := (c_Children r)[i := c], c_ChildDocs := (c_ChildDocs r)[i := child_doc c]\<rparr>"
  have "cached_ok ?r (docss[i := g (docss ! i)])"
    using Cons.prems i c(2) assms(5)
    by (auto simp: cached_ok_def list_all2_update_cong map_update child_doc_reads set_update_subset_insert
        dest!: set_update_subset_insert [THEN subsetD])
  moreover have "map (\<lambda>j. if j \<in> set is then g (docss[i := g (docss ! i)] ! j) else docss[i := g (docss ! i)] ! j)
      [0..<length docss] = map (\<lambda>j. if j \<in> set (i # is) then g (docss ! j) else docss ! j) [0..<length docss]"
    using Cons.prems i by (auto simp: nth_list_update)
  ultimately have "\<exists>r'. move_children f is ?r = Some r' \<and>
      cached_ok r' (map (\<lambda>j. if j \<in> set (i # is) then g (docss ! j) else docss ! j) [0..<length docss]) \<and>
      c_MinShouldMatch r' = c_MinShouldMatch r \<and> c_Matching r' = c_Matching r \<and> c_CurrentDoc r' = c_CurrentDoc r"
    using Cons.IH [of ?r "docss[i := g (docss ! i)]"] Cons.prems(2,3) by (simp del: map_eq_conv)
  then show ?case by (simp only: move_children.simps c(1) option.case)
qed

lemma move_filtered_reads:
  assumes "cached_ok r docss"
    and "\<And>c ds. reads c ds \<Longrightarrow> \<exists>c'. f c = Some c' \<and> reads c' (g ds)" and "\<And>ds. doc_list ds \<Longrightarrow> doc_list (g ds)"
  shows "\<exists>r'. move_children f (filter (\<lambda>i. P (first_doc (docss ! i))) [0..<length docss]) r = Some r' \<and>
     cached_ok r' (map (\<lambda>ds. if P (first_doc ds) then g ds else ds) docss) \<and>
     c_MinShouldMatch r' = c_MinShouldMatch r"
proof -
  let ?is = "filter (\<lambda>i. P (first_doc (docss ! i))) [0..<length docss]"
  have "map (\<lambda>i. if i \<in> set ?is then g (docss ! i) else docss ! i) [0..<length docss] =
      map (\<lambda>ds. if P (first_doc ds) then g ds else ds) docss"
    by (rule nth_equalityI) auto
  moreover have "\<exists>r'. move_children f ?is r = Some r' \<and>
     cached_ok r' (map (\<lambda>i. if i \<in> set ?is then g (docss ! i) else docss ! i) [0..<length docss]) \<and>
     c_MinShouldMatch r' = c_MinShouldMatch r \<and> c_Matching r' = c_Matching r \<and> c_CurrentDoc r' = c_CurrentDoc r"
    by (rule move_children_reads [OF assms(1) _ _ assms(2,3)]) auto
  ultimately show ?thesis by (simp only: simp_thms) blast
qed

lemma matching_at_docs:
  "matching_at doc (map first_doc docss) = filter (\<lambda>i. first_doc (docss ! i) = doc) [0..<length docss]"
  by (auto simp: matching_at_def intro: filter_cong)

lemma length_matching_at:
  "length (matching_at doc (map first_doc docss)) = length (filter (\<lambda>ds. first_doc ds = doc) docss)"
proof -
  have "filter (\<lambda>ds. first_doc ds = doc) (map ((!) docss) [0..<length docss]) = map ((!) docss) (matching_at doc (map first_doc docss))"
    by (simp add: matching_at_docs filter_map o_def)
  then show ?thesis by (simp add: map_nth)
qed

lemma matched_after_next:
  assumes "cached_ok r docss" and "min_doc (c_ChildDocs r) = doc" and "doc \<noteq> NO_MORE_DOCS" and "0 < m"
  shows "matched m (map (\<lambda>ds. if first_doc ds = doc then tl ds else ds) docss) = matched m docss - {doc}"
proof -
  from assms have lists: "\<forall>ds \<in> set docss. doc_list ds" and min: "min_doc (map first_doc docss) = doc"
    by (auto simp: cached_ok_def)
  let ?g = "\<lambda>ds. if first_doc ds = doc then tl ds else ds"
  have "x \<in> set (?g ds) \<longleftrightarrow> x \<in> set ds \<and> x \<noteq> doc" if "ds \<in> set docss" for x ds
    using that lists min_doc_first(2) [OF lists min assms(3) that] first_doc_ne [of ds] assms(3)
    by (auto simp: set_tl_doc_list)
  then have "filter (\<lambda>ds. x \<in> set (?g ds)) docss = filter (\<lambda>ds. x \<in> set ds \<and> x \<noteq> doc) docss" for x
    by (intro filter_cong) auto
  moreover have "filter (\<lambda>ds. x \<in> set ds \<and> x \<noteq> doc) docss = (if x \<noteq> doc then filter (\<lambda>ds. x \<in> set ds) docss else [])" for x
    by auto
  ultimately show ?thesis using assms(4) by (auto simp: matched_def filter_map o_def)
qed

lemma matched_until:
  assumes "\<forall>ds \<in> set docss. doc_list ds" and "0 < m"
  shows "matched m (map (dropWhile (\<lambda>x. x < t)) docss) = {d \<in> matched m docss. t \<le> d}"
proof -
  have "filter (\<lambda>ds. x \<in> set (dropWhile (\<lambda>x. x < t) ds)) docss = filter (\<lambda>ds. x \<in> set ds \<and> t \<le> x) docss" for x
    using assms(1) by (intro filter_cong) (auto simp: set_dropWhile_doc_list)
  moreover have "filter (\<lambda>ds. x \<in> set ds \<and> t \<le> x) docss = (if t \<le> x then filter (\<lambda>ds. x \<in> set ds) docss else [])" for x
    by auto
  ultimately show ?thesis using assms(2) by (auto simp: matched_def filter_map o_def)
qed

lemma matched_min_doc:
  assumes "cached_ok r docss" and "min_doc (c_ChildDocs r) = doc"
  shows "doc = NO_MORE_DOCS \<Longrightarrow> 0 < m \<Longrightarrow> matched m docss = {}"
    and "d \<in> matched m docss \<Longrightarrow> 0 < m \<Longrightarrow> doc \<le> d"
    and "doc \<noteq> NO_MORE_DOCS \<Longrightarrow> doc \<in> matched m docss \<longleftrightarrow> m \<le> length (matching_at doc (c_ChildDocs r))"
proof -
  from assms have lists: "\<forall>ds \<in> set docss. doc_list ds" and min: "min_doc (map first_doc docss) = doc"
    and docs: "c_ChildDocs r = map first_doc docss" by (auto simp: cached_ok_def)
  have some: "\<exists>ds \<in> set docss. d \<in> set ds" if "d \<in> matched m docss" "0 < m" for d
    using that by (auto simp: matched_def filter_empty_conv dest: order.strict_trans2)
  show le: "doc \<le> d" if "d \<in> matched m docss" "0 < m" for d
    using some [OF that] min_doc_first(1) [OF lists min] by blast
  show "matched m docss = {}" if "doc = NO_MORE_DOCS" "0 < m"
  proof (rule ccontr)
    assume "matched m docss \<noteq> {}"
    then obtain d where d: "d \<in> matched m docss" by blast
    with some that lists have "d < NO_MORE_DOCS" by (auto simp: doc_list_def)
    with le [OF d that(2)] that(1) show False by simp
  qed
  show "doc \<in> matched m docss \<longleftrightarrow> m \<le> length (matching_at doc (c_ChildDocs r))" if "doc \<noteq> NO_MORE_DOCS"
  proof -
    have "filter (\<lambda>ds. first_doc ds = doc) docss = filter (\<lambda>ds. doc \<in> set ds) docss"
      using min_doc_first(2) [OF lists min that] by (intro filter_cong) auto
    then show ?thesis by (simp add: matched_def docs length_matching_at)
  qed
qed

definition cached_stands :: "cached_reader \<Rightarrow> u64 list \<Rightarrow> bool" where
  "cached_stands r docs \<longleftrightarrow> (\<exists>docss. cached_ok r docss \<and> doc_list docs \<and>
     set docs = matched (unat (c_MinShouldMatch r)) docss \<and> c_CurrentDoc r = min_doc (c_ChildDocs r) \<and>
     (if c_CurrentDoc r = NO_MORE_DOCS then c_Matching r = []
      else c_Matching r = matching_at (c_CurrentDoc r) (c_ChildDocs r) \<and>
        c_CurrentDoc r \<in> matched (unat (c_MinShouldMatch r)) docss))"

lemma min_should_match_pos: "cached_ok r docss \<Longrightarrow> 0 < unat (c_MinShouldMatch r)"
  by (auto simp: cached_ok_def word_le_nat_alt)

lemma advance_matching:
  assumes "cached_ok r docss" and "min_doc (c_ChildDocs r) = doc" and "doc \<noteq> NO_MORE_DOCS"
  shows "\<exists>r'. move_children d_GoNext (matching_at doc (c_ChildDocs r)) r = Some r' \<and>
     cached_ok r' (map (\<lambda>ds. if first_doc ds = doc then tl ds else ds) docss) \<and>
     c_MinShouldMatch r' = c_MinShouldMatch r"
  using move_filtered_reads [OF assms(1) readsD(3) doc_list_tl, where P = "\<lambda>d. d = doc"] assms(1)
  by (simp add: cached_ok_def matching_at_docs)

lemma advance_matching_shorter:
  assumes "cached_ok r docss" and "min_doc (c_ChildDocs r) = doc" and "doc \<noteq> NO_MORE_DOCS"
  shows "sum_list (map length (map (\<lambda>ds. if first_doc ds = doc then tl ds else ds) docss)) < sum_list (map length docss)"
proof -
  let ?g = "\<lambda>ds. if first_doc ds = doc then tl ds else ds"
  from assms have lists: "\<forall>ds \<in> set docss. doc_list ds" and min: "min_doc (map first_doc docss) = doc"
    by (auto simp: cached_ok_def)
  from min_doc_first(3) [OF lists min assms(3)] obtain ds where ds: "ds \<in> set docss" "first_doc ds = doc" by blast
  then have "length (?g ds) < length ds" using assms(3) first_doc_ne [of ds] by simp
  moreover obtain xs ys where split: "docss = xs @ ds # ys" using ds(1) split_list by fastforce
  have "sum_list (map (length \<circ> ?g) zs) \<le> sum_list (map length zs)" for zs
    by (rule sum_list_mono) auto
  from this [of xs] this [of ys] calculation show ?thesis by (simp add: split)
qed

lemma cached_ok_update [simp]:
  "cached_ok (r\<lparr>c_Matching := ms\<rparr>) docss \<longleftrightarrow> cached_ok r docss"
  "cached_ok (r\<lparr>c_CurrentDoc := d\<rparr>) docss \<longleftrightarrow> cached_ok r docss"
  by (simp_all add: cached_ok_def)

lemma AlignToMatch_stands:
  assumes "cached_ok r docss" and "doc_list docs" and "set docs = matched (unat (c_MinShouldMatch r)) docss"
  shows "\<exists>r'. AlignToMatch r = Some r' \<and> cached_stands r' docs \<and> c_MinShouldMatch r' = c_MinShouldMatch r"
  using assms
proof (induction "sum_list (map length docss)" arbitrary: r docss rule: less_induct)
  case less
  let ?doc = "min_doc (c_ChildDocs r)" and ?ms = "matching_at (min_doc (c_ChildDocs r)) (c_ChildDocs r)"
    and ?docss = "map (\<lambda>ds. if first_doc ds = min_doc (c_ChildDocs r) then tl ds else ds) docss"
  note at = matched_min_doc [OF less.prems(1) refl] and pos = min_should_match_pos [OF less.prems(1)]
  consider (over) "?doc = NO_MORE_DOCS" | (hit) "?doc \<noteq> NO_MORE_DOCS" "unat (c_MinShouldMatch r) \<le> length ?ms"
    | (skip) "?doc \<noteq> NO_MORE_DOCS" "length ?ms < unat (c_MinShouldMatch r)" by linarith
  then show ?case
  proof cases
    case over
    then have "AlignToMatch r = Some (r\<lparr>c_CurrentDoc := NO_MORE_DOCS, c_Matching := []\<rparr>)"
      by (subst AlignToMatch.simps) simp
    then show ?thesis using less.prems over by (auto simp: cached_stands_def)
  next
    case hit
    then have "AlignToMatch r = Some (r\<lparr>c_Matching := ?ms, c_CurrentDoc := ?doc\<rparr>)"
      by (subst AlignToMatch.simps) (simp add: Let_def)
    then show ?thesis using less.prems hit at(3) [OF hit(1)] by (auto simp: cached_stands_def)
  next
    case skip
    from advance_matching [of "r\<lparr>c_Matching := ?ms\<rparr>" docss ?doc] less.prems(1) skip(1) obtain r' where
      r': "move_children d_GoNext ?ms (r\<lparr>c_Matching := ?ms\<rparr>) = Some r'" "cached_ok r' ?docss"
        "c_MinShouldMatch r' = c_MinShouldMatch r" by auto
    have "AlignToMatch r = AlignToMatch r'"
      using skip r'(1) by (subst AlignToMatch.simps) (simp add: Let_def)
    moreover have "set docs = matched (unat (c_MinShouldMatch r')) ?docss"
      using less.prems(3) at(3) [OF skip(1)] skip(2)
      by (simp only: matched_after_next [OF less.prems(1) refl skip(1) pos] r'(3)) auto
    ultimately show ?thesis
      using less.hyps [OF advance_matching_shorter [OF less.prems(1) refl skip(1)] r'(2) less.prems(2)] r'(3)
      by simp
  qed
qed

lemma RefreshCurrentDoc_stands:
  assumes "cached_ok r docss" and "doc_list docs" and "set docs = matched 1 docss" and "c_MinShouldMatch r = 1"
  shows "cached_stands (RefreshCurrentDoc r) docs \<and> c_MinShouldMatch (RefreshCurrentDoc r) = 1"
proof (cases "min_doc (c_ChildDocs r) = NO_MORE_DOCS")
  case False
  from assms have lists: "\<forall>ds \<in> set docss. doc_list ds" and childs: "c_ChildDocs r = map first_doc docss"
    by (auto simp: cached_ok_def)
  from False min_doc_first(2,3) [OF lists] have "\<exists>ds \<in> set docss. min_doc (c_ChildDocs r) \<in> set ds"
    unfolding childs by blast
  then have "min_doc (c_ChildDocs r) \<in> matched 1 docss"
    by (auto simp: matched_def Suc_le_eq length_greater_0_conv filter_empty_conv)
  then show ?thesis using assms False by (auto simp: cached_stands_def RefreshCurrentDoc_def Let_def)
qed (use assms in \<open>auto simp: cached_stands_def RefreshCurrentDoc_def Let_def\<close>)

lemma cached_stands_at:
  assumes "cached_stands r docs"
  shows "cached_IsEnd r \<longleftrightarrow> docs = []" and "docs \<noteq> [] \<Longrightarrow> c_CurrentDoc r = hd docs"
proof -
  from assms obtain docss where s: "cached_ok r docss" "doc_list docs"
    "set docs = matched (unat (c_MinShouldMatch r)) docss" "c_CurrentDoc r = min_doc (c_ChildDocs r)"
    "c_CurrentDoc r \<noteq> NO_MORE_DOCS \<Longrightarrow> c_CurrentDoc r \<in> set docs"
    by (auto simp: cached_stands_def split: if_splits)
  note at = matched_min_doc [OF s(1) s(4) [symmetric]] and pos = min_should_match_pos [OF s(1)]
  show e: "cached_IsEnd r \<longleftrightarrow> docs = []"
    using at(1) [OF _ pos] s(3,5) unfolding cached_IsEnd_def by (metis empty_iff list.set(1) set_empty)
  show "c_CurrentDoc r = hd docs" if "docs \<noteq> []"
    using that e s(2,3,5) at(2) [OF _ pos] doc_list_minimum [of docs "c_CurrentDoc r"] by (auto simp: cached_IsEnd_def)
qed

lemma cached_stands_next:
  assumes "cached_stands r docs" and "docs \<noteq> []"
  shows "\<exists>r' docss. move_children d_GoNext (c_Matching r) r = Some r' \<and> cached_ok r' docss \<and>
     doc_list (tl docs) \<and> set (tl docs) = matched (unat (c_MinShouldMatch r)) docss \<and>
     c_MinShouldMatch r' = c_MinShouldMatch r"
proof -
  have ne: "c_CurrentDoc r \<noteq> NO_MORE_DOCS" using cached_stands_at(1) [OF assms(1)] assms(2) by (simp add: cached_IsEnd_def)
  with assms(1) obtain docss where s: "cached_ok r docss" "doc_list docs"
    "set docs = matched (unat (c_MinShouldMatch r)) docss" "c_CurrentDoc r = min_doc (c_ChildDocs r)"
    "c_Matching r = matching_at (c_CurrentDoc r) (c_ChildDocs r)"
    by (auto simp: cached_stands_def)
  from advance_matching [OF s(1) s(4) [symmetric] ne] s(5) obtain r' where
    r': "move_children d_GoNext (c_Matching r) r = Some r'"
      "cached_ok r' (map (\<lambda>ds. if first_doc ds = c_CurrentDoc r then tl ds else ds) docss)"
      "c_MinShouldMatch r' = c_MinShouldMatch r" by auto
  have "set (tl docs) = matched (unat (c_MinShouldMatch r)) (map (\<lambda>ds. if first_doc ds = c_CurrentDoc r then tl ds else ds) docss)"
    using s(3) cached_stands_at(2) [OF assms] set_tl_doc_list [OF s(2) assms(2)]
      matched_after_next [OF s(1) s(4) [symmetric] ne min_should_match_pos [OF s(1)]] by metis
  with r' doc_list_tl [OF s(2)] show ?thesis by blast
qed

lemma cached_stands_until:
  assumes "cached_stands r docs"
  shows "\<exists>r' docss. move_children (\<lambda>c. d_GoUntil c t NO_MORE_DOCS)
       (filter (\<lambda>i. c_ChildDocs r ! i < t) [0..<length (c_Children r)]) r = Some r' \<and> cached_ok r' docss \<and>
     doc_list (dropWhile (\<lambda>x. x < t) docs) \<and>
     set (dropWhile (\<lambda>x. x < t) docs) = matched (unat (c_MinShouldMatch r)) docss \<and>
     c_MinShouldMatch r' = c_MinShouldMatch r"
proof -
  let ?drop = "dropWhile (\<lambda>x. x < t)"
  from assms obtain docss where s: "cached_ok r docss" "doc_list docs"
    "set docs = matched (unat (c_MinShouldMatch r)) docss" by (auto simp: cached_stands_def)
  then have lists: "\<forall>ds \<in> set docss. doc_list ds" and len: "length (c_Children r) = length docss"
    and docs: "\<And>i. i < length docss \<Longrightarrow> c_ChildDocs r ! i = first_doc (docss ! i)"
    by (auto simp: cached_ok_def dest: list_all2_lengthD)
  have "filter (\<lambda>i. c_ChildDocs r ! i < t) [0..<length (c_Children r)] =
      filter (\<lambda>i. first_doc (docss ! i) < t) [0..<length docss]"
    unfolding len by (intro filter_cong) (auto simp: docs)
  moreover have same: "(if first_doc ds < t then ?drop ds else ds) = ?drop ds" for ds
    by (cases ds) (auto simp: first_doc_def)
  ultimately obtain r' where r': "move_children (\<lambda>c. d_GoUntil c t NO_MORE_DOCS)
       (filter (\<lambda>i. c_ChildDocs r ! i < t) [0..<length (c_Children r)]) r = Some r'"
      "cached_ok r' (map ?drop docss)" "c_MinShouldMatch r' = c_MinShouldMatch r"
    using move_filtered_reads [OF s(1), of "\<lambda>c. d_GoUntil c t NO_MORE_DOCS" ?drop "\<lambda>d. d < t", OF readsD(4) doc_list_dropWhile]
    unfolding same by (metis (no_types, lifting))
  have "set (?drop docs) = matched (unat (c_MinShouldMatch r)) (map ?drop docss)"
    using s(3) by (simp add: matched_until [OF lists min_should_match_pos [OF s(1)]] set_dropWhile_doc_list [OF s(2)])
  with r' doc_list_dropWhile [OF s(2)] show ?thesis by blast
qed

lemma mask_at_reads:
  assumes "list_all2 reads cs docss" and "\<forall>i \<in> set is. i < length cs"
  shows "\<exists>m cs'. mask_at is cs = Some (m, cs') \<and> list_all2 reads cs' docss"
  using assms
proof (induction "is" arbitrary: cs)
  case (Cons i "is")
  then have i: "i < length cs" "reads (cs ! i) (docss ! i)" by (auto dest: list_all2_nthD)
  from readsD(5) [OF i(2)] obtain m k where k: "d_Mask (cs ! i) = Some (m, k)" "reads k (docss ! i)" by blast
  have "list_all2 reads (cs[i := k]) docss"
    using list_all2_update_cong [OF Cons.prems(1) k(2), of i] by simp
  from Cons.IH [OF this] Cons.prems(2) k(1) show ?case by auto
qed simp

lemma cached_stands_mask:
  assumes "cached_stands r docs"
  shows "\<exists>m r'. cached_GetSourceMask r = Some (m, r') \<and> cached_stands r' docs \<and> c_MinShouldMatch r' = c_MinShouldMatch r"
proof -
  from assms obtain docss where s: "cached_ok r docss" "doc_list docs"
     "set docs = matched (unat (c_MinShouldMatch r)) docss" "c_CurrentDoc r = min_doc (c_ChildDocs r)"
     "if c_CurrentDoc r = NO_MORE_DOCS then c_Matching r = []
      else c_Matching r = matching_at (c_CurrentDoc r) (c_ChildDocs r) \<and>
        c_CurrentDoc r \<in> matched (unat (c_MinShouldMatch r)) docss" by (auto simp: cached_stands_def)
  have "\<forall>i \<in> set (c_Matching r). i < length (c_Children r)"
    using s(1,5) by (auto simp: cached_ok_def matching_at_def dest: list_all2_lengthD split: if_splits)
  from mask_at_reads [OF _ this, of docss] s(1) obtain m cs where
    m: "mask_at (c_Matching r) (c_Children r) = Some (m, cs)" "list_all2 reads cs docss"
    by (auto simp: cached_ok_def)
  then have "cached_ok (r\<lparr>c_Children := cs\<rparr>) docss" using s(1) by (simp add: cached_ok_def)
  then have "cached_stands (r\<lparr>c_Children := cs\<rparr>) docs"
    using s(2-5) unfolding cached_stands_def by (intro exI [of _ docss]) (simp split: if_splits)
  with m(1) show ?thesis by (simp add: cached_GetSourceMask_def)
qed

definition or_stands :: "cached_reader \<Rightarrow> u64 list \<Rightarrow> bool" where
  "or_stands r docs \<longleftrightarrow> cached_stands r docs \<and> c_MinShouldMatch r = 1"

interpretation or_r: reader_impl dyn_or or_stands cached_IsEnd c_CurrentDoc or_GoNext or_GoUntil cached_GetSourceMask
proof
  fix r docs t
  assume "or_stands r docs"
  then have s: "cached_stands r docs" "c_MinShouldMatch r = 1" by (auto simp: or_stands_def)
  show "cached_IsEnd r \<longleftrightarrow> docs = []" "docs \<noteq> [] \<Longrightarrow> c_CurrentDoc r = hd docs" using cached_stands_at [OF s(1)] .
  show "\<exists>r'. or_GoNext r = Some r' \<and> or_stands r' (tl docs)"
  proof (cases "docs = []")
    case False
    from cached_stands_next [OF s(1) False] s(2) RefreshCurrentDoc_stands False cached_stands_at(1) [OF s(1)]
    show ?thesis by (fastforce simp: or_GoNext_def or_stands_def)
  qed (use s cached_stands_at(1) in \<open>auto simp: or_GoNext_def or_stands_def\<close>)
  from cached_stands_until [OF s(1), of t] s(2) RefreshCurrentDoc_stands
  show "\<exists>r'. or_GoUntil t NO_MORE_DOCS r = Some r' \<and> or_stands r' (dropWhile (\<lambda>x. x < t) docs)"
    by (fastforce simp: or_GoUntil_def or_stands_def)
  show "\<exists>m r'. cached_GetSourceMask r = Some (m, r') \<and> or_stands r' docs"
    using cached_stands_mask [OF s(1)] s(2) by (auto simp: or_stands_def)
qed simp_all

interpretation weak: reader_impl dyn_weak cached_stands cached_IsEnd c_CurrentDoc weak_GoNext weak_GoUntil
  cached_GetSourceMask
proof
  fix r docs t
  assume s: "cached_stands r docs"
  show "cached_IsEnd r \<longleftrightarrow> docs = []" "docs \<noteq> [] \<Longrightarrow> c_CurrentDoc r = hd docs" using cached_stands_at [OF s] .
  show "\<exists>r'. weak_GoNext r = Some r' \<and> cached_stands r' (tl docs)"
  proof (cases "docs = []")
    case False
    from cached_stands_next [OF s False] AlignToMatch_stands False cached_stands_at(1) [OF s]
    show ?thesis by (fastforce simp: weak_GoNext_def)
  qed (use s cached_stands_at(1) in \<open>auto simp: weak_GoNext_def\<close>)
  from cached_stands_until [OF s, of t] AlignToMatch_stands
  show "\<exists>r'. weak_GoUntil t NO_MORE_DOCS r = Some r' \<and> cached_stands r' (dropWhile (\<lambda>x. x < t) docs)"
    by (fastforce simp: weak_GoUntil_def)
  show "\<exists>m r'. cached_GetSourceMask r = Some (m, r') \<and> cached_stands r' docs"
    using cached_stands_mask [OF s] by auto
qed simp_all

subsection \<open>BOOST keeps the base documents, NOT drops the excluded ones\<close>

definition boost_stands :: "BoostIndexReader \<Rightarrow> u64 list \<Rightarrow> bool" where
  "boost_stands r docs \<longleftrightarrow> reads (b_Base r) docs \<and> doc_list docs \<and> b_CurrentDoc r = first_doc docs \<and>
     (\<exists>xs. reads (b_Boost r) xs \<and> doc_list xs \<and> b_BoostDoc r = first_doc xs)"

lemma first_doc_at:
  "doc_list ds \<Longrightarrow> first_doc ds = NO_MORE_DOCS \<longleftrightarrow> ds = []" "ds \<noteq> [] \<Longrightarrow> first_doc ds = hd ds"
  by (cases ds; auto simp: first_doc_def doc_list_def)+

lemma BoostMatchesBase_stands:
  assumes "boost_stands r docs"
  shows "\<exists>b r'. BoostMatchesBase r = Some (b, r') \<and> boost_stands r' docs"
proof -
  from assms obtain xs where xs: "reads (b_Boost r) xs" "doc_list xs" by (auto simp: boost_stands_def)
  from readsD(4) [OF xs(1), of "b_CurrentDoc r"] obtain u where
    "d_GoUntil (b_Boost r) (b_CurrentDoc r) NO_MORE_DOCS = Some u"
    "reads u (dropWhile (\<lambda>x. x < b_CurrentDoc r) xs)" by blast
  then show ?thesis
    using assms doc_list_dropWhile [OF xs(2)] child_doc_reads
    by (auto simp: BoostMatchesBase_def boost_stands_def)
qed

lemma boost_mask_stands:
  assumes "boost_stands r docs"
  shows "\<exists>m r'. boost_GetSourceMask r = Some (m, r') \<and> boost_stands r' docs"
proof -
  from assms readsD(5) obtain m k where k: "d_Mask (b_Base r) = Some (m, k)" "reads k docs"
    unfolding boost_stands_def by blast
  with assms have "boost_stands (r\<lparr>b_Base := k\<rparr>) docs" by (auto simp: boost_stands_def)
  from BoostMatchesBase_stands [OF this] obtain b r' where r': "BoostMatchesBase (r\<lparr>b_Base := k\<rparr>) = Some (b, r')"
    "boost_stands r' docs" by blast
  from r'(2) readsD(5) obtain m' k' where k': "d_Mask (b_Boost r') = Some (m', k')" "boost_stands (r'\<lparr>b_Boost := k'\<rparr>) docs"
    by (simp add: boost_stands_def) blast
  show ?thesis using assms k r' k' by (auto simp: boost_GetSourceMask_def)
qed

interpretation boost: reader_impl dyn_boost boost_stands boost_IsEnd b_CurrentDoc boost_GoNext boost_GoUntil
  boost_GetSourceMask
proof
  fix r docs t
  assume s: "boost_stands r docs"
  then have d: "reads (b_Base r) docs" "doc_list docs" by (auto simp: boost_stands_def)
  show e: "boost_IsEnd r \<longleftrightarrow> docs = []" "docs \<noteq> [] \<Longrightarrow> b_CurrentDoc r = hd docs"
    using s first_doc_at by (auto simp: boost_stands_def boost_IsEnd_def)
  have moved: "boost_stands (boost_moved r b) ds" if "reads b ds" "doc_list ds" for b ds
    using s that child_doc_reads by (auto simp: boost_stands_def boost_moved_def)
  from readsD(3) [OF d(1)] moved doc_list_tl [OF d(2)] s e(1)
  show "\<exists>r'. boost_GoNext r = Some r' \<and> boost_stands r' (tl docs)" by (auto simp: boost_GoNext_def)
  from readsD(4) [OF d(1), of t] moved doc_list_dropWhile [OF d(2)]
  show "\<exists>r'. boost_GoUntil t NO_MORE_DOCS r = Some r' \<and> boost_stands r' (dropWhile (\<lambda>x. x < t) docs)"
    by (auto simp: boost_GoUntil_def)
  show "\<exists>m r'. boost_GetSourceMask r = Some (m, r') \<and> boost_stands r' docs" by (rule boost_mask_stands [OF s])
qed simp_all

definition not_stands :: "NotIndexReader \<Rightarrow> u64 list \<Rightarrow> bool" where
  "not_stands r docs \<longleftrightarrow> (\<exists>bs xs. reads (n_Base r) bs \<and> reads (n_Exclude r) xs \<and> doc_list bs \<and> doc_list xs \<and>
     doc_list docs \<and> set docs = set bs - set xs \<and> (bs = [] \<or> hd bs \<notin> set xs))"

lemma not_standsI:
  "reads (n_Base r) bs \<Longrightarrow> reads (n_Exclude r) xs \<Longrightarrow> doc_list bs \<Longrightarrow> doc_list xs \<Longrightarrow> doc_list docs \<Longrightarrow>
   set docs = set bs - set xs \<Longrightarrow> bs = [] \<or> hd bs \<notin> set xs \<Longrightarrow> not_stands r docs"
  unfolding not_stands_def by blast

lemma SkipExcluded_stands:
  assumes "reads (n_Base r) bs" and "reads (n_Exclude r) xs" and "doc_list bs" and "doc_list xs" and "doc_list docs"
    and "set docs = set bs - set xs"
  shows "\<exists>r'. SkipExcluded r = Some r' \<and> not_stands r' docs"
  using assms
proof (induction bs arbitrary: r xs)
  case Nil
  then have "SkipExcluded r = Some r" using readsD(1) [OF Nil.prems(1)] by (subst SkipExcluded.simps) simp
  moreover have "not_stands r docs" by (rule not_standsI [OF Nil.prems]) simp
  ultimately show ?case by simp
next
  case (Cons b bs)
  note base = readsD [OF Cons.prems(1), simplified]
  let ?xs = "dropWhile (\<lambda>x. x < b) xs"
  from readsD(4) [OF Cons.prems(2), of b] obtain x where
    x: "d_GoUntil (n_Exclude r) b NO_MORE_DOCS = Some x" "reads x ?xs" by blast
  have xs: "doc_list ?xs" "set ?xs = {y \<in> set xs. b \<le> y}"
    using Cons.prems by (auto simp: doc_list_dropWhile set_dropWhile_doc_list)
  have same: "set docs = set (b # bs) - set ?xs"
    using Cons.prems(3,6) by (auto simp: xs(2) doc_list_def)
  have "?xs \<noteq> [] \<and> hd ?xs = b" if "b \<in> set ?xs" by (rule doc_list_minimum [OF xs(1) that]) (simp add: xs(2))
  then have hit: "\<not> d_IsEnd x \<and> d_Doc x = b \<longleftrightarrow> b \<in> set ?xs"
    using readsD(1,2) [OF x(2)] hd_in_set [of ?xs] by metis
  from base(3) obtain n where n: "d_GoNext (n_Base r) = Some n" "reads n bs" by auto
  show ?case
  proof (cases "b \<in> set ?xs")
    case True
    then have "SkipExcluded r = SkipExcluded \<lparr>n_Base = n, n_Exclude = x\<rparr>"
      using base(1,2) x(1) n(1) hit by (subst SkipExcluded.simps) (simp add: Let_def)
    moreover have "set docs = set bs - set ?xs" using same True by auto
    ultimately show ?thesis
      using Cons.IH [of "\<lparr>n_Base = n, n_Exclude = x\<rparr>" ?xs] n(2) x(2) xs(1) Cons.prems(3,5) doc_list_tl [of "b # bs"]
      by simp
  next
    case False
    then have "SkipExcluded r = Some (r\<lparr>n_Exclude := x\<rparr>)"
      using base(1,2) x(1) hit by (subst SkipExcluded.simps) (auto simp: Let_def)
    moreover have "not_stands (r\<lparr>n_Exclude := x\<rparr>) docs"
      using Cons.prems x(2) xs(1) same False by (intro not_standsI [of _ "b # bs" ?xs]) simp_all
    ultimately show ?thesis by simp
  qed
qed

interpretation not_r: reader_impl dyn_not not_stands "\<lambda>r. d_IsEnd (n_Base r)" "\<lambda>r. d_Doc (n_Base r)" not_GoNext not_GoUntil
  not_GetSourceMask
proof
  fix r docs t
  assume "not_stands r docs"
  then obtain bs xs where s: "reads (n_Base r) bs" "reads (n_Exclude r) xs" "doc_list bs" "doc_list xs"
     "doc_list docs" "set docs = set bs - set xs" "bs = [] \<or> hd bs \<notin> set xs" by (auto simp: not_stands_def)
  have first: "bs = [] \<longleftrightarrow> docs = []" "bs \<noteq> [] \<Longrightarrow> hd bs = hd docs"
  proof -
    have "docs \<noteq> [] \<and> hd docs = hd bs" if "bs \<noteq> []"
      using that s(6,7) doc_list_hd_le [OF s(3)] by (intro doc_list_minimum [OF s(5)]) auto
    then show "bs = [] \<longleftrightarrow> docs = []" "bs \<noteq> [] \<Longrightarrow> hd bs = hd docs" using s(6) by auto
  qed
  show "d_IsEnd (n_Base r) \<longleftrightarrow> docs = []" "docs \<noteq> [] \<Longrightarrow> d_Doc (n_Base r) = hd docs"
    using readsD(1,2) [OF s(1)] first by auto
  have moved: "\<exists>r'. not_moved r (Some b) = Some r' \<and> not_stands r' ds"
    if "reads b bs'" "doc_list bs'" "doc_list ds" "set ds = set bs' - set xs" for b bs' ds
    using SkipExcluded_stands [of "r\<lparr>n_Base := b\<rparr>" bs' xs ds] that s(2,4) by (simp add: not_moved_def)
  have "set (tl docs) = set (tl bs) - set xs"
    using s(3,5,6) first by (cases "bs = []") (auto simp: set_tl_doc_list)
  from readsD(3) [OF s(1)] moved [OF _ doc_list_tl [OF s(3)] doc_list_tl [OF s(5)] this]
  show "\<exists>r'. not_GoNext r = Some r' \<and> not_stands r' (tl docs)" by (auto simp: not_GoNext_def)
  have "set (dropWhile (\<lambda>x. x < t) docs) = set (dropWhile (\<lambda>x. x < t) bs) - set xs"
    using s(3,5,6) by (auto simp: set_dropWhile_doc_list)
  from readsD(4) [OF s(1), of t] moved [OF _ doc_list_dropWhile [OF s(3)] doc_list_dropWhile [OF s(5)] this]
  show "\<exists>r'. not_GoUntil t NO_MORE_DOCS r = Some r' \<and> not_stands r' (dropWhile (\<lambda>x. x < t) docs)"
    by (auto simp: not_GoUntil_def)
  from readsD(5) [OF s(1)] obtain m k where k: "d_Mask (n_Base r) = Some (m, k)" "reads k bs" by blast
  have "not_stands (r\<lparr>n_Base := k\<rparr>) docs" by (rule not_standsI [OF _ _ s(3-7)]) (use k(2) s(2) in simp_all)
  with k(1) show "\<exists>m r'. not_GetSourceMask r = Some (m, r') \<and> not_stands r' docs"
    by (simp add: not_GetSourceMask_def)
qed simp_all

subsection \<open>The composite readers\<close>

lemma cached_new_ok:
  "list_all2 reads children docss \<Longrightarrow> \<forall>ds \<in> set docss. doc_list ds \<Longrightarrow> cached_ok (cached_new children m) docss"
proof -
  assume a: "list_all2 reads children docss" "\<forall>ds \<in> set docss. doc_list ds"
  from a(1) have "map child_doc children = map first_doc docss"
    by (induction rule: list_all2_induct) (auto simp: child_doc_reads)
  with a show ?thesis by (simp add: cached_ok_def cached_new_def)
qed

lemma finite_matched: "0 < m \<Longrightarrow> finite (matched m docss)"
proof (rule finite_subset)
  assume "0 < m"
  then show "matched m docss \<subseteq> (\<Union>ds \<in> set docss. set ds)"
    by (auto simp: matched_def) (metis (mono_tags, lifting) filter_False le_zero_eq list.size(3) not_gr_zero)
qed simp

lemma matched_docs: "0 < m \<Longrightarrow> d \<in> matched m docss \<Longrightarrow> \<exists>ds \<in> set docss. d \<in> set ds"
  by (auto simp: matched_def) (metis (mono_tags, lifting) filter_False le_zero_eq list.size(3) not_gr_zero)

lemma matched_1: "matched 1 docss = (\<Union>ds \<in> set docss. set ds)"
  by (auto simp: matched_def Suc_le_eq filter_empty_conv)

lemma matched_doc_list:
  "0 < m \<Longrightarrow> \<forall>ds \<in> set docss. doc_list ds \<Longrightarrow>
   doc_list (doc_order (matched m docss)) \<and> set (doc_order (matched m docss)) = matched m docss"
  using doc_list_order [OF finite_matched [of m docss]] matched_docs [of m _ docss] finite_matched [of m docss]
  by (force simp: doc_list_def)

lemma and_new_reads:
  assumes "list_all2 reads children docss" and "\<forall>ds \<in> set docss. doc_list ds" and "children \<noteq> []"
  shows "\<exists>r. AndIndexReader_new children = Some r \<and> reads r (doc_order (\<Inter>ds \<in> set docss. set ds))"
proof -
  have ne: "docss \<noteq> []" using assms(1,3) by auto
  have "doc_list (doc_order (common docss))"
    using assms(2) common_docs [OF ne] hd_in_set [OF ne] finite_common [OF ne]
    by (intro doc_list_order) (auto simp: doc_list_def)
  from and_stands_AlignToPivot [OF assms this] finite_common [OF ne] and_r.reads_dyn show ?thesis
    by (auto simp: AndIndexReader_new_def common_def)
qed

text \<open>
  C9. An AND reader over children that read their lists delivers exactly the documents all of them
  have, in order. Construction and every later method return.
\<close>

theorem AndIndexReader_reads:
  assumes "list_all2 reads children docss" and "\<forall>ds \<in> set docss. doc_list ds" and "children \<noteq> []"
  shows "\<exists>r. AndIndexReader_new children = Some r \<and> reads r (doc_order (\<Inter>ds \<in> set docss. set ds))"
  using assms by (rule and_new_reads)

lemma or_new_reads:
  assumes "list_all2 reads children docss" and "\<forall>ds \<in> set docss. doc_list ds"
  shows "reads (OrIndexReader_new children) (doc_order (\<Union>ds \<in> set docss. set ds))"
  using RefreshCurrentDoc_stands [OF cached_new_ok [OF assms, of 1]] matched_doc_list [OF _ assms(2), of 1] or_r.reads_dyn
  by (simp add: OrIndexReader_new_def or_stands_def cached_new_def matched_1 [simplified])

text \<open>
  C31. An OR reader delivers exactly the documents some child has, each once and in order.
\<close>

theorem OrIndexReader_reads:
  assumes "list_all2 reads children docss" and "\<forall>ds \<in> set docss. doc_list ds"
  shows "reads (OrIndexReader_new children) (doc_order (\<Union>ds \<in> set docss. set ds))"
  using assms by (rule or_new_reads)

lemma weak_new_reads:
  assumes "list_all2 reads children docss" and "\<forall>ds \<in> set docss. doc_list ds"
  shows "\<exists>r. WeakAndIndexReader_new children m = Some r \<and>
     reads r (doc_order {d. unat (max m 1) \<le> length (filter (\<lambda>ds. d \<in> set ds) docss)})"
proof -
  have "0 < unat (max m 1)" using min_should_match_pos [OF cached_new_ok [OF assms, of m]] by (simp add: cached_new_def)
  from AlignToMatch_stands [OF cached_new_ok [OF assms, of m]] matched_doc_list [OF this assms(2)] weak.reads_dyn
  show ?thesis by (fastforce simp: WeakAndIndexReader_new_def cached_new_def matched_def)
qed

text \<open>
  C10. A WEAK-AND reader delivers exactly the documents at least \<open>min_should_match\<close> children have (at
  least one of them, when the caller asks for zero).
\<close>

theorem WeakAndIndexReader_reads:
  assumes "list_all2 reads children docss" and "\<forall>ds \<in> set docss. doc_list ds"
  shows "\<exists>r. WeakAndIndexReader_new children m = Some r \<and>
     reads r (doc_order {d. unat (max m 1) \<le> length (filter (\<lambda>ds. d \<in> set ds) docss)})"
  using assms by (rule weak_new_reads)

lemma not_new_reads:
  assumes "reads base bs" and "reads exclude xs" and "doc_list bs" and "doc_list xs"
  shows "\<exists>r. NotIndexReader_new base exclude = Some r \<and> reads r (doc_order (set bs - set xs))"
proof -
  have "doc_list (doc_order (set bs - set xs))" using assms(3) by (intro doc_list_order) (auto simp: doc_list_def)
  from SkipExcluded_stands [of "\<lparr>n_Base = base, n_Exclude = exclude\<rparr>" bs xs, OF _ _ assms(3,4) this] assms(1,2) not_r.reads_dyn
  show ?thesis by (auto simp: NotIndexReader_new_def)
qed

text \<open>
  A NOT reader delivers exactly the base documents the exclude child does not have.
\<close>

theorem NotIndexReader_reads:
  assumes "reads base bs" and "reads exclude xs" and "doc_list bs" and "doc_list xs"
  shows "\<exists>r. NotIndexReader_new base exclude = Some r \<and> reads r (doc_order (set bs - set xs))"
  using assms by (rule not_new_reads)

lemma doc_order_set: "doc_list ds \<Longrightarrow> doc_order (set ds) = ds"
  by (simp add: doc_order_def doc_list_def sorted_list_of_set.idem_if_sorted_distinct strict_sorted_iff)

lemma boost_new_reads:
  assumes "reads base bs" and "reads boost xs" and "doc_list bs" and "doc_list xs"
  shows "reads (dyn_boost (boost_new base boost)) bs"
  using assms child_doc_reads by (intro boost.reads_dyn) (auto simp: boost_stands_def boost_new_def)

text \<open>
  A BOOST reader delivers the documents of its base child, whatever the boost child delivers.
\<close>

theorem BoostIndexReader_reads:
  assumes "reads base bs" and "reads boost xs" and "doc_list bs" and "doc_list xs"
  shows "reads (dyn_boost (boost_new base boost)) bs"
  using assms by (rule boost_new_reads)

text \<open>A vector reader delivers the documents of its result list.\<close>

lemma VectorIndexReader_reads:
  assumes "distinct results" and "\<forall>d \<in> set results. d < NO_MORE_DOCS"
  shows "reads (dyn_vec (VectorIndexReader_new results)) (doc_order (set results))"
proof -
  have "ascending (sort results)" using assms(1) by (simp add: strict_sorted_iff)
  then have "doc_list (sort results)" using assms(2) by (simp add: doc_list_def)
  moreover from this doc_order_set [of "sort results"] have "doc_order (set results) = sort results" by simp
  ultimately show ?thesis by (intro vec.reads_dyn) (simp add: vec_stands_def VectorIndexReader_new_def)
qed

subsection \<open>Two concrete children\<close>

definition demo_left :: Dyn where "demo_left = dyn_vec (VectorIndexReader_new [7, 3, 5])"

definition demo_right :: Dyn where "demo_right = dyn_vec (VectorIndexReader_new [5, 9, 3])"

lemma demo_reads: "reads demo_left [3, 5, 7]" "reads demo_right [3, 5, 9]"
  using VectorIndexReader_reads [of "[7, 3, 5]"] VectorIndexReader_reads [of "[5, 9, 3]"]
  by (simp_all add: demo_left_def demo_right_def NO_MORE_DOCS_def doc_order_def insert_commute)

lemma demo_lists: "doc_list [3, 5, 7]" "doc_list [3, 5, 9]"
  by (simp_all add: doc_list_def NO_MORE_DOCS_def)

lemma demo_children: "list_all2 reads [demo_left, demo_right] [[3, 5, 7], [3, 5, 9]]"
  "\<forall>ds \<in> set [[3, 5, 7], [3, 5, 9]]. doc_list ds"
  using demo_reads demo_lists by simp_all

theorem AndIndexReader_reads_witness:
  "\<exists>r. AndIndexReader_new [demo_left, demo_right] = Some r \<and> reads r [3, 5]"
  using AndIndexReader_reads [OF demo_children] by (simp add: doc_order_def insert_commute)

theorem OrIndexReader_reads_witness: "reads (OrIndexReader_new [demo_left, demo_right]) [3, 5, 7, 9]"
  using OrIndexReader_reads [OF demo_children] by (simp add: doc_order_def insert_commute)

theorem WeakAndIndexReader_reads_witness:
  "\<exists>r. WeakAndIndexReader_new [demo_left, demo_right] 2 = Some r \<and> reads r [3, 5]"
proof -
  have "{d. 2 \<le> length (filter (\<lambda>ds. d \<in> set ds) [[3, 5, 7], [3, 5, 9]])} = {3, 5 :: u64}"
    by (auto split: if_splits)
  with WeakAndIndexReader_reads [OF demo_children, of 2] show ?thesis
    by (simp add: doc_order_def max_def word_le_nat_alt)
qed

theorem NotIndexReader_reads_witness:
  "\<exists>r. NotIndexReader_new demo_left demo_right = Some r \<and> reads r [7]"
  using NotIndexReader_reads [OF demo_reads demo_lists] by (simp add: doc_order_def)

theorem BoostIndexReader_reads_witness: "reads (dyn_boost (boost_new demo_left demo_right)) [3, 5, 7]"
  by (rule BoostIndexReader_reads [OF demo_reads demo_lists])

end
