(* ===== verification/QueryCompiler.thy ===== *)
theory QueryCompiler
  imports Prelude
begin

text \<open>
  The query expression model (\<open>Compiler/EvalExpression.rs\<close>) and the query compiler
  (\<open>Compiler/IndexSearchCompiler.rs\<close>): from a query string and a set of streams to an expression
  tree.

  Strings are UTF-8 byte sequences: the characters the compiler looks for are all ASCII, which
  never occur inside a longer character. The tokenizer (a trait object in the code) and the
  embedding model are arguments. Weights are the decimal literals of the source as rationals;
  rounding to \<open>f32\<close> is not modelled.

  The second half gives the meaning of an expression as a set of documents, relative to the
  documents of each posting list, and shows what a compiled query means.
\<close>

subsection \<open>Expressions\<close>

record QueryCompileModeParameters =
  QMP_UnigramWeight :: rat
  QMP_BigramWeight :: rat
  QMP_BigramBoostWeight :: rat
  QMP_StaticWeight :: rat
  QMP_PriorWeight :: rat
  QMP_QualityWeight :: rat
  QMP_AuthorityWeight :: rat
  QMP_SpamPenalty :: rat
  QMP_CosineWeight :: rat
  QMP_AnchorWeight :: rat
  QMP_UrlWeight :: rat
  QMP_TitleWeight :: rat
  QMP_BodyWeight :: rat

definition kWeakAndBigramParameters :: QueryCompileModeParameters where
  "kWeakAndBigramParameters =
     \<lparr>QMP_UnigramWeight = 18/10, QMP_BigramWeight = 2/10, QMP_BigramBoostWeight = 0,
      QMP_StaticWeight = 1, QMP_PriorWeight = 0, QMP_QualityWeight = 1, QMP_AuthorityWeight = 5/10,
      QMP_SpamPenalty = 2, QMP_CosineWeight = 16, QMP_AnchorWeight = 1, QMP_UrlWeight = 1,
      QMP_TitleWeight = 1, QMP_BodyWeight = 1\<rparr>"

definition kWeakAndBigramBoostParameters :: QueryCompileModeParameters where
  "kWeakAndBigramBoostParameters =
     \<lparr>QMP_UnigramWeight = 25/100, QMP_BigramWeight = 1, QMP_BigramBoostWeight = 5/10,
      QMP_StaticWeight = 25/100, QMP_PriorWeight = 4, QMP_QualityWeight = 25/100, QMP_AuthorityWeight = 0,
      QMP_SpamPenalty = 4, QMP_CosineWeight = 16, QMP_AnchorWeight = 1, QMP_UrlWeight = 1,
      QMP_TitleWeight = 1, QMP_BodyWeight = 1\<rparr>"

definition kWeakAndBigramBoostForDocParameters :: QueryCompileModeParameters where
  "kWeakAndBigramBoostForDocParameters =
     \<lparr>QMP_UnigramWeight = 9/100, QMP_BigramWeight = 5/10, QMP_BigramBoostWeight = 4,
      QMP_StaticWeight = 25/100, QMP_PriorWeight = 2, QMP_QualityWeight = 1, QMP_AuthorityWeight = 1/10,
      QMP_SpamPenalty = 1, QMP_CosineWeight = 128, QMP_AnchorWeight = 1, QMP_UrlWeight = 1,
      QMP_TitleWeight = 1, QMP_BodyWeight = 1\<rparr>"

datatype QueryCompileMode = Default | WeakAndBigram | WeakAndBigramBoost | WeakAndBigramBoostForDoc

definition GetQueryCompileModeParameters :: "QueryCompileMode \<Rightarrow> QueryCompileModeParameters" where
  "GetQueryCompileModeParameters mode =
     (case mode of
        WeakAndBigramBoost \<Rightarrow> kWeakAndBigramBoostParameters
      | WeakAndBigramBoostForDoc \<Rightarrow> kWeakAndBigramBoostForDocParameters
      | _ \<Rightarrow> kWeakAndBigramParameters)"

definition BIGRAM_SEP :: u8 where "BIGRAM_SEP = 0x1F"

record TermNode =
  stream_key :: rstr
  word_span :: u32

datatype EvalNode =
    TermN TermNode
  | AndN "EvalNode list"
  | OrN "EvalNode list"
  | NotN EvalNode EvalNode
  | WeakAndN "EvalNode list" u32
  | BoostN EvalNode EvalNode rat

record EvalTree =
  root :: "EvalNode option"
  vector_query :: "u32 list"
  vector_ef_search :: nat

definition EvalTree_new :: "EvalNode option \<Rightarrow> EvalTree" where
  "EvalTree_new r = \<lparr>root = r, vector_query = [], vector_ef_search = 200\<rparr>"

definition HasTextQuery :: "EvalTree \<Rightarrow> bool" where "HasTextQuery t \<longleftrightarrow> root t \<noteq> None"

definition HasVectorQuery :: "EvalTree \<Rightarrow> bool" where "HasVectorQuery t \<longleftrightarrow> vector_query t \<noteq> []"

definition IsEmpty :: "EvalTree \<Rightarrow> bool" where
  "IsEmpty t \<longleftrightarrow> \<not> HasTextQuery t \<and> \<not> HasVectorQuery t"

subsection \<open>Characters and words of a query\<close>

definition to_ascii_lowercase :: "rstr \<Rightarrow> rstr" where
  "to_ascii_lowercase s = map (\<lambda>b. if 65 \<le> b \<and> b \<le> 90 then b + 32 else b) s"

definition is_ascii_whitespace :: "u8 \<Rightarrow> bool" where
  "is_ascii_whitespace b \<longleftrightarrow> b = 32 \<or> b = 9 \<or> b = 10 \<or> b = 12 \<or> b = 13"

definition stream_of_char :: "u8 \<Rightarrow> rstr option" where
  "stream_of_char c = (if c \<in> set (str ''AUTBM'') then Some [c] else None)"

definition HasVectorStream :: "rstr \<Rightarrow> bool" where
  "HasVectorStream s \<longleftrightarrow> list_ex (\<lambda>c. c \<in> set (str ''Vv'')) s"

definition ParseStreamSet :: "rstr \<Rightarrow> rstr list" where
  "ParseStreamSet s =
     (let streams = List.map_filter stream_of_char s;
          saw_vector_only_candidate = list_ex (\<lambda>c. c \<in> set (str ''Vv'')) s
      in if streams = [] \<and> \<not> saw_vector_only_candidate then [str ''T''] else streams)"

definition make_term_group :: "rstr \<Rightarrow> rstr list \<Rightarrow> u32 \<Rightarrow> EvalNode" where
  "make_term_group term_s streams wspan =
     (if length streams = 1 then TermN \<lparr>stream_key = term_s @ streams ! 0, word_span = wspan\<rparr>
      else OrN (map (\<lambda>s. TermN \<lparr>stream_key = term_s @ s, word_span = wspan\<rparr>) streams))"

definition streams_for_field :: "rstr \<Rightarrow> rstr list \<Rightarrow> rstr list" where
  "streams_for_field field fallback =
     (let f = to_ascii_lowercase field in
      if f = str ''title'' then [str ''T'']
      else if f = str ''body'' then [str ''B'']
      else if f = str ''url'' \<or> f = str ''site'' then [str ''U'']
      else if f = str ''anchor'' then [str ''A'']
      else if f = str ''meta'' then [str ''M'']
      else fallback)"

definition is_or_token :: "rstr \<Rightarrow> bool" where
  "is_or_token raw \<longleftrightarrow> to_ascii_lowercase raw = str ''or''"

definition is_not_token :: "rstr \<Rightarrow> bool" where
  "is_not_token raw \<longleftrightarrow> raw \<in> {str ''not'', str ''NOT'', str ''Not'', str ''nOT'', str ''-''}"

fun split_loop :: "rstr \<Rightarrow> rstr \<Rightarrow> rstr list" where
  "split_loop current [] = (if current \<noteq> [] then [current] else [])"
| "split_loop current (ch # cs) =
     (if is_ascii_whitespace ch \<or> ch = 44 \<or> ch = 40 \<or> ch = 41
      then (if current \<noteq> [] then current # split_loop [] cs else split_loop [] cs)
      else split_loop (current @ [ch]) cs)"

definition split_raw_items :: "rstr \<Rightarrow> rstr list" where
  "split_raw_items query = split_loop [] query"

subsection \<open>Query terms\<close>

record QueryTerm =
  qt_term :: rstr
  qt_streams :: "rstr list"

definition query_term_key :: "QueryTerm \<Rightarrow> rstr" where
  "query_term_key t = qt_term t @ [0x1E] @ concat (map (\<lambda>s. s @ [44]) (qt_streams t))"

text \<open>The terms whose key is inserted into \<open>seen\<close> for the first time.\<close>

fun first_seen :: "rstr set \<Rightarrow> QueryTerm list \<Rightarrow> QueryTerm list" where
  "first_seen seen [] = []"
| "first_seen seen (t # ts) =
     (if query_term_key t \<in> seen then first_seen seen ts
      else t # first_seen (insert (query_term_key t) seen) ts)"

definition filter_weak_and_terms :: "QueryTerm list \<Rightarrow> QueryTerm list" where
  "filter_weak_and_terms tokens =
     (let filtered = first_seen {} (filter (\<lambda>t. length (qt_term t) > 1) tokens) in
      if filtered \<noteq> [] then filtered
      else first_seen {} (filter (\<lambda>t. qt_term t \<noteq> []) tokens))"

fun find_byte :: "u8 \<Rightarrow> rstr \<Rightarrow> nat option" where
  "find_byte b [] = None"
| "find_byte b (c # cs) = (if c = b then Some 0 else map_option Suc (find_byte b cs))"

text \<open>The positive and the negative terms collected so far.\<close>

type_synonym collected = "QueryTerm list \<times> QueryTerm list"

definition field_and_item :: "rstr list \<Rightarrow> rstr \<Rightarrow> rstr list \<times> rstr" where
  "field_and_item default_streams item =
     (case find_byte 58 item of
        Some colon \<Rightarrow>
          if colon > 0 \<and> colon + 1 < length item
          then (streams_for_field (take colon item) default_streams, drop (colon + 1) item)
          else (default_streams, item)
      | None \<Rightarrow> (default_streams, item))"

definition add_raw_item ::
  "(rstr \<Rightarrow> rstr list) \<Rightarrow> rstr \<Rightarrow> rstr list \<Rightarrow> bool \<Rightarrow> collected \<Rightarrow> collected" where
  "add_raw_item tokenize raw default_streams force_exclude c =
     (if raw = [] \<or> is_or_token raw \<or> is_not_token raw then c
      else
        let has_minus_prefix = hd raw = 45 \<and> length raw > 1;
            exclude = has_minus_prefix \<or> force_exclude;
            item = (if has_minus_prefix then tl raw else raw)
        in if item = [] then c
           else
             let (streams, item) = field_and_item default_streams item;
                 terms = map (\<lambda>token. \<lparr>qt_term = token, qt_streams = streams\<rparr>) (tokenize item)
             in if exclude then (fst c, snd c @ terms) else (fst c @ terms, snd c))"

definition make_query_term_group :: "QueryTerm \<Rightarrow> u32 \<Rightarrow> EvalNode" where
  "make_query_term_group t wspan = make_term_group (qt_term t) (qt_streams t) wspan"

definition bigram_groups :: "QueryTerm list \<Rightarrow> EvalNode list" where
  "bigram_groups terms =
     map (\<lambda>w. make_term_group (qt_term (fst w) @ [BIGRAM_SEP] @ qt_term (snd w)) (qt_streams (fst w)) 2)
       (filter (\<lambda>w. qt_streams (fst w) = qt_streams (snd w)) (zip terms (tl terms)))"

definition build_bigram_query :: "QueryTerm list \<Rightarrow> EvalNode option" where
  "build_bigram_query terms =
     (if length terms < 2 then None
      else case bigram_groups terms of [] \<Rightarrow> None | [g] \<Rightarrow> Some g | gs \<Rightarrow> Some (AndN gs))"

definition build_any_bigram_query :: "QueryTerm list \<Rightarrow> EvalNode option" where
  "build_any_bigram_query terms =
     (if length terms < 2 then None
      else case bigram_groups terms of [] \<Rightarrow> None | [g] \<Rightarrow> Some g | gs \<Rightarrow> Some (OrN gs))"

definition min_should_match_for :: "nat \<Rightarrow> u32" where
  "min_should_match_for term_count = (if term_count \<le> 2 then 1 else if term_count \<le> 5 then 2 else 3)"

definition build_weak_and_base_expression :: "QueryTerm list \<Rightarrow> EvalNode option" where
  "build_weak_and_base_expression terms =
     (if terms = [] then None
      else if length terms = 1 then Some (make_query_term_group (terms ! 0) 1)
      else
        let children = map (\<lambda>t. make_query_term_group t 1) terms
        in Some (WeakAndN children (min (min_should_match_for (length terms)) (word_of_nat (length children)))))"

definition build_weak_and_bigram_expression :: "QueryTerm list \<Rightarrow> EvalNode option" where
  "build_weak_and_bigram_expression tokens =
     (let terms = filter_weak_and_terms tokens
      in case (build_weak_and_base_expression terms, build_any_bigram_query terms) of
           (Some base, Some bigram) \<Rightarrow> Some (OrN [base, bigram])
         | (Some base, None) \<Rightarrow> Some base
         | (None, bigram) \<Rightarrow> bigram)"

definition build_weak_and_bigram_boost_expression :: "QueryTerm list \<Rightarrow> QueryCompileMode \<Rightarrow> EvalNode option" where
  "build_weak_and_bigram_boost_expression tokens mode =
     (let terms = filter_weak_and_terms tokens
      in case build_weak_and_base_expression terms of
           None \<Rightarrow> None
         | Some base \<Rightarrow>
             (case build_any_bigram_query terms of
                None \<Rightarrow> Some base
              | Some bigram \<Rightarrow>
                  Some (BoostN base bigram (QMP_BigramBoostWeight (GetQueryCompileModeParameters mode)))))"

definition build_implicit_expression :: "QueryTerm list \<Rightarrow> QueryCompileMode \<Rightarrow> EvalNode option" where
  "build_implicit_expression tokens mode =
     (case mode of
        WeakAndBigram \<Rightarrow> build_weak_and_bigram_expression tokens
      | WeakAndBigramBoost \<Rightarrow> build_weak_and_bigram_boost_expression tokens mode
      | WeakAndBigramBoostForDoc \<Rightarrow> build_weak_and_bigram_boost_expression tokens mode
      | Default \<Rightarrow>
          (let free_nodes = map (\<lambda>t. make_query_term_group t 1) tokens in
           if free_nodes = [] then None
           else
             let unigram_base = (if length free_nodes = 1 then hd free_nodes else AndN free_nodes)
             in case build_bigram_query tokens of
                  Some bigram \<Rightarrow> Some (OrN [bigram, unigram_base])
                | None \<Rightarrow> Some unigram_base))"

definition build_minus_expression ::
  "QueryTerm list \<Rightarrow> QueryTerm list \<Rightarrow> QueryCompileMode \<Rightarrow> EvalNode option" where
  "build_minus_expression positive negative mode =
     (if negative = [] then build_implicit_expression positive mode
      else if positive = [] then None
      else case build_implicit_expression positive mode of
             None \<Rightarrow> None
           | Some base \<Rightarrow>
               (case build_implicit_expression negative mode of
                  None \<Rightarrow> None | Some exclude \<Rightarrow> Some (NotN base exclude)))"

record parse_state =
  ps_disjuncts :: "EvalNode list"
  ps_terms :: collected
  ps_saw_any :: bool
  ps_next_is_negative :: bool

definition push_disjunct :: "QueryCompileMode \<Rightarrow> parse_state \<Rightarrow> parse_state" where
  "push_disjunct mode p =
     (case build_minus_expression (fst (ps_terms p)) (snd (ps_terms p)) mode of
        Some node \<Rightarrow> p\<lparr>ps_disjuncts := ps_disjuncts p @ [node]\<rparr>
      | None \<Rightarrow> p)"

definition parse_item ::
  "(rstr \<Rightarrow> rstr list) \<Rightarrow> rstr list \<Rightarrow> QueryCompileMode \<Rightarrow> rstr \<Rightarrow> parse_state \<Rightarrow> parse_state" where
  "parse_item tokenize streams mode raw p =
     (if is_or_token raw then (push_disjunct mode p)\<lparr>ps_terms := ([], []), ps_next_is_negative := False\<rparr>
      else if is_not_token raw then p\<lparr>ps_next_is_negative := True\<rparr>
      else p\<lparr>ps_terms := add_raw_item tokenize raw streams (ps_next_is_negative p) (ps_terms p),
             ps_next_is_negative := False, ps_saw_any := True\<rparr>)"

definition parse_expression ::
  "(rstr \<Rightarrow> rstr list) \<Rightarrow> rstr \<Rightarrow> rstr list \<Rightarrow> QueryCompileMode \<Rightarrow> EvalNode option" where
  "parse_expression tokenize query streams mode =
     (let p = fold (parse_item tokenize streams mode) (split_raw_items query)
            \<lparr>ps_disjuncts = [], ps_terms = ([], []), ps_saw_any = False, ps_next_is_negative = False\<rparr>
      in if \<not> ps_saw_any p then None
         else case ps_disjuncts (push_disjunct mode p) of
                [] \<Rightarrow> None | [node] \<Rightarrow> Some node | disjuncts \<Rightarrow> Some (OrN disjuncts))"

definition CompileWithMode :: "(rstr \<Rightarrow> rstr list) \<Rightarrow> rstr \<Rightarrow> rstr \<Rightarrow> QueryCompileMode \<Rightarrow> EvalTree" where
  "CompileWithMode tokenize query stream_set mode =
     (if query = [] then EvalTree_new None
      else
        let streams = ParseStreamSet stream_set
        in EvalTree_new (if streams = [] then None else parse_expression tokenize query streams mode))"

definition Compile :: "(rstr \<Rightarrow> rstr list) \<Rightarrow> rstr \<Rightarrow> rstr \<Rightarrow> EvalTree" where
  "Compile tokenize query stream_set = CompileWithMode tokenize query stream_set Default"

text \<open>The embedding model is its \<open>Embed\<close> method and its dimension; \<open>f32\<close> values are bit patterns.\<close>

definition CompileToVectorWithModel :: "(rstr \<Rightarrow> rstr list) \<Rightarrow> rstr \<Rightarrow> (rstr list \<Rightarrow> u32 list) \<times> nat \<Rightarrow> u32 list" where
  "CompileToVectorWithModel tokenize query model =
     (if query = [] then replicate (snd model) 0 else fst model (tokenize query))"

definition CompileWithEmbeddingModel ::
  "(rstr \<Rightarrow> rstr list) \<Rightarrow> rstr \<Rightarrow> rstr \<Rightarrow> ((rstr list \<Rightarrow> u32 list) \<times> nat) option \<Rightarrow> QueryCompileMode \<Rightarrow> EvalTree" where
  "CompileWithEmbeddingModel tokenize query stream_set embedding_model mode =
     (if query = [] then EvalTree_new None
      else
        let streams = ParseStreamSet stream_set;
            tree = EvalTree_new (if streams = [] then None else parse_expression tokenize query streams mode)
        in if HasVectorStream stream_set then
             (case embedding_model of
                Some model \<Rightarrow> tree\<lparr>vector_query := CompileToVectorWithModel tokenize query model\<rparr>
              | None \<Rightarrow> tree)
           else tree)"

subsection \<open>The documents an expression stands for\<close>

datatype WeakAndBuildMode = FlatPruned | OrChildren | OrChildrenPruned

text \<open>
  \<open>FlattenWeakAndNodes\<close> of \<open>IndexContext.rs\<close>: nested alternatives are spread out, and terms that
  are too frequent (\<open>high_df\<close>) are left out unless \<open>allow_high_df\<close> is set.
\<close>

fun FlattenWeakAndNodes :: "(EvalNode \<Rightarrow> bool) \<Rightarrow> bool \<Rightarrow> EvalNode list \<Rightarrow> EvalNode list" where
  "FlattenWeakAndNodes high_df allow_high_df [] = []"
| "FlattenWeakAndNodes high_df allow_high_df (OrN cs # nodes) =
     FlattenWeakAndNodes high_df allow_high_df cs @ FlattenWeakAndNodes high_df allow_high_df nodes"
| "FlattenWeakAndNodes high_df allow_high_df (node # nodes) =
     (if allow_high_df \<or> \<not> high_df node then [node] else []) @ FlattenWeakAndNodes high_df allow_high_df nodes"

lemma size_FlattenWeakAndNodes:
  "x \<in> set (FlattenWeakAndNodes h a nodes) \<Longrightarrow> size x \<le> size_list size nodes"
  by (induction h a nodes rule: FlattenWeakAndNodes.induct) (auto split: if_splits)

definition at_least :: "nat \<Rightarrow> u64 set list \<Rightarrow> u64 set" where
  "at_least m sets = {d. max m 1 \<le> length (filter (\<lambda>D. d \<in> D) sets)}"

definition live :: "u64 set list \<Rightarrow> u64 set list" where
  "live sets = filter (\<lambda>D. D \<noteq> {}) sets"

definition all_of :: "u64 set list \<Rightarrow> u64 set" where
  "all_of sets = (if sets = [] then {} else \<Inter> (set sets))"

text \<open>
  The meaning of an expression, given the documents \<open>D key\<close> of each posting list. In the pruned
  modes children without documents do not count; in the flattened mode the required number of
  matches follows from the number of children that are left.
\<close>

function node_docs :: "WeakAndBuildMode \<Rightarrow> (EvalNode \<Rightarrow> bool) \<Rightarrow> (rstr \<Rightarrow> u64 set) \<Rightarrow> EvalNode \<Rightarrow> u64 set" where
  "node_docs w h D (TermN t) = D (stream_key t)"
| "node_docs w h D (AndN cs) = all_of (map (node_docs w h D) cs)"
| "node_docs w h D (OrN cs) = \<Union> (set (map (node_docs w h D) cs))"
| "node_docs w h D (NotN b x) = node_docs w h D b - node_docs w h D x"
| "node_docs w h D (BoostN b x q) = node_docs w h D b"
| "node_docs w h D (WeakAndN cs m) =
     (case w of
        OrChildren \<Rightarrow> at_least (unat (min m (word_of_nat (length cs)))) (map (node_docs w h D) cs)
      | OrChildrenPruned \<Rightarrow>
          (let sets = live (map (node_docs w h D) cs)
           in at_least (unat (min m (word_of_nat (length sets)))) sets)
      | FlatPruned \<Rightarrow>
          (let pruned = live (map (node_docs w h D) (FlattenWeakAndNodes h False cs));
               sets = (if pruned = [] then live (map (node_docs w h D) (FlattenWeakAndNodes h True cs)) else pruned)
           in at_least (unat (min_should_match_for (length sets))) sets))"
  by pat_completeness auto
termination
  by (relation "measure (\<lambda>(w, h, D, n). size n)")
    (auto simp: less_Suc_eq_le size_list_estimation' dest: size_FlattenWeakAndNodes)

lemma list_docs_1 [simp]: "at_least m [D] = (if m \<le> 1 then D else {})"
  by (auto simp: at_least_def)

lemma at_least_Nil [simp]: "at_least m [] = {}"
  by (simp add: at_least_def)

text \<open>A query term stands for the documents that have it in one of its streams.\<close>

definition term_docs :: "(rstr \<Rightarrow> u64 set) \<Rightarrow> QueryTerm \<Rightarrow> u64 set" where
  "term_docs D t = (\<Union>s \<in> set (qt_streams t). D (qt_term t @ s))"

lemma node_docs_term_group:
  "node_docs w h D (make_term_group s streams span') = (\<Union>st \<in> set streams. D (s @ st))"
proof (cases "length streams = 1")
  case True
  then obtain st where "streams = [st]" by (auto simp: length_Suc_conv)
  then show ?thesis by (simp add: make_term_group_def)
qed (auto simp: make_term_group_def)

lemma node_docs_query_term [simp]: "node_docs w h D (make_query_term_group t n) = term_docs D t"
  by (simp add: make_query_term_group_def node_docs_term_group term_docs_def)

subsection \<open>What a compiled query means\<close>

text \<open>
  The clauses of a query, as a specification: the raw items are cut at the words \<open>or\<close>; each clause
  is the pair of its positive and its negative terms.
\<close>

fun clauses :: "(rstr \<Rightarrow> rstr list) \<Rightarrow> rstr list \<Rightarrow> bool \<Rightarrow> collected \<Rightarrow> rstr list \<Rightarrow> collected list" where
  "clauses tok ss neg c [] = [c]"
| "clauses tok ss neg c (raw # items) =
     (if is_or_token raw then c # clauses tok ss False ([], []) items
      else if is_not_token raw then clauses tok ss True c items
      else clauses tok ss False (add_raw_item tok raw ss neg c) items)"

definition query_clauses :: "(rstr \<Rightarrow> rstr list) \<Rightarrow> rstr list \<Rightarrow> rstr \<Rightarrow> collected list" where
  "query_clauses tok ss query = clauses tok ss False ([], []) (split_raw_items query)"

definition clause_node :: "QueryCompileMode \<Rightarrow> collected \<Rightarrow> EvalNode option" where
  "clause_node mode c = build_minus_expression (fst c) (snd c) mode"

lemma ps_disjuncts_push:
  "ps_disjuncts (push_disjunct mode p) = ps_disjuncts p @ List.map_filter (clause_node mode) [ps_terms p]"
  by (simp add: push_disjunct_def clause_node_def map_filter_simps split: option.splits)

lemma map_filter_Cons: "List.map_filter f (x # xs) = List.map_filter f [x] @ List.map_filter f xs"
  by (simp add: map_filter_simps split: option.splits)

lemma fold_parse_item:
  "ps_disjuncts (push_disjunct mode (fold (parse_item tok ss mode) items p)) =
   ps_disjuncts p @ List.map_filter (clause_node mode) (clauses tok ss (ps_next_is_negative p) (ps_terms p) items)"
proof (induction items arbitrary: p)
  case Nil
  then show ?case by (simp add: ps_disjuncts_push)
next
  case (Cons raw items)
  have "ps_disjuncts ((push_disjunct mode p)\<lparr>ps_terms := ([], []), ps_next_is_negative := False\<rparr>) =
      ps_disjuncts p @ List.map_filter (clause_node mode) [ps_terms p]"
    using ps_disjuncts_push [of mode p] by simp
  then show ?case
    using Cons.IH
    by (simp add: parse_item_def [of tok ss mode raw] map_filter_Cons [of _ "ps_terms p" "_ # _"]
        map_filter_Cons [of _ "ps_terms p" "clauses tok ss False ([], []) items"] del: map_filter_simps)
qed

lemma saw_any_mono: "ps_saw_any p \<Longrightarrow> ps_saw_any (fold (parse_item tok ss mode) items p)"
  by (induction items arbitrary: p) (auto simp: parse_item_def push_disjunct_def split: option.splits)

lemma clauses_no_items:
  "\<not> ps_saw_any (fold (parse_item tok ss mode) items p) \<Longrightarrow> ps_terms p = ([], []) \<Longrightarrow>
   set (clauses tok ss neg ([], []) items) = {([], [])}"
proof (induction items arbitrary: p neg)
  case (Cons raw items)
  consider (o) "is_or_token raw" | (n) "\<not> is_or_token raw" "is_not_token raw"
    | (t) "\<not> is_or_token raw" "\<not> is_not_token raw" by blast
  then show ?case
  proof cases
    case o
    then show ?thesis
      using Cons.IH [of "(push_disjunct mode p)\<lparr>ps_terms := ([], []), ps_next_is_negative := False\<rparr>" False] Cons.prems
      by (simp add: parse_item_def [of tok ss mode raw])
  next
    case n
    then show ?thesis using Cons.IH [of "p\<lparr>ps_next_is_negative := True\<rparr>" True] Cons.prems by (simp add: parse_item_def [of tok ss mode raw])
  next
    case t
    then show ?thesis using Cons.prems(1) saw_any_mono by (simp add: parse_item_def [of tok ss mode raw])
  qed
qed simp

lemma clause_node_empty [simp]: "clause_node mode ([], []) = None"
  by (cases mode) (simp_all add: clause_node_def build_minus_expression_def build_implicit_expression_def
      build_weak_and_bigram_expression_def build_weak_and_bigram_boost_expression_def filter_weak_and_terms_def
      build_weak_and_base_expression_def build_any_bigram_query_def)

definition join_nodes :: "EvalNode list \<Rightarrow> EvalNode option" where
  "join_nodes ns = (case ns of [] \<Rightarrow> None | [n] \<Rightarrow> Some n | _ \<Rightarrow> Some (OrN ns))"

lemma map_filter_Nil_iff: "List.map_filter f xs = [] \<longleftrightarrow> (\<forall>x \<in> set xs. f x = None)"
  by (induction xs) (auto simp: map_filter_simps split: option.splits)

lemma parse_expression_clauses:
  "parse_expression tok query ss mode = join_nodes (List.map_filter (clause_node mode) (query_clauses tok ss query))"
proof -
  let ?start = "\<lparr>ps_disjuncts = [], ps_terms = ([], []), ps_saw_any = False, ps_next_is_negative = False\<rparr>"
  let ?p = "fold (parse_item tok ss mode) (split_raw_items query) ?start"
  have push: "ps_disjuncts (push_disjunct mode ?p) = List.map_filter (clause_node mode) (query_clauses tok ss query)"
    using fold_parse_item [of mode tok ss "split_raw_items query" ?start] by (simp add: query_clauses_def)
  show ?thesis
  proof (cases "ps_saw_any ?p")
    case True
    then show ?thesis by (simp add: parse_expression_def push join_nodes_def Let_def split: list.splits)
  next
    case False
    then have "set (query_clauses tok ss query) = {([], [])}"
      unfolding query_clauses_def by (rule clauses_no_items) simp
    then have "List.map_filter (clause_node mode) (query_clauses tok ss query) = []" by (simp add: map_filter_Nil_iff)
    then show ?thesis using False by (simp add: parse_expression_def Let_def join_nodes_def)
  qed
qed

definition opt_docs :: "WeakAndBuildMode \<Rightarrow> (EvalNode \<Rightarrow> bool) \<Rightarrow> (rstr \<Rightarrow> u64 set) \<Rightarrow> EvalNode option \<Rightarrow> u64 set" where
  "opt_docs w h D n = (case n of None \<Rightarrow> {} | Some n \<Rightarrow> node_docs w h D n)"

lemma opt_docs_simps [simp]: "opt_docs w h D None = {}" "opt_docs w h D (Some n) = node_docs w h D n"
  by (simp_all add: opt_docs_def)

lemma opt_docs_join: "opt_docs w h D (join_nodes ns) = (\<Union>n \<in> set ns. node_docs w h D n)"
  by (auto simp: join_nodes_def split: list.splits)

lemma set_map_filter: "set (List.map_filter f xs) = {y. \<exists>x \<in> set xs. f x = Some y}"
  by (induction xs) (auto simp: map_filter_simps split: option.splits)

lemma parse_expression_docs:
  "opt_docs w h D (parse_expression tok query ss mode) =
   (\<Union>c \<in> set (query_clauses tok ss query). opt_docs w h D (clause_node mode c))"
proof -
  have "(\<Union>n \<in> {y. \<exists>x \<in> set cs. f x = Some y}. node_docs w h D n) = (\<Union>c \<in> set cs. opt_docs w h D (f c))"
    for f and cs :: "collected list"
    by (force simp: opt_docs_def split: option.splits)
  then show ?thesis by (simp add: parse_expression_clauses opt_docs_join set_map_filter)
qed

text \<open>The letters of the text streams.\<close>

definition text_streams :: "rstr set" where
  "text_streams = {str ''A'', str ''U'', str ''T'', str ''B'', str ''M''}"

lemma text_streams_single: "s \<in> text_streams \<Longrightarrow> \<exists>c. s = [c]"
  by (auto simp: text_streams_def str_def)

text \<open>
  \<open>bigram_sound D\<close>: a document with the bigram of two words in a stream has both words there.
  The writer guarantees it.
\<close>

definition bigram_sound :: "(rstr \<Rightarrow> u64 set) \<Rightarrow> bool" where
  "bigram_sound D \<longleftrightarrow> (\<forall>a b s. s \<in> text_streams \<longrightarrow>
     D (a @ [BIGRAM_SEP] @ b @ s) \<subseteq> D (a @ s) \<inter> D (b @ s))"

definition same_streams :: "QueryTerm list \<Rightarrow> bool" where
  "same_streams ts \<longleftrightarrow> (\<forall>t \<in> set ts. qt_streams t = qt_streams (hd ts)) \<and>
     (\<forall>t \<in> set ts. set (qt_streams t) \<subseteq> text_streams)"

definition conj_docs :: "(rstr \<Rightarrow> u64 set) \<Rightarrow> QueryTerm list \<Rightarrow> u64 set" where
  "conj_docs D ts = (if ts = [] then {} else \<Inter>t \<in> set ts. term_docs D t)"

lemma bigram_docs_subset:
  assumes "bigram_sound D" and "set (qt_streams a) \<subseteq> text_streams"
    and "qt_streams b = qt_streams a"
  shows "node_docs w h D (make_term_group (qt_term a @ [BIGRAM_SEP] @ qt_term b) (qt_streams a) 2)
      \<subseteq> term_docs D a \<inter> term_docs D b"
proof
  fix d assume "d \<in> node_docs w h D (make_term_group (qt_term a @ [BIGRAM_SEP] @ qt_term b) (qt_streams a) 2)"
  then obtain s where s: "s \<in> set (qt_streams a)" "d \<in> D (qt_term a @ [BIGRAM_SEP] @ qt_term b @ s)"
    by (auto simp: node_docs_term_group)
  with assms(2) have "s \<in> text_streams" by blast
  with s(2) assms(1) have "d \<in> D (qt_term a @ s) \<inter> D (qt_term b @ s)" unfolding bigram_sound_def by blast
  with s(1) assms(3) show "d \<in> term_docs D a \<inter> term_docs D b" unfolding term_docs_def by auto
qed

lemma window_exists:
  assumes "2 \<le> length ts" and "t \<in> set ts"
  shows "\<exists>w \<in> set (zip ts (tl ts)). t = fst w \<or> t = snd w"
proof -
  from assms(2) obtain i where i: "i < length ts" "t = ts ! i" by (auto simp: in_set_conv_nth)
  show ?thesis
  proof (cases "Suc i < length ts")
    case True
    then have "(ts ! i, tl ts ! i) \<in> set (zip ts (tl ts))" by (auto simp: set_zip)
    with i show ?thesis by force
  next
    case False
    with i assms(1) obtain j where j: "i = Suc j" "Suc j < length ts" by (cases i) auto
    then have "(ts ! j, tl ts ! j) \<in> set (zip ts (tl ts))" by (auto simp: set_zip)
    with i j show ?thesis by (force simp: nth_tl)
  qed
qed

lemma zip_tl_in_set: "p \<in> set (zip ts (tl ts)) \<Longrightarrow> fst p \<in> set ts \<and> snd p \<in> set ts"
  using list.set_sel(2) [of ts] by (cases p; cases "ts = []") (auto dest: set_zip_leftD set_zip_rightD)

lemma build_bigram_docs:
  assumes "bigram_sound D" and "same_streams ts" and "build_bigram_query ts = Some node"
  shows "node_docs w h D node \<subseteq> conj_docs D ts"
proof -
  have two: "2 \<le> length ts" using assms(3) by (auto simp: build_bigram_query_def split: if_splits)
  have all: "filter (\<lambda>w. qt_streams (fst w) = qt_streams (snd w)) (zip ts (tl ts)) = zip ts (tl ts)"
    using assms(2) zip_tl_in_set [of _ ts] by (auto simp: same_streams_def filter_id_conv)
  have node: "node_docs w h D node = (\<Inter>g \<in> set (bigram_groups ts). node_docs w h D g)"
    using assms(3) by (auto simp: build_bigram_query_def all_of_def split: if_splits list.splits)
  show ?thesis
  proof
    fix d assume d: "d \<in> node_docs w h D node"
    have "d \<in> term_docs D t" if "t \<in> set ts" for t
    proof -
      from window_exists [OF two that] obtain p where p: "p \<in> set (zip ts (tl ts))" "t = fst p \<or> t = snd p" by blast
      let ?g = "make_term_group (qt_term (fst p) @ [BIGRAM_SEP] @ qt_term (snd p)) (qt_streams (fst p)) 2"
      have "?g \<in> set (bigram_groups ts)" using p(1) by (auto simp: bigram_groups_def all)
      with d node have "d \<in> node_docs w h D ?g" by blast
      moreover have "set (qt_streams (fst p)) \<subseteq> text_streams"
        "qt_streams (snd p) = qt_streams (fst p)"
        using zip_tl_in_set [OF p(1)] assms(2) by (auto simp: same_streams_def)
      ultimately show ?thesis using bigram_docs_subset [OF assms(1)] p(2) by blast
    qed
    with two show "d \<in> conj_docs D ts" by (auto simp: conj_docs_def)
  qed
qed

lemma build_implicit_Default_docs:
  assumes "bigram_sound D" and "same_streams ts"
  shows "opt_docs w h D (build_implicit_expression ts Default) = conj_docs D ts"
proof (cases "ts = []")
  case False
  let ?base = "if length ts = 1 then make_query_term_group (hd ts) 1 else AndN (map (\<lambda>t. make_query_term_group t 1) ts)"
  have base: "node_docs w h D ?base = conj_docs D ts"
    using False by (cases ts) (auto simp: conj_docs_def all_of_def o_def)
  show ?thesis
  proof (cases "build_bigram_query ts")
    case None
    then have "build_implicit_expression ts Default = Some ?base"
      using False by (simp add: build_implicit_expression_def Let_def hd_map)
    then show ?thesis using base by simp
  next
    case (Some b)
    then have "build_implicit_expression ts Default = Some (OrN [b, ?base])"
      using False by (simp add: build_implicit_expression_def Let_def hd_map)
    then show ?thesis using build_bigram_docs [OF assms Some] base by auto
  qed
qed (simp add: conj_docs_def build_implicit_expression_def)

text \<open>
  A clause as the code evaluates it: its excluded terms are joined like its positive ones. As
  documented, each excluded term excludes its documents; the two agree on a clause with at most one
  excluded term.
\<close>

definition joint_docs :: "(rstr \<Rightarrow> u64 set) \<Rightarrow> collected \<Rightarrow> u64 set" where
  "joint_docs D c = conj_docs D (fst c) - conj_docs D (snd c)"

definition clause_docs :: "(rstr \<Rightarrow> u64 set) \<Rightarrow> collected \<Rightarrow> u64 set" where
  "clause_docs D c = conj_docs D (fst c) - (\<Union>t \<in> set (snd c). term_docs D t)"

lemma joint_docs_single: "length (snd c) \<le> 1 \<Longrightarrow> joint_docs D c = clause_docs D c"
  by (cases "snd c") (auto simp: joint_docs_def clause_docs_def conj_docs_def)

lemma clause_node_Default_docs:
  assumes "bigram_sound D" and "same_streams (fst c)" and "same_streams (snd c)"
  shows "opt_docs w h D (clause_node Default c) = joint_docs D c"
proof -
  note pos = build_implicit_Default_docs [OF assms(1,2), of w h] and neg = build_implicit_Default_docs [OF assms(1,3), of w h]
  have some: "build_implicit_expression ts Default \<noteq> None" if "ts \<noteq> []" for ts
    using that by (simp add: build_implicit_expression_def Let_def split: option.splits)
  show ?thesis
  proof (cases "fst c = [] \<or> snd c = []")
    case True
    then show ?thesis using pos by (auto simp: clause_node_def build_minus_expression_def joint_docs_def conj_docs_def)
  next
    case False
    then obtain b x where "build_implicit_expression (fst c) Default = Some b" "build_implicit_expression (snd c) Default = Some x"
      using some by (meson option.exhaust)
    then show ?thesis using pos neg False by (simp add: clause_node_def build_minus_expression_def joint_docs_def)
  qed
qed

subsection \<open>Plain queries\<close>

text \<open>
  The part of the documented syntax that the compiler implements as documented: words, the word
  \<open>or\<close>, and the exclusion of at most one word per alternative by \<open>-\<close> or \<open>not\<close>. A plain text has
  no quotation mark, no parenthesis, no colon (no field prefix) and no item \<open>and\<close> in any spelling;
  a plain query is a plain text whose clauses have at most one excluded word after tokenizing.
\<close>

definition plain_text :: "rstr \<Rightarrow> bool" where
  "plain_text query \<longleftrightarrow>
     list_all (\<lambda>b. b \<noteq> 34 \<and> b \<noteq> 40 \<and> b \<noteq> 41 \<and> b \<noteq> 58) query \<and>
     list_all (\<lambda>raw. to_ascii_lowercase raw \<noteq> str ''and'') (split_raw_items query)"

definition plain_clauses :: "(rstr \<Rightarrow> rstr list) \<Rightarrow> rstr list \<Rightarrow> rstr \<Rightarrow> bool" where
  "plain_clauses tok ss query \<longleftrightarrow>
     plain_text query \<and> list_all (\<lambda>c. length (snd c) \<le> 1) (query_clauses tok ss query)"

lemma split_loop_bytes:
  "b \<notin> set current \<Longrightarrow> b \<notin> set input \<Longrightarrow> \<forall>w \<in> set (split_loop current input). b \<notin> set w"
proof (induction input arbitrary: current)
  case (Cons c input)
  from Cons.IH [of "[]"] Cons.IH [of "current @ [c]"] Cons.prems show ?case by simp
qed simp

lemma find_byte_None: "b \<notin> set xs \<Longrightarrow> find_byte b xs = None"
  by (induction xs) auto

lemma add_raw_item_streams:
  assumes "58 \<notin> set raw" and "\<forall>t \<in> set (fst c) \<union> set (snd c). qt_streams t = ss"
  shows "\<forall>t \<in> set (fst (add_raw_item tok raw ss neg c)) \<union> set (snd (add_raw_item tok raw ss neg c)). qt_streams t = ss"
proof -
  have "58 \<notin> set (tl raw)" using assms(1) by (cases raw) auto
  then show ?thesis using assms by (auto simp: add_raw_item_def field_and_item_def find_byte_None Let_def)
qed

lemma clauses_streams:
  assumes "\<forall>raw \<in> set items. 58 \<notin> set raw" and "\<forall>t \<in> set (fst c0) \<union> set (snd c0). qt_streams t = ss"
    and "c \<in> set (clauses tok ss neg c0 items)"
  shows "\<forall>t \<in> set (fst c) \<union> set (snd c). qt_streams t = ss"
  using assms
proof (induction items arbitrary: c0 neg)
  case (Cons raw items)
  note add = add_raw_item_streams [of raw c0 ss tok neg]
  consider (o) "is_or_token raw" | (n) "\<not> is_or_token raw" "is_not_token raw"
    | (t) "\<not> is_or_token raw" "\<not> is_not_token raw" by blast
  then show ?case
  proof cases
    case o
    then show ?thesis using Cons.IH [of "([], [])" False] Cons.prems by auto
  next
    case n
    then show ?thesis using Cons.IH [of c0 True] Cons.prems by simp
  next
    case t
    have "\<forall>t \<in> set (fst (add_raw_item tok raw ss neg c0)) \<union> set (snd (add_raw_item tok raw ss neg c0)). qt_streams t = ss"
      using add Cons.prems(1,2) by simp
    from Cons.IH [OF _ this] Cons.prems(1,3) t show ?thesis by simp
  qed
qed simp

lemma plain_same_streams:
  assumes "plain_text query" and "set ss \<subseteq> text_streams" and "c \<in> set (query_clauses tok ss query)"
  shows "same_streams (fst c) \<and> same_streams (snd c)"
proof -
  have "58 \<notin> set query" using assms(1) by (auto simp: plain_text_def list_all_iff)
  then have "\<forall>raw \<in> set (split_raw_items query). 58 \<notin> set raw"
    unfolding split_raw_items_def using split_loop_bytes [of 58 "[]" query] by simp
  from clauses_streams [OF this _ assms(3) [unfolded query_clauses_def]]
  have "\<forall>t \<in> set (fst c) \<union> set (snd c). qt_streams t = ss" by simp
  then show ?thesis using assms(2) list.set_sel(1) [of "fst c"] list.set_sel(1) [of "snd c"]
    by (cases "fst c"; cases "snd c") (auto simp: same_streams_def)
qed

lemma default_docs:
  assumes "bigram_sound D" and "set ss \<subseteq> text_streams" and "plain_clauses tok ss query"
  shows "opt_docs w h D (parse_expression tok query ss Default) =
    (\<Union>c \<in> set (query_clauses tok ss query). clause_docs D c)"
proof -
  have "opt_docs w h D (clause_node Default c) = clause_docs D c" if c: "c \<in> set (query_clauses tok ss query)" for c
  proof -
    have "same_streams (fst c) \<and> same_streams (snd c)" "length (snd c) \<le> 1"
      using plain_same_streams [OF _ assms(2) c] assms(3) c by (simp_all add: plain_clauses_def list_all_iff)
    then show ?thesis using clause_node_Default_docs [OF assms(1)] joint_docs_single by simp
  qed
  then show ?thesis by (simp add: parse_expression_docs)
qed

text \<open>
  C11. A plain query compiled in the default mode stands for what the syntax says: the documents that
  have, for some alternative between the words \<open>or\<close>, every word in one of the chosen streams and the
  excluded word in none of them. Plain queries have no quotation mark, parenthesis, colon or item
  \<open>and\<close> and exclude at most one word per alternative; the index lists a bigram only where it lists
  both words, as the writer guarantees (\<open>written_bigram_sound\<close>).
\<close>

theorem parse_expression_Default_docs:
  assumes "bigram_sound D" and "set ss \<subseteq> text_streams" and "plain_clauses tok ss query"
  shows "opt_docs w h D (parse_expression tok query ss Default) =
    (\<Union>c \<in> set (query_clauses tok ss query). clause_docs D c)"
  using assms by (rule default_docs)

text \<open>A small index: the posting lists of a few keys. No bigram is indexed but \<open>b c\<close> in the body.\<close>

definition demo_docs :: "rstr \<Rightarrow> u64 set" where
  "demo_docs key =
     (if key = str ''xB'' then {1, 2} else if key = str ''yB'' then {2} else if key = str ''zT'' then {3}
      else if key = str ''bB'' \<or> key = str ''cB'' then {7}
      else if key = str ''b'' @ [BIGRAM_SEP] @ str ''cB'' then {7} else {})"

definition demo_tok :: "rstr \<Rightarrow> rstr list" where "demo_tok s = [s]"

lemma append_stream_eq: "xs @ [s] = ys @ [t] \<longleftrightarrow> xs = ys \<and> s = t"
  by simp

lemma demo_docs_sound: "bigram_sound demo_docs"
proof -
  have split: "a @ 31 # b = [98, 31, 99] \<longleftrightarrow> a = [98] \<and> b = [99]" for a b :: rstr
    by (cases a; cases "tl a") (auto simp: Cons_eq_append_conv append_eq_Cons_conv)
  have none: "a @ 31 # b @ s \<noteq> k" if "31 \<notin> set k" for a b s k :: rstr
    using that by (metis in_set_conv_decomp)
  have key: "demo_docs (a @ [BIGRAM_SEP] @ b @ s) = (if a @ 31 # b @ s = [98, 31, 99, 66] then {7} else {})" for a b s
    using none [of _ a b s] by (simp add: demo_docs_def str_simps BIGRAM_SEP_def)
  have "a = [98] \<and> b = [99]" if "a @ 31 # b @ s = [98, 31, 99, 66]" "s \<in> text_streams"
    for a b s
  proof -
    from text_streams_single [OF that(2)] obtain c where "s = [c]" by blast
    with that(1) have "(a @ 31 # b) @ [c] = [98, 31, 99] @ [66]" by simp
    then show ?thesis unfolding append_stream_eq split by simp
  qed
  note parts = this
  have "demo_docs (a @ [BIGRAM_SEP] @ b @ s) \<subseteq> demo_docs (a @ s) \<inter> demo_docs (b @ s)"
    if s: "s \<in> text_streams" for a b s
  proof (cases "a @ 31 # b @ s = [98, 31, 99, 66]")
    case True
    with parts [OF True s] have "a = [98]" "b = [99]" "s = [66]" by auto
    then show ?thesis unfolding key by (simp add: demo_docs_def str_simps)
  next
    case False
    then show ?thesis unfolding key by simp
  qed
  then show ?thesis unfolding bigram_sound_def by blast
qed

lemma demo_docs_at:
  "demo_docs (str ''x'' @ str ''B'') = {1, 2}" "demo_docs (str ''y'' @ str ''B'') = {2}"
  "demo_docs (str ''z'' @ str ''T'') = {3}" "demo_docs (str ''z'' @ str ''B'') = {}" "demo_docs (str ''yB'') = {2}"
  "demo_docs (str ''b'' @ str ''B'') = {7}" "demo_docs (str ''c'' @ str ''B'') = {7}"
  by (simp_all add: demo_docs_def str_simps)

lemmas query_eval = query_clauses_def split_raw_items_def str_simps is_ascii_whitespace_def is_or_token_def
  is_not_token_def to_ascii_lowercase_def add_raw_item_def field_and_item_def streams_for_field_def demo_tok_def

theorem parse_expression_Default_docs_witness:
  "opt_docs OrChildren (\<lambda>_. False) demo_docs
     (parse_expression demo_tok (str ''x -y or b c'') [str ''B''] Default) = {1, 7}"
proof -
  have clauses: "query_clauses demo_tok [str ''B''] (str ''x -y or b c'') =
      [([\<lparr>qt_term = str ''x'', qt_streams = [str ''B'']\<rparr>], [\<lparr>qt_term = str ''y'', qt_streams = [str ''B'']\<rparr>]),
       ([\<lparr>qt_term = str ''b'', qt_streams = [str ''B'']\<rparr>, \<lparr>qt_term = str ''c'', qt_streams = [str ''B'']\<rparr>], [])]"
    by (simp add: query_eval)
  have "plain_clauses demo_tok [str ''B''] (str ''x -y or b c'')"
    unfolding plain_clauses_def clauses
    by (simp add: plain_text_def split_raw_items_def str_simps is_ascii_whitespace_def to_ascii_lowercase_def)
  from parse_expression_Default_docs [OF demo_docs_sound _ this, of OrChildren "\<lambda>_. False"]
  show ?thesis
    unfolding clauses by (simp add: clause_docs_def conj_docs_def term_docs_def demo_docs_at text_streams_def
      insert_Diff_if insert_commute)
qed

text \<open>
  A field prefix is not binding in the default mode once the other words form a bigram: the
  query \<open>title:a b c\<close> is compiled to an alternative whose bigram arm leaves out the words of other
  streams, so a document with \<open>b c\<close> in its body is delivered although its title lacks \<open>a\<close>.
\<close>

theorem field_constraint_not_binding:
  "7 \<in> opt_docs w h demo_docs (parse_expression demo_tok (str ''title:a b c'') [str ''B''] Default) \<and>
   demo_docs (str ''aT'') = {} \<and> bigram_sound demo_docs"
proof -
  have clauses: "query_clauses demo_tok [str ''B''] (str ''title:a b c'') =
      [([\<lparr>qt_term = str ''a'', qt_streams = [str ''T'']\<rparr>, \<lparr>qt_term = str ''b'', qt_streams = [str ''B'']\<rparr>,
         \<lparr>qt_term = str ''c'', qt_streams = [str ''B'']\<rparr>], [])]"
    by (simp add: query_eval)
  show ?thesis
    unfolding parse_expression_docs clauses
    by (simp add: demo_docs_sound clause_node_def build_minus_expression_def build_implicit_expression_def Let_def
        build_bigram_query_def bigram_groups_def node_docs_term_group str_simps BIGRAM_SEP_def demo_docs_def)
qed

text \<open>
  Several excluded words are excluded together only: for \<open>x -y -z\<close> a document is left out when
  it has both \<open>y\<close> and \<open>z\<close>; one that has \<open>x\<close> and \<open>y\<close> is still delivered.
\<close>

theorem minus_terms_excluded_jointly:
  "2 \<in> opt_docs w h demo_docs (parse_expression demo_tok (str ''x -y -z'') [str ''B''] Default) \<and>
   2 \<in> demo_docs (str ''yB'')"
proof -
  have clauses: "query_clauses demo_tok [str ''B''] (str ''x -y -z'') =
      [([\<lparr>qt_term = str ''x'', qt_streams = [str ''B'']\<rparr>], [\<lparr>qt_term = str ''y'', qt_streams = [str ''B'']\<rparr>,
         \<lparr>qt_term = str ''z'', qt_streams = [str ''B'']\<rparr>])]"
    by (simp add: query_eval)
  have "same_streams [\<lparr>qt_term = str ''x'', qt_streams = [str ''B'']\<rparr>]"
    "same_streams [\<lparr>qt_term = str ''y'', qt_streams = [str ''B'']\<rparr>, \<lparr>qt_term = str ''z'', qt_streams = [str ''B'']\<rparr>]"
    by (simp_all add: same_streams_def text_streams_def)
  then show ?thesis
    unfolding parse_expression_docs clauses
    by (simp add: clause_node_Default_docs [OF demo_docs_sound] joint_docs_def conj_docs_def term_docs_def
        demo_docs_at)
qed

text \<open>
  Parentheses do not group: replacing each of them by a blank gives the same expression, in
  every mode and for every tokenizer.
\<close>

definition blank_parens :: "rstr \<Rightarrow> rstr" where
  "blank_parens q = map (\<lambda>b. if b = 40 \<or> b = 41 then 32 else b) q"

lemma split_loop_blank_parens: "split_loop current (blank_parens q) = split_loop current q"
  unfolding blank_parens_def by (induction q arbitrary: current) (auto simp: is_ascii_whitespace_def)

theorem parentheses_ignored:
  "parse_expression tok (blank_parens query) ss mode = parse_expression tok query ss mode"
  by (simp add: parse_expression_def split_raw_items_def split_loop_blank_parens)

end
