(* ===== verification/IndexWriter.thy ===== *)
theory IndexWriter
  imports PostingStore QueryCompiler
begin

text \<open>
  The index writer (\<open>IndexAccess/AdvancedIndexWriter.rs\<close>) and \<open>AddDocument\<close> with
  \<open>AllocateDocumentID\<close> of \<open>IndexAccess/IndexContext.rs\<close>: from the words of a document to postings
  for every word and every pair of adjacent words, stream by stream.

  The tokenizer, the embedding model and the quantisation of its vectors are arguments. The
  per-document table of term counts is a hash map in the code; its iteration order does not
  matter, since the postings of different keys are independent.
\<close>

subsection \<open>The writer\<close>

definition StreamAbbrev :: "rstr \<Rightarrow> rstr" where
  "StreamAbbrev stream =
     (if stream = [] then str ''B''
      else if stream ! 0 \<in> set (str ''Aa'') then str ''A''
      else if stream ! 0 \<in> set (str ''Uu'') then str ''U''
      else if stream ! 0 \<in> set (str ''Tt'') then str ''T''
      else if stream ! 0 \<in> set (str ''Bb'') then str ''B''
      else if stream ! 0 \<in> set (str ''Mm'') then str ''M''
      else
        let s = to_ascii_lowercase stream in
        if s = str ''title'' then str ''T''
        else if s = str ''body'' then str ''B''
        else if s = str ''anchor'' then str ''A''
        else if s = str ''url'' then str ''U''
        else if s = str ''meta'' then str ''M''
        else str ''B'')"

text \<open>\<open>*termTf.entry(term).or_insert(0) += 1\<close>\<close>

definition bump :: "rstr \<Rightarrow> (rstr \<times> u32) list \<Rightarrow> (rstr \<times> u32) list" where
  "bump t m = AList.update t (entry_or 0 m t + 1) m"

definition bigram :: "rstr \<Rightarrow> rstr \<Rightarrow> rstr" where
  "bigram a b = a @ [BIGRAM_SEP] @ b"

definition unigrams :: "rstr list \<Rightarrow> rstr list" where
  "unigrams words = filter (\<lambda>w. w \<noteq> []) words"

definition bigrams :: "rstr list \<Rightarrow> rstr list" where
  "bigrams words = map (\<lambda>p. bigram (fst p) (snd p))
     (filter (\<lambda>p. fst p \<noteq> [] \<and> snd p \<noteq> []) (zip words (tl words)))"

definition Write :: "rstr list \<Rightarrow> u64 \<Rightarrow> rstr \<Rightarrow> PostingStore \<Rightarrow> PostingStore" where
  "Write words documentId postingType s =
     (if words = [] then s
      else
        let abbrev = StreamAbbrev postingType;
            termTf = fold bump (unigrams words) [];
            uniqueUnigramCount = word_of_nat (length termTf);
            termTf = fold bump (bigrams words) termTf;
            s = fold (\<lambda>(t, tf). AddPosting (t @ abbrev) documentId tf) termTf s;
            s = AddDocTokens documentId (word_of_nat (length words)) s
        in AddStreamStats documentId (abbrev ! 0) (word_of_nat (length words)) uniqueUnigramCount s)"

subsection \<open>Adding a document\<close>

record Document =
  d_doc_id :: u64
  d_path :: rstr
  d_url :: rstr
  d_title :: rstr
  d_body :: rstr
  d_anchor :: rstr
  d_meta :: rstr
  d_importance :: f32_bits

text \<open>
  The next free id: behind the documents of the loaded index (\<open>base_end\<close> is its first id plus its
  document count), of the delta index, and of the store.
\<close>

definition AllocateDocumentID :: "u64 \<Rightarrow> u64 option \<Rightarrow> PostingStore \<Rightarrow> u64" where
  "AllocateDocumentID base_end delta_end s =
     fold (\<lambda>d n. max n (d + 1)) (map fst (m_DocStats s))
       (case delta_end of None \<Rightarrow> base_end | Some e \<Rightarrow> max base_end e)"

definition AddDocument ::
  "(rstr \<Rightarrow> rstr list) \<Rightarrow> (rstr list \<Rightarrow> u32 list) \<times> (u32 list \<Rightarrow> bytes) \<Rightarrow> u64 \<times> u64 option \<Rightarrow> Document \<Rightarrow> bool \<Rightarrow> PostingStore \<Rightarrow>
   u64 \<times> PostingStore" where
  "AddDocument tokenize model ends doc buildVector s =
     (let docId = (if d_doc_id doc = 0xFFFFFFFFFFFFFFFF then AllocateDocumentID (fst ends) (snd ends) s
                   else d_doc_id doc);
          titleTokens = tokenize (d_title doc);
          url = (if d_url doc = [] then d_path doc else d_url doc);
          urlTokens = tokenize url;
          anchorTokens = tokenize (d_anchor doc);
          bodyTokens = tokenize (d_body doc);
          metaTokens = tokenize (d_meta doc);
          s = Write titleTokens docId (str ''Title'') s;
          s = Write urlTokens docId (str ''URL'') s;
          s = Write anchorTokens docId (str ''Anchor'') s;
          s = Write bodyTokens docId (str ''Body'') s;
          s = Write metaTokens docId (str ''Meta'') s;
          s = SetDocImportance docId (d_importance doc) s;
          s = (if buildVector
               then snd (SetDocVector (snd model) docId
                 (fst model (titleTokens @ urlTokens @ anchorTokens @ bodyTokens @ metaTokens)) s)
               else s);
          s = (if d_path doc \<noteq> [] then SetDocPath docId (d_path doc) s else s)
      in (docId, s))"

subsection \<open>What the writer leaves in the store\<close>

lemma distinct_bump: "distinct (map fst m) \<Longrightarrow> distinct (map fst (bump t m))"
  by (simp add: bump_def distinct_update)

lemma distinct_fold_bump: "distinct (map fst m) \<Longrightarrow> distinct (map fst (fold bump ts m))"
  by (induction ts arbitrary: m) (auto simp: distinct_bump)

lemma map_of_bump: "map_of (bump t m) = (map_of m)(t \<mapsto> entry_or 0 m t + 1)"
  by (simp add: bump_def update_conv')

lemma map_of_fold_bump:
  "map_of (fold bump ts m) t =
     (if t \<in> set ts \<or> map_of m t \<noteq> None then Some (entry_or 0 m t + word_of_nat (count_list ts t)) else None)"
proof (induction ts arbitrary: m)
  case Nil
  then show ?case by (auto simp: entry_or_def split: option.splits)
next
  case (Cons u ts)
  then show ?case by (auto simp: map_of_bump entry_or_def split: option.splits)
qed

definition occurrences :: "rstr list \<Rightarrow> rstr list" where
  "occurrences words = unigrams words @ bigrams words"

lemma count_list_append: "count_list (xs @ ys) x = count_list xs x + count_list ys x"
  by (induction xs) auto

lemma map_of_term_counts:
  "map_of (fold bump (bigrams words) (fold bump (unigrams words) [])) t =
     (if t \<in> set (occurrences words) then Some (word_of_nat (count_list (occurrences words) t)) else None)"
  by (auto simp: map_of_fold_bump occurrences_def entry_or_def count_list_append count_notin)

lemma fold_AddPosting:
  assumes "store_wf s" and "distinct (map fst m)"
  shows "store_wf (fold (\<lambda>(t, tf). AddPosting (t @ ab) d tf) m s)"
    and "postings_of (fold (\<lambda>(t, tf). AddPosting (t @ ab) d tf) m s) key doc =
      (if doc = d \<and> (\<exists>t tf. (t, tf) \<in> set m \<and> key = t @ ab) then map_of m (take (length key - length ab) key)
       else postings_of s key doc)"
  using assms
proof (induction m arbitrary: s)
  case (Cons p m)
  obtain t tf where p: "p = (t, tf)" by (cases p)
  {
    case 1
    then show ?case using Cons.IH(1) by (auto simp: p intro: store_wf_AddPosting)
  next
    case 2
    note ih = Cons.IH(2) [of "AddPosting (t @ ab) d tf s"] and step = postings_of_AddPosting [OF 2(1)]
    have nin: "(t, x) \<notin> set m" for x using 2(2) p by force
    from ih [OF store_wf_AddPosting [OF 2(1)]] 2(2) nin show ?case
      by (auto simp: p step)
  }
qed auto

lemma postings_of_stats [simp]:
  "postings_of (AddDocTokens d c s) = postings_of s" "postings_of (AddStreamStats d st c u s) = postings_of s"
  "postings_of (SetDocImportance d x s) = postings_of s" "postings_of (SetDocPath d path_s s) = postings_of s"
  "postings_of (snd (SetDocVector q d w s)) = postings_of s"
  by (simp_all add: postings_of_def AddDocTokens_def AddStreamStats_def SetDocImportance_def SetDocPath_def
      SetDocVector_def upd_stats_def fun_eq_iff)

lemma Write_wf [wf_intro]:
  assumes "store_wf s"
  shows "store_wf (Write words d pt s)"
proof -
  have "distinct (map fst (fold bump (bigrams words) (fold bump (unigrams words) [])))"
    by (simp add: distinct_fold_bump)
  from fold_AddPosting(1) [OF assms this] show ?thesis
    by (auto simp: Write_def Let_def intro!: store_wf_AddStreamStats store_wf_AddDocTokens assms)
qed

lemma postings_of_Write:
  assumes "store_wf s"
  shows "postings_of (Write words d pt s) key doc =
    (if doc = d \<and> (\<exists>t \<in> set (occurrences words). key = t @ StreamAbbrev pt)
     then Some (word_of_nat (count_list (occurrences words) (take (length key - length (StreamAbbrev pt)) key)))
     else postings_of s key doc)"
proof (cases "words = []")
  case True
  then show ?thesis by (simp add: Write_def occurrences_def unigrams_def bigrams_def)
next
  case False
  let ?m = "fold bump (bigrams words) (fold bump (unigrams words) [])"
  have d: "distinct (map fst ?m)" by (simp add: distinct_fold_bump)
  have ex: "(\<exists>tf. (t, tf) \<in> set ?m) \<longleftrightarrow> t \<in> set (occurrences words)" for t
    using map_of_eq_Some_iff [OF d, of t] map_of_term_counts [of words t] by (metis option.distinct(1))
  have "postings_of (Write words d pt s) key doc =
      (if doc = d \<and> (\<exists>t \<in> set (occurrences words). key = t @ StreamAbbrev pt)
       then map_of ?m (take (length key - length (StreamAbbrev pt)) key) else postings_of s key doc)"
    using False fold_AddPosting(2) [OF assms d] ex by (auto simp: Write_def Let_def)
  then show ?thesis by (auto simp: map_of_term_counts)
qed

text \<open>
  C25. Writing the words of a stream sets, for the document, the posting of every word and every pair
  of adjacent words to the number of times it occurs (the empty word left out), under the key
  that ends in the stream's letter; every other posting stays as it was.
\<close>

theorem Write_postings:
  assumes "store_wf s"
  shows "postings_of (Write words d pt s) key doc =
    (if doc = d \<and> (\<exists>t \<in> set (occurrences words). key = t @ StreamAbbrev pt)
     then Some (word_of_nat (count_list (occurrences words) (take (length key - length (StreamAbbrev pt)) key)))
     else postings_of s key doc)"
  using assms by (rule postings_of_Write)

subsection \<open>Documents per key\<close>

definition docs_of :: "PostingStore \<Rightarrow> rstr \<Rightarrow> u64 set" where
  "docs_of s key = dom (postings_of s key)"

lemma docs_of_Write:
  assumes "store_wf s"
  shows "docs_of (Write words d pt s) key =
    docs_of s key \<union> (if \<exists>t \<in> set (occurrences words). key = t @ StreamAbbrev pt then {d} else {})"
  unfolding docs_of_def dom_def postings_of_Write [OF assms] by auto

lemma StreamAbbrev_cases: "StreamAbbrev pt \<in> text_streams"
  by (simp add: StreamAbbrev_def Let_def text_streams_def)

lemma append_stream_inject:
  assumes "s \<in> text_streams" and "a @ s = b @ StreamAbbrev pt"
  shows "a = b" and "s = StreamAbbrev pt"
  using assms text_streams_single [OF assms(1)] text_streams_single [OF StreamAbbrev_cases [of pt]] by auto

lemma sep_split:
  assumes "a @ [c] @ b = x @ [c] @ y" and "c \<notin> set x" and "c \<notin> set y"
  shows "a = x \<and> b = y"
  using assms by (auto simp: append_eq_append_conv2 Cons_eq_append_conv append_eq_Cons_conv)

definition plain_words :: "rstr list \<Rightarrow> bool" where
  "plain_words words \<longleftrightarrow> (\<forall>w \<in> set words. BIGRAM_SEP \<notin> set w)"

lemma bigram_occurs:
  assumes "bigram a b \<in> set (occurrences words)" and "plain_words words"
  shows "a \<in> set (unigrams words) \<and> b \<in> set (unigrams words)"
proof -
  have "bigram a b \<notin> set words" using assms(2) by (auto simp: plain_words_def bigram_def)
  with assms(1) obtain p where p: "p \<in> set (zip words (tl words))" "fst p \<noteq> []" "snd p \<noteq> []"
      "bigram a b = bigram (fst p) (snd p)"
    by (auto simp: occurrences_def unigrams_def bigrams_def)
  then have "fst p \<in> set words" "snd p \<in> set words" using zip_tl_in_set by blast+
  with p assms(2) sep_split [of a BIGRAM_SEP b "fst p" "snd p"] show ?thesis
    by (auto simp: bigram_def plain_words_def unigrams_def)
qed

lemma bigram_sound_Write:
  assumes "store_wf s" and "plain_words words" and "bigram_sound (docs_of s)"
  shows "bigram_sound (docs_of (Write words d pt s))"
proof -
  have "docs_of (Write words d pt s) (bigram a b @ st) \<subseteq>
      docs_of (Write words d pt s) (a @ st) \<inter> docs_of (Write words d pt s) (b @ st)"
    if st: "st \<in> text_streams" for a b st
  proof (cases "\<exists>t \<in> set (occurrences words). bigram a b @ st = t @ StreamAbbrev pt")
    case True
    then obtain t where t: "t \<in> set (occurrences words)" "bigram a b @ st = t @ StreamAbbrev pt" by blast
    note eq = append_stream_inject [OF st t(2)]
    from bigram_occurs [OF _ assms(2), of a b] t(1) eq(1)
    have "st = StreamAbbrev pt" "a \<in> set (occurrences words)" "b \<in> set (occurrences words)"
      using eq(2) by (auto simp: occurrences_def)
    moreover have "docs_of s (bigram a b @ st) \<subseteq> docs_of s (a @ st) \<inter> docs_of s (b @ st)"
      using assms(3) st unfolding bigram_sound_def bigram_def by simp
    ultimately show ?thesis unfolding docs_of_Write [OF assms(1)] by auto
  next
    case False
    then have "docs_of (Write words d pt s) (bigram a b @ st) = docs_of s (bigram a b @ st)"
      by (simp add: docs_of_Write [OF assms(1)])
    also have "\<dots> \<subseteq> docs_of s (a @ st) \<inter> docs_of s (b @ st)"
      using assms(3) st unfolding bigram_sound_def bigram_def by simp
    finally show ?thesis unfolding docs_of_Write [OF assms(1)] by blast
  qed
  then show ?thesis unfolding bigram_sound_def bigram_def by simp
qed

subsection \<open>The store after any number of documents\<close>

definition doc_url :: "Document \<Rightarrow> rstr" where
  "doc_url doc = (if d_url doc = [] then d_path doc else d_url doc)"

text \<open>The words of a document in the stream of a letter.\<close>

definition stream_words :: "(rstr \<Rightarrow> rstr list) \<Rightarrow> Document \<Rightarrow> rstr \<Rightarrow> rstr list" where
  "stream_words tokenize doc st =
     (if st = str ''T'' then tokenize (d_title doc) else if st = str ''U'' then tokenize (doc_url doc)
      else if st = str ''A'' then tokenize (d_anchor doc) else if st = str ''B'' then tokenize (d_body doc)
      else if st = str ''M'' then tokenize (d_meta doc) else [])"

lemma StreamAbbrev_names [simp]:
  "StreamAbbrev (str ''Title'') = str ''T''" "StreamAbbrev (str ''URL'') = str ''U''"
  "StreamAbbrev (str ''Anchor'') = str ''A''" "StreamAbbrev (str ''Body'') = str ''B''"
  "StreamAbbrev (str ''Meta'') = str ''M''"
  by (simp_all add: StreamAbbrev_def str_def)

lemma docs_of_stats [simp]:
  "docs_of (SetDocImportance d x s) = docs_of s" "docs_of (SetDocPath d q s) = docs_of s"
  "docs_of (snd (SetDocVector f d v s)) = docs_of s"
  by (simp_all add: docs_of_def fun_eq_iff)

text \<open>The id a document is stored under.\<close>

definition stored_id :: "u64 \<times> u64 option \<Rightarrow> Document \<Rightarrow> PostingStore \<Rightarrow> u64" where
  "stored_id ends doc s = (if d_doc_id doc = 0xFFFFFFFFFFFFFFFF then AllocateDocumentID (fst ends) (snd ends) s
     else d_doc_id doc)"

definition write_streams :: "(rstr \<Rightarrow> rstr list) \<Rightarrow> Document \<Rightarrow> u64 \<Rightarrow> PostingStore \<Rightarrow> PostingStore" where
  "write_streams tokenize doc d s =
     Write (tokenize (d_meta doc)) d (str ''Meta'') (Write (tokenize (d_body doc)) d (str ''Body'')
       (Write (tokenize (d_anchor doc)) d (str ''Anchor'') (Write (tokenize (doc_url doc)) d (str ''URL'')
         (Write (tokenize (d_title doc)) d (str ''Title'') s))))"

lemma fst_AddDocument: "fst (AddDocument tokenize model ends doc b s) = stored_id ends doc s"
  by (simp add: AddDocument_def Let_def stored_id_def)

lemma docs_of_AddDocument_streams:
  "docs_of (snd (AddDocument tokenize model ends doc b s)) =
   docs_of (write_streams tokenize doc (stored_id ends doc s) s)"
  by (simp add: AddDocument_def Let_def stored_id_def write_streams_def doc_url_def)

lemma write_streams_wf: "store_wf s \<Longrightarrow> store_wf (write_streams tokenize doc d s)"
  by (simp add: write_streams_def Write_wf)

lemma AddDocument_wf: "store_wf s \<Longrightarrow> store_wf (snd (AddDocument tokenize model ends doc b s))"
  by (auto simp: AddDocument_def Let_def SetDocImportance_def SetDocPath_def intro!: wf_intro)

lemma docs_of_write_streams:
  assumes "store_wf s" and "st \<in> text_streams"
  shows "docs_of (write_streams tokenize doc d s) (t @ st) =
    docs_of s (t @ st) \<union> (if t \<in> set (occurrences (stream_words tokenize doc st)) then {d} else {})"
proof -
  have at: "(\<exists>u \<in> set (occurrences ws). t @ st = u @ st') \<longleftrightarrow> t \<in> set (occurrences ws) \<and> st = st'"
    if "st' \<in> text_streams" for ws st'
    using text_streams_single [OF that] text_streams_single [OF assms(2)] by auto
  have one: "docs_of (Write ws d pt s') (t @ st) =
      docs_of s' (t @ st) \<union> (if st = StreamAbbrev pt \<and> t \<in> set (occurrences ws) then {d} else {})"
    if "store_wf s'" for ws pt s'
    unfolding docs_of_Write [OF that] at [OF StreamAbbrev_cases] by auto
  have "docs_of (write_streams tokenize doc d s) (t @ st) = docs_of s (t @ st) \<union>
      (if st = str ''T'' \<and> t \<in> set (occurrences (tokenize (d_title doc))) then {d} else {}) \<union>
      (if st = str ''U'' \<and> t \<in> set (occurrences (tokenize (doc_url doc))) then {d} else {}) \<union>
      (if st = str ''A'' \<and> t \<in> set (occurrences (tokenize (d_anchor doc))) then {d} else {}) \<union>
      (if st = str ''B'' \<and> t \<in> set (occurrences (tokenize (d_body doc))) then {d} else {}) \<union>
      (if st = str ''M'' \<and> t \<in> set (occurrences (tokenize (d_meta doc))) then {d} else {})"
    unfolding write_streams_def by (simp add: one Write_wf assms(1))
  note main = this
  from assms(2) consider "st = str ''A''" | "st = str ''U''" | "st = str ''T''" | "st = str ''B''" | "st = str ''M''"
    unfolding text_streams_def by blast
  then show ?thesis unfolding main by cases (simp_all add: stream_words_def str_def)
qed

text \<open>
  \<open>AddDocument\<close> makes a document findable under exactly its words: the posting list of a term in
  a stream gains the document's id if the term is a word, or a pair of adjacent words, of that
  stream of the document, and is left as it was otherwise.
\<close>

theorem AddDocument_docs:
  assumes "store_wf s" and "st \<in> text_streams"
  shows "docs_of (snd (AddDocument tokenize model ends doc b s)) (t @ st) =
    docs_of s (t @ st) \<union>
    (if t \<in> set (occurrences (stream_words tokenize doc st)) then {fst (AddDocument tokenize model ends doc b s)} else {})"
  unfolding docs_of_AddDocument_streams fst_AddDocument using docs_of_write_streams [OF assms] .

subsection \<open>Any number of documents\<close>

text \<open>The store after adding documents one by one, each with its own setting of the vector flag.\<close>

inductive written :: "(rstr \<Rightarrow> rstr list) \<Rightarrow> PostingStore \<Rightarrow> bool" for tokenize where
  written_empty: "written tokenize PostingStore_new"
| written_add: "written tokenize s \<Longrightarrow> written tokenize (snd (AddDocument tokenize model ends doc b s))"

definition tokenizer_plain :: "(rstr \<Rightarrow> rstr list) \<Rightarrow> bool" where
  "tokenizer_plain tokenize \<longleftrightarrow> (\<forall>text. plain_words (tokenize text))"

lemma written_wf: "written tokenize s \<Longrightarrow> store_wf s"
  by (induction rule: written.induct) (auto intro: store_wf_new AddDocument_wf)

lemma bigram_sound_AddDocument:
  assumes "store_wf s" and "tokenizer_plain tokenize" and "bigram_sound (docs_of s)"
  shows "bigram_sound (docs_of (snd (AddDocument tokenize model ends doc b s)))"
  unfolding docs_of_AddDocument_streams write_streams_def
  by (intro bigram_sound_Write Write_wf assms) (use assms(2) in \<open>simp_all add: tokenizer_plain_def\<close>)

lemma written_bigram_sound_docs:
  assumes "tokenizer_plain tokenize" and "written tokenize s"
  shows "bigram_sound (docs_of s)"
  using assms(2)
proof (induction rule: written.induct)
  case written_empty
  then show ?case
    by (simp add: bigram_sound_def docs_of_def postings_of_def PostingStore_new_def entry_or_def
        PostingList_default_def tf_map_def)
qed (auto intro: bigram_sound_AddDocument written_wf assms(1))

text \<open>
  C26. In a store filled by \<open>AddDocument\<close> with a tokenizer whose words never contain the bigram
  separator, a document listed under a bigram is listed under both words, in the same stream:
  what the compiler of default queries relies on.
\<close>

theorem written_bigram_sound:
  assumes "tokenizer_plain tokenize" and "written tokenize s"
  shows "bigram_sound (docs_of s)"
  using assms by (rule written_bigram_sound_docs)

subsection \<open>Fresh document ids\<close>

lemma fold_max_succ:
  "n \<le> fold (\<lambda>d n. max n (d + 1)) ds n \<and> (\<forall>d \<in> set ds. d + 1 \<le> fold (\<lambda>d n. max n (d + 1)) ds n)" for n :: u64
proof (induction ds arbitrary: n)
  case (Cons d ds)
  from Cons [of "max n (d + 1)"] show ?case by auto
qed simp

text \<open>
  C27. The id allocated for a new document is larger than every id of the store, of the loaded index
  and of the delta index, as long as the largest 64-bit id is not in use.
\<close>

theorem AllocateDocumentID_fresh:
  assumes "\<forall>d \<in> fst ` set (m_DocStats s). d \<noteq> 0xFFFFFFFFFFFFFFFF"
  shows "(\<forall>d \<in> fst ` set (m_DocStats s). d < AllocateDocumentID base_end delta_end s) \<and>
    base_end \<le> AllocateDocumentID base_end delta_end s \<and>
    (\<forall>e. delta_end = Some e \<longrightarrow> e \<le> AllocateDocumentID base_end delta_end s)"
proof -
  let ?n = "case delta_end of None \<Rightarrow> base_end | Some e \<Rightarrow> max base_end e"
  note le = fold_max_succ [of ?n "map fst (m_DocStats s)"]
  have "d < AllocateDocumentID base_end delta_end s" if "d \<in> fst ` set (m_DocStats s)" for d
  proof -
    from assms that have "d \<noteq> - 1" by fastforce
    then have "d + 1 \<noteq> 0" by (simp add: add_eq_0_iff2)
    then have "d < d + 1" using unatSuc [of d] by (simp add: word_less_nat_alt add.commute)
    also have "d + 1 \<le> AllocateDocumentID base_end delta_end s" using le that unfolding AllocateDocumentID_def set_map by blast
    finally show ?thesis .
  qed
  moreover have "base_end \<le> ?n \<and> (\<forall>e. delta_end = Some e \<longrightarrow> e \<le> ?n)" by (auto split: option.splits)
  ultimately show ?thesis using le unfolding AllocateDocumentID_def by (auto intro: order_trans)
qed

subsection \<open>One document, written and found\<close>

definition one_doc :: Document where
  "one_doc = \<lparr>d_doc_id = 5, d_path = [], d_url = [], d_title = str ''a b'', d_body = [], d_anchor = [], d_meta = [],
     d_importance = 0\<rparr>"

definition letters :: "rstr \<Rightarrow> rstr list" where
  "letters input = split_raw_items (filter (\<lambda>b. b \<noteq> BIGRAM_SEP \<and> b \<noteq> 0) input)"

lemma letters_bytes: "w \<in> set (letters input) \<Longrightarrow> BIGRAM_SEP \<notin> set w \<and> 0 \<notin> set w"
  unfolding letters_def split_raw_items_def
  using split_loop_bytes [of BIGRAM_SEP "[]" "filter (\<lambda>b. b \<noteq> BIGRAM_SEP \<and> b \<noteq> 0) input"]
    split_loop_bytes [of 0 "[]" "filter (\<lambda>b. b \<noteq> BIGRAM_SEP \<and> b \<noteq> 0) input"] by simp

lemma letters_plain: "tokenizer_plain letters"
  using letters_bytes by (auto simp: tokenizer_plain_def plain_words_def)

lemma letters_eval: "letters [] = []" "letters (str ''a b'') = [str ''a'', str ''b'']"
  by (simp_all add: letters_def split_raw_items_def str_simps is_ascii_whitespace_def BIGRAM_SEP_def)

theorem Write_postings_witness:
  "postings_of (Write [str ''a'', str ''b'', str ''a''] 5 (str ''title'') PostingStore_new) (str ''aT'') 5 = Some 2"
  using Write_postings [OF store_wf_new, of "[str ''a'', str ''b'', str ''a'']" 5 "str ''title''" "str ''aT''" 5]
  by (simp add: occurrences_def unigrams_def bigrams_def bigram_def str_simps BIGRAM_SEP_def StreamAbbrev_def)

theorem AddDocument_docs_witness:
  "docs_of (snd (AddDocument letters (\<lambda>_. [], \<lambda>_. []) (0, None) one_doc False PostingStore_new)) (str ''bT'') = {5}"
proof -
  have "docs_of PostingStore_new key = {}" for key
    by (simp add: docs_of_def postings_of_def PostingStore_new_def entry_or_def PostingList_default_def tf_map_def)
  moreover have "str ''T'' \<in> text_streams" by (simp add: text_streams_def)
  moreover have "str ''bT'' = str ''b'' @ str ''T''" "str ''a'' \<noteq> []" "str ''b'' \<noteq> []" by (simp_all add: str_simps)
  ultimately show ?thesis
    using AddDocument_docs [OF store_wf_new, of "str ''T''" letters "(\<lambda>_. [], \<lambda>_. [])" "(0, None)" one_doc False "str ''b''"]
    by (simp add: fst_AddDocument stored_id_def stream_words_def one_doc_def letters_eval occurrences_def unigrams_def)
qed

theorem written_bigram_sound_witness:
  "bigram_sound (docs_of (snd (AddDocument letters (\<lambda>_. [], \<lambda>_. []) (0, None) one_doc False PostingStore_new)))"
  by (rule written_bigram_sound [OF letters_plain written_add [OF written_empty]])

theorem AllocateDocumentID_fresh_witness:
  "9 < AllocateDocumentID 3 (Some 4) (AddDocTokens 9 1 PostingStore_new)"
  using AllocateDocumentID_fresh [of "AddDocTokens 9 1 PostingStore_new" 3 "Some 4"]
  by (simp add: AddDocTokens_def upd_stats_def PostingStore_new_def)

subsection \<open>Documents and their statistics\<close>

text \<open>Every document of a posting list has statistics, and so a record in the document table.\<close>

lemma AddPosting_stats [simp]: "m_DocStats (AddPosting key d tf s) = m_DocStats s"
  by (auto simp: AddPosting_def Let_def split: sum.split)

lemma upd_stats_ids [simp]: "fst ` set (m_DocStats (upd_stats d f s)) = insert d (fst ` set (m_DocStats s))"
  by (simp add: upd_stats_def dom_update)

lemma Write_ids: "fst ` set (m_DocStats s) \<subseteq> fst ` set (m_DocStats (Write words d pt s))"
proof -
  have same: "m_DocStats (fold (\<lambda>(t, tf). AddPosting (t @ a) d tf) ts s) = m_DocStats s" for a ts
    by (induction ts arbitrary: s) auto
  show ?thesis by (auto simp: Write_def Let_def AddDocTokens_def AddStreamStats_def same)
qed

lemma snd_AddDocument:
  "\<exists>v. snd (AddDocument tokenize model ends doc b s) =
    (let d = stored_id ends doc s; s = SetDocImportance d (d_importance doc) (write_streams tokenize doc d s);
         s = (if b then snd (SetDocVector (snd model) d v s) else s)
     in if d_path doc \<noteq> [] then SetDocPath d (d_path doc) s else s)"
  unfolding AddDocument_def Let_def stored_id_def [symmetric] write_streams_def doc_url_def snd_conv by blast

lemma AddDocument_ids:
  "insert (stored_id ends doc s) (fst ` set (m_DocStats s)) \<subseteq>
     fst ` set (m_DocStats (snd (AddDocument tokenize model ends doc b s)))"
proof -
  let ?d = "stored_id ends doc s" and ?w = "write_streams tokenize doc (stored_id ends doc s) s"
  have "fst ` set (m_DocStats s) \<subseteq> fst ` set (m_DocStats ?w)"
    unfolding write_streams_def
    using Write_ids [THEN order_trans, OF Write_ids [THEN order_trans, OF Write_ids [THEN order_trans, OF Write_ids [THEN order_trans, OF Write_ids]]]] .
  moreover have "insert ?d (fst ` set (m_DocStats ?w)) \<subseteq> fst ` set (m_DocStats (snd (AddDocument tokenize model ends doc b s)))"
  proof -
    have vec: "fst ` set (m_DocStats s') \<subseteq> fst ` set (m_DocStats (snd (SetDocVector q d v s')))" for q d v s'
      by (auto simp: SetDocVector_def)
    obtain v where "snd (AddDocument tokenize model ends doc b s) =
      (let s = SetDocImportance ?d (d_importance doc) ?w; s = (if b then snd (SetDocVector (snd model) ?d v s) else s)
       in if d_path doc \<noteq> [] then SetDocPath ?d (d_path doc) s else s)"
      using snd_AddDocument [of tokenize model ends doc b s] unfolding Let_def by blast
    then show ?thesis
      using vec [of "SetDocImportance ?d (d_importance doc) ?w" "snd model" ?d v]
      by (cases b; cases "d_path doc = []") (auto simp: Let_def SetDocImportance_def SetDocPath_def)
  qed
  ultimately show ?thesis by blast
qed

lemma docs_of_write_streams_le:
  "store_wf s \<Longrightarrow> docs_of (write_streams tokenize doc d s) key \<subseteq> insert d (docs_of s key)"
proof -
  assume wf: "store_wf s"
  have one: "docs_of (Write ws d pt s') key \<subseteq> insert d D" if "store_wf s'" "docs_of s' key \<subseteq> insert d D" for ws pt s' D
    using that by (auto simp: docs_of_Write)
  show ?thesis unfolding write_streams_def by (intro one Write_wf wf) auto
qed

lemma written_docs_stats: "written tokenize s \<Longrightarrow> docs_of s key \<subseteq> fst ` set (m_DocStats s)"
proof (induction rule: written.induct)
  case written_empty
  then show ?case by (simp add: docs_of_def postings_of_def PostingStore_new_def entry_or_def PostingList_default_def tf_map_def)
next
  case (written_add s model ends doc b)
  have "docs_of (snd (AddDocument tokenize model ends doc b s)) key \<subseteq> insert (stored_id ends doc s) (docs_of s key)"
    unfolding docs_of_AddDocument_streams by (rule docs_of_write_streams_le [OF written_wf [OF written_add(1)]])
  then show ?case using written_add.IH AddDocument_ids by blast
qed

end
