(* ===== verification/DocPath.thy ===== *)
theory DocPath
  imports IndexFormat
begin

text \<open>
  Document paths in the document table (\<open>split_path_for_sidecar\<close>, \<open>intern_path_prefix\<close>,
  \<open>encode_doc_path\<close>, \<open>DecodeDocPath\<close> of \<open>IndexAccess/IndexContext.rs\<close>) and the side table of
  directories (\<open>EncodePathPrefixSidecar\<close>, \<open>DecodePathPrefixSidecar\<close> of
  \<open>IndexAccess/IndexSerializer.rs\<close>).

  A path is cut at its last separator. The directory is interned in a table that has to fit a fixed
  number of pages; the record keeps the number of the directory and the first 62 bytes of the file
  name. Decoding glues the two with the separator it guesses from the directory.
\<close>

subsection \<open>Constants\<close>

definition DOC_PATH_MAX :: nat where "DOC_PATH_MAX = 64"
definition DOC_PATH_PREFIX_ID_BYTES :: nat where "DOC_PATH_PREFIX_ID_BYTES = 2"
definition DOC_PATH_FILENAME_MAX :: nat where "DOC_PATH_FILENAME_MAX = DOC_PATH_MAX - DOC_PATH_PREFIX_ID_BYTES"
definition DOC_PATH_PREFIX_INVALID :: u16 where "DOC_PATH_PREFIX_INVALID = 0xFFFF"
definition DOC_PATH_OFFSET :: nat where "DOC_PATH_OFFSET = 192"
definition PATH_PREFIX_SIDECAR_MAGIC :: bytes where
  "PATH_PREFIX_SIDECAR_MAGIC = [0x4D, 0x53, 0x50, 0x41, 0x54, 0x48, 0x53, 0]"
definition PATH_PREFIX_SIDECAR_VERSION :: u16 where "PATH_PREFIX_SIDECAR_VERSION = 1"

lemmas path_consts = DOC_PATH_MAX_def DOC_PATH_PREFIX_ID_BYTES_def DOC_PATH_FILENAME_MAX_def DOC_PATH_OFFSET_def

subsection \<open>Operations\<close>

definition is_path_sep :: "u8 \<Rightarrow> bool" where
  "is_path_sep b \<longleftrightarrow> b = 0x2F \<or> b = 0x5C"

definition split_path_for_sidecar :: "rstr \<Rightarrow> rstr \<times> rstr" where
  "split_path_for_sidecar full_path =
     (let filename = rev (takeWhile (\<lambda>b. \<not> is_path_sep b) (rev full_path))
      in if length filename = length full_path then ([], full_path)
         else (take (length full_path - length filename - 1) full_path, filename))"

definition path_prefix_sidecar_can_hold :: "nat \<Rightarrow> nat \<Rightarrow> bool" where
  "path_prefix_sidecar_can_hold prefix_count string_bytes \<longleftrightarrow>
     32 + prefix_count * 8 + string_bytes \<le> PATH_PREFIX_SIDECAR_BYTES"

record path_table =
  prefix_to_id :: "(rstr \<times> u16) list"
  pt_prefixes :: "rstr list"
  string_bytes :: nat

definition path_table_new :: path_table where
  "path_table_new = \<lparr>prefix_to_id = [], pt_prefixes = [], string_bytes = 0\<rparr>"

definition intern_path_prefix :: "rstr \<Rightarrow> path_table \<Rightarrow> u16 \<times> path_table" where
  "intern_path_prefix pfx pt =
     (case map_of (prefix_to_id pt) pfx of
        Some prefix_id \<Rightarrow> (prefix_id, pt)
      | None \<Rightarrow>
          if length (pt_prefixes pt) \<ge> unat DOC_PATH_PREFIX_INVALID then (DOC_PATH_PREFIX_INVALID, pt)
          else
            let next_string_bytes = string_bytes pt + length pfx
            in if \<not> path_prefix_sidecar_can_hold (length (pt_prefixes pt) + 1) next_string_bytes then
                 (DOC_PATH_PREFIX_INVALID, pt)
               else
                 let prefix_id = word_of_nat (length (pt_prefixes pt))
                 in (prefix_id, \<lparr>prefix_to_id = AList.update pfx prefix_id (prefix_to_id pt), pt_prefixes = pt_prefixes pt @ [pfx],
                          string_bytes = next_string_bytes\<rparr>))"

definition encode_doc_path :: "bytes \<Rightarrow> rstr \<Rightarrow> path_table \<Rightarrow> bytes \<times> path_table" where
  "encode_doc_path record full_path pt =
     (let record = put DOC_PATH_OFFSET (replicate DOC_PATH_MAX 0) (put 18 (u16_to_le 0) record)
      in if full_path = [] then (record, pt)
         else
           let (pfx, filename) = split_path_for_sidecar full_path;
               (prefix_id, pt) = intern_path_prefix pfx pt;
               filename_len = min (length filename) DOC_PATH_FILENAME_MAX;
               path_len = word_of_nat (DOC_PATH_PREFIX_ID_BYTES + filename_len);
               record = put 18 (u16_to_le path_len) record;
               record = put DOC_PATH_OFFSET (u16_to_le prefix_id) record;
               record = put (DOC_PATH_OFFSET + 2) (take filename_len filename) record
           in (record, pt))"

definition utf8_or_empty :: "bytes \<Rightarrow> rstr" where
  "utf8_or_empty bytes = (case from_utf8 bytes of Some s \<Rightarrow> s | None \<Rightarrow> [])"

definition DecodeDocPath :: "bytes \<Rightarrow> rstr list \<Rightarrow> rstr" where
  "DecodeDocPath payload table =
     (if payload = [] then []
      else if length payload < DOC_PATH_PREFIX_ID_BYTES then utf8_or_empty payload
      else
        let prefix_id = u16_from_le (subslice 0 2 payload); filename = utf8_or_empty (drop 2 payload)
        in if prefix_id = DOC_PATH_PREFIX_INVALID \<or> unat prefix_id \<ge> length table then filename
           else
             let pfx = table ! unat prefix_id
             in if pfx = [] then filename
                else if is_path_sep (last pfx) then pfx @ filename
                else pfx @ [if 0x5C \<in> set pfx then 0x5C else 0x2F] @ filename)"

subsection \<open>The side table of directories\<close>

fun put_prefixes :: "nat \<Rightarrow> nat \<Rightarrow> rstr list \<Rightarrow> u32 \<Rightarrow> bytes \<Rightarrow> u32 \<times> bytes" where
  "put_prefixes entry_offset string_offset [] cursor sidecar = (cursor, sidecar)"
| "put_prefixes entry_offset string_offset (pfx # ps) cursor sidecar =
     (let sidecar = put entry_offset (u32_to_le cursor) sidecar;
          sidecar = put (entry_offset + 4) (u16_to_le (word_of_nat (length pfx))) sidecar;
          sidecar = put (string_offset + unat cursor) pfx sidecar
      in put_prefixes (entry_offset + 8) string_offset ps (cursor + word_of_nat (length pfx)) sidecar)"

definition EncodePathPrefixSidecar :: "rstr list \<Rightarrow> bytes" where
  "EncodePathPrefixSidecar ps =
     (let sidecar = put 0 PATH_PREFIX_SIDECAR_MAGIC (replicate PATH_PREFIX_SIDECAR_BYTES 0);
          sidecar = put 8 (u16_to_le PATH_PREFIX_SIDECAR_VERSION) sidecar;
          count = min (length ps) 65535;
          sidecar = put 10 (u16_to_le (word_of_nat count)) sidecar;
          entry_offset = 32;
          string_offset = entry_offset + count * 8;
          sidecar = put 12 (u32_to_le (word_of_nat entry_offset)) sidecar;
          sidecar = put 16 (u32_to_le (word_of_nat string_offset)) sidecar;
          (cursor, sidecar) = put_prefixes entry_offset string_offset (take count ps) 0 sidecar
      in put 20 (u32_to_le cursor) sidecar)"

definition u16_at :: "bytes \<Rightarrow> nat \<Rightarrow> u16" where
  "u16_at data offset = u16_from_le (subslice offset (offset + 2) data)"

definition u32_at :: "bytes \<Rightarrow> nat \<Rightarrow> u32" where
  "u32_at data offset = u32_from_le (subslice offset (offset + 4) data)"

definition sidecar_prefix :: "bytes \<Rightarrow> nat \<Rightarrow> nat \<Rightarrow> nat \<Rightarrow> rstr result" where
  "sidecar_prefix sidecar stringOffset stringBytes offset =
     (let start = stringOffset + unat (u32_at sidecar offset);
          finish = start + unat (u16_at sidecar (offset + 4))
      in if finish > stringOffset + stringBytes then Inl InvalidFormat
         else case from_utf8 (subslice start finish sidecar) of
             None \<Rightarrow> Inl InvalidFormat
           | Some s \<Rightarrow> Inr s)"

fun sidecar_prefixes :: "bytes \<Rightarrow> nat \<Rightarrow> nat \<Rightarrow> nat \<Rightarrow> nat \<Rightarrow> rstr list result" where
  "sidecar_prefixes sidecar stringOffset stringBytes offset 0 = Inr []"
| "sidecar_prefixes sidecar stringOffset stringBytes offset (Suc n) =
     (case sidecar_prefix sidecar stringOffset stringBytes offset of
        Inl e \<Rightarrow> Inl e
      | Inr p \<Rightarrow>
          (case sidecar_prefixes sidecar stringOffset stringBytes (offset + 8) n of
             Inl e \<Rightarrow> Inl e
           | Inr ps \<Rightarrow> Inr (p # ps)))"

definition DecodePathPrefixSidecar :: "bytes \<Rightarrow> rstr list result" where
  "DecodePathPrefixSidecar sidecar =
     (if length sidecar \<noteq> PATH_PREFIX_SIDECAR_BYTES then Inl InvalidFormat
      else
        let entryOffset = unat (u32_at sidecar 12); stringOffset = unat (u32_at sidecar 16);
            stringBytes = unat (u32_at sidecar 20); prefixCount = unat (u16_at sidecar 10)
        in if subslice 0 8 sidecar \<noteq> PATH_PREFIX_SIDECAR_MAGIC \<or> u16_at sidecar 8 \<noteq> PATH_PREFIX_SIDECAR_VERSION \<or>
              entryOffset < 32 \<or> stringOffset > PATH_PREFIX_SIDECAR_BYTES \<or>
              stringOffset + stringBytes > PATH_PREFIX_SIDECAR_BYTES \<or>
              entryOffset + prefixCount * 8 > PATH_PREFIX_SIDECAR_BYTES then Inl InvalidFormat
           else sidecar_prefixes sidecar stringOffset stringBytes entryOffset prefixCount)"

subsection \<open>Interning directories\<close>

text \<open>
  The table of directories: numbers point at their directories, the string bytes are counted, and
  the side table can hold them. The code starts from the empty table and only interns.
\<close>

definition path_table_ok :: "path_table \<Rightarrow> bool" where
  "path_table_ok pt \<longleftrightarrow>
     (\<forall>p i. map_of (prefix_to_id pt) p = Some i \<longrightarrow> unat i < length (pt_prefixes pt) \<and> pt_prefixes pt ! unat i = p) \<and>
     (\<forall>p \<in> set (pt_prefixes pt). map_of (prefix_to_id pt) p \<noteq> None) \<and> distinct (pt_prefixes pt) \<and>
     length (pt_prefixes pt) \<le> 65535 \<and> string_bytes pt = sum_list (map length (pt_prefixes pt)) \<and>
     path_prefix_sidecar_can_hold (length (pt_prefixes pt)) (string_bytes pt)"

lemma path_table_new_ok: "path_table_ok path_table_new"
  by (simp add: path_table_ok_def path_table_new_def path_prefix_sidecar_can_hold_def PATH_PREFIX_SIDECAR_BYTES_def PAGE_SIZE_def)

lemma intern_path_prefix_ok:
  assumes ok: "path_table_ok pt" and i: "intern_path_prefix p pt = (i, pt')"
  shows "path_table_ok pt'" and "\<exists>new. pt_prefixes pt' = pt_prefixes pt @ new \<and> set new \<subseteq> {p}"
    and "i = DOC_PATH_PREFIX_INVALID \<or> (unat i < length (pt_prefixes pt') \<and> pt_prefixes pt' ! unat i = p \<and> i \<noteq> DOC_PATH_PREFIX_INVALID)"
proof -
  have inv: "unat DOC_PATH_PREFIX_INVALID = 65535" by (simp add: DOC_PATH_PREFIX_INVALID_def)
  have other: "w \<noteq> DOC_PATH_PREFIX_INVALID" if "unat w < 65535" for w using that inv by auto
  consider (known) j where "map_of (prefix_to_id pt) p = Some j" "i = j" "pt' = pt"
    | (full) "i = DOC_PATH_PREFIX_INVALID" "pt' = pt"
    | (new) "map_of (prefix_to_id pt) p = None" "length (pt_prefixes pt) < 65535"
        "path_prefix_sidecar_can_hold (length (pt_prefixes pt) + 1) (string_bytes pt + length p)"
        "i = word_of_nat (length (pt_prefixes pt))"
        "pt' = \<lparr>prefix_to_id = AList.update p i (prefix_to_id pt), pt_prefixes = pt_prefixes pt @ [p],
                string_bytes = string_bytes pt + length p\<rparr>"
    using i inv by (auto simp: intern_path_prefix_def Let_def split: option.splits if_splits)
  then have "path_table_ok pt' \<and> (\<exists>new. pt_prefixes pt' = pt_prefixes pt @ new \<and> set new \<subseteq> {p}) \<and>
    (i = DOC_PATH_PREFIX_INVALID \<or> (unat i < length (pt_prefixes pt') \<and> pt_prefixes pt' ! unat i = p \<and> i \<noteq> DOC_PATH_PREFIX_INVALID))"
  proof cases
    case known
    then have "unat j < length (pt_prefixes pt)" "pt_prefixes pt ! unat j = p" "length (pt_prefixes pt) \<le> 65535"
      using ok by (auto simp: path_table_ok_def)
    then show ?thesis using known ok other [of j] by simp
  next
    case full
    then show ?thesis using ok by simp
  next
    case new
    have u: "unat (word_of_nat (length (pt_prefixes pt)) :: u16) = length (pt_prefixes pt)"
      using new(2) by (intro unat16_of_nat) simp
    have ids: "unat j < length (pt_prefixes pt @ [p]) \<and> (pt_prefixes pt @ [p]) ! unat j = q"
      if "map_of (AList.update p i (prefix_to_id pt)) q = Some j" for q j
    proof (cases "q = p")
      case True
      then show ?thesis using that u new(4) by (simp add: update_conv')
    next
      case False
      then have "map_of (prefix_to_id pt) q = Some j" using that by (simp add: update_conv')
      then have "unat j < length (pt_prefixes pt)" "pt_prefixes pt ! unat j = q" using ok by (auto simp: path_table_ok_def)
      then show ?thesis by (simp add: nth_append)
    qed
    have bytes: "string_bytes pt + length p = sum_list (map length (pt_prefixes pt @ [p]))" "length (pt_prefixes pt @ [p]) \<le> 65535"
      using ok new(2) by (auto simp: path_table_ok_def)
    have "\<forall>q \<in> set (pt_prefixes pt @ [p]). map_of (AList.update p i (prefix_to_id pt)) q \<noteq> None" "distinct (pt_prefixes pt @ [p])"
      using ok new(1) by (auto simp: path_table_ok_def update_conv')
    then have "path_table_ok pt'"
      unfolding path_table_ok_def new(5) using ids bytes new(3) by simp
    moreover have "i \<noteq> DOC_PATH_PREFIX_INVALID" using new(2,4) u by (intro other) simp
    ultimately show ?thesis using new u by simp
  qed
  then show "path_table_ok pt'" and "\<exists>new. pt_prefixes pt' = pt_prefixes pt @ new \<and> set new \<subseteq> {p}"
    and "i = DOC_PATH_PREFIX_INVALID \<or> (unat i < length (pt_prefixes pt') \<and> pt_prefixes pt' ! unat i = p \<and> i \<noteq> DOC_PATH_PREFIX_INVALID)"
    by blast+
qed

subsection \<open>Paths that survive\<close>

text \<open>
  What comes back for a path whose directory was interned. It is the path itself when the file name is
  within 62 bytes, the directory is not empty or there is none, and the separator is the one the
  decoder guesses.
\<close>

definition glue_path :: "rstr \<Rightarrow> rstr \<Rightarrow> rstr" where
  "glue_path dir name =
     (if dir = [] then name
      else if is_path_sep (last dir) then dir @ name
      else dir @ [if 0x5C \<in> set dir then 0x5C else 0x2F] @ name)"

definition plain_path :: "rstr \<Rightarrow> bool" where
  "plain_path full \<longleftrightarrow>
     (let (dir, name) = split_path_for_sidecar full
      in length name \<le> DOC_PATH_FILENAME_MAX \<and> utf8_valid name \<and> glue_path dir name = full)"

text \<open>The part of a record that holds a path: its length and its bytes.\<close>

definition path_field :: "bytes \<Rightarrow> bytes" where
  "path_field record = subslice DOC_PATH_OFFSET (DOC_PATH_OFFSET + unat (u16_at record 18)) record"

lemma encode_doc_path_record:
  assumes len: "length record = DOC_REC_SIZE" and e: "encode_doc_path record full pt = (record', pt')"
  shows "length record' = DOC_REC_SIZE"
    and "full = [] \<Longrightarrow> pt' = pt \<and> u16_at record' 18 = 0"
    and "full \<noteq> [] \<Longrightarrow> split_path_for_sidecar full = (dir, name) \<Longrightarrow>
      \<exists>i. intern_path_prefix dir pt = (i, pt') \<and> unat (u16_at record' 18) = 2 + min (length name) 62 \<and>
        path_field record' = u16_to_le i @ take 62 name"
    and "b \<le> 18 \<or> (20 \<le> a \<and> b \<le> DOC_PATH_OFFSET) \<Longrightarrow> subslice a b record' = subslice a b record"
proof -
  let ?r1 = "put 192 (replicate 64 0) (put 18 (u16_to_le 0) record)"
  have l: "length record = 256" using len by (simp add: DOC_REC_SIZE_def)
  have l1: "length ?r1 = 256" using l by simp
  have keep1: "subslice a b ?r1 = subslice a b record" if "b \<le> 18 \<or> (20 \<le> a \<and> b \<le> 192)" for a b
    using that l by (auto simp: slice_put_before slice_put_after)
  obtain dir' name' where split: "split_path_for_sidecar full = (dir', name')" by force
  obtain i pt1 where int: "intern_path_prefix dir' pt = (i, pt1)" by force
  let ?n = "min (length name') 62"
  let ?r2 = "put 18 (u16_to_le (word_of_nat (2 + ?n))) ?r1"
  let ?r3 = "put 192 (u16_to_le i) ?r2"
  let ?r4 = "put 194 (take ?n name') ?r3"
  have l3: "length ?r2 = 256" "length ?r3 = 256" using l1 by simp_all
  have l4: "length ?r4 = 256" using l3 by simp
  have full: "record' = ?r4 \<and> pt' = pt1" if "full \<noteq> []"
    using e that split int by (simp add: encode_doc_path_def Let_def path_consts)
  have empty: "record' = ?r1 \<and> pt' = pt" if "full = []"
    using e that by (simp add: encode_doc_path_def Let_def path_consts)
  show "length record' = DOC_REC_SIZE"
    using full empty l1 l4 by (cases "full = []") (simp_all add: DOC_REC_SIZE_def)
  show "subslice a b record' = subslice a b record" if ab: "b \<le> 18 \<or> (20 \<le> a \<and> b \<le> DOC_PATH_OFFSET)"
  proof (cases "full = []")
    case True
    then show ?thesis using empty keep1 ab by (simp add: DOC_PATH_OFFSET_def)
  next
    case False
    have "subslice a b ?r4 = subslice a b ?r1"
      using ab l1 l3 by (auto simp: slice_put_before slice_put_after DOC_PATH_OFFSET_def)
    then show ?thesis using full [OF False] keep1 ab by (simp add: DOC_PATH_OFFSET_def)
  qed
  show "pt' = pt \<and> u16_at record' 18 = 0" if "full = []"
  proof -
    have "subslice 18 20 ?r1 = u16_to_le 0"
      using l slice_put_same [of 18 "u16_to_le 0" "record"] by (simp add: slice_put_before)
    then show ?thesis using empty [OF that] by (simp add: u16_at_def)
  qed
  show "\<exists>i. intern_path_prefix dir pt = (i, pt') \<and> unat (u16_at record' 18) = 2 + min (length name) 62 \<and>
        path_field record' = u16_to_le i @ take 62 name" if ne: "full \<noteq> []" and sp: "split_path_for_sidecar full = (dir, name)"
  proof -
    have name: "dir' = dir" "name' = name" using split sp by auto
    have "subslice 18 20 ?r2 = u16_to_le (word_of_nat (2 + ?n))"
      using l1 slice_put_same [of 18 "u16_to_le (word_of_nat (2 + ?n))" ?r1] by simp
    then have "u16_at ?r4 18 = word_of_nat (2 + ?n)"
      using l3 by (simp add: u16_at_def slice_put_before)
    moreover have "unat (word_of_nat (2 + ?n) :: u16) = 2 + ?n" by (intro unat16_of_nat) simp
    ultimately have plen: "unat (u16_at ?r4 18) = 2 + ?n" by simp
    have fit: "194 + length (take ?n name') \<le> length ?r3" using l3 by simp
    have "subslice 194 (194 + ?n) ?r4 = take ?n name'" using slice_put_same [OF fit] by simp
    moreover have "subslice 192 194 ?r4 = u16_to_le i"
      using l3 slice_put_same [of 192 "u16_to_le i" ?r2] by (simp add: slice_put_before)
    moreover have "subslice 192 (194 + ?n) ?r4 = subslice 192 194 ?r4 @ subslice 194 (194 + ?n) ?r4"
      using take_add [of 2 ?n "drop 192 ?r4"] by (simp add: subslice_def add.commute)
    ultimately have "path_field ?r4 = u16_to_le i @ take ?n name'"
      unfolding path_field_def plen by (simp add: DOC_PATH_OFFSET_def)
    moreover have "take ?n name' = take 62 name'" by (simp add: min_def)
    ultimately show ?thesis using full [OF ne] int plen name by simp
  qed
qed

lemma DecodeDocPath_field:
  "DecodeDocPath (u16_to_le i @ name) table =
     (if i = DOC_PATH_PREFIX_INVALID \<or> unat i \<ge> length table then utf8_or_empty name
      else glue_path (table ! unat i) (utf8_or_empty name))"
proof -
  have "u16_to_le i \<noteq> []" using length_u16_to_le [of i] by (metis list.size(3) zero_neq_numeral)
  then show ?thesis
    by (simp add: DecodeDocPath_def glue_path_def Let_def DOC_PATH_PREFIX_ID_BYTES_def slice_append_left)
qed

text \<open>
  A path comes back: encode a plain path into a record with a well-formed table of directories,
  with room for its directory; then, even after more directories have been added to the table,
  decoding the path field of the record gives the path.
\<close>

theorem path_roundtrip:
  assumes "path_table_ok pt" and "length record = DOC_REC_SIZE" and "plain_path full" and "full \<noteq> []"
    and "encode_doc_path record full pt = (record', pt')"
    and "fst (intern_path_prefix (fst (split_path_for_sidecar full)) pt) \<noteq> DOC_PATH_PREFIX_INVALID"
  shows "DecodeDocPath (path_field record') (pt_prefixes pt' @ later) = full"
proof -
  obtain dir name where split: "split_path_for_sidecar full = (dir, name)" by force
  from encode_doc_path_record(3) [OF assms(2,5,4) split] obtain i where
    i: "intern_path_prefix dir pt = (i, pt')" "path_field record' = u16_to_le i @ take 62 name" by blast
  from intern_path_prefix_ok(3) [OF assms(1) i(1)] assms(6) i(1) split
  have "unat i < length (pt_prefixes pt')" "pt_prefixes pt' ! unat i = dir" "i \<noteq> DOC_PATH_PREFIX_INVALID" by auto
  moreover have "take 62 name = name" "utf8_or_empty name = name" "glue_path dir name = full"
    using assms(3) split by (auto simp: plain_path_def path_consts utf8_or_empty_def from_utf8_def)
  ultimately show ?thesis by (simp add: i(2) DecodeDocPath_field nth_append)
qed

lemma plain_path_slash:
  assumes "dir \<noteq> []" "\<not> is_path_sep (last dir)" "0x5C \<notin> set dir" "\<forall>b \<in> set name. \<not> is_path_sep b"
    "length name \<le> 62" "utf8_valid name"
  shows "plain_path (dir @ [0x2F] @ name)" and "split_path_for_sidecar (dir @ [0x2F] @ name) = (dir, name)"
proof -
  have "takeWhile (\<lambda>b. \<not> is_path_sep b) (rev name @ 0x2F # rev dir) = rev name"
    using assms(4) by (subst takeWhile_append2) (auto simp: is_path_sep_def)
  then show split: "split_path_for_sidecar (dir @ [0x2F] @ name) = (dir, name)"
    by (simp add: split_path_for_sidecar_def Let_def)
  then show "plain_path (dir @ [0x2F] @ name)"
    using assms by (simp add: plain_path_def glue_path_def path_consts)
qed

theorem path_roundtrip_witness:
  "DecodeDocPath (path_field (fst (encode_doc_path (replicate DOC_REC_SIZE 0) (str ''a/b'') path_table_new)))
     [str ''a''] = str ''a/b''"
proof -
  obtain r pt where e: "encode_doc_path (replicate DOC_REC_SIZE 0) (str ''a/b'') path_table_new = (r, pt)" by force
  have full: "str ''a/b'' = str ''a'' @ [0x2F] @ str ''b''" by (simp add: str_simps)
  have "plain_path (str ''a'' @ [0x2F] @ str ''b'')" and split: "split_path_for_sidecar (str ''a'' @ [0x2F] @ str ''b'') = (str ''a'', str ''b'')"
    by (rule plain_path_slash; simp add: str_simps is_path_sep_def)+
  moreover have i: "intern_path_prefix (str ''a'') path_table_new =
      (0, \<lparr>prefix_to_id = [(str ''a'', 0)], pt_prefixes = [str ''a''], string_bytes = 1\<rparr>)"
    by (simp add: intern_path_prefix_def path_table_new_def path_prefix_sidecar_can_hold_def PATH_PREFIX_SIDECAR_BYTES_def
        PAGE_SIZE_def DOC_PATH_PREFIX_INVALID_def str_simps)
  moreover have "pt_prefixes pt = [str ''a'']"
    using e split i by (auto simp: encode_doc_path_def full Let_def str_simps)
  ultimately show ?thesis
    using path_roundtrip [OF path_table_new_ok _ _ _ e, of "[]"] e
    by (simp add: full DOC_PATH_PREFIX_INVALID_def)
qed

text \<open>A path at the root comes back without its separator; a name cut inside a character comes back empty.\<close>

lemma root_path_loses_separator:
  "DecodeDocPath (path_field (fst (encode_doc_path (replicate DOC_REC_SIZE 0) (str ''/b'') path_table_new))) [[]] = str ''b''"
proof -
  obtain r pt where e: "encode_doc_path (replicate DOC_REC_SIZE 0) (str ''/b'') path_table_new = (r, pt)" by force
  have split: "split_path_for_sidecar (str ''/b'') = ([], str ''b'')"
    by (simp add: split_path_for_sidecar_def str_simps is_path_sep_def)
  have i: "intern_path_prefix [] path_table_new = (0, \<lparr>prefix_to_id = [([], 0)], pt_prefixes = [[]], string_bytes = 0\<rparr>)"
    by (simp add: intern_path_prefix_def path_table_new_def path_prefix_sidecar_can_hold_def PATH_PREFIX_SIDECAR_BYTES_def
        PAGE_SIZE_def DOC_PATH_PREFIX_INVALID_def)
  have "str ''/b'' \<noteq> []" by (simp add: str_simps)
  from encode_doc_path_record(3) [OF _ e this split] i have "path_field r = u16_to_le 0 @ str ''b''"
    by (auto simp: str_simps)
  then show ?thesis
    unfolding e fst_conv
    by (simp add: DecodeDocPath_field glue_path_def DOC_PATH_PREFIX_INVALID_def utf8_or_empty_def from_utf8_def str_simps)
qed

lemma cut_name_lost: "utf8_or_empty (take 62 (replicate 61 0x61 @ [0xC3, 0xA9])) = []"
proof -
  have "\<not> utf8_valid (replicate n 0x61 @ [0xC3])" for n by (induction n) auto
  from this [of 61] show ?thesis by (simp add: utf8_or_empty_def from_utf8_def)
qed

subsection \<open>The side table comes back\<close>

lemma put_prefixes_frame:
  assumes "put_prefixes eo so ps cursor sidecar = (cursor', sidecar')"
    and "eo + 8 * length ps \<le> so" and "so + unat cursor + sum_list (map length ps) \<le> length sidecar"
    and "unat cursor + sum_list (map length ps) < 2 ^ 32"
  shows "length sidecar' = length sidecar \<and> unat cursor' = unat cursor + sum_list (map length ps) \<and>
    (\<forall>a b. b \<le> eo \<or> (eo + 8 * length ps \<le> a \<and> b \<le> so + unat cursor) \<longrightarrow> subslice a b sidecar' = subslice a b sidecar)"
  using assms
proof (induction ps arbitrary: eo cursor sidecar)
  case Nil
  then show ?case by simp
next
  case (Cons p ps)
  let ?s1 = "put eo (u32_to_le cursor) sidecar"
  let ?s2 = "put (eo + 4) (u16_to_le (word_of_nat (length p))) ?s1"
  let ?s3 = "put (so + unat cursor) p ?s2"
  have l: "length ?s1 = length sidecar" "length ?s2 = length sidecar" "length ?s3 = length sidecar"
    using Cons.prems(2,3) by auto
  have "length p < 2 ^ 32" using Cons.prems(4) by simp
  then have "unat (word_of_nat (length p) :: u32) = length p" by (rule unat32_of_nat)
  then have cur: "unat (cursor + word_of_nat (length p)) = unat cursor + length p"
    using Cons.prems(4) by (simp add: unat_word_ariths)
  from Cons.prems(1) have "put_prefixes (eo + 8) so ps (cursor + word_of_nat (length p)) ?s3 = (cursor', sidecar')"
    by (simp add: Let_def)
  from Cons.IH [OF this] Cons.prems(2-4) cur l
  have ih: "length sidecar' = length ?s3" "unat cursor' = unat cursor + length p + sum_list (map length ps)"
    "\<And>a b. b \<le> eo + 8 \<or> (eo + 8 + 8 * length ps \<le> a \<and> b \<le> so + unat cursor + length p) \<Longrightarrow> subslice a b sidecar' = subslice a b ?s3"
    by auto
  have frame: "subslice a b ?s3 = subslice a b sidecar" if "b \<le> eo \<or> (eo + 8 \<le> a \<and> b \<le> so + unat cursor)" for a b
    using that Cons.prems(2,3) l by (auto simp: slice_put_before slice_put_after)
  have "subslice a b sidecar' = subslice a b sidecar"
    if "b \<le> eo \<or> (eo + 8 * length (p # ps) \<le> a \<and> b \<le> so + unat cursor)" for a b
    using ih(3) [of b a] frame [of b a] that by auto
  then show ?case using ih l by simp
qed

lemma put_prefixes_read:
  assumes "put_prefixes eo so ps cursor sidecar = (cursor', sidecar')"
    and "eo + 8 * length ps \<le> so" and "so + unat cursor + sum_list (map length ps) \<le> length sidecar"
    and "unat cursor + sum_list (map length ps) < 2 ^ 32"
    and "\<forall>p \<in> set ps. length p < 2 ^ 16 \<and> utf8_valid p" and "unat cursor + sum_list (map length ps) \<le> n"
    and "\<And>a b. eo \<le> a \<Longrightarrow> subslice a b sidecar'' = subslice a b sidecar'"
  shows "sidecar_prefixes sidecar'' so n eo (length ps) = Inr ps"
  using assms
proof (induction ps arbitrary: eo cursor sidecar)
  case Nil
  then show ?case by simp
next
  case (Cons p ps)
  let ?s1 = "put eo (u32_to_le cursor) sidecar"
  let ?s2 = "put (eo + 4) (u16_to_le (word_of_nat (length p))) ?s1"
  let ?s3 = "put (so + unat cursor) p ?s2" and ?cur = "cursor + word_of_nat (length p)"
  have l: "length ?s1 = length sidecar" "length ?s2 = length sidecar" "length ?s3 = length sidecar"
    using Cons.prems(2,3) by auto
  have "length p < 2 ^ 32" using Cons.prems(4) by simp
  then have "unat (word_of_nat (length p) :: u32) = length p" by (rule unat32_of_nat)
  then have cur: "unat ?cur = unat cursor + length p"
    using Cons.prems(4) by (simp add: unat_word_ariths)
  from Cons.prems(1) have rest: "put_prefixes (eo + 8) so ps ?cur ?s3 = (cursor', sidecar')" by (simp add: Let_def)
  have ih: "sidecar_prefixes sidecar'' so n (eo + 8) (length ps) = Inr ps"
    using Cons.IH [OF rest] Cons.prems(2-7) cur l by auto
  have frame: "subslice a b sidecar'' = subslice a b ?s3"
    if "eo \<le> a" "b \<le> eo + 8 \<or> (eo + 8 + 8 * length ps \<le> a \<and> b \<le> so + unat cursor + length p)" for a b
    using put_prefixes_frame [OF rest] Cons.prems(2-4,7) cur l that by auto
  have "subslice eo (eo + 4) ?s3 = u32_to_le cursor"
    using Cons.prems(2,3) l slice_put_same [of eo "u32_to_le cursor" sidecar] by (simp add: slice_put_before)
  then have at0: "u32_at sidecar'' eo = cursor" using frame [of eo "eo + 4"] by (simp add: u32_at_def)
  have "subslice (eo + 4) (eo + 4 + 2) ?s3 = u16_to_le (word_of_nat (length p))"
    using Cons.prems(2,3) l slice_put_same [of "eo + 4" "u16_to_le (word_of_nat (length p))" ?s1] by (simp add: slice_put_before)
  moreover have "unat (word_of_nat (length p) :: u16) = length p" using Cons.prems(5) by (intro unat16_of_nat) simp
  ultimately have at4: "unat (u16_at sidecar'' (eo + 4)) = length p"
    using frame [of "eo + 4" "eo + 4 + 2"] by (simp add: u16_at_def)
  have "subslice (so + unat cursor) (so + unat cursor + length p) ?s3 = p"
    using Cons.prems(2,3) l by (intro slice_put_same) simp
  then have body: "subslice (so + unat cursor) (so + unat cursor + length p) sidecar'' = p"
    using frame [of "so + unat cursor" "so + unat cursor + length p"] Cons.prems(2) by simp
  have "sidecar_prefix sidecar'' so n eo = Inr p"
    using body at0 at4 Cons.prems(5,6) by (simp add: sidecar_prefix_def from_utf8_def)
  with ih show ?case by simp
qed

text \<open>While the table has room for a directory, interning it gives it a number.\<close>

lemma intern_path_prefix_room:
  assumes ok: "path_table_ok pt" and D: "set (pt_prefixes pt) \<subseteq> D" "p \<in> D" "finite D"
    and room: "card D \<le> 65535" "path_prefix_sidecar_can_hold (card D) (sum length D)"
  shows "fst (intern_path_prefix p pt) \<noteq> DOC_PATH_PREFIX_INVALID"
proof (cases "map_of (prefix_to_id pt) p")
  case (Some i)
  then have "unat i < 65535" using ok by (fastforce simp: path_table_ok_def)
  then show ?thesis using Some by (auto simp: intern_path_prefix_def DOC_PATH_PREFIX_INVALID_def)
next
  case None
  let ?ps = "pt_prefixes pt @ [p]"
  have new: "p \<notin> set (pt_prefixes pt)" "distinct (pt_prefixes pt)" using ok None by (auto simp: path_table_ok_def)
  then have dist: "distinct ?ps" and sub: "set ?ps \<subseteq> D" using D by auto
  have "length ?ps \<le> card D" using distinct_card [OF dist] card_mono [OF D(3) sub] by simp
  moreover have "sum_list (map length ?ps) \<le> sum length D"
    using sum_list_distinct_conv_sum_set [OF dist, of length] sum_mono2 [OF D(3) sub, of length] by simp
  moreover have "string_bytes pt = sum_list (map length (pt_prefixes pt))" using ok by (simp add: path_table_ok_def)
  ultimately have hold: "path_prefix_sidecar_can_hold (length (pt_prefixes pt) + 1) (string_bytes pt + length p)"
      and len: "length (pt_prefixes pt) < 65535"
    using room by (auto simp: path_prefix_sidecar_can_hold_def)
  have "unat (word_of_nat (length (pt_prefixes pt)) :: u16) = length (pt_prefixes pt)" using len by (intro unat16_of_nat) simp
  then have "(word_of_nat (length (pt_prefixes pt)) :: u16) \<noteq> 0xFFFF" using len by auto
  then show ?thesis using None hold len by (simp add: intern_path_prefix_def Let_def DOC_PATH_PREFIX_INVALID_def)
qed

lemma sidecar_decodes:
  assumes ok: "path_table_ok pt" and ps: "\<forall>p \<in> set (pt_prefixes pt). length p < 2 ^ 16 \<and> utf8_valid p"
  shows "DecodePathPrefixSidecar (EncodePathPrefixSidecar (pt_prefixes pt)) = Inr (pt_prefixes pt)"
    and "length (EncodePathPrefixSidecar (pt_prefixes pt)) = PATH_PREFIX_SIDECAR_BYTES"
proof -
  let ?ps = "pt_prefixes pt" and ?z = "replicate 81920 (0 :: u8)"
  define n where "n = length ?ps"
  define m where "m = sum_list (map length ?ps)"
  have n: "n \<le> 65535" "32 + n * 8 + m \<le> 81920"
    using ok by (auto simp: path_table_ok_def path_prefix_sidecar_can_hold_def PATH_PREFIX_SIDECAR_BYTES_def PAGE_SIZE_def n_def m_def)
  define s0 where "s0 = put 16 (u32_to_le (word_of_nat (32 + n * 8))) (put 12 (u32_to_le 32)
    (put 10 (u16_to_le (word_of_nat n)) (put 8 (u16_to_le 1) (put 0 PATH_PREFIX_SIDECAR_MAGIC ?z))))"
  have magic: "length PATH_PREFIX_SIDECAR_MAGIC = 8" by (simp add: PATH_PREFIX_SIDECAR_MAGIC_def)
  have l0: "length s0 = 81920" by (simp add: s0_def magic)
  have hd: "subslice 0 8 s0 = PATH_PREFIX_SIDECAR_MAGIC" "subslice 8 10 s0 = u16_to_le 1"
    "subslice 10 12 s0 = u16_to_le (word_of_nat n)" "subslice 12 16 s0 = u32_to_le 32"
    "subslice 16 20 s0 = u32_to_le (word_of_nat (32 + n * 8))"
    by (simp_all add: s0_def magic slice_put_before slice_put_inside)
  obtain c s1 where put: "put_prefixes 32 (32 + n * 8) ?ps 0 s0 = (c, s1)" by force
  have pre: "32 + 8 * length ?ps \<le> 32 + n * 8" "32 + n * 8 + unat (0 :: u32) + m \<le> length s0" "unat (0 :: u32) + m < 2 ^ 32"
    using n l0 by (simp_all add: n_def)
  note frame = put_prefixes_frame [OF put pre(1) pre(2,3) [unfolded m_def]]
  define s2 where "s2 = put 20 (u32_to_le c) s1"
  have enc: "EncodePathPrefixSidecar ?ps = s2"
    using put n(1)
    by (simp add: EncodePathPrefixSidecar_def s2_def s0_def PATH_PREFIX_SIDECAR_BYTES_def PAGE_SIZE_def
        PATH_PREFIX_SIDECAR_VERSION_def Let_def n_def min_def)
  have l1: "length s1 = 81920" and c: "unat c = m" using frame l0 by (simp_all add: m_def)
  have l2: "length s2 = 81920" using l1 by (simp add: s2_def)
  have low: "subslice a b s2 = subslice a b s0" if "b \<le> 20" for a b
    using frame that l1 by (simp add: s2_def slice_put_before)
  have high: "subslice a b s2 = subslice a b s1" if "32 \<le> a" for a b
    using that l1 by (simp add: s2_def slice_put_after)
  have "subslice 20 24 s2 = u32_to_le c" using l1 slice_put_same [of 20 "u32_to_le c" s1] by (simp add: s2_def)
  moreover have "unat (word_of_nat n :: u16) = n" using n(1) by (intro unat16_of_nat) simp
  moreover have "unat (word_of_nat (32 + n * 8) :: u32) = 32 + n * 8" using n(2) by (intro unat32_of_nat) simp
  ultimately have fields: "subslice 0 8 s2 = PATH_PREFIX_SIDECAR_MAGIC" "u16_at s2 8 = 1" "unat (u16_at s2 10) = n"
    "unat (u32_at s2 12) = 32" "unat (u32_at s2 16) = 32 + n * 8" "unat (u32_at s2 20) = m"
    using low hd c by (simp_all add: u16_at_def u32_at_def del: of_nat_add)
  have "sidecar_prefixes s2 (32 + n * 8) m 32 (length ?ps) = Inr ?ps"
    by (rule put_prefixes_read [OF put pre(1) pre(2,3) [unfolded m_def] ps]) (use high in \<open>auto simp: m_def\<close>)
  then show "DecodePathPrefixSidecar (EncodePathPrefixSidecar ?ps) = Inr ?ps"
    using l2 n by (simp add: enc DecodePathPrefixSidecar_def fields PATH_PREFIX_SIDECAR_BYTES_def PAGE_SIZE_def
        PATH_PREFIX_SIDECAR_VERSION_def n_def)
  show "length (EncodePathPrefixSidecar ?ps) = PATH_PREFIX_SIDECAR_BYTES"
    using l2 by (simp add: enc PATH_PREFIX_SIDECAR_BYTES_def PAGE_SIZE_def)
qed

text \<open>
  The side table of directories comes back: decoding the encoding of a well-formed table gives
  its directories in order, provided each is shorter than 64 KiB (its length is kept in 16 bits).
\<close>

theorem sidecar_roundtrip:
  assumes ok: "path_table_ok pt" and ps: "\<forall>p \<in> set (pt_prefixes pt). length p < 2 ^ 16 \<and> utf8_valid p"
  shows "DecodePathPrefixSidecar (EncodePathPrefixSidecar (pt_prefixes pt)) = Inr (pt_prefixes pt)"
  using sidecar_decodes(1) [OF assms] .

theorem sidecar_roundtrip_witness:
  "DecodePathPrefixSidecar (EncodePathPrefixSidecar [str ''a/b'', str ''c'']) = Inr [str ''a/b'', str ''c'']"
proof -
  let ?pt = "\<lparr>prefix_to_id = [(str ''a/b'', 0), (str ''c'', 1)], pt_prefixes = [str ''a/b'', str ''c''], string_bytes = 4\<rparr>"
  have "path_table_ok ?pt"
    by (simp add: path_table_ok_def path_prefix_sidecar_can_hold_def PATH_PREFIX_SIDECAR_BYTES_def PAGE_SIZE_def str_simps)
  moreover have "\<forall>p \<in> set (pt_prefixes ?pt). length p < 2 ^ 16 \<and> utf8_valid p" by (simp add: str_simps)
  ultimately show ?thesis using sidecar_roundtrip [of ?pt] by simp
qed

end
