(* ===== verification/DocData.thy ===== *)
theory DocData
  imports AdvancedReader DocPath
begin

text \<open>
  The document table of an index (\<open>EncodeDocData\<close> and its helpers in \<open>IndexAccess/IndexContext.rs\<close>):
  one record per id between the smallest and the largest id of the store, with the document's path
  split into a directory, kept once in a side table, and a file name.
\<close>

subsection \<open>The range of document ids\<close>

definition StoreFirstDocId :: "PostingStore \<Rightarrow> u64" where
  "StoreFirstDocId s = (case map fst (m_DocStats s) of [] \<Rightarrow> 0 | d # ds \<Rightarrow> fold min ds d)"

definition StoreDocDataRecordCount :: "PostingStore \<Rightarrow> u64" where
  "StoreDocDataRecordCount s =
     (case map fst (m_DocStats s) of
        [] \<Rightarrow> 0
      | d # ds \<Rightarrow> fold max ds d - fold min ds d + 1)"

lemma fold_min_mem: "fold min ds (d :: u64) \<in> set (d # ds)"
  by (induction ds arbitrary: d) (auto simp: min_def)

lemma fold_max_mem: "fold max ds (d :: u64) \<in> set (d # ds)"
  by (induction ds arbitrary: d) (auto simp: max_def)

lemma fold_min_lower: "fold min ds (d :: u64) \<le> d \<and> (\<forall>x \<in> set ds. fold min ds d \<le> x)"
proof (induction ds arbitrary: d)
  case (Cons e ds)
  from Cons [of "min e d"] show ?case by auto
qed simp

lemma fold_max_upper: "d \<le> fold max ds (d :: u64) \<and> (\<forall>x \<in> set ds. x \<le> fold max ds d)"
proof (induction ds arbitrary: d)
  case (Cons e ds)
  from Cons [of "max e d"] show ?case by auto
qed simp

lemma StoreFirstDocId_least: "d \<in> fst ` set (m_DocStats s) \<Longrightarrow> StoreFirstDocId s \<le> d"
  using fold_min_lower [of "tl (map fst (m_DocStats s))" "hd (map fst (m_DocStats s))"]
  by (cases "m_DocStats s") (auto simp: StoreFirstDocId_def)

lemma record_in_range_slot:
  assumes "d \<in> fst ` set (m_DocStats s)" and "StoreDocDataRecordCount s \<noteq> 0"
  shows "unat (d - StoreFirstDocId s) < unat (StoreDocDataRecordCount s)"
proof -
  obtain d0 ds where ids: "map fst (m_DocStats s) = d0 # ds" using assms(1) by (cases "m_DocStats s") auto
  let ?lo = "fold min ds d0" and ?hi = "fold max ds d0"
  have "d \<in> set (d0 # ds)" using assms(1) ids by (metis list.set_map)
  then have lo: "?lo \<le> d" and hi: "d \<le> ?hi" using fold_min_lower [of ds d0] fold_max_upper [of d0 ds] by auto
  have count: "StoreDocDataRecordCount s = ?hi - ?lo + 1" and first: "StoreFirstDocId s = ?lo"
    using ids by (simp_all add: StoreDocDataRecordCount_def StoreFirstDocId_def)
  have "unat (d - ?lo) \<le> unat (?hi - ?lo)"
    using lo hi by (simp add: unat_sub word_le_nat_alt diff_le_mono)
  moreover have "unat (?hi - ?lo + 1) = Suc (unat (?hi - ?lo))"
    using assms(2) unatSuc [of "?hi - ?lo"] by (simp add: count add.commute)
  ultimately show ?thesis by (simp add: count first)
qed

text \<open>
  The document table has a record for every document of the store: an id minus the first id is
  below the record count, unless the ids span the whole 64-bit range.
\<close>

theorem record_in_range:
  assumes "d \<in> fst ` set (m_DocStats s)" and "StoreDocDataRecordCount s \<noteq> 0"
  shows "unat (d - StoreFirstDocId s) < unat (StoreDocDataRecordCount s)"
  using assms by (rule record_in_range_slot)

theorem record_in_range_witness:
  "unat (9 - StoreFirstDocId (AddDocTokens 9 1 (AddDocTokens 4 1 PostingStore_new))) < 6"
  using record_in_range [of 9 "AddDocTokens 9 1 (AddDocTokens 4 1 PostingStore_new)"]
  by (simp add: AddDocTokens_def upd_stats_def PostingStore_new_def StoreDocDataRecordCount_def)

subsection \<open>Encoding the document table\<close>

text \<open>
  The scores of a document are computed in floating point; they are an argument here, already in the
  form in which they are stored. The table of statistics is walked in the order of the list (the
  code walks a hash map; no theorem below depends on the order).
\<close>

definition DOC_VECTOR_OFFSET :: nat where "DOC_VECTOR_OFFSET = 64"

record doc_scores =
  sc_static_rank :: u16
  sc_quality :: u16
  sc_authority :: u16
  sc_spam :: u16
  sc_diversity :: f32_bits
  sc_length_quality :: f32_bits

definition encode_stats :: "doc_scores \<Rightarrow> PostingStore \<Rightarrow> u64 \<Rightarrow> DocStats \<Rightarrow> bytes \<Rightarrow> bytes" where
  "encode_stats sc store docId stats rec =
     (let rec = put 0 (u32_to_le (ucast docId)) rec;
          rec = put 4 (u16_to_le (sc_static_rank sc)) rec;
          rec = put 6 (u16_to_le (sc_quality sc)) rec;
          rec = put 14 (u16_to_le (sc_authority sc)) rec;
          rec = put 16 (u16_to_le (sc_spam sc)) rec;
          rec = put 26 (u32_to_le (title_len stats)) rec;
          rec = put 30 (u32_to_le (body_len stats)) rec;
          rec = put 34 (u32_to_le (url_len stats)) rec;
          rec = put 38 (u32_to_le (anchor_len stats)) rec;
          rec = put 42 (u32_to_le (meta_len stats)) rec;
          rec = put 46 (u32_to_le (sc_diversity sc)) rec;
          rec = put 50 (u32_to_le (sc_length_quality sc)) rec
      in case GetDocVector store docId of
           None \<Rightarrow> rec
         | Some vector \<Rightarrow>
             let rec = put 54 (u16_to_le (word_of_nat DOC_VECTOR_DIM)) rec;
                 rec = put 56 (u16_to_le 1) rec
             in put DOC_VECTOR_OFFSET (take DOC_VECTOR_DIM vector) rec)"

definition encode_record ::
  "(DocStats \<Rightarrow> doc_scores) \<Rightarrow> PostingStore \<Rightarrow> u64 \<times> DocStats \<Rightarrow> bytes \<Rightarrow> path_table \<Rightarrow> bytes \<times> path_table" where
  "encode_record scores store e rec pt =
     encode_doc_path (encode_stats (scores (snd e)) store (fst e) (snd e) rec) (path (snd e)) pt"

definition record_at :: "bytes \<Rightarrow> nat \<Rightarrow> bytes" where
  "record_at out slot = subslice (slot * DOC_REC_SIZE) (slot * DOC_REC_SIZE + DOC_REC_SIZE) out"

definition encode_into ::
  "(DocStats \<Rightarrow> doc_scores) \<Rightarrow> PostingStore \<Rightarrow> u64 \<times> DocStats \<Rightarrow> bytes \<times> path_table \<Rightarrow> bytes \<times> path_table" where
  "encode_into scores store e = (\<lambda>(out, pt).
     let slot = unat (fst e - StoreFirstDocId store);
         (rec, pt) = encode_record scores store e (record_at out slot) pt
     in (put (slot * DOC_REC_SIZE) rec out, pt))"

definition blank_record :: bytes where
  "blank_record = put 0 (u32_to_le MAX32) (replicate DOC_REC_SIZE 0)"

definition EncodeDocData :: "(DocStats \<Rightarrow> doc_scores) \<Rightarrow> PostingStore \<Rightarrow> bytes \<times> bytes \<times> rstr list" where
  "EncodeDocData scores store =
     (let documentCount = unat (StoreDocDataRecordCount store);
          out = concat (replicate documentCount blank_record);
          (out, pt) = fold (encode_into scores store) (m_DocStats store) (out, path_table_new)
      in (out, EncodePathPrefixSidecar (pt_prefixes pt), pt_prefixes pt))"

subsection \<open>Reading the document table\<close>

definition DocDataFirstDocId :: "bytes \<Rightarrow> u64 \<Rightarrow> u64" where
  "DocDataFirstDocId docdata numDocuments =
     (if numDocuments > 0 \<and> length docdata \<ge> DOC_REC_SIZE then ucast (u32_at docdata 0) else 0)"

definition DecodeDocDataRecord :: "(u16 \<Rightarrow> f32_bits) \<Rightarrow> u64 \<Rightarrow> bytes \<Rightarrow> PostingStore \<Rightarrow> PostingStore" where
  "DecodeDocDataRecord DocDataDecodeScore index rec store =
     (let doc_id = ucast (u32_at rec 0)
      in if doc_id \<noteq> index then store
         else
           let store = SetDocLengths doc_id (u32_at rec 26) (u32_at rec 30) (u32_at rec 34) (u32_at rec 38)
                         (u32_at rec 42) store;
               store = SetDocImportance doc_id (DocDataDecodeScore (u16_at rec 4)) store
           in if unat (u16_at rec 54) = DOC_VECTOR_DIM \<and> u16_at rec 56 \<noteq> 0 then
                snd (SetDocVectorBytes doc_id
                       (subslice DOC_VECTOR_OFFSET (DOC_VECTOR_OFFSET + DOC_VECTOR_DIM) rec) store)
              else store)"

definition DecodeDocData ::
  "(u16 \<Rightarrow> f32_bits) \<Rightarrow> u64 \<Rightarrow> bytes \<Rightarrow> PostingStore \<Rightarrow> PostingStore result" where
  "DecodeDocData DocDataDecodeScore numDocuments docdata store =
     (if length docdata \<noteq> unat numDocuments * DOC_REC_SIZE then Inl InvalidFormat
      else
        let first_doc_id = DocDataFirstDocId docdata numDocuments
        in Inr (fold (\<lambda>index. DecodeDocDataRecord DocDataDecodeScore (first_doc_id + word_of_nat index) (record_at docdata index))
                  [0..<unat numDocuments] store))"

text \<open>
  The document table of a context and of its delta context, which answers for ids the first does not
  have. (The code multiplies the slot by the record size in machine arithmetic; a product that wraps
  belongs to an id above 32 bits, which no record carries.)
\<close>

record doc_table =
  dt_DocData :: bytes
  dt_NumDocuments :: u64
  dt_PathPrefixes :: "rstr list"

definition find_record :: "doc_table \<Rightarrow> u64 \<Rightarrow> bytes option" where
  "find_record t docId =
     (let firstDocId = DocDataFirstDocId (dt_DocData t) (dt_NumDocuments t)
      in if docId \<ge> firstDocId \<and>
            (unat (docId - firstDocId) + 1) * DOC_REC_SIZE \<le> length (dt_DocData t) \<and>
            ucast (u32_at (record_at (dt_DocData t) (unat (docId - firstDocId))) 0) = docId
         then Some (record_at (dt_DocData t) (unat (docId - firstDocId))) else None)"

primrec find_in_tables :: "doc_table list \<Rightarrow> u64 \<Rightarrow> bytes option" where
  "find_in_tables [] docId = None"
| "find_in_tables (t # delta) docId =
     (case find_record t docId of Some rec \<Rightarrow> Some rec | None \<Rightarrow> find_in_tables delta docId)"

definition GetDocDataEntry :: "doc_table list \<Rightarrow> u64 \<Rightarrow> bytes option" where
  "GetDocDataEntry ts doc_id = find_in_tables ts (ReaderDocumentIDValue doc_id)"

primrec path_in_tables :: "doc_table list \<Rightarrow> u64 \<Rightarrow> rstr" where
  "path_in_tables [] docId = []"
| "path_in_tables (t # delta) docId =
     (case find_record t docId of
        Some rec \<Rightarrow>
          if 0 < unat (u16_at rec 18) \<and> unat (u16_at rec 18) \<le> DOC_PATH_MAX then
            DecodeDocPath (path_field rec) (dt_PathPrefixes t)
          else path_in_tables delta docId
      | None \<Rightarrow> path_in_tables delta docId)"

definition ctx_GetDocPath :: "doc_table list \<Rightarrow> u64 \<Rightarrow> rstr" where
  "ctx_GetDocPath ts doc_id = path_in_tables ts (ReaderDocumentIDValue doc_id)"

subsection \<open>What a record holds\<close>

lemma encode_stats_length [simp]:
  "length rec = DOC_REC_SIZE \<Longrightarrow> length (encode_stats sc store d st rec) = DOC_REC_SIZE"
  by (simp add: encode_stats_def Let_def DOC_REC_SIZE_def DOC_VECTOR_OFFSET_def DOC_VECTOR_DIM_def split: option.split)

text \<open>The fixed fields; the vector fields are zero in a blank record.\<close>

definition stats_fields :: "doc_scores \<Rightarrow> PostingStore \<Rightarrow> u64 \<Rightarrow> DocStats \<Rightarrow> bytes \<Rightarrow> bool" where
  "stats_fields sc store d st rec \<longleftrightarrow>
     u32_at rec 0 = ucast d \<and> u16_at rec 4 = sc_static_rank sc \<and> u32_at rec 26 = title_len st \<and>
     u32_at rec 30 = body_len st \<and> u32_at rec 34 = url_len st \<and> u32_at rec 38 = anchor_len st \<and>
     u32_at rec 42 = meta_len st \<and>
     (case GetDocVector store d of
        None \<Rightarrow> u16_at rec 54 = 0
      | Some v \<Rightarrow> unat (u16_at rec 54) = DOC_VECTOR_DIM \<and> u16_at rec 56 = 1 \<and>
          subslice DOC_VECTOR_OFFSET (DOC_VECTOR_OFFSET + DOC_VECTOR_DIM) rec = v)"

lemma length_blank_record [simp]: "length blank_record = DOC_REC_SIZE"
  by (simp add: blank_record_def DOC_REC_SIZE_def)

lemma slice_replicate: "b \<le> n \<Longrightarrow> subslice a b (replicate n x) = replicate (b - a) x"
  by (simp add: subslice_def min_def)

text \<open>Writing fields one after the other, in the order of their offsets.\<close>

definition put_all :: "(nat \<times> bytes) list \<Rightarrow> bytes \<Rightarrow> bytes" where
  "put_all fs rec = fold (\<lambda>(off, bs). put off bs) fs rec"

definition fields_ok :: "nat \<Rightarrow> (nat \<times> bytes) list \<Rightarrow> bool" where
  "fields_ok n fs \<longleftrightarrow> sorted_wrt (\<lambda>f g. fst f + length (snd f) \<le> fst g) fs \<and> (\<forall>f \<in> set fs. fst f + length (snd f) \<le> n)"

lemma put_all_outside:
  assumes "fields_ok (length rec) fs" and "\<forall>f \<in> set fs. b \<le> fst f \<or> fst f + length (snd f) \<le> a"
  shows "length (put_all fs rec) = length rec \<and> subslice a b (put_all fs rec) = subslice a b rec"
  using assms
proof (induction fs arbitrary: rec)
  case (Cons f fs)
  let ?rec = "put (fst f) (snd f) rec"
  have l: "length ?rec = length rec" using Cons.prems(1) by (simp add: fields_ok_def)
  have "length (put_all fs ?rec) = length ?rec \<and> subslice a b (put_all fs ?rec) = subslice a b ?rec"
    using Cons.IH [of ?rec] Cons.prems l by (auto simp: fields_ok_def)
  moreover have "subslice a b ?rec = subslice a b rec"
    using Cons.prems by (auto simp: fields_ok_def slice_put_before slice_put_after)
  moreover have "put_all (f # fs) rec = put_all fs ?rec" by (simp add: put_all_def case_prod_beta)
  ultimately show ?case using l by simp
qed (simp add: put_all_def)

lemma put_all_field:
  assumes "fields_ok (length rec) fs" and "(off, bs) \<in> set fs"
  shows "subslice off (off + length bs) (put_all fs rec) = bs"
  using assms
proof (induction fs arbitrary: rec)
  case (Cons f fs)
  let ?rec = "put (fst f) (snd f) rec"
  have l: "length ?rec = length rec" using Cons.prems(1) by (simp add: fields_ok_def)
  have ok: "fields_ok (length ?rec) fs" using Cons.prems(1) l by (simp add: fields_ok_def)
  have step: "put_all (f # fs) rec = put_all fs ?rec" by (simp add: put_all_def case_prod_beta)
  show ?case
  proof (cases "(off, bs) \<in> set fs")
    case True
    then show ?thesis using Cons.IH [OF ok] step by simp
  next
    case False
    then have f: "f = (off, bs)" using Cons.prems(2) by simp
    have "\<forall>g \<in> set fs. off + length bs \<le> fst g" using Cons.prems(1) f by (auto simp: fields_ok_def)
    with put_all_outside [OF ok] have "subslice off (off + length bs) (put_all fs ?rec) = subslice off (off + length bs) ?rec" by blast
    moreover have "off + length bs \<le> length rec" using Cons.prems(1) f by (simp add: fields_ok_def)
    ultimately show ?thesis using slice_put_same [of off bs rec] f step by simp
  qed
qed simp

definition stats_list :: "doc_scores \<Rightarrow> u64 \<Rightarrow> DocStats \<Rightarrow> (nat \<times> bytes) list" where
  "stats_list sc d st = [(0, u32_to_le (ucast d)), (4, u16_to_le (sc_static_rank sc)), (6, u16_to_le (sc_quality sc)),
     (14, u16_to_le (sc_authority sc)), (16, u16_to_le (sc_spam sc)), (26, u32_to_le (title_len st)),
     (30, u32_to_le (body_len st)), (34, u32_to_le (url_len st)), (38, u32_to_le (anchor_len st)),
     (42, u32_to_le (meta_len st)), (46, u32_to_le (sc_diversity sc)), (50, u32_to_le (sc_length_quality sc))]"

definition vector_list :: "bytes \<Rightarrow> (nat \<times> bytes) list" where
  "vector_list v = [(54, u16_to_le (word_of_nat DOC_VECTOR_DIM)), (56, u16_to_le 1), (DOC_VECTOR_OFFSET, take DOC_VECTOR_DIM v)]"

lemma encode_stats_list:
  "encode_stats sc store d st rec =
     put_all (stats_list sc d st @ (case GetDocVector store d of None \<Rightarrow> [] | Some v \<Rightarrow> vector_list v)) rec"
  by (cases "GetDocVector store d") (simp_all add: encode_stats_def put_all_def stats_list_def vector_list_def Let_def)

lemma encode_stats_fields:
  assumes "\<forall>v. GetDocVector store d = Some v \<longrightarrow> length v = DOC_VECTOR_DIM"
  shows "stats_fields sc store d st (encode_stats sc store d st blank_record)"
proof -
  let ?v = "case GetDocVector store d of None \<Rightarrow> [] | Some v \<Rightarrow> vector_list v"
  let ?fs = "stats_list sc d st @ ?v" and ?r = "encode_stats sc store d st blank_record"
  have ok: "fields_ok (length blank_record) ?fs"
    by (cases "GetDocVector store d")
      (simp_all add: fields_ok_def stats_list_def vector_list_def DOC_REC_SIZE_def DOC_VECTOR_OFFSET_def DOC_VECTOR_DIM_def)
  have r: "?r = put_all ?fs blank_record" by (rule encode_stats_list)
  have f4: "u32_at ?r off = w" if "(off, u32_to_le w) \<in> set ?fs" for off w
    using put_all_field [OF ok that] by (simp add: u32_at_def r)
  have f2: "u16_at ?r off = w" if "(off, u16_to_le w) \<in> set ?fs" for off w
    using put_all_field [OF ok that] by (simp add: u16_at_def r)
  have fixed: "u32_at ?r 0 = ucast d" "u16_at ?r 4 = sc_static_rank sc" "u32_at ?r 26 = title_len st"
    "u32_at ?r 30 = body_len st" "u32_at ?r 34 = url_len st" "u32_at ?r 38 = anchor_len st" "u32_at ?r 42 = meta_len st"
    by (rule f4 f2; simp add: stats_list_def)+
  show ?thesis
  proof (cases "GetDocVector store d")
    case None
    have "subslice 54 56 ?r = subslice 54 56 blank_record"
      using put_all_outside [OF ok, of 56 54] None by (simp add: r stats_list_def)
    also have "\<dots> = [0, 0]"
      by (simp add: blank_record_def slice_put_after slice_replicate DOC_REC_SIZE_def numeral_2_eq_2)
    finally have "u16_at ?r 54 = 0" by (simp add: u16_at_def u16_from_le_def)
    then show ?thesis using fixed None by (simp add: stats_fields_def)
  next
    case (Some v)
    have "u16_at ?r 54 = word_of_nat DOC_VECTOR_DIM" "u16_at ?r 56 = 1" by (rule f2; simp add: Some vector_list_def)+
    moreover have "subslice DOC_VECTOR_OFFSET (DOC_VECTOR_OFFSET + DOC_VECTOR_DIM) ?r = v"
      using put_all_field [OF ok, of DOC_VECTOR_OFFSET v] assms Some by (simp add: r vector_list_def)
    ultimately show ?thesis using fixed Some by (simp add: stats_fields_def DOC_VECTOR_DIM_def)
  qed
qed

lemma encode_record_fields:
  assumes vec: "\<forall>v. GetDocVector store d = Some v \<longrightarrow> length v = DOC_VECTOR_DIM"
    and e: "encode_record scores store (d, st) blank_record pt = (rec, pt')"
  shows "length rec = DOC_REC_SIZE" and "stats_fields (scores st) store d st rec"
proof -
  let ?r = "encode_stats (scores st) store d st blank_record"
  have l: "length ?r = DOC_REC_SIZE" by simp
  have e': "encode_doc_path ?r (path st) pt = (rec, pt')" using e by (simp add: encode_record_def)
  show "length rec = DOC_REC_SIZE" using encode_doc_path_record(1) [OF l e'] .
  have keep: "subslice a b rec = subslice a b ?r" if "b \<le> 18 \<or> (20 \<le> a \<and> b \<le> 192)" for a b
    using encode_doc_path_record(4) [OF l e', of b a] that by (simp add: DOC_PATH_OFFSET_def)
  have "u32_at rec a = u32_at ?r a" if "a + 4 \<le> 18 \<or> (20 \<le> a \<and> a + 4 \<le> 192)" for a
    using keep that by (simp add: u32_at_def)
  moreover have "u16_at rec a = u16_at ?r a" if "a + 2 \<le> 18 \<or> (20 \<le> a \<and> a + 2 \<le> 192)" for a
    using keep that by (simp add: u16_at_def)
  moreover have "subslice 64 192 rec = subslice 64 192 ?r" using keep by simp
  ultimately show "stats_fields (scores st) store d st rec"
    using encode_stats_fields [OF vec, of "scores st" st]
    by (simp add: stats_fields_def DOC_VECTOR_OFFSET_def DOC_VECTOR_DIM_def split: option.splits)
qed

lemma record_at_put:
  assumes "length out = n * DOC_REC_SIZE" and "slot < n" and "slot' < n" and "length rec = DOC_REC_SIZE"
  shows "length (put (slot * DOC_REC_SIZE) rec out) = n * DOC_REC_SIZE"
    and "record_at (put (slot * DOC_REC_SIZE) rec out) slot' = (if slot' = slot then rec else record_at out slot')"
proof -
  have fit: "i * DOC_REC_SIZE + DOC_REC_SIZE \<le> j * DOC_REC_SIZE" if "i < j" for i j
    using mult_le_mono1 [of "Suc i" j DOC_REC_SIZE] that by simp
  have room: "slot * DOC_REC_SIZE + length rec \<le> length out" using fit [OF assms(2)] assms by simp
  then show "length (put (slot * DOC_REC_SIZE) rec out) = n * DOC_REC_SIZE" using assms(1) by simp
  consider "slot' = slot" | "slot' < slot" | "slot < slot'" by linarith
  then show "record_at (put (slot * DOC_REC_SIZE) rec out) slot' = (if slot' = slot then rec else record_at out slot')"
  proof cases
    case 1
    then show ?thesis using slice_put_same [OF room] assms(4) by (simp add: record_at_def)
  next
    case 2
    then show ?thesis using room fit [OF 2] by (simp add: record_at_def slice_put_before)
  next
    case 3
    then show ?thesis using room fit [OF 3] assms(4) by (simp add: record_at_def slice_put_after)
  qed
qed

lemma record_at_blank: "i < n \<Longrightarrow> record_at (concat (replicate n blank_record)) i = blank_record"
proof (induction n arbitrary: i)
  case (Suc n)
  show ?case
  proof (cases i)
    case 0
    then show ?thesis by (simp add: record_at_def slice_append_left)
  next
    case (Suc j)
    then show ?thesis using Suc.IH [of j] Suc.prems by (simp add: record_at_def slice_append_right add.commute)
  qed
qed simp

subsection \<open>The table after a build\<close>

text \<open>
  \<open>encoded scores store e rec pt\<close>: the record of \<open>e\<close> was made from a blank one with a well-formed table
  of directories that \<open>pt\<close> extends.
\<close>

definition store_dirs :: "PostingStore \<Rightarrow> rstr set" where
  "store_dirs s = {fst (split_path_for_sidecar (path st)) | st. st \<in> snd ` set (m_DocStats s) \<and> path st \<noteq> []}"

definition encoded ::
  "(DocStats \<Rightarrow> doc_scores) \<Rightarrow> PostingStore \<Rightarrow> u64 \<times> DocStats \<Rightarrow> bytes \<Rightarrow> path_table \<Rightarrow> bool" where
  "encoded scores store e rec pt \<longleftrightarrow>
     (\<exists>pt0 pt1 later. path_table_ok pt0 \<and> set (pt_prefixes pt0) \<subseteq> store_dirs store \<and> encode_record scores store e blank_record pt0 = (rec, pt1) \<and>
        pt_prefixes pt = pt_prefixes pt1 @ later)"

lemma encode_record_table:
  assumes "path_table_ok pt" and "length rec = DOC_REC_SIZE" and "encode_record scores store e rec pt = (rec', pt')"
    and "e \<in> set (m_DocStats store)"
  shows "path_table_ok pt' \<and> (\<exists>new. pt_prefixes pt' = pt_prefixes pt @ new \<and> set new \<subseteq> store_dirs store) \<and> length rec' = DOC_REC_SIZE"
proof -
  let ?r = "encode_stats (scores (snd e)) store (fst e) (snd e) rec"
  have l: "length ?r = DOC_REC_SIZE" using assms(2) by simp
  have e: "encode_doc_path ?r (path (snd e)) pt = (rec', pt')" using assms(3) by (simp add: encode_record_def)
  show ?thesis
  proof (cases "path (snd e) = []")
    case True
    then show ?thesis using encode_doc_path_record(1,2) [OF l e] assms(1) by simp
  next
    case False
    obtain dir name where split: "split_path_for_sidecar (path (snd e)) = (dir, name)" by force
    from encode_doc_path_record(3) [OF l e False split] obtain i where "intern_path_prefix dir pt = (i, pt')" by blast
    from intern_path_prefix_ok(1,2) [OF assms(1) this] obtain new where
      new: "path_table_ok pt'" "pt_prefixes pt' = pt_prefixes pt @ new" "set new \<subseteq> {dir}" by blast
    have "snd e \<in> snd ` set (m_DocStats store)" using assms(4) by simp
    with False have "fst (split_path_for_sidecar (path (snd e))) \<in> store_dirs store" unfolding store_dirs_def by blast
    then have "dir \<in> store_dirs store" using split by simp
    with new encode_doc_path_record(1) [OF l e] show ?thesis by blast
  qed
qed

lemma encode_into_fold:
  assumes "set es \<subseteq> set (m_DocStats store)" and "set (pt_prefixes pt) \<subseteq> store_dirs store"
    and "distinct (map fst es)" and "\<forall>e \<in> set es. StoreFirstDocId store \<le> fst e \<and> unat (fst e - StoreFirstDocId store) < n"
    and "length out = n * DOC_REC_SIZE" and "path_table_ok pt"
    and "\<forall>e \<in> set es. record_at out (unat (fst e - StoreFirstDocId store)) = blank_record"
    and "fold (encode_into scores store) es (out, pt) = (out', pt')"
  shows "length out' = n * DOC_REC_SIZE \<and> path_table_ok pt' \<and> (\<exists>new. pt_prefixes pt' = pt_prefixes pt @ new) \<and>
    (\<forall>e \<in> set es. encoded scores store e (record_at out' (unat (fst e - StoreFirstDocId store))) pt') \<and>
    (\<forall>i < n. i \<notin> (\<lambda>e. unat (fst e - StoreFirstDocId store)) ` set es \<longrightarrow> record_at out' i = record_at out i)"
  using assms
proof (induction es arbitrary: out pt)
  case Nil
  then show ?case by simp
next
  case (Cons e es)
  let ?slot = "\<lambda>d. unat (d - StoreFirstDocId store)"
  obtain rec pt1 where enc: "encode_record scores store e blank_record pt = (rec, pt1)" by force
  from encode_record_table [OF Cons.prems(6) length_blank_record enc] Cons.prems(1,2)
  have ok1: "path_table_ok pt1" "length rec = DOC_REC_SIZE" and ext: "\<exists>new. pt_prefixes pt1 = pt_prefixes pt @ new"
    and dirs: "set es \<subseteq> set (m_DocStats store)" "set (pt_prefixes pt1) \<subseteq> store_dirs store" by auto
  let ?out = "put (?slot (fst e) * DOC_REC_SIZE) rec out"
  have slot: "?slot (fst e) < n" using Cons.prems(4) by simp
  note rp = record_at_put [OF Cons.prems(5) slot _ ok1(2)]
  have inj: "?slot (fst x) \<noteq> ?slot (fst e)" if "x \<in> set es" for x
  proof
    assume "?slot (fst x) = ?slot (fst e)"
    then have "fst x - StoreFirstDocId store = fst e - StoreFirstDocId store" by (simp add: word_unat_eq_iff)
    then have "fst x = fst e" by simp
    then show False using Cons.prems(3) that by (metis distinct.simps(2) image_eqI list.set_map list.simps(9))
  qed
  have "encode_into scores store e (out, pt) = (?out, pt1)" using Cons.prems(7) enc by (simp add: encode_into_def Let_def)
  then have rest: "fold (encode_into scores store) es (?out, pt1) = (out', pt')" using Cons.prems(8) by simp
  have blank: "\<forall>x \<in> set es. record_at ?out (?slot (fst x)) = blank_record"
    using Cons.prems(4,7) rp(2) inj by auto
  from Cons.IH [OF dirs _ _ rp(1) ok1(1) blank rest] Cons.prems(3,4) slot
  have ih: "length out' = n * DOC_REC_SIZE" "path_table_ok pt'" "\<exists>new. pt_prefixes pt' = pt_prefixes pt1 @ new"
    "\<forall>x \<in> set es. encoded scores store x (record_at out' (?slot (fst x))) pt'"
    "\<forall>i < n. i \<notin> (\<lambda>x. ?slot (fst x)) ` set es \<longrightarrow> record_at out' i = record_at ?out i" by auto
  have "record_at out' (?slot (fst e)) = rec" using ih(5) slot rp(2) [OF slot] inj by force
  then have "encoded scores store e (record_at out' (?slot (fst e))) pt'"
    unfolding encoded_def using Cons.prems(2,6) enc ih(3) by blast
  moreover have "\<forall>i < n. i \<notin> (\<lambda>x. ?slot (fst x)) ` set (e # es) \<longrightarrow> record_at out' i = record_at out i"
    using ih(5) rp(2) by auto
  moreover have "\<exists>new. pt_prefixes pt' = pt_prefixes pt @ new" using ext ih(3) by (metis append_assoc)
  ultimately show ?case using ih by simp
qed

definition docdata_store_ok :: "PostingStore \<Rightarrow> bool" where
  "docdata_store_ok s \<longleftrightarrow> distinct (map fst (m_DocStats s)) \<and> (\<forall>d \<in> fst ` set (m_DocStats s). unat d < 2 ^ 32) \<and>
     (\<forall>d v. GetDocVector s d = Some v \<longrightarrow> length v = DOC_VECTOR_DIM)"

text \<open>The document table a build makes, as the context keeps it.\<close>

definition built_doc_table :: "(DocStats \<Rightarrow> doc_scores) \<Rightarrow> PostingStore \<Rightarrow> doc_table" where
  "built_doc_table scores s =
     \<lparr>dt_DocData = fst (EncodeDocData scores s), dt_NumDocuments = StoreDocDataRecordCount s,
      dt_PathPrefixes = snd (snd (EncodeDocData scores s))\<rparr>"

lemma StoreFirstDocId_mem: "m_DocStats s \<noteq> [] \<Longrightarrow> StoreFirstDocId s \<in> fst ` set (m_DocStats s)"
  using fold_min_mem [of "tl (map fst (m_DocStats s))" "hd (map fst (m_DocStats s))"]
  by (cases "m_DocStats s") (auto simp: StoreFirstDocId_def)

lemma record_count_pos:
  assumes "docdata_store_ok s" and "m_DocStats s \<noteq> []"
  shows "StoreDocDataRecordCount s \<noteq> 0"
proof -
  obtain d ds where ids: "map fst (m_DocStats s) = d # ds" using assms(2) by (cases "m_DocStats s") auto
  let ?lo = "fold min ds d" and ?hi = "fold max ds d"
  have mem: "?hi \<in> fst ` set (m_DocStats s)" using fold_max_mem [of ds d] ids by (metis list.set_map)
  then have "unat ?hi < 2 ^ 32" using assms(1) by (auto simp: docdata_store_ok_def)
  moreover have "?lo \<le> ?hi" using fold_min_lower [where d = d and ds = ds] fold_max_upper [of d ds] by auto
  ultimately have "unat (?hi - ?lo) < 2 ^ 32" by (simp add: unat_sub)
  then have "unat (?hi - ?lo + 1) \<noteq> 0" by (simp add: unat_word_ariths)
  then show ?thesis using ids by (auto simp: StoreDocDataRecordCount_def)
qed

lemma record_slot:
  assumes "docdata_store_ok s" and "d \<in> fst ` set (m_DocStats s)"
  shows "StoreFirstDocId s \<le> d" and "unat (d - StoreFirstDocId s) < unat (StoreDocDataRecordCount s)"
proof -
  have "m_DocStats s \<noteq> []" using assms(2) by auto
  with assms show "StoreFirstDocId s \<le> d" "unat (d - StoreFirstDocId s) < unat (StoreDocDataRecordCount s)"
    using StoreFirstDocId_least record_in_range_slot record_count_pos by blast+
qed

lemma EncodeDocData_records:
  assumes ok: "docdata_store_ok s" and enc: "EncodeDocData scores s = (out, sidecar, ps)"
  obtains pt where "ps = pt_prefixes pt" "path_table_ok pt" "sidecar = EncodePathPrefixSidecar ps"
    "length out = unat (StoreDocDataRecordCount s) * DOC_REC_SIZE"
    "\<And>e. e \<in> set (m_DocStats s) \<Longrightarrow> encoded scores s e (record_at out (unat (fst e - StoreFirstDocId s))) pt"
    "\<And>i. i < unat (StoreDocDataRecordCount s) \<Longrightarrow> StoreFirstDocId s + word_of_nat i \<notin> fst ` set (m_DocStats s) \<Longrightarrow>
      record_at out i = blank_record"
proof -
  let ?n = "unat (StoreDocDataRecordCount s)" and ?slot = "\<lambda>e. unat (fst e - StoreFirstDocId s)"
  let ?out = "concat (replicate ?n blank_record)"
  obtain pt where f: "fold (encode_into scores s) (m_DocStats s) (?out, path_table_new) = (out, pt)"
    and parts: "ps = pt_prefixes pt" "sidecar = EncodePathPrefixSidecar ps"
    using enc by (auto simp: EncodeDocData_def Let_def split: prod.splits)
  have len: "length ?out = ?n * DOC_REC_SIZE" by (simp add: length_concat sum_list_replicate)
  have slots: "\<forall>e \<in> set (m_DocStats s). StoreFirstDocId s \<le> fst e \<and> ?slot e < ?n" using record_slot [OF ok] by auto
  then have blank: "\<forall>e \<in> set (m_DocStats s). record_at ?out (?slot e) = blank_record" using record_at_blank by blast
  have "distinct (map fst (m_DocStats s))" using ok by (simp add: docdata_store_ok_def)
  from encode_into_fold [OF subset_refl _ this slots len path_table_new_ok blank f]
  have r: "length out = ?n * DOC_REC_SIZE" "path_table_ok pt"
    "\<forall>e \<in> set (m_DocStats s). encoded scores s e (record_at out (?slot e)) pt"
    "\<forall>i < ?n. i \<notin> ?slot ` set (m_DocStats s) \<longrightarrow> record_at out i = record_at ?out i" by (auto simp: path_table_new_def)
  have "record_at out i = blank_record" if i: "i < ?n" "StoreFirstDocId s + word_of_nat i \<notin> fst ` set (m_DocStats s)" for i
  proof -
    have "i \<notin> ?slot ` set (m_DocStats s)"
    proof
      assume "i \<in> ?slot ` set (m_DocStats s)"
      then obtain e where e: "e \<in> set (m_DocStats s)" "i = ?slot e" by blast
      then have "fst e = StoreFirstDocId s + word_of_nat i" by simp
      then show False using i(2) e(1) by (metis image_eqI)
    qed
    then show ?thesis using r(4) i(1) record_at_blank [OF i(1)] by simp
  qed
  with r parts that show ?thesis by blast
qed

lemma encoded_fields:
  assumes "docdata_store_ok s" and "encoded scores s (d, st) rec pt"
  shows "length rec = DOC_REC_SIZE" and "stats_fields (scores st) s d st rec"
proof -
  obtain pt0 pt1 where e: "encode_record scores s (d, st) blank_record pt0 = (rec, pt1)" using assms(2) by (auto simp: encoded_def)
  have "\<forall>v. GetDocVector s d = Some v \<longrightarrow> length v = DOC_VECTOR_DIM" using assms(1) by (auto simp: docdata_store_ok_def)
  from encode_record_fields [OF this e] show "length rec = DOC_REC_SIZE" "stats_fields (scores st) s d st rec" by auto
qed

lemma u32_roundtrip_id: "unat (d :: u64) < 2 ^ 32 \<Longrightarrow> ucast (ucast d :: u32) = d"
  by (simp add: word_unat_eq_iff unat_up unat_down)

lemma built_first_doc:
  assumes ok: "docdata_store_ok s" and ne: "m_DocStats s \<noteq> []"
  shows "DocDataFirstDocId (dt_DocData (built_doc_table scores s)) (StoreDocDataRecordCount s) = StoreFirstDocId s"
proof -
  obtain out sidecar ps where enc: "EncodeDocData scores s = (out, sidecar, ps)" by (metis surj_pair)
  from ok enc obtain pt where r: "length out = unat (StoreDocDataRecordCount s) * DOC_REC_SIZE"
    "\<And>e. e \<in> set (m_DocStats s) \<Longrightarrow> encoded scores s e (record_at out (unat (fst e - StoreFirstDocId s))) pt"
    by (rule EncodeDocData_records) blast
  from StoreFirstDocId_mem [OF ne] obtain st where e: "(StoreFirstDocId s, st) \<in> set (m_DocStats s)" by auto
  from encoded_fields(2) [OF ok r(2) [OF e, simplified]] have "u32_at (record_at out 0) 0 = ucast (StoreFirstDocId s)"
    by (simp add: stats_fields_def)
  moreover have "u32_at (record_at out 0) 0 = u32_at out 0"
    by (simp add: u32_at_def record_at_def slice_slice DOC_REC_SIZE_def)
  moreover have pos: "0 < unat (StoreDocDataRecordCount s)" using record_count_pos [OF ok ne] by (simp add: unat_gt_0)
  moreover have "unat (StoreFirstDocId s) < 2 ^ 32" using ok e by (force simp: docdata_store_ok_def)
  moreover have "DOC_REC_SIZE \<le> length out" using r(1) pos by simp
  ultimately show ?thesis
    using record_count_pos [OF ok ne]
    by (simp add: DocDataFirstDocId_def built_doc_table_def enc u32_roundtrip_id word_gt_0)
qed

lemma find_record_built:
  assumes ok: "docdata_store_ok s"
  shows "(d, st) \<in> set (m_DocStats s) \<Longrightarrow>
      \<exists>rec pt. find_record (built_doc_table scores s) d = Some rec \<and> encoded scores s (d, st) rec pt \<and>
        dt_PathPrefixes (built_doc_table scores s) = pt_prefixes pt \<and> path_table_ok pt"
    and "d \<notin> fst ` set (m_DocStats s) \<Longrightarrow> find_record (built_doc_table scores s) d = None"
proof -
  let ?t = "built_doc_table scores s" and ?n = "unat (StoreDocDataRecordCount s)"
  obtain out sidecar ps where enc: "EncodeDocData scores s = (out, sidecar, ps)" by (metis surj_pair)
  from ok enc obtain pt where r: "ps = pt_prefixes pt" "path_table_ok pt" "length out = ?n * DOC_REC_SIZE"
    "\<And>e. e \<in> set (m_DocStats s) \<Longrightarrow> encoded scores s e (record_at out (unat (fst e - StoreFirstDocId s))) pt"
    "\<And>i. i < ?n \<Longrightarrow> StoreFirstDocId s + word_of_nat i \<notin> fst ` set (m_DocStats s) \<Longrightarrow> record_at out i = blank_record"
    by (rule EncodeDocData_records) blast
  have t: "dt_DocData ?t = out" "dt_NumDocuments ?t = StoreDocDataRecordCount s" "dt_PathPrefixes ?t = ps"
    by (simp_all add: built_doc_table_def enc)
  show "\<exists>rec pt. find_record ?t d = Some rec \<and> encoded scores s (d, st) rec pt \<and> dt_PathPrefixes ?t = pt_prefixes pt \<and> path_table_ok pt"
    if e: "(d, st) \<in> set (m_DocStats s)"
  proof -
    have mem: "d \<in> fst ` set (m_DocStats s)" using e by force
    then have first: "DocDataFirstDocId out (StoreDocDataRecordCount s) = StoreFirstDocId s"
      using built_first_doc [OF ok, of scores] t(1) by fastforce
    let ?rec = "record_at out (unat (d - StoreFirstDocId s))"
    have enc': "encoded scores s (d, st) ?rec pt" using r(4) [OF e] by simp
    have "unat d < 2 ^ 32" using ok mem by (auto simp: docdata_store_ok_def)
    then have "ucast (u32_at ?rec 0) = d"
      using encoded_fields(2) [OF ok enc'] by (simp add: stats_fields_def u32_roundtrip_id)
    moreover have "(unat (d - StoreFirstDocId s) + 1) * DOC_REC_SIZE \<le> length out"
      using record_slot(2) [OF ok mem] r(3) by (simp add: DOC_REC_SIZE_def)
    ultimately have "find_record ?t d = Some ?rec"
      using record_slot(1) [OF ok mem] by (simp add: find_record_def t first Let_def)
    then show ?thesis using enc' t(3) r(1,2) by blast
  qed
  show "find_record ?t d = None" if d: "d \<notin> fst ` set (m_DocStats s)"
  proof (cases "m_DocStats s = []")
    case True
    then have "out = []" using r(3) by (simp add: StoreDocDataRecordCount_def)
    then show ?thesis by (simp add: find_record_def t Let_def DOC_REC_SIZE_def)
  next
    case False
    have first: "DocDataFirstDocId out (StoreDocDataRecordCount s) = StoreFirstDocId s"
      using built_first_doc [OF ok False, of scores] t(1) by simp
    let ?i = "unat (d - StoreFirstDocId s)"
    have False if found: "find_record ?t d \<noteq> None"
    proof -
      from found have i: "?i < ?n" and id: "ucast (u32_at (record_at out ?i) 0) = d" and le: "StoreFirstDocId s \<le> d"
        using r(3) by (auto simp: find_record_def t first Let_def DOC_REC_SIZE_def split: if_splits)
      have "StoreFirstDocId s + word_of_nat ?i = d" by simp
      with r(5) [OF i] d have "record_at out ?i = blank_record" by simp
      then have dmax: "d = 0xFFFFFFFF" using id
        by (simp add: u32_at_def blank_record_def slice_put_inside MAX32_def DOC_REC_SIZE_def)
      obtain a as where ids: "map fst (m_DocStats s) = a # as" using False by (cases "m_DocStats s") auto
      let ?lo = "fold min as a" and ?hi = "fold max as a"
      have hi: "?hi \<in> fst ` set (m_DocStats s)" using fold_max_mem [of as a] ids by (metis list.set_map)
      have lohi: "?lo \<le> ?hi" using fold_min_lower [where d = a and ds = as] fold_max_upper [of a as] by auto
      have "unat ?hi < 2 ^ 32" using ok hi by (auto simp: docdata_store_ok_def)
      moreover have "unat d \<noteq> unat ?hi" using hi d by (auto simp: word_unat_eq_iff [symmetric])
      ultimately have below: "unat ?hi < unat d" using dmax by simp
      have "?n = unat ?hi - unat ?lo + 1"
        using lohi \<open>unat ?hi < 2 ^ 32\<close> ids by (simp add: StoreDocDataRecordCount_def unat_word_ariths unat_sub)
      moreover have "?i = unat d - unat ?lo" using le ids by (simp add: unat_sub StoreFirstDocId_def)
      ultimately show False using i below lohi by (simp add: word_le_nat_alt)
    qed
    then show ?thesis by blast
  qed
qed

lemma id_value: "unat d < 2 ^ 32 \<Longrightarrow> ReaderDocumentIDValue d = d"
proof -
  assume d: "unat d < 2 ^ 32"
  have "READER_DOCID_VALUE_MASK = mask 59"
    by (simp add: READER_DOCID_VALUE_MASK_def READER_DOCID_SOURCE_SHIFT_def mask_eq_exp_minus_1 push_bit_eq_mult)
  then have "ReaderDocumentIDValue d = take_bit 59 d" by (simp add: ReaderDocumentIDValue_def take_bit_eq_mask)
  moreover have "take_bit 59 (unat d) = unat d" using d by (intro take_bit_nat_eq_self) simp
  ultimately show ?thesis by (simp add: word_unat_eq_iff unsigned_take_bit_eq)
qed

text \<open>
  C30. The document table answers for the documents of the store and for no others: for a stored
  document \<open>GetDocDataEntry\<close> finds a record with its id, stream lengths and vector, and for any
  other 32-bit id it finds none, so the delta context is asked.
\<close>

theorem GetDocDataEntry_built:
  assumes ok: "docdata_store_ok s" and d: "unat d < 2 ^ 32"
  shows "case map_of (m_DocStats s) d of
      Some st \<Rightarrow> \<exists>rec. GetDocDataEntry (built_doc_table scores s # delta) d = Some rec \<and> stats_fields (scores st) s d st rec
    | None \<Rightarrow> GetDocDataEntry (built_doc_table scores s # delta) d = GetDocDataEntry delta d"
proof (cases "map_of (m_DocStats s) d")
  case None
  then have "d \<notin> fst ` set (m_DocStats s)" by (simp add: map_of_eq_None_iff)
  then show ?thesis using None find_record_built(2) [OF ok, of d] by (simp add: GetDocDataEntry_def id_value [OF d])
next
  case (Some st)
  then have "(d, st) \<in> set (m_DocStats s)" by (rule map_of_SomeD)
  from find_record_built(1) [OF ok this, of scores] obtain rec pt where
    "find_record (built_doc_table scores s) d = Some rec" "encoded scores s (d, st) rec pt" by blast
  then show ?thesis using Some encoded_fields(2) [OF ok] by (simp add: GetDocDataEntry_def id_value [OF d])
qed

lemma encoded_path:
  assumes "encoded scores s (d, st) rec pt" and "(d, st) \<in> set (m_DocStats s)" and "path st \<noteq> []" and "plain_path (path st)"
    and "card (store_dirs s) \<le> 65535" and "path_prefix_sidecar_can_hold (card (store_dirs s)) (sum length (store_dirs s))"
  shows "DecodeDocPath (path_field rec) (pt_prefixes pt) = path st" and "2 \<le> unat (u16_at rec 18) \<and> unat (u16_at rec 18) \<le> DOC_PATH_MAX"
proof -
  obtain pt0 pt1 later where e: "path_table_ok pt0" "set (pt_prefixes pt0) \<subseteq> store_dirs s"
    "encode_record scores s (d, st) blank_record pt0 = (rec, pt1)" "pt_prefixes pt = pt_prefixes pt1 @ later"
    using assms(1) by (auto simp: encoded_def)
  let ?r = "encode_stats (scores st) s d st blank_record"
  have l: "length ?r = DOC_REC_SIZE" by simp
  have enc: "encode_doc_path ?r (path st) pt0 = (rec, pt1)" using e(3) by (simp add: encode_record_def)
  obtain dir name where split: "split_path_for_sidecar (path st) = (dir, name)" by force
  have fin: "finite (store_dirs s)"
    by (rule finite_subset [of _ "(\<lambda>e. fst (split_path_for_sidecar (path (snd e)))) ` set (m_DocStats s)"])
      (auto simp: store_dirs_def)
  have "st \<in> snd ` set (m_DocStats s)" using assms(2) by force
  with assms(3) have "fst (split_path_for_sidecar (path st)) \<in> store_dirs s" unfolding store_dirs_def by blast
  then have "dir \<in> store_dirs s" using split by simp
  from encode_doc_path_record(3) [OF l enc assms(3) split] obtain i where
    i: "intern_path_prefix dir pt0 = (i, pt1)" "unat (u16_at rec 18) = 2 + min (length name) 62"
      "path_field rec = u16_to_le i @ take 62 name" by blast
  from intern_path_prefix_room [OF e(1,2) \<open>dir \<in> store_dirs s\<close> fin assms(5,6)] i(1)
  have "i \<noteq> DOC_PATH_PREFIX_INVALID" by simp
  with intern_path_prefix_ok(3) [OF e(1) i(1)]
  have "unat i < length (pt_prefixes pt1)" "pt_prefixes pt1 ! unat i = dir" "i \<noteq> DOC_PATH_PREFIX_INVALID" by auto
  moreover have "take 62 name = name" "utf8_or_empty name = name" "glue_path dir name = path st"
    using assms(4) split by (auto simp: plain_path_def path_consts utf8_or_empty_def from_utf8_def)
  ultimately show "DecodeDocPath (path_field rec) (pt_prefixes pt) = path st"
    by (simp add: i(3) e(4) DecodeDocPath_field nth_append)
  show "2 \<le> unat (u16_at rec 18) \<and> unat (u16_at rec 18) \<le> DOC_PATH_MAX" by (simp add: i(2) DOC_PATH_MAX_def)
qed

text \<open>
  \<open>GetDocPath\<close> of a freshly built context returns the path of every document of the store with a
  plain path, as long as the directories of the store fit the side table.
\<close>

theorem GetDocPath_built:
  assumes ok: "docdata_store_ok s" and st: "map_of (m_DocStats s) d = Some st" and plain: "path st \<noteq> [] \<longrightarrow> plain_path (path st)"
    and room: "card (store_dirs s) \<le> 65535" "path_prefix_sidecar_can_hold (card (store_dirs s)) (sum length (store_dirs s))"
  shows "ctx_GetDocPath [built_doc_table scores s] d = path st"
proof -
  have mem: "(d, st) \<in> set (m_DocStats s)" using st by (rule map_of_SomeD)
  then have "unat d < 2 ^ 32" using ok by (force simp: docdata_store_ok_def)
  note id = id_value [OF this]
  from find_record_built(1) [OF ok mem, of scores] obtain rec pt where
    r: "find_record (built_doc_table scores s) d = Some rec" "encoded scores s (d, st) rec pt"
      "dt_PathPrefixes (built_doc_table scores s) = pt_prefixes pt" by blast
  show ?thesis
  proof (cases "path st = []")
    case True
    obtain pt0 pt1 where enc: "encode_doc_path (encode_stats (scores st) s d st blank_record) (path st) pt0 = (rec, pt1)"
      using r(2) by (auto simp: encoded_def encode_record_def)
    have "u16_at rec 18 = 0" using encode_doc_path_record(2) [OF _ enc True] by simp
    then show ?thesis using r True by (simp add: ctx_GetDocPath_def id)
  next
    case False
    then have "plain_path (path st)" using plain by blast
    from encoded_path [OF r(2) mem False this room] r(1,3) show ?thesis by (simp add: ctx_GetDocPath_def id)
  qed
qed

subsection \<open>Loading the document table\<close>

text \<open>
  What a document has after a load: the stream lengths, their sum as its length and as its number of
  distinct terms, the quantised importance; the path stays in the document table.
\<close>

definition loaded_stats :: "(u16 \<Rightarrow> f32_bits) \<Rightarrow> doc_scores \<Rightarrow> DocStats \<Rightarrow> DocStats" where
  "loaded_stats decode sc st =
     (let len = title_len st + body_len st + url_len st + anchor_len st + meta_len st
      in \<lparr>doc_len = len, unique_terms = len, title_len = title_len st, body_len = body_len st, url_len = url_len st,
          anchor_len = anchor_len st, meta_len = meta_len st, importance = decode (sc_static_rank sc), path = []\<rparr>)"

lemma DecodeDocDataRecord_fields:
  assumes "stats_fields sc store d st rec" and "unat d < 2 ^ 32" and "length rec = DOC_REC_SIZE"
    and "map_of (m_DocStats s) d = None" and "map_of (m_DocVectors s) d = None"
    and s': "s' = DecodeDocDataRecord decode d rec s"
  shows "map_of (m_DocStats s') = (map_of (m_DocStats s))(d \<mapsto> loaded_stats decode sc st)"
    and "map_of (m_DocVectors s') = (map_of (m_DocVectors s))(d := GetDocVector store d)"
proof -
  have f: "ucast (u32_at rec 0) = d" "u16_at rec 4 = sc_static_rank sc" "u32_at rec 26 = title_len st"
    "u32_at rec 30 = body_len st" "u32_at rec 34 = url_len st" "u32_at rec 38 = anchor_len st" "u32_at rec 42 = meta_len st"
    using assms(1,2) by (auto simp: stats_fields_def u32_roundtrip_id)
  have e: "entry_or DocStats_default (m_DocStats s) d = DocStats_default" using assms(4) by (simp add: entry_or_def)
  define s1 where "s1 = SetDocImportance d (decode (sc_static_rank sc))
    (SetDocLengths d (title_len st) (body_len st) (url_len st) (anchor_len st) (meta_len st) s)"
  have s1: "map_of (m_DocStats s1) = (map_of (m_DocStats s))(d \<mapsto> loaded_stats decode sc st)" "m_DocVectors s1 = m_DocVectors s"
    using assms(4)
    by (simp_all add: s1_def SetDocImportance_def SetDocLengths_def upd_stats_def Let_def entry_or_def update_conv'
        loaded_stats_def DocStats_default_def)
  have e1: "entry_or DocStats_default (m_DocStats s1) d = loaded_stats decode sc st" by (simp add: entry_or_def s1)
  have "map_of (m_DocStats s') = (map_of (m_DocStats s))(d \<mapsto> loaded_stats decode sc st) \<and>
    map_of (m_DocVectors s') = (map_of (m_DocVectors s))(d := GetDocVector store d)"
  proof (cases "GetDocVector store d")
    case None
    then have "u16_at rec 54 = 0" using assms(1) by (simp add: stats_fields_def)
    then have "s' = s1" by (simp add: s' DecodeDocDataRecord_def Let_def f s1_def DOC_VECTOR_DIM_def)
    then show ?thesis using s1 None assms(5) by (auto simp: fun_upd_idem_iff)
  next
    case (Some v)
    then have v: "unat (u16_at rec 54) = DOC_VECTOR_DIM" "u16_at rec 56 = 1"
      "subslice DOC_VECTOR_OFFSET (DOC_VECTOR_OFFSET + DOC_VECTOR_DIM) rec = v" using assms(1) by (auto simp: stats_fields_def)
    have "length v = DOC_VECTOR_DIM"
      using v(3) assms(3) by (auto simp: DOC_VECTOR_OFFSET_def DOC_VECTOR_DIM_def DOC_REC_SIZE_def)
    moreover have "s' = snd (SetDocVectorBytes d v s1)"
      using v by (simp add: s' DecodeDocDataRecord_def Let_def f s1_def)
    ultimately show ?thesis
      using s1 Some e1 by (simp add: SetDocVectorBytes_def upd_stats_def update_conv')
  qed
  then show "map_of (m_DocStats s') = (map_of (m_DocStats s))(d \<mapsto> loaded_stats decode sc st)"
    "map_of (m_DocVectors s') = (map_of (m_DocVectors s))(d := GetDocVector store d)" by auto
qed

lemma DecodeDocDataRecord_other:
  "ucast (u32_at rec 0) \<noteq> index \<Longrightarrow> DecodeDocDataRecord decode index rec s = s"
  by (simp add: DecodeDocDataRecord_def Let_def)

lemma record_id_bound:
  assumes ok: "docdata_store_ok s" and k: "k < unat (StoreDocDataRecordCount s)"
  shows "\<exists>hi \<in> fst ` set (m_DocStats s). unat (StoreFirstDocId s + word_of_nat k) \<le> unat hi"
proof -
  have "m_DocStats s \<noteq> []" using k by (auto simp: StoreDocDataRecordCount_def)
  then obtain a as where ids: "map fst (m_DocStats s) = a # as" by (cases "m_DocStats s") auto
  let ?lo = "fold min as a" and ?hi = "fold max as a"
  have hi: "?hi \<in> fst ` set (m_DocStats s)" using fold_max_mem [of as a] ids by (metis list.set_map)
  have lohi: "unat ?lo \<le> unat ?hi"
    using fold_min_lower [where d = a and ds = as] fold_max_upper [of a as] by (auto simp: word_le_nat_alt intro: order_trans)
  have hi32: "unat ?hi < 2 ^ 32" using ok hi by (auto simp: docdata_store_ok_def)
  then have "unat (StoreDocDataRecordCount s) = unat ?hi - unat ?lo + 1"
    using lohi ids by (simp add: StoreDocDataRecordCount_def unat_word_ariths unat_sub word_le_nat_alt)
  then have kb: "unat ?lo + k \<le> unat ?hi" using k lohi by linarith
  have "unat (?lo + word_of_nat k) = unat ?lo + k"
    using kb hi32 by (simp add: unat_word_ariths unat_of_nat)
  then show ?thesis using kb hi ids by (intro bexI [of _ ?hi]) (simp_all add: StoreFirstDocId_def)
qed

lemma decode_fold:
  fixes scores :: "DocStats \<Rightarrow> doc_scores" and decode :: "u16 \<Rightarrow> f32_bits"
  assumes ok: "docdata_store_ok s" and k: "k \<le> unat (StoreDocDataRecordCount s)"
  defines "out \<equiv> dt_DocData (built_doc_table scores s)"
  defines "s' \<equiv> fold (\<lambda>index. DecodeDocDataRecord decode (StoreFirstDocId s + word_of_nat index) (record_at out index)) [0..<k] PostingStore_new"
  shows "\<forall>d. map_of (m_DocStats s') d =
      (if unat (d - StoreFirstDocId s) < k then map_option (\<lambda>st. loaded_stats decode (scores st) st) (map_of (m_DocStats s) d) else None) \<and>
    map_of (m_DocVectors s') d = (if unat (d - StoreFirstDocId s) < k \<and> HasDoc s d then GetDocVector s d else None)"
  using k unfolding s'_def
proof (induction k)
  case 0
  then show ?case by (simp add: PostingStore_new_def)
next
  case (Suc k)
  let ?n = "unat (StoreDocDataRecordCount s)" and ?d = "StoreFirstDocId s + word_of_nat k" and ?rec = "record_at out k"
  let ?step = "\<lambda>index. DecodeDocDataRecord decode (StoreFirstDocId s + word_of_nat index) (record_at out index)"
  let ?s = "fold ?step [0..<k] PostingStore_new"
  have kn: "k < ?n" using Suc.prems by simp
  have "unat (word_of_nat k :: u64) = k"
    using kn unat_bound [of "StoreDocDataRecordCount s"] by (simp add: unat_of_nat)
  then have slot: "unat (?d - StoreFirstDocId s) = k" by simp
  have eqk: "unat (d - StoreFirstDocId s) = k \<longleftrightarrow> d = ?d" for d
    using slot by (metis word_unat_eq_iff diff_add_cancel)
  have split: "unat (d - StoreFirstDocId s) < Suc k \<longleftrightarrow> unat (d - StoreFirstDocId s) < k \<or> d = ?d" for d
    using eqk [of d] by auto
  have ih: "map_of (m_DocStats ?s) d =
      (if unat (d - StoreFirstDocId s) < k then map_option (\<lambda>st. loaded_stats decode (scores st) st) (map_of (m_DocStats s) d) else None)"
    "map_of (m_DocVectors ?s) d = (if unat (d - StoreFirstDocId s) < k \<and> HasDoc s d then GetDocVector s d else None)" for d
    using Suc by simp_all
  have fresh: "map_of (m_DocStats ?s) ?d = None" "map_of (m_DocVectors ?s) ?d = None" using ih [of ?d] slot by auto
  obtain o' sidecar ps where enc: "EncodeDocData scores s = (o', sidecar, ps)" by (metis surj_pair)
  have o': "out = o'" by (simp add: out_def built_doc_table_def enc)
  from ok enc obtain pt where
    r: "\<And>e. e \<in> set (m_DocStats s) \<Longrightarrow> encoded scores s e (record_at out (unat (fst e - StoreFirstDocId s))) pt"
      "\<And>i. i < ?n \<Longrightarrow> StoreFirstDocId s + word_of_nat i \<notin> fst ` set (m_DocStats s) \<Longrightarrow> record_at out i = blank_record"
    unfolding o' by (rule EncodeDocData_records) blast
  have last: "fold ?step [0..<Suc k] PostingStore_new = ?step k ?s" by simp
  show ?case
  proof (cases "map_of (m_DocStats s) ?d")
    case (Some st)
    then have mem: "(?d, st) \<in> set (m_DocStats s)" by (rule map_of_SomeD)
    then have small: "unat ?d < 2 ^ 32" using ok by (force simp: docdata_store_ok_def)
    have enc': "encoded scores s (?d, st) ?rec pt" using r(1) [OF mem] slot by simp
    note fields = encoded_fields [OF ok enc']
    note dec = DecodeDocDataRecord_fields [OF fields(2) small fields(1) fresh refl, of decode]
    have has: "HasDoc s ?d" using Some by (simp add: HasDoc_def)
    show ?thesis
      unfolding last
    proof (intro allI conjI)
      fix d
      show "map_of (m_DocStats (?step k ?s)) d =
        (if unat (d - StoreFirstDocId s) < Suc k then map_option (\<lambda>st. loaded_stats decode (scores st) st) (map_of (m_DocStats s) d) else None)"
        unfolding dec(1) split using ih(1) [of d] Some by auto
      show "map_of (m_DocVectors (?step k ?s)) d = (if unat (d - StoreFirstDocId s) < Suc k \<and> HasDoc s d then GetDocVector s d else None)"
        unfolding dec(2) split using ih(2) [of d] has by auto
    qed
  next
    case None
    then have "?d \<notin> fst ` set (m_DocStats s)" by (simp add: map_of_eq_None_iff)
    then have absent: "?d \<notin> fst ` set (m_DocStats s)" .
    from record_id_bound [OF ok kn] obtain hi where hi: "hi \<in> fst ` set (m_DocStats s)" "unat ?d \<le> unat hi" by blast
    moreover have "unat hi < 2 ^ 32" using ok hi(1) by (auto simp: docdata_store_ok_def)
    moreover have "unat ?d \<noteq> unat hi" using absent hi(1) by (metis word_unat_eq_iff)
    ultimately have "?d \<noteq> 0xFFFFFFFF" by auto
    then have "ucast (u32_at ?rec 0) \<noteq> ?d"
      using r(2) [OF kn absent] by (simp add: u32_at_def blank_record_def slice_put_inside MAX32_def DOC_REC_SIZE_def)
    then have "?step k ?s = ?s" by (rule DecodeDocDataRecord_other)
    then show ?thesis
      unfolding last split using ih None by (auto simp: HasDoc_def)
  qed
qed

text \<open>
  Loading the document table that a build wrote gives back, in an empty store, exactly the
  documents of the store with their stream lengths, their quantised importance and their vectors.
\<close>

theorem docdata_load_roundtrip:
  assumes ok: "docdata_store_ok s"
  shows "\<exists>s'. DecodeDocData decode (StoreDocDataRecordCount s) (fst (EncodeDocData scores s)) PostingStore_new = Inr s' \<and>
    (\<forall>d. map_of (m_DocStats s') d = map_option (\<lambda>st. loaded_stats decode (scores st) st) (map_of (m_DocStats s) d)) \<and>
    (\<forall>d. GetDocVector s' d = (if HasDoc s d then GetDocVector s d else None))"
proof -
  let ?n = "StoreDocDataRecordCount s" and ?out = "dt_DocData (built_doc_table scores s)"
  let ?step = "\<lambda>index. DecodeDocDataRecord decode (StoreFirstDocId s + word_of_nat index) (record_at ?out index)"
  let ?s = "fold ?step [0..<unat ?n] PostingStore_new"
  have out: "fst (EncodeDocData scores s) = ?out" by (simp add: built_doc_table_def)
  obtain o' sidecar ps where enc: "EncodeDocData scores s = (o', sidecar, ps)" by (metis surj_pair)
  from ok enc have "length o' = unat ?n * DOC_REC_SIZE" by (rule EncodeDocData_records)
  then have len: "length ?out = unat ?n * DOC_REC_SIZE" using out enc by simp
  have first: "DocDataFirstDocId ?out ?n = StoreFirstDocId s" if "unat ?n \<noteq> 0"
    using that by (intro built_first_doc [OF ok]) (auto simp: StoreDocDataRecordCount_def)
  have dec: "DecodeDocData decode ?n ?out PostingStore_new = Inr ?s"
  proof (cases "unat ?n = 0")
    case True
    then show ?thesis using len by (simp add: DecodeDocData_def)
  next
    case False
    then show ?thesis using len first by (simp add: DecodeDocData_def)
  qed
  have slot: "unat (d - StoreFirstDocId s) < unat ?n" if "map_of (m_DocStats s) d = Some st" for d st
  proof -
    have "d \<in> fst ` set (m_DocStats s)" using map_of_SomeD [OF that] by force
    then show ?thesis by (rule record_slot(2) [OF ok])
  qed
  note f = decode_fold [OF ok order_refl, where scores = scores and decode = decode]
  have "map_of (m_DocStats ?s) d = map_option (\<lambda>st. loaded_stats decode (scores st) st) (map_of (m_DocStats s) d)" for d
    using f slot [of d] by (cases "map_of (m_DocStats s) d") auto
  moreover have "GetDocVector ?s d = (if HasDoc s d then GetDocVector s d else None)" for d
    using f slot [of d] by (cases "map_of (m_DocStats s) d") (auto simp: HasDoc_def GetDocVector_def)
  ultimately show ?thesis using dec out by auto
qed

subsection \<open>One document\<close>

definition path_demo :: PostingStore where
  "path_demo = SetDocPath 7 (str ''a/b'') (AddDocTokens 7 3 PostingStore_new)"

definition zero_scores :: "DocStats \<Rightarrow> doc_scores" where
  "zero_scores st = \<lparr>sc_static_rank = 0, sc_quality = 0, sc_authority = 0, sc_spam = 0, sc_diversity = 0, sc_length_quality = 0\<rparr>"

lemma path_demo_stats:
  "m_DocStats path_demo = [(7, DocStats_default\<lparr>doc_len := 3, path := str ''a/b''\<rparr>)]" "m_DocVectors path_demo = []"
  by (simp_all add: path_demo_def SetDocPath_def AddDocTokens_def upd_stats_def PostingStore_new_def entry_or_def DocStats_default_def)

lemma path_demo_ok: "docdata_store_ok path_demo"
  by (simp add: docdata_store_ok_def path_demo_stats GetDocVector_def)

theorem GetDocDataEntry_built_witness:
  "\<exists>rec. GetDocDataEntry [built_doc_table zero_scores path_demo] 7 = Some rec \<and> u32_at rec 0 = 7"
  using GetDocDataEntry_built [OF path_demo_ok, of 7 zero_scores "[]"]
  by (auto simp: path_demo_stats stats_fields_def)

theorem GetDocPath_built_witness: "ctx_GetDocPath [built_doc_table zero_scores path_demo] 7 = str ''a/b''"
proof -
  have full: "str ''a/b'' = str ''a'' @ [0x2F] @ str ''b''" by (simp add: str_simps)
  have plain: "plain_path (str ''a'' @ [0x2F] @ str ''b'')" and split: "split_path_for_sidecar (str ''a'' @ [0x2F] @ str ''b'') = (str ''a'', str ''b'')"
    by (rule plain_path_slash; simp add: str_simps is_path_sep_def)+
  have "store_dirs path_demo = {str ''a''}"
    using split by (auto simp: store_dirs_def path_demo_stats full)
  moreover have "map_of (m_DocStats path_demo) 7 = Some (DocStats_default\<lparr>doc_len := 3, path := str ''a/b''\<rparr>)"
    by (simp add: path_demo_stats)
  ultimately show ?thesis
    using GetDocPath_built [OF path_demo_ok, of 7 "DocStats_default\<lparr>doc_len := 3, path := str ''a/b''\<rparr>" zero_scores] plain
    by (simp add: full path_prefix_sidecar_can_hold_def PATH_PREFIX_SIDECAR_BYTES_def PAGE_SIZE_def str_simps)
qed

theorem docdata_load_roundtrip_witness:
  "\<exists>s'. DecodeDocData (\<lambda>_. 0) 1 (fst (EncodeDocData zero_scores path_demo)) PostingStore_new = Inr s' \<and>
     HasDoc s' 7 \<and> \<not> HasDoc s' 8"
proof -
  have "StoreDocDataRecordCount path_demo = 1" by (simp add: StoreDocDataRecordCount_def path_demo_stats)
  then show ?thesis
    using docdata_load_roundtrip [OF path_demo_ok, of "\<lambda>_. 0" zero_scores]
    by (auto simp: path_demo_stats HasDoc_def)
qed

end
