(* ===== verification/QueryRuntime.thy ===== *)
theory QueryRuntime
  imports Readers IndexWriter DocData
begin

text \<open>
  The search runtime (\<open>SearchRuntime\<close> of \<open>IndexAccess/IndexContext.rs\<close>): from a compiled query to a
  tree of readers. \<open>IndexContext\<close> has the same functions under capitalised names.

  A runtime holds the block table with the two ways to fetch its pages, the number of documents, the
  mode in which weak conjunctions are built and the vector search (an argument: it computes in
  floating point). The averages per stream enter only through the assertion that they are
  positive. \<open>None\<close> means that a constructor panics or does not return.

  The second half shows that the reader of an expression delivers exactly the documents the
  expression stands for, and joins this with the writer, the block builder and the compiler.
\<close>

subsection \<open>The runtime\<close>

record SearchRuntime =
  sr_block_table :: IndexBlockTable
  sr_fetch_leaf :: "u32 \<Rightarrow> bytes option"
  sr_fetch_index :: "u32 \<Rightarrow> bytes option"
  sr_header_documents :: u64
  sr_store_documents :: u64
  sr_average_positive :: "u8 \<Rightarrow> bool"
  sr_weak_and_build_mode :: WeakAndBuildMode
  sr_vector_search :: "u32 list \<Rightarrow> nat \<Rightarrow> u64 list"

fun EstimateDocFreq :: "SearchRuntime \<Rightarrow> EvalNode \<Rightarrow> u32" where
  "EstimateDocFreq rt (TermN t) =
     (case FindTermData (sr_fetch_leaf rt) (sr_block_table rt) (stream_key t) of
        Some location \<Rightarrow> loc_doc_freq location | None \<Rightarrow> 0)"
| "EstimateDocFreq rt (OrN cs) =
     ucast (min (fold (\<lambda>c (total :: u64). total + ucast (EstimateDocFreq rt c)) cs 0) 0xFFFFFFFF)"
| "EstimateDocFreq rt _ = 0"

definition high_df :: "SearchRuntime \<Rightarrow> EvalNode \<Rightarrow> bool" where
  "high_df rt node =
     (let docFreq = EstimateDocFreq rt node; docCount = sr_header_documents rt
      in docCount > 0 \<and> docFreq > 0 \<and> (ucast docFreq :: u64) > max 100000 (docCount div 5))"

definition open_advanced_reader :: "SearchRuntime \<Rightarrow> rstr \<Rightarrow> Dyn option" where
  "open_advanced_reader rt key =
     (let stream = (if key = [] then 66 else last key);
          numDocuments = (if sr_header_documents rt > 0 then sr_header_documents rt else sr_store_documents rt)
      in map_option (dyn_adv (sr_fetch_index rt))
           (adv_Open (sr_fetch_leaf rt) (sr_fetch_index rt) (sr_block_table rt) numDocuments
              (sr_average_positive rt stream) key))"

text \<open>All readers of a list, or \<open>None\<close> if one of them cannot be built.\<close>

fun collect :: "'a option list \<Rightarrow> 'a list option" where
  "collect [] = Some []"
| "collect (x # xs) = (case x of None \<Rightarrow> None | Some y \<Rightarrow> map_option ((#) y) (collect xs))"

definition live_readers :: "Dyn list \<Rightarrow> Dyn list" where
  "live_readers rs = filter (\<lambda>r. \<not> d_IsEnd r) rs"

definition and_reader :: "SearchRuntime \<Rightarrow> Dyn list \<Rightarrow> Dyn option" where
  "and_reader rt children =
     (if list_ex d_IsEnd children then open_advanced_reader rt []
      else if length children = 1 then Some (hd children)
      else AndIndexReader_new children)"

definition or_reader :: "SearchRuntime \<Rightarrow> Dyn list \<Rightarrow> Dyn option" where
  "or_reader rt rs =
     (let children = live_readers rs in
      if children = [] then open_advanced_reader rt []
      else if length children = 1 then Some (hd children)
      else Some (OrIndexReader_new children))"

definition weak_and_reader :: "SearchRuntime \<Rightarrow> u32 \<Rightarrow> Dyn list \<Rightarrow> Dyn option" where
  "weak_and_reader rt min_match children =
     (if children = [] then open_advanced_reader rt []
      else
        let min_should_match =
              (if sr_weak_and_build_mode rt = FlatPruned then
                 (if length children \<le> 2 then 1 else if length children \<le> 5 then 2 else 3)
               else min min_match (word_of_nat (length children)))
        in if length children = 1 then Some (hd children)
           else WeakAndIndexReader_new children min_should_match)"

function build_node :: "SearchRuntime \<Rightarrow> EvalNode \<Rightarrow> Dyn option" where
  "build_node rt (TermN t) = open_advanced_reader rt (stream_key t)"
| "build_node rt (AndN cs) =
     (case collect (map (build_node rt) cs) of None \<Rightarrow> None | Some rs \<Rightarrow> and_reader rt rs)"
| "build_node rt (OrN cs) =
     (case collect (map (build_node rt) cs) of None \<Rightarrow> None | Some rs \<Rightarrow> or_reader rt rs)"
| "build_node rt (WeakAndN cs m) =
     (case collect (map (build_node rt)
        (if sr_weak_and_build_mode rt = FlatPruned then FlattenWeakAndNodes (high_df rt) False cs else cs)) of
        None \<Rightarrow> None
      | Some rs \<Rightarrow>
          let children = (if sr_weak_and_build_mode rt \<noteq> OrChildren then live_readers rs else rs)
          in if children = [] \<and> sr_weak_and_build_mode rt = FlatPruned then
               (case collect (map (build_node rt) (FlattenWeakAndNodes (high_df rt) True cs)) of
                  None \<Rightarrow> None
                | Some rs \<Rightarrow> weak_and_reader rt m (live_readers rs))
             else weak_and_reader rt m children)"
| "build_node rt (NotN b x) =
     (case build_node rt b of
        None \<Rightarrow> None
      | Some base \<Rightarrow>
          (case build_node rt x of None \<Rightarrow> None | Some exclude \<Rightarrow> NotIndexReader_new base exclude))"
| "build_node rt (BoostN b x q) =
     (case build_node rt b of
        None \<Rightarrow> None
      | Some base \<Rightarrow>
          if d_IsEnd base then Some base
          else (case build_node rt x of
                  None \<Rightarrow> None
                | Some boost \<Rightarrow>
                    if d_IsEnd boost then Some base else Some (dyn_boost (boost_new base boost))))"
  by pat_completeness auto
termination
  by (relation "measure (\<lambda>(rt, n). size n)")
    (auto simp: less_Suc_eq_le size_list_estimation' dest: size_FlattenWeakAndNodes split: if_splits)

definition build_index_reader :: "SearchRuntime \<Rightarrow> EvalNode option \<Rightarrow> Dyn option" where
  "build_index_reader rt node =
     (case node of None \<Rightarrow> open_advanced_reader rt [] | Some n \<Rightarrow> build_node rt n)"

definition build_local_reader :: "SearchRuntime \<Rightarrow> EvalTree \<Rightarrow> Dyn option" where
  "build_local_reader rt tree =
     (if IsEmpty tree then open_advanced_reader rt []
      else if HasTextQuery tree \<and> HasVectorQuery tree then build_index_reader rt (root tree)
      else if HasVectorQuery tree
      then Some (dyn_vec (VectorIndexReader_new (sr_vector_search rt (vector_query tree) (vector_ef_search tree))))
      else build_index_reader rt (root tree))"

text \<open>\<open>get_reader\<close>: the delta index, if there is one, is a runtime of its own.\<close>

definition get_reader :: "SearchRuntime \<Rightarrow> SearchRuntime option \<Rightarrow> EvalTree \<Rightarrow> Dyn option" where
  "get_reader rt delta tree =
     (if IsEmpty tree then open_advanced_reader rt []
      else
        case build_local_reader rt tree of
          None \<Rightarrow> None
        | Some base \<Rightarrow>
            (case delta of
               None \<Rightarrow> Some base
             | Some d \<Rightarrow> map_option (\<lambda>r. OrIndexReader_new [base, r]) (build_local_reader d tree)))"

subsection \<open>Readers of an expression\<close>

lemma collect_reads:
  assumes "\<And>n. n \<in> set ns \<Longrightarrow> \<exists>r. f n = Some r \<and> reads r (g n)"
  shows "\<exists>rs. collect (map f ns) = Some rs \<and> list_all2 reads rs (map g ns)"
  using assms
proof (induction ns)
  case (Cons n ns)
  from Cons.prems [of n] obtain r where "f n = Some r" "reads r (g n)" by auto
  moreover from Cons obtain rs where "collect (map f ns) = Some rs" "list_all2 reads rs (map g ns)" by force
  ultimately show ?case by simp
qed simp

lemma live_reads:
  "list_all2 reads rs docss \<Longrightarrow> list_all2 reads (live_readers rs) (filter (\<lambda>ds. ds \<noteq> []) docss)"
  by (induction rule: list_all2_induct) (auto simp: live_readers_def dest: readsD(1))

text \<open>A finite set of documents below the end marker, and the list a reader delivers for it.\<close>

definition doc_set :: "u64 set \<Rightarrow> bool" where
  "doc_set D \<longleftrightarrow> finite D \<and> (\<forall>d \<in> D. d < NO_MORE_DOCS)"

lemma doc_set_order: "doc_set D \<Longrightarrow> doc_list (doc_order D)" "doc_set D \<Longrightarrow> set (doc_order D) = D"
  by (simp_all add: doc_set_def doc_list_order)

lemma doc_set_ops: "doc_set {}" "doc_set A \<Longrightarrow> doc_set (A - B)" "doc_set A \<Longrightarrow> B \<subseteq> A \<Longrightarrow> doc_set B"
  by (auto simp: doc_set_def finite_subset)

lemma doc_order_Nil_iff [simp]: "finite D \<Longrightarrow> doc_order D = [] \<longleftrightarrow> D = {}"
  by (simp add: doc_order_def)

lemma doc_order_empty [simp]: "doc_order {} = []"
  by (simp add: doc_order_def)

lemma filter_doc_order:
  "\<forall>D \<in> set Ds. doc_set D \<Longrightarrow> filter (\<lambda>ds. ds \<noteq> []) (map doc_order Ds) = map doc_order (live Ds)"
  by (induction Ds) (auto simp: live_def doc_set_def)

lemma doc_lists_map: "\<forall>D \<in> set Ds. doc_set D \<Longrightarrow> \<forall>ds \<in> set (map doc_order Ds). doc_list ds"
  by (auto intro: doc_set_order)

lemma at_least_subset: "at_least m Ds \<subseteq> \<Union> (set Ds)"
proof
  fix d assume "d \<in> at_least m Ds"
  then have "filter (\<lambda>D. d \<in> D) Ds \<noteq> []" by (auto simp: at_least_def)
  then show "d \<in> \<Union> (set Ds)" by (auto simp: filter_empty_conv)
qed

lemma doc_set_lists:
  assumes "\<forall>D \<in> set Ds. doc_set D"
  shows "doc_set (\<Union> (set Ds))" "doc_set (at_least m Ds)" "doc_set (all_of Ds)" "\<forall>D \<in> set (live Ds). doc_set D"
proof -
  show u: "doc_set (\<Union> (set Ds))" using assms by (auto simp: doc_set_def)
  show "doc_set (at_least m Ds)" by (rule doc_set_ops(3) [OF u at_least_subset])
  show "doc_set (all_of Ds)"
    by (rule doc_set_ops(3) [OF u]) (cases Ds, auto simp: all_of_def)
  show "\<forall>D \<in> set (live Ds). doc_set D" using assms by (simp add: live_def)
qed

fun node_keys :: "EvalNode \<Rightarrow> rstr set" where
  "node_keys (TermN t) = {stream_key t}"
| "node_keys (AndN cs) = \<Union> (set (map node_keys cs))"
| "node_keys (OrN cs) = \<Union> (set (map node_keys cs))"
| "node_keys (NotN b x) = node_keys b \<union> node_keys x"
| "node_keys (BoostN b x q) = node_keys b \<union> node_keys x"
| "node_keys (WeakAndN cs m) = \<Union> (set (map node_keys cs))"

lemma node_keys_Flatten:
  "x \<in> set (FlattenWeakAndNodes h a nodes) \<Longrightarrow> node_keys x \<subseteq> \<Union> (set (map node_keys nodes))"
  by (induction h a nodes rule: FlattenWeakAndNodes.induct) (auto split: if_splits)

text \<open>
  What the construction relies on: every key it opens gives a reader that delivers the documents of
  that key; the empty key, with which the code opens its empty reader, has none.
\<close>

lemma empty_and_reads: "reads (dyn_and []) []"
proof (coinduction rule: reads.coinduct)
  case reads
  have "AlignToPivot [] = Some []" by (simp add: AlignToPivot.simps)
  then show ?case
    by (simp add: and_IsEnd_def and_GoNext_def and_GoUntil_def and_GetSourceMask_def)
qed

locale term_source =
  fixes ok :: "'i \<Rightarrow> bool"
    and runtime :: "'i \<Rightarrow> SearchRuntime"
    and docs :: "'i \<Rightarrow> rstr \<Rightarrow> u64 set"
    and good_key :: "rstr \<Rightarrow> bool"
  assumes good_empty: "good_key []"
    and docs_empty: "ok i \<Longrightarrow> docs i [] = {}"
    and docs_set: "ok i \<Longrightarrow> doc_set (docs i key)"
    and open_reads: "ok i \<Longrightarrow> good_key key \<Longrightarrow>
      \<exists>r. open_advanced_reader (runtime i) key = Some r \<and> reads r (doc_order (docs i key))"
begin

definition meaning :: "'i \<Rightarrow> EvalNode \<Rightarrow> u64 set" where
  "meaning i = node_docs (sr_weak_and_build_mode (runtime i)) (high_df (runtime i)) (docs i)"

lemma open_empty: "ok i \<Longrightarrow> \<exists>r. open_advanced_reader (runtime i) [] = Some r \<and> reads r []"
  using open_reads [OF _ good_empty, of i] docs_empty [of i] by simp

lemma meaning_set: "ok i \<Longrightarrow> doc_set (meaning i n)"
  unfolding meaning_def
proof (induction n rule: measure_induct_rule [of size])
  case (less n)
  let ?f = "node_docs (sr_weak_and_build_mode (runtime i)) (high_df (runtime i)) (docs i)"
  have sub: "\<forall>D \<in> set (map ?f cs). doc_set D" if "\<And>c. c \<in> set cs \<Longrightarrow> size c < size n" for cs
    using less that by auto
  show ?case
  proof (cases n)
    case (WeakAndN cs m)
    have "\<forall>D \<in> set (map ?f cs). doc_set D"
      using WeakAndN by (intro sub) (auto simp: less_Suc_eq_le size_list_estimation')
    note plain = this
    have flat: "\<forall>D \<in> set (map ?f (FlattenWeakAndNodes h a cs)). doc_set D" for h a
      using WeakAndN by (intro sub) (auto simp: less_Suc_eq_le dest: size_FlattenWeakAndNodes)
    note lives = doc_set_lists(2) [OF doc_set_lists(4)]
    show ?thesis
      using WeakAndN doc_set_lists(2) [OF plain] lives [OF plain] lives [OF flat]
      by (cases "sr_weak_and_build_mode (runtime i)") (simp_all add: Let_def)
  next
    case (AndN cs)
    have "\<forall>D \<in> set (map ?f cs). doc_set D"
      using AndN by (intro sub) (auto simp: less_Suc_eq_le size_list_estimation')
    then show ?thesis using AndN doc_set_lists(3) by (simp only: node_docs.simps)
  next
    case (OrN cs)
    have "\<forall>D \<in> set (map ?f cs). doc_set D"
      using OrN by (intro sub) (auto simp: less_Suc_eq_le size_list_estimation')
    then show ?thesis using OrN doc_set_lists(1) by (simp only: node_docs.simps)
  qed (use less docs_set in \<open>auto intro: doc_set_ops\<close>)
qed

lemma and_reader_reads:
  assumes "ok i" and "\<forall>D \<in> set Ds. doc_set D" and "list_all2 reads rs (map doc_order Ds)" and "Ds \<noteq> []"
  shows "\<exists>r. and_reader (runtime i) rs = Some r \<and> reads r (doc_order (all_of Ds))"
proof -
  have ends: "list_ex d_IsEnd rs \<longleftrightarrow> {} \<in> set Ds"
  proof -
    have "doc_order D = [] \<longleftrightarrow> D = {}" if "D \<in> set Ds" for D using that assms(2) by (simp add: doc_set_def)
    then have "[] \<in> set (map doc_order Ds) \<longleftrightarrow> {} \<in> set Ds" by (metis (no_types, lifting) doc_order_empty image_iff list.set_map)
    then show ?thesis using list_ex_reads [OF assms(3)] by simp
  qed
  consider (e) "{} \<in> set Ds" | (one) "{} \<notin> set Ds" "length Ds = 1" | (many) "{} \<notin> set Ds" "length Ds \<noteq> 1" by blast
  then show ?thesis
  proof cases
    case e
    then have "all_of Ds = {}" by (auto simp: all_of_def)
    then show ?thesis using ends e open_empty [OF assms(1)] by (simp add: and_reader_def)
  next
    case one
    then obtain D where "Ds = [D]" by (auto simp: length_Suc_conv)
    with assms(3) one ends show ?thesis by (auto simp: and_reader_def all_of_def list_all2_Cons2)
  next
    case many
    have "rs \<noteq> []" using assms(3,4) by auto
    from and_new_reads [OF assms(3) doc_lists_map [OF assms(2)] this]
    have "\<exists>r. AndIndexReader_new rs = Some r \<and> reads r (doc_order (all_of Ds))"
      using assms(2,4) by (simp add: all_of_def doc_set_order image_image)
    then show ?thesis using many ends list_all2_lengthD [OF assms(3)] by (simp add: and_reader_def)
  qed
qed

lemma or_reader_reads:
  assumes "ok i" and "\<forall>D \<in> set Ds. doc_set D" and "list_all2 reads rs (map doc_order Ds)"
  shows "\<exists>r. or_reader (runtime i) rs = Some r \<and> reads r (doc_order (\<Union> (set Ds)))"
proof -
  have live: "list_all2 reads (live_readers rs) (map doc_order (live Ds))"
    using live_reads [OF assms(3)] filter_doc_order [OF assms(2)] by simp
  note sets = doc_set_lists(4) [OF assms(2)] and len = list_all2_lengthD [OF live]
  have union: "\<Union> (set Ds) = \<Union> (set (live Ds))" by (auto simp: live_def)
  consider (e) "live Ds = []" | (one) "length (live Ds) = 1" | (many) "live Ds \<noteq> []" "length (live Ds) \<noteq> 1" by blast
  then show ?thesis
  proof cases
    case e
    then show ?thesis using len open_empty [OF assms(1)] by (simp add: or_reader_def union)
  next
    case one
    then obtain D where "live Ds = [D]" by (auto simp: length_Suc_conv)
    with live show ?thesis by (auto simp: or_reader_def union list_all2_Cons2)
  next
    case many
    from or_new_reads [OF live doc_lists_map [OF sets]] sets
    have "reads (OrIndexReader_new (live_readers rs)) (doc_order (\<Union> (set (live Ds))))"
      by (simp add: doc_set_order)
    then show ?thesis using many len by (auto simp: or_reader_def union Let_def)
  qed
qed

lemma weak_and_reader_reads:
  assumes "ok i" and "\<forall>D \<in> set Ds. doc_set D" and "list_all2 reads rs (map doc_order Ds)"
    and "m = (if sr_weak_and_build_mode (runtime i) = FlatPruned then min_should_match_for (length Ds)
              else min k (word_of_nat (length Ds)))"
  shows "\<exists>r. weak_and_reader (runtime i) k rs = Some r \<and> reads r (doc_order (at_least (unat m) Ds))"
proof -
  note len = list_all2_lengthD [OF assms(3)]
  consider (e) "Ds = []" | (one) "length Ds = 1" | (many) "Ds \<noteq> []" "length Ds \<noteq> 1" by blast
  then show ?thesis
  proof cases
    case e
    then show ?thesis using len open_empty [OF assms(1)] by (simp add: weak_and_reader_def)
  next
    case one
    then obtain D where D: "Ds = [D]" by (auto simp: length_Suc_conv)
    have "m \<le> 1" using assms(4) one by (auto simp: min_should_match_for_def)
    then have "unat m \<le> 1" by (simp add: word_le_nat_alt)
    with D assms(3) show ?thesis by (auto simp: weak_and_reader_def list_all2_Cons2)
  next
    case many
    have "filter (\<lambda>ds. d \<in> set ds) (map doc_order Ds) = map doc_order (filter (\<lambda>D. d \<in> D) Ds)" for d
      using assms(2) by (auto simp: filter_map o_def doc_set_order intro!: arg_cong [of _ _ "map doc_order"] filter_cong)
    moreover have "unat (max m 1) = max (unat m) 1" by (auto simp: max_def word_le_nat_alt)
    ultimately have "\<exists>r. WeakAndIndexReader_new rs m = Some r \<and> reads r (doc_order (at_least (unat m) Ds))"
      using weak_new_reads [OF assms(3) doc_lists_map [OF assms(2)], of m] by (simp add: at_least_def)
    then show ?thesis using many len assms(4) by (auto simp: weak_and_reader_def Let_def min_should_match_for_def)
  qed
qed

lemma collect_nodes:
  assumes "\<And>c. c \<in> set cs \<Longrightarrow> \<exists>r. build_node (runtime i) c = Some r \<and> reads r (doc_order (meaning i c))"
  shows "\<exists>rs. collect (map (build_node (runtime i)) cs) = Some rs \<and> list_all2 reads rs (map doc_order (map (meaning i) cs))"
  using collect_reads [of cs "build_node (runtime i)" "\<lambda>c. doc_order (meaning i c)"] assms by (simp add: o_def)

lemma build_weak_reads:
  assumes "ok i"
    and ih: "\<And>c. c \<in> set cs \<or> (\<exists>a. c \<in> set (FlattenWeakAndNodes (high_df (runtime i)) a cs)) \<Longrightarrow>
      \<exists>r. build_node (runtime i) c = Some r \<and> reads r (doc_order (meaning i c))"
  shows "\<exists>r. build_node (runtime i) (WeakAndN cs m) = Some r \<and> reads r (doc_order (meaning i (WeakAndN cs m)))"
proof -
  let ?w = "sr_weak_and_build_mode (runtime i)" and ?flat = "\<lambda>a. FlattenWeakAndNodes (high_df (runtime i)) a cs"
  have sets: "\<forall>D \<in> set (map (meaning i) ns). doc_set D" for ns using meaning_set [OF assms(1)] by auto
  have live: "list_all2 reads (live_readers rs) (map doc_order (live (map (meaning i) ns)))"
    if "list_all2 reads rs (map doc_order (map (meaning i) ns))" for rs ns
    using live_reads [OF that] filter_doc_order [OF sets] by simp
  from collect_nodes [of cs i] ih obtain rs where
    rs: "collect (map (build_node (runtime i)) cs) = Some rs" "list_all2 reads rs (map doc_order (map (meaning i) cs))" by blast
  have "\<exists>rs. collect (map (build_node (runtime i)) (?flat a)) = Some rs \<and>
      list_all2 reads rs (map doc_order (map (meaning i) (?flat a)))" for a
    using collect_nodes [of "?flat a" i] ih by blast
  then obtain fs where fs: "\<And>a. collect (map (build_node (runtime i)) (?flat a)) = Some (fs a)"
    "\<And>a. list_all2 reads (fs a) (map doc_order (map (meaning i) (?flat a)))" by metis
  show ?thesis
  proof (cases ?w)
    case OrChildren
    then show ?thesis using rs weak_and_reader_reads [OF assms(1) sets rs(2), of _ m] by (simp add: meaning_def)
  next
    case OrChildrenPruned
    then show ?thesis
      using rs weak_and_reader_reads [OF assms(1) doc_set_lists(4) [OF sets] live [OF rs(2)], of _ m]
      by (simp add: meaning_def Let_def)
  next
    case FlatPruned
    have empty: "live_readers (fs a) = [] \<longleftrightarrow> live (map (meaning i) (?flat a)) = []" for a
      using list_all2_lengthD [OF live [OF fs(2)]] by (metis length_0_conv length_map)
    have reads: "\<exists>r. weak_and_reader (runtime i) m (live_readers (fs a)) = Some r \<and>
        reads r (doc_order (at_least (unat (min_should_match_for (length (live (map (meaning i) (?flat a))))))
          (live (map (meaning i) (?flat a)))))" for a
      by (rule weak_and_reader_reads [OF assms(1) doc_set_lists(4) [OF sets] live [OF fs(2)]]) (simp add: FlatPruned)
    show ?thesis
      using FlatPruned fs(1) empty [of False] reads [of False] reads [of True] by (simp add: meaning_def Let_def)
  qed
qed

lemma build_node_reads:
  assumes "ok i" and "\<forall>key \<in> node_keys n. good_key key"
  shows "\<exists>r. build_node (runtime i) n = Some r \<and> reads r (doc_order (meaning i n))"
  using assms(2)
proof (induction n rule: measure_induct_rule [of size])
  case (less n)
  have sets: "\<forall>D \<in> set (map (meaning i) ns). doc_set D" for ns using meaning_set [OF assms(1)] by auto
  note at = meaning_set [OF assms(1)]
  show ?case
  proof (cases n)
    case (TermN t)
    then show ?thesis using less.prems open_reads [OF assms(1)] by (simp add: meaning_def)
  next
    case (AndN cs)
    have "\<exists>rs. collect (map (build_node (runtime i)) cs) = Some rs \<and> list_all2 reads rs (map doc_order (map (meaning i) cs))"
      using less AndN by (intro collect_nodes) (auto simp: less_Suc_eq_le size_list_estimation')
    then obtain rs where rs: "collect (map (build_node (runtime i)) cs) = Some rs"
      "list_all2 reads rs (map doc_order (map (meaning i) cs))" by blast
    show ?thesis
    proof (cases "cs = []")
      case True
      then have "build_node (runtime i) n = Some (dyn_and [])"
        using AndN by (simp add: and_reader_def AndIndexReader_new_def AlignToPivot.simps)
      then show ?thesis using AndN True empty_and_reads by (simp add: meaning_def all_of_def)
    next
      case False
      then show ?thesis using AndN rs and_reader_reads [OF assms(1) sets rs(2)] by (simp add: meaning_def)
    qed
  next
    case (OrN cs)
    have "\<exists>rs. collect (map (build_node (runtime i)) cs) = Some rs \<and> list_all2 reads rs (map doc_order (map (meaning i) cs))"
      using less OrN by (intro collect_nodes) (auto simp: less_Suc_eq_le size_list_estimation')
    then show ?thesis using OrN or_reader_reads [OF assms(1) sets] by (fastforce simp: meaning_def)
  next
    case (WeakAndN cs m)
    have "\<exists>r. build_node (runtime i) c = Some r \<and> reads r (doc_order (meaning i c))"
      if "c \<in> set cs \<or> (\<exists>a. c \<in> set (FlattenWeakAndNodes (high_df (runtime i)) a cs))" for c
    proof (rule less.IH)
      show "size c < size n"
        using that WeakAndN by (auto simp: less_Suc_eq_le size_list_estimation' dest: size_FlattenWeakAndNodes)
      show "\<forall>key \<in> node_keys c. good_key key"
        using that WeakAndN less.prems node_keys_Flatten [of c _ _ cs] by fastforce
    qed
    from build_weak_reads [OF assms(1) this] WeakAndN show ?thesis by simp
  next
    case (NotN b x)
    from less.IH [of b] less.IH [of x] less.prems NotN obtain rb rx where
      "build_node (runtime i) b = Some rb" "reads rb (doc_order (meaning i b))"
      "build_node (runtime i) x = Some rx" "reads rx (doc_order (meaning i x))" by auto
    moreover from not_new_reads [OF this(2,4) doc_set_order(1) [OF at] doc_set_order(1) [OF at]]
    have "\<exists>r. NotIndexReader_new rb rx = Some r \<and> reads r (doc_order (meaning i b - meaning i x))"
      by (simp add: doc_set_order(2) [OF at])
    ultimately show ?thesis using NotN by (simp add: meaning_def)
  next
    case (BoostN b x q)
    from less.IH [of b] less.IH [of x] less.prems BoostN obtain rb rx where
      "build_node (runtime i) b = Some rb" "reads rb (doc_order (meaning i b))"
      "build_node (runtime i) x = Some rx" "reads rx (doc_order (meaning i x))" by auto
    moreover from boost_new_reads [OF this(2,4) doc_set_order(1) [OF at] doc_set_order(1) [OF at]]
    have "reads (dyn_boost (boost_new rb rx)) (doc_order (meaning i b))" .
    ultimately show ?thesis using BoostN by (simp add: meaning_def)
  qed
qed

end

subsection \<open>The runtime over a freshly built index\<close>

text \<open>
  What \<open>Build\<close> installs: the blocks built from the store, held in memory. The remaining fields are
  the settings a caller can choose.
\<close>

record built_index =
  bi_log2 :: "nat \<Rightarrow> rat"
  bi_store :: PostingStore
  bi_result :: BuildBlocksResult
  bi_counters :: BlockAccessCounters
  bi_mode :: WeakAndBuildMode
  bi_vector :: "u32 list \<Rightarrow> nat \<Rightarrow> u64 list"

definition built_runtime :: "built_index \<Rightarrow> SearchRuntime" where
  "built_runtime b =
     \<lparr>sr_block_table = built_table (bi_result b),
      sr_fetch_leaf = leaf_fetch (built_table (bi_result b)) (bi_counters b),
      sr_fetch_index = index_fetch (built_table (bi_result b)) (bi_counters b),
      sr_header_documents = StoreDocDataRecordCount (bi_store b),
      sr_store_documents = TotalDocs (bi_store b),
      sr_average_positive = (\<lambda>_. True),
      sr_weak_and_build_mode = bi_mode b,
      sr_vector_search = bi_vector b\<rparr>"

text \<open>Keys above the length limit are not indexed.\<close>

definition indexed_docs :: "PostingStore \<Rightarrow> rstr \<Rightarrow> u64 set" where
  "indexed_docs s key = (if length key \<le> HEAD_TERM_KEY_MAX then docs_of s key else {})"

definition built_index_ok :: "built_index \<Rightarrow> bool" where
  "built_index_ok b \<longleftrightarrow> store_buildable (bi_log2 b) (bi_store b) \<and>
     BuildBlocks (bi_log2 b) (bi_store b) = Some (bi_result b) \<and> built_fits (bi_result b) \<and>
     0 < StoreDocDataRecordCount (bi_store b) \<and>
     (\<forall>(key, pl) \<in> set (m_Postings (bi_store b)). key \<noteq> [] \<and> (\<forall>e \<in> set (entries pl). ie_doc_id e < NO_MORE_DOCS))"

lemma docs_of_entries: "docs_of s key = ie_doc_id ` set (entries (entry_or PostingList_default (m_Postings s) key))"
  by (force simp: docs_of_def postings_of_def tf_map_def dom_map_of_conv_image_fst image_image)

lemma map_of_filter_distinct:
  "distinct (map fst m) \<Longrightarrow>
   map_of (filter P m) k = (case map_of m k of Some v \<Rightarrow> if P (k, v) then Some v else None | None \<Rightarrow> None)"
  by (induction m) (auto simp: map_of_eq_None_iff image_iff split: option.splits)

lemma store_pairs_docs:
  assumes "store_wf s"
  shows "set (map fst (store_pairs log2_f64 s key)) = indexed_docs s key"
proof -
  have "distinct (map fst (m_Postings s))" using assms by (simp add: store_wf_def)
  note map_of_filter_distinct [OF this, of kept key]
  then show ?thesis
    by (auto simp: store_pairs_def indexed_docs_def docs_of_entries entry_or_def posting_pairs_def kept_def
        PostingList_default_def image_image split: option.splits)
qed

lemma built_docs_set: "built_index_ok b \<Longrightarrow> doc_set (indexed_docs (bi_store b) key)"
  by (fastforce simp: built_index_ok_def doc_set_def indexed_docs_def docs_of_entries entry_or_def
      PostingList_default_def split: option.splits dest: map_of_SomeD)

lemma built_docs_empty: "built_index_ok b \<Longrightarrow> indexed_docs (bi_store b) [] = {}"
  by (fastforce simp: built_index_ok_def indexed_docs_def docs_of_entries entry_or_def
      PostingList_default_def split: option.splits dest: map_of_SomeD)

text \<open>A reader that stands before the pairs of a key delivers the documents of the key.\<close>

lemma adv_at_reads:
  assumes wf: "store_wf s" and docs: "doc_set (fst ` set (store_pairs l s key))" and rd: "adv_at fetch rd (store_pairs l s key)"
  shows "reads (dyn_adv fetch rd) (doc_order (fst ` set (store_pairs l s key)))"
proof -
  note asc = ascending_store_pairs [OF wf, of l key]
  have "doc_order (fst ` set (store_pairs l s key)) = map fst (store_pairs l s key)"
    using asc docs doc_order_set [of "map fst (store_pairs l s key)"] by (auto simp: doc_list_def doc_set_def)
  moreover have "adv_stands fetch rd (map fst (store_pairs l s key))" using rd asc by (auto simp: adv_stands_def)
  ultimately show ?thesis using adv.reads_dyn by simp
qed

lemma built_open_reads:
  assumes ok: "built_index_ok b" and key: "0 \<notin> set key"
  shows "\<exists>r. open_advanced_reader (built_runtime b) key = Some r \<and> reads r (doc_order (indexed_docs (bi_store b) key))"
proof -
  from ok have wf: "store_wf (bi_store b)" and n: "0 < StoreDocDataRecordCount (bi_store b)"
    by (auto simp: built_index_ok_def store_buildable_def)
  note docs = store_pairs_docs [OF wf, of "bi_log2 b" key]
  from adv_Open_built [of "bi_log2 b" "bi_store b" "bi_result b" key "StoreDocDataRecordCount (bi_store b)" "bi_counters b"]
    ok key n obtain rd where rd: "adv_Open (leaf_fetch (built_table (bi_result b)) (bi_counters b))
        (index_fetch (built_table (bi_result b)) (bi_counters b)) (built_table (bi_result b))
        (StoreDocDataRecordCount (bi_store b)) True key = Some rd"
      "adv_at (index_fetch (built_table (bi_result b)) (bi_counters b)) rd (store_pairs (bi_log2 b) (bi_store b) key)"
    by (auto simp: built_index_ok_def)
  have "reads (dyn_adv (index_fetch (built_table (bi_result b)) (bi_counters b)) rd) (doc_order (indexed_docs (bi_store b) key))"
    using adv_at_reads [OF wf _ rd(2)] built_docs_set [OF ok, of key] docs by simp
  then show ?thesis using rd(1) n by (auto simp: open_advanced_reader_def built_runtime_def Let_def)
qed

interpretation built: term_source built_index_ok built_runtime "\<lambda>b. indexed_docs (bi_store b)" "\<lambda>key. 0 \<notin> set key"
  by unfold_locales (simp_all add: built_docs_empty built_docs_set built_open_reads)

lemma build_reads_docs:
  assumes "built_index_ok b" and "\<forall>key \<in> node_keys n. 0 \<notin> set key"
  shows "\<exists>r. build_index_reader (built_runtime b) (Some n) = Some r \<and>
    reads r (doc_order (node_docs (bi_mode b) (high_df (built_runtime b)) (indexed_docs (bi_store b)) n))"
  using built.build_node_reads [OF assms]
  by (simp add: build_index_reader_def built.meaning_def) (simp add: built_runtime_def)

text \<open>
  C12. Over a freshly built index, the reader tree of a query expression is constructed and delivers,
  in order and whatever calls come in between, exactly the documents the expression stands for:
  conjunction, union, difference and threshold of the store's posting lists, in each of the three
  modes for weak conjunctions.
\<close>

theorem build_index_reader_exact:
  assumes "built_index_ok b" and "\<forall>key \<in> node_keys n. 0 \<notin> set key"
  shows "\<exists>r. build_index_reader (built_runtime b) (Some n) = Some r \<and>
    reads r (doc_order (node_docs (bi_mode b) (high_df (built_runtime b)) (indexed_docs (bi_store b)) n))"
  using assms by (rule build_reads_docs)

subsection \<open>From the query string to the documents\<close>

definition nul_free :: "rstr \<Rightarrow> bool" where "nul_free s \<longleftrightarrow> 0 \<notin> set s"

definition term_nul_free :: "QueryTerm \<Rightarrow> bool" where
  "term_nul_free t \<longleftrightarrow> nul_free (qt_term t) \<and> (\<forall>s \<in> set (qt_streams t). nul_free s)"

definition node_nul_free :: "EvalNode \<Rightarrow> bool" where
  "node_nul_free n \<longleftrightarrow> (\<forall>key \<in> node_keys n. nul_free key)"

lemma nul_free_simps [simp]:
  "nul_free (a @ b) \<longleftrightarrow> nul_free a \<and> nul_free b" "nul_free []" "nul_free (c # a) \<longleftrightarrow> c \<noteq> 0 \<and> nul_free a"
  by (auto simp: nul_free_def)

lemma term_group_nul_free:
  assumes "nul_free s" and "\<forall>st \<in> set streams. nul_free st"
  shows "node_nul_free (make_term_group s streams n)"
proof (cases "length streams = 1")
  case True
  then obtain st where "streams = [st]" by (auto simp: length_Suc_conv)
  with assms show ?thesis by (simp add: make_term_group_def node_nul_free_def)
qed (use assms in \<open>auto simp: make_term_group_def node_nul_free_def\<close>)

lemma query_term_nul_free: "term_nul_free t \<Longrightarrow> node_nul_free (make_query_term_group t n)"
  by (simp add: make_query_term_group_def term_nul_free_def term_group_nul_free)

lemma bigram_groups_nul_free:
  "\<forall>t \<in> set ts. term_nul_free t \<Longrightarrow> g \<in> set (bigram_groups ts) \<Longrightarrow> node_nul_free g"
  using zip_tl_in_set [of _ ts]
  by (auto simp: bigram_groups_def term_nul_free_def BIGRAM_SEP_def intro!: term_group_nul_free)

lemma node_nul_free_simps [simp]:
  "node_nul_free (AndN cs) \<longleftrightarrow> (\<forall>c \<in> set cs. node_nul_free c)"
  "node_nul_free (OrN cs) \<longleftrightarrow> (\<forall>c \<in> set cs. node_nul_free c)"
  "node_nul_free (WeakAndN cs m) \<longleftrightarrow> (\<forall>c \<in> set cs. node_nul_free c)"
  "node_nul_free (NotN a b) \<longleftrightarrow> node_nul_free a \<and> node_nul_free b"
  "node_nul_free (BoostN a b q) \<longleftrightarrow> node_nul_free a \<and> node_nul_free b"
  by (auto simp: node_nul_free_def)

lemma bigram_query_nul_free:
  assumes "\<forall>t \<in> set ts. term_nul_free t"
  shows "build_bigram_query ts = Some n \<Longrightarrow> node_nul_free n" "build_any_bigram_query ts = Some n \<Longrightarrow> node_nul_free n"
  using bigram_groups_nul_free [OF assms]
  by (auto simp: build_bigram_query_def build_any_bigram_query_def split: if_splits list.splits)

lemma first_seen_subset: "set (first_seen seen ts) \<subseteq> set ts"
  by (induction seen ts rule: first_seen.induct) auto

lemma filter_weak_subset: "set (filter_weak_and_terms ts) \<subseteq> set ts"
  using first_seen_subset [of "{}" "filter (\<lambda>t. length (qt_term t) > 1) ts"]
    first_seen_subset [of "{}" "filter (\<lambda>t. qt_term t \<noteq> []) ts"]
  by (auto simp: filter_weak_and_terms_def Let_def)

lemma weak_base_nul_free:
  "\<forall>t \<in> set ts. term_nul_free t \<Longrightarrow> build_weak_and_base_expression ts = Some n \<Longrightarrow> node_nul_free n"
  by (auto simp: build_weak_and_base_expression_def Let_def query_term_nul_free split: if_splits)

lemma implicit_nul_free:
  assumes "\<forall>t \<in> set ts. term_nul_free t" and "build_implicit_expression ts mode = Some n"
  shows "node_nul_free n"
proof -
  have weak: "\<forall>t \<in> set (filter_weak_and_terms ts). term_nul_free t" using assms(1) filter_weak_subset by blast
  have hd: "node_nul_free (hd (map (\<lambda>t. make_query_term_group t 1) ts))" if "ts \<noteq> []"
    using that assms(1) by (simp add: hd_map query_term_nul_free)
  show ?thesis
  proof (cases mode)
    case Default
    then show ?thesis
      using assms hd bigram_query_nul_free(1) [OF assms(1)]
      by (auto simp: build_implicit_expression_def Let_def query_term_nul_free split: if_splits option.splits)
  qed (use assms(2) bigram_query_nul_free(2) [OF weak] weak_base_nul_free [OF weak] in
      \<open>auto simp: build_implicit_expression_def build_weak_and_bigram_expression_def
        build_weak_and_bigram_boost_expression_def Let_def split: option.splits\<close>)
qed

lemma clause_nul_free:
  assumes "\<forall>t \<in> set (fst c) \<union> set (snd c). term_nul_free t" and "clause_node mode c = Some n"
  shows "node_nul_free n"
  using assms implicit_nul_free [of "fst c" mode] implicit_nul_free [of "snd c" mode]
  by (auto simp: clause_node_def build_minus_expression_def split: if_splits option.splits)

definition tokenizer_clean :: "(rstr \<Rightarrow> rstr list) \<Rightarrow> bool" where
  "tokenizer_clean tok \<longleftrightarrow> tokenizer_plain tok \<and> (\<forall>input. \<forall>w \<in> set (tok input). nul_free w)"

lemma streams_for_field_nul_free:
  "\<forall>s \<in> set ss. nul_free s \<Longrightarrow> \<forall>s \<in> set (streams_for_field f ss). nul_free s"
  by (simp add: streams_for_field_def Let_def str_simps)

lemma add_raw_item_nul_free:
  assumes "tokenizer_clean tok" and "\<forall>s \<in> set ss. nul_free s" and "\<forall>t \<in> set (fst c) \<union> set (snd c). term_nul_free t"
  shows "\<forall>t \<in> set (fst (add_raw_item tok raw ss neg c)) \<union> set (snd (add_raw_item tok raw ss neg c)). term_nul_free t"
proof -
  have field: "\<forall>s \<in> set (fst (field_and_item ss item)). nul_free s" for item
    using assms(2) streams_for_field_nul_free [OF assms(2)] by (auto simp: field_and_item_def split: option.splits)
  define new where "new item = map (\<lambda>token. \<lparr>qt_term = token, qt_streams = fst (field_and_item ss item)\<rparr>)
    (tok (snd (field_and_item ss item)))" for item
  have "\<forall>t \<in> set (new item). term_nul_free t" for item
    using field assms(1) by (auto simp: new_def tokenizer_clean_def term_nul_free_def)
  moreover have "add_raw_item tok raw ss neg c \<in> {c, (fst c @ new raw, snd c), (fst c @ new (tl raw), snd c),
      (fst c, snd c @ new raw), (fst c, snd c @ new (tl raw))}"
    by (simp add: add_raw_item_def Let_def case_prod_beta new_def)
  ultimately show ?thesis using assms(3) by auto
qed

lemma clauses_nul_free:
  assumes "tokenizer_clean tok" and "\<forall>s \<in> set ss. nul_free s"
  shows "\<forall>t \<in> set (fst c) \<union> set (snd c). term_nul_free t \<Longrightarrow> c' \<in> set (clauses tok ss neg c items) \<Longrightarrow>
    \<forall>t \<in> set (fst c') \<union> set (snd c'). term_nul_free t"
proof (induction items arbitrary: neg c)
  case (Cons raw items)
  note item = add_raw_item_nul_free [OF assms Cons.prems(1), of raw neg]
  consider (o) "is_or_token raw" | (n) "\<not> is_or_token raw" "is_not_token raw"
    | (t) "\<not> is_or_token raw" "\<not> is_not_token raw" by blast
  then show ?case
  proof cases
    case o
    with Cons.prems(2) consider "c' = c" | "c' \<in> set (clauses tok ss False ([], []) items)" by auto
    then show ?thesis using Cons.prems(1) Cons.IH [of "([], [])" False] by cases simp_all
  next
    case n
    with Cons.prems show ?thesis by (intro Cons.IH [of c True]) simp_all
  next
    case t
    with Cons.prems(2) show ?thesis by (intro Cons.IH [OF item, of False]) simp
  qed
qed simp

lemma parse_nul_free:
  assumes "tokenizer_clean tok" and "\<forall>s \<in> set ss. nul_free s" and "parse_expression tok query ss mode = Some n"
  shows "node_nul_free n"
proof -
  have "node_nul_free m" if "m \<in> set (List.map_filter (clause_node mode) (query_clauses tok ss query))" for m
    using that clauses_nul_free [OF assms(1,2), of "([], [])"] clause_nul_free
    by (fastforce simp: set_map_filter query_clauses_def)
  with assms(3) show ?thesis by (auto simp: parse_expression_clauses join_nodes_def split: list.splits)
qed

lemma ParseStreamSet_streams: "set (ParseStreamSet s) \<subseteq> text_streams"
proof -
  have "set (List.map_filter stream_of_char s) \<subseteq> text_streams"
    by (auto simp: set_map_filter stream_of_char_def text_streams_def str_simps split: if_splits)
  then show ?thesis by (simp add: ParseStreamSet_def Let_def text_streams_def)
qed

lemma text_streams_nul_free: "s \<in> text_streams \<Longrightarrow> nul_free s"
  by (auto simp: text_streams_def str_simps)

lemma indexed_bigram_sound:
  assumes "bigram_sound (docs_of s)"
  shows "bigram_sound (indexed_docs s)"
  using assms unfolding bigram_sound_def indexed_docs_def by auto

lemma Compile_root: "query \<noteq> [] \<Longrightarrow> ParseStreamSet streams \<noteq> [] \<Longrightarrow>
  root (CompileWithMode tok query streams mode) = parse_expression tok query (ParseStreamSet streams) mode \<and>
  vector_query (CompileWithMode tok query streams mode) = []"
  by (simp add: CompileWithMode_def EvalTree_new_def)

subsection \<open>Default queries over any source of terms\<close>

text \<open>
  The documents a query asks for: for some of its clauses, those with every positive term and without
  the excluded ones. A query is plain when it is neither empty nor without a stream to search and
  stays within the syntax that the compiler implements as documented.
\<close>

definition query_docs :: "(rstr \<Rightarrow> rstr list) \<Rightarrow> (rstr \<Rightarrow> u64 set) \<Rightarrow> rstr \<Rightarrow> rstr \<Rightarrow> u64 set" where
  "query_docs tok D query streams = (\<Union>c \<in> set (query_clauses tok (ParseStreamSet streams) query). clause_docs D c)"

definition query_plain :: "(rstr \<Rightarrow> rstr list) \<Rightarrow> rstr \<Rightarrow> rstr \<Rightarrow> bool" where
  "query_plain tok query streams \<longleftrightarrow>
     query \<noteq> [] \<and> ParseStreamSet streams \<noteq> [] \<and> plain_clauses tok (ParseStreamSet streams) query"

lemma conj_docs_at: "\<forall>key. d \<in> D key \<longleftrightarrow> d \<in> D' key \<Longrightarrow> d \<in> conj_docs D ts \<longleftrightarrow> d \<in> conj_docs D' ts"
  by (simp add: conj_docs_def term_docs_def)

lemma clause_docs_at: "\<forall>key. d \<in> D key \<longleftrightarrow> d \<in> D' key \<Longrightarrow> d \<in> clause_docs D c \<longleftrightarrow> d \<in> clause_docs D' c"
  using conj_docs_at [of d D D' "fst c"] by (simp add: clause_docs_def term_docs_def)

lemma conj_docs_none: "\<forall>key. d \<notin> D key \<Longrightarrow> d \<notin> conj_docs D ts"
  by (cases ts) (auto simp: conj_docs_def term_docs_def)

lemma query_docs_subset:
  assumes "\<And>key. D key \<subseteq> S" shows "query_docs tok D query streams \<subseteq> S"
proof -
  have "d \<notin> conj_docs D ts" if "d \<notin> S" for d ts using conj_docs_none [of d D ts] assms that by blast
  then show ?thesis by (fastforce simp: query_docs_def clause_docs_def)
qed

text \<open>A query over two indexes without common documents is answered by each of them for its own.\<close>

lemma query_docs_union:
  assumes "\<And>d k1 k2. d \<in> D1 k1 \<Longrightarrow> d \<notin> D2 k2"
  shows "query_docs tok (\<lambda>key. D1 key \<union> D2 key) query streams = query_docs tok D1 query streams \<union> query_docs tok D2 query streams"
proof -
  have "d \<in> clause_docs (\<lambda>key. D1 key \<union> D2 key) c \<longleftrightarrow> d \<in> clause_docs D1 c \<or> d \<in> clause_docs D2 c" for d c
  proof (cases "\<exists>key. d \<in> D1 key")
    case True
    then have "\<forall>key. d \<notin> D2 key" using assms by blast
    then show ?thesis
      using clause_docs_at [of d "\<lambda>key. D1 key \<union> D2 key" D1 c] conj_docs_none [of d D2] by (simp add: clause_docs_def)
  next
    case False
    then show ?thesis
      using clause_docs_at [of d "\<lambda>key. D1 key \<union> D2 key" D2 c] conj_docs_none [of d D1] by (simp add: clause_docs_def)
  qed
  then show ?thesis by (auto simp: query_docs_def)
qed

lemma bigram_sound_union: "bigram_sound D1 \<Longrightarrow> bigram_sound D2 \<Longrightarrow> bigram_sound (\<lambda>key. D1 key \<union> D2 key)"
  unfolding bigram_sound_def by blast

context term_source
begin

lemma default_query_reads:
  assumes ok: "ok i" and keys: "\<And>key. 0 \<notin> set key \<Longrightarrow> good_key key" and tok: "tokenizer_clean tok"
    and sound: "bigram_sound (docs i)" and q: "query_plain tok query streams"
  shows "\<exists>r. build_local_reader (runtime i) (Compile tok query streams) = Some r \<and> reads r (doc_order (query_docs tok (docs i) query streams))"
    and "doc_set (query_docs tok (docs i) query streams)"
    and "IsEmpty (Compile tok query streams) \<Longrightarrow> query_docs tok (docs i) query streams = {}"
proof -
  let ?ss = "ParseStreamSet streams" and ?w = "sr_weak_and_build_mode (runtime i)" and ?h = "high_df (runtime i)"
  let ?n = "parse_expression tok query ?ss Default"
  have docs: "opt_docs ?w ?h (docs i) ?n = query_docs tok (docs i) query streams"
    using default_docs [OF sound ParseStreamSet_streams] q by (simp add: query_docs_def query_plain_def)
  have nul: "\<forall>s \<in> set ?ss. nul_free s" using ParseStreamSet_streams text_streams_nul_free by blast
  have tree: "root (Compile tok query streams) = ?n" "vector_query (Compile tok query streams) = []"
    using Compile_root [of query streams tok Default] q by (simp_all add: query_plain_def Compile_def)
  have node: "\<exists>r. build_node (runtime i) m = Some r \<and> reads r (doc_order (opt_docs ?w ?h (docs i) ?n))" if "?n = Some m" for m
  proof -
    from parse_nul_free [OF tok nul that] keys have "\<forall>key \<in> node_keys m. good_key key" by (simp add: node_nul_free_def nul_free_def)
    from build_node_reads [OF ok this] that show ?thesis by (simp add: meaning_def)
  qed
  have "\<exists>r. build_index_reader (runtime i) ?n = Some r \<and> reads r (doc_order (opt_docs ?w ?h (docs i) ?n))"
    using node open_empty [OF ok] by (cases ?n) (auto simp: build_index_reader_def)
  then show "\<exists>r. build_local_reader (runtime i) (Compile tok query streams) = Some r \<and> reads r (doc_order (query_docs tok (docs i) query streams))"
    using tree docs
    by (auto simp: build_local_reader_def IsEmpty_def HasTextQuery_def HasVectorQuery_def build_index_reader_def split: option.splits)
  show "doc_set (query_docs tok (docs i) query streams)"
    unfolding docs [symmetric] using meaning_set [OF ok] by (cases ?n) (auto simp: meaning_def doc_set_def)
  show "query_docs tok (docs i) query streams = {}" if "IsEmpty (Compile tok query streams)"
    unfolding docs [symmetric] using that tree by (auto simp: IsEmpty_def HasTextQuery_def split: option.splits)
qed

text \<open>The reader of an index and the reader of its delta, joined.\<close>

lemma default_delta_reads:
  assumes ok: "ok i" "ok j" and keys: "\<And>key. 0 \<notin> set key \<Longrightarrow> good_key key" and tok: "tokenizer_clean tok"
    and sound: "bigram_sound (docs i)" "bigram_sound (docs j)" and q: "query_plain tok query streams"
  shows "\<exists>r. get_reader (runtime i) (Some (runtime j)) (Compile tok query streams) = Some r \<and>
    reads r (doc_order (query_docs tok (docs i) query streams \<union> query_docs tok (docs j) query streams))"
proof -
  note b = default_query_reads [OF ok(1) keys tok sound(1) q] and d = default_query_reads [OF ok(2) keys tok sound(2) q]
  show ?thesis
  proof (cases "IsEmpty (Compile tok query streams)")
    case True
    then show ?thesis using b(3) d(3) open_empty [OF ok(1)] by (simp add: get_reader_def)
  next
    case False
    from b(1) d(1) obtain r r' where r: "build_local_reader (runtime i) (Compile tok query streams) = Some r"
      "build_local_reader (runtime j) (Compile tok query streams) = Some r'"
      "list_all2 reads [r, r'] [doc_order (query_docs tok (docs i) query streams), doc_order (query_docs tok (docs j) query streams)]"
      by auto
    from or_new_reads [OF r(3)] b(2) d(2)
    have "reads (OrIndexReader_new [r, r']) (doc_order (query_docs tok (docs i) query streams \<union> query_docs tok (docs j) query streams))"
      by (simp add: doc_set_order Un_commute)
    then show ?thesis using False r(1,2) by (simp add: get_reader_def)
  qed
qed

end

end
