(* ===== verification/IndexContext.thy ===== *)
theory IndexContext
  imports QueryRuntime
begin

text \<open>
  The query side of \<open>IndexContext\<close> (\<open>IndexAccess/IndexContext.rs\<close>): the context builds readers with
  functions of its own (\<open>OpenAdvancedReader\<close>, \<open>BuildIndexReader\<close>, \<open>GetReader\<close>), while the search
  workers use the copy of these functions in \<open>SearchRuntime\<close>, on a snapshot taken by \<open>from_context\<close>.
  The theory models the context's functions and shows when both give the same readers: always but for
  a query without words over a delta whose vectors have not been built, which the workers miss.

  The vector index is the list of the documents that were added to it, in order; its search is
  floating point and a field of the record, a function of that list. The index is shared between a
  context and the snapshots of it, so a snapshot stands for what the context holds when a search
  runs. A method that may build the vector index returns the new state of the context.

  A context and its delta context have the same type in the code; a delta context is loaded
  without a delta of its own.
\<close>

record IndexContext =
  m_BlockTable :: IndexBlockTable
  ctx_fetch_leaf :: "u32 \<Rightarrow> bytes option"
  ctx_fetch_index :: "u32 \<Rightarrow> bytes option"
  m_IndexFileHeader :: IndexFileHeader
  m_Store :: PostingStore
  m_DocData :: bytes
  GetAverageStreamLength_positive :: "u8 \<Rightarrow> bool"
  m_WeakAndBuildMode :: WeakAndBuildMode
  m_VectorIndex :: "u64 list"
  m_VectorBuilt :: bool
  VectorSearch :: "u64 list \<Rightarrow> u32 list \<Rightarrow> nat \<Rightarrow> u64 list"

definition DocumentCount :: "IndexContext \<Rightarrow> u64" where
  "DocumentCount ctx = IFH_NumDocuments (m_IndexFileHeader ctx)"

definition HasDelta :: "IndexContext option \<Rightarrow> bool" where
  "HasDelta delta = (case delta of None \<Rightarrow> False | Some d \<Rightarrow> DocumentCount d > 0)"

definition OpenAdvancedReader :: "IndexContext \<Rightarrow> rstr \<Rightarrow> Dyn option" where
  "OpenAdvancedReader ctx streamKey =
     (let stream = (if streamKey = [] then 66 else last streamKey);
          numDocuments = (if IFH_NumDocuments (m_IndexFileHeader ctx) > 0 then IFH_NumDocuments (m_IndexFileHeader ctx)
                          else TotalDocs (m_Store ctx))
      in map_option (dyn_adv (ctx_fetch_index ctx))
           (adv_Open (ctx_fetch_leaf ctx) (ctx_fetch_index ctx) (m_BlockTable ctx) numDocuments
              (GetAverageStreamLength_positive ctx stream) streamKey))"

fun ctx_EstimateDocFreq :: "IndexContext \<Rightarrow> EvalNode \<Rightarrow> u32" where
  "ctx_EstimateDocFreq ctx (TermN t) =
     (case FindTermData (ctx_fetch_leaf ctx) (m_BlockTable ctx) (stream_key t) of
        Some location \<Rightarrow> loc_doc_freq location | None \<Rightarrow> 0)"
| "ctx_EstimateDocFreq ctx (OrN cs) =
     ucast (min (fold (\<lambda>c (total :: u64). total + ucast (ctx_EstimateDocFreq ctx c)) cs 0) 0xFFFFFFFF)"
| "ctx_EstimateDocFreq ctx _ = 0"

definition ctx_high_df :: "IndexContext \<Rightarrow> EvalNode \<Rightarrow> bool" where
  "ctx_high_df ctx node =
     (let docFreq = ctx_EstimateDocFreq ctx node; docCount = DocumentCount ctx
      in docCount > 0 \<and> docFreq > 0 \<and> (ucast docFreq :: u64) > max 100000 (docCount div 5))"

definition ctx_weak_and :: "IndexContext \<Rightarrow> u32 \<Rightarrow> Dyn list \<Rightarrow> Dyn option" where
  "ctx_weak_and ctx min_match children =
     (if children = [] then OpenAdvancedReader ctx []
      else
        let min_should_match =
              (if m_WeakAndBuildMode ctx = FlatPruned then
                 (if length children \<le> 2 then 1 else if length children \<le> 5 then 2 else 3)
               else min min_match (word_of_nat (length children)))
        in if length children = 1 then Some (hd children)
           else WeakAndIndexReader_new children min_should_match)"

function BuildIndexReader :: "IndexContext \<Rightarrow> EvalNode option \<Rightarrow> Dyn option" where
  "BuildIndexReader ctx None = OpenAdvancedReader ctx []"
| "BuildIndexReader ctx (Some (TermN t)) = OpenAdvancedReader ctx (stream_key t)"
| "BuildIndexReader ctx (Some (AndN cs)) =
     (case collect (map (\<lambda>c. BuildIndexReader ctx (Some c)) cs) of
        None \<Rightarrow> None
      | Some v \<Rightarrow>
          if list_ex d_IsEnd v then OpenAdvancedReader ctx []
          else if length v = 1 then Some (hd v)
          else AndIndexReader_new v)"
| "BuildIndexReader ctx (Some (OrN cs)) =
     (case collect (map (\<lambda>c. BuildIndexReader ctx (Some c)) cs) of
        None \<Rightarrow> None
      | Some children \<Rightarrow>
          let v = live_readers children
          in if v = [] then OpenAdvancedReader ctx []
             else if length v = 1 then Some (hd v)
             else Some (OrIndexReader_new v))"
| "BuildIndexReader ctx (Some (WeakAndN cs m)) =
     (case collect (map (\<lambda>c. BuildIndexReader ctx (Some c))
        (if m_WeakAndBuildMode ctx = FlatPruned then FlattenWeakAndNodes (ctx_high_df ctx) False cs else cs)) of
        None \<Rightarrow> None
      | Some rs \<Rightarrow>
          let children = (if m_WeakAndBuildMode ctx \<noteq> OrChildren then live_readers rs else rs)
          in if children = [] \<and> m_WeakAndBuildMode ctx = FlatPruned then
               (case collect (map (\<lambda>c. BuildIndexReader ctx (Some c)) (FlattenWeakAndNodes (ctx_high_df ctx) True cs)) of
                  None \<Rightarrow> None
                | Some rs \<Rightarrow> ctx_weak_and ctx m (live_readers rs))
             else ctx_weak_and ctx m children)"
| "BuildIndexReader ctx (Some (NotN b x)) =
     (case BuildIndexReader ctx (Some b) of
        None \<Rightarrow> None
      | Some base \<Rightarrow>
          (case BuildIndexReader ctx (Some x) of
             None \<Rightarrow> None | Some exclude \<Rightarrow> NotIndexReader_new base exclude))"
| "BuildIndexReader ctx (Some (BoostN b x q)) =
     (case BuildIndexReader ctx (Some b) of
        None \<Rightarrow> None
      | Some base \<Rightarrow>
          if d_IsEnd base then Some base
          else (case BuildIndexReader ctx (Some x) of
                  None \<Rightarrow> None
                | Some boost \<Rightarrow>
                    if d_IsEnd boost then Some base else Some (dyn_boost (boost_new base boost))))"
  by pat_completeness auto
termination
  by (relation "measure (\<lambda>(ctx, n). case n of None \<Rightarrow> 0 | Some n \<Rightarrow> size n)")
    (auto simp: less_Suc_eq_le size_list_estimation' dest: size_FlattenWeakAndNodes split: if_splits)

text \<open>The documents with a vector, read off the document records up to the first one cut off.\<close>

definition vector_documents :: "bytes \<Rightarrow> u64 \<Rightarrow> u64 list" where
  "vector_documents docData numDocuments =
     (let firstDocId = DocDataFirstDocId docData numDocuments;
          slots = takeWhile (\<lambda>slot. slot * DOC_REC_SIZE + DOC_REC_SIZE \<le> length docData) [0..<unat numDocuments];
          valid = (\<lambda>slot. let offset = slot * DOC_REC_SIZE
            in ucast (u32_at docData offset) = firstDocId + word_of_nat slot \<and>
               unat (u16_at docData (offset + 54)) = DOC_VECTOR_DIM \<and> u16_at docData (offset + 56) \<noteq> 0)
      in map (\<lambda>slot. firstDocId + word_of_nat slot) (filter valid slots))"

definition BuildVectorRuntime :: "IndexContext \<Rightarrow> IndexContext" where
  "BuildVectorRuntime ctx =
     (if m_VectorBuilt ctx then ctx
      else ctx\<lparr>m_VectorIndex := vector_documents (m_DocData ctx) (IFH_NumDocuments (m_IndexFileHeader ctx)),
               m_VectorBuilt := True\<rparr>)"

definition BuildVectorIndexReader :: "IndexContext \<Rightarrow> u32 list \<Rightarrow> nat \<Rightarrow> Dyn \<times> IndexContext" where
  "BuildVectorIndexReader ctx query efSearch =
     (let ctx = BuildVectorRuntime ctx
      in (dyn_vec (VectorIndexReader_new (VectorSearch ctx (m_VectorIndex ctx) query efSearch)), ctx))"

definition BuildLocalReader :: "IndexContext \<Rightarrow> EvalTree \<Rightarrow> Dyn option \<times> IndexContext" where
  "BuildLocalReader ctx tree =
     (if IsEmpty tree then (OpenAdvancedReader ctx [], ctx)
      else if HasTextQuery tree \<and> HasVectorQuery tree then (BuildIndexReader ctx (root tree), ctx)
      else if HasVectorQuery tree
      then map_prod Some id (BuildVectorIndexReader ctx (vector_query tree) (vector_ef_search tree))
      else (BuildIndexReader ctx (root tree), ctx))"

definition GetReader ::
  "IndexContext \<Rightarrow> IndexContext option \<Rightarrow> EvalTree \<Rightarrow> Dyn option \<times> IndexContext \<times> IndexContext option" where
  "GetReader ctx delta tree =
     (if IsEmpty tree then (OpenAdvancedReader ctx [], ctx, delta)
      else
        case BuildLocalReader ctx tree of
          (None, ctx) \<Rightarrow> (None, ctx, delta)
        | (Some baseReader, ctx) \<Rightarrow>
            if HasDelta delta
            then (case BuildLocalReader (the delta) tree of
                    (r, d) \<Rightarrow> (map_option (\<lambda>r. OrIndexReader_new [baseReader, r]) r, ctx, Some d))
            else (Some baseReader, ctx, delta))"

definition GetReaderForQuery ::
  "(rstr \<Rightarrow> rstr list) \<Rightarrow> IndexContext \<Rightarrow> IndexContext option \<Rightarrow> rstr \<Rightarrow> rstr \<Rightarrow>
   Dyn option \<times> IndexContext \<times> IndexContext option" where
  "GetReaderForQuery tok ctx delta query stream_set = GetReader ctx delta (Compile tok query stream_set)"

definition GetStreamReader :: "IndexContext \<Rightarrow> IndexContext option \<Rightarrow> rstr \<Rightarrow> Dyn option" where
  "GetStreamReader ctx delta key =
     (case OpenAdvancedReader ctx key of
        None \<Rightarrow> None
      | Some baseReader \<Rightarrow>
          if HasDelta delta
          then map_option (\<lambda>r. OrIndexReader_new [baseReader, r]) (OpenAdvancedReader (the delta) key)
          else Some baseReader)"

definition GetStreamDocFreq :: "IndexContext \<Rightarrow> IndexContext option \<Rightarrow> rstr \<Rightarrow> u32" where
  "GetStreamDocFreq ctx delta key =
     (let freq = (\<lambda>c. case FindTermData (ctx_fetch_leaf c) (m_BlockTable c) key of
                   Some location \<Rightarrow> ucast (loc_doc_freq location) | None \<Rightarrow> (0 :: u64));
          total = freq ctx + (case delta of None \<Rightarrow> 0 | Some d \<Rightarrow> ucast (ucast (min (freq d) 0xFFFFFFFF) :: u32))
      in ucast (min total 0xFFFFFFFF))"

subsection \<open>The snapshot for the workers\<close>

definition from_context :: "IndexContext \<Rightarrow> SearchRuntime" where
  "from_context ctx =
     \<lparr>sr_block_table = m_BlockTable ctx, sr_fetch_leaf = ctx_fetch_leaf ctx, sr_fetch_index = ctx_fetch_index ctx,
      sr_header_documents = IFH_NumDocuments (m_IndexFileHeader ctx), sr_store_documents = TotalDocs (m_Store ctx),
      sr_average_positive = GetAverageStreamLength_positive ctx, sr_weak_and_build_mode = m_WeakAndBuildMode ctx,
      sr_vector_search = VectorSearch ctx (m_VectorIndex ctx)\<rparr>"

definition delta_runtime :: "IndexContext option \<Rightarrow> SearchRuntime option" where
  "delta_runtime delta = (if HasDelta delta then map_option from_context delta else None)"

text \<open>
  What \<open>EnsureSearchWorkersStarted\<close> gives the worker threads: it builds the vectors of the context
  before it takes the snapshot, but not those of the delta.
\<close>

definition worker_runtime :: "IndexContext \<Rightarrow> IndexContext option \<Rightarrow> SearchRuntime \<times> SearchRuntime option" where
  "worker_runtime ctx delta = (from_context (BuildVectorRuntime ctx), delta_runtime delta)"

lemma from_context_simps [simp]:
  "sr_block_table (from_context ctx) = m_BlockTable ctx" "sr_fetch_leaf (from_context ctx) = ctx_fetch_leaf ctx"
  "sr_fetch_index (from_context ctx) = ctx_fetch_index ctx"
  "sr_header_documents (from_context ctx) = IFH_NumDocuments (m_IndexFileHeader ctx)"
  "sr_store_documents (from_context ctx) = TotalDocs (m_Store ctx)"
  "sr_average_positive (from_context ctx) = GetAverageStreamLength_positive ctx"
  "sr_weak_and_build_mode (from_context ctx) = m_WeakAndBuildMode ctx"
  "sr_vector_search (from_context ctx) = VectorSearch ctx (m_VectorIndex ctx)"
  by (simp_all add: from_context_def)

lemma OpenAdvancedReader_same: "OpenAdvancedReader ctx key = open_advanced_reader (from_context ctx) key"
  by (simp add: OpenAdvancedReader_def open_advanced_reader_def)

lemma EstimateDocFreq_same: "ctx_EstimateDocFreq ctx n = EstimateDocFreq (from_context ctx) n"
proof (induction ctx n rule: ctx_EstimateDocFreq.induct)
  case (2 ctx cs)
  have "fold (\<lambda>c (total :: u64). total + ucast (ctx_EstimateDocFreq ctx c)) cs 0 =
      fold (\<lambda>c total. total + ucast (EstimateDocFreq (from_context ctx) c)) cs 0"
    using 2 by (intro fold_cong) auto
  then show ?case by simp
qed simp_all

lemma high_df_same: "ctx_high_df ctx = high_df (from_context ctx)"
  by (simp add: fun_eq_iff ctx_high_df_def high_df_def EstimateDocFreq_same DocumentCount_def)

lemma weak_and_same: "ctx_weak_and ctx m rs = weak_and_reader (from_context ctx) m rs"
  by (simp add: ctx_weak_and_def weak_and_reader_def OpenAdvancedReader_same)

text \<open>The part of a runtime that searches words does not depend on its vectors.\<close>

definition same_words :: "IndexContext \<Rightarrow> SearchRuntime \<Rightarrow> bool" where
  "same_words ctx rt \<longleftrightarrow> OpenAdvancedReader ctx = open_advanced_reader rt \<and> ctx_high_df ctx = high_df rt \<and>
     ctx_weak_and ctx = weak_and_reader rt \<and> m_WeakAndBuildMode ctx = sr_weak_and_build_mode rt"

lemma same_words_from_context: "same_words ctx (from_context ctx)"
  by (simp add: same_words_def OpenAdvancedReader_same high_df_same weak_and_same fun_eq_iff)

lemma EstimateDocFreq_vectors: "EstimateDocFreq (rt\<lparr>sr_vector_search := v\<rparr>) n = EstimateDocFreq rt n"
proof (induction rt n rule: EstimateDocFreq.induct)
  case (2 rt cs)
  have "fold (\<lambda>c (total :: u64). total + ucast (EstimateDocFreq (rt\<lparr>sr_vector_search := v\<rparr>) c)) cs 0 =
      fold (\<lambda>c total. total + ucast (EstimateDocFreq rt c)) cs 0"
    using 2 by (intro fold_cong) auto
  then show ?case by simp
qed simp_all

lemma same_words_vectors: "same_words ctx rt \<Longrightarrow> same_words ctx (rt\<lparr>sr_vector_search := v\<rparr>)"
  by (simp add: same_words_def fun_eq_iff open_advanced_reader_def high_df_def EstimateDocFreq_vectors weak_and_reader_def)

lemma BuildIndexReader_same: "same_words ctx rt \<Longrightarrow> BuildIndexReader ctx n = build_index_reader rt n"
proof (induction ctx n rule: BuildIndexReader.induct)
  case (3 ctx cs)
  then have eq: "map (\<lambda>c. BuildIndexReader ctx (Some c)) cs = map (build_node rt) cs"
    by (simp add: build_index_reader_def)
  show ?case using 3(2) unfolding BuildIndexReader.simps eq
    by (simp add: build_index_reader_def and_reader_def same_words_def split: option.splits)
next
  case (4 ctx cs)
  then have eq: "map (\<lambda>c. BuildIndexReader ctx (Some c)) cs = map (build_node rt) cs"
    by (simp add: build_index_reader_def)
  show ?case using 4(2) unfolding BuildIndexReader.simps eq
    by (simp add: build_index_reader_def or_reader_def same_words_def Let_def split: option.splits)
next
  case (5 ctx cs m)
  let ?nodes = "if m_WeakAndBuildMode ctx = FlatPruned then FlattenWeakAndNodes (ctx_high_df ctx) False cs else cs"
  have first: "map (\<lambda>c. BuildIndexReader ctx (Some c)) ?nodes = map (build_node rt) ?nodes"
    using 5(1) 5(3) by (simp add: build_index_reader_def)
  have w: "ctx_high_df ctx = high_df rt" "ctx_weak_and ctx = weak_and_reader rt" "sr_weak_and_build_mode rt = m_WeakAndBuildMode ctx"
    using 5(3) by (simp_all add: same_words_def)
  show ?case
  proof (cases "collect (map (build_node rt) ?nodes)")
    case None
    then show ?thesis
      unfolding BuildIndexReader.simps first
      by (cases "m_WeakAndBuildMode ctx = FlatPruned") (simp_all add: build_index_reader_def w)
  next
    case (Some rs)
    let ?children = "if m_WeakAndBuildMode ctx \<noteq> OrChildren then live_readers rs else rs"
    have again: "collect (map (\<lambda>c. BuildIndexReader ctx (Some c)) (FlattenWeakAndNodes (ctx_high_df ctx) True cs)) =
        collect (map (build_node rt) (FlattenWeakAndNodes (ctx_high_df ctx) True cs))"
      if "?children = [] \<and> m_WeakAndBuildMode ctx = FlatPruned"
    proof -
      have "map (\<lambda>c. BuildIndexReader ctx (Some c)) (FlattenWeakAndNodes (ctx_high_df ctx) True cs) =
          map (build_node rt) (FlattenWeakAndNodes (ctx_high_df ctx) True cs)"
        using 5(2) [OF _ refl that] 5(3) Some first by (simp add: build_index_reader_def)
      then show ?thesis by (rule arg_cong)
    qed
    show ?thesis
    proof (cases "m_WeakAndBuildMode ctx")
      case FlatPruned
      then show ?thesis
        using Some again unfolding BuildIndexReader.simps first
        by (cases "live_readers rs = []") (simp_all add: build_index_reader_def w Let_def split: option.split)
    qed (use Some first in \<open>simp_all add: build_index_reader_def w Let_def del: map_eq_conv\<close>)
  qed
qed (simp_all add: build_index_reader_def same_words_def split: option.splits)

lemma BuildVectorRuntime_simps [simp]:
  "m_BlockTable (BuildVectorRuntime ctx) = m_BlockTable ctx" "ctx_fetch_leaf (BuildVectorRuntime ctx) = ctx_fetch_leaf ctx"
  "ctx_fetch_index (BuildVectorRuntime ctx) = ctx_fetch_index ctx" "m_IndexFileHeader (BuildVectorRuntime ctx) = m_IndexFileHeader ctx"
  "m_Store (BuildVectorRuntime ctx) = m_Store ctx" "m_WeakAndBuildMode (BuildVectorRuntime ctx) = m_WeakAndBuildMode ctx"
  "GetAverageStreamLength_positive (BuildVectorRuntime ctx) = GetAverageStreamLength_positive ctx"
  "VectorSearch (BuildVectorRuntime ctx) = VectorSearch ctx" "m_VectorBuilt (BuildVectorRuntime ctx)"
  "BuildVectorRuntime (BuildVectorRuntime ctx) = BuildVectorRuntime ctx"
  by (simp_all add: BuildVectorRuntime_def)

lemma BuildVectorRuntime_built: "m_VectorBuilt ctx \<Longrightarrow> BuildVectorRuntime ctx = ctx"
  by (simp add: BuildVectorRuntime_def)

text \<open>Only the vector index of the snapshot depends on whether the vectors were built.\<close>

lemma from_context_built:
  "from_context (BuildVectorRuntime ctx) =
     (from_context ctx)\<lparr>sr_vector_search := VectorSearch ctx (m_VectorIndex (BuildVectorRuntime ctx))\<rparr>"
  by (simp add: from_context_def)

definition vector_only :: "EvalTree \<Rightarrow> bool" where
  "vector_only tree \<longleftrightarrow> HasVectorQuery tree \<and> \<not> HasTextQuery tree"

lemma BuildLocalReader_same:
  assumes "same_words ctx rt"
    and "vector_only tree \<Longrightarrow> sr_vector_search rt = VectorSearch ctx (m_VectorIndex (BuildVectorRuntime ctx))"
  shows "fst (BuildLocalReader ctx tree) = build_local_reader rt tree"
  using assms(1) BuildIndexReader_same [OF assms(1)] assms(2)
  by (simp add: BuildLocalReader_def build_local_reader_def same_words_def vector_only_def BuildVectorIndexReader_def Let_def)

text \<open>The vectors of the delta are what they would be after building them.\<close>

definition vectors_current :: "IndexContext option \<Rightarrow> bool" where
  "vectors_current delta =
     (case delta of None \<Rightarrow> True | Some d \<Rightarrow> m_VectorIndex (BuildVectorRuntime d) = m_VectorIndex d)"

lemma GetReader_same:
  assumes "rt = from_context ctx \<and> \<not> vector_only tree \<or> rt = from_context (BuildVectorRuntime ctx)"
    and "\<not> vector_only tree \<or> vectors_current delta"
  shows "get_reader rt (delta_runtime delta) tree = fst (GetReader ctx delta tree)"
proof -
  have words: "same_words ctx rt"
    using assms(1) same_words_from_context same_words_vectors [OF same_words_from_context] by (auto simp: from_context_built)
  have base: "fst (BuildLocalReader ctx tree) = build_local_reader rt tree"
    using assms(1) by (intro BuildLocalReader_same [OF words]) auto
  have delta: "fst (BuildLocalReader d tree) = build_local_reader (from_context d) tree" if "delta = Some d" for d
    using assms(2) that by (intro BuildLocalReader_same [OF same_words_from_context]) (auto simp: vectors_current_def)
  have empty: "OpenAdvancedReader ctx [] = open_advanced_reader rt []" using words by (simp add: same_words_def)
  show ?thesis
    using base delta empty
    by (cases delta; cases "BuildLocalReader ctx tree"; cases "BuildLocalReader (the delta) tree")
      (auto simp: get_reader_def GetReader_def delta_runtime_def HasDelta_def split: option.splits)
qed

text \<open>
  C24. The worker threads search as the context does: on the snapshot of a context and its delta that the
  workers are started with, \<open>get_reader\<close> builds the same reader as \<open>GetReader\<close> on the context itself, for
  every query tree with words, and for a tree of vectors only when the vectors of the delta are built
  (the context builds those of a delta on its first such search, the workers never do).
\<close>

theorem get_reader_same:
  assumes "worker_runtime ctx delta = (rt, delta_rt)" and "\<not> vector_only tree \<or> vectors_current delta"
  shows "get_reader rt delta_rt tree = fst (GetReader ctx delta tree)"
  using GetReader_same [of rt ctx tree delta] assms by (auto simp: worker_runtime_def)

text \<open>A context with the vectors of some documents, all of them found by every search.\<close>

definition vector_context :: "u64 list \<Rightarrow> IndexContext" where
  "vector_context docs =
     \<lparr>m_BlockTable = IndexBlockTable_new, ctx_fetch_leaf = (\<lambda>_. None), ctx_fetch_index = (\<lambda>_. None),
      m_IndexFileHeader = IndexFileHeader_default\<lparr>IFH_NumDocuments := 1\<rparr>, m_Store = PostingStore_new, m_DocData = [],
      GetAverageStreamLength_positive = (\<lambda>_. True), m_WeakAndBuildMode = FlatPruned,
      m_VectorIndex = docs, m_VectorBuilt = True, VectorSearch = (\<lambda>docs _ _. docs)\<rparr>"


lemma vector_context_documents: "0 < DocumentCount (vector_context docs)"
  by (simp add: vector_context_def DocumentCount_def)

lemma vector_context_current: "vectors_current (Some (vector_context docs))"
  by (simp add: vectors_current_def vector_context_def BuildVectorRuntime_def)

text \<open>A query of one vector over an index and its delta: the workers deliver the documents of both.\<close>

theorem get_reader_same_witness:
  "\<exists>r. get_reader (from_context (vector_context [3])) (Some (from_context (vector_context [7])))
      ((EvalTree_new None)\<lparr>vector_query := [0]\<rparr>) = Some r \<and>
    fst (GetReader (vector_context [3]) (Some (vector_context [7])) ((EvalTree_new None)\<lparr>vector_query := [0]\<rparr>)) = Some r \<and>
    reads r [3, 7]"
proof -
  let ?tree = "(EvalTree_new None)\<lparr>vector_query := [0]\<rparr>" and ?b = "vector_context [3]" and ?d = "vector_context [7]"
  let ?r = "OrIndexReader_new [dyn_vec (VectorIndexReader_new [3]), dyn_vec (VectorIndexReader_new [7])]"
  have tree: "HasVectorQuery ?tree" "\<not> HasTextQuery ?tree" "\<not> IsEmpty ?tree"
    by (simp_all add: EvalTree_new_def HasVectorQuery_def HasTextQuery_def IsEmpty_def)
  have built: "BuildVectorRuntime (vector_context docs) = vector_context docs" for docs
    by (simp add: BuildVectorRuntime_def vector_context_def)
  have worker: "worker_runtime ?b (Some ?d) = (from_context ?b, Some (from_context ?d))"
    using vector_context_documents by (simp add: worker_runtime_def built delta_runtime_def HasDelta_def)
  have search: "VectorSearch (vector_context docs) (m_VectorIndex (vector_context docs)) q ef = docs" for docs q ef
    by (simp add: vector_context_def)
  have reader: "get_reader (from_context ?b) (Some (from_context ?d)) ?tree = Some ?r"
    using tree by (simp add: get_reader_def build_local_reader_def search)
  have order: "doc_order {d} = [d]" for d :: u64 by (simp add: doc_order_def)
  have parts: "list_all2 reads [dyn_vec (VectorIndexReader_new [3]), dyn_vec (VectorIndexReader_new [7])] [[3], [7]]"
    using VectorIndexReader_reads [of "[3]"] VectorIndexReader_reads [of "[7]"] by (simp add: NO_MORE_DOCS_def order)
  have "doc_order (\<Union>ds \<in> set [[3 :: u64], [7]]. set ds) = [3, 7]"
  proof -
    have "(\<Union>ds \<in> set [[3 :: u64], [7]]. set ds) = set [3, 7]" by auto
    then show ?thesis using doc_order_set [of "[3, 7]"] by (simp add: doc_list_def NO_MORE_DOCS_def)
  qed
  then have "reads ?r [3, 7]"
    using or_new_reads [OF parts] by (simp add: doc_list_def NO_MORE_DOCS_def)
  moreover have "fst (GetReader ?b (Some ?d) ?tree) = Some ?r"
    using get_reader_same [OF worker, of ?tree] vector_context_current reader by simp
  ultimately show ?thesis using reader by blast
qed

text \<open>
  Right after loading, the vector index of the delta is empty and not built, and an empty index finds
  nothing: the workers then find no document of the delta, while the context builds the index and
  searches all its documents. From its first such search on the workers find them too, since the
  snapshot shares the index.
\<close>

lemma workers_miss_delta_vectors:
  assumes "vector_only tree" and "\<not> m_VectorBuilt d" and "m_VectorIndex d = []" and "\<And>q ef. VectorSearch d [] q ef = []"
  shows "build_local_reader (from_context d) tree = Some (dyn_vec (VectorIndexReader_new []))"
    and "fst (BuildLocalReader d tree) = Some (dyn_vec (VectorIndexReader_new
      (VectorSearch d (vector_documents (m_DocData d) (IFH_NumDocuments (m_IndexFileHeader d))) (vector_query tree) (vector_ef_search tree))))"
  using assms
  by (simp_all add: build_local_reader_def BuildLocalReader_def BuildVectorIndexReader_def BuildVectorRuntime_def vector_only_def
      IsEmpty_def Let_def)

lemma GetReader_builds_delta:
  assumes "vector_only tree" and "HasDelta delta"
  shows "vectors_current (snd (snd (GetReader ctx delta tree)))"
  using assms
  by (auto simp: GetReader_def BuildLocalReader_def BuildVectorIndexReader_def vector_only_def IsEmpty_def vectors_current_def Let_def
      split: option.splits prod.splits)

end
