(* ===== verification/IndexMerge.thy ===== *)
theory IndexMerge
  imports AdvancedReader
begin

text \<open>
  The merge of an index with its delta (\<open>LeafTermBlockView\<close>, \<open>DumpBatch\<close> and the loop of \<open>Merge\<close> in
  \<open>IndexAccess/IndexContext.rs\<close>): two cursors walk the dictionaries of the two indexes in term order,
  the posting lists of a term are concatenated, and a writer lays them out over batches of pages that
  are dumped to three files.

  The struct \<open>LeafTermBlockView\<close> serves as cursor and as writer, with disjoint sets of fields; the
  model has one record for each. The block table of a cursor is represented by \<open>GetBlock\<close> on its two
  pools. A file under construction is the sequence of the bytes written to it.

  Indices into the pages of a batch are guarded by the code, so that none of them is out of range.
\<close>

subsection \<open>Scanning pairs\<close>

definition ReadVbPairEnd :: "bytes \<Rightarrow> nat \<Rightarrow> nat option" where
  "ReadVbPairEnd data offset =
     (case vb_skip data offset of None \<Rightarrow> None | Some offset \<Rightarrow> vb_skip data offset)"

lemma ReadVbPairEnd_greater: "ReadVbPairEnd data offset = Some p \<Longrightarrow> offset < p"
  by (auto simp: ReadVbPairEnd_def dest!: vb_skip_greater split: option.splits)

function posting_split_loop :: "bytes \<Rightarrow> nat \<Rightarrow> nat \<Rightarrow> nat" where
  "posting_split_loop data limit cursor =
     (if cursor < limit then
        case ReadVbPairEnd data cursor of
          None \<Rightarrow> cursor
        | Some c \<Rightarrow> if c > limit then cursor else posting_split_loop data limit c
      else cursor)"
  by pat_completeness auto
termination
  by (relation "measure (\<lambda>(data, limit, cursor). limit - cursor)") (auto dest: ReadVbPairEnd_greater)

declare posting_split_loop.simps [simp del]

text \<open>As in \<open>PostingPrefixBytes\<close>, \<open>lastPairEnd\<close> equals \<open>cursor\<close> at the top of the loop.\<close>

definition PostingSplitLength :: "bytes \<Rightarrow> nat \<Rightarrow> nat" where
  "PostingSplitLength data capacity =
     (if length data \<le> capacity then length data
      else posting_split_loop data (min (length data) capacity) 0)"

text \<open>\<open>VbReadLocal\<close> has the same loop as \<open>VbRead\<close>.\<close>

definition VbReadLocal :: "bytes \<Rightarrow> nat \<Rightarrow> u64 \<times> nat" where
  "VbReadLocal data start = (case vb_read_loop data start 0 0 of (val, pos) \<Rightarrow> (val, pos - start))"

lemma vb_read_loop_mono: "start \<le> snd (vb_read_loop data start val shift)"
  by (induction data start val shift rule: vb_read_loop.induct) (subst vb_read_loop.simps, force simp: Let_def)

lemma VbReadLocal_pos: "start < length data \<Longrightarrow> VbReadLocal data start = (val, n) \<Longrightarrow> 0 < n"
  using vb_read_loop_mono [of "start + 1" data]
  by (subst (asm) VbReadLocal_def, subst (asm) vb_read_loop.simps)
    (auto simp: Let_def Suc_le_eq split: prod.splits if_splits, metis Suc_le_eq snd_conv)

function merge_max_loop :: "bytes \<Rightarrow> nat \<Rightarrow> u64 \<Rightarrow> u64" where
  "merge_max_loop data cursor maxDocID =
     (if cursor < length data then
        case VbReadLocal data cursor of
          (docID, docBytes) \<Rightarrow>
            if cursor + docBytes \<ge> length data then maxDocID
            else case VbReadLocal data (cursor + docBytes) of
              (tf, tfBytes) \<Rightarrow> merge_max_loop data (cursor + docBytes + tfBytes) docID
      else maxDocID)"
  by pat_completeness auto
termination
proof (relation "measure (\<lambda>(data, cursor, m). length data - cursor)", goal_cases)
  case (2 data cursor maxDocID docID docBytes tf tfBytes)
  then show ?case using VbReadLocal_pos [of cursor data docID docBytes] by simp
qed simp

declare merge_max_loop.simps [simp del]

definition merge_MaxDocIDInPairs :: "bytes \<Rightarrow> u64" where
  "merge_MaxDocIDInPairs data = merge_max_loop data 0 0"

subsection \<open>The cursor over a dictionary\<close>

record LeafTermBlockView =
  v_LeafPages :: "u32 \<Rightarrow> bytes option"
  v_IndexPages :: "u32 \<Rightarrow> bytes option"
  v_LeafTermBlockCount :: u32
  v_LeafBlockID :: u32
  v_EntryIndex :: nat
  v_CurrentLeaf :: "LeafTermBlock option"
  v_CurrentEntry :: "LeafTermEntry option"

lemma unat_next: "(a :: u32) < b \<Longrightarrow> unat (a + 1) = Suc (unat a)"
  using unat_bound [of b] by (simp add: word_less_nat_alt unat_word_ariths)

function go_current :: "LeafTermBlockView \<Rightarrow> LeafTermBlockView" where
  "go_current v =
     (if v_LeafBlockID v < v_LeafTermBlockCount v then
        case (case v_CurrentLeaf v of
                None \<Rightarrow> map_option leaf_view (v_LeafPages v (v_LeafBlockID v))
              | Some leaf \<Rightarrow> Some leaf) of
          None \<Rightarrow> v
        | Some leaf \<Rightarrow>
            if v_EntryIndex v < entry_count leaf then
              v\<lparr>v_CurrentLeaf := Some leaf, v_CurrentEntry := leaf_entry leaf (v_EntryIndex v)\<rparr>
            else go_current (v\<lparr>v_CurrentLeaf := None, v_LeafBlockID := v_LeafBlockID v + 1, v_EntryIndex := 0\<rparr>)
      else v)"
  by pat_completeness auto
termination
proof (relation "measure (\<lambda>v. unat (v_LeafTermBlockCount v) - unat (v_LeafBlockID v))", simp)
  fix v leaf assume "v_LeafBlockID v < v_LeafTermBlockCount v"
  then have "unat (v_LeafBlockID v) < unat (v_LeafTermBlockCount v)" "unat (v_LeafBlockID v + 1) = Suc (unat (v_LeafBlockID v))"
    by (simp_all add: unat_next) (simp add: word_less_nat_alt)
  then show "(v\<lparr>v_CurrentLeaf := None, v_LeafBlockID := v_LeafBlockID v + 1, v_EntryIndex := 0\<rparr>, v)
      \<in> measure (\<lambda>v. unat (v_LeafTermBlockCount v) - unat (v_LeafBlockID v))" by simp
qed

declare go_current.simps [simp del]

definition GoCurrent :: "LeafTermBlockView \<Rightarrow> LeafTermBlockView" where
  "GoCurrent v = go_current (v\<lparr>v_CurrentEntry := None\<rparr>)"

definition LeafTermBlockView_new ::
  "(u32 \<Rightarrow> bytes option) \<Rightarrow> (u32 \<Rightarrow> bytes option) \<Rightarrow> u32 \<Rightarrow> LeafTermBlockView" where
  "LeafTermBlockView_new leaf_pages index_pages leaf_count =
     GoCurrent \<lparr>v_LeafPages = leaf_pages, v_IndexPages = index_pages, v_LeafTermBlockCount = leaf_count,
       v_LeafBlockID = 0, v_EntryIndex = 0, v_CurrentLeaf = None, v_CurrentEntry = None\<rparr>"

abbreviation Current :: "LeafTermBlockView \<Rightarrow> LeafTermEntry option" where
  "Current v \<equiv> v_CurrentEntry v"

definition Advance :: "LeafTermBlockView \<Rightarrow> LeafTermBlockView" where
  "Advance v = (if Current v = None then v else GoCurrent (v\<lparr>v_EntryIndex := v_EntryIndex v + 1\<rparr>))"

definition current_term :: "LeafTermBlockView \<Rightarrow> rstr" where
  "current_term v = (case Current v of None \<Rightarrow> [] | Some e \<Rightarrow> LTE_Term e)"

definition LessThan :: "LeafTermBlockView \<Rightarrow> LeafTermBlockView \<Rightarrow> bool" where
  "LessThan v other \<longleftrightarrow> current_term v < current_term other"

fun posting_conts :: "(u32 \<Rightarrow> bytes option) \<Rightarrow> u32 \<Rightarrow> u32 list \<Rightarrow> bytes \<Rightarrow> bytes option" where
  "posting_conts pages first [] bytes = Some bytes"
| "posting_conts pages first (offset # offsets) bytes =
     (case pages (first + 1 + offset) of
        None \<Rightarrow> None
      | Some block \<Rightarrow>
          (case ibch_from_bytes block of
             None \<Rightarrow> None
           | Some header \<Rightarrow>
               let dataEnd = INDEX_BLOCK_CONTINUATION_HEADER_SIZE + unat (IBCH_DataLength header)
               in if dataEnd > PAGE_SIZE then None
                  else posting_conts pages first offsets
                         (bytes @ subslice INDEX_BLOCK_CONTINUATION_HEADER_SIZE dataEnd block)))"

definition PostingBytes :: "LeafTermBlockView \<Rightarrow> bytes option" where
  "PostingBytes v =
     (case Current v of
        None \<Rightarrow> None
      | Some e \<Rightarrow>
          (case v_IndexPages v (LTE_IndexBlockID e) of
             None \<Rightarrow> None
           | Some page \<Rightarrow>
               let start = unat (LTE_IndexOffset e); stop = start + unat (LTE_IndexLength e)
               in if stop > PAGE_SIZE then None
                  else posting_conts (v_IndexPages v) (LTE_IndexBlockID e)
                         (map word_of_nat [0..<unat (LTE_ContinuationBlockCount e)]) (subslice start stop page)))"

subsection \<open>The writer\<close>

definition POSTING_SCRATCH_BYTES :: nat where "POSTING_SCRATCH_BYTES = 2000 * PAGE_SIZE"

record LeafTermBlockWriter =
  w_LeafTermBlockCount :: u32
  w_IndexBlockCount :: u32
  w_LeafBlocks :: "LeafTermBlock list"
  w_IndexBlocks :: "bytes list"
  w_PostingIndexBlockID :: u32
  w_PostingIndexOffset :: nat
  w_PostingIndexLength :: nat
  w_PostingContinuationBlockCount :: u32
  w_DocFreq :: u32
  w_LeafBlockID :: u32
  w_LeafWriteOffset :: nat
  w_LeafEntryCount :: nat
  w_IndexBlockID :: u32
  w_IndexOffsetInBlock :: nat
  w_IndexBlockBase :: u32
  w_HasIndexWrite :: bool

definition new_write :: "u32 \<Rightarrow> u32 \<Rightarrow> LeafTermBlockWriter" where
  "new_write leaf_term_block_count index_block_count =
     \<lparr>w_LeafTermBlockCount = leaf_term_block_count, w_IndexBlockCount = index_block_count,
      w_LeafBlocks = replicate (unat leaf_term_block_count) LeafTermBlock_default,
      w_IndexBlocks = replicate (unat index_block_count) (replicate PAGE_SIZE 0),
      w_PostingIndexBlockID = 0, w_PostingIndexOffset = 0, w_PostingIndexLength = 0,
      w_PostingContinuationBlockCount = 0, w_DocFreq = 0, w_LeafBlockID = 0, w_LeafWriteOffset = 0,
      w_LeafEntryCount = 0, w_IndexBlockID = 0, w_IndexOffsetInBlock = 0, w_IndexBlockBase = 0,
      w_HasIndexWrite = False\<rparr>"

text \<open>The entry would start a new leaf page.\<close>

definition leaf_full :: "LeafTermEntry \<Rightarrow> LeafTermBlockWriter \<Rightarrow> bool" where
  "leaf_full source w \<longleftrightarrow> w_LeafEntryCount w > 0 \<and>
     (w_LeafEntryCount w \<ge> LEAF_TERM_DIRECTORY_COUNT - 1 \<or>
      w_LeafWriteOffset w + lte_byte_len source > PAGE_SIZE - LEAF_TERM_DATA_OFFSET)"

definition CanAddLeafTermEntry :: "LeafTermBlockView \<Rightarrow> LeafTermBlockWriter \<Rightarrow> bool" where
  "CanAddLeafTermEntry cursor w =
     (case Current cursor of
        None \<Rightarrow> False
      | Some source \<Rightarrow>
          if length (LTE_Term source) > HEAD_TERM_KEY_MAX then True
          else if lte_byte_len source > PAGE_SIZE - LEAF_TERM_DATA_OFFSET then False
          else (if leaf_full source w then w_LeafBlockID w + 1 else w_LeafBlockID w) < w_LeafTermBlockCount w)"

text \<open>The number of entries in the last slot of the directory of the current leaf page.\<close>

definition set_entry_count :: "LeafTermBlockWriter \<Rightarrow> LeafTermBlockWriter" where
  "set_entry_count w =
     (let i = unat (w_LeafBlockID w); leaf = w_LeafBlocks w ! i
      in w\<lparr>w_LeafBlocks := (w_LeafBlocks w)[i := leaf\<lparr>LTB_Directory :=
             (LTB_Directory leaf)[LEAF_TERM_DIRECTORY_COUNT - 1 := word_of_nat (w_LeafEntryCount w)]\<rparr>]\<rparr>)"

definition merged_entry :: "LeafTermEntry \<Rightarrow> LeafTermBlockWriter \<Rightarrow> LeafTermEntry" where
  "merged_entry source w =
     \<lparr>LTE_Term = LTE_Term source, LTE_DocFreq = w_DocFreq w,
      LTE_IndexBlockID = w_IndexBlockBase w + w_PostingIndexBlockID w,
      LTE_IndexOffset = word_of_nat (w_PostingIndexOffset w), LTE_IndexLength = word_of_nat (w_PostingIndexLength w),
      LTE_ContinuationBlockCount = ucast (w_PostingContinuationBlockCount w),
      LTE_Flags = LTE_Flags source, LTE_TermLength = LTE_TermLength source\<rparr>"

definition AddLeafTermEntry :: "LeafTermBlockView \<Rightarrow> LeafTermBlockWriter \<Rightarrow> bool \<times> LeafTermBlockWriter" where
  "AddLeafTermEntry cursor w =
     (case Current cursor of
        None \<Rightarrow> (False, w)
      | Some source \<Rightarrow>
          if length (LTE_Term source) > HEAD_TERM_KEY_MAX then (True, w)
          else
            let w = (if leaf_full source w then
                       (set_entry_count w)\<lparr>w_LeafBlockID := w_LeafBlockID w + 1, w_LeafWriteOffset := 0, w_LeafEntryCount := 0\<rparr>
                     else w)
            in if w_LeafBlockID w \<ge> w_LeafTermBlockCount w \<or> lte_byte_len source > PAGE_SIZE - LEAF_TERM_DATA_OFFSET
               then (False, w)
               else
                 let i = unat (w_LeafBlockID w);
                     w = w\<lparr>w_LeafBlocks := (w_LeafBlocks w)[i := WriteLeafEntry (w_LeafBlocks w ! i) (w_LeafEntryCount w)
                                                              (w_LeafWriteOffset w) (merged_entry source w)],
                           w_LeafWriteOffset := w_LeafWriteOffset w + lte_byte_len source,
                           w_LeafEntryCount := w_LeafEntryCount w + 1\<rparr>
                 in (True, (set_entry_count w)\<lparr>w_PostingIndexLength := 0, w_PostingContinuationBlockCount := 0\<rparr>))"

lemma posting_split_loop_le: "cursor \<le> limit \<Longrightarrow> posting_split_loop data limit cursor \<le> limit"
  by (induction data limit cursor rule: posting_split_loop.induct) (subst posting_split_loop.simps, auto split: option.splits)

lemma PostingSplitLength_le: "PostingSplitLength data capacity \<le> min (length data) capacity"
  by (simp add: PostingSplitLength_def) (use posting_split_loop_le [of 0 capacity data] in auto)

text \<open>The continuation pages of a posting list: offset and length of each piece and its largest document.\<close>

function plan_continuations :: "bytes \<Rightarrow> nat \<Rightarrow> (nat \<times> nat \<times> u64) list option" where
  "plan_continuations sourceBytes sourceOffset =
     (if sourceOffset < length sourceBytes then
        let continuationLength = PostingSplitLength (drop sourceOffset sourceBytes)
                                   (PAGE_SIZE - INDEX_BLOCK_CONTINUATION_HEADER_SIZE)
        in if continuationLength = 0 then None
           else map_option (Cons (sourceOffset, continuationLength,
                    merge_MaxDocIDInPairs (subslice sourceOffset (sourceOffset + continuationLength) sourceBytes)))
                  (plan_continuations sourceBytes (sourceOffset + continuationLength))
      else Some [])"
  by pat_completeness auto
termination
  by (relation "measure (\<lambda>(sourceBytes, sourceOffset). length sourceBytes - sourceOffset)") auto

declare plan_continuations.simps [simp del]

fun write_planned :: "bytes \<Rightarrow> nat \<Rightarrow> (nat \<times> nat \<times> u64) list \<Rightarrow> bytes list \<Rightarrow> bytes list" where
  "write_planned sourceBytes i [] blocks = blocks"
| "write_planned sourceBytes i ((offset, len, maxDocID) # continuations) blocks =
     write_planned sourceBytes (i + 1) continuations
       (blocks[i := put INDEX_BLOCK_CONTINUATION_HEADER_SIZE (subslice offset (offset + len) sourceBytes)
          (put 0 (ibch_bytes \<lparr>IBCH_MaxDocID = maxDocID, IBCH_DataLength = word_of_nat len\<rparr>) (blocks ! i))])"

definition AddIndexBytes :: "bytes \<Rightarrow> LeafTermBlockWriter \<Rightarrow> bool \<times> LeafTermBlockWriter" where
  "AddIndexBytes sourceBytes w =
     (let room = PostingSplitLength sourceBytes (PAGE_SIZE - w_IndexOffsetInBlock w);
          targetBlockID = (if room = 0 then w_IndexBlockID w + 1 else w_IndexBlockID w);
          targetOffset = (if room = 0 then 0 else w_IndexOffsetInBlock w);
          splitLength = (if room = 0 then PostingSplitLength sourceBytes PAGE_SIZE else room)
      in if splitLength = 0 then (False, w)
         else if targetBlockID \<ge> w_IndexBlockCount w then (False, w)
         else case plan_continuations sourceBytes splitLength of
           None \<Rightarrow> (False, w)
         | Some continuations \<Rightarrow>
             if 1 + length continuations > unat (w_IndexBlockCount w) - unat targetBlockID then (False, w)
             else
               let i = unat targetBlockID;
                   blocks = (w_IndexBlocks w)[i := put targetOffset (take splitLength sourceBytes) (w_IndexBlocks w ! i)]
               in (True, w\<lparr>w_IndexBlocks := write_planned sourceBytes (i + 1) continuations blocks,
                           w_IndexBlockID := targetBlockID + word_of_nat (length continuations),
                           w_IndexOffsetInBlock := (if continuations = [] then targetOffset + splitLength else PAGE_SIZE),
                           w_PostingIndexBlockID := targetBlockID, w_PostingIndexOffset := targetOffset,
                           w_PostingIndexLength := splitLength,
                           w_PostingContinuationBlockCount := word_of_nat (length continuations),
                           w_HasIndexWrite := True\<rparr>))"

definition AddIndex :: "LeafTermBlockView \<Rightarrow> LeafTermBlockWriter \<Rightarrow> bool \<times> LeafTermBlockWriter" where
  "AddIndex cursor w =
     (case Current cursor of
        None \<Rightarrow> (False, w)
      | Some source \<Rightarrow>
          (case PostingBytes cursor of
             None \<Rightarrow> (False, w)
           | Some bytes \<Rightarrow>
               if length bytes > POSTING_SCRATCH_BYTES then (False, w)
               else case AddIndexBytes bytes w of
                 (False, w) \<Rightarrow> (False, w)
               | (True, w) \<Rightarrow> (True, w\<lparr>w_DocFreq := LTE_DocFreq source\<rparr>)))"

definition AddIndexPair ::
  "LeafTermBlockView \<Rightarrow> LeafTermBlockView \<Rightarrow> LeafTermBlockWriter \<Rightarrow> bool \<times> LeafTermBlockWriter" where
  "AddIndexPair smallCursor bigCursor w =
     (case (Current smallCursor, Current bigCursor) of
        (Some small, Some big) \<Rightarrow>
          (case (PostingBytes smallCursor, PostingBytes bigCursor) of
             (Some bytes, Some big_bytes) \<Rightarrow>
               if length bytes > POSTING_SCRATCH_BYTES \<or> length big_bytes > POSTING_SCRATCH_BYTES - length bytes
               then (False, w)
               else (case AddIndexBytes (bytes @ big_bytes) w of
                       (False, w) \<Rightarrow> (False, w)
                     | (True, w) \<Rightarrow> (True, w\<lparr>w_DocFreq := LTE_DocFreq small + LTE_DocFreq big\<rparr>))
           | _ \<Rightarrow> (False, w))
      | _ \<Rightarrow> (False, w))"

definition UsedLeafBlockCount :: "LeafTermBlockWriter \<Rightarrow> u32" where
  "UsedLeafBlockCount w = (if w_LeafEntryCount w > 0 then w_LeafBlockID w + 1 else w_LeafBlockID w)"

definition UsedIndexBlockCount :: "LeafTermBlockWriter \<Rightarrow> u32" where
  "UsedIndexBlockCount w = (if w_HasIndexWrite w then w_IndexBlockID w + 1 else 0)"

definition ResetWrite :: "u32 \<Rightarrow> LeafTermBlockWriter \<Rightarrow> LeafTermBlockWriter" where
  "ResetWrite indexBlockBase w =
     w\<lparr>w_LeafBlocks := map (\<lambda>_. LeafTermBlock_default) (w_LeafBlocks w),
       w_IndexBlocks := map (\<lambda>_. replicate PAGE_SIZE 0) (w_IndexBlocks w),
       w_PostingIndexBlockID := 0, w_PostingIndexOffset := 0, w_PostingIndexLength := 0,
       w_PostingContinuationBlockCount := 0, w_DocFreq := 0, w_LeafBlockID := 0, w_LeafWriteOffset := 0,
       w_LeafEntryCount := 0, w_IndexBlockID := 0, w_IndexOffsetInBlock := 0, w_IndexBlockBase := indexBlockBase,
       w_HasIndexWrite := False\<rparr>"

subsection \<open>Dumping a batch\<close>

record merge_files =
  headFile :: bytes
  indexFile :: bytes
  leafFile :: bytes
  headEntryCount :: u64
  totalTerms :: u64
  indexBlockCount :: u32

text \<open>
  The leaf pages of a batch with their head entries. The outer option is the panic of
  \<open>HeadTermEntry::new\<close> on a long term.
\<close>

fun dump_leaves :: "u32 \<Rightarrow> LeafTermBlock list \<Rightarrow> merge_files \<Rightarrow> merge_files result option" where
  "dump_leaves block_id [] files = Some (Inr files)"
| "dump_leaves block_id (leaf # leaves) files =
     (case leaf_entry leaf 0 of
        None \<Rightarrow> Some (Inl InvalidFormat)
      | Some firstEntry \<Rightarrow>
          (case HeadTermEntry_new (LTE_Term firstEntry) block_id of
             None \<Rightarrow> None
           | Some entry \<Rightarrow>
               dump_leaves (block_id + 1) leaves
                 (files\<lparr>headFile := headFile files @ hte_to_bytes entry,
                        leafFile := leafFile files @ leaf_to_bytes leaf,
                        totalTerms := totalTerms files +
                          word_of_nat (min (entry_count leaf) (LEAF_TERM_DIRECTORY_COUNT - 1))\<rparr>)))"

definition DumpBatch ::
  "LeafTermBlockWriter \<Rightarrow> merge_files \<Rightarrow> (LeafTermBlockWriter \<times> merge_files) result option" where
  "DumpBatch mergedCursor files =
     (let usedLeafBlocks = UsedLeafBlockCount mergedCursor; usedIndexBlocks = UsedIndexBlockCount mergedCursor
      in if usedLeafBlocks = 0 \<and> usedIndexBlocks = 0 then Some (Inr (mergedCursor, files))
         else case dump_leaves (ucast (headEntryCount files)) (take (unat usedLeafBlocks) (w_LeafBlocks mergedCursor)) files of
           None \<Rightarrow> None
         | Some (Inl err) \<Rightarrow> Some (Inl err)
         | Some (Inr files) \<Rightarrow>
             let files = files\<lparr>indexFile := indexFile files @ concat (take (unat usedIndexBlocks) (w_IndexBlocks mergedCursor)),
                               headEntryCount := headEntryCount files + ucast usedLeafBlocks,
                               indexBlockCount := indexBlockCount files + usedIndexBlocks\<rparr>
             in Some (Inr (ResetWrite (indexBlockCount files) mergedCursor, files)))"

subsection \<open>The loop over both dictionaries\<close>

definition add_both ::
  "LeafTermBlockView \<Rightarrow> LeafTermBlockView \<Rightarrow> LeafTermBlockWriter \<Rightarrow> bool \<times> LeafTermBlockWriter" where
  "add_both baseCursor deltaCursor w =
     (if CanAddLeafTermEntry baseCursor w then
        case AddIndexPair baseCursor deltaCursor w of
          (False, w) \<Rightarrow> (False, w)
        | (True, w) \<Rightarrow> AddLeafTermEntry baseCursor w
      else (False, w))"

definition add_single :: "LeafTermBlockView \<Rightarrow> LeafTermBlockWriter \<Rightarrow> bool \<times> LeafTermBlockWriter" where
  "add_single cursor w =
     (if CanAddLeafTermEntry cursor w then
        case AddIndex cursor w of
          (False, w) \<Rightarrow> (False, w)
        | (True, w) \<Rightarrow> AddLeafTermEntry cursor w
      else (False, w))"

text \<open>A batch that took nothing has no room for the term: the merge gives up.\<close>

definition dump_full ::
  "LeafTermBlockWriter \<Rightarrow> merge_files \<Rightarrow> (LeafTermBlockWriter \<times> merge_files) result option" where
  "dump_full mergedCursor files =
     (case DumpBatch mergedCursor files of
        None \<Rightarrow> None
      | Some (Inl err) \<Rightarrow> Some (Inl err)
      | Some (Inr (w, files')) \<Rightarrow>
          if headEntryCount files = headEntryCount files' \<and> indexBlockCount files = indexBlockCount files'
          then Some (Inl InvalidFormat) else Some (Inr (w, files')))"

text \<open>One iteration of the loop: the cursors, the writer and the files after it.\<close>

definition merge_step ::
  "LeafTermBlockView \<Rightarrow> LeafTermBlockView \<Rightarrow> LeafTermBlockWriter \<Rightarrow> merge_files \<Rightarrow>
   (LeafTermBlockView \<times> LeafTermBlockView \<times> LeafTermBlockWriter \<times> merge_files) result option" where
  "merge_step baseCursor deltaCursor mergedCursor files =
     (let takeBase = Current baseCursor \<noteq> None \<and> (Current deltaCursor = None \<or> \<not> LessThan deltaCursor baseCursor);
          takeDelta = Current deltaCursor \<noteq> None \<and> (Current baseCursor = None \<or> \<not> LessThan baseCursor deltaCursor)
      in if takeBase \<or> takeDelta then
           case (if takeBase \<and> takeDelta then add_both baseCursor deltaCursor mergedCursor
                 else if takeBase then add_single baseCursor mergedCursor
                 else add_single deltaCursor mergedCursor) of
             (True, w) \<Rightarrow>
               Some (Inr (if takeBase then Advance baseCursor else baseCursor,
                          if takeDelta then Advance deltaCursor else deltaCursor, w, files))
           | (False, w) \<Rightarrow>
               (case dump_full w files of
                  None \<Rightarrow> None
                | Some (Inl err) \<Rightarrow> Some (Inl err)
                | Some (Inr (w, files)) \<Rightarrow> Some (Inr (baseCursor, deltaCursor, w, files)))
         else Some (Inl InvalidFormat))"

partial_function (option) merge_loop ::
  "LeafTermBlockView \<Rightarrow> LeafTermBlockView \<Rightarrow> LeafTermBlockWriter \<Rightarrow> merge_files \<Rightarrow>
   (LeafTermBlockWriter \<times> merge_files) result option" where
  "merge_loop baseCursor deltaCursor mergedCursor files =
     (if Current baseCursor = None \<and> Current deltaCursor = None then Some (Inr (mergedCursor, files))
      else
        case merge_step baseCursor deltaCursor mergedCursor files of
          None \<Rightarrow> None
        | Some r \<Rightarrow>
            if isl r then Some (Inl (projl r))
            else (case projr r of (base, delta, w, files) \<Rightarrow> merge_loop base delta w files))"

definition MERGED_LEAF_BLOCK_LIMIT :: u32 where "MERGED_LEAF_BLOCK_LIMIT = 32 * 1024"
definition MERGED_INDEX_BLOCK_LIMIT :: u32 where "MERGED_INDEX_BLOCK_LIMIT = 32 * 1024"

definition merge_files_new :: merge_files where
  "merge_files_new = \<lparr>headFile = [], indexFile = [], leafFile = [], headEntryCount = 0, totalTerms = 0, indexBlockCount = 0\<rparr>"

text \<open>The block of \<open>Merge\<close> that fills the three files.\<close>

definition merge_dictionaries :: "LeafTermBlockView \<Rightarrow> LeafTermBlockView \<Rightarrow> merge_files result option" where
  "merge_dictionaries baseCursor deltaCursor =
     (case merge_loop baseCursor deltaCursor (new_write MERGED_LEAF_BLOCK_LIMIT MERGED_INDEX_BLOCK_LIMIT) merge_files_new of
        None \<Rightarrow> None
      | Some (Inl err) \<Rightarrow> Some (Inl err)
      | Some (Inr (mergedCursor, files)) \<Rightarrow>
          (case DumpBatch mergedCursor files of
             None \<Rightarrow> None
           | Some (Inl err) \<Rightarrow> Some (Inl err)
           | Some (Inr (w, files)) \<Rightarrow> Some (Inr files)))"

subsection \<open>Scanning agrees with the builder on small frequencies\<close>

text \<open>
  The builder reads a frequency as one byte, the merge as a variable-byte number. The two agree as long
  as no frequency byte has its high bit set.
\<close>

definition small_tf :: "(u64 \<times> u8) list \<Rightarrow> bool" where
  "small_tf ps \<longleftrightarrow> (\<forall>p \<in> set ps. snd p AND 0x80 = 0)"

lemma small_tf_simps [simp]:
  "small_tf []" "small_tf (p # ps) \<longleftrightarrow> snd p AND 0x80 = 0 \<and> small_tf ps"
  "small_tf (ps @ qs) \<longleftrightarrow> small_tf ps \<and> small_tf qs"
  by (auto simp: small_tf_def)

lemma small_tf_take_drop: "small_tf ps \<Longrightarrow> small_tf (take k ps)" "small_tf ps \<Longrightarrow> small_tf (drop k ps)"
  by (auto simp: small_tf_def dest: in_set_takeD in_set_dropD)

lemma ReadVbPairEnd_pair:
  assumes "data = pairs_bytes xs @ pair_bytes p @ rest" and "snd p AND 0x80 = 0"
  shows "ReadVbPairEnd data (length (pairs_bytes xs)) = Some (length (pairs_bytes (xs @ [p])))"
proof -
  let ?n = "length (pairs_bytes xs)" and ?m = "length (pairs_bytes xs) + length (vb_write (fst p))"
  have data: "data = pairs_bytes xs @ vb_write (fst p) @ snd p # rest"
    using assms(1) by (simp add: pair_bytes_def case_prod_beta)
  have "vb_skip data ?n = Some ?m" by (rule vb_skip_vb_write [of _ _ _ "snd p # rest"]) (simp add: data)
  moreover have "vb_skip data ?m = Some (?m + 1)"
    using assms(2) by (subst vb_skip.simps) (simp add: data nth_append)
  ultimately show ?thesis by (simp add: ReadVbPairEnd_def length_pair_bytes_eq)
qed

lemma posting_split_loop_prefix:
  assumes "data = pairs_bytes (xs @ ys)" and "small_tf ys"
  shows "posting_split_loop data limit (length (pairs_bytes xs)) = prefix_loop data limit (length (pairs_bytes xs))"
  using assms
proof (induction ys arbitrary: xs)
  case Nil
  then show ?case
    by (subst posting_split_loop.simps, subst prefix_loop.simps) (simp add: ReadVbcPairEnd_def ReadVbPairEnd_def vb_skip.simps)
next
  case (Cons p ys)
  have "ReadVbPairEnd data (length (pairs_bytes xs)) = Some (length (pairs_bytes (xs @ [p])))"
    using ReadVbPairEnd_pair [of data xs p "pairs_bytes ys"] Cons.prems by simp
  moreover have "ReadVbcPairEnd data (length (pairs_bytes xs)) = Some (length (pairs_bytes (xs @ [p])))"
    using ReadVbcPairEnd_pair [of data xs p "pairs_bytes ys"] Cons.prems by simp
  moreover note Cons.IH [of "xs @ [p]"]
  ultimately show ?case
    using Cons.prems by (subst posting_split_loop.simps, subst prefix_loop.simps) (simp del: concat_append map_append)
qed

lemma PostingSplitLength_eq:
  assumes "small_tf ps"
  shows "PostingSplitLength (pairs_bytes ps) capacity = PostingPrefixBytes (pairs_bytes ps) capacity"
proof (cases "length (pairs_bytes ps) \<le> capacity")
  case False
  then show ?thesis using posting_split_loop_prefix [of "pairs_bytes ps" "[]" ps] assms
    by (simp add: PostingSplitLength_def PostingPrefixBytes_def)
next
  case True
  let ?l = "length (pairs_bytes ps)"
  obtain k where k: "k \<le> length ps" "prefix_loop (pairs_bytes ps) ?l 0 = length (pairs_bytes (take k ps))"
    "k < length ps \<longrightarrow> ?l < length (pairs_bytes (take (Suc k) ps))"
    using prefix_loop_pairs [of "pairs_bytes ps" "[]" ps ?l] unfolding append_Nil by auto
  have "length (pairs_bytes (take n ps)) \<le> ?l" for n
    using arg_cong [OF pairs_bytes_cut(1) [of n ps], of length] unfolding length_take by linarith
  with k have "k = length ps" by (metis le_neq_implies_less not_less)
  with k(2) True show ?thesis by (simp add: PostingSplitLength_def PostingPrefixBytes_def min_def)
qed

lemma VbReadLocal_pair:
  assumes "data = pairs_bytes xs @ pair_bytes p @ rest"
  shows "VbReadLocal data (length (pairs_bytes xs)) = (fst p, length (vb_write (fst p)))"
  using VbRead_pair [OF assms] by (simp add: VbRead_def VbReadLocal_def)

lemma merge_max_loop_pairs:
  "data = pairs_bytes (xs @ ys) \<Longrightarrow> small_tf ys \<Longrightarrow>
   merge_max_loop data (length (pairs_bytes xs)) m = (if ys = [] then m else fst (last ys))"
proof (induction ys arbitrary: xs m)
  case Nil
  then show ?case by (subst merge_max_loop.simps) simp
next
  case (Cons p ys)
  let ?n = "length (pairs_bytes xs)" and ?v = "length (vb_write (fst p))"
  have "pair_bytes p = vb_write (fst p) @ [snd p]" by (simp add: pair_bytes_def case_prod_beta)
  then have data: "data = pairs_bytes xs @ vb_write (fst p) @ snd p # pairs_bytes ys" using Cons.prems(1) by simp
  have rd: "VbReadLocal data ?n = (fst p, ?v)"
    using Cons.prems by (intro VbReadLocal_pair [of _ _ _ "pairs_bytes ys"]) simp
  have tf: "\<exists>t. VbReadLocal data (?n + ?v) = (t, 1)"
    using Cons.prems(2) unfolding VbReadLocal_def
    by (subst vb_read_loop.simps) (simp add: data nth_append Let_def)
  have inside: "?n + ?v < length data" by (simp add: data)
  then have "merge_max_loop data ?n m = merge_max_loop data (length (pairs_bytes (xs @ [p]))) (fst p)"
    using tf by (subst merge_max_loop.simps) (auto simp: rd length_pair_bytes_eq)
  then show ?case using Cons.IH [of "xs @ [p]" "fst p"] Cons.prems by simp
qed

lemma merge_MaxDocIDInPairs_pairs:
  "ps \<noteq> [] \<Longrightarrow> small_tf ps \<Longrightarrow> merge_MaxDocIDInPairs (pairs_bytes ps) = fst (last ps)"
  using merge_max_loop_pairs [of "pairs_bytes ps" "[]" ps 0] by (simp add: merge_MaxDocIDInPairs_def)

subsection \<open>What the writer places on its pages\<close>

text \<open>
  The pages of the batch behind the pages already dumped, seen as the page builder of the previous
  theory. After a list with continuation pages the writer starts a new page, the builder does not;
  otherwise they place a list alike.
\<close>

definition batch_index :: "bytes list \<Rightarrow> LeafTermBlockWriter \<Rightarrow> index_build" where
  "batch_index F w =
     \<lparr>ib_blocks = F @ take (unat (w_IndexBlockID w)) (w_IndexBlocks w), ib_cur = w_IndexBlocks w ! unat (w_IndexBlockID w),
      ib_wptr = w_IndexOffsetInBlock w, ib_seq = word_of_nat (length F + unat (w_IndexBlockID w))\<rparr>"

definition index_ready :: "bytes list \<Rightarrow> LeafTermBlockWriter \<Rightarrow> bool" where
  "index_ready F w \<longleftrightarrow> length (w_IndexBlocks w) = unat (w_IndexBlockCount w) \<and>
     (\<forall>p \<in> set F. length p = PAGE_SIZE) \<and> (\<forall>p \<in> set (w_IndexBlocks w). length p = PAGE_SIZE) \<and>
     unat (w_IndexBlockID w) < unat (w_IndexBlockCount w) \<and> w_IndexOffsetInBlock w \<le> PAGE_SIZE \<and>
     (w_HasIndexWrite w \<or> w_IndexBlockID w = 0 \<and> w_IndexOffsetInBlock w = 0) \<and>
     w_IndexBlockBase w = word_of_nat (length F)"

lemma length_batch_index: "index_ready F w \<Longrightarrow> length (ib_blocks (batch_index F w)) = length F + unat (w_IndexBlockID w)"
  by (simp add: index_ready_def batch_index_def)

lemma batch_index_wf: "index_ready F w \<Longrightarrow> index_wf (batch_index F w)"
  by (auto simp: index_ready_def index_wf_def batch_index_def dest: in_set_takeD)

lemma page_at_batch:
  assumes "index_ready F w" and "i \<le> length F + unat (w_IndexBlockID w)"
  shows "page_at (batch_index F w) i = (if i < length F then F ! i else w_IndexBlocks w ! (i - length F))"
proof (cases "i = length F + unat (w_IndexBlockID w)")
  case True
  then show ?thesis using assms by (simp add: page_at_def batch_index_def index_ready_def nth_append)
next
  case False
  then show ?thesis using assms by (auto simp: page_at_def batch_index_def index_ready_def nth_append)
qed

lemma limit_at_batch:
  "index_ready F w \<Longrightarrow>
   limit_at (batch_index F w) i = (if i < length F + unat (w_IndexBlockID w) then PAGE_SIZE else w_IndexOffsetInBlock w)"
  by (simp add: limit_at_def length_batch_index) (simp add: batch_index_def)

fun plan_of :: "nat \<Rightarrow> (u64 \<times> u8) list list \<Rightarrow> (nat \<times> nat \<times> u64) list" where
  "plan_of off [] = []"
| "plan_of off (c # cs) = (off, length (pairs_bytes c), fst (last c)) # plan_of (off + length (pairs_bytes c)) cs"

lemma length_plan_of [simp]: "length (plan_of off cs) = length cs"
  by (induction cs arbitrary: off) auto

lemma plan_of_Nil [simp]: "plan_of off cs = [] \<longleftrightarrow> cs = []"
  by (cases cs) auto

definition chunks_ok :: "(u64 \<times> u8) list list \<Rightarrow> bool" where
  "chunks_ok cs \<longleftrightarrow> (\<forall>c \<in> set cs. c \<noteq> [] \<and> length (pairs_bytes c) \<le> 4084)"

lemma plan_continuations_pairs:
  assumes "small_tf ys"
  shows "\<exists>cs. plan_continuations (pairs_bytes (xs @ ys)) (length (pairs_bytes xs)) = Some (plan_of (length (pairs_bytes xs)) cs) \<and>
    concat cs = ys \<and> chunks_ok cs \<and> 4074 * length cs \<le> length (pairs_bytes ys) + 4073"
  using assms
proof (induction "length ys" arbitrary: xs ys rule: less_induct)
  case less
  let ?data = "pairs_bytes (xs @ ys)" and ?off = "length (pairs_bytes xs)"
  show ?case
  proof (cases "ys = []")
    case True
    then show ?thesis
      by (intro exI [of _ "[]"]) (subst plan_continuations.simps, simp add: chunks_ok_def)
  next
    case False
    have dr: "drop ?off ?data = pairs_bytes ys" by simp
    obtain k where k: "k \<le> length ys" "PostingPrefixBytes (pairs_bytes ys) 4084 = length (pairs_bytes (take k ys))" "0 < k"
      "k < length ys \<longrightarrow> 4084 < length (pairs_bytes (take k ys)) + 11"
      using PostingPrefixBytes_pairs [of ys 4084] False by auto
    let ?c = "take k ys" and ?n = "length (pairs_bytes (take k ys))"
    have big: "k < length ys \<longrightarrow> 4074 \<le> ?n" using k(4) by linarith
    have len: "PostingSplitLength (drop ?off ?data) (PAGE_SIZE - INDEX_BLOCK_CONTINUATION_HEADER_SIZE) = ?n"
      unfolding dr PostingSplitLength_eq [OF less.prems] using k(2) by (simp add: size_consts)
    have c: "?c \<noteq> []" using k(3) False by simp
    have pos: "?n \<noteq> 0" using c pairs_bytes_Nil [of ?c] by (simp del: concat_eq_Nil_conv length_concat)
    have le: "?n \<le> 4084" using PostingPrefixBytes_le [of "pairs_bytes ys" 4084] k(2) by simp
    have sub: "subslice ?off (?off + ?n) ?data = pairs_bytes ?c"
      unfolding slice_take_drop dr pairs_bytes_cut(1) ..
    have max: "merge_MaxDocIDInPairs (pairs_bytes ?c) = fst (last ?c)"
      using merge_MaxDocIDInPairs_pairs [OF c small_tf_take_drop(1) [OF less.prems]] .
    have data: "pairs_bytes ((xs @ ?c) @ drop k ys) = ?data" by (simp flip: concat_append map_append)
    have off: "length (pairs_bytes (xs @ ?c)) = ?off + ?n" by simp
    have "length (drop k ys) < length ys" using k(3) False by simp
    from less.hyps [OF this small_tf_take_drop(2) [OF less.prems], of "xs @ ?c"] obtain cs where
      cs: "plan_continuations ?data (?off + ?n) = Some (plan_of (?off + ?n) cs)"
        "concat cs = drop k ys" "chunks_ok cs" "4074 * length cs \<le> length (pairs_bytes (drop k ys)) + 4073"
      unfolding data off by blast
    have inside: "?off < length ?data" using False pairs_bytes_Nil [of ys] by (cases "pairs_bytes ys") simp_all
    have "plan_continuations ?data ?off = Some (plan_of ?off (?c # cs))"
      unfolding plan_continuations.simps [of ?data ?off] Let_def len
      unfolding sub max cs(1) if_P [OF inside] if_not_P [OF pos] by simp
    moreover have "4074 * length (?c # cs) \<le> length (pairs_bytes ys) + 4073"
    proof (cases "k < length ys")
      case True
      have "length (pairs_bytes ys) = ?n + length (pairs_bytes (drop k ys))"
        by (metis append_take_drop_id concat_append length_append map_append)
      then show ?thesis using cs(4) big True by simp
    next
      case False
      then have "concat cs = []" using cs(2) by simp
      then have "length cs = 0" using cs(3) by (cases cs) (auto simp: chunks_ok_def)
      moreover have "0 < length (pairs_bytes ys)" using inside by simp
      ultimately show ?thesis by (simp del: length_concat length_greater_0_conv add: Suc_le_eq)
    qed
    moreover have "concat (?c # cs) = ys" "chunks_ok (?c # cs)" using cs(2,3) c le by (simp_all add: chunks_ok_def)
    ultimately show ?thesis by blast
  qed
qed

lemma write_planned_pages:
  assumes "chunks_ok cs" and "i + length cs \<le> length blocks" and "\<forall>p \<in> set blocks. length p = PAGE_SIZE"
    and "b = write_planned (pairs_bytes (xs @ concat cs)) i (plan_of (length (pairs_bytes xs)) cs) blocks"
  shows "length b = length blocks \<and> (\<forall>p \<in> set b. length p = PAGE_SIZE) \<and> (\<forall>j < i. b ! j = blocks ! j) \<and>
    (\<forall>m < length cs. take (length (cont_bytes (cs ! m))) (b ! (i + m)) = cont_bytes (cs ! m))"
  using assms
proof (induction cs arbitrary: xs i blocks)
  case Nil
  then show ?case by simp
next
  case (Cons c cs)
  let ?data = "pairs_bytes (xs @ concat (c # cs))" and ?off = "length (pairs_bytes xs)" and ?n = "length (pairs_bytes c)"
  let ?h = "ibch_bytes \<lparr>IBCH_MaxDocID = fst (last c), IBCH_DataLength = word_of_nat ?n\<rparr>"
  define bs where "bs = blocks[i := put 0 (cont_bytes c) (blocks ! i)]"
  have ok: "chunks_ok cs" "?n \<le> 4084" using Cons.prems(1) by (simp_all add: chunks_ok_def)
  have len: "length (blocks ! i) = 4096" using Cons.prems(2,3) by (simp add: PAGE_SIZE_def)
  have cl: "length (cont_bytes c) \<le> 4096" using ok(2) by (simp add: cont_bytes_def)
  have sub: "subslice ?off (?off + ?n) ?data = pairs_bytes c" unfolding slice_take_drop by simp
  have page: "put 12 (pairs_bytes c) (put 0 ?h (blocks ! i)) = put 0 (cont_bytes c) (blocks ! i)"
    using put_put [of 0 ?h "pairs_bytes c" "blocks ! i"] ok(2) len by (simp add: cont_bytes_def)
  have "write_planned ?data i (plan_of ?off (c # cs)) blocks =
      write_planned ?data (i + 1) (plan_of (?off + ?n) cs) (blocks[i := put 12 (subslice ?off (?off + ?n) ?data) (put 0 ?h (blocks ! i))])"
    by (simp add: size_consts)
  then have b: "b = write_planned (pairs_bytes ((xs @ c) @ concat cs)) (i + 1) (plan_of (length (pairs_bytes (xs @ c))) cs) bs"
    unfolding sub page bs_def [symmetric] Cons.prems(4) by simp
  have pages: "\<forall>p \<in> set bs. length p = PAGE_SIZE" unfolding bs_def
    using Cons.prems(3) cl len by (auto dest!: set_update_subset_insert [THEN subsetD] simp: PAGE_SIZE_def)
  have "(i + 1) + length cs \<le> length bs" using Cons.prems(2) by (simp add: bs_def)
  note IH = Cons.IH [OF ok(1) this pages b]
  have "take (length (cont_bytes ((c # cs) ! m))) (b ! (i + m)) = cont_bytes ((c # cs) ! m)" if m: "m < length (c # cs)" for m
  proof (cases m)
    case 0
    have "b ! i = put 0 (cont_bytes c) (blocks ! i)" using IH Cons.prems(2) by (simp add: bs_def)
    then show ?thesis using len cl 0 by (simp add: put_def)
  next
    case (Suc m')
    then show ?thesis using IH m by auto
  qed
  then show ?case using IH by (auto simp: bs_def)
qed

lemma put_before: "take off (put off bs page) = take off page" if "off \<le> length page"
  using that by (simp add: put_def)

text \<open>The fields of the writer that the index side changes.\<close>

definition leaf_side :: "LeafTermBlockWriter \<Rightarrow> LeafTermBlockWriter \<Rightarrow> bool" where
  "leaf_side w w' \<longleftrightarrow> w_LeafTermBlockCount w' = w_LeafTermBlockCount w \<and> w_LeafBlocks w' = w_LeafBlocks w \<and>
     w_LeafBlockID w' = w_LeafBlockID w \<and> w_LeafWriteOffset w' = w_LeafWriteOffset w \<and>
     w_LeafEntryCount w' = w_LeafEntryCount w \<and> w_IndexBlockCount w' = w_IndexBlockCount w \<and>
     w_IndexBlockBase w' = w_IndexBlockBase w"

definition posting_loc :: "LeafTermBlockWriter \<Rightarrow> u32 \<times> nat \<times> nat \<times> u32" where
  "posting_loc w = (w_IndexBlockBase w + w_PostingIndexBlockID w, w_PostingIndexOffset w, w_PostingIndexLength w,
     w_PostingContinuationBlockCount w)"

lemma place_batch:
  assumes ready: "index_ready F w" and target: "target = (if fresh then unat (w_IndexBlockID w) + 1 else unat (w_IndexBlockID w))"
    "off = (if fresh then 0 else w_IndexOffsetInBlock w)"
    and room: "target + length cs < unat (w_IndexBlockCount w)" "off + length (pairs_bytes c) \<le> PAGE_SIZE"
    and c: "c \<noteq> []" and cs: "chunks_ok cs" "4074 * length cs \<le> length (pairs_bytes (c @ concat cs)) + 4073"
    and w': "w' = w\<lparr>w_IndexBlocks := write_planned (pairs_bytes (c @ concat cs)) (target + 1) (plan_of (length (pairs_bytes c)) cs)
                 ((w_IndexBlocks w)[target := put off (pairs_bytes c) (w_IndexBlocks w ! target)]),
               w_IndexBlockID := word_of_nat (target + length cs),
               w_IndexOffsetInBlock := (if cs = [] then off + length (pairs_bytes c) else PAGE_SIZE),
               w_PostingIndexBlockID := word_of_nat target, w_PostingIndexOffset := off,
               w_PostingIndexLength := length (pairs_bytes c), w_PostingContinuationBlockCount := word_of_nat (length cs),
               w_HasIndexWrite := True\<rparr>"
  shows "index_ready F w' \<and> index_ext (batch_index F w) (batch_index F w') \<and>
    placed (batch_index F w') (posting_loc w') (c @ concat cs)"
proof -
  let ?b0 = "(w_IndexBlocks w)[target := put off (pairs_bytes c) (w_IndexBlocks w ! target)]"
  define b where "b = w_IndexBlocks w'"
  have r: "length (w_IndexBlocks w) = unat (w_IndexBlockCount w)" "\<forall>p \<in> set (w_IndexBlocks w). length p = PAGE_SIZE"
    "w_IndexOffsetInBlock w \<le> PAGE_SIZE" "w_IndexBlockBase w = word_of_nat (length F)"
    using ready by (auto simp: index_ready_def)
  have t: "target < length (w_IndexBlocks w)" "length (w_IndexBlocks w ! target) = PAGE_SIZE"
    using room(1) r(1,2) by auto
  have pages0: "\<forall>p \<in> set ?b0. length p = PAGE_SIZE"
    using r(2) t room(2) by (auto dest!: set_update_subset_insert [THEN subsetD])
  have "b = write_planned (pairs_bytes (c @ concat cs)) (target + 1) (plan_of (length (pairs_bytes c)) cs) ?b0"
    by (simp add: b_def w')
  from write_planned_pages [OF cs(1) _ pages0 this] room(1) r(1)
  have b: "length b = unat (w_IndexBlockCount w)" "\<forall>p \<in> set b. length p = PAGE_SIZE" "\<forall>j \<le> target. b ! j = ?b0 ! j"
    "\<forall>m < length cs. take (length (cont_bytes (cs ! m))) (b ! (target + 1 + m)) = cont_bytes (cs ! m)"
    by (auto simp: less_Suc_eq_le)
  have small: "target + length cs < 2 ^ 32" using room(1) unat_bound [of "w_IndexBlockCount w"] by simp
  then have id': "unat (w_IndexBlockID w') = target + length cs" by (simp add: w' unat32_of_nat del: of_nat_add)
  have off': "w_IndexOffsetInBlock w' = (if cs = [] then off + length (pairs_bytes c) else PAGE_SIZE)" by (simp add: w')
  have fld: "w_IndexBlockCount w' = w_IndexBlockCount w" "w_IndexBlockBase w' = w_IndexBlockBase w" "w_HasIndexWrite w'"
    by (simp_all add: w')
  have "w_IndexOffsetInBlock w' \<le> PAGE_SIZE" unfolding off' using room(2) by simp
  then have ready': "index_ready F w'"
    unfolding index_ready_def fld id' b_def [symmetric] using ready b(1,2) room(1) by (simp add: index_ready_def fld(3))
  have old: "take (w_IndexOffsetInBlock w) (b ! unat (w_IndexBlockID w)) =
      take (w_IndexOffsetInBlock w) (w_IndexBlocks w ! unat (w_IndexBlockID w))"
    using b(3) target t r(3) by (auto simp: put_before)
  have below: "b ! j = w_IndexBlocks w ! j" if "j < unat (w_IndexBlockID w)" for j
    using b(3) that target by (auto split: if_splits)
  have ext: "index_ext (batch_index F w) (batch_index F w')"
    unfolding index_ext_def length_batch_index [OF ready] length_batch_index [OF ready'] id'
  proof (intro conjI allI impI)
    show "length F + unat (w_IndexBlockID w) \<le> length F + (target + length cs)" using target by simp
  next
    fix i assume i: "i \<le> length F + unat (w_IndexBlockID w)"
    then have i': "i \<le> length F + unat (w_IndexBlockID w')" using target id' by simp
    show "limit_at (batch_index F w) i \<le> limit_at (batch_index F w') i"
      unfolding limit_at_batch [OF ready] limit_at_batch [OF ready'] id' off' using i target r(3) by auto
    show "take (limit_at (batch_index F w) i) (page_at (batch_index F w') i) = take (limit_at (batch_index F w) i) (page_at (batch_index F w) i)"
      unfolding limit_at_batch [OF ready] page_at_batch [OF ready i] page_at_batch [OF ready' i'] b_def [symmetric]
      using i old below by (cases "i = length F + unat (w_IndexBlockID w)") auto
  qed
  have first: "region_holds (batch_index F w') (length F + target) off (pairs_bytes c)"
    unfolding region_holds_def length_batch_index [OF ready'] limit_at_batch [OF ready'] id' off'
    using page_at_batch [OF ready', of "length F + target"] b(3) t room(2) slice_put_same [of off "pairs_bytes c" "w_IndexBlocks w ! target"]
    by (simp add: id' b_def [symmetric])
  have conts: "conts_hold (batch_index F w') (length F + target + k) (drop k cs)" if "k \<le> length cs" for k
    using that
  proof (induction "length cs - k" arbitrary: k)
    case 0
    then show ?case by simp
  next
    case (Suc n)
    then have k: "k < length cs" by simp
    let ?c = "cs ! k"
    have ck: "?c \<noteq> []" "length (pairs_bytes ?c) \<le> 4084" using cs(1) k by (auto simp: chunks_ok_def)
    have "region_holds (batch_index F w') (Suc (length F + target + k)) 0 (cont_bytes ?c)"
      unfolding region_holds_def length_batch_index [OF ready'] limit_at_batch [OF ready'] id' off'
      using page_at_batch [OF ready', of "Suc (length F + target + k)"] b(4) k ck(2)
      by (auto simp: id' b_def [symmetric] subslice_def cont_bytes_def PAGE_SIZE_def)
    moreover have "conts_hold (batch_index F w') (length F + target + Suc k) (drop (Suc k) cs)"
      using Suc by (intro Suc.hyps) auto
    ultimately show ?case using ck by (simp add: Cons_nth_drop_Suc [OF k, symmetric])
  qed
  have "posting_loc w' = (word_of_nat (length F + target), off, length (pairs_bytes c), word_of_nat (length cs))"
    by (simp add: posting_loc_def w' r(4))
  moreover have "off \<le> PAGE_SIZE" using room(2) by simp
  ultimately have "placed (batch_index F w') (posting_loc w') (c @ concat cs)"
    unfolding placed_def using first conts [of 0] c cs(2)
    by (intro exI [of _ "length F + target"] exI [of _ off] exI [of _ c] exI [of _ cs]) simp
  with ready' ext show ?thesis by simp
qed

lemma first_piece:
  assumes "ps \<noteq> []" and "small_tf ps" and "off \<le> PAGE_SIZE"
    and "room = PostingSplitLength (pairs_bytes ps) (PAGE_SIZE - off)"
    and "len = (if room = 0 then PostingSplitLength (pairs_bytes ps) PAGE_SIZE else room)"
  shows "\<exists>k. 0 < k \<and> k \<le> length ps \<and> len = length (pairs_bytes (take k ps)) \<and> (if room = 0 then 0 else off) + len \<le> PAGE_SIZE"
proof (cases "room = 0")
  case True
  obtain k where "k \<le> length ps" "PostingPrefixBytes (pairs_bytes ps) PAGE_SIZE = length (pairs_bytes (take k ps))" "0 < k"
    using PostingPrefixBytes_pairs [of ps PAGE_SIZE] assms(1) by (auto simp: PAGE_SIZE_def)
  then show ?thesis
    using True assms(5) PostingPrefixBytes_le [of "pairs_bytes ps" PAGE_SIZE] PostingSplitLength_eq [OF assms(2)] by auto
next
  case False
  obtain k where k: "k \<le> length ps" "PostingPrefixBytes (pairs_bytes ps) (PAGE_SIZE - off) = length (pairs_bytes (take k ps))"
    using PostingPrefixBytes_pairs [of ps "PAGE_SIZE - off"] by auto
  then have len: "len = length (pairs_bytes (take k ps))" using False assms(4,5) PostingSplitLength_eq [OF assms(2)] by simp
  then have "0 < k" using False assms(5) by (cases k) auto
  moreover have "len \<le> PAGE_SIZE - off"
    using PostingPrefixBytes_le [of "pairs_bytes ps" "PAGE_SIZE - off"] k(2) len by simp
  then have "off + len \<le> PAGE_SIZE" using assms(3) by linarith
  ultimately show ?thesis using k(1) len False by auto
qed

lemma used_index:
  "index_ready F w \<Longrightarrow> unat (UsedIndexBlockCount w) = (if w_HasIndexWrite w then unat (w_IndexBlockID w) + 1 else 0)"
  using unat_next [of "w_IndexBlockID w" "w_IndexBlockCount w"]
  by (simp add: UsedIndexBlockCount_def index_ready_def word_less_nat_alt)

lemma AddIndexBytes_placed:
  assumes ready: "index_ready F w" and ps: "ps \<noteq> []" "small_tf ps"
  shows "AddIndexBytes (pairs_bytes ps) w = (False, w) \<and>
      \<not> (w_IndexBlockID w = 0 \<and> w_IndexOffsetInBlock w = 0 \<and> length (pairs_bytes ps) + 4073 < 4074 * (unat (w_IndexBlockCount w) - 1)) \<or>
    (\<exists>w'. AddIndexBytes (pairs_bytes ps) w = (True, w') \<and> index_ready F w' \<and> index_ext (batch_index F w) (batch_index F w') \<and>
       placed (batch_index F w') (posting_loc w') ps \<and> leaf_side w w' \<and> w_HasIndexWrite w' \<and>
       unat (UsedIndexBlockCount w') \<le> unat (UsedIndexBlockCount w) + 1 + (length (pairs_bytes ps) + 4073) div 4074)"
proof -
  define room where "room = PostingSplitLength (pairs_bytes ps) (PAGE_SIZE - w_IndexOffsetInBlock w)"
  define len where "len = (if room = 0 then PostingSplitLength (pairs_bytes ps) PAGE_SIZE else room)"
  define tid where "tid = (if room = 0 then w_IndexBlockID w + 1 else w_IndexBlockID w)"
  define off where "off = (if room = 0 then 0 else w_IndexOffsetInBlock w)"
  have le: "w_IndexOffsetInBlock w \<le> PAGE_SIZE" "w_IndexBlockID w < w_IndexBlockCount w"
    using ready by (auto simp: index_ready_def word_less_nat_alt)
  from first_piece [OF ps le(1) room_def len_def] obtain k where
    k: "0 < k" "k \<le> length ps" "len = length (pairs_bytes (take k ps))" "off + len \<le> PAGE_SIZE"
    unfolding off_def by blast
  let ?c = "take k ps"
  from plan_continuations_pairs [OF small_tf_take_drop(2) [OF ps(2)], of ?c k] obtain cs where
    cs: "plan_continuations (pairs_bytes ps) len = Some (plan_of len cs)" "concat cs = drop k ps" "chunks_ok cs"
      "4074 * length cs \<le> length (pairs_bytes (drop k ps)) + 4073"
    unfolding append_take_drop_id k(3) by blast
  have split: "ps = ?c @ concat cs" using cs(2) by simp
  have bound: "4074 * length cs \<le> length (pairs_bytes (?c @ concat cs)) + 4073"
    unfolding cs(2) map_append concat_append length_append using cs(4) by (simp del: length_concat)
  have c: "?c \<noteq> []" using k(1) ps(1) by simp
  have len0: "len \<noteq> 0" unfolding k(3) using pairs_bytes_Nil [of ?c] c by (simp del: concat_eq_Nil_conv length_concat)
  have tid: "unat tid = (if room = 0 then unat (w_IndexBlockID w) + 1 else unat (w_IndexBlockID w))"
    using unat_next [OF le(2)] by (simp add: tid_def)
  define fits where "fits \<longleftrightarrow> unat tid + length cs < unat (w_IndexBlockCount w)"
  define w' where "w' = w\<lparr>w_IndexBlocks := write_planned (pairs_bytes (?c @ concat cs)) (unat tid + 1) (plan_of (length (pairs_bytes ?c)) cs)
                 ((w_IndexBlocks w)[unat tid := put off (pairs_bytes ?c) (w_IndexBlocks w ! unat tid)]),
               w_IndexBlockID := word_of_nat (unat tid + length cs),
               w_IndexOffsetInBlock := (if cs = [] then off + length (pairs_bytes ?c) else PAGE_SIZE),
               w_PostingIndexBlockID := word_of_nat (unat tid), w_PostingIndexOffset := off,
               w_PostingIndexLength := length (pairs_bytes ?c), w_PostingContinuationBlockCount := word_of_nat (length cs),
               w_HasIndexWrite := True\<rparr>"
  have run: "AddIndexBytes (pairs_bytes ps) w = (if fits then (True, w') else (False, w))"
  proof -
    have tk: "take len (pairs_bytes ps) = pairs_bytes ?c" unfolding k(3) by (rule pairs_bytes_cut(1))
    have "AddIndexBytes (pairs_bytes ps) w =
        (if tid \<ge> w_IndexBlockCount w then (False, w)
         else if 1 + length cs > unat (w_IndexBlockCount w) - unat tid then (False, w) else (True, w'))"
      unfolding AddIndexBytes_def Let_def room_def [symmetric] len_def [symmetric] tid_def [symmetric] off_def [symmetric]
        if_not_P [OF len0] cs(1) option.case length_plan_of tk plan_of_Nil
      unfolding w'_def split [symmetric] k(3) [symmetric] by simp
    then show ?thesis by (auto simp: fits_def word_le_nat_alt)
  qed
  show ?thesis
  proof (cases fits)
    case True
    have placed: "index_ready F w' \<and> index_ext (batch_index F w) (batch_index F w') \<and> placed (batch_index F w') (posting_loc w') (?c @ concat cs)"
      using place_batch [OF ready tid off_def _ _ c cs(3) bound w'_def] True k(4) unfolding fits_def k(3) by blast
    moreover have side: "leaf_side w w'" "w_HasIndexWrite w'" by (simp_all add: leaf_side_def w'_def)
    moreover have "unat (UsedIndexBlockCount w') \<le> unat (UsedIndexBlockCount w) + 1 + (length (pairs_bytes ps) + 4073) div 4074"
    proof -
      have "length cs \<le> (length (pairs_bytes ps) + 4073) div 4074"
        using bound [folded split] by (simp only: less_eq_div_iff_mult_less_eq mult.commute)
      moreover have "unat tid + length cs < 2 ^ 32"
        using True unat_bound [of "w_IndexBlockCount w"] unfolding fits_def by simp
      then have "unat (w_IndexBlockID w') = unat tid + length cs"
        by (simp add: w'_def unat32_of_nat del: of_nat_add)
      moreover have "unat tid \<le> unat (UsedIndexBlockCount w)"
      proof (cases "w_HasIndexWrite w")
        case True
        then show ?thesis using tid used_index [OF ready] by simp
      next
        case False
        then have "w_IndexBlockID w = 0" "w_IndexOffsetInBlock w = 0" using ready by (auto simp: index_ready_def)
        then show ?thesis using tid len0 by (simp add: len_def room_def split: if_splits)
      qed
      ultimately show ?thesis using used_index side(2) placed by auto
    qed
    ultimately show ?thesis using run True split by auto
  next
    case False
    have "\<not> (w_IndexBlockID w = 0 \<and> w_IndexOffsetInBlock w = 0 \<and> length (pairs_bytes ps) + 4073 < 4074 * (unat (w_IndexBlockCount w) - 1))"
    proof (intro notI, elim conjE)
      assume z: "w_IndexBlockID w = 0" "w_IndexOffsetInBlock w = 0"
        and small: "length (pairs_bytes ps) + 4073 < 4074 * (unat (w_IndexBlockCount w) - 1)"
      have "unat tid \<le> 1" using tid z(1) by simp
      moreover have "4074 * length cs < 4074 * (unat (w_IndexBlockCount w) - 1)"
        using le_less_trans [OF bound [folded split] small] .
      ultimately show False using False unfolding fits_def by linarith
    qed
    then show ?thesis using run False by simp
  qed
qed

subsection \<open>What the writer adds to its leaf pages\<close>

definition leaf_ready :: "LeafTermEntry list list \<Rightarrow> LeafTermEntry list \<Rightarrow> LeafTermBlockWriter \<Rightarrow> bool" where
  "leaf_ready full cur w \<longleftrightarrow> length (w_LeafBlocks w) = unat (w_LeafTermBlockCount w) \<and>
     unat (w_LeafBlockID w) = length full \<and> length full < unat (w_LeafTermBlockCount w) \<and>
     (\<forall>i < length full. full ! i \<noteq> [] \<and> leaf_done (w_LeafBlocks w ! i) (full ! i)) \<and>
     leaf_written (w_LeafBlocks w ! length full) cur \<and>
     (cur \<noteq> [] \<longrightarrow> unat (LTB_Directory (w_LeafBlocks w ! length full) ! 160) = length cur) \<and>
     w_LeafEntryCount w = length cur \<and> w_LeafWriteOffset w = entry_offset cur (length cur) \<and>
     (\<forall>i. length full < i \<and> i < unat (w_LeafTermBlockCount w) \<longrightarrow> w_LeafBlocks w ! i = LeafTermBlock_default)"

text \<open>The fields of the writer that the leaf side keeps.\<close>

definition index_side :: "LeafTermBlockWriter \<Rightarrow> LeafTermBlockWriter \<Rightarrow> bool" where
  "index_side w w' \<longleftrightarrow> w_IndexBlockCount w' = w_IndexBlockCount w \<and> w_IndexBlocks w' = w_IndexBlocks w \<and>
     w_IndexBlockID w' = w_IndexBlockID w \<and> w_IndexOffsetInBlock w' = w_IndexOffsetInBlock w \<and>
     w_IndexBlockBase w' = w_IndexBlockBase w \<and> w_HasIndexWrite w' = w_HasIndexWrite w \<and>
     w_LeafTermBlockCount w' = w_LeafTermBlockCount w"

lemma index_side_batch: "index_side w w' \<Longrightarrow> batch_index F w' = batch_index F w \<and> index_ready F w' = index_ready F w"
  by (simp add: index_side_def batch_index_def index_ready_def)

lemma leaf_side_ready: "leaf_side w w' \<Longrightarrow> leaf_ready full cur w' = leaf_ready full cur w"
  by (simp add: leaf_side_def leaf_ready_def)

lemma leaf_written_count:
  "leaf_written b es \<Longrightarrow> leaf_written (b\<lparr>LTB_Directory := (LTB_Directory b)[160 := n]\<rparr>) es"
  by (auto simp: leaf_written_def leaf_block_wf_def)

lemma lte_byte_len_merged [simp]: "lte_byte_len (merged_entry source w) = lte_byte_len source"
  by (simp add: merged_entry_def lte_byte_len_def)

lemma leaf_entry_wf_merged: "leaf_entry_wf source \<Longrightarrow> leaf_entry_wf (merged_entry source w)"
  by (simp add: merged_entry_def leaf_entry_wf_def)

text \<open>The part of \<open>AddLeafTermEntry\<close> after the page has been chosen.\<close>

lemma leaf_ready_write:
  assumes ready: "leaf_ready full cur w" and e: "leaf_entry_wf e" "lte_byte_len e = n"
    and room: "length cur < 160" "w_LeafWriteOffset w + n \<le> 3774"
    and w': "w' = (set_entry_count (w\<lparr>w_LeafBlocks := (w_LeafBlocks w)[unat (w_LeafBlockID w) :=
                     WriteLeafEntry (w_LeafBlocks w ! unat (w_LeafBlockID w)) (w_LeafEntryCount w) (w_LeafWriteOffset w) e],
                   w_LeafWriteOffset := w_LeafWriteOffset w + n, w_LeafEntryCount := w_LeafEntryCount w + 1\<rparr>))
               \<lparr>w_PostingIndexLength := 0, w_PostingContinuationBlockCount := 0\<rparr>"
  shows "leaf_ready full (cur @ [e]) w' \<and> index_side w w'"
proof -
  let ?i = "length full" and ?n = "unat (w_LeafTermBlockCount w)"
  have r: "unat (w_LeafBlockID w) = ?i" "?i < ?n" "length (w_LeafBlocks w) = ?n" "w_LeafEntryCount w = length cur"
    "w_LeafWriteOffset w = entry_offset cur (length cur)" "leaf_written (w_LeafBlocks w ! ?i) cur"
    using ready by (auto simp: leaf_ready_def)
  define b where "b = WriteLeafEntry (w_LeafBlocks w ! ?i) (length cur) (entry_offset cur (length cur)) e"
  define b' where "b' = b\<lparr>LTB_Directory := (LTB_Directory b)[160 := word_of_nat (length cur + 1)]\<rparr>"
  have blocks: "w_LeafBlocks w' = (w_LeafBlocks w)[?i := b']"
    using r by (simp add: w' set_entry_count_def Let_def b_def b'_def size_consts)
  have written: "leaf_written b (cur @ [e])"
    unfolding b_def using leaf_written_snoc [OF r(6) room(1) e(1)] room(2) e(2) r(5) by simp
  then have len: "length (LTB_Directory b) = 161" by (simp add: leaf_written_def leaf_block_wf_def size_consts)
  have "leaf_written b' (cur @ [e])" unfolding b'_def by (rule leaf_written_count [OF written])
  moreover have "unat (LTB_Directory b' ! 160) = length (cur @ [e])"
    using len room(1) by (simp add: b'_def unat16_of_nat del: of_nat_Suc of_nat_add)
  ultimately have "leaf_ready full (cur @ [e]) w'"
    using ready r e(2) unfolding leaf_ready_def blocks by (simp add: w' set_entry_count_def Let_def nth_list_update)
  moreover have "index_side w w'" by (simp add: w' index_side_def set_entry_count_def Let_def)
  ultimately show ?thesis ..
qed

lemma leaf_ready_next:
  assumes ready: "leaf_ready full cur w" and cur: "cur \<noteq> []" and room: "Suc (length full) < unat (w_LeafTermBlockCount w)"
    and w': "w' = (set_entry_count w)\<lparr>w_LeafBlockID := w_LeafBlockID w + 1, w_LeafWriteOffset := 0, w_LeafEntryCount := 0\<rparr>"
  shows "leaf_ready (full @ [cur]) [] w' \<and> index_side w w' \<and> merged_entry source w' = merged_entry source w"
proof -
  let ?i = "length full" and ?n = "unat (w_LeafTermBlockCount w)"
  have r: "unat (w_LeafBlockID w) = ?i" "length (w_LeafBlocks w) = ?n" "w_LeafEntryCount w = length cur"
    "leaf_written (w_LeafBlocks w ! ?i) cur" "unat (LTB_Directory (w_LeafBlocks w ! ?i) ! 160) = length cur"
    "w_LeafBlocks w ! Suc ?i = LeafTermBlock_default"
    using ready cur room by (auto simp: leaf_ready_def)
  have w160: "(LTB_Directory (w_LeafBlocks w ! ?i))[160 := word_of_nat (length cur)] = LTB_Directory (w_LeafBlocks w ! ?i)"
    unfolding r(5) [symmetric] by (simp add: unsigned_ucast_eq)
  have blocks: "w_LeafBlocks w' = w_LeafBlocks w"
    using r(1,3) w160 by (simp add: w' set_entry_count_def Let_def size_consts)
  have "w_LeafBlockID w < w_LeafTermBlockCount w" using room r(1) by (simp add: word_less_nat_alt)
  then have id: "unat (w_LeafBlockID w') = Suc ?i" using unat_next r(1) by (simp add: w')
  have fld: "w_LeafTermBlockCount w' = w_LeafTermBlockCount w" "w_LeafEntryCount w' = 0" "w_LeafWriteOffset w' = 0"
    by (simp_all add: w' set_entry_count_def Let_def)
  have "leaf_done (w_LeafBlocks w ! ?i) cur" using r(4,5) by (simp add: leaf_done_def)
  then have "leaf_ready (full @ [cur]) [] w'"
    unfolding leaf_ready_def blocks id fld using ready cur room r(6)
    by (auto simp: leaf_ready_def nth_append less_Suc_eq leaf_written_Nil entry_offset_def)
  moreover have "index_side w w'" "merged_entry source w' = merged_entry source w"
    by (simp_all add: w' index_side_def merged_entry_def set_entry_count_def Let_def)
  ultimately show ?thesis by simp
qed

lemma AddLeafTermEntry_ready:
  assumes ready: "leaf_ready full cur w" and source: "Current cursor = Some source" "leaf_entry_wf source"
    and can: "CanAddLeafTermEntry cursor w"
  shows "\<exists>w' full' cur'. AddLeafTermEntry cursor w = (True, w') \<and> leaf_ready full' cur' w' \<and> index_side w w' \<and>
    concat full' @ cur' = concat full @ cur @ [merged_entry source w]"
proof -
  let ?e = "merged_entry source w" and ?n = "lte_byte_len source"
  have short: "length (LTE_Term source) \<le> HEAD_TERM_KEY_MAX" "?n \<le> 3774"
    using source(2) by (auto simp: leaf_entry_wf_def lte_byte_len_def size_consts)
  have r: "w_LeafEntryCount w = length cur" "unat (w_LeafBlockID w) = length full" "w_LeafWriteOffset w = entry_offset cur (length cur)"
    "length cur \<le> 160"
    using ready by (auto simp: leaf_ready_def leaf_written_def)
  obtain w1 full1 cur1 where
    w1: "w1 = (if leaf_full source w then (set_entry_count w)\<lparr>w_LeafBlockID := w_LeafBlockID w + 1, w_LeafWriteOffset := 0, w_LeafEntryCount := 0\<rparr> else w)"
    and ready1: "leaf_ready full1 cur1 w1" "index_side w w1" "merged_entry source w1 = ?e" "concat full1 @ cur1 = concat full @ cur"
      "length cur1 < 160" "w_LeafWriteOffset w1 + ?n \<le> 3774"
  proof (cases "leaf_full source w")
    case True
    then have cur: "cur \<noteq> []" using r(1) by (auto simp: leaf_full_def)
    have "w_LeafBlockID w + 1 < w_LeafTermBlockCount w"
      using can True source(1) short by (simp add: CanAddLeafTermEntry_def size_consts)
    moreover have "unat (w_LeafBlockID w + 1) = Suc (length full)"
      using r(2) ready unat_next [of "w_LeafBlockID w" "w_LeafTermBlockCount w"] by (simp add: leaf_ready_def word_less_nat_alt)
    ultimately have "Suc (length full) < unat (w_LeafTermBlockCount w)" by (simp add: word_less_nat_alt)
    from leaf_ready_next [OF ready cur this refl, of source] show ?thesis
      using that [OF refl, of "full @ [cur]" "[]"] True short(2) by (simp add: leaf_ready_def entry_offset_def)
  next
    case False
    then have "length cur < 160 \<and> w_LeafWriteOffset w + ?n \<le> 3774"
      using r short(2) by (cases cur) (auto simp: leaf_full_def size_consts entry_offset_def)
    then show ?thesis using that [OF refl, of full cur] False ready by (simp add: index_side_def)
  qed
  define w2 where "w2 = (set_entry_count (w1\<lparr>w_LeafBlocks := (w_LeafBlocks w1)[unat (w_LeafBlockID w1) :=
                     WriteLeafEntry (w_LeafBlocks w1 ! unat (w_LeafBlockID w1)) (w_LeafEntryCount w1) (w_LeafWriteOffset w1) ?e],
                   w_LeafWriteOffset := w_LeafWriteOffset w1 + ?n, w_LeafEntryCount := w_LeafEntryCount w1 + 1\<rparr>))
               \<lparr>w_PostingIndexLength := 0, w_PostingContinuationBlockCount := 0\<rparr>"
  have "\<not> w_LeafBlockID w1 \<ge> w_LeafTermBlockCount w1" "\<not> ?n > PAGE_SIZE - LEAF_TERM_DATA_OFFSET"
    using ready1(1) short(2) by (auto simp: leaf_ready_def word_le_nat_alt size_consts)
  then have "AddLeafTermEntry cursor w = (True, w2)"
    unfolding AddLeafTermEntry_def source(1) option.case Let_def w1 [symmetric] ready1(3)
    using short(1) by (simp add: w2_def)
  moreover have "leaf_ready full1 (cur1 @ [?e]) w2 \<and> index_side w1 w2"
    using leaf_ready_write [OF ready1(1) leaf_entry_wf_merged [OF source(2)] _ ready1(5,6) w2_def] by simp
  moreover from this have "index_side w w2" using ready1(2) by (simp add: index_side_def)
  ultimately show ?thesis using ready1(4) by (metis append.assoc)
qed

subsection \<open>The state of a merge\<close>

text \<open>
  \<open>merge_inv\<close>: the terms \<open>ts\<close> have been merged. \<open>F\<close> are the index pages dumped, \<open>lb\<close> holds the leaf pages
  and head entries dumped, with the entries \<open>fin\<close>; \<open>full\<close> and \<open>cur\<close> are the entries on the leaf pages of
  the batch. Every entry points at its posting list.
\<close>

definition merged_for :: "(nat \<Rightarrow> rat) \<Rightarrow> index_build \<Rightarrow> rstr \<times> PostingList \<Rightarrow> LeafTermEntry \<Rightarrow> bool" where
  "merged_for l ib t e \<longleftrightarrow> entry_for l ib t (e\<lparr>LTE_Flags := 0\<rparr>)"

lemma merged_for_ext: "merged_for l ib t e \<Longrightarrow> index_ext ib ib' \<Longrightarrow> merged_for l ib' t e"
  unfolding merged_for_def by (rule entry_for_ext)

definition files_hold :: "bytes list \<Rightarrow> leaf_build \<Rightarrow> LeafTermEntry list list \<Rightarrow> merge_files \<Rightarrow> bool" where
  "files_hold F lb fin files \<longleftrightarrow> leaf_inv lb fin [] \<and>
     headFile files = concat (map hte_to_bytes (lb_heads lb)) \<and> leafFile files = concat (map leaf_to_bytes (lb_blocks lb)) \<and>
     indexFile files = concat F \<and> headEntryCount files = word_of_nat (length fin) \<and>
     totalTerms files = word_of_nat (length (concat fin)) \<and> indexBlockCount files = word_of_nat (length F)"

text \<open>How many index pages the posting lists of some terms may take.\<close>

definition page_bound :: "(nat \<Rightarrow> rat) \<Rightarrow> (rstr \<times> PostingList) list \<Rightarrow> nat" where
  "page_bound l ts = sum_list (map (\<lambda>t. 1 + (length (get_bytes l (snd t)) + 4073) div 4074) ts)"

definition merge_inv ::
  "(nat \<Rightarrow> rat) \<Rightarrow> (rstr \<times> PostingList) list \<Rightarrow> bytes list \<Rightarrow> leaf_build \<Rightarrow> LeafTermEntry list list \<Rightarrow>
   LeafTermEntry list list \<Rightarrow> LeafTermEntry list \<Rightarrow> LeafTermBlockWriter \<Rightarrow> merge_files \<Rightarrow> bool" where
  "merge_inv l ts F lb fin full cur w files \<longleftrightarrow> index_ready F w \<and> leaf_ready full cur w \<and> files_hold F lb fin files \<and>
     list_all2 (merged_for l (batch_index F w)) ts (concat fin @ concat full @ cur) \<and>
     (w_HasIndexWrite w \<longleftrightarrow> full \<noteq> [] \<or> cur \<noteq> []) \<and> w_IndexBlockCount w = MERGED_INDEX_BLOCK_LIMIT \<and>
     length F + unat (UsedIndexBlockCount w) \<le> page_bound l ts"

lemma leaf_done_entry:
  assumes "leaf_done b es"
  shows "entry_count b = length es" and "i < length es \<Longrightarrow> leaf_entry b i = Some (es ! i)"
proof -
  have "leaf_block_wf b" using assms by (simp add: leaf_done_def leaf_written_def)
  with leaf_done_holds [OF assms] show "entry_count b = length es" "i < length es \<Longrightarrow> leaf_entry b i = Some (es ! i)"
    by (simp_all add: leaf_holds_def leaf_view_to_bytes)
qed

lemma dump_leaf_inv:
  assumes inv: "leaf_inv lb fin []" and b: "leaf_done b es" "es \<noteq> []"
  shows "\<exists>h. leaf_entry b 0 = Some (hd es) \<and> HeadTermEntry_new (LTE_Term (hd es)) (word_of_nat (length fin)) = Some h \<and>
    leaf_inv (lb\<lparr>lb_blocks := lb_blocks lb @ [b], lb_heads := lb_heads lb @ [h]\<rparr>) (fin @ [es]) []"
proof -
  have wf: "leaf_entry_wf (hd es)" using b by (auto simp: leaf_done_def leaf_written_def)
  then obtain h where h: "HeadTermEntry_new (LTE_Term (hd es)) (word_of_nat (length fin)) = Some h"
    by (auto simp: HeadTermEntry_new_def leaf_entry_wf_def)
  have "utf8_valid (LTE_Term (hd es))" using wf by (simp add: leaf_entry_wf_def)
  note first = first_term_new [OF h this]
  have "leaf_entry b 0 = Some (hd es)" using leaf_done_entry(2) [OF b(1), of 0] b(2) by (simp add: hd_conv_nth)
  moreover have "leaf_inv (lb\<lparr>lb_blocks := lb_blocks lb @ [b], lb_heads := lb_heads lb @ [h]\<rparr>) (fin @ [es]) []"
    using inv b first by (auto simp: leaf_inv_def nth_append less_Suc_eq head_entry_wf_def)
  ultimately show ?thesis using h by blast
qed

lemma dump_leaves_hold:
  assumes "files_hold F lb fin files" and "list_all2 (\<lambda>b es. leaf_done b es \<and> es \<noteq> []) bs ess"
  shows "\<exists>lb' files'. dump_leaves (word_of_nat (length fin)) bs files = Some (Inr files') \<and>
    leaf_inv lb' (fin @ ess) [] \<and> headFile files' = concat (map hte_to_bytes (lb_heads lb')) \<and>
    leafFile files' = concat (map leaf_to_bytes (lb_blocks lb')) \<and> indexFile files' = indexFile files \<and>
    headEntryCount files' = headEntryCount files \<and> indexBlockCount files' = indexBlockCount files \<and>
    totalTerms files' = word_of_nat (length (concat (fin @ ess)))"
proof -
  have "leaf_inv lb fin [] \<Longrightarrow> headFile files = concat (map hte_to_bytes (lb_heads lb)) \<Longrightarrow>
    leafFile files = concat (map leaf_to_bytes (lb_blocks lb)) \<Longrightarrow> totalTerms files = word_of_nat (length (concat fin)) \<Longrightarrow> ?thesis"
    using assms(2)
  proof (induction bs ess arbitrary: lb fin files rule: list_all2_induct)
    case Nil
    then show ?case by (intro exI [of _ lb] exI [of _ files]) simp
  next
    case (Cons b bs es ess)
    from dump_leaf_inv [OF Cons.prems(1)] Cons.hyps(1) obtain h where
      h: "leaf_entry b 0 = Some (hd es)" "HeadTermEntry_new (LTE_Term (hd es)) (word_of_nat (length fin)) = Some h"
        "leaf_inv (lb\<lparr>lb_blocks := lb_blocks lb @ [b], lb_heads := lb_heads lb @ [h]\<rparr>) (fin @ [es]) []" by blast
    let ?lb = "lb\<lparr>lb_blocks := lb_blocks lb @ [b], lb_heads := lb_heads lb @ [h]\<rparr>"
    let ?n = "min (entry_count b) (LEAF_TERM_DIRECTORY_COUNT - 1)"
    let ?f = "files\<lparr>headFile := headFile files @ hte_to_bytes h, leafFile := leafFile files @ leaf_to_bytes b,
                        totalTerms := totalTerms files + word_of_nat ?n\<rparr>"
    have n: "?n = length es"
      using leaf_done_entry(1) [of b es] Cons.hyps(1) by (auto simp: leaf_done_def leaf_written_def size_consts min_def)
    have "totalTerms ?f = word_of_nat (length (concat (fin @ [es])))"
      unfolding n using Cons.prems(4) by simp
    from Cons.IH [of ?lb "fin @ [es]" ?f, OF h(3) _ _ this] Cons.prems(2,3) obtain lb' files' where
      IH: "dump_leaves (word_of_nat (length (fin @ [es]))) bs ?f = Some (Inr files')" "leaf_inv lb' (fin @ es # ess) []"
      "headFile files' = concat (map hte_to_bytes (lb_heads lb'))" "leafFile files' = concat (map leaf_to_bytes (lb_blocks lb'))"
      "indexFile files' = indexFile files" "headEntryCount files' = headEntryCount files" "indexBlockCount files' = indexBlockCount files"
      "totalTerms files' = word_of_nat (length (concat (fin @ es # ess)))"
      by auto
    have "dump_leaves (word_of_nat (length fin)) (b # bs) files = dump_leaves (word_of_nat (length (fin @ [es]))) bs ?f"
      using h(1,2) by (simp add: add.commute)
    with IH show ?case by (intro exI [of _ lb'] exI [of _ files']) simp
  qed
  then show ?thesis using assms(1) by (simp add: files_hold_def)
qed

lemma batch_index_reset:
  assumes "index_ready F w" and "w_HasIndexWrite w" and "F' = F @ take (unat (UsedIndexBlockCount w)) (w_IndexBlocks w)"
  shows "unat (UsedIndexBlockCount w) = Suc (unat (w_IndexBlockID w))"
    and "batch_index F' (ResetWrite (word_of_nat (length F')) w) = flush_index_block (batch_index F w)"
    and "index_ready F' (ResetWrite (word_of_nat (length F')) w)"
proof -
  let ?id = "unat (w_IndexBlockID w)"
  have r: "?id < length (w_IndexBlocks w)" "length (w_IndexBlocks w) = unat (w_IndexBlockCount w)"
    using assms(1) by (auto simp: index_ready_def)
  then have "w_IndexBlockID w < w_IndexBlockCount w" by (simp add: word_less_nat_alt)
  then show used: "unat (UsedIndexBlockCount w) = Suc ?id"
    using unat_next assms(2) by (simp add: UsedIndexBlockCount_def)
  have F': "F' = (F @ take ?id (w_IndexBlocks w)) @ [w_IndexBlocks w ! ?id]"
    unfolding assms(3) used using r(1) by (simp add: take_Suc_conv_app_nth)
  have zero: "map (\<lambda>_. replicate PAGE_SIZE 0) (w_IndexBlocks w) ! 0 = (replicate PAGE_SIZE 0 :: bytes)"
    using r(1) by (cases "w_IndexBlocks w") auto
  show "batch_index F' (ResetWrite (word_of_nat (length F')) w) = flush_index_block (batch_index F w)"
    using r(1) zero unfolding batch_index_def flush_index_block_def ResetWrite_def
    by (simp add: F')
  show "index_ready F' (ResetWrite (word_of_nat (length F')) w)"
    using assms(1) r unfolding index_ready_def assms(3) by (auto simp: ResetWrite_def dest: in_set_takeD)
qed

lemma leaf_ready_used:
  assumes "leaf_ready full cur w" and "ess = full @ (if cur = [] then [] else [cur])"
  shows "unat (UsedLeafBlockCount w) = length ess"
    and "list_all2 (\<lambda>b es. leaf_done b es \<and> es \<noteq> []) (take (unat (UsedLeafBlockCount w)) (w_LeafBlocks w)) ess"
    and "leaf_ready [] [] (ResetWrite base w)"
proof -
  have r: "unat (w_LeafBlockID w) = length full" "w_LeafEntryCount w = length cur" "length full < unat (w_LeafTermBlockCount w)"
    "length (w_LeafBlocks w) = unat (w_LeafTermBlockCount w)"
    "\<forall>i < length full. full ! i \<noteq> [] \<and> leaf_done (w_LeafBlocks w ! i) (full ! i)"
    "cur \<noteq> [] \<Longrightarrow> leaf_done (w_LeafBlocks w ! length full) cur"
    using assms(1) by (auto simp: leaf_ready_def leaf_done_def)
  then have "unat (w_LeafBlockID w + 1) = Suc (length full)"
    using unat_next [of "w_LeafBlockID w" "w_LeafTermBlockCount w"] by (simp add: word_less_nat_alt)
  then show used: "unat (UsedLeafBlockCount w) = length ess"
    using r(1,2) by (simp add: UsedLeafBlockCount_def assms(2))
  show "list_all2 (\<lambda>b es. leaf_done b es \<and> es \<noteq> []) (take (unat (UsedLeafBlockCount w)) (w_LeafBlocks w)) ess"
    unfolding used list_all2_conv_all_nth using r(3-6) by (auto simp: assms(2) nth_append less_Suc_eq)
  have "w_LeafBlocks (ResetWrite base w) ! i = LeafTermBlock_default" if "i < unat (w_LeafTermBlockCount w)" for i
    using that r(4) by (simp add: ResetWrite_def)
  then show "leaf_ready [] [] (ResetWrite base w)"
    using r(3,4) by (simp add: leaf_ready_def leaf_written_Nil entry_offset_def) (simp add: ResetWrite_def)
qed

lemma DumpBatch_inv:
  assumes inv: "merge_inv l ts F lb fin full cur w files"
  shows "\<exists>F' lb' fin' w' files'. DumpBatch w files = Some (Inr (w', files')) \<and>
    merge_inv l ts F' lb' fin' [] [] w' files' \<and> (w_HasIndexWrite w \<longrightarrow> headEntryCount files \<noteq> headEntryCount files')"
proof (cases "w_HasIndexWrite w")
  case False
  then have "full = []" "cur = []" using inv by (auto simp: merge_inv_def)
  moreover from this have "w_LeafBlockID w = 0" "w_LeafEntryCount w = 0"
    using inv by (auto simp: merge_inv_def leaf_ready_def word_unat_eq_iff)
  then have "DumpBatch w files = Some (Inr (w, files))"
    using False by (simp add: DumpBatch_def UsedLeafBlockCount_def UsedIndexBlockCount_def)
  ultimately show ?thesis using inv False by blast
next
  case True
  define ess where "ess = full @ (if cur = [] then [] else [cur])"
  define F' where "F' = F @ take (unat (UsedIndexBlockCount w)) (w_IndexBlocks w)"
  have i: "index_ready F w" "leaf_ready full cur w" "files_hold F lb fin files"
      "list_all2 (merged_for l (batch_index F w)) ts (concat fin @ concat full @ cur)"
      "w_IndexBlockCount w = MERGED_INDEX_BLOCK_LIMIT" "full \<noteq> [] \<or> cur \<noteq> []"
      "length F + unat (UsedIndexBlockCount w) \<le> page_bound l ts"
    using inv True by (auto simp: merge_inv_def)
  note used = batch_index_reset [OF i(1) True F'_def] and leaf = leaf_ready_used [OF i(2) ess_def]
  from dump_leaves_hold [OF i(3) leaf(2)] obtain lb' files1 where
    d: "dump_leaves (word_of_nat (length fin)) (take (unat (UsedLeafBlockCount w)) (w_LeafBlocks w)) files = Some (Inr files1)"
      "leaf_inv lb' (fin @ ess) []" "headFile files1 = concat (map hte_to_bytes (lb_heads lb'))"
      "leafFile files1 = concat (map leaf_to_bytes (lb_blocks lb'))" "indexFile files1 = indexFile files"
      "headEntryCount files1 = headEntryCount files" "indexBlockCount files1 = indexBlockCount files"
      "totalTerms files1 = word_of_nat (length (concat (fin @ ess)))" by blast
  have h: "headEntryCount files = word_of_nat (length fin)" "indexFile files = concat F" "indexBlockCount files = word_of_nat (length F)"
    using i(3) by (auto simp: files_hold_def)
  have ess: "0 < length ess" using i(6) by (auto simp: ess_def)
  have "UsedLeafBlockCount w \<noteq> 0" using leaf(1) ess by auto
  define files' where "files' = files1\<lparr>indexFile := indexFile files1 @ concat (take (unat (UsedIndexBlockCount w)) (w_IndexBlocks w)),
                               headEntryCount := headEntryCount files1 + ucast (UsedLeafBlockCount w),
                               indexBlockCount := indexBlockCount files1 + UsedIndexBlockCount w\<rparr>"
  have "unat (UsedIndexBlockCount w) \<le> length (w_IndexBlocks w)"
    using used(1) i(1) by (simp add: index_ready_def)
  then have pages: "length F' = length F + unat (UsedIndexBlockCount w)" by (simp add: F'_def)
  then have count: "indexBlockCount files' = word_of_nat (length F')"
    by (simp add: files'_def d(7) h(3) unsigned_ucast_eq)
  have ids: "(ucast (headEntryCount files) :: u32) = word_of_nat (length fin)"
    by (simp add: h(1) word_unat_eq_iff unat_of_nat unsigned_ucast_eq take_bit_eq_mod unat_mod_distrib mod_mod_cancel)
  have "DumpBatch w files = Some (Inr (ResetWrite (word_of_nat (length F')) w, files'))"
    using d(1) \<open>UsedLeafBlockCount w \<noteq> 0\<close> count
    unfolding DumpBatch_def Let_def ids files'_def by simp
  moreover have heads: "headEntryCount files' = word_of_nat (length (fin @ ess))"
    by (simp add: files'_def d(6) h(1) leaf(1) [symmetric])
  moreover have "headEntryCount files \<noteq> headEntryCount files'"
  proof
    assume "headEntryCount files = headEntryCount files'"
    then have "(ucast (UsedLeafBlockCount w) :: u64) = 0" by (simp add: files'_def d(6))
    then show False using leaf(1) ess unat_up [of "UsedLeafBlockCount w"] by simp
  qed
  moreover have "files_hold F' lb' (fin @ ess) files'"
    unfolding files_hold_def heads count using d(2-5,8) h(2) by (simp add: files'_def F'_def)
  moreover have "list_all2 (merged_for l (flush_index_block (batch_index F w))) ts (concat (fin @ ess))"
  proof -
    have "concat (fin @ ess) = concat fin @ concat full @ cur" by (simp add: ess_def)
    then show ?thesis using i(4) flush_index_block_ext [OF batch_index_wf [OF i(1)]]
      by (auto intro: list_all2_mono merged_for_ext)
  qed
  moreover have "w_IndexBlockCount (ResetWrite x w) = MERGED_INDEX_BLOCK_LIMIT" "\<not> w_HasIndexWrite (ResetWrite x w)"
    "length F' + unat (UsedIndexBlockCount (ResetWrite x w)) \<le> page_bound l ts" for x
    using i(5,7) pages by (simp_all add: ResetWrite_def UsedIndexBlockCount_def)
  ultimately have "DumpBatch w files = Some (Inr (ResetWrite (word_of_nat (length F')) w, files'))"
    "merge_inv l ts F' lb' (fin @ ess) [] [] (ResetWrite (word_of_nat (length F')) w) files'"
    "headEntryCount files \<noteq> headEntryCount files'"
    using used(2,3) leaf(3) by (simp_all add: merge_inv_def)
  then show ?thesis by blast
qed

subsection \<open>One term\<close>

definition list_ok :: "(nat \<Rightarrow> rat) \<Rightarrow> rstr \<times> PostingList \<Rightarrow> bool" where
  "list_ok l = (\<lambda>(key, pl). entries pl \<noteq> [] \<and> small_tf (posting_pairs l (entries pl)) \<and>
     length (get_bytes l pl) \<le> POSTING_SCRATCH_BYTES)"

definition entry_of :: "rstr \<times> PostingList \<Rightarrow> LeafTermEntry \<Rightarrow> bool" where
  "entry_of = (\<lambda>(key, pl) e. LTE_Term e = key \<and> LTE_DocFreq e = doc_freq pl \<and> leaf_entry_wf e)"

text \<open>What \<open>add_both\<close> and \<open>add_single\<close> have in common.\<close>

definition add_posting :: "LeafTermBlockView \<Rightarrow> bytes \<Rightarrow> u32 \<Rightarrow> LeafTermBlockWriter \<Rightarrow> bool \<times> LeafTermBlockWriter" where
  "add_posting cursor bytes df w =
     (if CanAddLeafTermEntry cursor w then
        case AddIndexBytes bytes w of
          (False, w) \<Rightarrow> (False, w)
        | (True, w) \<Rightarrow> AddLeafTermEntry cursor (w\<lparr>w_DocFreq := df\<rparr>)
      else (False, w))"

lemma add_posting_inv:
  assumes inv: "merge_inv l ts F lb fin full cur w files" and t: "list_ok l (key, pl)"
    and source: "Current cursor = Some source" "LTE_Term source = key" "leaf_entry_wf source"
  shows "add_posting cursor (get_bytes l pl) (doc_freq pl) w = (False, w) \<and> w_HasIndexWrite w \<or>
    (\<exists>w' full' cur'. add_posting cursor (get_bytes l pl) (doc_freq pl) w = (True, w') \<and>
       merge_inv l (ts @ [(key, pl)]) F lb fin full' cur' w' files)"
proof -
  let ?ps = "posting_pairs l (entries pl)"
  have ps: "?ps \<noteq> []" "small_tf ?ps" and short: "length (get_bytes l pl) \<le> 8192000"
    using t by (auto simp: list_ok_def POSTING_SCRATCH_BYTES_def PAGE_SIZE_def)
  have bytes: "get_bytes l pl = pairs_bytes ?ps" by (simp add: get_bytes_def encode_pairs)
  have i: "index_ready F w" "leaf_ready full cur w" "files_hold F lb fin files"
      "list_all2 (merged_for l (batch_index F w)) ts (concat fin @ concat full @ cur)"
      "w_IndexBlockCount w = MERGED_INDEX_BLOCK_LIMIT" "w_HasIndexWrite w \<longleftrightarrow> full \<noteq> [] \<or> cur \<noteq> []"
      "length F + unat (UsedIndexBlockCount w) \<le> page_bound l ts"
    using inv by (auto simp: merge_inv_def)
  have limit: "unat (w_IndexBlockCount w) = 32768" by (simp add: i(5) MERGED_INDEX_BLOCK_LIMIT_def)
  have small: "length (pairs_bytes ?ps) + 4073 < 4074 * (unat (w_IndexBlockCount w) - 1)"
    using short unfolding bytes limit by simp
  have fresh: "w_IndexBlockID w = 0 \<and> w_IndexOffsetInBlock w = 0 \<and> full = [] \<and> cur = []" if "\<not> w_HasIndexWrite w"
    using that i(1,6) by (simp add: index_ready_def)
  show ?thesis
  proof (cases "CanAddLeafTermEntry cursor w")
    case False
    have "w_HasIndexWrite w"
    proof (rule ccontr)
      assume "\<not> w_HasIndexWrite w"
      with fresh i(2) have "w_LeafEntryCount w = 0" "w_LeafBlockID w < w_LeafTermBlockCount w"
        by (auto simp: leaf_ready_def word_less_nat_alt)
      then have "CanAddLeafTermEntry cursor w"
        using source(1,3) by (simp add: CanAddLeafTermEntry_def leaf_full_def leaf_entry_wf_def lte_byte_len_def size_consts)
      with False show False ..
    qed
    then show ?thesis using False by (simp add: add_posting_def)
  next
    case True
    from AddIndexBytes_placed [OF i(1) ps] consider
      (no) "AddIndexBytes (pairs_bytes ?ps) w = (False, w)" "w_HasIndexWrite w"
    | (yes) w1 where "AddIndexBytes (pairs_bytes ?ps) w = (True, w1)" "index_ready F w1"
        "index_ext (batch_index F w) (batch_index F w1)" "placed (batch_index F w1) (posting_loc w1) ?ps" "leaf_side w w1"
        "w_HasIndexWrite w1"
        "unat (UsedIndexBlockCount w1) \<le> unat (UsedIndexBlockCount w) + 1 + (length (pairs_bytes ?ps) + 4073) div 4074"
      using fresh small by blast
    then show ?thesis
    proof cases
      case no
      then show ?thesis using True by (simp add: add_posting_def bytes)
    next
      case yes
      let ?w2 = "w1\<lparr>w_DocFreq := doc_freq pl\<rparr>"
      have side: "leaf_side w ?w2" using yes(5) by (simp add: leaf_side_def)
      have ready: "leaf_ready full cur ?w2" using leaf_side_ready [OF side] i(2) by simp
      have same: "index_side w1 ?w2" by (simp add: index_side_def)
      have "leaf_full source ?w2 = leaf_full source w" using side by (simp add: leaf_full_def leaf_side_def)
      then have "CanAddLeafTermEntry cursor ?w2 = CanAddLeafTermEntry cursor w"
        using side unfolding CanAddLeafTermEntry_def source(1) option.case by (simp add: leaf_side_def)
      then have "CanAddLeafTermEntry cursor ?w2" using True by simp
      from AddLeafTermEntry_ready [OF ready source(1,3) this] obtain w' full' cur' where
        w': "AddLeafTermEntry cursor ?w2 = (True, w')" "leaf_ready full' cur' w'" "index_side ?w2 w'"
          "concat full' @ cur' = concat full @ cur @ [merged_entry source ?w2]" by blast
      have keep: "batch_index F w' = batch_index F w1" "index_ready F w'" "w_HasIndexWrite w'" "w_IndexBlockCount w' = MERGED_INDEX_BLOCK_LIMIT"
        using index_side_batch [OF w'(3), of F] index_side_batch [OF same, of F] yes(2,5,6) w'(3) i(5)
        by (auto simp: index_side_def leaf_side_def)
      have "(merged_entry source ?w2)\<lparr>LTE_Flags := 0\<rparr> = leaf_entry_of key pl (posting_loc w1)"
        using source(2,3) by (simp add: merged_entry_def leaf_entry_of_def posting_loc_def leaf_entry_wf_def)
      then have "merged_for l (batch_index F w1) (key, pl) (merged_entry source ?w2)"
        using yes(4) by (auto simp: merged_for_def entry_for_def simp del: split_paired_Ex)
      moreover have "list_all2 (merged_for l (batch_index F w1)) ts (concat fin @ concat full @ cur)"
        using i(4) yes(3) by (auto intro: list_all2_mono merged_for_ext)
      ultimately have "list_all2 (merged_for l (batch_index F w1)) (ts @ [(key, pl)]) ((concat fin @ concat full @ cur) @ [merged_entry source ?w2])"
        by (intro list_all2_appendI) simp_all
      then have "list_all2 (merged_for l (batch_index F w')) (ts @ [(key, pl)]) (concat fin @ concat full' @ cur')"
        unfolding keep(1) w'(4) by simp
      moreover have "full' \<noteq> [] \<or> cur' \<noteq> []" using w'(4) by auto
      moreover have "length F + unat (UsedIndexBlockCount w') \<le> page_bound l (ts @ [(key, pl)])"
      proof -
        have "UsedIndexBlockCount w' = UsedIndexBlockCount w1"
          using w'(3) same by (simp add: index_side_def UsedIndexBlockCount_def)
        moreover have "page_bound l (ts @ [(key, pl)]) = page_bound l ts + 1 + (length (pairs_bytes ?ps) + 4073) div 4074"
          by (simp add: page_bound_def bytes)
        ultimately show ?thesis using yes(7) i(7) by (simp del: length_concat)
      qed
      ultimately have "merge_inv l (ts @ [(key, pl)]) F lb fin full' cur' w' files"
        using keep w'(2) i(3) by (simp add: merge_inv_def)
      moreover have "add_posting cursor (get_bytes l pl) (doc_freq pl) w = (True, w')"
        using True yes(1) w'(1) by (simp add: add_posting_def bytes)
      ultimately show ?thesis by blast
    qed
  qed
qed

subsection \<open>The loop\<close>

text \<open>The terms of two dictionaries in order; a term of both has the entries of the first before those of the second.\<close>

fun merge_terms :: "(rstr \<times> PostingList) list \<Rightarrow> (rstr \<times> PostingList) list \<Rightarrow> (rstr \<times> PostingList) list" where
  "merge_terms [] ys = ys"
| "merge_terms xs [] = xs"
| "merge_terms ((k, p) # xs) ((k', q) # ys) =
     (if k < k' then (k, p) # merge_terms xs ((k', q) # ys)
      else if k' < k then (k', q) # merge_terms ((k, p) # xs) ys
      else (k, \<lparr>entries = entries p @ entries q\<rparr>) # merge_terms xs ys)"

fun cursor_on :: "(nat \<Rightarrow> rat) \<Rightarrow> (rstr \<times> PostingList) list \<Rightarrow> LeafTermBlockView \<Rightarrow> bool" where
  "cursor_on l [] v \<longleftrightarrow> Current v = None"
| "cursor_on l ((key, pl) # ts) v \<longleftrightarrow> (\<exists>e. Current v = Some e \<and> entry_of (key, pl) e) \<and>
     PostingBytes v = Some (get_bytes l pl) \<and> cursor_on l ts (Advance v)"

lemma get_bytes_append:
  "get_bytes l \<lparr>entries = es @ fs\<rparr> = get_bytes l \<lparr>entries = es\<rparr> @ get_bytes l \<lparr>entries = fs\<rparr>"
  by (simp add: get_bytes_def encode_def)

lemma doc_freq_append: "doc_freq \<lparr>entries = es @ fs\<rparr> = doc_freq \<lparr>entries = es\<rparr> + doc_freq \<lparr>entries = fs\<rparr>"
  by (simp add: doc_freq_def)

lemma PostingList_entries [simp]: "\<lparr>entries = entries pl\<rparr> = (pl :: PostingList)"
  by simp

lemma add_single_posting:
  assumes "cursor_on l ((key, pl) # ts) v" and "list_ok l (key, pl)"
  shows "add_single v w = add_posting v (get_bytes l pl) (doc_freq pl) w"
  using assms
  by (auto simp: add_single_def add_posting_def AddIndex_def list_ok_def entry_of_def split: prod.splits bool.splits)

lemma add_both_posting:
  assumes "cursor_on l ((key, p) # xs) b" and "cursor_on l ((key, q) # ys) d" and "list_ok l (key, \<lparr>entries = entries p @ entries q\<rparr>)"
  shows "add_both b d w = add_posting b (get_bytes l \<lparr>entries = entries p @ entries q\<rparr>) (doc_freq \<lparr>entries = entries p @ entries q\<rparr>) w"
proof -
  have "length (get_bytes l p) + length (get_bytes l q) \<le> POSTING_SCRATCH_BYTES"
    using assms(3) by (simp add: list_ok_def get_bytes_append)
  then have fits: "\<not> (length (get_bytes l p) > POSTING_SCRATCH_BYTES \<or> length (get_bytes l q) > POSTING_SCRATCH_BYTES - length (get_bytes l p))"
    by linarith
  obtain e f where "Current b = Some e" "Current d = Some f" "LTE_DocFreq e = doc_freq p" "LTE_DocFreq f = doc_freq q"
    "PostingBytes b = Some (get_bytes l p)" "PostingBytes d = Some (get_bytes l q)"
    using assms(1,2) by (auto simp: entry_of_def)
  then show ?thesis
    unfolding add_both_def add_posting_def AddIndexPair_def get_bytes_append doc_freq_append PostingList_entries
    using fits by (simp split: prod.splits bool.splits)
qed

text \<open>
  An iteration that adds the term \<open>(key, pl)\<close> and advances the cursors it was taken from: either at
  once or after the batch has been dumped.
\<close>

lemma merge_loop_step:
  assumes inv: "merge_inv l ts F lb fin full cur w files" and t: "list_ok l (key, pl)"
    and source: "Current c = Some source" "LTE_Term source = key" "leaf_entry_wf source"
    and tb: "tb = (Current b \<noteq> None \<and> (Current d = None \<or> \<not> LessThan d b))"
    and td: "td = (Current d \<noteq> None \<and> (Current b = None \<or> \<not> LessThan b d))"
    and add: "\<And>w. (if tb \<and> td then add_both b d w else if tb then add_single b w else add_single d w) =
      add_posting c (get_bytes l pl) (doc_freq pl) w"
    and move: "tb \<or> td" "b' = (if tb then Advance b else b)" "d' = (if td then Advance d else d)"
  shows "\<exists>F' lb' fin' full' cur' w' files'. merge_loop b d w files = merge_loop b' d' w' files' \<and>
    merge_inv l (ts @ [(key, pl)]) F' lb' fin' full' cur' w' files'"
proof -
  have some: "\<not> (Current b = None \<and> Current d = None)" using move(1) tb td by auto
  have step: "merge_step b d w files =
      (case add_posting c (get_bytes l pl) (doc_freq pl) w of
         (True, w) \<Rightarrow> Some (Inr (b', d', w, files))
       | (False, w) \<Rightarrow> (case dump_full w files of
            None \<Rightarrow> None | Some (Inl err) \<Rightarrow> Some (Inl err) | Some (Inr (w, files)) \<Rightarrow> Some (Inr (b, d, w, files))))" for w files
    unfolding merge_step_def Let_def tb [symmetric] td [symmetric] add move(2,3) using move(1) by simp
  have now: "merge_loop b d w files = merge_loop b' d' w' files"
    if "add_posting c (get_bytes l pl) (doc_freq pl) w = (True, w')" for w w' files
    using some that by (subst merge_loop.simps) (auto simp: step)
  from add_posting_inv [OF inv t source] consider
    (full) "add_posting c (get_bytes l pl) (doc_freq pl) w = (False, w)" "w_HasIndexWrite w"
  | (taken) w' full' cur' where "add_posting c (get_bytes l pl) (doc_freq pl) w = (True, w')"
      "merge_inv l (ts @ [(key, pl)]) F lb fin full' cur' w' files" by blast
  then show ?thesis
  proof cases
    case taken
    then show ?thesis using now by blast
  next
    case full
    from DumpBatch_inv [OF inv] full(2) obtain F1 lb1 fin1 w1 files1 where
      d: "DumpBatch w files = Some (Inr (w1, files1))" "merge_inv l ts F1 lb1 fin1 [] [] w1 files1"
        "headEntryCount files \<noteq> headEntryCount files1" by blast
    have "merge_step b d w files = Some (Inr (b, d, w1, files1))"
      using d(1,3) by (simp add: step full(1) dump_full_def)
    then have again: "merge_loop b d w files = merge_loop b d w1 files1"
      using some by (subst merge_loop.simps) auto
    have "\<not> w_HasIndexWrite w1" using d(2) by (simp add: merge_inv_def)
    with add_posting_inv [OF d(2) t source] obtain w' full' cur' where
      "add_posting c (get_bytes l pl) (doc_freq pl) w1 = (True, w')" "merge_inv l (ts @ [(key, pl)]) F1 lb1 fin1 full' cur' w' files1"
      by blast
    then show ?thesis using again now by (metis (no_types, lifting))
  qed
qed

lemma merge_loop_terms:
  assumes "cursor_on l xs b" and "cursor_on l ys d" and "list_all (list_ok l) (merge_terms xs ys)"
    and "merge_inv l ts F lb fin full cur w files"
  shows "\<exists>F' lb' fin' full' cur' w' files'. merge_loop b d w files = Some (Inr (w', files')) \<and>
    merge_inv l (ts @ merge_terms xs ys) F' lb' fin' full' cur' w' files'"
  using assms
proof (induction xs ys arbitrary: b d ts F lb fin full cur w files rule: merge_terms.induct)
  case (1 ys)
  then show ?case
  proof (induction ys arbitrary: d ts F lb fin full cur w files)
    case Nil
    then show ?case by (subst merge_loop.simps) (simp, blast)
  next
    case (Cons t ys)
    obtain key pl where t: "t = (key, pl)" by force
    have ok: "list_ok l (key, pl)" "list_all (list_ok l) (merge_terms [] ys)" using Cons.prems(3) by (simp_all add: t)
    obtain e where e: "Current d = Some e" "LTE_Term e = key" "leaf_entry_wf e" and adv: "cursor_on l ys (Advance d)"
      using Cons.prems(2) by (auto simp: t entry_of_def)
    have none: "Current b = None" using Cons.prems(1) by simp
    note add = add_single_posting [OF Cons.prems(2) [unfolded t] ok(1)]
    from merge_loop_step [OF Cons.prems(4) ok(1) e, of False b d True b "Advance d"] obtain F1 lb1 fin1 full1 cur1 w1 files1 where
      s: "merge_loop b d w files = merge_loop b (Advance d) w1 files1" "merge_inv l (ts @ [(key, pl)]) F1 lb1 fin1 full1 cur1 w1 files1"
      using e(1) none add by auto
    from Cons.IH [OF Cons.prems(1) adv ok(2) s(2)] show ?case unfolding s(1) by (simp add: t)
  qed
next
  case (2 t xs)
  then show ?case
  proof (induction "t # xs" arbitrary: t xs b ts F lb fin full cur w files)
    case (Cons t xs)
    obtain key pl where t: "t = (key, pl)" by force
    have ok: "list_ok l (key, pl)" "list_all (list_ok l) xs" using Cons.prems(3) by (simp_all add: t)
    obtain e where e: "Current b = Some e" "LTE_Term e = key" "leaf_entry_wf e" and adv: "cursor_on l xs (Advance b)"
      using Cons.prems(1) by (auto simp: t entry_of_def)
    have none: "Current d = None" using Cons.prems(2) by simp
    note add = add_single_posting [OF Cons.prems(1) [unfolded t] ok(1)]
    from merge_loop_step [OF Cons.prems(4) ok(1) e, of True b d False "Advance b" d] obtain F1 lb1 fin1 full1 cur1 w1 files1 where
      s: "merge_loop b d w files = merge_loop (Advance b) d w1 files1" "merge_inv l (ts @ [(key, pl)]) F1 lb1 fin1 full1 cur1 w1 files1"
      using e(1) none add by auto
    show ?case
    proof (cases xs)
      case Nil
      then have "merge_loop (Advance b) d w1 files1 = Some (Inr (w1, files1))"
        using adv none by (subst merge_loop.simps) simp
      then show ?thesis using s Nil by (simp add: t) blast
    next
      case more: (Cons t' xs')
      from Cons.hyps(1) [OF more adv [unfolded more] Cons.prems(2) _ s(2)] ok(2) show ?thesis
        unfolding s(1) by (simp add: t more)
    qed
  qed
next
  case (3 k p xs k' q ys)
  obtain e where e: "Current b = Some e" "LTE_Term e = k" "leaf_entry_wf e" and advb: "cursor_on l xs (Advance b)"
    using "3.prems"(1) by (auto simp: entry_of_def)
  obtain f where f: "Current d = Some f" "LTE_Term f = k'" "leaf_entry_wf f" and advd: "cursor_on l ys (Advance d)"
    using "3.prems"(2) by (auto simp: entry_of_def)
  have less: "LessThan b d \<longleftrightarrow> k < k'" "LessThan d b \<longleftrightarrow> k' < k"
    using e f by (simp_all add: LessThan_def current_term_def)
  consider (base) "k < k'" | (delta) "k' < k" | (both) "k' = k" by force
  then show ?case
  proof cases
    case base
    have ok: "list_ok l (k, p)" "list_all (list_ok l) (merge_terms xs ((k', q) # ys))" using "3.prems"(3) base by simp_all
    from merge_loop_step [OF "3.prems"(4) ok(1) e, of True b d False "Advance b" d] obtain F1 lb1 fin1 full1 cur1 w1 files1 where
      s: "merge_loop b d w files = merge_loop (Advance b) d w1 files1" "merge_inv l (ts @ [(k, p)]) F1 lb1 fin1 full1 cur1 w1 files1"
      using e(1) f(1) base less add_single_posting [OF "3.prems"(1) ok(1)] by auto
    from "3.IH"(1) [OF base advb "3.prems"(2) ok(2) s(2)] show ?thesis using base unfolding s(1) by simp
  next
    case delta
    then have nb: "\<not> k < k'" by simp
    have ok: "list_ok l (k', q)" "list_all (list_ok l) (merge_terms ((k, p) # xs) ys)" using "3.prems"(3) delta nb by simp_all
    from merge_loop_step [OF "3.prems"(4) ok(1) f, of False b d True b "Advance d"] obtain F1 lb1 fin1 full1 cur1 w1 files1 where
      s: "merge_loop b d w files = merge_loop b (Advance d) w1 files1" "merge_inv l (ts @ [(k', q)]) F1 lb1 fin1 full1 cur1 w1 files1"
      using e(1) f(1) delta less add_single_posting [OF "3.prems"(2) ok(1)] by auto
    from "3.IH"(2) [OF nb delta "3.prems"(1) advd ok(2) s(2)] show ?thesis using delta nb unfolding s(1) by simp
  next
    case both
    let ?pl = "\<lparr>entries = entries p @ entries q\<rparr>"
    have eq: "\<not> k < k'" "\<not> k' < k" using both by simp_all
    have ok: "list_ok l (k, ?pl)" "list_all (list_ok l) (merge_terms xs ys)" using "3.prems"(3) both by simp_all
    from merge_loop_step [OF "3.prems"(4) ok(1) e, of True b d True "Advance b" "Advance d"] obtain F1 lb1 fin1 full1 cur1 w1 files1 where
      s: "merge_loop b d w files = merge_loop (Advance b) (Advance d) w1 files1" "merge_inv l (ts @ [(k, ?pl)]) F1 lb1 fin1 full1 cur1 w1 files1"
      using e(1) f(1) eq less add_both_posting [OF "3.prems"(1) "3.prems"(2) [unfolded both] ok(1)] by auto
    from "3.IH"(3) [OF eq advb advd ok(2) s(2)] show ?thesis using both unfolding s(1) by simp
  qed
qed

subsection \<open>The cursor over a built dictionary\<close>

definition view_at ::
  "(u32 \<Rightarrow> bytes option) \<Rightarrow> (u32 \<Rightarrow> bytes option) \<Rightarrow> LeafTermEntry list list \<Rightarrow> LeafTermEntry list \<Rightarrow> LeafTermBlockView \<Rightarrow> bool" where
  "view_at L I blocks es v \<longleftrightarrow> v_LeafPages v = L \<and> v_IndexPages v = I \<and>
     v_LeafTermBlockCount v = word_of_nat (length blocks) \<and>
     (if es = [] then Current v = None
      else \<exists>i j page. i < length blocks \<and> es = drop j (blocks ! i) @ concat (drop (Suc i) blocks) \<and> j < length (blocks ! i) \<and>
        v_LeafBlockID v = word_of_nat i \<and> v_EntryIndex v = j \<and> L (word_of_nat i) = Some page \<and>
        v_CurrentLeaf v = Some (leaf_view page) \<and> Current v = Some (hd es))"

definition leaves_held :: "(u32 \<Rightarrow> bytes option) \<Rightarrow> LeafTermEntry list list \<Rightarrow> bool" where
  "leaves_held L blocks \<longleftrightarrow> length blocks < 2 ^ 32 \<and>
     (\<forall>i < length blocks. \<exists>page. L (word_of_nat i) = Some page \<and> leaf_holds page (blocks ! i))"

lemma go_current_view:
  assumes held: "leaves_held L blocks" and i: "i \<le> length blocks"
    and v: "v_LeafPages v = L" "v_IndexPages v = I" "v_LeafTermBlockCount v = word_of_nat (length blocks)"
      "v_LeafBlockID v = word_of_nat i" "v_EntryIndex v = j" "Current v = None"
      "v_CurrentLeaf v = None \<or> i < length blocks \<and> v_CurrentLeaf v = map_option leaf_view (L (word_of_nat i))"
    and es: "es = (if i < length blocks then drop j (blocks ! i) @ concat (drop (Suc i) blocks) else [])"
  shows "view_at L I blocks es (go_current v)"
  using i v es
proof (induction "length blocks - i" arbitrary: i j v)
  case 0
  then have "\<not> v_LeafBlockID v < v_LeafTermBlockCount v" by simp
  then show ?case using 0 by (subst go_current.simps) (simp add: view_at_def)
next
  case (Suc n)
  then have i: "i < length blocks" by simp
  obtain page where page: "L (word_of_nat i) = Some page" "leaf_holds page (blocks ! i)" using held i by (auto simp: leaves_held_def)
  have len: "length blocks < 2 ^ 32" using held by (simp add: leaves_held_def)
  have inside: "v_LeafBlockID v < v_LeafTermBlockCount v"
    using i len Suc.prems(4,5) by (simp add: word_less_nat_alt unat32_of_nat)
  have leaf: "(case v_CurrentLeaf v of None \<Rightarrow> map_option leaf_view (v_LeafPages v (v_LeafBlockID v)) | Some leaf \<Rightarrow> Some leaf) =
      Some (leaf_view page)"
    using Suc.prems(2,5,8) page(1) by (auto split: option.splits)
  have count: "entry_count (leaf_view page) = length (blocks ! i)" using page(2) by (simp add: leaf_holds_def)
  show ?case
  proof (cases "j < length (blocks ! i)")
    case True
    then have "leaf_entry (leaf_view page) j = Some (blocks ! i ! j)" using page(2) by (simp add: leaf_holds_def)
    moreover have "go_current v = v\<lparr>v_CurrentLeaf := Some (leaf_view page), v_CurrentEntry := leaf_entry (leaf_view page) j\<rparr>"
      using inside leaf count True Suc.prems(6) by (subst go_current.simps) simp
    moreover have "hd es = blocks ! i ! j" "es \<noteq> []" using True i Suc.prems(9) by (simp_all add: hd_append hd_drop_conv_nth)
    ultimately show ?thesis
      using Suc.prems(2-6,9) i True page(1) by (auto simp: view_at_def)
  next
    case False
    let ?v = "v\<lparr>v_CurrentLeaf := None, v_LeafBlockID := v_LeafBlockID v + 1, v_EntryIndex := 0\<rparr>"
    have "go_current v = go_current ?v"
      using inside leaf count False Suc.prems(6) by (subst go_current.simps) simp
    moreover have "view_at L I blocks es (go_current ?v)"
    proof (rule Suc.hyps(1) [of "Suc i"])
      show "es = (if Suc i < length blocks then drop 0 (blocks ! Suc i) @ concat (drop (Suc (Suc i)) blocks) else [])"
        using False i Suc.prems(9) by (cases "Suc i < length blocks") (simp_all add: Cons_nth_drop_Suc [symmetric])
    qed (use Suc i in \<open>simp_all add: add.commute\<close>)
    ultimately show ?thesis by simp
  qed
qed

lemma Advance_view:
  assumes held: "leaves_held L blocks" and v: "view_at L I blocks (e # es) v"
  shows "Current v = Some e" and "view_at L I blocks es (Advance v)"
proof -
  from v obtain i j page where a: "i < length blocks" "e # es = drop j (blocks ! i) @ concat (drop (Suc i) blocks)"
    "j < length (blocks ! i)" "v_LeafBlockID v = word_of_nat i" "v_EntryIndex v = j" "L (word_of_nat i) = Some page"
    "v_CurrentLeaf v = Some (leaf_view page)" and cur: "Current v = Some e"
    by (auto simp: view_at_def)
  show "Current v = Some e" by (rule cur)
  have "es = drop (Suc j) (blocks ! i) @ concat (drop (Suc i) blocks)"
    using a(2,3) by (simp add: Cons_nth_drop_Suc [symmetric])
  then have es: "es = (if i < length blocks then drop (Suc j) (blocks ! i) @ concat (drop (Suc i) blocks) else [])"
    using a(1) by simp
  have same: "v_LeafPages v = L" "v_IndexPages v = I" "v_LeafTermBlockCount v = word_of_nat (length blocks)"
    using v by (simp_all add: view_at_def)
  have "view_at L I blocks es (go_current (v\<lparr>v_EntryIndex := Suc j, v_CurrentEntry := None\<rparr>))"
    by (rule go_current_view [OF held less_imp_le [OF a(1)] _ _ _ _ _ _ _ es]) (use a same in simp_all)
  then show "view_at L I blocks es (Advance v)"
    using cur a(5) by (simp add: Advance_def GoCurrent_def)
qed

lemma LeafTermBlockView_new_view:
  "leaves_held L blocks \<Longrightarrow> view_at L I blocks (concat blocks) (LeafTermBlockView_new L I (word_of_nat (length blocks)))"
  unfolding LeafTermBlockView_new_def GoCurrent_def
  by (rule go_current_view [of L blocks 0 _ I 0]; cases blocks; simp)

lemma posting_conts_chunks:
  assumes "cont_chunks pages (first + word_of_nat k) cs" and "\<forall>seq page. pages seq = Some page \<longrightarrow> length page = PAGE_SIZE"
  shows "posting_conts pages first (map word_of_nat [k..<k + length cs]) bs = Some (bs @ concat (map pairs_bytes cs))"
  using assms(1)
proof (induction cs arbitrary: k bs)
  case Nil
  then show ?case by simp
next
  case (Cons c cs)
  obtain page where page: "pages (first + word_of_nat k + 1) = Some page" "length (pairs_bytes c) < 2 ^ 32"
    "ibch_from_bytes page = Some \<lparr>IBCH_MaxDocID = fst (last c), IBCH_DataLength = word_of_nat (length (pairs_bytes c))\<rparr>"
    "12 + length (pairs_bytes c) \<le> length page" "subslice 12 (12 + length (pairs_bytes c)) page = pairs_bytes c"
    using Cons.prems by auto
  have "length page = PAGE_SIZE" using assms(2) page(1) by blast
  moreover have "unat (word_of_nat (length (pairs_bytes c)) :: u32) = length (pairs_bytes c)" using page(2) by (rule unat32_of_nat)
  moreover have "cont_chunks pages (first + word_of_nat (Suc k)) cs" using Cons.prems by (simp add: ac_simps)
  note Cons.IH [OF this, of "bs @ pairs_bytes c"]
  moreover have "[k..<k + length (c # cs)] = k # [Suc k..<Suc k + length cs]" by (subst upt_rec) simp
  moreover have "pages (first + 1 + word_of_nat k) = Some page" using page(1) by (simp add: ac_simps)
  ultimately show ?case
    using page(3-5) unfolding list.map posting_conts.simps
    by (simp add: Let_def size_consts del: upt_Suc of_nat_Suc)
qed

lemma PostingBytes_stored:
  assumes "Current v = Some e" and "stored_at (v_IndexPages v) (entry_location e) ps"
    and "\<forall>seq page. v_IndexPages v seq = Some page \<longrightarrow> length page = PAGE_SIZE"
  shows "PostingBytes v = Some (pairs_bytes ps)"
proof -
  let ?first = "LTE_IndexBlockID e" and ?o = "unat (LTE_IndexOffset e)" and ?n = "unat (LTE_IndexLength e)"
  from assms(2) obtain c cs page where s: "ps = c @ concat cs" "v_IndexPages v ?first = Some page" "?o + ?n \<le> length page"
    "subslice ?o (?o + ?n) page = pairs_bytes c" "unat (ucast (LTE_ContinuationBlockCount e) :: u32) = length cs"
    "cont_chunks (v_IndexPages v) ?first cs"
    by (auto simp: stored_at_def entry_location_def)
  have "length page = PAGE_SIZE" using assms(3) s(2) by blast
  moreover have "unat (LTE_ContinuationBlockCount e) < 2 ^ 32"
    using unat_bound [of "LTE_ContinuationBlockCount e"] by simp
  then have "unat (LTE_ContinuationBlockCount e) = length cs"
    using s(5) by (simp add: unsigned_ucast_eq take_bit_nat_eq_self)
  moreover have "posting_conts (v_IndexPages v) ?first (map word_of_nat [0..<length cs]) (pairs_bytes c) =
      Some (pairs_bytes c @ concat (map pairs_bytes cs))"
    using posting_conts_chunks [of "v_IndexPages v" ?first 0 cs "pairs_bytes c"] s(6) assms(3) by simp
  moreover have "pairs_bytes c @ concat (map pairs_bytes cs) = pairs_bytes ps"
    unfolding s(1) by (induction cs) simp_all
  ultimately show ?thesis
    using assms(1) s(2-4) by (simp add: PostingBytes_def Let_def)
qed

lemma cursor_on_built:
  assumes held: "leaves_held L blocks" and view: "view_at L I blocks es v" and wf: "\<forall>e \<in> set es. leaf_entry_wf e"
    and pages: "I = page_list ps" "\<forall>p \<in> set ps. length p = PAGE_SIZE" and all: "list_all2 (entry_stored l ps) ts es"
  shows "cursor_on l ts v"
  using all view wf
proof (induction ts es arbitrary: v rule: list_all2_induct)
  case Nil
  then show ?case by (simp add: view_at_def)
next
  case (Cons t ts e es)
  obtain key pl where t: "t = (key, pl)" by force
  note a = Advance_view [OF held Cons.prems(1)]
  have I: "v_IndexPages v = page_list ps" using Cons.prems(1) pages(1) by (simp add: view_at_def)
  have "stored_at (v_IndexPages v) (entry_location e) (posting_pairs l (entries pl))"
    using Cons.hyps(1) I by (simp add: t entry_stored_def)
  moreover have "\<forall>seq page. v_IndexPages v seq = Some page \<longrightarrow> length page = PAGE_SIZE"
    unfolding I using pages(2) by (auto simp: page_list_def split: if_splits)
  ultimately have "PostingBytes v = Some (get_bytes l pl)"
    using PostingBytes_stored [OF a(1)] by (simp add: get_bytes_def encode_pairs)
  moreover have "entry_of (key, pl) e" using Cons.hyps(1) Cons.prems(2) by (simp add: t entry_of_def entry_stored_def)
  moreover have "cursor_on l ts (Advance v)" using Cons.IH [OF a(2)] Cons.prems(2) by simp
  ultimately show ?case using a(1) by (simp add: t)
qed

lemma leaf_entry_term:
  assumes "leaf_entry b i = Some e" and "length (LTE_Term e) \<le> HEAD_TERM_KEY_MAX"
  shows "leaf_entry_wf e"
proof -
  define off where "off = unat (LTB_Directory b ! i) - LEAF_TERM_DATA_OFFSET"
  define data where "data = drop off (LTB_Data b)"
  define n where "n = unat (data ! 15)"
  have e: "from_utf8 (subslice 16 (16 + n) data) = Some (LTE_Term e)" "LTE_TermLength e = data ! 15"
    and fits: "off + LEAF_TERM_ENTRY_SIZE + n \<le> length (LTB_Data b)"
    using assms(1) by (auto simp: leaf_entry_def Let_def off_def data_def n_def split: if_splits option.splits)
  have word: "LTE_Term e = subslice 16 (16 + n) data" "utf8_valid (LTE_Term e)"
    using e(1) by (auto simp: from_utf8_def split: if_splits)
  have "n \<le> length data - 16" using fits by (simp add: data_def size_consts)
  then have "length (LTE_Term e) = n" unfolding word(1) by simp
  then have "LTE_TermLength e = word_of_nat (length (LTE_Term e))" using e(2) by (simp add: n_def)
  with word(2) assms(2) show ?thesis by (simp add: leaf_entry_wf_def)
qed

text \<open>The cursor that \<open>Merge\<close> opens on the block table of a build, whether its pages are in memory or in a file.\<close>

definition built_view :: "BuildBlocksResult \<Rightarrow> LeafTermBlockView" where
  "built_view r = LeafTermBlockView_new (page_list (map leaf_to_bytes (BBR_LeafTermBlocks r))) (page_list (BBR_IndexBlocks r))
     (word_of_nat (length (BBR_LeafTermBlocks r)))"

definition dict_terms :: "PostingStore \<Rightarrow> (rstr \<times> PostingList) list" where
  "dict_terms s = filter kept (sort_key fst (m_Postings s))"

lemma built_view_on:
  assumes ok: "built_ok l s r blocks" and fits: "built_fits r"
  shows "cursor_on l (dict_terms s) (built_view r)"
proof -
  let ?L = "page_list (map leaf_to_bytes (BBR_LeafTermBlocks r))" and ?I = "page_list (BBR_IndexBlocks r)"
  have len: "length (BBR_LeafTermBlocks r) = length blocks" "length blocks < 2 ^ 32"
    using ok fits by (auto simp: built_ok_def built_fits_def)
  have holds: "\<forall>i < length blocks. leaf_holds (leaf_to_bytes (BBR_LeafTermBlocks r ! i)) (blocks ! i)"
    using ok by (simp add: built_ok_def)
  then have held: "leaves_held ?L blocks"
    using len by (auto simp: leaves_held_def page_list_def unat32_of_nat)
  have "leaf_entry_wf e" if "e \<in> set (concat blocks)" for e
  proof -
    from that obtain i j where i: "i < length blocks" "j < length (blocks ! i)" "e = blocks ! i ! j"
      by (auto simp: in_set_conv_nth)
    then have "leaf_entry (leaf_view (leaf_to_bytes (BBR_LeafTermBlocks r ! i))) j = Some e"
      using holds by (auto simp: leaf_holds_def)
    moreover have "length (LTE_Term e) \<le> HEAD_TERM_KEY_MAX"
      using ok that unfolding built_ok_def dict_ok_def by blast
    ultimately show ?thesis by (rule leaf_entry_term)
  qed
  then have "cursor_on l (dict_terms s) (LeafTermBlockView_new ?L ?I (word_of_nat (length blocks)))"
    using ok LeafTermBlockView_new_view [OF held, of ?I]
    by (intro cursor_on_built [OF held _ _ refl]) (auto simp: built_ok_def dict_terms_def)
  then show ?thesis using len by (simp add: built_view_def)
qed

subsection \<open>The terms of both dictionaries\<close>

lemma ascending_Cons: "ascending (map fst (t # ts)) \<longleftrightarrow> (\<forall>u \<in> set ts. fst t < fst u) \<and> ascending (map fst ts)"
  by simp

lemma merge_terms_keys: "fst ` set (merge_terms xs ys) = fst ` set xs \<union> fst ` set ys"
  by (induction xs ys rule: merge_terms.induct) auto

lemma merge_terms_above:
  assumes "\<forall>v \<in> set us. a < fst v" and "\<forall>v \<in> set vs. a < fst v"
  shows "\<forall>u \<in> set (merge_terms us vs). a < fst u"
proof
  fix u assume "u \<in> set (merge_terms us vs)"
  then have "fst u \<in> fst ` set us \<union> fst ` set vs" unfolding merge_terms_keys [symmetric] by simp
  then show "a < fst u" using assms by auto
qed

lemma merge_terms_ascending:
  "ascending (map fst xs) \<Longrightarrow> ascending (map fst ys) \<Longrightarrow> ascending (map fst (merge_terms xs ys))"
proof (induction xs ys rule: merge_terms.induct)
  case (3 k p xs k' q ys)
  have low: "\<forall>v \<in> set xs. k < fst v" "\<forall>v \<in> set ys. k' < fst v" and asc: "ascending (map fst xs)" "ascending (map fst ys)"
    using "3.prems" by simp_all
  consider (base) "k < k'" | (delta) "k' < k" | (both) "k' = k" by force
  then show ?case
  proof cases
    case base
    then have "\<forall>v \<in> set ((k', q) # ys). k < fst v" using low(2) by (auto intro: less_trans)
    from "3.IH"(1) [OF base asc(1) "3.prems"(2)] merge_terms_above [OF low(1) this] base show ?thesis by simp
  next
    case delta
    then have "\<forall>v \<in> set ((k, p) # xs). k' < fst v" using low(1) by (auto intro: less_trans)
    moreover have nb: "\<not> k < k'" using delta by simp
    moreover note merge_terms_above [OF _ low(2), of "(k, p) # xs"]
    ultimately show ?thesis using "3.IH"(2) [OF nb delta "3.prems"(1) asc(2)] delta by simp
  next
    case both
    from "3.IH"(3) [OF _ _ asc] merge_terms_above [OF low(1)] low(2) both show ?thesis by simp
  qed
qed simp_all

definition joined :: "PostingList option \<Rightarrow> PostingList option \<Rightarrow> PostingList option" where
  "joined p q = (case (p, q) of
     (None, _) \<Rightarrow> q | (Some _, None) \<Rightarrow> p | (Some p, Some q) \<Rightarrow> Some \<lparr>entries = entries p @ entries q\<rparr>)"

lemma map_of_below: "\<forall>u \<in> set ts. k < fst u \<Longrightarrow> key \<le> k \<Longrightarrow> map_of ts key = None" for k :: rstr
  by (auto simp: map_of_eq_None_iff)

lemma map_of_merge_terms:
  "ascending (map fst xs) \<Longrightarrow> ascending (map fst ys) \<Longrightarrow>
   map_of (merge_terms xs ys) key = joined (map_of xs key) (map_of ys key)"
proof (induction xs ys rule: merge_terms.induct)
  case (3 k p xs k' q ys)
  have asc: "ascending (map fst xs)" "ascending (map fst ys)" using "3.prems" by simp_all
  consider (base) "k < k'" | (delta) "k' < k" | (both) "k' = k" by force
  then show ?case
  proof cases
    case base
    have "map_of ys k = None" using "3.prems"(2) base by (intro map_of_below [of ys k']) auto
    then show ?thesis using "3.IH"(1) [OF base asc(1) "3.prems"(2)] base by (auto simp: joined_def)
  next
    case delta
    have "map_of xs k' = None" using "3.prems"(1) delta by (intro map_of_below [of xs k]) auto
    then show ?thesis using "3.IH"(2) [OF _ delta "3.prems"(1) asc(2)] delta by (auto simp: joined_def split: option.splits)
  next
    case both
    then show ?thesis using "3.IH"(3) [OF _ _ asc] by (auto simp: joined_def)
  qed
qed (auto simp: joined_def split: option.splits)

lemma dict_terms_facts:
  assumes "store_wf s"
  shows "ascending (map fst (dict_terms s))" and "map_of (dict_terms s) = map_of (filter kept (m_Postings s))"
    and "\<forall>t \<in> set (dict_terms s). kept t"
proof -
  have dist: "distinct (map fst (m_Postings s))" using assms by (simp add: store_wf_def)
  show asc: "ascending (map fst (dict_terms s))" unfolding dict_terms_def by (rule ascending_kept [OF dist])
  have "distinct (map fst (dict_terms s))" "distinct (map fst (filter kept (m_Postings s)))"
    using asc dist by (auto simp: strict_sorted_iff distinct_map inj_on_def)
  then show "map_of (dict_terms s) = map_of (filter kept (m_Postings s))"
    by (intro map_of_inject_set [THEN iffD2]) (auto simp: dict_terms_def)
qed (simp add: dict_terms_def)

definition term_pairs :: "(nat \<Rightarrow> rat) \<Rightarrow> PostingList option \<Rightarrow> (u64 \<times> u8) list" where
  "term_pairs l p = (case p of None \<Rightarrow> [] | Some pl \<Rightarrow> posting_pairs l (entries pl))"

lemma store_pairs_dict: "store_wf s \<Longrightarrow> store_pairs l s key = term_pairs l (map_of (dict_terms s) key)"
  by (simp add: store_pairs_def term_pairs_def dict_terms_facts)

lemma term_pairs_joined: "term_pairs l (joined p q) = term_pairs l p @ term_pairs l q"
  by (auto simp: term_pairs_def joined_def posting_pairs_def split: option.splits)

text \<open>
  Two stores that can be merged: every document of a term in the first comes before those in the
  second, the frequency bytes are small, the joined lists fit the scratch space and the index pages
  can be numbered with 32 bits.
\<close>

definition mergeable :: "(nat \<Rightarrow> rat) \<Rightarrow> PostingStore \<Rightarrow> PostingStore \<Rightarrow> bool" where
  "mergeable l s1 s2 \<longleftrightarrow> store_wf s1 \<and> store_wf s2 \<and>
     (\<forall>key. let ps = store_pairs l s1 key @ store_pairs l s2 key
        in ascending (map fst ps) \<and> small_tf ps \<and> length (pairs_bytes ps) \<le> POSTING_SCRATCH_BYTES) \<and>
     page_bound l (merge_terms (dict_terms s1) (dict_terms s2)) < 2 ^ 32"

text \<open>The store whose index the merged files are.\<close>

definition merged_store :: "PostingStore \<Rightarrow> PostingStore \<Rightarrow> PostingStore" where
  "merged_store s1 s2 =
     (let ts = merge_terms (dict_terms s1) (dict_terms s2)
      in \<lparr>m_Postings = ts, m_DocStats = [], m_DocVectors = [], m_TotalTerms = 0,
          m_PostingEntries = word_of_nat (sum_list (map (length \<circ> entries \<circ> snd) ts))\<rparr>)"

lemma merged_term:
  assumes "mergeable l s1 s2" and "(key, pl) \<in> set (merge_terms (dict_terms s1) (dict_terms s2))"
  shows "kept (key, pl)" and "posting_pairs l (entries pl) = store_pairs l s1 key @ store_pairs l s2 key"
    and "list_ok l (key, pl)" and "postings_wf (entries pl)"
proof -
  have wf: "store_wf s1" "store_wf s2" using assms(1) by (auto simp: mergeable_def)
  note d = dict_terms_facts [OF wf(1)] dict_terms_facts [OF wf(2)]
  have "distinct (map fst (merge_terms (dict_terms s1) (dict_terms s2)))"
    using merge_terms_ascending [OF d(1,4)] by (simp add: strict_sorted_iff)
  then have pl: "joined (map_of (dict_terms s1) key) (map_of (dict_terms s2) key) = Some pl"
    using assms(2) map_of_merge_terms [OF d(1,4), of key] by simp
  then show pairs: "posting_pairs l (entries pl) = store_pairs l s1 key @ store_pairs l s2 key"
    using term_pairs_joined [of l "map_of (dict_terms s1) key" "map_of (dict_terms s2) key"]
    unfolding pl by (simp add: store_pairs_dict wf term_pairs_def)
  have all: "kept (key, p)" if "map_of (dict_terms s1) key = Some p \<or> map_of (dict_terms s2) key = Some p" for p
    using that d(3,6) by (auto dest: map_of_SomeD)
  then show kept: "kept (key, pl)" using pl by (auto simp: joined_def kept_def split: option.splits)
  have m: "ascending (map fst (posting_pairs l (entries pl)))" "small_tf (posting_pairs l (entries pl))"
    "length (pairs_bytes (posting_pairs l (entries pl))) \<le> POSTING_SCRATCH_BYTES"
    using assms(1) unfolding pairs mergeable_def Let_def by blast+
  then show "list_ok l (key, pl)" using kept by (simp add: list_ok_def kept_def get_bytes_def encode_pairs)
  show "postings_wf (entries pl)" using m(1) by (simp add: postings_wf_def posting_pairs_def o_def)
qed

lemma merged_store_dict:
  assumes "mergeable l s1 s2"
  shows "dict_terms (merged_store s1 s2) = merge_terms (dict_terms s1) (dict_terms s2)"
    and "store_wf (merged_store s1 s2)"
    and "store_pairs l (merged_store s1 s2) key = store_pairs l s1 key @ store_pairs l s2 key"
proof -
  let ?ts = "merge_terms (dict_terms s1) (dict_terms s2)"
  have wf: "store_wf s1" "store_wf s2" using assms by (auto simp: mergeable_def)
  note d = dict_terms_facts [OF wf(1)] dict_terms_facts [OF wf(2)]
  have asc: "ascending (map fst ?ts)" by (rule merge_terms_ascending [OF d(1,4)])
  then have "sort_key fst ?ts = ?ts" by (intro sort_key_id_if_sorted) (simp add: strict_sorted_iff)
  moreover have "filter kept ?ts = ?ts" using merged_term(1) [OF assms] by (intro filter_True) auto
  moreover have "m_Postings (merged_store s1 s2) = ?ts" by (simp add: merged_store_def Let_def)
  ultimately show dict: "dict_terms (merged_store s1 s2) = ?ts" unfolding dict_terms_def [of "merged_store s1 s2"] by simp
  have "distinct (map fst ?ts)" using asc by (simp add: strict_sorted_iff)
  then show wf': "store_wf (merged_store s1 s2)"
    using merged_term(4) [OF assms] by (auto simp: store_wf_def merged_store_def Let_def)
  show "store_pairs l (merged_store s1 s2) key = store_pairs l s1 key @ store_pairs l s2 key"
    by (simp add: store_pairs_dict wf wf' dict map_of_merge_terms [OF d(1,4)] term_pairs_joined)
qed

subsection \<open>The merged index\<close>

text \<open>The three files hold the parts of \<open>r\<close>.\<close>

definition files_of :: "BuildBlocksResult \<Rightarrow> merge_files \<Rightarrow> bool" where
  "files_of r files \<longleftrightarrow> headFile files = concat (map hte_to_bytes (BBR_HeadTermEntries r)) \<and>
     leafFile files = concat (map leaf_to_bytes (BBR_LeafTermBlocks r)) \<and> indexFile files = concat (BBR_IndexBlocks r) \<and>
     headEntryCount files = word_of_nat (length (BBR_HeadTermEntries r)) \<and> totalTerms files = BBR_TotalTerms r \<and>
     indexBlockCount files = word_of_nat (length (BBR_IndexBlocks r)) \<and>
     length (BBR_LeafTermBlocks r) = length (BBR_HeadTermEntries r) \<and>
     BBR_TermMphfDisplacements r = [] \<and> BBR_TermMphfEntryPages r = [] \<and>
     (\<forall>b \<in> set (BBR_LeafTermBlocks r). leaf_from_bytes (leaf_to_bytes b) = Some b)"

lemma merge_inv_new:
  "merge_inv l [] [] leaf_build_new [] [] [] (new_write MERGED_LEAF_BLOCK_LIMIT MERGED_INDEX_BLOCK_LIMIT) merge_files_new"
  using leaf_inv_new
  by (simp add: merge_inv_def index_ready_def leaf_ready_def files_hold_def new_write_def merge_files_new_def
      MERGED_LEAF_BLOCK_LIMIT_def MERGED_INDEX_BLOCK_LIMIT_def leaf_written_Nil entry_offset_def leaf_build_new_def
      UsedIndexBlockCount_def)

lemma merge_inv_stored:
  assumes inv: "merge_inv l ts F lb fin [] [] w files" and ok: "list_all (list_ok l) ts" and few: "length F < 2 ^ 32"
  shows "list_all2 (entry_stored l F) ts (concat fin)" and "\<forall>p \<in> set F. length p = PAGE_SIZE"
proof -
  have i: "index_ready F w" "list_all2 (merged_for l (batch_index F w)) ts (concat fin)" "\<not> w_HasIndexWrite w"
    using inv by (auto simp: merge_inv_def)
  then have pages: "final_pages (batch_index F w) = F"
    by (simp add: index_ready_def final_pages_def batch_index_def)
  show "list_all2 (entry_stored l F) ts (concat fin)"
  proof (rule list.rel_mono_strong [OF i(2)])
    fix t e assume t: "t \<in> set ts" "merged_for l (batch_index F w) t e"
    have "list_ok l t" using ok t(1) by (simp add: list_all_iff)
    then have "length (get_bytes l (snd t)) + 4073 < 4074 * 65536"
      by (cases t) (simp add: list_ok_def POSTING_SCRATCH_BYTES_def PAGE_SIZE_def)
    from entry_for_built [OF t(2) [unfolded merged_for_def] batch_index_wf [OF i(1)] _ this] few
    have "entry_stored l F t (e\<lparr>LTE_Flags := 0\<rparr>)" unfolding pages by simp
    moreover have "entry_location (e\<lparr>LTE_Flags := 0\<rparr>) = entry_location e" by (simp add: entry_location_def)
    ultimately show "entry_stored l F t e" by (simp add: entry_stored_def)
  qed
  show "\<forall>p \<in> set F. length p = PAGE_SIZE" using i(1) by (simp add: index_ready_def)
qed

lemma length_concat_ge: "\<forall>x \<in> set xs. x \<noteq> [] \<Longrightarrow> length xs \<le> length (concat xs)"
  by (induction xs) (auto simp: Suc_le_eq add_pos_nonneg intro!: add_mono simp flip: length_greater_0_conv)

lemma sum_list_ge_length: "\<forall>x \<in> set xs. 1 \<le> f x \<Longrightarrow> length xs \<le> sum_list (map f xs)" for f :: "'a \<Rightarrow> nat"
  by (induction xs) auto

lemma merge_dictionaries_built:
  assumes ok1: "built_ok l s1 r1 b1" "built_fits r1" and ok2: "built_ok l s2 r2 b2" "built_fits r2" and m: "mergeable l s1 s2"
  shows "\<exists>files r. merge_dictionaries (built_view r1) (built_view r2) = Some (Inr files) \<and>
    files_of r files \<and> built_fits r \<and> (\<exists>blocks. built_ok l (merged_store s1 s2) r blocks)"
proof -
  let ?ts = "merge_terms (dict_terms s1) (dict_terms s2)"
  have lists: "list_all (list_ok l) ?ts" using merged_term(3) [OF m] by (auto simp: list_all_iff)
  from merge_loop_terms [OF built_view_on [OF ok1] built_view_on [OF ok2] lists merge_inv_new] obtain F lb fin full cur w files where
    loop: "merge_loop (built_view r1) (built_view r2)
        (new_write MERGED_LEAF_BLOCK_LIMIT MERGED_INDEX_BLOCK_LIMIT) merge_files_new = Some (Inr (w, files))"
      "merge_inv l ([] @ ?ts) F lb fin full cur w files" by blast
  from DumpBatch_inv [OF loop(2)] obtain F' lb' fin' w' files' where
    d: "DumpBatch w files = Some (Inr (w', files'))" "merge_inv l ?ts F' lb' fin' [] [] w' files'" by auto
  define r where "r = \<lparr>BBR_IndexBlocks = F', BBR_HeadTermEntries = lb_heads lb', BBR_LeafTermBlocks = lb_blocks lb',
      BBR_TermMphfHeader = TermMphfHeader_zeroed, BBR_TermMphfDisplacements = [], BBR_TermMphfEntryPages = [],
      BBR_TotalTerms = totalTerms files'\<rparr>"
  have hold: "files_hold F' lb' fin' files'" using d(2) by (simp add: merge_inv_def)
  then have inv: "leaf_inv lb' fin' []" by (simp add: files_hold_def)
  have "leaf_from_bytes (leaf_to_bytes b) = Some b" if "b \<in> set (lb_blocks lb')" for b
    using that inv leaf_done_decodes by (metis in_set_conv_nth leaf_inv_def)
  then have files: "files_of r files'"
    using hold inv by (simp add: files_of_def files_hold_def r_def leaf_inv_def)
  have merged: "merge_dictionaries (built_view r1) (built_view r2) = Some (Inr files')"
    by (simp add: merge_dictionaries_def loop(1) d(1))
  have few: "length F' < 2 ^ 32" using d(2) m unfolding merge_inv_def mergeable_def by linarith
  note st = merge_inv_stored [OF d(2) lists few]
  have "length fin' \<le> length (concat fin')" using inv by (intro length_concat_ge) (auto simp: leaf_inv_def in_set_conv_nth)
  also have "\<dots> = length ?ts" using st(1) by (simp add: list_all2_lengthD)
  also have "\<dots> \<le> page_bound l ?ts" unfolding page_bound_def by (rule sum_list_ge_length) simp
  finally have fits: "built_fits r" using few m inv by (simp add: built_fits_def r_def mergeable_def leaf_inv_def)
  have "built_ok l (merged_store s1 s2) r fin'"
  proof (rule built_okI [OF inv fits])
    show "distinct (map fst (m_Postings (merged_store s1 s2)))"
      using merged_store_dict(2) [OF m] by (simp add: store_wf_def)
    show "list_all2 (entry_stored l (BBR_IndexBlocks r)) (filter kept (sort_key fst (m_Postings (merged_store s1 s2)))) (concat fin')"
      using st(1) merged_store_dict(1) [OF m] by (simp add: r_def dict_terms_def)
    show "\<forall>p \<in> set (BBR_IndexBlocks r). length p = PAGE_SIZE" using st(2) by (simp add: r_def)
  qed (simp_all add: r_def)
  with files merged fits show ?thesis by blast
qed

text \<open>
  A frequency byte with its high bit set is taken for the start of a longer number: here the list of the
  pairs (5, 128), (6, 1), (7, 1) is cut after five bytes, inside the last pair, where the builder cuts it
  after four.
\<close>

lemma split_inside_pair:
  "PostingSplitLength [5, 0x80, 6, 1, 7, 1] 5 = 5" "PostingPrefixBytes [5, 0x80, 6, 1, 7, 1] 5 = 4"
  by (simp_all add: PostingSplitLength_def posting_split_loop.simps ReadVbPairEnd_def PostingPrefixBytes_def prefix_loop.simps
      ReadVbcPairEnd_def vb_skip.simps)

end
