(* ===== verification/TermMphf.thy ===== *)
theory TermMphf
  imports BlockBuilder
begin

text \<open>
  The minimal perfect hash over the terms of an index (\<open>next_power_of_two\<close>, \<open>MphfSlotFor\<close>,
  \<open>TryBuildTermMphf\<close>, \<open>BuildTermMphf\<close> and \<open>BuildTermMphfFromLeafBlocks\<close> of
  \<open>IndexAccess/IndexSerializer.rs\<close>), the counterpart of \<open>FindTermDataMphf\<close>.

  Terms are hashed into buckets. Buckets of two or more terms, the largest first, look for a
  displacement under which their terms land on free slots; a bucket of one term takes the next free
  slot and stores it directly as a negative displacement. The construction fails (\<open>None\<close>) on
  duplicate terms and when a bucket finds no displacement; \<open>BuildTermMphf\<close> then tries other seeds.

  The counters of the code are \<open>u32\<close>; with \<open>2 ^ 32\<close> terms or more it would index out of its
  tables, so the lemmas are about fewer terms.
\<close>

subsection \<open>Construction\<close>

record TermMphfBuildTerm =
  bt_Term :: rstr
  bt_DocFreq :: u32
  bt_IndexBlockID :: u32
  bt_IndexOffset :: u32
  bt_IndexLength :: u32
  bt_ContinuationBlockCount :: u32
  bt_Flags :: u32

definition next_power_of_two :: "u32 \<Rightarrow> u32" where
  "next_power_of_two value =
     (if value \<le> 1 then 1
      else
        let v = value - 1;
            v = v OR drop_bit 1 v;
            v = v OR drop_bit 2 v;
            v = v OR drop_bit 4 v;
            v = v OR drop_bit 8 v;
            v = v OR drop_bit 16 v
        in v + 1)"

definition MphfSlotFor :: "rstr \<Rightarrow> u32 \<Rightarrow> u64 \<Rightarrow> u32 \<Rightarrow> u32" where
  "MphfSlotFor term slot_count slot_seed displacement =
     ucast (TermMphfHash term (TermMphfSlotSeed slot_seed displacement) mod ucast slot_count)"

text \<open>The slots of the terms of a bucket under one displacement, if they are free and differ.\<close>

fun candidate_slots :: "(nat \<Rightarrow> u32) \<Rightarrow> bool list \<Rightarrow> u32 list \<Rightarrow> nat list \<Rightarrow> u32 list option" where
  "candidate_slots slot_of used found [] = Some found"
| "candidate_slots slot_of used found (i # bucket_terms) =
     (let slot = slot_of i
      in if used ! unat slot \<or> slot \<in> set found then None
         else candidate_slots slot_of used (found @ [slot]) bucket_terms)"

fun first_displacement :: "(u32 \<Rightarrow> u32 list option) \<Rightarrow> u32 \<Rightarrow> nat \<Rightarrow> (u32 \<times> u32 list) option" where
  "first_displacement try displacement 0 = None"
| "first_displacement try displacement (Suc n) =
     (case try displacement of
        Some slots \<Rightarrow> Some (displacement, slots)
      | None \<Rightarrow> first_displacement try (displacement + 1) n)"

record mphf_build =
  mb_displacements :: "i32 list"
  mb_used :: "bool list"
  mb_slots :: "u32 list"

definition take_slots :: "nat \<Rightarrow> i32 \<Rightarrow> nat list \<Rightarrow> u32 list \<Rightarrow> mphf_build \<Rightarrow> mphf_build" where
  "take_slots bucket displacement bucket_terms slots st =
     st\<lparr>mb_displacements := (mb_displacements st)[bucket := displacement],
        mb_used := fold (\<lambda>s used. used[unat s := True]) slots (mb_used st),
        mb_slots := fold (\<lambda>(i, s) all. all[i := s]) (zip bucket_terms slots) (mb_slots st)\<rparr>"

fun place_buckets ::
  "(nat \<Rightarrow> u32 \<Rightarrow> u32) \<Rightarrow> nat \<Rightarrow> nat list list \<Rightarrow> nat list \<Rightarrow> mphf_build \<Rightarrow> mphf_build option" where
  "place_buckets slot_for max_displacement buckets [] st = Some st"
| "place_buckets slot_for max_displacement buckets (bucket # order) st =
     (let bucket_terms = buckets ! bucket
      in if bucket_terms = [] then
           place_buckets slot_for max_displacement buckets order
             (st\<lparr>mb_displacements := (mb_displacements st)[bucket := 0]\<rparr>)
         else if length bucket_terms = 1 then place_buckets slot_for max_displacement buckets order st
         else case first_displacement
                 (\<lambda>d. candidate_slots (\<lambda>i. slot_for i d) (mb_used st) [] bucket_terms) 0 max_displacement of
             None \<Rightarrow> None
           | Some (displacement, slots) \<Rightarrow>
               place_buckets slot_for max_displacement buckets order
                 (take_slots bucket displacement bucket_terms slots st))"

text \<open>The buckets of one term, in order, with the free slots that remain.\<close>

fun place_single :: "(nat \<times> nat list) list \<Rightarrow> u32 list \<Rightarrow> mphf_build \<Rightarrow> mphf_build option" where
  "place_single [] free_slots st = Some st"
| "place_single ((bucket, bucket_terms) # buckets) free_slots st =
     (if length bucket_terms \<noteq> 1 then place_single buckets free_slots st
      else case free_slots of
          [] \<Rightarrow> None
        | slot # free_slots \<Rightarrow>
            (let direct_displacement = - int (unat slot) - 1
             in if direct_displacement < - (2 ^ 31) then None
                else place_single buckets free_slots
                       (take_slots bucket (word_of_int direct_displacement) bucket_terms [slot] st)))"

definition mphf_record :: "TermMphfBuildTerm \<Rightarrow> u64 \<Rightarrow> bytes" where
  "mphf_record source fingerprint_seed =
     u32_to_le (bt_DocFreq source) @ u32_to_le (bt_IndexBlockID source) @ u32_to_le (bt_IndexOffset source) @
     u32_to_le (bt_IndexLength source) @ u32_to_le (bt_ContinuationBlockCount source) @ u32_to_le (bt_Flags source) @
     u64_to_le (mphf_fingerprint (bt_Term source) fingerprint_seed)"

definition write_record :: "nat \<Rightarrow> bytes \<Rightarrow> bytes list \<Rightarrow> bytes list" where
  "write_record slot data entry_pages =
     (let byte_offset = slot * TERM_MPHF_ENTRY_SIZE; page = byte_offset div PAGE_SIZE
      in entry_pages[page := put (byte_offset mod PAGE_SIZE) data (entry_pages ! page)])"

fun write_records :: "u64 \<Rightarrow> (u32 \<times> TermMphfBuildTerm) list \<Rightarrow> bytes list \<Rightarrow> bytes list option" where
  "write_records fingerprint_seed [] entry_pages = Some entry_pages"
| "write_records fingerprint_seed ((slot, source) # rest) entry_pages =
     (if slot = MAX32 then None
      else write_records fingerprint_seed rest
             (write_record (unat slot) (mphf_record source fingerprint_seed) entry_pages))"

definition has_duplicates :: "TermMphfBuildTerm list \<Rightarrow> bool" where
  "has_duplicates terms =
     (let ids = sort_key (\<lambda>i. bt_Term (terms ! i)) [0..<length terms]
      in list_ex (\<lambda>index. bt_Term (terms ! (ids ! (index - 1))) = bt_Term (terms ! (ids ! index))) [1..<length ids])"

definition bucket_of :: "u64 \<Rightarrow> u32 \<Rightarrow> rstr \<Rightarrow> nat" where
  "bucket_of bucket_seed bucket_count term = unat (TermMphfHash term bucket_seed mod ucast bucket_count)"

definition fill_buckets :: "TermMphfBuildTerm list \<Rightarrow> u64 \<Rightarrow> u32 \<Rightarrow> nat list list" where
  "fill_buckets terms bucket_seed bucket_count =
     fold (\<lambda>(index, term) buckets.
         let bucket = bucket_of bucket_seed bucket_count (bt_Term term)
         in buckets[bucket := buckets ! bucket @ [index]])
       (enumerate 0 terms) (replicate (unat bucket_count) [])"

definition TryBuildTermMphf ::
  "TermMphfBuildTerm list \<Rightarrow> u64 \<Rightarrow> u64 \<Rightarrow> u64 \<Rightarrow> (TermMphfHeader \<times> i32 list \<times> bytes list) option" where
  "TryBuildTermMphf terms bucket_seed slot_seed fingerprint_seed =
     (let term_count = word_of_nat (length terms) :: u32
      in if term_count = 0 then None
         else
           let bucket_count = next_power_of_two (max 1 (term_count div 2));
               slot_count = term_count;
               max_displacement = min (max (max 1 (slot_count div 8)) 65536) (2 ^ 20)
           in if has_duplicates terms then None
              else
                let buckets = fill_buckets terms bucket_seed bucket_count;
                    order = sort_key (\<lambda>b. - int (length (buckets ! b))) [0..<unat bucket_count];
                    st = \<lparr>mb_displacements = replicate (unat bucket_count) (- 1),
                          mb_used = replicate (unat slot_count) False,
                          mb_slots = replicate (unat term_count) MAX32\<rparr>
                in case place_buckets (\<lambda>i. MphfSlotFor (bt_Term (terms ! i)) slot_count slot_seed)
                          (unat max_displacement) buckets order st of
                     None \<Rightarrow> None
                   | Some st \<Rightarrow>
                       (let free_slots = map word_of_nat (filter (\<lambda>s. \<not> mb_used st ! s) [0..<unat slot_count])
                        in case place_single (enumerate 0 buckets) free_slots st of
                             None \<Rightarrow> None
                           | Some st \<Rightarrow>
                               (let page_count = (unat slot_count + (PAGE_SIZE div TERM_MPHF_ENTRY_SIZE - 1)) div
                                                   (PAGE_SIZE div TERM_MPHF_ENTRY_SIZE)
                                in map_option (\<lambda>entry_pages.
                                       (\<lparr>TMH_Magic = TERM_MPHF_MAGIC, TMH_TermCount = ucast term_count,
                                         TMH_BucketCount = bucket_count, TMH_SlotCount = slot_count,
                                         TMH_BucketSeed = bucket_seed, TMH_SlotSeed = slot_seed,
                                         TMH_FingerprintSeed = fingerprint_seed\<rparr>,
                                        mb_displacements st, entry_pages))
                                     (write_records fingerprint_seed (zip (mb_slots st) terms)
                                        (replicate page_count (replicate PAGE_SIZE 0))))))"

text \<open>The seeds of an attempt; the arithmetic wraps, as in the code.\<close>

definition BUCKET_SEED_BASE :: u64 where "BUCKET_SEED_BASE = 0x9ae16a3b2f90404f"
definition SLOT_SEED_BASE :: u64 where "SLOT_SEED_BASE = 0xc3a5c85c97cb3127"
definition FINGERPRINT_SEED_BASE :: u64 where "FINGERPRINT_SEED_BASE = 0xb492b66fbe98f273"
definition SEED_STEP :: u64 where "SEED_STEP = 0x9e3779b97f4a7c15"

fun mphf_attempts ::
  "TermMphfBuildTerm list \<Rightarrow> u64 list \<Rightarrow> TermMphfHeader \<times> i32 list \<times> bytes list" where
  "mphf_attempts terms [] = (TermMphfHeader_default, [], [])"
| "mphf_attempts terms (attempt # attempts) =
     (case TryBuildTermMphf terms (BUCKET_SEED_BASE + SEED_STEP * attempt)
             (SLOT_SEED_BASE XOR (SEED_STEP * (attempt + 1)))
             (FINGERPRINT_SEED_BASE + SEED_STEP * (attempt + 3)) of
        Some result \<Rightarrow> result
      | None \<Rightarrow> mphf_attempts terms attempts)"

definition BuildTermMphf :: "TermMphfBuildTerm list \<Rightarrow> TermMphfHeader \<times> i32 list \<times> bytes list" where
  "BuildTermMphf terms =
     (if terms = [] then (TermMphfHeader_default, [], []) else mphf_attempts terms (map word_of_nat [0..<32]))"

definition build_term_of :: "LeafTermEntry \<Rightarrow> TermMphfBuildTerm" where
  "build_term_of entry =
     \<lparr>bt_Term = LTE_Term entry, bt_DocFreq = LTE_DocFreq entry, bt_IndexBlockID = LTE_IndexBlockID entry,
      bt_IndexOffset = ucast (LTE_IndexOffset entry), bt_IndexLength = ucast (LTE_IndexLength entry),
      bt_ContinuationBlockCount = ucast (LTE_ContinuationBlockCount entry), bt_Flags = ucast (LTE_Flags entry)\<rparr>"

definition BuildTermMphfFromLeafBlocks :: "LeafTermBlock list \<Rightarrow> TermMphfHeader \<times> i32 list \<times> bytes list" where
  "BuildTermMphfFromLeafBlocks leaf_blocks =
     BuildTermMphf (map build_term_of (concat (map leaf_entries leaf_blocks)))"

subsection \<open>Placing buckets\<close>

lemma mark_length [simp]: "length (fold (\<lambda>s used. used[unat s := True]) ss u) = length u"
  by (induction ss arbitrary: u) auto

lemma mark_nth:
  "j < length u \<Longrightarrow> fold (\<lambda>s used. used[unat s := True]) ss u ! j \<longleftrightarrow> u ! j \<or> (\<exists>s \<in> set ss. unat s = j)"
proof (induction ss arbitrary: u)
  case (Cons s ss)
  then show ?case by (cases "unat s = j") auto
qed simp

lemma assign_length [simp]: "length (fold (\<lambda>(i, s) all. all[i := s]) ps xs) = length xs"
  by (induction ps arbitrary: xs) auto

lemma assign_other: "j \<notin> fst ` set ps \<Longrightarrow> fold (\<lambda>(i, s) all. all[i := s]) ps xs ! j = xs ! j"
  by (induction ps arbitrary: xs) auto

lemma assign_nth:
  "distinct (map fst ps) \<Longrightarrow> (i, s) \<in> set ps \<Longrightarrow> i < length xs \<Longrightarrow> fold (\<lambda>(i, s) all. all[i := s]) ps xs ! i = s"
proof (induction ps arbitrary: xs)
  case (Cons p ps)
  from Cons.prems(2) consider "p = (i, s)" | "(i, s) \<in> set ps" by auto
  then show ?case
  proof cases
    case 1
    then show ?thesis using Cons.prems assign_other [of i ps] by auto
  next
    case 2
    then show ?thesis using Cons by (cases p) auto
  qed
qed simp

text \<open>
  \<open>slots_found bucket slot n m Done st\<close>: every term whose bucket is done has a slot of its own, marked
  as used, and the displacement of its bucket leads to that slot.
\<close>

definition slots_found :: "(nat \<Rightarrow> nat) \<Rightarrow> (nat \<Rightarrow> i32 \<Rightarrow> u32) \<Rightarrow> nat \<Rightarrow> nat \<Rightarrow> nat set \<Rightarrow> mphf_build \<Rightarrow> bool" where
  "slots_found bucket slot n m Done st \<longleftrightarrow>
     length (mb_displacements st) = m \<and> length (mb_used st) = n \<and> length (mb_slots st) = n \<and>
     (\<forall>i < n. bucket i \<in> Done \<longrightarrow> unat (mb_slots st ! i) < n \<and> mb_used st ! unat (mb_slots st ! i) \<and>
        slot i (mb_displacements st ! bucket i) = mb_slots st ! i) \<and>
     inj_on (\<lambda>i. mb_slots st ! i) {i. i < n \<and> bucket i \<in> Done}"

lemma slots_foundD:
  assumes "slots_found bucket slot n m Done st" and "i < n" and "bucket i \<in> Done"
  shows "slot i (mb_displacements st ! bucket i) = mb_slots st ! i" and "unat (mb_slots st ! i) < n"
  using assms by (auto simp: slots_found_def)

lemma take_slots_found:
  assumes inv: "slots_found bucket slot n m Done st" and b: "b \<notin> Done" "b < m"
    and B: "set B = {i. i < n \<and> bucket i = b}" "distinct B"
    and ss: "length ss = length B" "distinct ss" "\<forall>s \<in> set ss. unat s < n \<and> \<not> mb_used st ! unat s"
    and leads: "\<forall>(i, s) \<in> set (zip B ss). slot i d = s"
  shows "slots_found bucket slot n m (insert b Done) (take_slots b d B ss st)"
proof -
  let ?st = "take_slots b d B ss st"
  have len: "length (mb_displacements st) = m" "length (mb_used st) = n" "length (mb_slots st) = n"
    using inv by (auto simp: slots_found_def)
  have used: "mb_used ?st ! j \<longleftrightarrow> mb_used st ! j \<or> (\<exists>s \<in> set ss. unat s = j)" if "j < n" for j
    using that len by (simp add: take_slots_def mark_nth)
  have dist: "distinct (map fst (zip B ss))" using B(2) ss(1) by simp
  have new: "\<exists>s \<in> set ss. (i, s) \<in> set (zip B ss) \<and> mb_slots ?st ! i = s" if "i < n" "bucket i = b" for i
  proof -
    from that B(1) have "i \<in> set B" by simp
    then obtain k where k: "k < length B" "B ! k = i" by (auto simp: in_set_conv_nth)
    then have pair: "(i, ss ! k) \<in> set (zip B ss)" using ss(1) by (auto simp: set_zip)
    then show ?thesis using assign_nth [OF dist pair] that len k ss(1) by (auto simp: take_slots_def)
  qed
  have old: "mb_slots ?st ! i = mb_slots st ! i" if "bucket i \<noteq> b" for i
  proof -
    have "fst ` set (zip B ss) = set (map fst (zip B ss))" by simp
    then have "i \<notin> fst ` set (zip B ss)" using that B(1) ss(1) by simp
    then show ?thesis by (simp add: take_slots_def assign_other)
  qed
  have found: "unat (mb_slots ?st ! i) < n \<and> mb_used ?st ! unat (mb_slots ?st ! i) \<and>
      slot i (mb_displacements ?st ! bucket i) = mb_slots ?st ! i" if i: "i < n" "bucket i \<in> insert b Done" for i
  proof (cases "bucket i = b")
    case True
    with new [OF i(1)] obtain s where s: "s \<in> set ss" "(i, s) \<in> set (zip B ss)" "mb_slots ?st ! i = s" by blast
    then have "slot i d = s" using leads by auto
    then show ?thesis using s ss(3) used [of "unat s"] True b(2) len by (auto simp: take_slots_def)
  next
    case False
    then have "unat (mb_slots st ! i) < n \<and> mb_used st ! unat (mb_slots st ! i) \<and>
        slot i (mb_displacements st ! bucket i) = mb_slots st ! i"
      using inv i by (auto simp: slots_found_def)
    then show ?thesis using old [OF False] used False by (auto simp: take_slots_def)
  qed
  have "inj_on (\<lambda>i. mb_slots ?st ! i) {i. i < n \<and> bucket i \<in> insert b Done}"
  proof (rule inj_onI, goal_cases)
    case (1 i j)
    have clash: False if "i < n" "j < n" "bucket i = b" "bucket j \<in> Done" "mb_slots ?st ! i = mb_slots ?st ! j" for i j
    proof -
      from that b(1) have "bucket j \<noteq> b" by auto
      with that inv have "mb_used st ! unat (mb_slots ?st ! i)" by (auto simp: slots_found_def old)
      moreover from new [of i] that obtain s where "s \<in> set ss" "mb_slots ?st ! i = s" by blast
      ultimately show False using ss(3) by auto
    qed
    show ?case
    proof (cases "bucket i = b \<longleftrightarrow> bucket j = b")
      case False
      then show ?thesis using clash [of i j] clash [of j i] 1 by auto
    next
      case same: True
      show ?thesis
      proof (cases "bucket i = b")
        case True
        with same 1 new [of i] new [of j] obtain s where "(i, s) \<in> set (zip B ss)" "(j, s) \<in> set (zip B ss)" by auto
        then show ?thesis using ss(2) by (auto simp: set_zip distinct_conv_nth)
      next
        case False
        then show ?thesis using inv 1 same old by (auto simp: slots_found_def dest: inj_onD)
      qed
    qed
  qed
  moreover have "length (mb_displacements ?st) = m" "length (mb_used ?st) = n" "length (mb_slots ?st) = n"
    using len by (simp_all add: take_slots_def)
  ultimately show ?thesis using found unfolding slots_found_def by blast
qed

lemma candidate_slots_Some:
  assumes "candidate_slots slot_of used found is = Some ss" and "distinct found" and "\<forall>s \<in> set found. \<not> used ! unat s"
  shows "distinct ss \<and> (\<forall>s \<in> set ss. \<not> used ! unat s) \<and> ss = found @ map slot_of is"
  using assms
proof (induction "is" arbitrary: found)
  case (Cons i "is")
  let ?s = "slot_of i"
  from Cons.prems(1) have free: "\<not> used ! unat ?s" "?s \<notin> set found"
    and rest: "candidate_slots slot_of used (found @ [?s]) is = Some ss" by (auto simp: Let_def split: if_splits)
  have eq: "(found @ [?s]) @ map slot_of is = found @ map slot_of (i # is)" by simp
  from free Cons.prems(2,3) have "distinct (found @ [?s])" "\<forall>s \<in> set (found @ [?s]). \<not> used ! unat s" by auto
  from Cons.IH [OF rest this, unfolded eq] show ?case .
qed simp

lemma first_displacement_Some:
  assumes "first_displacement try d0 k = Some (d, ss)" and "unat d0 + k < 2 ^ 32"
  shows "try d = Some ss \<and> unat d < unat d0 + k"
  using assms
proof (induction k arbitrary: d0)
  case (Suc k)
  show ?case
  proof (cases "try d0")
    case None
    have "unat (d0 + 1) = unat d0 + 1" using Suc.prems(2) by (simp add: unat_word_ariths)
    then show ?thesis using Suc.IH [of "d0 + 1"] Suc.prems None by simp
  qed (use Suc.prems in auto)
qed simp

lemma place_buckets_found:
  assumes "place_buckets slot_for k buckets order st = Some st'" and "slots_found bucket slot n m Done st"
    and "distinct order" and "set order \<inter> Done = {}"
    and "\<forall>b \<in> set order. b < m \<and> set (buckets ! b) = {i. i < n \<and> bucket i = b} \<and> distinct (buckets ! b)"
    and "k < 2 ^ 32" and "\<And>i d. unat d < k \<Longrightarrow> slot i d = slot_for i d" and "\<And>i d. unat (slot_for i d) < n"
  shows "slots_found bucket slot n m (Done \<union> {b \<in> set order. length (buckets ! b) \<noteq> 1}) st'"
  using assms(1-5)
proof (induction order arbitrary: st Done)
  case Nil
  then show ?case by simp
next
  case (Cons b order)
  let ?B = "buckets ! b"
  have b: "b \<notin> Done" "b < m" "set ?B = {i. i < n \<and> bucket i = b}" "distinct ?B"
    and fresh: "distinct order" "set order \<inter> insert b Done = {}" "set order \<inter> Done = {}"
    and rest: "\<forall>b \<in> set order. b < m \<and> set (buckets ! b) = {i. i < n \<and> bucket i = b} \<and> distinct (buckets ! b)"
    using Cons.prems(3-5) by auto
  consider "?B = []" | "length ?B = 1" | "?B \<noteq> []" "length ?B \<noteq> 1" by auto
  then show ?case
  proof cases
    case 1
    have "slots_found bucket slot n m (insert b Done) (take_slots b 0 ?B [] st)"
      using 1 b by (intro take_slots_found [OF Cons.prems(2)]) auto
    moreover have "take_slots b 0 ?B [] st = st\<lparr>mb_displacements := (mb_displacements st)[b := 0]\<rparr>"
      by (simp add: take_slots_def)
    moreover have "insert b Done \<union> {b \<in> set order. length (buckets ! b) \<noteq> 1} =
        Done \<union> {x \<in> set (b # order). length (buckets ! x) \<noteq> 1}" using 1 by auto
    ultimately show ?thesis
      using Cons.IH [OF _ _ fresh(1,2) rest] Cons.prems(1) 1 by simp
  next
    case 2
    then have ne: "?B \<noteq> []" by auto
    have "{x \<in> set (b # order). length (buckets ! x) \<noteq> 1} = {x \<in> set order. length (buckets ! x) \<noteq> 1}" using 2 by auto
    then show ?thesis using Cons.IH [OF _ Cons.prems(2) fresh(1,3) rest] Cons.prems(1) 2 ne by simp
  next
    case 3
    then obtain d ss where d: "first_displacement (\<lambda>d. candidate_slots (\<lambda>i. slot_for i d) (mb_used st) [] ?B) 0 k = Some (d, ss)"
      and place: "place_buckets slot_for k buckets order (take_slots b d ?B ss st) = Some st'"
      using Cons.prems(1) by (auto simp: Let_def split: option.splits)
    from first_displacement_Some [OF d] assms(6)
    have cs: "candidate_slots (\<lambda>i. slot_for i d) (mb_used st) [] ?B = Some ss" and dk: "unat d < k" by auto
    from candidate_slots_Some [OF cs] have ss: "distinct ss" "\<forall>s \<in> set ss. \<not> mb_used st ! unat s" "ss = map (\<lambda>i. slot_for i d) ?B"
      by auto
    have "slots_found bucket slot n m (insert b Done) (take_slots b d ?B ss st)"
      using b ss assms(7) [OF dk] assms(8) by (intro take_slots_found [OF Cons.prems(2)]) (auto simp: set_zip)
    from Cons.IH [OF place this fresh(1,2) rest]
    have "slots_found bucket slot n m (insert b Done \<union> {b \<in> set order. length (buckets ! b) \<noteq> 1}) st'" .
    moreover have "insert b Done \<union> {b \<in> set order. length (buckets ! b) \<noteq> 1} =
        Done \<union> {x \<in> set (b # order). length (buckets ! x) \<noteq> 1}" using 3 by auto
    ultimately show ?thesis by simp
  qed
qed

lemma place_single_found:
  assumes "place_single bs free st = Some st'" and "slots_found bucket slot n m Done st"
    and "distinct (map fst bs)"
    and "\<forall>(b, B) \<in> set bs. b < m \<and> set B = {i. i < n \<and> bucket i = b} \<and> distinct B \<and> (length B = 1 \<longrightarrow> b \<notin> Done)"
    and "distinct free" and "\<forall>s \<in> set free. unat s < n \<and> \<not> mb_used st ! unat s"
    and direct: "\<And>i s. - int (unat s) - 1 \<ge> - (2 ^ 31) \<Longrightarrow> slot i (word_of_int (- int (unat s) - 1)) = s"
  shows "slots_found bucket slot n m (Done \<union> fst ` {p \<in> set bs. length (snd p) = 1}) st'"
  using assms(1-6)
proof (induction bs arbitrary: st Done free)
  case Nil
  then show ?case by simp
next
  case (Cons p bs)
  obtain b B where p: "p = (b, B)" by force
  show ?case
  proof (cases "length B = 1")
    case False
    then have "{q \<in> set (p # bs). length (snd q) = 1} = {q \<in> set bs. length (snd q) = 1}" by (auto simp: p)
    then show ?thesis using Cons.IH [of free st Done] Cons.prems False by (simp add: p)
  next
    case True
    from Cons.prems(1) True obtain s free' where free: "free = s # free'" and range: "- int (unat s) - 1 \<ge> - (2 ^ 31)"
      and place: "place_single bs free' (take_slots b (word_of_int (- int (unat s) - 1)) B [s] st) = Some st'"
      by (auto simp: p Let_def not_less split: list.splits if_splits)
    let ?st = "take_slots b (word_of_int (- int (unat s) - 1)) B [s] st"
    from True obtain i where B: "B = [i]" by (cases B) auto
    have found: "slots_found bucket slot n m (insert b Done) ?st"
      using Cons.prems True direct [OF range] by (intro take_slots_found [OF Cons.prems(2)]) (auto simp: p B free)
    have "\<forall>(x, X) \<in> set bs. x < m \<and> set X = {i. i < n \<and> bucket i = x} \<and> distinct X \<and> (length X = 1 \<longrightarrow> x \<notin> insert b Done)"
      using Cons.prems(3,4) by (force simp: p)
    moreover have "\<forall>s \<in> set free'. unat s < n \<and> \<not> mb_used ?st ! unat s"
    proof
      fix x assume x: "x \<in> set free'"
      then have "s \<noteq> x" "unat x < n" "\<not> mb_used st ! unat x" using Cons.prems(5,6) by (auto simp: free)
      moreover from this have "unat s \<noteq> unat x" by (simp add: word_unat_eq_iff)
      ultimately show "unat x < n \<and> \<not> mb_used ?st ! unat x" by (simp add: take_slots_def)
    qed
    ultimately have "slots_found bucket slot n m (insert b Done \<union> fst ` {q \<in> set bs. length (snd q) = 1}) st'"
      using Cons.IH [OF place found] Cons.prems(3,5) by (simp add: p free)
    moreover have "insert b Done \<union> fst ` {q \<in> set bs. length (snd q) = 1} = Done \<union> fst ` {q \<in> set (p # bs). length (snd q) = 1}"
      using True by (auto simp: p image_iff)
    ultimately show ?thesis by simp
  qed
qed

subsection \<open>Buckets, slots and records\<close>

lemma word32_mod_less: "(c :: u32) \<noteq> 0 \<Longrightarrow> unat (h mod ucast c :: u64) < unat c"
  by (simp add: unat_mod_distrib unat_up unat_gt_0)

lemma bucket_of_less: "bucket_count \<noteq> 0 \<Longrightarrow> bucket_of seed bucket_count key < unat bucket_count"
  unfolding bucket_of_def by (rule word32_mod_less)

lemma MphfSlotFor_less: "slot_count \<noteq> 0 \<Longrightarrow> unat (MphfSlotFor key slot_count seed d) < unat slot_count"
  and MphfSlotFor_up: "slot_count \<noteq> 0 \<Longrightarrow> ucast (MphfSlotFor key slot_count seed d) =
    TermMphfHash key (TermMphfSlotSeed seed d) mod ucast slot_count"
proof -
  assume c: "slot_count \<noteq> 0"
  let ?h = "TermMphfHash key (TermMphfSlotSeed seed d) mod ucast slot_count"
  have less: "unat ?h < unat slot_count" using word32_mod_less [OF c] .
  then have "unat (ucast ?h :: u32) = unat ?h"
    using unat_bound [of slot_count] by (intro unat_down) simp
  then show "unat (MphfSlotFor key slot_count seed d) < unat slot_count" "ucast (MphfSlotFor key slot_count seed d) = ?h"
    using less by (simp_all add: MphfSlotFor_def word_unat_eq_iff unat_up)
qed

lemma fill_buckets_nth:
  assumes "bucket_count \<noteq> 0" and "b < unat bucket_count"
  shows "length (fill_buckets terms seed bucket_count) = unat bucket_count \<and>
    fill_buckets terms seed bucket_count ! b =
      filter (\<lambda>i. bucket_of seed bucket_count (bt_Term (terms ! i)) = b) [0..<length terms]"
proof (induction terms rule: rev_induct)
  case Nil
  then show ?case using assms(2) by (simp add: fill_buckets_def)
next
  case (snoc x xs)
  let ?b = "bucket_of seed bucket_count (bt_Term x)"
  have "fill_buckets (xs @ [x]) seed bucket_count =
      (fill_buckets xs seed bucket_count)[?b := fill_buckets xs seed bucket_count ! ?b @ [length xs]]"
    by (simp add: fill_buckets_def enumerate_append_eq Let_def)
  moreover have "filter (\<lambda>i. bucket_of seed bucket_count (bt_Term ((xs @ [x]) ! i)) = b) [0..<length xs] =
      filter (\<lambda>i. bucket_of seed bucket_count (bt_Term (xs ! i)) = b) [0..<length xs]"
    by (intro filter_cong) (auto simp: nth_append)
  ultimately show ?case using snoc bucket_of_less [OF assms(1)] by (auto simp: nth_append nth_list_update)
qed

definition read_record :: "bytes list \<Rightarrow> nat \<Rightarrow> bytes" where
  "read_record pages slot =
     (let off = slot * TERM_MPHF_ENTRY_SIZE
      in subslice (off mod PAGE_SIZE) (off mod PAGE_SIZE + TERM_MPHF_ENTRY_SIZE) (pages ! (off div PAGE_SIZE)))"

lemma length_mphf_record [simp]: "length (mphf_record source seed) = TERM_MPHF_ENTRY_SIZE"
  by (simp add: mphf_record_def TERM_MPHF_ENTRY_SIZE_def)

text \<open>A page holds 128 records; they never straddle a page.\<close>

lemma record_place:
  "slot * TERM_MPHF_ENTRY_SIZE div PAGE_SIZE = slot div 128"
  "slot * TERM_MPHF_ENTRY_SIZE mod PAGE_SIZE = slot mod 128 * 32"
proof -
  have "slot * 32 div (128 * 32) = slot div 128" by (rule div_mult_mult2) simp
  moreover have "slot * 32 mod (128 * 32) = slot mod 128 * 32" by (rule mod_mult_mult2)
  ultimately show "slot * TERM_MPHF_ENTRY_SIZE div PAGE_SIZE = slot div 128"
    "slot * TERM_MPHF_ENTRY_SIZE mod PAGE_SIZE = slot mod 128 * 32"
    by (simp_all add: TERM_MPHF_ENTRY_SIZE_def PAGE_SIZE_def)
qed

definition pages_ok :: "nat \<Rightarrow> bytes list \<Rightarrow> bool" where
  "pages_ok n pages \<longleftrightarrow> n \<le> length pages * 128 \<and> (\<forall>p \<in> set pages. length p = PAGE_SIZE)"

lemma read_write_record:
  assumes "pages_ok n pages" and "slot < n" and "slot' < n" and "length data = TERM_MPHF_ENTRY_SIZE"
  shows "pages_ok n (write_record slot data pages)"
    and "read_record (write_record slot data pages) slot' = (if slot' = slot then data else read_record pages slot')"
proof -
  let ?p = "slot div 128" and ?q = "slot' div 128"
  have at: "?p < length pages" "?q < length pages" using assms(1-3) by (auto simp: pages_ok_def)
  then have len: "length (pages ! ?p) = PAGE_SIZE" using assms(1) by (simp add: pages_ok_def)
  have fit: "slot mod 128 * 32 + length data \<le> length (pages ! ?p)"
    using len assms(4) by (simp add: PAGE_SIZE_def TERM_MPHF_ENTRY_SIZE_def)
  show "pages_ok n (write_record slot data pages)"
    using assms(1) at fit len
    by (auto simp: pages_ok_def write_record_def Let_def record_place dest!: set_update_subset_insert [THEN subsetD])
  consider "slot' = slot" | "?q \<noteq> ?p" | "?q = ?p" "slot' mod 128 < slot mod 128" | "?q = ?p" "slot mod 128 < slot' mod 128"
    by (metis div_mult_mod_eq linorder_neqE_nat)
  then show "read_record (write_record slot data pages) slot' = (if slot' = slot then data else read_record pages slot')"
  proof cases
    case 1
    then show ?thesis
      using at fit slice_put_same [OF fit] assms(4) by (simp add: read_record_def write_record_def Let_def record_place)
  next
    case 2
    then show ?thesis using at by (auto simp: read_record_def write_record_def Let_def record_place)
  next
    case 3
    then have "slot' mod 128 * 32 + TERM_MPHF_ENTRY_SIZE \<le> slot mod 128 * 32" by (simp add: TERM_MPHF_ENTRY_SIZE_def)
    moreover have "slot mod 128 * 32 \<le> length (pages ! ?p)" using fit by simp
    ultimately show ?thesis
      using 3 at by (auto simp: read_record_def write_record_def Let_def record_place slice_put_before)
  next
    case 4
    then have "slot mod 128 * 32 + length data \<le> slot' mod 128 * 32" using assms(4) by (simp add: TERM_MPHF_ENTRY_SIZE_def)
    with fit show ?thesis
      using 4 at by (auto simp: read_record_def write_record_def Let_def record_place slice_put_after)
  qed
qed

lemma write_records_read:
  assumes "write_records seed es pages = Some pages'" and "pages_ok n pages"
    and "\<forall>e \<in> set es. unat (fst e) < n" and "distinct (map (\<lambda>e. unat (fst e)) es)"
  shows "length pages' = length pages \<and> pages_ok n pages' \<and>
    (\<forall>(slot, source) \<in> set es. read_record pages' (unat slot) = mphf_record source seed) \<and>
    (\<forall>s < n. s \<notin> (\<lambda>e. unat (fst e)) ` set es \<longrightarrow> read_record pages' s = read_record pages s)"
  using assms
proof (induction es arbitrary: pages)
  case Nil
  then show ?case by simp
next
  case (Cons e es)
  obtain slot source where e: "e = (slot, source)" by force
  let ?pages = "write_record (unat slot) (mphf_record source seed) pages"
  from Cons.prems e have rest: "write_records seed es ?pages = Some pages'" and slot: "unat slot < n"
    and fresh: "unat slot \<notin> (\<lambda>e. unat (fst e)) ` set es" by (auto split: if_splits)
  note rw = read_write_record [OF Cons.prems(2) slot _ length_mphf_record, of _ source seed]
  have "length ?pages = length pages" by (simp add: write_record_def Let_def)
  with Cons.IH [OF rest rw(1) [OF slot]] Cons.prems(3,4) rw(2) slot fresh show ?case by (auto simp: e)
qed

subsection \<open>The number of buckets\<close>

lemma smear_step:
  fixes v :: u32
  assumes "\<And>n. bit v n \<longleftrightarrow> (\<exists>d < s. bit x (n + d))"
  shows "bit (v OR drop_bit s v) n \<longleftrightarrow> (\<exists>d < 2 * s. bit x (n + d))"
proof -
  have "bit (v OR drop_bit s v) n \<longleftrightarrow> (\<exists>d < s. bit x (n + d)) \<or> (\<exists>d < s. bit x (n + (s + d)))"
    by (simp add: bit_or_iff bit_drop_bit_eq assms ac_simps)
  also have "\<dots> \<longleftrightarrow> (\<exists>d < 2 * s. bit x (n + d))"
  proof
    assume "\<exists>d < 2 * s. bit x (n + d)"
    then obtain d where d: "d < 2 * s" "bit x (n + d)" by blast
    show "(\<exists>d < s. bit x (n + d)) \<or> (\<exists>d < s. bit x (n + (s + d)))"
    proof (cases "d < s")
      case False
      then have "d - s < s" "n + (s + (d - s)) = n + d" using d(1) by auto
      then show ?thesis using d(2) by metis
    qed (use d in blast)
  next
    assume "(\<exists>d < s. bit x (n + d)) \<or> (\<exists>d < s. bit x (n + (s + d)))"
    then show "\<exists>d < 2 * s. bit x (n + d)" by (metis add_less_cancel_left mult_2 trans_less_add1)
  qed
  finally show ?thesis .
qed

lemma smear_mask:
  fixes x v :: u32
  assumes top: "bit x k" and above: "\<And>m. bit x m \<Longrightarrow> m \<le> k"
    and v: "\<And>n. bit v n \<longleftrightarrow> (\<exists>d < 32. bit x (n + d))"
  shows "v = mask (Suc k)"
proof (rule bit_word_eqI)
  fix n assume n: "n < LENGTH(32)"
  have k: "k < 32" using top bit_imp_le_length by fastforce
  show "bit v n \<longleftrightarrow> bit (mask (Suc k) :: u32) n"
  proof
    assume "bit v n"
    then show "bit (mask (Suc k) :: u32) n" using v above n by (fastforce simp: bit_mask_iff)
  next
    assume "bit (mask (Suc k) :: u32) n"
    then have "n \<le> k" by (simp add: bit_mask_iff)
    then have "n + (k - n) = k" "k - n < 32" using k by auto
    then show "bit v n" using v top by metis
  qed
qed

lemma top_bit:
  fixes x :: u32
  assumes "x \<noteq> 0"
  obtains k where "bit x k" "\<And>m. bit x m \<Longrightarrow> m \<le> k" "2 ^ k \<le> unat x" "unat x < 2 ^ Suc k"
proof -
  let ?S = "{m. bit x m}"
  have fin: "finite ?S" by (rule finite_subset [of _ "{..<32}"]) (auto dest: bit_imp_le_length)
  have ne: "?S \<noteq> {}" using assms by (auto simp: bit_eq_iff)
  define k where "k = Max ?S"
  have top: "bit x k" using Max_in [OF fin ne] by (simp add: k_def)
  have above: "m \<le> k" if "bit x m" for m using Max_ge [OF fin] that by (simp add: k_def)
  have "take_bit (Suc k) x = x" by (rule bit_word_eqI) (use above in \<open>auto simp: bit_take_bit_iff dest: above\<close>)
  then have "unat x < 2 ^ Suc k" by (metis unsigned_take_bit_eq take_bit_nat_less_exp)
  moreover have "2 ^ k \<le> unat x"
  proof (rule ccontr)
    assume "\<not> 2 ^ k \<le> unat x"
    then have "\<not> bit (unat x) k" by (simp add: bit_iff_odd)
    then show False using top by (simp add: bit_unsigned_iff)
  qed
  ultimately show ?thesis using that top above by blast
qed

lemma next_power_of_two_value:
  assumes "2 \<le> value" and "value \<le> 2 ^ 31"
  obtains k where "k \<le> 30" "next_power_of_two value = 2 ^ Suc k" "2 ^ k < unat value" "unat value \<le> 2 ^ Suc k"
proof -
  define x where "x = value - 1"
  have "1 \<le> value" using assms(1) by (simp add: word_le_nat_alt)
  then have ux: "unat x = unat value - 1" by (simp add: x_def unat_sub)
  have val: "2 \<le> unat value" "unat value \<le> 2 ^ 31" using assms by (simp_all add: word_le_nat_alt)
  then have "x \<noteq> 0" using ux by auto
  then obtain k where k: "bit x k" "\<And>m. bit x m \<Longrightarrow> m \<le> k" "2 ^ k \<le> unat x" "unat x < 2 ^ Suc k"
    by (rule top_bit) blast
  define v1 where "v1 = x OR drop_bit 1 x"
  define v2 where "v2 = v1 OR drop_bit 2 v1"
  define v3 where "v3 = v2 OR drop_bit 4 v2"
  define v4 where "v4 = v3 OR drop_bit 8 v3"
  have b1: "bit v1 n \<longleftrightarrow> (\<exists>d < 2. bit x (n + d))" for n unfolding v1_def using smear_step [of x 1 x n] by simp
  have b2: "bit v2 n \<longleftrightarrow> (\<exists>d < 4. bit x (n + d))" for n unfolding v2_def using smear_step [OF b1, of n] by simp
  have b3: "bit v3 n \<longleftrightarrow> (\<exists>d < 8. bit x (n + d))" for n unfolding v3_def using smear_step [OF b2, of n] by simp
  have b4: "bit v4 n \<longleftrightarrow> (\<exists>d < 16. bit x (n + d))" for n unfolding v4_def using smear_step [OF b3, of n] by simp
  have "bit (v4 OR drop_bit 16 v4) n \<longleftrightarrow> (\<exists>d < 32. bit x (n + d))" for n using smear_step [OF b4, of n] by simp
  from smear_mask [OF k(1,2) this] have "v4 OR drop_bit 16 v4 = mask (Suc k)" .
  moreover have "\<not> value \<le> 1" using val by (simp add: word_le_nat_alt)
  then have "next_power_of_two value = (v4 OR drop_bit 16 v4) + 1"
    unfolding next_power_of_two_def Let_def x_def [symmetric] v1_def [symmetric] v2_def [symmetric] v3_def [symmetric]
      v4_def [symmetric] by (simp only: if_False)
  ultimately have "next_power_of_two value = 2 ^ Suc k" by (simp add: mask_eq_exp_minus_1)
  moreover have "(2::nat) ^ k < 2 ^ 31" using k(3) val ux by linarith
  then have "k \<le> 30" using power_less_imp_less_exp [of "2::nat" k 31] by simp
  ultimately show ?thesis using that k ux val by simp
qed

lemma next_power_of_two_nonzero: "value \<le> 2 ^ 31 \<Longrightarrow> next_power_of_two value \<noteq> 0"
proof (cases "2 \<le> value")
  case True
  assume "value \<le> 2 ^ 31"
  with True obtain k where "k \<le> 30" "next_power_of_two value = 2 ^ Suc k" by (rule next_power_of_two_value)
  then show ?thesis by (simp del: power_Suc add: exp_eq_zero_iff)
next
  case False
  then have "value \<le> 1" by (simp add: word_le_nat_alt)
  then show ?thesis by (simp add: next_power_of_two_def)
qed

text \<open>
  \<open>next_power_of_two\<close> rounds up to a power of two: for \<open>1 \<le> value \<le> 2 ^ 31\<close> the result is a
  power of two, at least the value and less than twice the value. (Above \<open>2 ^ 31\<close> the addition
  overflows; the builder never asks for more than half of a \<open>u32\<close>.)
\<close>

theorem next_power_of_two_least:
  assumes "1 \<le> value" and "value \<le> 2 ^ 31"
  shows "\<exists>k \<le> 31. next_power_of_two value = 2 ^ k \<and> value \<le> 2 ^ k \<and> 2 ^ k < 2 * unat value"
proof (cases "2 \<le> value")
  case True
  then obtain k where k: "k \<le> 30" "next_power_of_two value = 2 ^ Suc k" "2 ^ k < unat value" "unat value \<le> 2 ^ Suc k"
    using assms(2) by (rule next_power_of_two_value)
  have "unat (2 ^ Suc k :: u32) = 2 ^ Suc k" 
  proof -
    have "(2::nat) ^ Suc k < 2 ^ 32" using k(1) by (intro power_strict_increasing) auto
    from unat32_of_nat [OF this] show ?thesis by simp
  qed
  then have "value \<le> 2 ^ Suc k" using k(4) by (simp only: word_le_nat_alt)
  then show ?thesis using k by (intro exI [of _ "Suc k"]) (simp add: k)
next
  case False
  with assms(1) have "value = 1" by (simp add: word_le_nat_alt word_unat_eq_iff)
  then show ?thesis by (intro exI [of _ 0]) (simp add: next_power_of_two_def)
qed

theorem next_power_of_two_least_witness:
  "\<exists>k \<le> 31. next_power_of_two 5 = 2 ^ k \<and> (5 :: u32) \<le> 2 ^ k \<and> 2 ^ k < 2 * unat (5 :: u32)"
  using next_power_of_two_least [of 5] by simp

subsection \<open>The lookup finds every term\<close>

definition lookup_slot :: "TermMphfHeader \<Rightarrow> i32 list \<Rightarrow> rstr \<Rightarrow> u32" where
  "lookup_slot h ds key =
     (let d = ds ! bucket_of (TMH_BucketSeed h) (TMH_BucketCount h) key
      in if d <s 0 then word_of_int (- sint d - 1) else MphfSlotFor key (TMH_SlotCount h) (TMH_SlotSeed h) d)"

text \<open>
  \<open>mphf_of terms h ds pages\<close>: the tables have the sizes the header says, the displacements send the
  terms to different slots, and each slot holds the record of its term.
\<close>

definition mphf_of :: "TermMphfBuildTerm list \<Rightarrow> TermMphfHeader \<Rightarrow> i32 list \<Rightarrow> bytes list \<Rightarrow> bool" where
  "mphf_of terms h ds pages \<longleftrightarrow> terms \<noteq> [] \<and> length terms < 2 ^ 32 \<and>
     TMH_Magic h = TERM_MPHF_MAGIC \<and> unat (TMH_TermCount h) = length terms \<and> unat (TMH_SlotCount h) = length terms \<and>
     TMH_BucketCount h \<noteq> 0 \<and> length ds = unat (TMH_BucketCount h) \<and>
     length pages = (length terms + 127) div 128 \<and>
     (\<forall>i < length terms. unat (lookup_slot h ds (bt_Term (terms ! i))) < length terms \<and>
        read_record pages (unat (lookup_slot h ds (bt_Term (terms ! i)))) = mphf_record (terms ! i) (TMH_FingerprintSeed h)) \<and>
     inj_on (\<lambda>i. lookup_slot h ds (bt_Term (terms ! i))) {..<length terms}"

lemma direct_slot:
  assumes "- int (unat s) - 1 \<ge> - (2 ^ 31)" and "d = word_of_int (- int (unat s) - 1)"
  shows "d <s (0 :: i32) \<and> (word_of_int (- sint d - 1) :: u32) = s"
proof -
  have "sint d = signed_take_bit 31 (- int (unat s) - 1)"
    unfolding assms(2) signed_of_int by simp
  also have "\<dots> = - int (unat s) - 1"
    using assms(1) by (intro signed_take_bit_int_eq_self) linarith+
  finally have d: "sint d = - int (unat s) - 1" .
  then have "sint d < 0" by linarith
  with d show ?thesis by (simp add: word_sless_alt)
qed

lemma small_nonneg: "unat (d :: i32) < 2 ^ 31 \<Longrightarrow> \<not> d <s 0"
proof -
  assume "unat d < 2 ^ 31"
  then have "uint d < 2 ^ 31" by (metis nat_less_numeral_power_cancel_iff unat_eq_nat_uint uint_ge_0)
  have "sint d = uint d"
  proof -
    note small = \<open>uint d < 2 ^ 31\<close>
    have "- (2 ^ 31) \<le> uint d" using uint_ge_0 [of d] by (rule order_trans [rotated]) simp
    then have "signed_take_bit 31 (uint d) = uint d" using small by (intro signed_take_bit_int_eq_self) simp_all
    then show ?thesis by (simp add: sint_uint)
  qed
  then show ?thesis by (simp add: word_sless_alt)
qed

lemma TryBuildTermMphf_steps:
  assumes "TryBuildTermMphf terms bucket_seed slot_seed fingerprint_seed = Some (h, ds, pages)"
  defines "c \<equiv> word_of_nat (length terms) :: u32"
  defines "bc \<equiv> next_power_of_two (max 1 (c div 2))"
  defines "buckets \<equiv> fill_buckets terms bucket_seed bc"
  obtains st st' where "c \<noteq> 0"
    "place_buckets (\<lambda>i. MphfSlotFor (bt_Term (terms ! i)) c slot_seed) (unat (min (max (max 1 (c div 8)) 65536) (2 ^ 20) :: u32))
       buckets (sort_key (\<lambda>b. - int (length (buckets ! b))) [0..<unat bc])
       \<lparr>mb_displacements = replicate (unat bc) (- 1), mb_used = replicate (unat c) False, mb_slots = replicate (unat c) MAX32\<rparr> =
       Some st"
    "place_single (enumerate 0 buckets) (map word_of_nat (filter (\<lambda>s. \<not> mb_used st ! s) [0..<unat c])) st = Some st'"
    "write_records fingerprint_seed (zip (mb_slots st') terms) (replicate ((unat c + 127) div 128) (replicate PAGE_SIZE 0)) =
       Some pages"
    "ds = mb_displacements st'"
    "h = \<lparr>TMH_Magic = TERM_MPHF_MAGIC, TMH_TermCount = ucast c, TMH_BucketCount = bc, TMH_SlotCount = c,
          TMH_BucketSeed = bucket_seed, TMH_SlotSeed = slot_seed, TMH_FingerprintSeed = fingerprint_seed\<rparr>"
    "\<not> has_duplicates terms"
  using assms(1) unfolding TryBuildTermMphf_def Let_def c_def [symmetric] bc_def [symmetric] buckets_def [symmetric]
  by (auto simp: PAGE_SIZE_def TERM_MPHF_ENTRY_SIZE_def split: if_splits option.splits)

lemma TryBuildTermMphf_of:
  assumes built: "TryBuildTermMphf terms bucket_seed slot_seed fingerprint_seed = Some (h, ds, pages)"
    and small: "length terms < 2 ^ 32"
  shows "mphf_of terms h ds pages"
proof -
  let ?n = "length terms"
  define c where "c = (word_of_nat (length terms) :: u32)"
  define bc where "bc = next_power_of_two (max 1 (c div 2))"
  define buckets where "buckets = fill_buckets terms bucket_seed bc"
  let ?order = "sort_key (\<lambda>b. - int (length (buckets ! b))) [0..<unat bc]"
  let ?k = "unat (min (max (max 1 (c div 8)) 65536) (2 ^ 20) :: u32)"
  let ?bucket = "\<lambda>i. bucket_of bucket_seed bc (bt_Term (terms ! i))"
  let ?hash = "\<lambda>i. MphfSlotFor (bt_Term (terms ! i)) c slot_seed"
  let ?slot = "\<lambda>i d. if d <s 0 then word_of_int (- sint d - 1) else ?hash i d"
  from TryBuildTermMphf_steps [OF built, folded c_def, folded bc_def, folded buckets_def] obtain st st' where
    c: "c \<noteq> 0" and multi: "place_buckets ?hash ?k buckets ?order \<lparr>mb_displacements = replicate (unat bc) (- 1),
      mb_used = replicate (unat c) False, mb_slots = replicate (unat c) MAX32\<rparr> = Some st"
    and single: "place_single (enumerate 0 buckets) (map word_of_nat (filter (\<lambda>s. \<not> mb_used st ! s) [0..<unat c])) st = Some st'"
    and recs: "write_records fingerprint_seed (zip (mb_slots st') terms) (replicate ((unat c + 127) div 128) (replicate PAGE_SIZE 0)) =
       Some pages"
    and ds: "ds = mb_displacements st'"
    and h: "h = \<lparr>TMH_Magic = TERM_MPHF_MAGIC, TMH_TermCount = ucast c, TMH_BucketCount = bc, TMH_SlotCount = c,
          TMH_BucketSeed = bucket_seed, TMH_SlotSeed = slot_seed, TMH_FingerprintSeed = fingerprint_seed\<rparr>" by metis
  have n: "unat c = ?n" using small by (simp add: c_def unat32_of_nat)
  have bc: "bc \<noteq> 0" unfolding bc_def
  proof (rule next_power_of_two_nonzero)
    show "max 1 (c div 2) \<le> 2 ^ 31" using unat_bound [of c] by (auto simp: word_le_nat_alt unat_div max_def)
  qed
  have fill: "length buckets = unat bc" "b < unat bc \<Longrightarrow> buckets ! b = filter (\<lambda>i. ?bucket i = b) [0..<?n]" for b
    using fill_buckets_nth [OF bc] bucket_of_less [OF bc] unfolding buckets_def by blast+
  have start: "slots_found ?bucket ?slot ?n (unat bc) {} \<lparr>mb_displacements = replicate (unat bc) (- 1),
      mb_used = replicate (unat c) False, mb_slots = replicate (unat c) MAX32\<rparr>"
    by (simp add: slots_found_def n)
  have k: "?k \<le> 2 ^ 20"
  proof -
    have "?k \<le> unat (2 ^ 20 :: u32)" unfolding word_le_nat_alt [symmetric] by (rule min.cobounded2)
    then show ?thesis by simp
  qed
  have "slots_found ?bucket ?slot ?n (unat bc) ({} \<union> {b \<in> set ?order. length (buckets ! b) \<noteq> 1}) st"
  proof (rule place_buckets_found [OF multi start])
    show "\<forall>b \<in> set ?order. b < unat bc \<and> set (buckets ! b) = {i. i < ?n \<and> ?bucket i = b} \<and> distinct (buckets ! b)"
      using fill(2) by auto
    show "?slot i d = ?hash i d" if "unat d < ?k" for i d
      using that k small_nonneg [of d] by simp
    show "unat (?hash i d) < ?n" for i d using MphfSlotFor_less [OF c] n by metis
  qed (use k in auto)
  then have "slots_found ?bucket ?slot ?n (unat bc)
      ({b. b < unat bc \<and> length (buckets ! b) \<noteq> 1} \<union> fst ` {p \<in> set (enumerate 0 buckets). length (snd p) = 1}) st'"
  proof (intro place_single_found [OF single], goal_cases)
    case 1
    then show ?case by simp
  next
    case 3
    then show ?case using fill by (auto simp: in_set_enumerate_eq)
  next
    case 4
    have "inj_on (word_of_nat :: nat \<Rightarrow> u32) {s. s < ?n}"
      by (rule inj_onI) (metis mem_Collect_eq small less_trans unat32_of_nat)
    then show ?case by (auto simp: distinct_map n intro: inj_on_subset)
  next
    case 5
    have "unat (word_of_nat s :: u32) = s" if "s < ?n" for s using small that by (intro unat32_of_nat) simp
    then show ?case by (auto simp: n)
  next
    case (6 i s)
    then show ?case using direct_slot [OF 6(2) refl] by simp
  qed simp
  moreover have "{b. b < unat bc \<and> length (buckets ! b) \<noteq> 1} \<union> fst ` {p \<in> set (enumerate 0 buckets). length (snd p) = 1} =
      {b. b < unat bc}"
    using fill(1) by (force simp: in_set_enumerate_eq image_iff)
  ultimately have all_done: "slots_found ?bucket ?slot ?n (unat bc) {b. b < unat bc} st'" by simp
  have at: "lookup_slot h ds (bt_Term (terms ! i)) = mb_slots st' ! i" "unat (mb_slots st' ! i) < ?n" if "i < ?n" for i
  proof -
    have "lookup_slot h ds (bt_Term (terms ! i)) = ?slot i (mb_displacements st' ! ?bucket i)"
      by (simp add: lookup_slot_def Let_def h ds)
    moreover have "?bucket i \<in> {b. b < unat bc}" using bucket_of_less [OF bc] by simp
    note found = slots_foundD [OF all_done that this]
    ultimately show "lookup_slot h ds (bt_Term (terms ! i)) = mb_slots st' ! i" "unat (mb_slots st' ! i) < ?n"
      by (simp_all only: found)
  qed
  have inj: "inj_on (\<lambda>i. mb_slots st' ! i) {..<?n}"
  proof -
    have "{i. i < ?n \<and> ?bucket i \<in> {b. b < unat bc}} = {..<?n}" using bucket_of_less [OF bc] by auto
    then show ?thesis using all_done unfolding slots_found_def by metis
  qed
  have ls: "length (mb_slots st') = ?n" "length ds = unat bc" using all_done by (auto simp: slots_found_def ds)
  have "distinct (mb_slots st')" using inj ls(1) by (auto simp: distinct_conv_nth inj_on_def)
  then have "distinct (map (\<lambda>e. unat (fst e)) (zip (mb_slots st') terms))"
    using ls(1) by (simp add: map_zip_map2 [symmetric] distinct_conv_nth word_unat_eq_iff)
  moreover have "pages_ok ?n (replicate ((unat c + 127) div 128) (replicate PAGE_SIZE 0))"
    by (auto simp: pages_ok_def n)
  ultimately have wr: "length pages = (?n + 127) div 128"
      "\<forall>(slot, source) \<in> set (zip (mb_slots st') terms). read_record pages (unat slot) = mphf_record source fingerprint_seed"
    using write_records_read [OF recs, of ?n] at(2) ls(1) by (auto simp: set_zip n)
  have "read_record pages (unat (mb_slots st' ! i)) = mphf_record (terms ! i) fingerprint_seed" if "i < ?n" for i
  proof -
    have "(mb_slots st' ! i, terms ! i) \<in> set (zip (mb_slots st') terms)" using that ls(1) by (auto simp: set_zip)
    then show ?thesis using wr(2) by auto
  qed
  moreover have "inj_on (\<lambda>i. lookup_slot h ds (bt_Term (terms ! i))) {..<?n}" using inj at(1) by (simp add: inj_on_def)
  moreover have "terms \<noteq> []" using c by (auto simp: c_def)
  ultimately show ?thesis
    unfolding mphf_of_def using small n wr(1) at ls bc by (auto simp: h unat_up)
qed

definition mphf_location :: "TermMphfBuildTerm \<Rightarrow> IndexLocation" where
  "mphf_location source =
     \<lparr>index_block_id = bt_IndexBlockID source, index_offset = unat (bt_IndexOffset source),
      index_length = unat (bt_IndexLength source), loc_doc_freq = bt_DocFreq source,
      continuation_block_count = bt_ContinuationBlockCount source\<rparr>"

definition decode_record :: "bytes \<Rightarrow> IndexLocation" where
  "decode_record data =
     \<lparr>index_block_id = u32_from_le (subslice 4 8 data), index_offset = unat (u32_from_le (subslice 8 12 data)),
      index_length = unat (u32_from_le (subslice 12 16 data)), loc_doc_freq = u32_from_le (subslice 0 4 data),
      continuation_block_count = u32_from_le (subslice 16 20 data)\<rparr>"

lemma mphf_record_fields:
  "decode_record (mphf_record source seed) = mphf_location source"
  "u64_from_le (subslice 24 32 (mphf_record source seed)) = mphf_fingerprint (bt_Term source) seed"
  by (simp_all add: decode_record_def mphf_location_def mphf_record_def slice_append_left slice_append_right)

lemma SetTermMphf_of:
  assumes "mphf_of terms h ds pages" and "m_TermMphfEnabled t"
  defines "t' \<equiv> SetTermMphf h ds pages t"
  shows "HasTermMphf t'" "m_TermMphfHeader t' = h" "m_TermMphfDisplacements t' = ds" "m_TermMphfEntryPages t' = pages"
    "unat (m_TermMphfEntryPageCount t') = length pages"
proof -
  let ?n = "length terms"
  have n: "?n < 2 ^ 32" "0 < ?n" "unat (TMH_TermCount h) = ?n" "unat (TMH_SlotCount h) = ?n" "TMH_BucketCount h \<noteq> 0"
    "length ds = unat (TMH_BucketCount h)" "length pages = (?n + 127) div 128" "TMH_Magic h = TERM_MPHF_MAGIC"
    using assms(1) by (auto simp: mphf_of_def)
  have pos: "TMH_TermCount h \<noteq> 0" "TMH_SlotCount h \<noteq> 0" "ds \<noteq> []" "pages \<noteq> []"
  proof -
    have "length pages \<noteq> 0" using n(2,7) by linarith
    then show "pages \<noteq> []" by simp
  qed (use n in \<open>auto simp: word_unat_eq_iff\<close>)
  have same: "ucast (TMH_SlotCount h) = TMH_TermCount h" using n by (simp add: word_unat_eq_iff unat_up)
  have room: "?n * TERM_MPHF_ENTRY_SIZE \<le> length pages * PAGE_SIZE"
    using n(7) by (simp add: TERM_MPHF_ENTRY_SIZE_def PAGE_SIZE_def)
  have "length pages < 2 ^ 32" using n(1,7) by simp
  then have up: "unat (word_of_nat (length pages) :: u32) = length pages" by (rule unat32_of_nat)
  have t': "t' = (ClearTermMphf t)\<lparr>m_TermMphfHeader := h, m_TermMphfDisplacements := ds,
      m_TermMphfDisplacementCount := word_of_nat (length ds), m_TermMphfEntryPages := pages,
      m_TermMphfEntryPageCount := word_of_nat (length pages)\<rparr>"
    unfolding t'_def SetTermMphf_def Let_def using pos same n room by simp
  then show "m_TermMphfHeader t' = h" "m_TermMphfDisplacements t' = ds" "m_TermMphfEntryPages t' = pages"
    "unat (m_TermMphfEntryPageCount t') = length pages" using up by simp_all
  have "word_of_nat (length ds) = TMH_BucketCount h" using n(6) by simp
  then show "HasTermMphf t'"
    using assms(2) pos n room up by (simp add: HasTermMphf_def t' ClearTermMphf_def word_gt_0)
qed

lemma direct_slot_up:
  assumes "(d :: i32) <s 0"
  shows "(word_of_int (- sint d - 1) :: u64) = ucast (word_of_int (- sint d - 1) :: u32)"
proof -
  have range: "0 \<le> - sint d - 1" "- sint d - 1 < 2 ^ 32"
    using assms sint_ge [of d] by (auto simp: word_sless_alt)
  then have "uint (word_of_int (- sint d - 1) :: u32) = - sint d - 1" "uint (word_of_int (- sint d - 1) :: u64) = - sint d - 1"
    unfolding unsigned_of_int by (auto intro!: take_bit_int_eq_self)
  then show ?thesis by (simp add: ucast_eq)
qed

lemma FindTermDataMphf_slot:
  assumes mphf: "mphf_of terms h ds pages" and en: "m_TermMphfEnabled t"
  shows "FindTermDataMphf (SetTermMphf h ds pages t) key =
    (let slot = unat (lookup_slot h ds key)
     in if slot < length terms \<and>
           u64_from_le (subslice 24 32 (read_record pages slot)) = mphf_fingerprint key (TMH_FingerprintSeed h)
        then Some (decode_record (read_record pages slot)) else None)"
proof -
  note table = SetTermMphf_of [OF mphf en]
  let ?n = "length terms" and ?s = "lookup_slot h ds key"
  have n: "unat (TMH_SlotCount h) = ?n" "TMH_SlotCount h \<noteq> 0" "TMH_BucketCount h \<noteq> 0"
    "length ds = unat (TMH_BucketCount h)" "length pages = (?n + 127) div 128"
    using mphf by (auto simp: mphf_of_def)
  let ?d = "ds ! bucket_of (TMH_BucketSeed h) (TMH_BucketCount h) key"
  have bucket: "\<not> length ds \<le> unat (TermMphfHash key (TMH_BucketSeed h) mod ucast (TMH_BucketCount h))"
    using bucket_of_less [OF n(3), of "TMH_BucketSeed h" key] n(4) by (simp add: bucket_of_def)
  have slot: "(if ?d <s 0 then word_of_int (- sint ?d - 1)
      else TermMphfHash key (TermMphfSlotSeed (TMH_SlotSeed h) ?d) mod ucast (TMH_SlotCount h)) = (ucast ?s :: u64)"
    using direct_slot_up [of ?d] MphfSlotFor_up [OF n(2)] by (simp add: lookup_slot_def Let_def)
  have less: "(ucast (TMH_SlotCount h) \<le> (ucast ?s :: u64)) \<longleftrightarrow> \<not> unat ?s < ?n"
    by (simp add: word_le_nat_alt unat_up n(1) not_less)
  have page: "\<not> length pages \<le> unat ?s div 128" if "unat ?s < ?n" using that n(5) by simp
  show ?thesis
    unfolding FindTermDataMphf_def Let_def table bucket_of_def [symmetric] slot less unat_up record_place
    using table(1) bucket page
    by (simp add: read_record_def decode_record_def record_place Let_def bucket_of_def)
qed

lemma mphf_of_finds:
  assumes mphf: "mphf_of terms h ds pages" and en: "m_TermMphfEnabled t"
  shows "source \<in> set terms \<Longrightarrow> FindTermDataMphf (SetTermMphf h ds pages t) (bt_Term source) = Some (mphf_location source)"
    and "FindTermDataMphf (SetTermMphf h ds pages t) key = Some location \<Longrightarrow>
      \<exists>source \<in> set terms. location = mphf_location source \<and>
        mphf_fingerprint key (TMH_FingerprintSeed h) = mphf_fingerprint (bt_Term source) (TMH_FingerprintSeed h)"
proof -
  let ?n = "length terms" and ?S = "\<lambda>i. unat (lookup_slot h ds (bt_Term (terms ! i)))"
  have at: "?S i < ?n" "read_record pages (?S i) = mphf_record (terms ! i) (TMH_FingerprintSeed h)" if "i < ?n" for i
    using mphf that by (auto simp: mphf_of_def)
  show "FindTermDataMphf (SetTermMphf h ds pages t) (bt_Term source) = Some (mphf_location source)" if "source \<in> set terms"
  proof -
    from that obtain i where "i < ?n" "terms ! i = source" by (auto simp: in_set_conv_nth)
    then show ?thesis using at [of i] by (simp add: FindTermDataMphf_slot [OF mphf en] mphf_record_fields Let_def)
  qed
  assume found: "FindTermDataMphf (SetTermMphf h ds pages t) key = Some location"
  have "inj_on ?S {..<?n}" using mphf by (auto simp: mphf_of_def inj_on_def word_unat_eq_iff)
  then have "?S ` {..<?n} = {..<?n}" using at(1) by (intro endo_inj_surj) auto
  moreover from found have "unat (lookup_slot h ds key) \<in> {..<?n}"
    by (simp add: FindTermDataMphf_slot [OF mphf en] Let_def split: if_splits)
  ultimately have "unat (lookup_slot h ds key) \<in> ?S ` {..<?n}" by simp
  then obtain i where i: "i < ?n" "unat (lookup_slot h ds key) = ?S i" by blast
  from found have "location = mphf_location (terms ! i) \<and>
      mphf_fingerprint key (TMH_FingerprintSeed h) = mphf_fingerprint (bt_Term (terms ! i)) (TMH_FingerprintSeed h)"
    using at(2) [OF i(1)] i(2) by (simp add: FindTermDataMphf_slot [OF mphf en] mphf_record_fields Let_def split: if_splits)
  then show "\<exists>source \<in> set terms. location = mphf_location source \<and>
        mphf_fingerprint key (TMH_FingerprintSeed h) = mphf_fingerprint (bt_Term source) (TMH_FingerprintSeed h)"
    using i(1) by (intro bexI [of _ "terms ! i"]) auto
qed

lemma mphf_attempts_of:
  "mphf_attempts terms attempts = (h, ds, pages) \<Longrightarrow> pages \<noteq> [] \<Longrightarrow> length terms < 2 ^ 32 \<Longrightarrow> mphf_of terms h ds pages"
  by (induction attempts) (auto split: option.splits dest: TryBuildTermMphf_of)

lemma BuildTermMphf_of:
  "BuildTermMphf terms = (h, ds, pages) \<Longrightarrow> pages \<noteq> [] \<Longrightarrow> length terms < 2 ^ 32 \<Longrightarrow> mphf_of terms h ds pages"
  by (auto simp: BuildTermMphf_def intro: mphf_attempts_of split: if_splits)

text \<open>
  C28. A perfect hash that was built finds every term: installed in a block table, it returns for
  each term exactly the location the term was built with, so no two terms share a slot; and it
  answers for another key only when the key's 64-bit fingerprint equals that of a term.
\<close>

theorem BuildTermMphf_finds:
  assumes "BuildTermMphf terms = (h, ds, pages)" and "pages \<noteq> []" and "length terms < 2 ^ 32" and "m_TermMphfEnabled t"
  shows "(\<forall>source \<in> set terms. FindTermDataMphf (SetTermMphf h ds pages t) (bt_Term source) = Some (mphf_location source)) \<and>
    (\<forall>key location. FindTermDataMphf (SetTermMphf h ds pages t) key = Some location \<longrightarrow>
       (\<exists>source \<in> set terms. location = mphf_location source \<and>
          mphf_fingerprint key (TMH_FingerprintSeed h) = mphf_fingerprint (bt_Term source) (TMH_FingerprintSeed h)))"
  using mphf_of_finds [OF BuildTermMphf_of [OF assms(1-3)] assms(4)] by blast

lemma SetTermMphf_heads [simp]:
  "m_HeadTermEntries (SetTermMphf h ds pages t) = m_HeadTermEntries t"
  "m_HeadTermEntryCount (SetTermMphf h ds pages t) = m_HeadTermEntryCount t"
  by (simp_all add: SetTermMphf_def ClearTermMphf_def Let_def)

lemma mphf_location_build_term: "mphf_location (build_term_of e) = entry_location e"
proof -
  have "unat (ucast (w :: u16) :: u32) = unat w" for w
    using unat_bound [of w] by (simp add: unsigned_ucast_eq take_bit_nat_eq_self)
  then show ?thesis by (simp add: mphf_location_def build_term_of_def entry_location_def)
qed

text \<open>
  C29. The perfect hash and the dictionary agree. Build a hash from the leaf pages of a dictionary
  and install it beside the dictionary: for every stored term, and for every other key whose
  fingerprint differs from those of the stored terms, \<open>FindTermData\<close> returns what the search
  through head entries and leaf pages returns.
\<close>

theorem FindTermData_mphf_agrees:
  assumes built: "BuildTermMphfFromLeafBlocks leaf_blocks = (h, ds, pages)" "pages \<noteq> []"
    and blocks: "map leaf_entries leaf_blocks = blocks" "length (concat blocks) < 2 ^ 32"
    and dict: "dict_ok (m_HeadTermEntries t) blocks" "unat (m_HeadTermEntryCount t) = length blocks"
    and leaves: "\<And>i. i < length blocks \<Longrightarrow> \<exists>page. fetch (word_of_nat i) = Some page \<and> leaf_holds page (blocks ! i)"
    and t: "m_TermMphfEnabled t" and key: "0 \<notin> set key"
    and fresh: "key \<in> LTE_Term ` set (concat blocks) \<or> (\<forall>e \<in> set (concat blocks).
      mphf_fingerprint key (TMH_FingerprintSeed h) \<noteq> mphf_fingerprint (LTE_Term e) (TMH_FingerprintSeed h))"
  shows "FindTermData fetch (SetTermMphf h ds pages t) key = FindTermDataHeadLeaf fetch t key"
proof -
  let ?t = "SetTermMphf h ds pages t" and ?terms = "map build_term_of (concat blocks)"
  have mphf: "mphf_of ?terms h ds pages"
    using BuildTermMphf_of [of ?terms h ds pages] built blocks by (simp add: BuildTermMphfFromLeafBlocks_def)
  note finds = mphf_of_finds [OF mphf t]
  have plain: "takeWhile (\<lambda>b. b \<noteq> 0) key = key" using key by (induction key) auto
  have leaf: "FindTermDataHeadLeaf fetch t' key = map_option entry_location (dict_entries blocks key)" if "t' = t \<or> t' = ?t" for t'
    using that dict leaves by (intro FindTermDataHeadLeaf_dict) auto
  have asc: "distinct (map LTE_Term (concat blocks))"
    using dict(1) by (auto simp: dict_ok_def strict_sorted_iff)
  show ?thesis
  proof (cases "key \<in> LTE_Term ` set (concat blocks)")
    case True
    then obtain e where e: "e \<in> set (concat blocks)" "LTE_Term e = key" by blast
    then have "dict_entries blocks key = Some e"
    proof -
      obtain e' where e': "dict_entries blocks key = Some e'" using e by (cases "dict_entries blocks key") (auto simp: dict_entries_def find_None_iff)
      then have "e' \<in> set (concat blocks)" "LTE_Term e' = key" using nth_mem [of _ "concat blocks"] by (auto simp: dict_entries_def find_Some_iff simp del: nth_mem set_concat)
      with e asc have "e' = e" by (auto simp: distinct_map dest: inj_onD)
      with e' show ?thesis by simp
    qed
    moreover have "FindTermDataMphf ?t key = Some (entry_location e)"
      using finds(1) [of "build_term_of e"] e by (simp add: mphf_location_build_term) (simp add: build_term_of_def)
    ultimately show ?thesis
      using leaf SetTermMphf_of(1) [OF mphf t] unfolding FindTermData_def Let_def plain by (simp add: BloomFilter_CanTermExist_def)
  next
    case False
    have "FindTermDataMphf ?t key = None"
    proof (cases "FindTermDataMphf ?t key")
      case (Some l)
      from finds(2) [OF this] False fresh show ?thesis by (auto simp: build_term_of_def)
    qed simp
    then show ?thesis
      using leaf unfolding FindTermData_def Let_def plain by (simp add: BloomFilter_CanTermExist_def)
  qed
qed

subsection \<open>Two terms\<close>

lemma first_displacement_pos:
  "0 < n \<Longrightarrow> first_displacement try d n =
     (case try d of Some slots \<Rightarrow> Some (d, slots) | None \<Rightarrow> first_displacement try (d + 1) (n - 1))"
  by (cases n) (auto split: option.splits)

lemma two_terms_mphf:
  assumes "bt_Term x = [0x61]" and "bt_Term y = [0x62]"
  shows "\<exists>h ds pages. BuildTermMphf [x, y] = (h, ds, pages) \<and> pages \<noteq> []"
proof -
  let ?s = "SLOT_SEED_BASE XOR SEED_STEP" and ?b = "BUCKET_SEED_BASE" and ?f = "FINGERPRINT_SEED_BASE + SEED_STEP * 3"
  have h: "MphfSlotFor [0x61] 2 ?s 0 = 1" "MphfSlotFor [0x62] 2 ?s 0 = 1"
    "MphfSlotFor [0x61] 2 ?s 1 = 0" "MphfSlotFor [0x62] 2 ?s 1 = 1" by code_simp+
  have dup: "\<not> has_duplicates [x, y]"
    using assms by (auto simp: has_duplicates_def Let_def upt_rec)
  have two: "replicate 2 z = [z, z]" for z :: 'a by (simp add: numeral_2_eq_2)
  have np: "next_power_of_two 1 = 1" by (simp add: next_power_of_two_def)
  have fill: "fill_buckets [x, y] ?b 1 = [[0, 1]]"
    by (simp add: fill_buckets_def Let_def bucket_of_def)
  have "\<exists>pages. TryBuildTermMphf [x, y] ?b ?s ?f = Some (h', ds', pages) \<and> pages \<noteq> []"
    if "h' = \<lparr>TMH_Magic = TERM_MPHF_MAGIC, TMH_TermCount = 2, TMH_BucketCount = 1, TMH_SlotCount = 2,
          TMH_BucketSeed = ?b, TMH_SlotSeed = ?s, TMH_FingerprintSeed = ?f\<rparr>" "ds' = [1]" for h' ds'
    using dup by (simp add: TryBuildTermMphf_def Let_def np fill upt_rec first_displacement_pos assms h take_slots_def that
        PAGE_SIZE_def TERM_MPHF_ENTRY_SIZE_def MAX32_def write_record_def two)
  then obtain h ds pages where "TryBuildTermMphf [x, y] ?b ?s ?f = Some (h, ds, pages)" "pages \<noteq> []" by blast
  then show ?thesis by (simp add: BuildTermMphf_def upt_rec)
qed

lemma one_term_mphf: "\<exists>h ds pages. BuildTermMphf [x] = (h, ds, pages) \<and> pages \<noteq> []"
proof -
  have dup: "\<not> has_duplicates [x]" by (simp add: has_duplicates_def Let_def)
  have np: "next_power_of_two 1 = 1" by (simp add: next_power_of_two_def)
  have fill: "fill_buckets [x] b 1 = [[0]]" for b by (simp add: fill_buckets_def Let_def bucket_of_def)
  have half: "(1 :: u32) div 2 = 0" by simp
  have "\<exists>h ds pages. TryBuildTermMphf [x] b s f = Some (h, ds, pages) \<and> pages \<noteq> []" for b s f
    using dup by (simp add: TryBuildTermMphf_def Let_def np fill half take_slots_def
        PAGE_SIZE_def TERM_MPHF_ENTRY_SIZE_def MAX32_def write_record_def)
  then obtain h ds pages where
    "TryBuildTermMphf [x] (BUCKET_SEED_BASE + SEED_STEP * 0) (SLOT_SEED_BASE XOR (SEED_STEP * (0 + 1)))
       (FINGERPRINT_SEED_BASE + SEED_STEP * (0 + 3)) = Some (h, ds, pages)" "pages \<noteq> []" by blast
  moreover have "map word_of_nat [0..<32] = 0 # map (word_of_nat :: nat \<Rightarrow> u64) [1..<32]" by (subst upt_rec) simp
  ultimately show ?thesis by (simp add: BuildTermMphf_def)
qed

theorem BuildTermMphf_finds_witness:
  "\<exists>h ds pages x. BuildTermMphf [x, x\<lparr>bt_Term := [0x62], bt_DocFreq := 7\<rparr>] = (h, ds, pages) \<and> pages \<noteq> [] \<and>
     bt_Term x = [0x61] \<and>
     map_option loc_doc_freq (FindTermDataMphf (SetTermMphf h ds pages IndexBlockTable_new) [0x62]) = Some 7"
proof -
  define x where "x = \<lparr>bt_Term = [0x61], bt_DocFreq = 1, bt_IndexBlockID = 0, bt_IndexOffset = 0, bt_IndexLength = 2,
    bt_ContinuationBlockCount = 0, bt_Flags = 0\<rparr>"
  let ?y = "x\<lparr>bt_Term := [0x62], bt_DocFreq := 7\<rparr>"
  have "bt_Term x = [0x61]" "bt_Term ?y = [0x62]" by (simp_all add: x_def)
  from two_terms_mphf [OF this] obtain h ds pages where b: "BuildTermMphf [x, ?y] = (h, ds, pages)" "pages \<noteq> []" by blast
  have "FindTermDataMphf (SetTermMphf h ds pages IndexBlockTable_new) (bt_Term ?y) = Some (mphf_location ?y)"
    using BuildTermMphf_finds [OF b, of IndexBlockTable_new] by (simp add: IndexBlockTable_new_def)
  with b show ?thesis by (intro exI [of _ h] exI [of _ ds] exI [of _ pages] exI [of _ x]) (simp add: x_def mphf_location_def)
qed

lemma leaf_entries_holds:
  assumes "leaf_holds page es"
  shows "leaf_entries (leaf_view page) = es"
proof -
  have "List.map_filter (leaf_entry (leaf_view page)) xs = map ((!) es) xs" if "set xs \<subseteq> {0..<length es}" for xs
    using that assms by (induction xs) (auto simp: List.map_filter_simps leaf_holds_def)
  from this [of "[0..<length es]"] show ?thesis
    using assms by (simp add: leaf_entries_def leaf_holds_def map_nth)
qed

theorem FindTermData_mphf_agrees_witness:
  "\<exists>r h ds pages. BuildBlocks demo_log2 demo_store = Some r \<and>
     BuildTermMphfFromLeafBlocks [leaf_view (leaf_to_bytes (BBR_LeafTermBlocks r ! 0))] = (h, ds, pages) \<and> pages \<noteq> [] \<and>
     FindTermData (leaf_fetch (built_table r) counters0) (SetTermMphf h ds pages (built_table r)) demo_key =
       FindTermDataHeadLeaf (leaf_fetch (built_table r) counters0) (built_table r) demo_key"
proof -
  from demo_built obtain r where r: "BuildBlocks demo_log2 demo_store = Some r"
    "length (BBR_IndexBlocks r) = 1" "length (BBR_LeafTermBlocks r) = 1" by blast
  then have fits: "built_fits r" by (simp add: built_fits_def)
  obtain blocks where ok: "built_ok demo_log2 demo_store r blocks"
    using BuildBlocks_built [OF demo_buildable] r(1) fits by auto
  then obtain es where blocks: "blocks = [es]" using r(3) by (cases blocks) (auto simp: built_ok_def)
  let ?page = "leaf_to_bytes (BBR_LeafTermBlocks r ! 0)"
  have holds: "leaf_holds ?page es" using ok by (simp add: built_ok_def blocks)
  have "length es = 1" using ok
    by (simp add: built_ok_def blocks demo_store_postings kept_def demo_list_def demo_key_def HEAD_TERM_KEY_MAX_def list_all2_conv_all_nth)
  then obtain e where es: "es = [e]" by (cases es) auto
  from one_term_mphf [of "build_term_of e"] obtain h ds pages where
    b: "BuildTermMphfFromLeafBlocks [leaf_view ?page] = (h, ds, pages)" "pages \<noteq> []"
    by (auto simp: BuildTermMphfFromLeafBlocks_def leaf_entries_holds [OF holds] es)
  have "FindTermData (leaf_fetch (built_table r) counters0) (SetTermMphf h ds pages (built_table r)) demo_key =
      FindTermDataHeadLeaf (leaf_fetch (built_table r) counters0) (built_table r) demo_key"
  proof (rule FindTermData_mphf_agrees [OF b])
    show "map leaf_entries [leaf_view ?page] = blocks" using holds by (simp add: leaf_entries_holds blocks)
    show "length (concat blocks) < 2 ^ 32" by (simp add: blocks es)
    show "dict_ok (m_HeadTermEntries (built_table r)) blocks" using ok by (simp add: built_ok_def)
    then show "unat (m_HeadTermEntryCount (built_table r)) = length blocks" by (simp add: dict_ok_def blocks)
    show "m_TermMphfEnabled (built_table r)"
      using ok by (simp add: built_ok_def built_table_def SetHeadTermEntries_def SetBlockMemory_def IndexBlockTable_new_def)
    show "0 \<notin> set demo_key" by (simp add: demo_key_def)
    have "LTE_Term e = demo_key" using ok
      by (simp add: built_ok_def blocks es demo_store_postings kept_def demo_list_def demo_key_def HEAD_TERM_KEY_MAX_def entry_stored_def)
    then show "demo_key \<in> LTE_Term ` set (concat blocks) \<or> (\<forall>e \<in> set (concat blocks).
        mphf_fingerprint demo_key (TMH_FingerprintSeed h) \<noteq> mphf_fingerprint (LTE_Term e) (TMH_FingerprintSeed h))"
      by (simp add: blocks es)
    show "\<exists>page. leaf_fetch (built_table r) counters0 (word_of_nat i) = Some page \<and> leaf_holds page (blocks ! i)"
      if "i < length blocks" for i
      using that holds r(3) page_list_memory [of "map leaf_to_bytes (BBR_LeafTermBlocks r)" counters0]
      by (simp add: blocks leaf_fetch_def page_list_def)
  qed
  with r(1) b show ?thesis by blast
qed

end
