(* ===== verification/IndexFile.thy ===== *)
theory IndexFile
  imports DocData TermMphf
begin

text \<open>
  The index file as a whole: \<open>BuildIndexData\<close> of \<open>IndexContext.rs\<close> lays the sections out,
  \<open>IndexSerializer::Save\<close> writes them and \<open>IndexSerializer::decode\<close>, called by \<open>LoadFromBytes\<close>, reads
  them back. A file is the sequence of its bytes.

  The average length of a document is a quotient in single precision, an argument here
  (\<open>f32_ratio\<close>); so are the floating-point scores of a document (\<open>scores\<close>) and their decoding
  (\<open>DocDataDecodeScore\<close>). The vector index is left out. Offsets into a file are natural numbers:
  after \<open>validate_layout\<close> none of the sums of the code exceeds 64 bits.

  The theorems: the header of a build passes the layout check and saving succeeds; decoding the
  saved bytes returns every part as it was, so that a context that loads the file has the block
  table and the document table of the build.
\<close>

subsection \<open>What a build produces\<close>

record index_data =
  x_Header :: IndexFileHeader
  x_BlockTable :: IndexBlockTable
  x_DocData :: bytes
  x_PathPrefixSidecar :: bytes
  x_PathPrefixes :: "rstr list"

definition built_header ::
  "(u64 \<Rightarrow> u64 \<Rightarrow> f32_bits) \<Rightarrow> PostingStore \<Rightarrow> BuildBlocksResult \<Rightarrow> bytes \<Rightarrow> IndexFileHeader" where
  "built_header f32_ratio store blocks docData =
     (let documentCount = StoreDocDataRecordCount store;
          headOffset = INDEX_FILE_HEADER_SIZE + PATH_PREFIX_SIDECAR_BYTES;
          leafOffset = headOffset + length (BBR_HeadTermEntries blocks) * 32;
          docDataOffset = leafOffset + length (BBR_LeafTermBlocks blocks) * PAGE_SIZE;
          indexOffset = docDataOffset + length docData;
          mphfHeaderCount = (if BBR_TermMphfDisplacements blocks \<noteq> [] \<and> BBR_TermMphfEntryPages blocks \<noteq> []
                             then 1 else 0 :: nat);
          mphfHeaderOffset = indexOffset + length (BBR_IndexBlocks blocks) * PAGE_SIZE;
          mphfDisplacementOffset = mphfHeaderOffset + mphfHeaderCount * TERM_MPHF_HEADER_SIZE;
          mphfEntryOffset = mphfDisplacementOffset + length (BBR_TermMphfDisplacements blocks) * 4
      in IndexFileHeader_default
        \<lparr>IFH_AvgDocLength := (if documentCount = 0 then 0x3F800000 else f32_ratio (m_TotalTerms store) documentCount),
         IFH_NumDocuments := documentCount,
         IFH_NumTerms := BBR_TotalTerms blocks,
         IFH_HeadTermEntryOffset := word_of_nat headOffset,
         IFH_HeadTermEntryCount := word_of_nat (length (BBR_HeadTermEntries blocks)),
         IFH_LeafTermBlockOffset := word_of_nat leafOffset,
         IFH_LeafTermBlockCount := word_of_nat (length (BBR_LeafTermBlocks blocks)),
         IFH_DocDataOffset := word_of_nat docDataOffset,
         IFH_IndexBlockOffset := word_of_nat indexOffset,
         IFH_IndexBlockCount := word_of_nat (length (BBR_IndexBlocks blocks)),
         IFH_TermMphfHeaderOffset := word_of_nat mphfHeaderOffset,
         IFH_TermMphfHeaderCount := word_of_nat mphfHeaderCount,
         IFH_TermMphfDisplacementOffset := word_of_nat mphfDisplacementOffset,
         IFH_TermMphfDisplacementCount := word_of_nat (length (BBR_TermMphfDisplacements blocks)),
         IFH_TermMphfEntryOffset := word_of_nat mphfEntryOffset,
         IFH_TermMphfEntryPageCount := word_of_nat (length (BBR_TermMphfEntryPages blocks))\<rparr>)"

text \<open>\<open>None\<close> is a panic of \<open>BuildBlocks\<close>.\<close>

definition BuildIndexData ::
  "(nat \<Rightarrow> rat) \<Rightarrow> (u64 \<Rightarrow> u64 \<Rightarrow> f32_bits) \<Rightarrow> (DocStats \<Rightarrow> doc_scores) \<Rightarrow> PostingStore \<Rightarrow> index_data option" where
  "BuildIndexData log2_f64 f32_ratio scores store =
     (case BuildBlocks log2_f64 store of
        None \<Rightarrow> None
      | Some blocks \<Rightarrow>
          let (docData, pathPrefixSidecar, pathPrefixes) = EncodeDocData scores store
          in Some \<lparr>x_Header = built_header f32_ratio store blocks docData, x_BlockTable = built_table blocks,
               x_DocData = docData, x_PathPrefixSidecar = pathPrefixSidecar, x_PathPrefixes = pathPrefixes\<rparr>)"

subsection \<open>Saving\<close>

definition ok_or_invalid :: "'a option \<Rightarrow> 'a result" where
  "ok_or_invalid r = (case r of None \<Rightarrow> Inl InvalidFormat | Some x \<Rightarrow> Inr x)"

definition IndexBlocks :: "IndexBlockTable \<Rightarrow> bytes list" where
  "IndexBlocks t = CopyPoolBlocks (m_IndexPool t)"

definition LeafTermBlocks :: "IndexBlockTable \<Rightarrow> LeafTermBlock list" where
  "LeafTermBlocks t = map leaf_view (CopyPoolBlocks (m_LeafTermPool t))"

text \<open>The bytes written, in the order of the calls of \<open>write_all\<close>.\<close>

definition save_sections :: "IndexFileHeader \<Rightarrow> IndexBlockTable \<Rightarrow> bytes \<Rightarrow> bytes \<Rightarrow> bytes list" where
  "save_sections header blockTable docData pathPrefixSidecar =
     [header_to_bytes header, pathPrefixSidecar,
      (if IFH_HeadTermEntryCount header > 0 then concat (map hte_to_bytes (m_HeadTermEntries blockTable)) else []),
      (if IFH_LeafTermBlockCount header > 0 then concat (map leaf_to_bytes (LeafTermBlocks blockTable)) else []),
      (if IFH_NumDocuments header > 0 then docData else []),
      (if IFH_IndexBlockCount header > 0 then concat (IndexBlocks blockTable) else []),
      (if IFH_TermMphfHeaderCount header > 0 then mphf_to_bytes (m_TermMphfHeader blockTable) else []),
      (if IFH_TermMphfDisplacementCount header > 0
       then concat (map u32_to_le (m_TermMphfDisplacements blockTable)) else []),
      (if IFH_TermMphfEntryPageCount header > 0 then concat (m_TermMphfEntryPages blockTable) else [])]"

definition Save :: "IndexFileHeader \<Rightarrow> IndexBlockTable \<Rightarrow> bytes \<Rightarrow> bytes \<Rightarrow> bytes result" where
  "Save header blockTable docData pathPrefixSidecar =
     (let empty_unbuilt_index = is_zeroed header in
      bind_result (if empty_unbuilt_index then Inr 0 else validate_layout header None) (\<lambda>_.
      bind_result (ok_or_invalid (checked_mul64 (IFH_NumDocuments header) (word_of_nat DOC_REC_SIZE))) (\<lambda>expected_docdata.
      if length docData \<noteq> unat expected_docdata \<or> length pathPrefixSidecar \<noteq> PATH_PREFIX_SIDECAR_BYTES \<or>
         (empty_unbuilt_index \<and> list_ex (\<lambda>b. b \<noteq> 0) pathPrefixSidecar) then Inl InvalidFormat
      else if length (m_HeadTermEntries blockTable) \<noteq> unat (IFH_HeadTermEntryCount header) \<or>
         length (LeafTermBlocks blockTable) \<noteq> unat (IFH_LeafTermBlockCount header) \<or>
         length (IndexBlocks blockTable) \<noteq> unat (IFH_IndexBlockCount header) \<or>
         length (m_TermMphfDisplacements blockTable) \<noteq> unat (IFH_TermMphfDisplacementCount header) \<or>
         length (m_TermMphfEntryPages blockTable) \<noteq> unat (IFH_TermMphfEntryPageCount header) then Inl InvalidFormat
      else Inr (concat (save_sections header blockTable docData pathPrefixSidecar)))))"

subsection \<open>Decoding\<close>

text \<open>
  The loops over a section: each entry is a slice of fixed width, checked against the end of the
  data and parsed.
\<close>

fun decode_each :: "(bytes \<Rightarrow> 'a option) \<Rightarrow> nat \<Rightarrow> bytes \<Rightarrow> nat \<Rightarrow> nat \<Rightarrow> 'a list result" where
  "decode_each parse width data offset 0 = Inr []"
| "decode_each parse width data offset (Suc n) =
     (if offset + width > length data then Inl InvalidFormat
      else bind_result (ok_or_invalid (parse (subslice offset (offset + width) data))) (\<lambda>x.
           bind_result (decode_each parse width data (offset + width) n) (\<lambda>xs. Inr (x # xs))))"

definition slices_at :: "nat \<Rightarrow> bytes \<Rightarrow> nat \<Rightarrow> nat \<Rightarrow> bytes list" where
  "slices_at width data offset n = map (\<lambda>i. subslice (offset + i * width) (offset + i * width + width) data) [0..<n]"

definition decode_mphf :: "IndexFileHeader \<Rightarrow> bytes \<Rightarrow> (TermMphfHeader \<times> i32 list \<times> bytes list) result" where
  "decode_mphf header data =
     (let mphf_header_offset = unat (IFH_TermMphfHeaderOffset header);
          mphf_displacement_offset = unat (IFH_TermMphfDisplacementOffset header);
          mphf_displacement_count = unat (IFH_TermMphfDisplacementCount header);
          mphf_entry_offset = unat (IFH_TermMphfEntryOffset header);
          mphf_entry_page_count = unat (IFH_TermMphfEntryPageCount header)
      in if IFH_TermMphfHeaderCount header = 0 then Inr (TermMphfHeader_default, [], [])
         else if IFH_TermMphfHeaderCount header \<noteq> 1 then Inl InvalidFormat
         else if mphf_header_offset + TERM_MPHF_HEADER_SIZE > length data then Inl InvalidFormat
         else bind_result (ok_or_invalid (mphf_from_bytes
                (subslice mphf_header_offset (mphf_header_offset + TERM_MPHF_HEADER_SIZE) data))) (\<lambda>mphf_header.
              if TMH_Magic mphf_header \<noteq> TERM_MPHF_MAGIC then Inl InvalidFormat
              else if mphf_displacement_offset + mphf_displacement_count * 4 > length data then Inl InvalidFormat
              else if mphf_entry_offset + mphf_entry_page_count * PAGE_SIZE > length data then Inl InvalidFormat
              else Inr (mphf_header,
                     map u32_from_le (slices_at 4 data mphf_displacement_offset mphf_displacement_count),
                     slices_at PAGE_SIZE data mphf_entry_offset mphf_entry_page_count)))"

record DecodedIndexData =
  dec_head :: "HeadTermEntry list"
  dec_leaf_blocks :: "LeafTermBlock list"
  dec_index_blocks :: "bytes list"
  dec_docdata :: bytes
  dec_sidecar :: bytes
  dec_prefixes :: "rstr list"
  dec_mphf :: "TermMphfHeader \<times> i32 list \<times> bytes list"

text \<open>
  \<open>decode\<close> fills the store it is given with the statistics of the documents; the store is the first
  part of the result (on an error the caller drops it).
\<close>

definition decode_file ::
  "(u16 \<Rightarrow> f32_bits) \<Rightarrow> PostingStore \<Rightarrow> bytes \<Rightarrow> (PostingStore \<times> DecodedIndexData) result" where
  "decode_file DocDataDecodeScore store data =
     bind_result (header_parse data) (\<lambda>header.
     bind_result (validate_layout header (Some (word_of_nat (length data)))) (\<lambda>_.
     if INDEX_FILE_HEADER_SIZE + PATH_PREFIX_SIDECAR_BYTES > length data then Inl InvalidFormat
     else let sidecar = subslice INDEX_FILE_HEADER_SIZE (INDEX_FILE_HEADER_SIZE + PATH_PREFIX_SIDECAR_BYTES) data;
              docdata_offset = unat (IFH_DocDataOffset header);
              num_docs = unat (IFH_NumDocuments header);
              docdata_size = num_docs * DOC_REC_SIZE
     in bind_result (DecodePathPrefixSidecar sidecar) (\<lambda>prefixes.
     bind_result (decode_each hte_from_bytes 32 data (unat (IFH_HeadTermEntryOffset header))
                    (unat (IFH_HeadTermEntryCount header))) (\<lambda>head.
     bind_result (decode_each leaf_from_bytes PAGE_SIZE data (unat (IFH_LeafTermBlockOffset header))
                    (unat (IFH_LeafTermBlockCount header))) (\<lambda>leaf_blocks.
     if docdata_offset + docdata_size > length data then Inl InvalidFormat
     else let docdata = subslice docdata_offset (docdata_offset + docdata_size) data;
              first_doc_id = DocDataFirstDocId docdata (IFH_NumDocuments header);
              store = fold (\<lambda>index. DecodeDocDataRecord DocDataDecodeScore (first_doc_id + word_of_nat index)
                         (subslice (docdata_offset + index * DOC_REC_SIZE)
                            (docdata_offset + index * DOC_REC_SIZE + DOC_REC_SIZE) data)) [0..<num_docs] store
     in bind_result (decode_each Some PAGE_SIZE data (unat (IFH_IndexBlockOffset header))
                    (unat (IFH_IndexBlockCount header))) (\<lambda>index_blocks.
     bind_result (decode_mphf header data) (\<lambda>mphf.
     Inr (store, \<lparr>dec_head = head, dec_leaf_blocks = leaf_blocks, dec_index_blocks = index_blocks,
                  dec_docdata = docdata, dec_sidecar = sidecar, dec_prefixes = prefixes, dec_mphf = mphf\<rparr>))))))))"

definition LoadFromBytes :: "(u16 \<Rightarrow> f32_bits) \<Rightarrow> bytes \<Rightarrow> index_data result" where
  "LoadFromBytes DocDataDecodeScore data =
     bind_result (header_parse data) (\<lambda>header.
     bind_result (decode_file DocDataDecodeScore PostingStore_new data) (\<lambda>(_, d).
     let table = SetHeadTermEntries (dec_head d)
           (SetBlockMemory (Some (dec_index_blocks d)) (Some (map leaf_to_bytes (dec_leaf_blocks d))) IndexBlockTable_new);
         (mphfHeader, mphfDisplacements, mphfEntryPages) = dec_mphf d;
         table = (if mphfDisplacements \<noteq> [] \<and> mphfEntryPages \<noteq> []
                  then SetTermMphf mphfHeader mphfDisplacements mphfEntryPages table else table)
     in Inr \<lparr>x_Header = header, x_BlockTable = table, x_DocData = dec_docdata d,
             x_PathPrefixSidecar = dec_sidecar d, x_PathPrefixes = dec_prefixes d\<rparr>))"

subsection \<open>Sections of a file\<close>

lemma bind_result_simps [simp]: "bind_result (Inr x) f = f x" "bind_result (Inl e) f = Inl e"
  by (simp_all add: bind_result_def)

lemma section_at:
  "data = before @ sec @ rest \<Longrightarrow> length before = a \<Longrightarrow> a + length sec = b \<Longrightarrow> subslice a b data = sec"
  by (auto simp: subslice_def)

lemma concat_length_const: "\<forall>x \<in> set xs. length (f x) = w \<Longrightarrow> length (concat (map f xs)) = length xs * w"
  by (induction xs) auto

lemma decode_each_section:
  assumes "data = before @ concat (map enc xs) @ rest" and "length before = offset"
    and "\<forall>x \<in> set xs. length (enc x) = width \<and> parse (enc x) = Some x"
  shows "decode_each parse width data offset (length xs) = Inr xs"
  using assms
proof (induction xs arbitrary: before offset)
  case Nil
  then show ?case by simp
next
  case (Cons x xs)
  have data: "data = (before @ enc x) @ concat (map enc xs) @ rest" using Cons.prems(1) by simp
  have len: "length (before @ enc x) = offset + width" using Cons.prems(2,3) by simp
  have slice: "subslice offset (offset + width) data = enc x"
    using Cons.prems by (intro section_at [of _ before _ "concat (map enc xs) @ rest"]) auto
  have "\<not> offset + width > length data" using data len by simp
  moreover have "decode_each parse width data (offset + width) (length xs) = Inr xs"
    using Cons.IH [OF data len] Cons.prems(3) by simp
  ultimately show ?case using slice Cons.prems(3) by (simp add: ok_or_invalid_def bind_result_def)
qed

lemma slices_at_section:
  assumes "data = before @ concat (map enc xs) @ rest" and "length before = offset"
    and "\<forall>x \<in> set xs. length (enc x) = width"
  shows "slices_at width data offset (length xs) = map enc xs"
proof (rule nth_equalityI)
  show "length (slices_at width data offset (length xs)) = length (map enc xs)" by (simp add: slices_at_def)
  fix i assume "i < length (slices_at width data offset (length xs))"
  then have i: "i < length xs" by (simp add: slices_at_def)
  have "concat (map enc xs) = concat (map enc (take i xs)) @ enc (xs ! i) @ concat (map enc (drop (Suc i) xs))"
    using i by (subst id_take_nth_drop [of i xs]) simp_all
  then have data: "data = (before @ concat (map enc (take i xs))) @ enc (xs ! i) @ concat (map enc (drop (Suc i) xs)) @ rest"
    using assms(1) by simp
  have "length (concat (map enc (take i xs))) = i * width"
    using i assms(3) concat_length_const [of "take i xs" enc width] by (auto dest: in_set_takeD)
  then have "subslice (offset + i * width) (offset + i * width + width) data = enc (xs ! i)"
    using assms(2,3) i by (intro section_at [OF data]) auto
  then show "slices_at width data offset (length xs) ! i = map enc xs ! i" using i by (simp add: slices_at_def)
qed

lemma leaf_from_bytes_view: "leaf_from_bytes page = Some b \<Longrightarrow> length page = PAGE_SIZE \<Longrightarrow> leaf_view page = b"
  by (auto simp: leaf_from_bytes_def leaf_view_def Let_def split: if_splits)

lemma leaf_from_bytes_length: "leaf_from_bytes page = Some b \<Longrightarrow> length (leaf_to_bytes b) = PAGE_SIZE"
  by (auto simp: leaf_from_bytes_def leaf_to_bytes_def Let_def size_consts split: if_splits)

lemma length_hte_to_bytes: "head_entry_wf h \<Longrightarrow> length (hte_to_bytes h) = 32"
  by (simp add: head_entry_wf_def hte_to_bytes_def size_consts)

lemma length_mphf_to_bytes [simp]: "length (mphf_to_bytes h) = TERM_MPHF_HEADER_SIZE"
  by (simp add: mphf_to_bytes_def size_consts)

lemma length_header_to_bytes: "IFH_Magic h = INDEX_FILE_MAGIC \<Longrightarrow> length (header_to_bytes h) = INDEX_FILE_HEADER_SIZE"
  by (simp add: header_to_bytes_def header_words_def size_consts)

lemma current_not_zeroed: "IFH_Magic h = INDEX_FILE_MAGIC \<Longrightarrow> \<not> is_zeroed h"
  by (simp add: is_zeroed_def header_to_bytes_def INDEX_FILE_MAGIC_def str_simps)

subsection \<open>What can be saved\<close>

text \<open>A table whose parts have the sizes their types promise and whose leaf blocks are decodable.\<close>

definition table_savable :: "IndexBlockTable \<Rightarrow> bool" where
  "table_savable t \<longleftrightarrow>
     (\<forall>h \<in> set (m_HeadTermEntries t). head_entry_wf h) \<and>
     (\<forall>b \<in> set (LeafTermBlocks t). leaf_from_bytes (leaf_to_bytes b) = Some b) \<and>
     (\<forall>p \<in> set (IndexBlocks t). length p = PAGE_SIZE) \<and>
     (\<forall>p \<in> set (m_TermMphfEntryPages t). length p = PAGE_SIZE) \<and> TMH_Magic (m_TermMphfHeader t) = TERM_MPHF_MAGIC"

definition lengths_agree :: "IndexFileHeader \<Rightarrow> IndexBlockTable \<Rightarrow> bytes \<Rightarrow> bytes \<Rightarrow> bool" where
  "lengths_agree h t docData sidecar \<longleftrightarrow>
     length docData = unat (IFH_NumDocuments h) * DOC_REC_SIZE \<and> length sidecar = PATH_PREFIX_SIDECAR_BYTES \<and>
     length (m_HeadTermEntries t) = unat (IFH_HeadTermEntryCount h) \<and>
     length (LeafTermBlocks t) = unat (IFH_LeafTermBlockCount h) \<and>
     length (IndexBlocks t) = unat (IFH_IndexBlockCount h) \<and>
     length (m_TermMphfDisplacements t) = unat (IFH_TermMphfDisplacementCount h) \<and>
     length (m_TermMphfEntryPages t) = unat (IFH_TermMphfEntryPageCount h)"

lemma Save_Inr:
  assumes "\<not> is_zeroed h"
  shows "Save h t docData sidecar = Inr data \<longleftrightarrow>
    (\<exists>e. validate_layout h None = Inr e) \<and> lengths_agree h t docData sidecar \<and>
    data = concat (save_sections h t docData sidecar)"
proof -
  have "unat (IFH_NumDocuments h) * 256 < 2 ^ 64" if "validate_layout h None = Inr e" for e
    using that by (simp add: validate_layout_iff layout_ends_def Let_def)
  then have mul: "checked_mul64 (IFH_NumDocuments h) 256 = Some (IFH_NumDocuments h * 256)"
      "unat (IFH_NumDocuments h * 256) = unat (IFH_NumDocuments h) * 256" if "validate_layout h None = Inr e" for e
    using that by (auto simp: checked_mul64_def unat_word_ariths)
  show ?thesis
    using assms mul
    by (cases "validate_layout h None")
      (auto simp: Save_def Let_def bind_result_def ok_or_invalid_def lengths_agree_def size_consts)
qed

lemma save_sections_plain:
  assumes "lengths_agree h t docData sidecar"
  shows "save_sections h t docData sidecar =
    [header_to_bytes h, sidecar, concat (map hte_to_bytes (m_HeadTermEntries t)),
     concat (map leaf_to_bytes (LeafTermBlocks t)), docData, concat (map id (IndexBlocks t)),
     (if IFH_TermMphfHeaderCount h > 0 then mphf_to_bytes (m_TermMphfHeader t) else []),
     concat (map u32_to_le (m_TermMphfDisplacements t)), concat (map id (m_TermMphfEntryPages t))]"
proof -
  have zero: "0 < w \<or> unat w = 0" for w :: u64 by (simp add: word_gt_0 unat_eq_0)
  show ?thesis
    using assms zero [of "IFH_NumDocuments h"] zero [of "IFH_HeadTermEntryCount h"] zero [of "IFH_LeafTermBlockCount h"]
      zero [of "IFH_IndexBlockCount h"] zero [of "IFH_TermMphfDisplacementCount h"] zero [of "IFH_TermMphfEntryPageCount h"]
    by (simp add: save_sections_def lengths_agree_def) (auto simp: word_gt_0)
qed

subsection \<open>Decoding what was saved\<close>

text \<open>
  The saved file cut at the offsets of the header. The sections are named by what they hold: \<open>hb\<close> the
  header, \<open>sc\<close> the directories, \<open>he\<close> the head entries, \<open>lf\<close> the leaf blocks, \<open>dd\<close> the documents, \<open>ix\<close> the
  index blocks and \<open>mh\<close>, \<open>md\<close>, \<open>mp\<close> the three parts of the perfect hash.
\<close>

definition file_cut :: "IndexFileHeader \<Rightarrow> bytes list \<Rightarrow> bool" where
  "file_cut h secs \<longleftrightarrow>
     (case secs of [hb, sc, he, lf, dd, ix, mh, md, mp] \<Rightarrow>
        length hb = 136 \<and> length (hb @ sc) = unat (IFH_HeadTermEntryOffset h) \<and>
        length (hb @ sc @ he) = unat (IFH_LeafTermBlockOffset h) \<and>
        length (hb @ sc @ he @ lf) = unat (IFH_DocDataOffset h) \<and>
        length (hb @ sc @ he @ lf @ dd) = unat (IFH_IndexBlockOffset h) \<and>
        length (hb @ sc @ he @ lf @ dd @ ix) = unat (IFH_TermMphfHeaderOffset h) \<and>
        length (hb @ sc @ he @ lf @ dd @ ix @ mh) = unat (IFH_TermMphfDisplacementOffset h) \<and>
        length (hb @ sc @ he @ lf @ dd @ ix @ mh @ md) = unat (IFH_TermMphfEntryOffset h) \<and>
        length (concat secs) = last (layout_ends h)
      | _ \<Rightarrow> False)"

lemma mphf_header_count:
  assumes "\<not> bad_counts h"
  shows "unat (IFH_TermMphfHeaderCount h) = (if IFH_TermMphfHeaderCount h > 0 then 1 else 0)"
proof -
  have "unat (IFH_TermMphfHeaderCount h) \<le> 1" using assms by (auto simp: bad_counts_def word_less_nat_alt)
  then show ?thesis by (auto simp: word_gt_0 le_Suc_eq unat_eq_0)
qed

lemma saved_cut:
  assumes "IFH_Magic h = INDEX_FILE_MAGIC" and "validate_layout h None = Inr e"
    and "lengths_agree h t docData sidecar" and "table_savable t"
  shows "file_cut h (save_sections h t docData sidecar)"
proof -
  have counts: "\<not> bad_counts h" and offs: "map unat (header_offsets h) = butlast (layout_ends h)"
    using assms(2) by (auto simp: validate_layout_iff)
  note mh = mphf_header_count [OF counts]
  have heads: "length (concat (map hte_to_bytes (m_HeadTermEntries t))) = unat (IFH_HeadTermEntryCount h) * 32"
    using assms(3,4) concat_length_const [of "m_HeadTermEntries t" hte_to_bytes 32]
    by (simp add: lengths_agree_def table_savable_def length_hte_to_bytes)
  have leafs: "length (concat (map leaf_to_bytes (LeafTermBlocks t))) = unat (IFH_LeafTermBlockCount h) * 4096"
    using assms(3,4) concat_length_const [of "LeafTermBlocks t" leaf_to_bytes PAGE_SIZE] leaf_from_bytes_length
    by (fastforce simp: lengths_agree_def table_savable_def PAGE_SIZE_def)
  have pages: "length (concat (map id (IndexBlocks t))) = unat (IFH_IndexBlockCount h) * 4096"
    "length (concat (map id (m_TermMphfEntryPages t))) = unat (IFH_TermMphfEntryPageCount h) * 4096"
    using assms(3,4) concat_length_const [of "IndexBlocks t" id PAGE_SIZE] concat_length_const [of "m_TermMphfEntryPages t" id PAGE_SIZE]
    by (simp_all add: lengths_agree_def table_savable_def PAGE_SIZE_def)
  have disp: "length (concat (map u32_to_le (m_TermMphfDisplacements t))) = unat (IFH_TermMphfDisplacementCount h) * 4"
    using assms(3) concat_length_const [of "m_TermMphfDisplacements t" u32_to_le 4] by (simp add: lengths_agree_def)
  have len: "length (header_to_bytes h) = 136" "length sidecar = 81920" "length docData = unat (IFH_NumDocuments h) * 256"
    using length_header_to_bytes [OF assms(1)] assms(3) by (simp_all add: lengths_agree_def size_consts)
  have "length (if IFH_TermMphfHeaderCount h > 0 then mphf_to_bytes (m_TermMphfHeader t) else []) =
      unat (IFH_TermMphfHeaderCount h) * 48"
    by (subst mh) (simp add: size_consts)
  then show ?thesis
    unfolding save_sections_plain [OF assms(3)] file_cut_def
    using offs len heads leafs pages disp
    by (simp add: layout_ends_def header_offsets_def Let_def)
qed

lemma decode_mphf_saved:
  assumes agree: "lengths_agree h t docData sidecar" and ok: "table_savable t" and counts: "\<not> bad_counts h"
    and cut: "file_cut h (save_sections h t docData sidecar)" and data: "data = concat (save_sections h t docData sidecar)"
  shows "decode_mphf h data =
    Inr (if IFH_TermMphfHeaderCount h = 0 then (TermMphfHeader_default, [], [])
         else (m_TermMphfHeader t, m_TermMphfDisplacements t, m_TermMphfEntryPages t))"
proof (cases "IFH_TermMphfHeaderCount h = 0")
  case True
  then show ?thesis by (simp add: decode_mphf_def)
next
  case False
  then have "unat (IFH_TermMphfHeaderCount h) = unat (1 :: u64)" using mphf_header_count [OF counts] by (simp add: word_gt_0)
  then have one: "IFH_TermMphfHeaderCount h = 1" by (simp only: unat_inject)
  let ?md = "concat (map u32_to_le (m_TermMphfDisplacements t))" and ?mp = "concat (map id (m_TermMphfEntryPages t))"
  obtain before where d: "data = before @ mphf_to_bytes (m_TermMphfHeader t) @ ?md @ ?mp"
    and off: "length before = unat (IFH_TermMphfHeaderOffset h)"
      "length (before @ mphf_to_bytes (m_TermMphfHeader t)) = unat (IFH_TermMphfDisplacementOffset h)"
      "length (before @ mphf_to_bytes (m_TermMphfHeader t) @ ?md) = unat (IFH_TermMphfEntryOffset h)"
  proof -
    let ?b = "header_to_bytes h @ sidecar @ concat (map hte_to_bytes (m_HeadTermEntries t)) @
      concat (map leaf_to_bytes (LeafTermBlocks t)) @ docData @ concat (map id (IndexBlocks t))"
    from cut data that [of ?b] show ?thesis
      by (simp only: save_sections_plain [OF agree] one file_cut_def list.case concat.simps append_assoc append_Nil2
          word_gt_0 if_True simp_thms zero_neq_one one_neq_zero not_False_eq_True)
  qed
  have n: "length (m_TermMphfDisplacements t) = unat (IFH_TermMphfDisplacementCount h)"
    "length (m_TermMphfEntryPages t) = unat (IFH_TermMphfEntryPageCount h)" using agree by (simp_all add: lengths_agree_def)
  have pages: "\<forall>p \<in> set (m_TermMphfEntryPages t). length (id p) = PAGE_SIZE" using ok by (simp add: table_savable_def)
  have lens: "length ?md = unat (IFH_TermMphfDisplacementCount h) * 4" "length ?mp = unat (IFH_TermMphfEntryPageCount h) * PAGE_SIZE"
    using n concat_length_const [of "m_TermMphfDisplacements t" u32_to_le 4] concat_length_const [OF pages] by simp_all
  have header: "subslice (unat (IFH_TermMphfHeaderOffset h)) (unat (IFH_TermMphfHeaderOffset h) + TERM_MPHF_HEADER_SIZE) data =
      mphf_to_bytes (m_TermMphfHeader t)"
    by (rule section_at [OF d off(1)]) simp
  have disp: "slices_at 4 data (unat (IFH_TermMphfDisplacementOffset h)) (unat (IFH_TermMphfDisplacementCount h)) =
      map u32_to_le (m_TermMphfDisplacements t)"
    using slices_at_section [of data "before @ mphf_to_bytes (m_TermMphfHeader t)" u32_to_le "m_TermMphfDisplacements t" ?mp, OF _ off(2), of 4] d n(1) by simp
  have ents: "slices_at PAGE_SIZE data (unat (IFH_TermMphfEntryOffset h)) (unat (IFH_TermMphfEntryPageCount h)) =
      m_TermMphfEntryPages t"
    using slices_at_section [of data "before @ mphf_to_bytes (m_TermMphfHeader t) @ ?md" id "m_TermMphfEntryPages t" "[]", OF _ off(3) pages] d n(2)
    by simp
  have "TMH_Magic (m_TermMphfHeader t) = TERM_MPHF_MAGIC" using ok by (simp add: table_savable_def)
  moreover have "length data = unat (IFH_TermMphfEntryOffset h) + unat (IFH_TermMphfEntryPageCount h) * PAGE_SIZE"
    "length data = unat (IFH_TermMphfDisplacementOffset h) + unat (IFH_TermMphfDisplacementCount h) * 4 +
       unat (IFH_TermMphfEntryPageCount h) * PAGE_SIZE"
    "length data \<ge> unat (IFH_TermMphfHeaderOffset h) + TERM_MPHF_HEADER_SIZE"
    using d off lens by simp_all
  ultimately show ?thesis
    using one header
    by (simp add: decode_mphf_def Let_def disp ents mphf_from_to_bytes ok_or_invalid_def bind_result_def comp_def)
qed

lemma decode_file_saved:
  assumes magic: "IFH_Magic h = INDEX_FILE_MAGIC" "IFH_Version h = INDEX_FORMAT_VERSION"
    and ok: "table_savable t" and save: "Save h t docData sidecar = Inr data"
    and prefixes: "DecodePathPrefixSidecar sidecar = Inr ps"
  obtains store' where
    "DecodeDocData decode (IFH_NumDocuments h) docData store = Inr store'" "header_parse data = Inr h"
    "decode_file decode store data = Inr (store', \<lparr>dec_head = m_HeadTermEntries t,
       dec_leaf_blocks = LeafTermBlocks t, dec_index_blocks = IndexBlocks t, dec_docdata = docData, dec_sidecar = sidecar,
       dec_prefixes = ps,
       dec_mphf = (if IFH_TermMphfHeaderCount h = 0 then (TermMphfHeader_default, [], [])
          else (m_TermMphfHeader t, m_TermMphfDisplacements t, m_TermMphfEntryPages t))\<rparr>)"
proof -
  obtain e where layout: "validate_layout h None = Inr e" and agree: "lengths_agree h t docData sidecar"
    and data: "data = concat (save_sections h t docData sidecar)"
    using save Save_Inr [OF current_not_zeroed [OF magic(1)]] by auto
  note cut = saved_cut [OF magic(1) layout agree ok]
  have counts: "\<not> bad_counts h" and stop: "last (layout_ends h) < 2 ^ 64" "unat e = last (layout_ends h)"
    using layout by (auto simp: validate_layout_iff)
  let ?hb = "header_to_bytes h" and ?he = "concat (map hte_to_bytes (m_HeadTermEntries t))"
  let ?lf = "concat (map leaf_to_bytes (LeafTermBlocks t))" and ?ix = "concat (map id (IndexBlocks t))"
  obtain mph where d: "data = ?hb @ sidecar @ ?he @ ?lf @ docData @ ?ix @ mph"
    and off: "length ?hb = 136" "length (?hb @ sidecar) = unat (IFH_HeadTermEntryOffset h)"
      "length (?hb @ sidecar @ ?he) = unat (IFH_LeafTermBlockOffset h)"
      "length (?hb @ sidecar @ ?he @ ?lf) = unat (IFH_DocDataOffset h)"
      "length (?hb @ sidecar @ ?he @ ?lf @ docData) = unat (IFH_IndexBlockOffset h)"
    and size: "length data = last (layout_ends h)"
    using cut data
    by (simp only: save_sections_plain [OF agree] file_cut_def list.case concat.simps append_assoc append_Nil2)
  have n: "length docData = unat (IFH_NumDocuments h) * DOC_REC_SIZE" "length sidecar = 81920"
    "length (m_HeadTermEntries t) = unat (IFH_HeadTermEntryCount h)"
    "length (LeafTermBlocks t) = unat (IFH_LeafTermBlockCount h)" "length (IndexBlocks t) = unat (IFH_IndexBlockCount h)"
    using agree by (simp_all add: lengths_agree_def size_consts)
  have parse: "header_parse data = Inr h"
    using header_parse_prefix [of data] header_parse_to_bytes [OF magic] off(1) d by (simp add: subslice_def)
  have "unat (word_of_nat (length data) :: u64) = length data" using size stop(1) by (simp add: unat_of_nat)
  then have valid: "validate_layout h (Some (word_of_nat (length data))) = Inr e"
    using layout size stop(2) by (simp add: validate_layout_iff word_le_nat_alt)
  have side: "subslice INDEX_FILE_HEADER_SIZE (INDEX_FILE_HEADER_SIZE + PATH_PREFIX_SIDECAR_BYTES) data = sidecar"
    using d off(1) n(2) by (intro section_at [OF d]) (auto simp: size_consts)
  have head: "decode_each hte_from_bytes 32 data (unat (IFH_HeadTermEntryOffset h)) (unat (IFH_HeadTermEntryCount h)) =
      Inr (m_HeadTermEntries t)"
    using decode_each_section [of data "?hb @ sidecar" hte_to_bytes "m_HeadTermEntries t" _ _ 32 hte_from_bytes, OF _ off(2)] d n(3) ok
    by (auto simp: table_savable_def head_entry_wf_def hte_from_to_bytes length_hte_to_bytes)
  have leaf: "decode_each leaf_from_bytes PAGE_SIZE data (unat (IFH_LeafTermBlockOffset h)) (unat (IFH_LeafTermBlockCount h)) =
      Inr (LeafTermBlocks t)"
  proof -
    have each: "\<forall>b \<in> set (LeafTermBlocks t). length (leaf_to_bytes b) = PAGE_SIZE \<and> leaf_from_bytes (leaf_to_bytes b) = Some b"
      using ok leaf_from_bytes_length by (auto simp: table_savable_def)
    show ?thesis using decode_each_section [OF _ off(3) each, of data] d n(4) by simp
  qed
  have docs: "subslice (unat (IFH_DocDataOffset h)) (unat (IFH_DocDataOffset h) + unat (IFH_NumDocuments h) * DOC_REC_SIZE) data = docData"
    using d n(1) by (intro section_at [of _ "?hb @ sidecar @ ?he @ ?lf" docData "?ix @ mph", OF _ off(4)]) simp_all
  have recs: "subslice (unat (IFH_DocDataOffset h) + i * DOC_REC_SIZE) (unat (IFH_DocDataOffset h) + i * DOC_REC_SIZE + DOC_REC_SIZE) data =
      record_at docData i" if "i < unat (IFH_NumDocuments h)" for i
  proof -
    have "(i + 1) * DOC_REC_SIZE \<le> unat (IFH_NumDocuments h) * DOC_REC_SIZE" using that by (intro mult_right_mono) auto
    then show ?thesis
      unfolding docs [symmetric] record_at_def by (subst slice_slice) (simp_all add: add.assoc)
  qed
  have index: "decode_each Some PAGE_SIZE data (unat (IFH_IndexBlockOffset h)) (unat (IFH_IndexBlockCount h)) = Inr (IndexBlocks t)"
    using decode_each_section [of data "?hb @ sidecar @ ?he @ ?lf @ docData" id "IndexBlocks t" mph _ PAGE_SIZE Some, OF _ off(5)] d n(5) ok
    by (simp add: table_savable_def)
  note mphf = decode_mphf_saved [OF agree ok counts cut data]
  have size2: "\<not> length data < INDEX_FILE_HEADER_SIZE + PATH_PREFIX_SIDECAR_BYTES" "\<not> length data < unat (IFH_DocDataOffset h) + unat (IFH_NumDocuments h) * DOC_REC_SIZE"
    using d off(1,4) n(1,2) by (simp_all add: INDEX_FILE_HEADER_SIZE_def PATH_PREFIX_SIDECAR_BYTES_def PAGE_SIZE_def)
  let ?first = "DocDataFirstDocId docData (IFH_NumDocuments h)"
  define store' where "store' = fold (\<lambda>index. DecodeDocDataRecord decode (?first + word_of_nat index) (record_at docData index))
    [0..<unat (IFH_NumDocuments h)] store"
  have fold: "fold (\<lambda>index. DecodeDocDataRecord decode (?first + word_of_nat index)
        (subslice (unat (IFH_DocDataOffset h) + index * DOC_REC_SIZE) (unat (IFH_DocDataOffset h) + index * DOC_REC_SIZE + DOC_REC_SIZE) data))
      [0..<unat (IFH_NumDocuments h)] store = store'"
    unfolding store'_def by (intro fold_cong) (auto simp: recs)
  have "DecodeDocData decode (IFH_NumDocuments h) docData store = Inr store'"
    using n(1) by (simp add: DecodeDocData_def store'_def Let_def)
  then show ?thesis
    using that [of store'] parse
    by (simp only: decode_file_def parse valid side prefixes head leaf docs index mphf size2 fold bind_result_simps Let_def
        if_False)
qed

subsection \<open>The file of a build\<close>

lemma intern_path_prefix_dirs: "set (pt_prefixes (snd (intern_path_prefix p pt))) \<subseteq> insert p (set (pt_prefixes pt))"
  by (auto simp: intern_path_prefix_def Let_def split: option.splits)

lemma encode_doc_path_dirs:
  "p \<noteq> [] \<Longrightarrow> set (pt_prefixes (snd (encode_doc_path rec p pt))) \<subseteq> insert (fst (split_path_for_sidecar p)) (set (pt_prefixes pt))"
  "snd (encode_doc_path rec [] pt) = pt"
  using intern_path_prefix_dirs [of "fst (split_path_for_sidecar p)" pt]
  by (auto simp: encode_doc_path_def Let_def split: prod.splits if_splits)

lemma encode_into_dirs:
  assumes "set es \<subseteq> set (m_DocStats s)" and "set (pt_prefixes pt) \<subseteq> store_dirs s"
  shows "set (pt_prefixes (snd (fold (encode_into scores s) es (out, pt)))) \<subseteq> store_dirs s"
  using assms
proof (induction es arbitrary: out pt)
  case Nil
  then show ?case by simp
next
  case (Cons e es)
  let ?rec = "encode_stats (scores (snd e)) s (fst e) (snd e) (record_at out (unat (fst e - StoreFirstDocId s)))"
  obtain out' pt' where enc: "encode_into scores s e (out, pt) = (out', pt')" by force
  have pt': "pt' = snd (encode_doc_path ?rec (path (snd e)) pt)"
    using enc by (auto simp: encode_into_def encode_record_def Let_def split: prod.splits)
  have "set (pt_prefixes pt') \<subseteq> store_dirs s"
  proof (cases "path (snd e) = []")
    case True
    then show ?thesis using pt' Cons.prems(2) by (simp add: encode_doc_path_dirs)
  next
    case False
    have "snd e \<in> snd ` set (m_DocStats s)" using Cons.prems(1) by auto
    with False have "fst (split_path_for_sidecar (path (snd e))) \<in> store_dirs s" unfolding store_dirs_def by blast
    then show ?thesis using encode_doc_path_dirs(1) [OF False, of ?rec pt] pt' Cons.prems(2) by blast
  qed
  with Cons.IH Cons.prems(1) enc show ?case by simp
qed

text \<open>
  A store whose index can be written: documents with 32-bit ids, and directories of less than 64 KiB
  (their length is kept in 16 bits) in valid UTF-8, which every Rust string is.
\<close>

definition store_savable :: "PostingStore \<Rightarrow> bool" where
  "store_savable s \<longleftrightarrow> docdata_store_ok s \<and> (\<forall>dir \<in> store_dirs s. length dir < 2 ^ 16 \<and> utf8_valid dir)"

lemma EncodeDocData_savable:
  assumes ok: "store_savable s" and enc: "EncodeDocData scores s = (out, sidecar, ps)"
  shows "length out = unat (StoreDocDataRecordCount s) * DOC_REC_SIZE" and "length sidecar = PATH_PREFIX_SIDECAR_BYTES"
    and "DecodePathPrefixSidecar sidecar = Inr ps"
proof -
  have dok: "docdata_store_ok s" using ok by (simp add: store_savable_def)
  from dok enc obtain pt where pt: "ps = pt_prefixes pt" "path_table_ok pt" "sidecar = EncodePathPrefixSidecar ps"
    and len: "length out = unat (StoreDocDataRecordCount s) * DOC_REC_SIZE" by (rule EncodeDocData_records) blast
  have "ps = pt_prefixes (snd (fold (encode_into scores s) (m_DocStats s)
      (concat (replicate (unat (StoreDocDataRecordCount s)) blank_record), path_table_new)))"
    using enc by (auto simp: EncodeDocData_def Let_def split: prod.splits)
  then have "set ps \<subseteq> store_dirs s" by (simp add: encode_into_dirs path_table_new_def)
  then have "\<forall>p \<in> set (pt_prefixes pt). length p < 2 ^ 16 \<and> utf8_valid p" using ok pt(1) by (auto simp: store_savable_def)
  from sidecar_decodes [OF pt(2) this] show "length sidecar = PATH_PREFIX_SIDECAR_BYTES" "DecodePathPrefixSidecar sidecar = Inr ps"
    by (simp_all add: pt)
  show "length out = unat (StoreDocDataRecordCount s) * DOC_REC_SIZE" by (rule len)
qed

lemma record_count_bound:
  assumes "docdata_store_ok s" shows "unat (StoreDocDataRecordCount s) \<le> 2 ^ 32"
proof (cases "map fst (m_DocStats s)")
  case Nil
  then show ?thesis by (simp add: StoreDocDataRecordCount_def)
next
  case (Cons d ds)
  let ?lo = "fold min ds d" and ?hi = "fold max ds d"
  have "?hi \<in> fst ` set (m_DocStats s)" using fold_max_mem [of ds d] Cons by (metis list.set_map)
  then have hi: "unat ?hi < 2 ^ 32" using assms by (auto simp: docdata_store_ok_def)
  have "?lo \<le> ?hi" using fold_min_lower [where d = d and ds = ds] fold_max_upper [of d ds] by auto
  then have "unat (?hi - ?lo) < 2 ^ 32" using hi by (simp add: unat_sub)
  then have "unat (?hi - ?lo + 1) \<le> 2 ^ 32" by (simp add: unat_word_ariths)
  then show ?thesis using Cons by (simp add: StoreDocDataRecordCount_def)
qed

lemma CopyPoolBlocks_memory: "length bs < 2 ^ 32 \<Longrightarrow> CopyPoolBlocks (SetPoolMemory (Some bs)) = bs"
  by (simp add: CopyPoolBlocks_def SetPoolMemory_def unat32_of_nat)

lemma built_table_blocks:
  assumes "built_ok log2_f64 s r blocks" and "built_fits r"
  shows "IndexBlocks (built_table r) = BBR_IndexBlocks r" and "LeafTermBlocks (built_table r) = BBR_LeafTermBlocks r"
    and "m_TermMphfDisplacements (built_table r) = []" and "m_TermMphfEntryPages (built_table r) = []"
    and "table_savable (built_table r)"
proof -
  show ix: "IndexBlocks (built_table r) = BBR_IndexBlocks r"
    using assms(2) by (simp add: IndexBlocks_def CopyPoolBlocks_memory built_fits_def)
  have "leaf_view (leaf_to_bytes b) = b" if "b \<in> set (BBR_LeafTermBlocks r)" for b
    using assms(1) that leaf_from_bytes_view leaf_from_bytes_length by (auto simp: built_ok_def)
  then show lf: "LeafTermBlocks (built_table r) = BBR_LeafTermBlocks r"
    using assms(2) by (simp add: LeafTermBlocks_def CopyPoolBlocks_memory built_fits_def comp_def map_idI)
  show mp: "m_TermMphfDisplacements (built_table r) = []" "m_TermMphfEntryPages (built_table r) = []"
    using assms(1) by (simp_all add: built_ok_def built_table_def SetHeadTermEntries_def SetBlockMemory_def Let_def IndexBlockTable_new_def)
  have "TMH_Magic (m_TermMphfHeader (built_table r)) = TERM_MPHF_MAGIC"
    using assms(1) by (simp add: built_ok_def built_table_def SetHeadTermEntries_def SetBlockMemory_def Let_def IndexBlockTable_new_def
        TermMphfHeader_default_def)
  then show "table_savable (built_table r)"
    using assms(1) ix lf mp by (simp add: table_savable_def built_ok_def)
qed

lemma unat64_of_nat: "n < 2 ^ 64 \<Longrightarrow> unat (word_of_nat n :: u64) = n"
  by (simp add: unsigned_of_nat take_bit_nat_eq_self)

lemma plain_layout_valid:
  assumes "unat (IFH_HeadTermEntryOffset h) = 82056" "unat (IFH_HeadTermEntryCount h) = a"
    "unat (IFH_LeafTermBlockOffset h) = 82056 + a * 32" "unat (IFH_LeafTermBlockCount h) = a"
    "unat (IFH_DocDataOffset h) = 82056 + a * 32 + a * 4096" "unat (IFH_NumDocuments h) = c"
    "unat (IFH_IndexBlockOffset h) = 82056 + a * 32 + a * 4096 + c * 256" "unat (IFH_IndexBlockCount h) = b"
    "unat (IFH_TermMphfHeaderOffset h) = 82056 + a * 32 + a * 4096 + c * 256 + b * 4096"
    "unat (IFH_TermMphfDisplacementOffset h) = 82056 + a * 32 + a * 4096 + c * 256 + b * 4096"
    "unat (IFH_TermMphfEntryOffset h) = 82056 + a * 32 + a * 4096 + c * 256 + b * 4096"
    and zero: "IFH_TermMphfHeaderCount h = 0" "IFH_TermMphfDisplacementCount h = 0" "IFH_TermMphfEntryPageCount h = 0"
    and small: "a < 2 ^ 32" "b < 2 ^ 32" "c \<le> 2 ^ 33"
  shows "\<exists>e. validate_layout h None = Inr e"
proof -
  note fields = assms(1-11)
  have "\<not> bad_counts h" using fields zero small by (simp add: bad_counts_def word_less_nat_alt)
  moreover have "map unat (header_offsets h) = butlast (layout_ends h)"
    "last (layout_ends h) = 82056 + a * 32 + a * 4096 + c * 256 + b * 4096"
    by (simp_all add: header_offsets_def layout_ends_def Let_def fields zero)
  moreover have "82056 + a * 32 + a * 4096 + c * 256 + b * 4096 < 2 ^ 64" using small by simp
  moreover from this have "unat (word_of_nat (82056 + a * 32 + a * 4096 + c * 256 + b * 4096) :: u64) =
      82056 + a * 32 + a * 4096 + c * 256 + b * 4096" by (rule unat64_of_nat)
  ultimately have "validate_layout h None = Inr (word_of_nat (82056 + a * 32 + a * 4096 + c * 256 + b * 4096))"
    by (simp only: validate_layout_iff option.case simp_thms)
  then show ?thesis by blast
qed

lemma built_header_layout:
  assumes ok: "built_ok log2_f64 s r blocks" and fits: "built_fits r" and docs: "docdata_store_ok s"
    and len: "length docData = unat (StoreDocDataRecordCount s) * DOC_REC_SIZE"
  shows "\<exists>e. validate_layout (built_header f32_ratio s r docData) None = Inr e"
    and "unat (IFH_HeadTermEntryCount (built_header f32_ratio s r docData)) = length (BBR_HeadTermEntries r)"
    and "unat (IFH_LeafTermBlockCount (built_header f32_ratio s r docData)) = length (BBR_LeafTermBlocks r)"
    and "unat (IFH_IndexBlockCount (built_header f32_ratio s r docData)) = length (BBR_IndexBlocks r)"
proof -
  let ?h = "built_header f32_ratio s r docData"
  have heads: "length (BBR_HeadTermEntries r) = length (BBR_LeafTermBlocks r)" using ok by (simp add: built_ok_def dict_ok_def)
  have none: "BBR_TermMphfDisplacements r = []" "BBR_TermMphfEntryPages r = []" using ok by (simp_all add: built_ok_def)
  have ix: "length (BBR_IndexBlocks r) < 2 ^ 32" and lf: "length (BBR_LeafTermBlocks r) < 2 ^ 32" using fits by (simp_all add: built_fits_def)
  note n = record_count_bound [OF docs]
  have stop: "82056 + length (BBR_LeafTermBlocks r) * 32 + length (BBR_LeafTermBlocks r) * 4096 +
      unat (StoreDocDataRecordCount s) * 256 + length (BBR_IndexBlocks r) * 4096 < 2 ^ 64"
    using ix lf n by simp
  note u = unat64_of_nat
  define a b c where "a = length (BBR_LeafTermBlocks r)" and "b = length (BBR_IndexBlocks r)"
    and "c = unat (StoreDocDataRecordCount s)"
  note sizes = a_def [symmetric] b_def [symmetric] c_def [symmetric]
  have fields: "unat (IFH_HeadTermEntryOffset ?h) = 82056" "unat (IFH_HeadTermEntryCount ?h) = a"
    "unat (IFH_LeafTermBlockOffset ?h) = 82056 + a * 32" "unat (IFH_LeafTermBlockCount ?h) = a"
    "unat (IFH_DocDataOffset ?h) = 82056 + a * 32 + a * 4096" "unat (IFH_NumDocuments ?h) = c"
    "unat (IFH_IndexBlockOffset ?h) = 82056 + a * 32 + a * 4096 + c * 256" "unat (IFH_IndexBlockCount ?h) = b"
    "unat (IFH_TermMphfHeaderOffset ?h) = 82056 + a * 32 + a * 4096 + c * 256 + b * 4096"
    "unat (IFH_TermMphfDisplacementOffset ?h) = 82056 + a * 32 + a * 4096 + c * 256 + b * 4096"
    "unat (IFH_TermMphfEntryOffset ?h) = 82056 + a * 32 + a * 4096 + c * 256 + b * 4096"
    using stop ix lf
    by (simp_all add: built_header_def Let_def none heads len u size_consts sizes del: of_nat_add of_nat_mult)
  have zero: "IFH_TermMphfHeaderCount ?h = 0" "IFH_TermMphfDisplacementCount ?h = 0" "IFH_TermMphfEntryPageCount ?h = 0"
    by (simp_all add: built_header_def Let_def none)
  show "unat (IFH_HeadTermEntryCount ?h) = length (BBR_HeadTermEntries r)"
    "unat (IFH_LeafTermBlockCount ?h) = length (BBR_LeafTermBlocks r)"
    "unat (IFH_IndexBlockCount ?h) = length (BBR_IndexBlocks r)"
    using fields heads by (simp_all add: a_def b_def)
  have "a < 2 ^ 32" "b < 2 ^ 32" "c \<le> 2 ^ 33" using ix lf n by (simp_all add: sizes)
  from plain_layout_valid [OF fields zero this] show "\<exists>e. validate_layout ?h None = Inr e" .
qed

lemma built_header_current:
  "IFH_Magic (built_header f32_ratio s r docData) = INDEX_FILE_MAGIC"
  "IFH_Version (built_header f32_ratio s r docData) = INDEX_FORMAT_VERSION"
  "IFH_NumDocuments (built_header f32_ratio s r docData) = StoreDocDataRecordCount s"
  by (simp_all add: built_header_def Let_def IndexFileHeader_default_def)

text \<open>Everything a build of a buildable store has to be for its file to be written and read.\<close>

definition saved_build ::
  "(nat \<Rightarrow> rat) \<Rightarrow> (u64 \<Rightarrow> u64 \<Rightarrow> f32_bits) \<Rightarrow> (DocStats \<Rightarrow> doc_scores) \<Rightarrow> PostingStore \<Rightarrow> BuildBlocksResult \<Rightarrow> bool" where
  "saved_build log2_f64 f32_ratio scores s r \<longleftrightarrow> store_buildable log2_f64 s \<and> store_savable s \<and>
     BuildBlocks log2_f64 s = Some r \<and> built_fits r"

lemma save_built:
  assumes "saved_build log2_f64 f32_ratio scores s r"
  obtains x data where "BuildIndexData log2_f64 f32_ratio scores s = Some x"
    "Save (x_Header x) (x_BlockTable x) (x_DocData x) (x_PathPrefixSidecar x) = Inr data"
    "x_BlockTable x = built_table r" "table_savable (built_table r)"
    "x_Header x = built_header f32_ratio s r (x_DocData x)" "DecodePathPrefixSidecar (x_PathPrefixSidecar x) = Inr (x_PathPrefixes x)"
    "lengths_agree (x_Header x) (x_BlockTable x) (x_DocData x) (x_PathPrefixSidecar x)"
    "IndexBlocks (built_table r) = BBR_IndexBlocks r" "LeafTermBlocks (built_table r) = BBR_LeafTermBlocks r"
proof -
  have s: "store_buildable log2_f64 s" "store_savable s" "docdata_store_ok s"
    and r: "BuildBlocks log2_f64 s = Some r" "built_fits r"
    using assms by (auto simp: saved_build_def store_savable_def)
  from BuildBlocks_built [OF s(1)] r obtain blocks where ok: "built_ok log2_f64 s r blocks" by auto
  obtain docData sidecar ps where enc: "EncodeDocData scores s = (docData, sidecar, ps)" by (metis surj_pair)
  note e = EncodeDocData_savable [OF s(2) enc]
  let ?h = "built_header f32_ratio s r docData"
  let ?x = "\<lparr>x_Header = ?h, x_BlockTable = built_table r, x_DocData = docData, x_PathPrefixSidecar = sidecar, x_PathPrefixes = ps\<rparr>"
  note layout = built_header_layout [OF ok r(2) s(3) e(1), of f32_ratio] and t = built_table_blocks [OF ok r(2)]
  have x: "BuildIndexData log2_f64 f32_ratio scores s = Some ?x" by (simp add: BuildIndexData_def r enc)
  have none: "IFH_TermMphfDisplacementCount ?h = 0" "IFH_TermMphfEntryPageCount ?h = 0"
    using ok by (simp_all add: built_header_def Let_def built_ok_def)
  have agree: "lengths_agree ?h (built_table r) docData sidecar"
    using layout(2-) e t none by (simp add: lengths_agree_def built_header_current)
  have "Save ?h (built_table r) docData sidecar = Inr (concat (save_sections ?h (built_table r) docData sidecar))"
    using Save_Inr [OF current_not_zeroed [OF built_header_current(1)]] layout(1) agree by blast
  with that [of ?x] x e t agree show ?thesis by simp
qed

text \<open>The only error of the layout check.\<close>

definition only_invalid :: "'a result \<Rightarrow> bool" where
  "only_invalid r \<longleftrightarrow> (\<forall>e. r = Inl e \<longrightarrow> e = InvalidFormat)"

lemma only_invalidI:
  "only_invalid (Inl InvalidFormat)" "only_invalid (Inr x)"
  "only_invalid r \<Longrightarrow> (\<And>y. only_invalid (f y)) \<Longrightarrow> only_invalid (bind_result r f)"
  "(b \<Longrightarrow> only_invalid r) \<Longrightarrow> (\<not> b \<Longrightarrow> only_invalid r') \<Longrightarrow> only_invalid (if b then r else r')"
  "only_invalid r \<Longrightarrow> (\<And>z. only_invalid (g z)) \<Longrightarrow> only_invalid (case opt of None \<Rightarrow> r | Some z \<Rightarrow> g z)"
  by (auto simp: only_invalid_def bind_result_def split: sum.splits option.splits)

lemma validate_layout_error: "only_invalid (validate_layout h file_bytes)"
  unfolding validate_layout_def section_end_def Let_def by (intro only_invalidI)

lemma load_saved:
  assumes current: "IFH_Magic h = INDEX_FILE_MAGIC" "IFH_Version h = INDEX_FORMAT_VERSION" "IFH_TermMphfHeaderCount h = 0"
    and ok: "table_savable (built_table r)" and save: "Save h (built_table r) docData sidecar = Inr data"
    and ps: "DecodePathPrefixSidecar sidecar = Inr ps"
    and r: "IndexBlocks (built_table r) = BBR_IndexBlocks r" "LeafTermBlocks (built_table r) = BBR_LeafTermBlocks r"
      "BBR_TermMphfDisplacements r = []" "BBR_TermMphfEntryPages r = []"
  shows "LoadFromBytes decode data = Inr \<lparr>x_Header = h, x_BlockTable = built_table r, x_DocData = docData,
    x_PathPrefixSidecar = sidecar, x_PathPrefixes = ps\<rparr>"
proof -
  from decode_file_saved [OF current(1,2) ok save ps, of decode PostingStore_new] obtain s' where
    parse: "header_parse data = Inr h" and
    dec: "decode_file decode PostingStore_new data = Inr (s', \<lparr>dec_head = m_HeadTermEntries (built_table r),
       dec_leaf_blocks = LeafTermBlocks (built_table r), dec_index_blocks = IndexBlocks (built_table r),
       dec_docdata = docData, dec_sidecar = sidecar, dec_prefixes = ps,
       dec_mphf = (if IFH_TermMphfHeaderCount h = 0 then (TermMphfHeader_default, [], [])
          else (m_TermMphfHeader (built_table r), m_TermMphfDisplacements (built_table r), m_TermMphfEntryPages (built_table r)))\<rparr>)"
    by blast
  have "SetHeadTermEntries (BBR_HeadTermEntries r) (SetBlockMemory (Some (BBR_IndexBlocks r))
      (Some (map leaf_to_bytes (BBR_LeafTermBlocks r))) IndexBlockTable_new) = built_table r"
    using r(3,4) by (simp add: built_table_def)
  with r current(3) show ?thesis by (simp add: LoadFromBytes_def parse dec)
qed

lemma saved_loads:
  assumes "saved_build log2_f64 f32_ratio scores s r"
  shows "\<exists>x data. BuildIndexData log2_f64 f32_ratio scores s = Some x \<and>
    Save (x_Header x) (x_BlockTable x) (x_DocData x) (x_PathPrefixSidecar x) = Inr data \<and>
    LoadFromBytes decode data = Inr x"
proof -
  from assms obtain x data where x: "BuildIndexData log2_f64 f32_ratio scores s = Some x"
    "Save (x_Header x) (x_BlockTable x) (x_DocData x) (x_PathPrefixSidecar x) = Inr data"
    "x_BlockTable x = built_table r" "table_savable (built_table r)"
    "x_Header x = built_header f32_ratio s r (x_DocData x)" "DecodePathPrefixSidecar (x_PathPrefixSidecar x) = Inr (x_PathPrefixes x)"
    "IndexBlocks (built_table r) = BBR_IndexBlocks r" "LeafTermBlocks (built_table r) = BBR_LeafTermBlocks r"
    by (rule save_built) blast
  have current: "IFH_Magic (x_Header x) = INDEX_FILE_MAGIC" "IFH_Version (x_Header x) = INDEX_FORMAT_VERSION"
    using built_header_current x(5) by simp_all
  have none: "BBR_TermMphfDisplacements r = []" "BBR_TermMphfEntryPages r = []"
    using assms BuildBlocks_built [of log2_f64 s] by (auto simp: saved_build_def built_ok_def)
  then have "IFH_TermMphfHeaderCount (x_Header x) = 0" using x(5) by (simp add: built_header_def Let_def)
  from load_saved [OF current this x(4) x(2) [unfolded x(3)] x(6) x(7,8) none] x(3)
  have "LoadFromBytes decode data = Inr x" by simp
  with x(1,2) show ?thesis by blast
qed

text \<open>
  C33. Building an index, saving it and loading the bytes is the identity: for a store that can be
  built and written, \<open>Save\<close> accepts what \<open>BuildIndexData\<close> made and \<open>LoadFromBytes\<close> of the file gives back
  the header, the block table with its index and leaf pages and head entries, the document table and
  the directories, all as they were.
\<close>

theorem save_load_roundtrip:
  assumes "saved_build log2_f64 f32_ratio scores s r"
  shows "\<exists>x data. BuildIndexData log2_f64 f32_ratio scores s = Some x \<and>
    Save (x_Header x) (x_BlockTable x) (x_DocData x) (x_PathPrefixSidecar x) = Inr data \<and>
    LoadFromBytes decode data = Inr x"
  using saved_loads [OF assms] .

text \<open>
  C34. A truncated index file is never loaded: every proper prefix of a file that was saved with a
  current header is rejected with \<open>InvalidFormat\<close>, by the header parser or by the layout check.
\<close>

theorem truncated_file_rejected:
  assumes magic: "IFH_Magic h = INDEX_FILE_MAGIC" "IFH_Version h = INDEX_FORMAT_VERSION"
    and ok: "table_savable t" and save: "Save h t docData sidecar = Inr data" and n: "n < length data"
  shows "LoadFromBytes decode (take n data) = Inl InvalidFormat"
proof (cases "n < 136")
  case True
  then show ?thesis using n by (simp add: LoadFromBytes_def header_parse_def INDEX_FILE_HEADER_SIZE_def)
next
  case False
  obtain e where layout: "validate_layout h None = Inr e" and agree: "lengths_agree h t docData sidecar"
    and data: "data = concat (save_sections h t docData sidecar)"
    using save Save_Inr [OF current_not_zeroed [OF magic(1)]] by auto
  note cut = saved_cut [OF magic(1) layout agree ok]
  have size: "length data = last (layout_ends h)" and hb: "\<exists>rest. data = header_to_bytes h @ rest" "length (header_to_bytes h) = 136"
    using cut by (simp_all add: data save_sections_plain [OF agree] file_cut_def)
  have parse: "header_parse (take n data) = Inr h"
    using header_parse_prefix [of "take n data"] header_parse_to_bytes [OF magic] False n hb by (auto simp: subslice_def)
  have small: "last (layout_ends h) < 2 ^ 64" using layout by (auto simp: validate_layout_iff)
  then have "unat (word_of_nat n :: u64) = n" using n size by (intro unat64_of_nat) simp
  then have "validate_layout h (Some (word_of_nat n)) \<noteq> Inr e'" for e'
    using n size by (auto simp: validate_layout_iff word_le_nat_alt)
  then have "validate_layout h (Some (word_of_nat n)) = Inl InvalidFormat"
    using validate_layout_error [of h "Some (word_of_nat n)"]
    by (cases "validate_layout h (Some (word_of_nat n))") (auto simp: only_invalid_def)
  then show ?thesis using n parse by (simp add: LoadFromBytes_def decode_file_def)
qed

subsection \<open>One document on disk\<close>

definition file_demo :: PostingStore where
  "file_demo = SetDocPath 5 (str ''a/b'') (AddDocTokens 5 1 demo_store)"

lemma file_demo_parts: "m_Postings file_demo = m_Postings demo_store"
  "m_DocStats file_demo = [(5, DocStats_default\<lparr>doc_len := 1, path := str ''a/b''\<rparr>)]" "m_DocVectors file_demo = []"
  by (simp_all add: file_demo_def SetDocPath_def AddDocTokens_def upd_stats_def demo_store_def AddPosting_def PostingStore_new_def
      entry_or_def DocStats_default_def PostingList_default_def)

lemma file_demo_saved:
  assumes "BuildBlocks demo_log2 demo_store = Some r" and "built_fits r"
  shows "saved_build demo_log2 f32_ratio scores file_demo r"
proof -
  have full: "str ''a/b'' = str ''a'' @ [0x2F] @ str ''b''" by (simp add: str_simps)
  have "split_path_for_sidecar (str ''a'' @ [0x2F] @ str ''b'') = (str ''a'', str ''b'')"
    by (rule plain_path_slash) (simp_all add: str_simps is_path_sep_def)
  then have dirs: "store_dirs file_demo = {str ''a''}" by (auto simp: store_dirs_def file_demo_parts full)
  have wf: "store_wf file_demo" unfolding file_demo_def demo_store_def SetDocPath_def by (intro wf_intro)
  have "docdata_store_ok file_demo" by (simp add: docdata_store_ok_def file_demo_parts GetDocVector_def)
  moreover have "store_buildable demo_log2 file_demo"
    using demo_buildable wf by (simp add: store_buildable_def file_demo_parts)
  moreover have "BuildBlocks demo_log2 file_demo = Some r" using assms(1) by (simp add: BuildBlocks_def file_demo_parts)
  ultimately show ?thesis using assms(2) dirs by (simp add: saved_build_def store_savable_def str_simps)
qed

theorem save_load_roundtrip_witness:
  "\<exists>x data. BuildIndexData demo_log2 (\<lambda>_ _. 0) zero_scores file_demo = Some x \<and>
    Save (x_Header x) (x_BlockTable x) (x_DocData x) (x_PathPrefixSidecar x) = Inr data \<and>
    LoadFromBytes (\<lambda>_. 0) data = Inr x"
proof -
  from demo_built obtain r where r: "BuildBlocks demo_log2 demo_store = Some r"
    "length (BBR_IndexBlocks r) = 1" "length (BBR_LeafTermBlocks r) = 1" by blast
  then have "built_fits r" by (simp add: built_fits_def)
  from save_load_roundtrip [OF file_demo_saved [OF r(1) this]] show ?thesis by blast
qed

theorem truncated_file_rejected_witness:
  "\<exists>h t docData sidecar data. Save h t docData sidecar = Inr data \<and> IFH_NumDocuments h = 1 \<and>
     LoadFromBytes (\<lambda>_. 0) (take 90000 data) = Inl InvalidFormat"
proof -
  from demo_built obtain r where r: "BuildBlocks demo_log2 demo_store = Some r"
    "length (BBR_IndexBlocks r) = 1" "length (BBR_LeafTermBlocks r) = 1" by blast
  then have "built_fits r" by (simp add: built_fits_def)
  from file_demo_saved [OF r(1) this, where f32_ratio = "\<lambda>_ _. 0" and scores = zero_scores] obtain x :: index_data and data where x:
    "Save (x_Header x) (x_BlockTable x) (x_DocData x) (x_PathPrefixSidecar x) = Inr data"
    "x_BlockTable x = built_table r" "table_savable (built_table r)" "x_Header x = built_header (\<lambda>_ _. 0) file_demo r (x_DocData x)"
    "lengths_agree (x_Header x) (x_BlockTable x) (x_DocData x) (x_PathPrefixSidecar x)"
    "IndexBlocks (built_table r) = BBR_IndexBlocks r" "LeafTermBlocks (built_table r) = BBR_LeafTermBlocks r"
    by (rule save_built) blast
  have current: "IFH_Magic (x_Header x) = INDEX_FILE_MAGIC" "IFH_Version (x_Header x) = INDEX_FORMAT_VERSION"
    and one: "IFH_NumDocuments (x_Header x) = 1"
    by (simp_all add: x(4) built_header_current) (simp add: StoreDocDataRecordCount_def file_demo_parts)
  obtain e where layout: "validate_layout (x_Header x) None = Inr e" and data: "data = concat (save_sections (x_Header x) (x_BlockTable x) (x_DocData x) (x_PathPrefixSidecar x))"
    using x(1) Save_Inr [OF current_not_zeroed [OF current(1)]] by auto
  have savable: "table_savable (x_BlockTable x)" using x(2,3) by simp
  have "unat (IFH_LeafTermBlockCount (x_Header x)) = 1" "unat (IFH_IndexBlockCount (x_Header x)) = 1"
    using x(2) x(5-) r(2,3) by (auto simp: lengths_agree_def)
  then have "90000 < length data"
    using saved_cut [OF current(1) layout x(5) savable] data
    by (simp add: file_cut_def save_sections_plain [OF x(5)] layout_ends_def Let_def)
  from truncated_file_rejected [OF current savable x(1) this] x(1) one show ?thesis by blast
qed

end
