(* ===== verification/MergeFile.thy ===== *)
theory MergeFile
  imports IndexMerge IndexFile
begin

text \<open>
  The rest of the merge (\<open>AppendMergedDocData\<close> and \<open>Merge\<close> of \<open>IndexAccess/IndexContext.rs\<close>): the
  document tables are joined under one table of directories, and the sections are written into one file
  behind a new header. The temporary files are the sequences of bytes written to them.

  The average document length is computed in double precision, an argument here (\<open>f32_average\<close>). The
  counts of documents are added as 64-bit words.

  The theorems: merging the indexes of two stores succeeds, the file can be loaded, and a context that
  loads it reads the postings of both stores and has the documents of both with their paths.
\<close>

subsection \<open>Joining the document tables\<close>

definition merge_record ::
  "bytes \<Rightarrow> u64 \<Rightarrow> rstr list \<Rightarrow> nat \<Rightarrow> path_table \<Rightarrow> (bytes \<times> path_table) result" where
  "merge_record source first_doc_id source_prefixes slot pt =
     (let record = record_at source slot
      in if ucast (u32_at record 0) = first_doc_id + word_of_nat slot then
           if unat (u16_at record 18) > DOC_PATH_MAX then Inl InvalidFormat
           else Inr (encode_doc_path record (DecodeDocPath (path_field record) source_prefixes) pt)
         else Inr (record, pt))"

fun merge_records ::
  "bytes \<Rightarrow> u64 \<Rightarrow> rstr list \<Rightarrow> nat list \<Rightarrow> bytes \<Rightarrow> path_table \<Rightarrow> (bytes \<times> path_table) result" where
  "merge_records source first_doc_id source_prefixes [] output pt = Inr (output, pt)"
| "merge_records source first_doc_id source_prefixes (slot # slots) output pt =
     bind_result (merge_record source first_doc_id source_prefixes slot pt) (\<lambda>(record, pt).
     merge_records source first_doc_id source_prefixes slots (output @ record) pt)"

definition AppendMergedDocData ::
  "bytes \<Rightarrow> bytes \<Rightarrow> IndexFileHeader \<Rightarrow> rstr list \<Rightarrow> path_table \<Rightarrow> (bytes \<times> path_table) result" where
  "AppendMergedDocData output source header source_prefixes pt =
     (let record_count = IFH_NumDocuments header in
      bind_result (ok_or_invalid (checked_mul64 record_count (word_of_nat DOC_REC_SIZE))) (\<lambda>source_bytes.
      if length source < unat source_bytes then Inl InvalidFormat
      else merge_records source (DocDataFirstDocId source record_count) source_prefixes [0..<unat record_count] output pt))"

subsection \<open>Merge\<close>

text \<open>What \<open>Merge\<close> uses of a context: its index and the pages of its block table.\<close>

record merge_source = index_data +
  s_Built :: bool
  s_LeafPages :: "u32 \<Rightarrow> bytes option"
  s_IndexPages :: "u32 \<Rightarrow> bytes option"

definition source_cursor :: "merge_source \<Rightarrow> LeafTermBlockView" where
  "source_cursor s = LeafTermBlockView_new (s_LeafPages s) (s_IndexPages s) (BCP_TotalBlockCount (m_LeafTermPool (x_BlockTable s)))"

definition source_docs :: "merge_source \<Rightarrow> u64" where
  "source_docs s = IFH_NumDocuments (x_Header s)"

definition merged_doc_data :: "merge_source \<Rightarrow> merge_source \<Rightarrow> (bytes \<times> path_table) result" where
  "merged_doc_data base delta =
     bind_result (AppendMergedDocData [] (x_DocData base) (x_Header base) (x_PathPrefixes base) path_table_new) (\<lambda>(output, pt).
     if source_docs delta > 0 then AppendMergedDocData output (x_DocData delta) (x_Header delta) (x_PathPrefixes delta) pt
     else Inr (output, pt))"

definition merged_header ::
  "(f32_bits \<Rightarrow> u64 \<Rightarrow> f32_bits \<Rightarrow> u64 \<Rightarrow> f32_bits) \<Rightarrow> merge_source \<Rightarrow> merge_source \<Rightarrow> bytes \<Rightarrow> merge_files \<Rightarrow> IndexFileHeader" where
  "merged_header f32_average base delta mergedDocData files =
     (let mergedDocs = source_docs base + source_docs delta;
          headOffset = INDEX_FILE_HEADER_SIZE + PATH_PREFIX_SIDECAR_BYTES;
          leafOffset = headOffset + unat (headEntryCount files) * 32;
          docDataOffset = leafOffset + unat (headEntryCount files) * PAGE_SIZE;
          indexOffset = docDataOffset + length mergedDocData;
          mphfHeaderOffset = indexOffset + unat (indexBlockCount files) * PAGE_SIZE
      in IndexFileHeader_default
        \<lparr>IFH_AvgDocLength := (if mergedDocs = 0 then 0x3F800000
           else f32_average (IFH_AvgDocLength (x_Header base)) (source_docs base)
                  (IFH_AvgDocLength (x_Header delta)) (source_docs delta)),
         IFH_NumDocuments := mergedDocs,
         IFH_NumTerms := totalTerms files,
         IFH_HeadTermEntryOffset := word_of_nat headOffset,
         IFH_HeadTermEntryCount := headEntryCount files,
         IFH_LeafTermBlockOffset := word_of_nat leafOffset,
         IFH_LeafTermBlockCount := headEntryCount files,
         IFH_DocDataOffset := word_of_nat docDataOffset,
         IFH_IndexBlockOffset := word_of_nat indexOffset,
         IFH_IndexBlockCount := ucast (indexBlockCount files),
         IFH_TermMphfHeaderOffset := word_of_nat mphfHeaderOffset,
         IFH_TermMphfHeaderCount := 0,
         IFH_TermMphfDisplacementOffset := word_of_nat mphfHeaderOffset,
         IFH_TermMphfDisplacementCount := 0,
         IFH_TermMphfEntryOffset := word_of_nat mphfHeaderOffset,
         IFH_TermMphfEntryPageCount := 0\<rparr>)"

text \<open>The leaf pages are read back and checked; the pages themselves are not used, as no perfect hash is built.\<close>

definition check_leaf_file :: "merge_files \<Rightarrow> LeafTermBlock list result" where
  "check_leaf_file files =
     (if headEntryCount files > 0 then
        if length (leafFile files) \<noteq> unat (headEntryCount files) * PAGE_SIZE then Inl InvalidFormat
        else decode_each leaf_from_bytes PAGE_SIZE (leafFile files) 0 (unat (headEntryCount files))
      else Inr [])"

text \<open>The bytes of the file that \<open>Merge\<close> writes. \<open>None\<close> is a panic or a loop that does not end.\<close>

definition Merge ::
  "(f32_bits \<Rightarrow> u64 \<Rightarrow> f32_bits \<Rightarrow> u64 \<Rightarrow> f32_bits) \<Rightarrow> merge_source \<Rightarrow> merge_source option \<Rightarrow> bytes result option" where
  "Merge f32_average base m_DeltaContext =
     (if \<not> s_Built base \<or> x_DocData base = [] then Some (Inl IndexNotBuilt)
      else case m_DeltaContext of None \<Rightarrow> Some (Inl IndexNotBuilt)
      | Some delta \<Rightarrow>
      if \<not> s_Built delta \<or> x_DocData delta = [] then Some (Inl IndexNotBuilt)
      else
        let baseDocCount = source_docs base;
            deltaFirstDocId = DocDataFirstDocId (x_DocData delta) (source_docs delta);
            deltaDocCount = source_docs delta
        in if deltaDocCount > 0 \<and> deltaFirstDocId \<noteq> baseDocCount then Some (Inl InvalidFormat)
           else case merged_doc_data base delta of
             Inl err \<Rightarrow> Some (Inl err)
           | Inr (mergedDocData, pt) \<Rightarrow>
               (case merge_dictionaries (source_cursor base) (source_cursor delta) of
                  None \<Rightarrow> None
                | Some (Inl err) \<Rightarrow> Some (Inl err)
                | Some (Inr files) \<Rightarrow>
                    Some (bind_result (check_leaf_file files) (\<lambda>_.
                      Inr (concat [header_to_bytes (merged_header f32_average base delta mergedDocData files),
                        EncodePathPrefixSidecar (pt_prefixes pt), headFile files, leafFile files, mergedDocData,
                        indexFile files])))))"

subsection \<open>Records that keep their fields and their path\<close>

definition same_fields :: "bytes \<Rightarrow> bytes \<Rightarrow> bool" where
  "same_fields rec rec' \<longleftrightarrow>
     (\<forall>a b. b \<le> 18 \<or> (20 \<le> a \<and> b \<le> DOC_PATH_OFFSET) \<longrightarrow> subslice a b rec' = subslice a b rec)"

text \<open>The record \<open>rec\<close> with directories \<open>sp\<close> became \<open>rec'\<close> with the directories \<open>ps\<close> or more of them.\<close>

definition kept_record :: "rstr list \<Rightarrow> bytes \<Rightarrow> rstr list \<Rightarrow> bytes \<Rightarrow> bool" where
  "kept_record sp rec ps rec' \<longleftrightarrow> same_fields rec rec' \<and> unat (u16_at rec' 18) \<le> DOC_PATH_MAX \<and>
     (\<forall>later. DecodeDocPath (path_field rec') (ps @ later) = DecodeDocPath (path_field rec) sp)"

text \<open>A path whose directory is in \<open>D\<close>, and a set of directories that fit one side table.\<close>

definition path_fits :: "rstr set \<Rightarrow> rstr \<Rightarrow> bool" where
  "path_fits D p \<longleftrightarrow> p = [] \<or> (plain_path p \<and> fst (split_path_for_sidecar p) \<in> D)"

definition dirs_fit :: "rstr set \<Rightarrow> bool" where
  "dirs_fit D \<longleftrightarrow> finite D \<and> card D \<le> 65535 \<and> path_prefix_sidecar_can_hold (card D) (sum length D) \<and>
     (\<forall>dir \<in> D. length dir < 2 ^ 16 \<and> utf8_valid dir)"

definition table_within :: "rstr set \<Rightarrow> path_table \<Rightarrow> bool" where
  "table_within D pt \<longleftrightarrow> path_table_ok pt \<and> set (pt_prefixes pt) \<subseteq> D"

lemma empty_path_field: "u16_at rec 18 = 0 \<Longrightarrow> DecodeDocPath (path_field rec) ps = []"
  by (simp add: path_field_def DecodeDocPath_def subslice_def)

lemma encode_doc_path_kept:
  assumes pt: "table_within D pt" and D: "dirs_fit D" and p: "path_fits D full" and len: "length rec = DOC_REC_SIZE"
    and e: "encode_doc_path rec full pt = (rec', pt')"
  shows "table_within D pt'" and "\<exists>new. pt_prefixes pt' = pt_prefixes pt @ new" and "length rec' = DOC_REC_SIZE"
    and "same_fields rec rec'" and "unat (u16_at rec' 18) \<le> DOC_PATH_MAX"
    and "DecodeDocPath (path_field rec') (pt_prefixes pt' @ later) = full"
proof -
  have ok: "path_table_ok pt" "set (pt_prefixes pt) \<subseteq> D" using pt by (auto simp: table_within_def)
  show "length rec' = DOC_REC_SIZE" "same_fields rec rec'"
    using encode_doc_path_record(1,4) [OF len e] by (simp_all add: same_fields_def)
  have "table_within D pt' \<and> (\<exists>new. pt_prefixes pt' = pt_prefixes pt @ new) \<and> unat (u16_at rec' 18) \<le> DOC_PATH_MAX \<and>
      DecodeDocPath (path_field rec') (pt_prefixes pt' @ later) = full"
  proof (cases "full = []")
    case True
    then show ?thesis using encode_doc_path_record(2) [OF len e] pt by (simp add: empty_path_field)
  next
    case False
    obtain dir name where split: "split_path_for_sidecar full = (dir, name)" by force
    from encode_doc_path_record(3) [OF len e False split] obtain i where
      i: "intern_path_prefix dir pt = (i, pt')" "unat (u16_at rec' 18) = 2 + min (length name) 62" by blast
    have dir: "dir \<in> D" "plain_path full" using p False split by (auto simp: path_fits_def)
    note new = intern_path_prefix_ok(1,2) [OF ok(1) i(1)]
    then have "table_within D pt'" using ok(2) dir(1) by (auto simp: table_within_def)
    moreover have "fst (intern_path_prefix (fst (split_path_for_sidecar full)) pt) \<noteq> DOC_PATH_PREFIX_INVALID"
      using intern_path_prefix_room [OF ok dir(1)] D split by (simp add: dirs_fit_def)
    from path_roundtrip [OF ok(1) len dir(2) False e this]
    have "DecodeDocPath (path_field rec') (pt_prefixes pt' @ later) = full" .
    ultimately show ?thesis using new(2) i(2) by (auto simp: DOC_PATH_MAX_def)
  qed
  then show "table_within D pt'" and "\<exists>new. pt_prefixes pt' = pt_prefixes pt @ new"
    and "unat (u16_at rec' 18) \<le> DOC_PATH_MAX" and "DecodeDocPath (path_field rec') (pt_prefixes pt' @ later) = full"
    by blast+
qed

subsection \<open>The joined table\<close>

definition live_slot :: "bytes \<Rightarrow> u64 \<Rightarrow> nat \<Rightarrow> bool" where
  "live_slot source first slot \<longleftrightarrow> ucast (u32_at (record_at source slot) 0) = first + word_of_nat slot"

definition slot_ok :: "rstr set \<Rightarrow> rstr list \<Rightarrow> bytes \<Rightarrow> u64 \<Rightarrow> nat \<Rightarrow> bool" where
  "slot_ok D sp source first slot \<longleftrightarrow> length (record_at source slot) = DOC_REC_SIZE \<and>
     (live_slot source first slot \<longrightarrow> unat (u16_at (record_at source slot) 18) \<le> DOC_PATH_MAX \<and>
        path_fits D (DecodeDocPath (path_field (record_at source slot)) sp))"

definition kept_slot :: "rstr list \<Rightarrow> bytes \<Rightarrow> u64 \<Rightarrow> rstr list \<Rightarrow> nat \<Rightarrow> bytes \<Rightarrow> bool" where
  "kept_slot sp source first ps slot rec' \<longleftrightarrow> length rec' = DOC_REC_SIZE \<and>
     (if live_slot source first slot then kept_record sp (record_at source slot) ps rec' else rec' = record_at source slot)"

lemma kept_slot_later: "kept_slot sp source first ps slot rec' \<Longrightarrow> kept_slot sp source first (ps @ new) slot rec'"
  by (auto simp: kept_slot_def kept_record_def split: if_splits)

lemma merge_record_kept:
  assumes "table_within D pt" and "dirs_fit D" and "slot_ok D sp source first slot"
  obtains rec' pt' new where "merge_record source first sp slot pt = Inr (rec', pt')" "table_within D pt'"
    "pt_prefixes pt' = pt_prefixes pt @ new" "kept_slot sp source first (pt_prefixes pt') slot rec'"
proof (cases "live_slot source first slot")
  case False
  then have "merge_record source first sp slot pt = Inr (record_at source slot, pt)"
    by (simp add: merge_record_def live_slot_def)
  then show ?thesis
    using assms False that [of "record_at source slot" pt "[]"] by (simp add: kept_slot_def slot_ok_def)
next
  case True
  let ?r = "record_at source slot"
  let ?p = "DecodeDocPath (path_field ?r) sp"
  obtain rec' pt' where e: "encode_doc_path ?r ?p pt = (rec', pt')" by force
  have p: "unat (u16_at ?r 18) \<le> DOC_PATH_MAX" "path_fits D ?p" "length ?r = DOC_REC_SIZE"
    using assms(3) True by (auto simp: slot_ok_def)
  note k = encode_doc_path_kept [OF assms(1,2) p(2,3) e]
  have "merge_record source first sp slot pt = Inr (rec', pt')" using True p(1) e by (simp add: merge_record_def live_slot_def)
  moreover have "kept_slot sp source first (pt_prefixes pt') slot rec'"
    using True k(3-6) by (simp add: kept_slot_def kept_record_def)
  ultimately show ?thesis using that k(1,2) by blast
qed

lemma merge_records_kept:
  assumes "table_within D pt" and D: "dirs_fit D" and "\<forall>slot \<in> set slots. slot_ok D sp source first slot"
  shows "\<exists>recs pt' new. merge_records source first sp slots out pt = Inr (out @ concat recs, pt') \<and> table_within D pt' \<and>
    pt_prefixes pt' = pt_prefixes pt @ new \<and> list_all2 (kept_slot sp source first (pt_prefixes pt')) slots recs"
  using assms(1,3)
proof (induction slots arbitrary: out pt)
  case Nil
  then show ?case by simp
next
  case (Cons slot slots)
  from Cons.prems obtain rec1 pt1 new1 where one: "merge_record source first sp slot pt = Inr (rec1, pt1)"
    "table_within D pt1" "pt_prefixes pt1 = pt_prefixes pt @ new1" "kept_slot sp source first (pt_prefixes pt1) slot rec1"
    using merge_record_kept [OF Cons.prems(1) D, of sp source first slot] by auto
  from Cons.IH [OF one(2), of "out @ rec1"] Cons.prems(2) obtain recs pt' new where
    rest: "merge_records source first sp slots (out @ rec1) pt1 = Inr ((out @ rec1) @ concat recs, pt')" "table_within D pt'"
      "pt_prefixes pt' = pt_prefixes pt1 @ new" "list_all2 (kept_slot sp source first (pt_prefixes pt')) slots recs" by auto
  have "merge_records source first sp (slot # slots) out pt = Inr (out @ concat (rec1 # recs), pt')"
    using one(1) rest(1) by simp
  moreover have "kept_slot sp source first (pt_prefixes pt') slot rec1" using kept_slot_later [OF one(4)] rest(3) by simp
  ultimately show ?case using rest(2-4) one(3) by (intro exI [of _ "rec1 # recs"] exI [of _ pt'] exI [of _ "new1 @ new"]) simp
qed

text \<open>The documents of an index, and when they can be joined with others under the directories \<open>D\<close>.\<close>

definition index_docs :: "'a index_data_scheme \<Rightarrow> doc_table" where
  "index_docs x = \<lparr>dt_DocData = x_DocData x, dt_NumDocuments = IFH_NumDocuments (x_Header x), dt_PathPrefixes = x_PathPrefixes x\<rparr>"

abbreviation doc_count :: "'a index_data_scheme \<Rightarrow> nat" where
  "doc_count x \<equiv> unat (IFH_NumDocuments (x_Header x))"

abbreviation first_doc_of :: "'a index_data_scheme \<Rightarrow> u64" where
  "first_doc_of x \<equiv> DocDataFirstDocId (x_DocData x) (IFH_NumDocuments (x_Header x))"

definition docs_ok :: "rstr set \<Rightarrow> 'a index_data_scheme \<Rightarrow> bool" where
  "docs_ok D x \<longleftrightarrow> 0 < doc_count x \<and> doc_count x \<le> 2 ^ 32 \<and> length (x_DocData x) = doc_count x * DOC_REC_SIZE \<and>
     (\<forall>slot < doc_count x. slot_ok D (x_PathPrefixes x) (x_DocData x) (first_doc_of x) slot)"

definition kept_docs :: "'a index_data_scheme \<Rightarrow> rstr list \<Rightarrow> bytes list \<Rightarrow> bool" where
  "kept_docs x ps recs \<longleftrightarrow> list_all2 (kept_slot (x_PathPrefixes x) (x_DocData x) (first_doc_of x) ps) [0..<doc_count x] recs"

lemma AppendMergedDocData_kept:
  assumes ok: "docs_ok D x" and "table_within D pt" and "dirs_fit D"
  shows "\<exists>recs pt' new. AppendMergedDocData out (x_DocData x) (x_Header x) (x_PathPrefixes x) pt = Inr (out @ concat recs, pt') \<and>
    table_within D pt' \<and> pt_prefixes pt' = pt_prefixes pt @ new \<and> kept_docs x (pt_prefixes pt') recs"
proof -
  have n: "doc_count x * 256 < 2 ^ 64" "length (x_DocData x) = doc_count x * 256"
    using ok by (simp_all add: docs_ok_def DOC_REC_SIZE_def)
  then have "checked_mul64 (IFH_NumDocuments (x_Header x)) (word_of_nat DOC_REC_SIZE) = Some (IFH_NumDocuments (x_Header x) * 256)"
    "unat (IFH_NumDocuments (x_Header x) * 256) = doc_count x * 256"
    by (auto simp: checked_mul64_def unat_word_ariths DOC_REC_SIZE_def)
  then have "AppendMergedDocData out (x_DocData x) (x_Header x) (x_PathPrefixes x) pt =
      merge_records (x_DocData x) (first_doc_of x) (x_PathPrefixes x) [0..<doc_count x] out pt"
    using n(2) by (simp add: AppendMergedDocData_def ok_or_invalid_def Let_def)
  moreover have "\<forall>slot \<in> set [0..<doc_count x]. slot_ok D (x_PathPrefixes x) (x_DocData x) (first_doc_of x) slot"
    using ok by (simp add: docs_ok_def)
  ultimately show ?thesis using merge_records_kept [OF assms(2,3)] by (simp add: kept_docs_def)
qed

lemma merged_doc_data_kept:
  assumes ok: "docs_ok D base" "docs_ok D delta" and D: "dirs_fit D"
  obtains recs1 recs2 pt where "merged_doc_data base delta = Inr (concat (recs1 @ recs2), pt)" "table_within D pt"
    "kept_docs base (pt_prefixes pt) recs1" "kept_docs delta (pt_prefixes pt) recs2"
proof -
  have "table_within D path_table_new" using path_table_new_ok by (simp add: table_within_def path_table_new_def)
  from AppendMergedDocData_kept [OF ok(1) this D, of "[]"] obtain recs1 pt1 new1 where
    a: "AppendMergedDocData [] (x_DocData base) (x_Header base) (x_PathPrefixes base) path_table_new = Inr (concat recs1, pt1)"
      "table_within D pt1" "kept_docs base (pt_prefixes pt1) recs1" by auto
  from AppendMergedDocData_kept [OF ok(2) a(2) D, of "concat recs1"] obtain recs2 pt new where
    b: "AppendMergedDocData (concat recs1) (x_DocData delta) (x_Header delta) (x_PathPrefixes delta) pt1 = Inr (concat recs1 @ concat recs2, pt)"
      "table_within D pt" "pt_prefixes pt = pt_prefixes pt1 @ new" "kept_docs delta (pt_prefixes pt) recs2" by blast
  have "source_docs delta > 0" using ok(2) by (simp add: docs_ok_def source_docs_def word_less_nat_alt)
  then have "merged_doc_data base delta = Inr (concat (recs1 @ recs2), pt)"
    using a(1) b(1) by (simp add: merged_doc_data_def)
  moreover have "kept_docs base (pt_prefixes pt) recs1"
    using a(3) unfolding kept_docs_def b(3) by (rule list_all2_mono) (rule kept_slot_later)
  ultimately show ?thesis using that b(2,4) by blast
qed

lemma kept_docs_nth:
  assumes "kept_docs x ps recs"
  shows "length recs = doc_count x" and "\<forall>rec \<in> set recs. length rec = DOC_REC_SIZE"
    and "i < doc_count x \<Longrightarrow> kept_slot (x_PathPrefixes x) (x_DocData x) (first_doc_of x) ps i (recs ! i)"
  using assms by (auto simp: kept_docs_def list_all2_conv_all_nth kept_slot_def in_set_conv_nth)

lemma record_at_concat:
  assumes "\<forall>rec \<in> set recs. length rec = DOC_REC_SIZE"
  shows "length (concat recs) = length recs * DOC_REC_SIZE" and "i < length recs \<Longrightarrow> record_at (concat recs) i = recs ! i"
proof -
  show "length (concat recs) = length recs * DOC_REC_SIZE" using assms concat_length_const [of recs id DOC_REC_SIZE] by simp
  have "slices_at DOC_REC_SIZE (concat recs) 0 (length recs) = recs"
    using slices_at_section [of "concat recs" "[]" id recs "[]" 0 DOC_REC_SIZE] assms by simp
  then show "record_at (concat recs) i = recs ! i" if "i < length recs"
    using that by (metis (no_types, lifting) add_0 length_map length_upt minus_nat.diff_0 nth_map nth_upt record_at_def slices_at_def)
qed

lemma find_record_slot:
  assumes "length (dt_DocData t) = n * DOC_REC_SIZE" and "DocDataFirstDocId (dt_DocData t) (dt_NumDocuments t) = f"
  shows "find_record t d = (if f \<le> d \<and> unat (d - f) < n \<and> live_slot (dt_DocData t) f (unat (d - f))
    then Some (record_at (dt_DocData t) (unat (d - f))) else None)"
  using assms by (auto simp: find_record_def live_slot_def DOC_REC_SIZE_def)

text \<open>A lookup in the joined table and in the two tables it was made of.\<close>

definition same_answer :: "doc_table \<Rightarrow> doc_table list \<Rightarrow> u64 \<Rightarrow> bool" where
  "same_answer m ts d \<longleftrightarrow>
     (case find_in_tables ts d of
        None \<Rightarrow> find_in_tables [m] d = None
      | Some rec \<Rightarrow> \<exists>rec'. find_in_tables [m] d = Some rec' \<and> same_fields rec rec') \<and>
     path_in_tables [m] d = path_in_tables ts d"

lemma same_slice: "same_fields rec rec' \<Longrightarrow> b \<le> 18 \<or> (20 \<le> a \<and> b \<le> DOC_PATH_OFFSET) \<Longrightarrow> subslice a b rec' = subslice a b rec"
  unfolding same_fields_def by blast

lemma same_int:
  "same_fields rec rec' \<Longrightarrow> b + 4 \<le> 18 \<or> (20 \<le> b \<and> b + 4 \<le> DOC_PATH_OFFSET) \<Longrightarrow> u32_at rec' b = u32_at rec b"
  "same_fields rec rec' \<Longrightarrow> b + 2 \<le> 18 \<or> (20 \<le> b \<and> b + 2 \<le> DOC_PATH_OFFSET) \<Longrightarrow> u16_at rec' b = u16_at rec b"
  unfolding u32_at_def u16_at_def by (simp_all only: same_slice)

lemma kept_slot_id: "kept_slot sp source first ps i rec' \<Longrightarrow> u32_at rec' 0 = u32_at (record_at source i) 0"
  by (auto simp: kept_slot_def kept_record_def same_int(1) split: if_splits)

lemma first_record_id:
  assumes "length data = n * DOC_REC_SIZE" and "0 < n" and "0 < num"
  shows "DocDataFirstDocId data num = ucast (u32_at (record_at data 0) 0)"
proof -
  have "u32_at (record_at data 0) 0 = u32_at data 0"
    by (simp add: u32_at_def record_at_def slice_slice DOC_REC_SIZE_def)
  moreover have "DOC_REC_SIZE \<le> length data" using assms by simp
  ultimately show ?thesis using assms(3) by (simp add: DocDataFirstDocId_def)
qed

definition shown_path :: "bytes \<Rightarrow> rstr list \<Rightarrow> rstr" where
  "shown_path rec ps = (if 0 < unat (u16_at rec 18) \<and> unat (u16_at rec 18) \<le> DOC_PATH_MAX
     then DecodeDocPath (path_field rec) ps else [])"

lemma shown_path_short: "unat (u16_at rec 18) \<le> DOC_PATH_MAX \<Longrightarrow> shown_path rec ps = DecodeDocPath (path_field rec) ps"
  by (auto simp: shown_path_def unat_gt_0 empty_path_field)

lemma shown_path_kept:
  assumes "kept_record sp rec ps rec'" and "unat (u16_at rec 18) \<le> DOC_PATH_MAX"
  shows "shown_path rec' ps = shown_path rec sp"
proof -
  have "unat (u16_at rec' 18) \<le> DOC_PATH_MAX" "DecodeDocPath (path_field rec') (ps @ []) = DecodeDocPath (path_field rec) sp"
    using assms(1) unfolding kept_record_def by blast+
  then show ?thesis using assms(2) by (simp add: shown_path_short)
qed

lemma path_in_tables_shown:
  "find_record t d = Some rec \<Longrightarrow> find_in_tables ts d = None \<Longrightarrow> path_in_tables (t # ts) d = shown_path rec (dt_PathPrefixes t)"
  "find_in_tables ts d = None \<Longrightarrow> path_in_tables ts d = []"
proof -
  show none: "path_in_tables ts d = []" if "find_in_tables ts d = None" for ts
    using that by (induction ts) (auto split: option.splits)
  show "path_in_tables (t # ts) d = shown_path rec (dt_PathPrefixes t)"
    if "find_record t d = Some rec" "find_in_tables ts d = None"
    using that none [OF that(2)] by (simp add: shown_path_def)
qed

lemma no_answer: "find_in_tables [m] d = None \<Longrightarrow> find_in_tables ts d = None \<Longrightarrow> same_answer m ts d"
  using path_in_tables_shown(2) [of "[m]" d] path_in_tables_shown(2) [of ts d]
  by (simp add: same_answer_def del: path_in_tables.simps find_in_tables.simps)

text \<open>One table answers, with a slot that was kept.\<close>

lemma kept_slot_answer:
  assumes kept: "kept_slot sp source first ps i rec'" and ok: "slot_ok D sp source first i"
    and m: "find_record m d = (if live_slot source first i then Some rec' else None)" "dt_PathPrefixes m = ps"
    and t: "find_record t d = (if live_slot source first i then Some (record_at source i) else None)" "dt_PathPrefixes t = sp"
    and others: "find_in_tables before d = None" "find_in_tables after d = None"
  shows "same_answer m (before @ t # after) d"
proof -
  have skip: "find_in_tables (before @ ts) d = find_in_tables ts d \<and> path_in_tables (before @ ts) d = path_in_tables ts d" for ts
    using others(1) by (induction before) (auto split: option.splits)
  show ?thesis
  proof (cases "live_slot source first i")
    case True
    then have k: "kept_record sp (record_at source i) ps rec'" "unat (u16_at (record_at source i) 18) \<le> DOC_PATH_MAX"
      using kept ok by (simp_all add: kept_slot_def slot_ok_def)
    have "path_in_tables [m] d = path_in_tables (t # after) d"
      using path_in_tables_shown(1) [of m d rec' "[]"] path_in_tables_shown(1) [of t d "record_at source i" after] m t True others(2)
        shown_path_kept [OF k] by simp
    then show ?thesis using m(1) t(1) True k(1) skip [of "t # after"] by (simp add: same_answer_def kept_record_def)
  next
    case False
    then have "find_in_tables (t # after) d = None" "find_in_tables [m] d = None" using m(1) t(1) others(2) by simp_all
    then show ?thesis using skip [of "t # after"] by (intro no_answer) simp_all
  qed
qed

lemma merged_docs_answer:
  assumes ok: "docs_ok D base" "docs_ok D delta" and kept: "kept_docs base ps recs1" "kept_docs delta ps recs2"
    and first: "first_doc_of base = 0" "first_doc_of delta = IFH_NumDocuments (x_Header base)"
  shows "same_answer \<lparr>dt_DocData = concat (recs1 @ recs2), dt_NumDocuments = IFH_NumDocuments (x_Header base) + IFH_NumDocuments (x_Header delta),
     dt_PathPrefixes = ps\<rparr> [index_docs base, index_docs delta] d"
proof -
  define n1 n2 where "n1 = doc_count base" and "n2 = doc_count delta"
  let ?m = "\<lparr>dt_DocData = concat (recs1 @ recs2), dt_NumDocuments = IFH_NumDocuments (x_Header base) + IFH_NumDocuments (x_Header delta),
     dt_PathPrefixes = ps\<rparr>"
  have n: "0 < n1" "n1 \<le> 2 ^ 32" "0 < n2" "n2 \<le> 2 ^ 32"
    and len: "length (x_DocData base) = n1 * DOC_REC_SIZE" "length (x_DocData delta) = n2 * DOC_REC_SIZE"
    using ok by (simp_all add: docs_ok_def n1_def n2_def)
  have slots: "slot_ok D (x_PathPrefixes base) (x_DocData base) 0 i" if "i < n1" for i
    using ok(1) that first(1) by (simp add: docs_ok_def n1_def)
  have slots2: "slot_ok D (x_PathPrefixes delta) (x_DocData delta) (IFH_NumDocuments (x_Header base)) i" if "i < n2" for i
    using ok(2) that first(2) by (simp add: docs_ok_def n2_def)
  note k1 = kept_docs_nth [OF kept(1), unfolded first n1_def [symmetric]]
  note k2 = kept_docs_nth [OF kept(2), unfolded first n2_def [symmetric]]
  have recs: "\<forall>rec \<in> set (recs1 @ recs2). length rec = DOC_REC_SIZE" using k1(2) k2(2) by auto
  have total: "length (recs1 @ recs2) = n1 + n2" using k1(1) k2(1) by simp
  note at = record_at_concat [OF recs, unfolded total]
  let ?N = "IFH_NumDocuments (x_Header base)" and ?M = "IFH_NumDocuments (x_Header delta)"
  have sum: "unat (?N + ?M) = n1 + n2" using n by (simp add: unat_word_ariths n1_def n2_def)
  have pos: "0 < ?N" "0 < ?N + ?M" using n sum by (simp_all add: word_less_nat_alt n1_def)
  have "ucast (u32_at (record_at (x_DocData base) 0) 0) = (0 :: u64)"
    using first_record_id [OF len(1) n(1) pos(1)] first(1) by simp
  then have zero: "DocDataFirstDocId (concat (recs1 @ recs2)) (?N + ?M) = 0"
    using first_record_id [OF at(1) _ pos(2)] at(2) [of 0] kept_slot_id [OF k1(3) [of 0]] k1(1) n by (simp add: nth_append)
  have m: "find_record ?m d = (if unat d < n1 + n2 \<and> ucast (u32_at ((recs1 @ recs2) ! unat d) 0) = d
      then Some ((recs1 @ recs2) ! unat d) else None)"
    using find_record_slot [of ?m "n1 + n2" 0 d] at zero by (auto simp: live_slot_def simp del: concat_append)
  have t1: "find_record (index_docs base) d = (if unat d < n1 \<and> live_slot (x_DocData base) 0 (unat d)
      then Some (record_at (x_DocData base) (unat d)) else None)"
    using find_record_slot [of "index_docs base" n1 0 d] len(1) first(1) by (simp add: index_docs_def)
  have t2: "find_record (index_docs delta) d = (if ?N \<le> d \<and> unat (d - ?N) < n2 \<and> live_slot (x_DocData delta) ?N (unat (d - ?N))
      then Some (record_at (x_DocData delta) (unat (d - ?N))) else None)"
    using find_record_slot [of "index_docs delta" n2 ?N d] len(2) first(2) by (simp add: index_docs_def)
  show ?thesis
  proof (cases "unat d < n1")
    case True
    then have none: "find_in_tables [index_docs delta] d = None" using t2 by (simp add: word_le_nat_alt n1_def)
    have rec: "(recs1 @ recs2) ! unat d = recs1 ! unat d" using True k1(1) by (simp add: nth_append)
    have "live_slot (x_DocData base) 0 (unat d) \<longleftrightarrow> ucast (u32_at (recs1 ! unat d) 0) = d"
      using kept_slot_id [OF k1(3) [OF True]] by (simp add: live_slot_def)
    then have "find_record ?m d = (if live_slot (x_DocData base) 0 (unat d) then Some (recs1 ! unat d) else None)"
      using m rec True by simp
    from kept_slot_answer [OF k1(3) [OF True] slots [OF True] this, of "index_docs base" "[]" "[index_docs delta]"] t1 True none
    show ?thesis by (simp add: index_docs_def)
  next
    case False
    let ?i = "unat (d - ?N)"
    have le: "?N \<le> d" and i: "?i = unat d - n1" using False by (simp_all add: word_le_nat_alt n1_def unat_sub)
    have none: "find_in_tables [index_docs base] d = None" using t1 False by simp
    show ?thesis
    proof (cases "?i < n2")
      case True
      have rec: "(recs1 @ recs2) ! unat d = recs2 ! ?i" using False k1(1) i by (simp add: nth_append)
      have "live_slot (x_DocData delta) ?N ?i \<longleftrightarrow> ucast (u32_at (recs2 ! ?i) 0) = d"
        using kept_slot_id [OF k2(3) [OF True]] by (simp add: live_slot_def)
      then have "find_record ?m d = (if live_slot (x_DocData delta) ?N ?i then Some (recs2 ! ?i) else None)"
        using m rec True False i by auto
      from kept_slot_answer [OF k2(3) [OF True] slots2 [OF True] this, of "index_docs delta" "[index_docs base]" "[]"] t2 True le none
      show ?thesis by (simp add: index_docs_def)
    next
      case out: False
      then have "find_in_tables [?m] d = None" "find_in_tables [index_docs base, index_docs delta] d = None"
        using m t1 t2 out False i by auto
      then show ?thesis by (rule no_answer)
    qed
  qed
qed

subsection \<open>The merged file\<close>

lemma files_of_lengths:
  assumes f: "files_of r files" and ok: "built_ok l s r blocks"
  shows "length (headFile files) = length (BBR_HeadTermEntries r) * 32" and "length (leafFile files) = length (BBR_LeafTermBlocks r) * PAGE_SIZE"
    and "length (indexFile files) = length (BBR_IndexBlocks r) * PAGE_SIZE"
proof -
  have p: "\<forall>h \<in> set (BBR_HeadTermEntries r). length (hte_to_bytes h) = 32" "\<forall>b \<in> set (BBR_LeafTermBlocks r). length (leaf_to_bytes b) = PAGE_SIZE"
    "\<forall>p \<in> set (BBR_IndexBlocks r). length (id p) = PAGE_SIZE"
    using ok f leaf_from_bytes_length length_hte_to_bytes by (auto simp: built_ok_def files_of_def)
  show "length (headFile files) = length (BBR_HeadTermEntries r) * 32" "length (leafFile files) = length (BBR_LeafTermBlocks r) * PAGE_SIZE"
    "length (indexFile files) = length (BBR_IndexBlocks r) * PAGE_SIZE"
    using f concat_length_const [OF p(1)] concat_length_const [OF p(2)] concat_length_const [OF p(3)] by (simp_all add: files_of_def)
qed

lemma check_leaf_file_built:
  assumes f: "files_of r files" and ok: "built_ok l s r blocks" and fits: "built_fits r"
  shows "\<exists>leafs. check_leaf_file files = Inr leafs" and "unat (headEntryCount files) = length (BBR_LeafTermBlocks r)"
    and "unat (indexBlockCount files) = length (BBR_IndexBlocks r)"
proof -
  have n: "length (BBR_LeafTermBlocks r) = length (BBR_HeadTermEntries r)" "length (BBR_LeafTermBlocks r) < 2 ^ 32" "length (BBR_IndexBlocks r) < 2 ^ 32"
    using f fits by (simp_all add: files_of_def built_fits_def)
  show count: "unat (headEntryCount files) = length (BBR_LeafTermBlocks r)" "unat (indexBlockCount files) = length (BBR_IndexBlocks r)"
    using f n by (simp_all add: files_of_def unat64_of_nat unat32_of_nat)
  have each: "\<forall>b \<in> set (BBR_LeafTermBlocks r). length (leaf_to_bytes b) = PAGE_SIZE \<and> leaf_from_bytes (leaf_to_bytes b) = Some b"
    using f leaf_from_bytes_length by (auto simp: files_of_def)
  have "leafFile files = concat (map leaf_to_bytes (BBR_LeafTermBlocks r))" using f by (simp add: files_of_def)
  then have "decode_each leaf_from_bytes PAGE_SIZE (leafFile files) 0 (unat (headEntryCount files)) = Inr (BBR_LeafTermBlocks r)"
    using decode_each_section [of "leafFile files" "[]" leaf_to_bytes "BBR_LeafTermBlocks r" "[]" 0 PAGE_SIZE leaf_from_bytes] each count(1)
    by simp
  then show "\<exists>leafs. check_leaf_file files = Inr leafs"
    using files_of_lengths(2) [OF f ok] count(1) by (simp add: check_leaf_file_def)
qed

lemma merged_header_fields:
  fixes f32_average
  assumes f: "files_of r files" and fits: "built_fits r" and docs: "docs_ok D base" "docs_ok D delta"
    and len: "length mergedDocData = (doc_count base + doc_count delta) * DOC_REC_SIZE"
  defines "h \<equiv> merged_header f32_average base delta mergedDocData files"
  shows "\<exists>e. validate_layout h None = Inr e" and "unat (IFH_NumDocuments h) = doc_count base + doc_count delta"
    and "unat (IFH_HeadTermEntryCount h) = length (BBR_HeadTermEntries r)" and "unat (IFH_LeafTermBlockCount h) = length (BBR_LeafTermBlocks r)"
    and "unat (IFH_IndexBlockCount h) = length (BBR_IndexBlocks r)"
    and "IFH_TermMphfHeaderCount h = 0" "IFH_TermMphfDisplacementCount h = 0" "IFH_TermMphfEntryPageCount h = 0"
    and "IFH_Magic h = INDEX_FILE_MAGIC" "IFH_Version h = INDEX_FORMAT_VERSION"
    and "IFH_NumDocuments h = IFH_NumDocuments (x_Header base) + IFH_NumDocuments (x_Header delta)"
proof -
  define a b c where "a = length (BBR_LeafTermBlocks r)" and "b = length (BBR_IndexBlocks r)" and "c = doc_count base + doc_count delta"
  have n: "length (BBR_HeadTermEntries r) = a" "a < 2 ^ 32" "b < 2 ^ 32" "c \<le> 2 ^ 33"
    using f fits docs by (simp_all add: files_of_def built_fits_def docs_ok_def a_def b_def c_def)
  have counts: "unat (headEntryCount files) = a" "unat (indexBlockCount files) = b"
    using f n by (simp_all add: files_of_def unat64_of_nat unat32_of_nat b_def)
  have u: "unat (word_of_nat k :: u64) = k" if "k \<le> 82056 + a * 32 + a * 4096 + c * 256 + b * 4096" for k
    using that n by (intro unat64_of_nat) simp
  have docsum: "unat (IFH_NumDocuments (x_Header base) + IFH_NumDocuments (x_Header delta)) = c"
    using docs by (simp add: docs_ok_def unat_word_ariths c_def)
  have ic: "unat (ucast (indexBlockCount files) :: u64) = b" using counts(2) by (simp add: unat_up)
  note sizes = PAGE_SIZE_def PATH_PREFIX_SIDECAR_BYTES_def INDEX_FILE_HEADER_SIZE_def DOC_REC_SIZE_def
  have fields: "unat (IFH_HeadTermEntryOffset h) = 82056" "unat (IFH_HeadTermEntryCount h) = a"
    "unat (IFH_LeafTermBlockOffset h) = 82056 + a * 32" "unat (IFH_LeafTermBlockCount h) = a"
    "unat (IFH_DocDataOffset h) = 82056 + a * 32 + a * 4096" "unat (IFH_NumDocuments h) = c"
    "unat (IFH_IndexBlockOffset h) = 82056 + a * 32 + a * 4096 + c * 256" "unat (IFH_IndexBlockCount h) = b"
    "unat (IFH_TermMphfHeaderOffset h) = 82056 + a * 32 + a * 4096 + c * 256 + b * 4096"
    "unat (IFH_TermMphfDisplacementOffset h) = 82056 + a * 32 + a * 4096 + c * 256 + b * 4096"
    "unat (IFH_TermMphfEntryOffset h) = 82056 + a * 32 + a * 4096 + c * 256 + b * 4096"
    using len docsum ic
    by (simp_all add: h_def merged_header_def Let_def source_docs_def counts u sizes c_def [symmetric] del: of_nat_add of_nat_mult)
  show zero: "IFH_TermMphfHeaderCount h = 0" "IFH_TermMphfDisplacementCount h = 0" "IFH_TermMphfEntryPageCount h = 0"
    and "IFH_Magic h = INDEX_FILE_MAGIC" "IFH_Version h = INDEX_FORMAT_VERSION"
    and "IFH_NumDocuments h = IFH_NumDocuments (x_Header base) + IFH_NumDocuments (x_Header delta)"
    by (simp_all add: h_def merged_header_def Let_def source_docs_def IndexFileHeader_default_def)
  show "unat (IFH_NumDocuments h) = doc_count base + doc_count delta" "unat (IFH_HeadTermEntryCount h) = length (BBR_HeadTermEntries r)"
    "unat (IFH_LeafTermBlockCount h) = length (BBR_LeafTermBlocks r)" "unat (IFH_IndexBlockCount h) = length (BBR_IndexBlocks r)"
    using fields n(1) by (simp_all add: a_def b_def c_def)
  from plain_layout_valid [OF fields zero n(2-4)] show "\<exists>e. validate_layout h None = Inr e" .
qed

text \<open>The merge of two built indexes: the file is the saved index of the merged store, with the documents of both.\<close>

lemma Merge_built:
  assumes ok1: "built_ok l s1 r1 b1" "built_fits r1" and ok2: "built_ok l s2 r2 b2" "built_fits r2" and m: "mergeable l s1 s2"
    and base: "s_Built base" "source_cursor base = built_view r1" "docs_ok D base" "first_doc_of base = 0"
    and delta: "s_Built delta" "source_cursor delta = built_view r2" "docs_ok D delta"
      "first_doc_of delta = IFH_NumDocuments (x_Header base)"
    and D: "dirs_fit D"
  obtains data x r blocks where "Merge f32_average base (Some delta) = Some (Inr data)" "LoadFromBytes decode data = Inr x"
    "x_BlockTable x = built_table r" "built_ok l (merged_store s1 s2) r blocks" "built_fits r"
    "IFH_NumDocuments (x_Header x) = IFH_NumDocuments (x_Header base) + IFH_NumDocuments (x_Header delta)"
    "\<And>d. same_answer (index_docs x) [index_docs base, index_docs delta] d"
proof -
  from merge_dictionaries_built [OF ok1 ok2 m] obtain files r blocks where
    md: "merge_dictionaries (built_view r1) (built_view r2) = Some (Inr files)" "files_of r files" "built_fits r"
      "built_ok l (merged_store s1 s2) r blocks" by blast
  from merged_doc_data_kept [OF base(3) delta(3) D] obtain recs1 recs2 pt where
    dd: "merged_doc_data base delta = Inr (concat (recs1 @ recs2), pt)" "table_within D pt"
      "kept_docs base (pt_prefixes pt) recs1" "kept_docs delta (pt_prefixes pt) recs2" by blast
  define docs where "docs = concat (recs1 @ recs2)"
  define h where "h = merged_header f32_average base delta docs files"
  define sidecar where "sidecar = EncodePathPrefixSidecar (pt_prefixes pt)"
  define data where "data = concat [header_to_bytes h, sidecar, headFile files, leafFile files, docs, indexFile files]"
  have "length docs = length (recs1 @ recs2) * DOC_REC_SIZE"
    unfolding docs_def by (rule record_at_concat(1)) (use kept_docs_nth(2) [OF dd(3)] kept_docs_nth(2) [OF dd(4)] in auto)
  then have len: "length docs = (doc_count base + doc_count delta) * DOC_REC_SIZE"
    using kept_docs_nth(1) [OF dd(3)] kept_docs_nth(1) [OF dd(4)] by simp
  note hf = merged_header_fields [OF md(2,3) base(3) delta(3) len, of f32_average, folded h_def]
  note leaf = check_leaf_file_built [OF md(2,4,3)]
  have "x_DocData base \<noteq> []" "x_DocData delta \<noteq> []" using base(3) delta(3) by (auto simp: docs_ok_def DOC_REC_SIZE_def)
  then have merge: "Merge f32_average base (Some delta) = Some (Inr data)"
    using base(1,2) delta(1,2,4) md(1) dd(1) leaf(1)
    by (auto simp: Merge_def source_docs_def data_def h_def sidecar_def docs_def Let_def simp del: concat_append concat.simps)
  note t = built_table_blocks [OF md(4,3)]
  have "path_table_ok pt" "\<forall>p \<in> set (pt_prefixes pt). length p < 2 ^ 16 \<and> utf8_valid p"
    using dd(2) D by (auto simp: table_within_def dirs_fit_def)
  note side = sidecar_decodes [OF this, folded sidecar_def]
  have agree: "lengths_agree h (built_table r) docs sidecar"
    using hf len t side(2) by (simp add: lengths_agree_def)
  have sections: "save_sections h (built_table r) docs sidecar =
      [header_to_bytes h, sidecar, headFile files, leafFile files, docs, indexFile files, [], [], []]"
    using md(2) by (simp add: save_sections_plain [OF agree] t hf(6) files_of_def)
  have save: "Save h (built_table r) docs sidecar = Inr data"
    using Save_Inr [OF current_not_zeroed [OF hf(9)]] hf(1) agree sections by (auto simp: data_def)
  have none: "BBR_TermMphfDisplacements r = []" "BBR_TermMphfEntryPages r = []" using md(2) by (simp_all add: files_of_def)
  let ?x = "\<lparr>x_Header = h, x_BlockTable = built_table r, x_DocData = docs, x_PathPrefixSidecar = sidecar, x_PathPrefixes = pt_prefixes pt\<rparr>"
  from load_saved [OF hf(9,10,6) t(5) save side(1) t(1,2) none] have load: "LoadFromBytes decode data = Inr ?x" .
  have "same_answer (index_docs ?x) [index_docs base, index_docs delta] d" for d
    using merged_docs_answer [OF base(3) delta(3) dd(3,4) base(4) delta(4), of d] hf(11)
    by (simp add: index_docs_def docs_def)
  with that [OF merge load _ md(4,3)] hf(11) show ?thesis by simp
qed

subsection \<open>Merging what was built\<close>

text \<open>A context that has built its index in memory, or loaded it from bytes.\<close>

definition memory_source :: "index_data \<Rightarrow> BlockAccessCounters \<Rightarrow> merge_source" where
  "memory_source x c =
     index_data.extend x (merge_source.fields True (leaf_fetch (x_BlockTable x) c) (index_fetch (x_BlockTable x) c))"

lemma memory_source_simps [simp]:
  "x_Header (memory_source x c) = x_Header x" "x_BlockTable (memory_source x c) = x_BlockTable x"
  "x_DocData (memory_source x c) = x_DocData x" "x_PathPrefixes (memory_source x c) = x_PathPrefixes x"
  "s_Built (memory_source x c)" "s_LeafPages (memory_source x c) = leaf_fetch (x_BlockTable x) c"
  "s_IndexPages (memory_source x c) = index_fetch (x_BlockTable x) c"
  by (simp_all add: memory_source_def index_data.defs merge_source.defs)

lemma memory_source_cursor:
  assumes "x_BlockTable x = built_table r" and "built_fits r"
  shows "source_cursor (memory_source x c) = built_view r"
proof -
  have "leaf_fetch (built_table r) c = page_list (map leaf_to_bytes (BBR_LeafTermBlocks r))"
    "index_fetch (built_table r) c = page_list (BBR_IndexBlocks r)"
    using page_list_memory assms(2) by (simp_all add: leaf_fetch_def index_fetch_def built_fits_def)
  then show ?thesis using assms(1) by (simp add: source_cursor_def built_view_def SetPoolMemory_def)
qed

text \<open>Two stores whose documents can be joined: the ids of the second continue those of the first, which start at 0.\<close>

definition joinable :: "PostingStore \<Rightarrow> PostingStore \<Rightarrow> bool" where
  "joinable s1 s2 \<longleftrightarrow> m_DocStats s1 \<noteq> [] \<and> m_DocStats s2 \<noteq> [] \<and> StoreFirstDocId s1 = 0 \<and>
     StoreFirstDocId s2 = StoreDocDataRecordCount s1 \<and>
     (\<forall>st \<in> snd ` set (m_DocStats s1 @ m_DocStats s2). path st \<noteq> [] \<longrightarrow> plain_path (path st)) \<and>
     dirs_fit (store_dirs s1 \<union> store_dirs s2)"

lemma dirs_fit_mono:
  assumes "dirs_fit D" and "E \<subseteq> D"
  shows "card E \<le> 65535" and "path_prefix_sidecar_can_hold (card E) (sum length E)"
proof -
  have "finite D" using assms(1) by (simp add: dirs_fit_def)
  then have "card E \<le> card D" "sum length E \<le> sum length D" using assms(2) by (simp_all add: card_mono sum_mono2)
  then show "card E \<le> 65535" "path_prefix_sidecar_can_hold (card E) (sum length E)"
    using assms(1) by (auto simp: dirs_fit_def path_prefix_sidecar_can_hold_def)
qed

lemma encoded_shown:
  assumes enc: "encoded scores s (d, st) rec pt" and st: "(d, st) \<in> set (m_DocStats s)"
    and plain: "path st \<noteq> [] \<longrightarrow> plain_path (path st)" and D: "dirs_fit D" "store_dirs s \<subseteq> D"
  shows "unat (u16_at rec 18) \<le> DOC_PATH_MAX" and "DecodeDocPath (path_field rec) (pt_prefixes pt) = path st"
    and "path_fits D (path st)"
proof -
  have "unat (u16_at rec 18) \<le> DOC_PATH_MAX \<and> DecodeDocPath (path_field rec) (pt_prefixes pt) = path st"
  proof (cases "path st = []")
    case True
    obtain pt0 pt1 where "encode_doc_path (encode_stats (scores st) s d st blank_record) (path st) pt0 = (rec, pt1)"
      using enc by (auto simp: encoded_def encode_record_def)
    from encode_doc_path_record(2) [OF _ this True] show ?thesis using True by (simp add: empty_path_field)
  next
    case False
    then have "plain_path (path st)" using plain by blast
    from encoded_path [OF enc st False this dirs_fit_mono [OF D]] show ?thesis by blast
  qed
  then show "unat (u16_at rec 18) \<le> DOC_PATH_MAX" "DecodeDocPath (path_field rec) (pt_prefixes pt) = path st" by blast+
  have "path st \<noteq> [] \<Longrightarrow> fst (split_path_for_sidecar (path st)) \<in> store_dirs s"
    using st unfolding store_dirs_def by force
  then show "path_fits D (path st)" using plain D(2) by (auto simp: path_fits_def)
qed

lemma built_docs_ok:
  assumes ok: "store_savable s" and x: "BuildIndexData l f32_ratio scores s = Some x" and ne: "m_DocStats s \<noteq> []"
    and plain: "\<forall>st \<in> snd ` set (m_DocStats s). path st \<noteq> [] \<longrightarrow> plain_path (path st)" and D: "dirs_fit D" "store_dirs s \<subseteq> D"
  shows "docs_ok D x" and "first_doc_of x = StoreFirstDocId s" and "IFH_NumDocuments (x_Header x) = StoreDocDataRecordCount s"
    and "index_docs x = built_doc_table scores s"
proof -
  have dok: "docdata_store_ok s" using ok by (simp add: store_savable_def)
  obtain docs sidecar ps where enc: "EncodeDocData scores s = (docs, sidecar, ps)" by (metis surj_pair)
  have parts: "x_DocData x = docs" "x_PathPrefixes x = ps" "IFH_NumDocuments (x_Header x) = StoreDocDataRecordCount s"
    using x enc by (auto simp: BuildIndexData_def built_header_current split: option.splits)
  show "IFH_NumDocuments (x_Header x) = StoreDocDataRecordCount s" by (rule parts(3))
  show "index_docs x = built_doc_table scores s" using parts enc by (simp add: index_docs_def built_doc_table_def)
  show first: "first_doc_of x = StoreFirstDocId s"
    using built_first_doc [OF dok ne, of scores] parts enc by (simp add: built_doc_table_def)
  let ?n = "unat (StoreDocDataRecordCount s)"
  from dok enc obtain pt where r: "ps = pt_prefixes pt" "length docs = ?n * DOC_REC_SIZE"
    "\<And>e. e \<in> set (m_DocStats s) \<Longrightarrow> encoded scores s e (record_at docs (unat (fst e - StoreFirstDocId s))) pt"
    "\<And>i. i < ?n \<Longrightarrow> StoreFirstDocId s + word_of_nat i \<notin> fst ` set (m_DocStats s) \<Longrightarrow> record_at docs i = blank_record"
    by (rule EncodeDocData_records) blast
  have n: "0 < ?n" "?n \<le> 2 ^ 32" using record_count_pos [OF dok ne] record_count_bound [OF dok] by (simp_all add: unat_gt_0)
  have "slot_ok D ps docs (StoreFirstDocId s) i" if i: "i < ?n" for i
  proof (cases "StoreFirstDocId s + word_of_nat i \<in> fst ` set (m_DocStats s)")
    case False
    have "u16_at blank_record 18 = 0"
      by (simp add: u16_at_def blank_record_def slice_put_after slice_replicate DOC_REC_SIZE_def numeral_2_eq_2 u16_from_le_def)
    then show ?thesis using r(4) [OF i False] by (simp add: slot_ok_def empty_path_field path_fits_def)
  next
    case True
    then obtain st where st: "(StoreFirstDocId s + word_of_nat i, st) \<in> set (m_DocStats s)" by auto
    have "unat (word_of_nat i :: u64) = i" using i n by (intro unat64_of_nat) simp
    then have e: "encoded scores s (StoreFirstDocId s + word_of_nat i, st) (record_at docs i) pt" using r(3) [OF st] by simp
    have "path st \<noteq> [] \<longrightarrow> plain_path (path st)" using plain st by force
    from encoded_shown [OF e st this D] encoded_fields(1) [OF dok e] show ?thesis by (simp add: slot_ok_def r(1))
  qed
  then show "docs_ok D x" using n r(2) first by (simp add: docs_ok_def parts)
qed

text \<open>
  A source that holds a built index, wherever its pages are: the dictionary cursor over it starts as the
  one over the blocks of the build, and it has the document table of the build.
\<close>

definition built_source :: "index_data \<Rightarrow> BuildBlocksResult \<Rightarrow> merge_source \<Rightarrow> bool" where
  "built_source x r source \<longleftrightarrow> s_Built source \<and> source_cursor source = built_view r \<and> x_Header source = x_Header x \<and>
     x_DocData source = x_DocData x \<and> x_PathPrefixes source = x_PathPrefixes x"

lemma built_source_memory: "x_BlockTable x = built_table r \<Longrightarrow> built_fits r \<Longrightarrow> built_source x r (memory_source x c)"
  by (simp add: built_source_def memory_source_cursor)

text \<open>What \<open>Merge\<close> makes of two built stores, and what a context that loads the file has.\<close>

lemma merge_built_sources:
  assumes b1: "saved_build l f32_ratio scores s1 r1" and b2: "saved_build l f32_ratio scores s2 r2"
    and m: "mergeable l s1 s2" and j: "joinable s1 s2"
    and x1: "BuildIndexData l f32_ratio scores s1 = Some x1" and x2: "BuildIndexData l f32_ratio scores s2 = Some x2"
    and base: "built_source x1 r1 base" and delta: "built_source x2 r2 delta"
  obtains data x r blocks where "Merge f32_average base (Some delta) = Some (Inr data)" "LoadFromBytes decode data = Inr x"
    "x_BlockTable x = built_table r" "built_ok l (merged_store s1 s2) r blocks" "built_fits r"
    "0 < IFH_NumDocuments (x_Header x)"
    "\<And>d. same_answer (index_docs x) [built_doc_table scores s1, built_doc_table scores s2] d"
proof -
  let ?D = "store_dirs s1 \<union> store_dirs s2"
  have s: "store_buildable l s1" "store_savable s1" "store_buildable l s2" "store_savable s2"
    and r: "BuildBlocks l s1 = Some r1" "built_fits r1" "BuildBlocks l s2 = Some r2" "built_fits r2"
    using b1 b2 by (auto simp: saved_build_def)
  from BuildBlocks_built [OF s(1)] r(1,2) obtain bl1 where ok1: "built_ok l s1 r1 bl1" by auto
  from BuildBlocks_built [OF s(3)] r(3,4) obtain bl2 where ok2: "built_ok l s2 r2 bl2" by auto
  have jn: "m_DocStats s1 \<noteq> []" "m_DocStats s2 \<noteq> []" "StoreFirstDocId s1 = 0" "StoreFirstDocId s2 = StoreDocDataRecordCount s1"
    "\<forall>st \<in> snd ` set (m_DocStats s1). path st \<noteq> [] \<longrightarrow> plain_path (path st)"
    "\<forall>st \<in> snd ` set (m_DocStats s2). path st \<noteq> [] \<longrightarrow> plain_path (path st)" "dirs_fit ?D"
    using j by (auto simp: joinable_def)
  note d1 = built_docs_ok [OF s(2) x1 jn(1,5,7)] and d2 = built_docs_ok [OF s(4) x2 jn(2,6,7)]
  have docs: "docs_ok ?D base" "docs_ok ?D delta" using d1(1) d2(1) base delta by (simp_all add: docs_ok_def built_source_def)
  have first: "s_Built base" "first_doc_of base = 0" "s_Built delta" "first_doc_of delta = IFH_NumDocuments (x_Header base)"
    and cursors: "source_cursor base = built_view r1" "source_cursor delta = built_view r2"
    using d1(2,3) d2(2) jn(3,4) base delta by (simp_all add: built_source_def)
  obtain data x r blocks where
    x: "Merge f32_average base (Some delta) = Some (Inr data)" "LoadFromBytes decode data = Inr x"
    "x_BlockTable x = built_table r" "built_ok l (merged_store s1 s2) r blocks" "built_fits r"
    "IFH_NumDocuments (x_Header x) = IFH_NumDocuments (x_Header base) + IFH_NumDocuments (x_Header delta)"
    "\<And>d. same_answer (index_docs x) [index_docs base, index_docs delta] d"
    by (rule Merge_built [OF ok1 r(2) ok2 r(4) m first(1) cursors(1) docs(1) first(2,3)
        cursors(2) docs(2) first(4) jn(7)]) blast
  have "unat (IFH_NumDocuments (x_Header x)) = doc_count x1 + doc_count x2" "0 < doc_count x1"
    using d1(1) d2(1) x(6) base delta by (simp_all add: docs_ok_def unat_word_ariths built_source_def)
  then have "0 < IFH_NumDocuments (x_Header x)" by (simp add: word_less_nat_alt)
  moreover have "index_docs base = built_doc_table scores s1" "index_docs delta = built_doc_table scores s2"
    using d1(4) d2(4) base delta by (simp_all add: index_docs_def built_source_def)
  ultimately show ?thesis using that [OF x(1-5)] x(7) by simp
qed

lemma merge_built_stores:
  assumes b1: "saved_build l f32_ratio scores s1 r1" and b2: "saved_build l f32_ratio scores s2 r2"
    and m: "mergeable l s1 s2" and j: "joinable s1 s2"
  obtains x1 x2 data x r blocks where "BuildIndexData l f32_ratio scores s1 = Some x1" "BuildIndexData l f32_ratio scores s2 = Some x2"
    "Merge f32_average (memory_source x1 c1) (Some (memory_source x2 c2)) = Some (Inr data)" "LoadFromBytes decode data = Inr x"
    "x_BlockTable x = built_table r" "built_ok l (merged_store s1 s2) r blocks" "built_fits r"
    "0 < IFH_NumDocuments (x_Header x)"
    "\<And>d. same_answer (index_docs x) [built_doc_table scores s1, built_doc_table scores s2] d"
proof -
  have fits: "built_fits r1" "built_fits r2" using b1 b2 by (auto simp: saved_build_def)
  from b1 obtain x1 where x1: "BuildIndexData l f32_ratio scores s1 = Some x1" "x_BlockTable x1 = built_table r1"
    by (rule save_built) blast
  from b2 obtain x2 where x2: "BuildIndexData l f32_ratio scores s2 = Some x2" "x_BlockTable x2 = built_table r2"
    by (rule save_built) blast
  note sources = built_source_memory [OF x1(2) fits(1), of c1] built_source_memory [OF x2(2) fits(2), of c2]
  show ?thesis by (rule merge_built_sources [OF b1 b2 m j x1(1) x2(1) sources]) (rule that [OF x1(1) x2(1)]; blast)
qed

text \<open>
  C18. Merging an index with its delta loses no posting: for two stores whose indexes were built and
  that can be merged and joined, \<open>Merge\<close> returns a file that \<open>LoadFromBytes\<close> accepts, and a reader that the
  loading context opens on any key without NUL shows, under every sequence of \<open>GoNext\<close> and \<open>GoUntil\<close>,
  exactly the postings of the first store followed by those of the second. \<open>mergeable\<close>: every frequency
  byte is below 128 (at most 249 occurrences of a key in a document), the joined list of a key fits the
  scratch space of 2000 pages and the pages can be numbered. \<open>joinable\<close>: both stores have documents, the
  ids of the first start at 0 and those of the second follow at once, the paths come back from the
  document table and the directories fit it. Outside of these conditions the code loses postings or
  refuses (\<open>split_inside_pair\<close>, \<open>offset_ids_rejected\<close>).
\<close>

theorem Merge_reads:
  assumes "saved_build l f32_ratio scores s1 r1" and "saved_build l f32_ratio scores s2 r2"
    and "mergeable l s1 s2" and "joinable s1 s2" and key: "0 \<notin> set key"
  shows "\<exists>x1 x2 data x rd. BuildIndexData l f32_ratio scores s1 = Some x1 \<and> BuildIndexData l f32_ratio scores s2 = Some x2 \<and>
    Merge f32_average (memory_source x1 c1) (Some (memory_source x2 c2)) = Some (Inr data) \<and> LoadFromBytes decode data = Inr x \<and>
    adv_Open (leaf_fetch (x_BlockTable x) c) (index_fetch (x_BlockTable x) c) (x_BlockTable x)
      (IFH_NumDocuments (x_Header x)) True key = Some rd \<and>
    (\<forall>ops. adv_current (fold (adv_op (index_fetch (x_BlockTable x) c)) ops rd) =
      list_current (fold list_op ops (store_pairs l s1 key @ store_pairs l s2 key)))"
proof -
  obtain x1 x2 data x r blocks where x: "BuildIndexData l f32_ratio scores s1 = Some x1" "BuildIndexData l f32_ratio scores s2 = Some x2"
    "Merge f32_average (memory_source x1 c1) (Some (memory_source x2 c2)) = Some (Inr data)" "LoadFromBytes decode data = Inr x"
    "x_BlockTable x = built_table r" and r: "built_ok l (merged_store s1 s2) r blocks" "built_fits r" "0 < IFH_NumDocuments (x_Header x)"
    by (rule merge_built_stores [OF assms(1-4)]) blast
  note s = merged_store_dict [OF assms(3)]
  from adv_Open_built_ok [OF r(1) s(2) r(2) key r(3), of c] obtain rd where
    rd: "adv_Open (leaf_fetch (built_table r) c) (index_fetch (built_table r) c) (built_table r)
      (IFH_NumDocuments (x_Header x)) True key = Some rd" "adv_at (index_fetch (built_table r) c) rd (store_pairs l (merged_store s1 s2) key)" by blast
  from adv_at_current [OF adv_ops_at [OF rd(2) ascending_store_pairs [OF s(2)]]]
  show ?thesis using x rd(1) s(3) by (intro exI [of _ x1] exI [of _ x2] exI [of _ data] exI [of _ x] exI [of _ rd]) simp
qed

lemma stats_fields_same:
  assumes "stats_fields sc s d st rec" and "same_fields rec rec'"
  shows "stats_fields sc s d st rec'"
proof -
  have "subslice DOC_VECTOR_OFFSET (DOC_VECTOR_OFFSET + DOC_VECTOR_DIM) rec' = subslice DOC_VECTOR_OFFSET (DOC_VECTOR_OFFSET + DOC_VECTOR_DIM) rec"
    by (rule same_slice [OF assms(2)]) (simp add: DOC_VECTOR_OFFSET_def DOC_VECTOR_DIM_def DOC_PATH_OFFSET_def)
  then show ?thesis
    using assms(1) same_int [OF assms(2)]
    by (simp add: stats_fields_def DOC_PATH_OFFSET_def split: option.split_asm option.split)
qed

text \<open>The index shows the document \<open>d\<close> of the store \<open>s\<close>.\<close>

definition shows_document :: "(DocStats \<Rightarrow> doc_scores) \<Rightarrow> doc_table \<Rightarrow> PostingStore \<Rightarrow> u64 \<Rightarrow> DocStats \<Rightarrow> bool" where
  "shows_document scores t s d st \<longleftrightarrow>
     (\<exists>rec. GetDocDataEntry [t] d = Some rec \<and> stats_fields (scores st) s d st rec) \<and> ctx_GetDocPath [t] d = path st"

lemma same_answer_document:
  assumes ok: "store_savable s" and d: "(d, st) \<in> set (m_DocStats s)" and plain: "path st \<noteq> [] \<longrightarrow> plain_path (path st)"
    and D: "dirs_fit D" "store_dirs s \<subseteq> D" and m: "same_answer m (before @ built_doc_table scores s # after) d"
    and others: "find_in_tables before d = None" "find_in_tables after d = None"
  shows "shows_document scores m s d st"
proof -
  have dok: "docdata_store_ok s" using ok by (simp add: store_savable_def)
  then have "unat d < 2 ^ 32" using d by (force simp: docdata_store_ok_def)
  note id = id_value [OF this]
  from find_record_built(1) [OF dok d, of scores] obtain rec pt where
    r: "find_record (built_doc_table scores s) d = Some rec" "encoded scores s (d, st) rec pt"
      "dt_PathPrefixes (built_doc_table scores s) = pt_prefixes pt" by blast
  note shown = encoded_shown [OF r(2) d plain D]
  have skip: "find_in_tables (before @ ts) d = find_in_tables ts d \<and> path_in_tables (before @ ts) d = path_in_tables ts d" for ts
    using others(1) by (induction before) (auto split: option.splits)
  let ?ts = "built_doc_table scores s # after"
  have "find_in_tables ?ts d = Some rec" "path_in_tables ?ts d = path st"
    using r(1) path_in_tables_shown(1) [OF r(1) others(2)] shown(1,2) r(3) by (simp_all add: shown_path_short del: path_in_tables.simps)
  then obtain rec' where "find_in_tables [m] d = Some rec'" "same_fields rec rec'" "path_in_tables [m] d = path st"
    using m skip [of ?ts] by (auto simp: same_answer_def simp del: find_in_tables.simps path_in_tables.simps)
  then show ?thesis
    using stats_fields_same [OF encoded_fields(2) [OF dok r(2)]]
    by (auto simp: shows_document_def GetDocDataEntry_def ctx_GetDocPath_def id simp del: find_in_tables.simps path_in_tables.simps)
qed

text \<open>
  C23. Merging keeps the documents: under the same conditions as for the postings, the loaded file answers
  for exactly the documents of both stores, each with its id, stream lengths, vector and path, although
  the directories were numbered anew. The paths are those that the document table can hold
  (\<open>plain_path\<close>: a file name of at most 62 bytes of UTF-8 that, with the directory, gives the path again).
\<close>

theorem Merge_documents:
  assumes "saved_build l f32_ratio scores s1 r1" and "saved_build l f32_ratio scores s2 r2"
    and "mergeable l s1 s2" and "joinable s1 s2" and d: "unat d < 2 ^ 32"
  shows "\<exists>x1 x2 data x. BuildIndexData l f32_ratio scores s1 = Some x1 \<and> BuildIndexData l f32_ratio scores s2 = Some x2 \<and>
    Merge f32_average (memory_source x1 c1) (Some (memory_source x2 c2)) = Some (Inr data) \<and> LoadFromBytes decode data = Inr x \<and>
    (case (map_of (m_DocStats s1) d, map_of (m_DocStats s2) d) of
       (Some st, _) \<Rightarrow> shows_document scores (index_docs x) s1 d st
     | (None, Some st) \<Rightarrow> shows_document scores (index_docs x) s2 d st
     | (None, None) \<Rightarrow> GetDocDataEntry [index_docs x] d = None)"
proof -
  obtain x1 x2 data x where x: "BuildIndexData l f32_ratio scores s1 = Some x1" "BuildIndexData l f32_ratio scores s2 = Some x2"
    "Merge f32_average (memory_source x1 c1) (Some (memory_source x2 c2)) = Some (Inr data)" "LoadFromBytes decode data = Inr x"
    and same: "same_answer (index_docs x) [built_doc_table scores s1, built_doc_table scores s2] d"
    by (rule merge_built_stores [OF assms(1-4)]) blast
  have s: "store_savable s1" "store_savable s2" using assms(1,2) by (auto simp: saved_build_def)
  then have dok: "docdata_store_ok s1" "docdata_store_ok s2" by (auto simp: store_savable_def)
  have D: "dirs_fit (store_dirs s1 \<union> store_dirs s2)" and first: "StoreFirstDocId s1 = 0" "StoreFirstDocId s2 = StoreDocDataRecordCount s1"
    using assms(4) by (auto simp: joinable_def)
  have plain: "path st \<noteq> [] \<longrightarrow> plain_path (path st)" if "(d, st) \<in> set (m_DocStats s1) \<union> set (m_DocStats s2)" for st
    using assms(4) that unfolding joinable_def by (metis (no_types, lifting) Un_iff image_eqI set_append snd_conv)
  have apart: "d \<notin> fst ` set (m_DocStats s2)" if "d \<in> fst ` set (m_DocStats s1)"
  proof
    assume "d \<in> fst ` set (m_DocStats s2)"
    from record_slot(1) [OF dok(2) this] record_slot(2) [OF dok(1) that] first show False by (simp add: word_le_nat_alt)
  qed
  have none: "find_in_tables [built_doc_table scores s] d = None" if "docdata_store_ok s" "d \<notin> fst ` set (m_DocStats s)" for s
    using find_record_built(2) [OF that] by simp
  have "case (map_of (m_DocStats s1) d, map_of (m_DocStats s2) d) of
       (Some st, _) \<Rightarrow> shows_document scores (index_docs x) s1 d st
     | (None, Some st) \<Rightarrow> shows_document scores (index_docs x) s2 d st
     | (None, None) \<Rightarrow> GetDocDataEntry [index_docs x] d = None"
  proof (cases "map_of (m_DocStats s1) d")
    case (Some st)
    then have st: "(d, st) \<in> set (m_DocStats s1)" by (rule map_of_SomeD)
    then have "d \<notin> fst ` set (m_DocStats s2)" using apart by force
    from same_answer_document [OF s(1) st plain D _ _ _ none [OF dok(2) this], of "index_docs x" "[]" scores] same st Some
    show ?thesis by simp
  next
    case out1: None
    then have "d \<notin> fst ` set (m_DocStats s1)" by (simp add: map_of_eq_None_iff)
    note n1 = none [OF dok(1) this]
    show ?thesis
    proof (cases "map_of (m_DocStats s2) d")
      case (Some st)
      then have st: "(d, st) \<in> set (m_DocStats s2)" by (rule map_of_SomeD)
      from same_answer_document [OF s(2) st plain D _ _ n1, of "index_docs x" scores "[]"] same st Some out1
      show ?thesis by simp
    next
      case None
      then have "d \<notin> fst ` set (m_DocStats s2)" by (simp add: map_of_eq_None_iff)
      from none [OF dok(2) this] n1 same have "find_in_tables [index_docs x] d = None"
        by (auto simp: same_answer_def split: option.split_asm)
      then show ?thesis using None out1 by (simp add: GetDocDataEntry_def id_value [OF d])
    qed
  qed
  with x show ?thesis by blast
qed

subsection \<open>Two documents\<close>

text \<open>A store with the word \<open>demo_key\<close> in the document \<open>d\<close>.\<close>

definition one_list :: "u64 \<Rightarrow> PostingList" where
  "one_list d = \<lparr>entries = [\<lparr>ie_doc_id = d, ie_term_frequency = 1\<rparr>]\<rparr>"

definition one_store :: "u64 \<Rightarrow> PostingStore" where
  "one_store d = SetDocPath d (str ''a/b'') (AddDocTokens d 1 (AddPosting demo_key d 1 PostingStore_new))"

lemma one_store_parts: "m_Postings (one_store d) = [(demo_key, one_list d)]"
  "m_DocStats (one_store d) = [(d, DocStats_default\<lparr>doc_len := 1, path := str ''a/b''\<rparr>)]" "m_DocVectors (one_store d) = []"
  by (simp_all add: one_store_def SetDocPath_def AddDocTokens_def upd_stats_def AddPosting_def PostingStore_new_def
      entry_or_def DocStats_default_def PostingList_default_def one_list_def)

lemma one_list_bytes: "d = 0 \<or> d = 1 \<or> d = 2 \<Longrightarrow> get_bytes demo_log2 (one_list d) = [ucast d, 32]"
proof -
  assume "d = 0 \<or> d = 1 \<or> d = 2"
  then have "vb_write d = [ucast d]" by (subst vb_write.simps) auto
  moreover have "\<lfloor>65 / 2 :: rat\<rfloor> = 32" by (simp add: floor_eq_iff)
  ultimately show ?thesis
    by (simp add: get_bytes_def encode_def encode_entry_def one_list_def tf8_encode_def round_half_away_def)
qed

lemma one_list_pairs: "posting_pairs demo_log2 (entries (one_list d)) = [(d, 32)]"
proof -
  have "\<lfloor>65 / 2 :: rat\<rfloor> = 32" by (simp add: floor_eq_iff)
  then show ?thesis by (simp add: posting_pairs_def one_list_def tf8_encode_def round_half_away_def)
qed

lemma one_store_wf: "store_wf (one_store d)"
  unfolding one_store_def SetDocPath_def by (intro wf_intro)

lemma one_store_built:
  assumes "d = 0 \<or> d = 1 \<or> d = 2"
  shows "\<exists>r. BuildBlocks demo_log2 (one_store d) = Some r \<and> length (BBR_IndexBlocks r) = 1 \<and> length (BBR_LeafTermBlocks r) = 1"
proof -
  have place: "place_posting [ucast d, 32] index_build_new = (Some (0, 0, 2, 0), write_bytes [ucast d, 32] index_build_new)"
    using assms
    by (auto simp: place_posting_def index_build_new_def PostingPrefixBytes_def prefix_loop.simps
        ReadVbcPairEnd_def vb_skip.simps PAGE_SIZE_def)
  have short: "\<not> HEAD_TERM_KEY_MAX < length demo_key" by (simp add: demo_key_def HEAD_TERM_KEY_MAX_def)
  obtain lb where lb: "add_leaf_entry (leaf_entry_of demo_key (one_list d) (0, 0, 2, 0)) leaf_build_new = Some lb"
    "lb_entry_count lb = 1" "lb_blocks lb = []" "lb_first_term lb = demo_key"
    using short by (simp add: add_leaf_entry_def leaf_build_new_def leaf_entry_of_def Let_def)
  have "build_terms demo_log2 [(demo_key, one_list d)] (index_build_new, leaf_build_new, 0) =
      Some (write_bytes [ucast d, 32] index_build_new, lb, 1)"
    using short lb(1) by (simp add: one_list_bytes [OF assms] place)
  then show ?thesis
    using lb(2-4) short
    by (simp add: BuildBlocks_def one_store_parts flush_leaf_block_def HeadTermEntry_new_def Let_def
        write_bytes_def index_build_new_def flush_index_block_def)
qed

lemma one_store_saved:
  assumes d: "d = 0 \<or> d = 1 \<or> d = 2"
  obtains r where "saved_build demo_log2 f32_ratio scores (one_store d) r"
proof -
  from one_store_built [OF d] obtain r where r: "BuildBlocks demo_log2 (one_store d) = Some r" "built_fits r"
    by (auto simp: built_fits_def)
  have full: "str ''a/b'' = str ''a'' @ [0x2F] @ str ''b''" by (simp add: str_simps)
  have "split_path_for_sidecar (str ''a'' @ [0x2F] @ str ''b'') = (str ''a'', str ''b'')"
    by (rule plain_path_slash) (simp_all add: str_simps is_path_sep_def)
  then have dirs: "store_dirs (one_store d) = {str ''a''}" by (auto simp: store_dirs_def one_store_parts full)
  have "docdata_store_ok (one_store d)" using d by (auto simp: docdata_store_ok_def one_store_parts GetDocVector_def)
  moreover have "store_buildable demo_log2 (one_store d)"
    using one_store_wf one_list_bytes [OF d] by (simp add: store_buildable_def one_store_parts demo_key_def)
  ultimately show ?thesis
    using that r dirs by (simp add: saved_build_def store_savable_def str_simps)
qed

lemma one_stores_join: "joinable (one_store 0) (one_store 1)" "mergeable demo_log2 (one_store 0) (one_store 1)"
proof -
  have full: "str ''a/b'' = str ''a'' @ [0x2F] @ str ''b''" by (simp add: str_simps)
  have split: "split_path_for_sidecar (str ''a'' @ [0x2F] @ str ''b'') = (str ''a'', str ''b'')"
    and plain: "plain_path (str ''a'' @ [0x2F] @ str ''b'')"
    by (rule plain_path_slash; simp add: str_simps is_path_sep_def DOC_PATH_FILENAME_MAX_def DOC_PATH_MAX_def)+
  then have dirs: "store_dirs (one_store d) = {str ''a''}" for d by (auto simp: store_dirs_def one_store_parts full)
  show "joinable (one_store 0) (one_store 1)"
    using plain by (simp add: joinable_def one_store_parts dirs dirs_fit_def StoreFirstDocId_def StoreDocDataRecordCount_def
        full path_prefix_sidecar_can_hold_def PATH_PREFIX_SIDECAR_BYTES_def PAGE_SIZE_def) (simp add: str_simps)
  have terms: "dict_terms (one_store d) = [(demo_key, one_list d)]" for d
    by (simp add: dict_terms_def one_store_parts kept_def demo_key_def HEAD_TERM_KEY_MAX_def one_list_def doc_freq_def)
  have pairs: "store_pairs demo_log2 (one_store d) key = (if key = demo_key then [(d, 32)] else [])" for d key
    by (simp add: store_pairs_dict [OF one_store_wf] terms term_pairs_def one_list_pairs)
  have bytes: "length (pairs_bytes [(0 :: u64, 32), (1, 32)]) = 4" by (simp add: pair_bytes_def vb_write.simps)
  have "page_bound demo_log2 (merge_terms (dict_terms (one_store 0)) (dict_terms (one_store 1))) < 2 ^ 32"
    by (simp add: terms page_bound_def get_bytes_append one_list_bytes [of 0, simplified] one_list_bytes [of 1, simplified])
  then show "mergeable demo_log2 (one_store 0) (one_store 1)"
    using one_store_wf bytes
    by (auto simp: mergeable_def pairs Let_def small_tf_def POSTING_SCRATCH_BYTES_def PAGE_SIZE_def)
qed

lemma demo_merged_pairs: "store_pairs demo_log2 (one_store d) demo_key = [(d, 32)]"
  by (simp add: store_pairs_def one_store_parts kept_def demo_key_def HEAD_TERM_KEY_MAX_def one_list_pairs)
    (simp add: one_list_def)

text \<open>A reader on the merged file finds the word in both documents; the path of the second is kept.\<close>

theorem Merge_reads_witness:
  "\<exists>x1 x2 data x rd. BuildIndexData demo_log2 (\<lambda>_ _. 0) zero_scores (one_store 0) = Some x1 \<and>
     BuildIndexData demo_log2 (\<lambda>_ _. 0) zero_scores (one_store 1) = Some x2 \<and>
     Merge (\<lambda>_ _ _ _. 0) (memory_source x1 counters0) (Some (memory_source x2 counters0)) = Some (Inr data) \<and>
     LoadFromBytes (\<lambda>_. 0) data = Inr x \<and>
     adv_Open (leaf_fetch (x_BlockTable x) counters0) (index_fetch (x_BlockTable x) counters0) (x_BlockTable x)
       (IFH_NumDocuments (x_Header x)) True demo_key = Some rd \<and>
     adv_current rd = Some (0, 32) \<and> adv_current (adv_GoNext (index_fetch (x_BlockTable x) counters0) rd) = Some (1, 32)"
proof -
  obtain r1 where b1: "saved_build demo_log2 (\<lambda>_ _. 0) zero_scores (one_store 0) r1"
    using one_store_saved [of 0] by blast
  obtain r2 where b2: "saved_build demo_log2 (\<lambda>_ _. 0) zero_scores (one_store 1) r2"
    using one_store_saved [of 1] by blast
  have key: "0 \<notin> set demo_key" by (simp add: demo_key_def)
  from Merge_reads [OF b1 b2 one_stores_join(2,1) key, of "\<lambda>_ _ _ _. 0" counters0 counters0 "\<lambda>_. 0" counters0]
  obtain x1 x2 data x rd where x: "BuildIndexData demo_log2 (\<lambda>_ _. 0) zero_scores (one_store 0) = Some x1"
     "BuildIndexData demo_log2 (\<lambda>_ _. 0) zero_scores (one_store 1) = Some x2"
     "Merge (\<lambda>_ _ _ _. 0) (memory_source x1 counters0) (Some (memory_source x2 counters0)) = Some (Inr data)"
     "LoadFromBytes (\<lambda>_. 0) data = Inr x"
     "adv_Open (leaf_fetch (x_BlockTable x) counters0) (index_fetch (x_BlockTable x) counters0) (x_BlockTable x)
       (IFH_NumDocuments (x_Header x)) True demo_key = Some rd"
    and ops: "\<forall>ops. adv_current (fold (adv_op (index_fetch (x_BlockTable x) counters0)) ops rd) =
      list_current (fold list_op ops ([(0, 32)] @ [(1, 32)]))"
    unfolding demo_merged_pairs by blast
  from ops [rule_format, of "[]"] ops [rule_format, of "[Next]"] x
  show ?thesis by (auto simp: list_current_def)
qed

theorem Merge_documents_witness:
  "\<exists>x1 x2 data x. BuildIndexData demo_log2 (\<lambda>_ _. 0) zero_scores (one_store 0) = Some x1 \<and>
     BuildIndexData demo_log2 (\<lambda>_ _. 0) zero_scores (one_store 1) = Some x2 \<and>
     Merge (\<lambda>_ _ _ _. 0) (memory_source x1 counters0) (Some (memory_source x2 counters0)) = Some (Inr data) \<and>
     LoadFromBytes (\<lambda>_. 0) data = Inr x \<and> ctx_GetDocPath [index_docs x] 1 = str ''a/b''"
proof -
  obtain r1 where b1: "saved_build demo_log2 (\<lambda>_ _. 0) zero_scores (one_store 0) r1"
    using one_store_saved [of 0] by blast
  obtain r2 where b2: "saved_build demo_log2 (\<lambda>_ _. 0) zero_scores (one_store 1) r2"
    using one_store_saved [of 1] by blast
  from Merge_documents [OF b1 b2 one_stores_join(2,1), of 1 "\<lambda>_ _ _ _. 0" counters0 counters0 "\<lambda>_. 0"]
  show ?thesis by (auto simp: one_store_parts shows_document_def)
qed

text \<open>
  An index whose ids do not start at 0 cannot be merged: the ids of its delta were allocated after its
  last id, while \<open>Merge\<close> expects them to start at its number of records.
\<close>

lemma offset_ids_rejected:
  assumes "s_Built base" "x_DocData base \<noteq> []" "s_Built delta" "x_DocData delta \<noteq> []" "source_docs delta > 0"
    and "first_doc_of delta = first_doc_of base + source_docs base" "first_doc_of base \<noteq> 0"
  shows "Merge f32_average base (Some delta) = Some (Inl InvalidFormat)"
  using assms by (simp add: Merge_def source_docs_def Let_def)

end
