(* ===== verification/FileAccess.thy ===== *)
theory FileAccess
  imports Prelude
begin

text \<open>
  Open files and files of blocks: \<open>Utils/FileAccess.rs\<close> and \<open>IndexAccess/FileBlockManager.rs\<close>.

  An open file is its bytes, the cursor of the operating system and the mode in which it was opened:
  \<open>Init\<close> opens for reading only, \<open>InitWrite\<close> for reading and writing. It is a regular file without
  failures of the device, at positions the operating system can address: \<open>read_at\<close> delivers the bytes
  that exist, \<open>write\<close> fails on a file opened for reading only and otherwise writes all it is given at the
  cursor and moves it, \<open>seek\<close> sets it. A \<open>FileAccess\<close> keeps a position of its own (\<open>m_Position\<close>) beside that cursor.
  The counters of reads are left out, and so is the branch for the browser.

  The theorems: a file of blocks opened for writing behaves as an array of blocks, one opened for reading
  refuses every write, and a stream that is written and read back from the same position is what was
  written.
\<close>

subsection \<open>An open file\<close>

record os_file =
  f_Content :: bytes
  f_Cursor :: nat
  f_Writable :: bool

definition read_at :: "nat \<Rightarrow> nat \<Rightarrow> bytes \<Rightarrow> bytes" where
  "read_at position n content = take n (drop position content)"

text \<open>Writing past the end fills the gap with zeros.\<close>

definition write_at :: "nat \<Rightarrow> bytes \<Rightarrow> bytes \<Rightarrow> bytes" where
  "write_at position data content =
     (if data = [] then content
      else take position content @ replicate (position - length content) 0 @ data @ drop (position + length data) content)"

definition os_write :: "bytes \<Rightarrow> os_file \<Rightarrow> os_file" where
  "os_write data f =
     f\<lparr>f_Content := write_at (f_Cursor f) data (f_Content f), f_Cursor := f_Cursor f + length data\<rparr>"

definition os_seek :: "nat \<Rightarrow> os_file \<Rightarrow> os_file" where
  "os_seek position f = f\<lparr>f_Cursor := position\<rparr>"

subsection \<open>FileAccess\<close>

record FileAccess =
  m_FileHandle :: "os_file option"
  m_Position :: u64

definition FileAccess_new :: FileAccess where
  "FileAccess_new = \<lparr>m_FileHandle = None, m_Position = 0\<rparr>"

text \<open>\<open>file\<close> is what the path names, if anything; \<open>File::open\<close> opens it for reading only.\<close>

definition fa_Init :: "bytes option \<Rightarrow> FileAccess \<Rightarrow> bool \<times> FileAccess" where
  "fa_Init file fa =
     (case file of
        None \<Rightarrow> (False, fa)
      | Some content \<Rightarrow> (True, fa\<lparr>m_FileHandle := Some \<lparr>f_Content = content, f_Cursor = 0, f_Writable = False\<rparr>\<rparr>))"

text \<open>\<open>create(true)\<close>: a path that names nothing becomes an empty file; \<open>None\<close> is a path that cannot be opened.\<close>

definition fa_InitWrite :: "bytes option option \<Rightarrow> bool \<Rightarrow> FileAccess \<Rightarrow> bool \<times> FileAccess" where
  "fa_InitWrite file from_empty fa =
     (case file of
        None \<Rightarrow> (False, fa)
      | Some existing \<Rightarrow>
          let content = (case existing of None \<Rightarrow> [] | Some c \<Rightarrow> if from_empty then [] else c)
          in (True, fa\<lparr>m_FileHandle := Some \<lparr>f_Content = content, f_Cursor = 0, f_Writable = True\<rparr>\<rparr>))"

text \<open>The count of bytes that were read, or -1, and those bytes.\<close>

definition ReadAt :: "u64 \<Rightarrow> nat \<Rightarrow> FileAccess \<Rightarrow> i32 \<times> bytes" where
  "ReadAt position n fa =
     (case m_FileHandle fa of
        None \<Rightarrow> (-1, [])
      | Some f \<Rightarrow> let r = read_at (unat position) n (f_Content f) in (word_of_nat (length r), r))"

definition GetData :: "bytes \<Rightarrow> i32 \<Rightarrow> FileAccess \<Rightarrow> i32 \<times> bytes \<times> FileAccess" where
  "GetData buffer numBytes fa =
     (if numBytes <s 0 then (-1, buffer, fa)
      else let requested = min (unat numBytes) (length buffer);
               (count, r) = ReadAt (m_Position fa) requested fa
           in (count, put 0 r buffer,
               if 0 <s count then fa\<lparr>m_Position := m_Position fa + scast count\<rparr> else fa))"

text \<open>
  \<open>PutData\<close> writes at the cursor, in pieces of at most \<open>i32::MAX\<close> bytes; on a file opened for reading
  only the first write fails.
\<close>

function write_pieces :: "nat \<Rightarrow> bytes \<Rightarrow> os_file \<Rightarrow> os_file" where
  "write_pieces offset buffer f =
     (if offset < length buffer then
        let stop = min (offset + 2147483647) (length buffer)
        in write_pieces stop buffer (os_write (subslice offset stop buffer) f)
      else f)"
  by pat_completeness auto
termination by (relation "measure (\<lambda>(offset, buffer, f). length buffer - offset)") auto

declare write_pieces.simps [simp del]

definition PutData :: "bytes \<Rightarrow> FileAccess \<Rightarrow> bool \<times> FileAccess" where
  "PutData buffer fa =
     (if buffer = [] then (True, fa)
      else case m_FileHandle fa of
        None \<Rightarrow> (False, fa)
      | Some f \<Rightarrow>
          if \<not> f_Writable f then (False, fa)
          else (True, fa\<lparr>m_FileHandle := Some (write_pieces 0 buffer f),
                         m_Position := m_Position fa + word_of_nat (length buffer)\<rparr>))"

definition ReadBlock :: "u32 \<Rightarrow> bytes \<Rightarrow> nat \<Rightarrow> u64 \<Rightarrow> FileAccess \<Rightarrow> bool \<times> bytes" where
  "ReadBlock block_seq buffer block_size base_byte_offset fa =
     (if block_size > length buffer then (False, buffer)
      else let position = base_byte_offset + ucast block_seq * word_of_nat block_size;
               (count, r) = ReadAt position block_size fa
           in (count = word_of_nat block_size, put 0 r buffer))"

definition WriteBlock :: "u32 \<Rightarrow> bytes \<Rightarrow> nat \<Rightarrow> FileAccess \<Rightarrow> bool \<times> FileAccess" where
  "WriteBlock block_seq buffer block_size fa =
     (if block_size > length buffer then (False, fa)
      else let position = ucast block_seq * word_of_nat block_size :: u64
           in case m_FileHandle fa of
                None \<Rightarrow> (False, fa)
              | Some f \<Rightarrow>
                  let f = os_seek (unat position) f
                  in if \<not> f_Writable f then (False, fa\<lparr>m_FileHandle := Some f\<rparr>)
                     else (True, fa\<lparr>m_FileHandle := Some (os_write (take block_size buffer) f)\<rparr>))"

definition SetPosition :: "u64 \<Rightarrow> FileAccess \<Rightarrow> bool \<times> FileAccess" where
  "SetPosition position fa =
     (let fa = fa\<lparr>m_Position := position\<rparr>
      in case m_FileHandle fa of
           None \<Rightarrow> (False, fa)
         | Some f \<Rightarrow> (True, fa\<lparr>m_FileHandle := Some (os_seek (unat position) f)\<rparr>))"

subsection \<open>FileBlockManager\<close>

record FileBlockManager =
  m_FileAccess :: "FileAccess option"
  m_BlockSize :: nat
  m_BaseOffset :: u64
  m_Memory :: "bytes option"

definition FileBlockManager_new :: "nat \<Rightarrow> u64 \<Rightarrow> FileBlockManager" where
  "FileBlockManager_new block_size base_offset =
     \<lparr>m_FileAccess = None, m_BlockSize = block_size, m_BaseOffset = base_offset, m_Memory = None\<rparr>"

definition FileBlockManager_default :: FileBlockManager where
  "FileBlockManager_default = FileBlockManager_new 4096 0"

definition fbm_close :: "FileBlockManager \<Rightarrow> FileBlockManager" where
  "fbm_close m = m\<lparr>m_FileAccess := None, m_Memory := None\<rparr>"

definition fbm_open :: "bytes option \<Rightarrow> FileBlockManager \<Rightarrow> bool \<times> FileBlockManager" where
  "fbm_open file m =
     (let m = m\<lparr>m_Memory := None, m_FileAccess := None\<rparr>; (opened, fa) = fa_Init file FileAccess_new
      in if \<not> opened then (False, m) else (True, m\<lparr>m_FileAccess := Some fa\<rparr>))"

definition fbm_openWrite :: "bytes option option \<Rightarrow> FileBlockManager \<Rightarrow> bool \<times> FileBlockManager" where
  "fbm_openWrite file m =
     (let m = m\<lparr>m_Memory := None, m_FileAccess := None\<rparr>; (opened, fa) = fa_InitWrite file True FileAccess_new
      in if \<not> opened then (False, m) else (True, m\<lparr>m_FileAccess := Some fa\<rparr>))"

definition fbm_openMemory :: "bytes \<Rightarrow> FileBlockManager \<Rightarrow> bool \<times> FileBlockManager" where
  "fbm_openMemory memory m =
     (if length memory < m_BlockSize m then (False, m)
      else (True, m\<lparr>m_FileAccess := None, m_Memory := Some memory\<rparr>))"

definition fbm_read :: "u32 \<Rightarrow> bytes \<Rightarrow> FileBlockManager \<Rightarrow> bool \<times> bytes" where
  "fbm_read block_seq buffer m =
     (if length buffer < m_BlockSize m then (False, buffer)
      else case m_Memory m of
        Some memory \<Rightarrow>
          let offset = unat block_seq * m_BlockSize m
          in if offset + m_BlockSize m > length memory then (False, buffer)
             else (True, put 0 (subslice offset (offset + m_BlockSize m) memory) buffer)
      | None \<Rightarrow>
          (case m_FileAccess m of
             None \<Rightarrow> (False, buffer)
           | Some fa \<Rightarrow> ReadBlock block_seq buffer (m_BlockSize m) (m_BaseOffset m) fa))"

definition fbm_write :: "u32 \<Rightarrow> bytes \<Rightarrow> FileBlockManager \<Rightarrow> bool \<times> FileBlockManager" where
  "fbm_write block_seq buffer m =
     (if length buffer < m_BlockSize m then (False, m)
      else case m_FileAccess m of
        None \<Rightarrow> (False, m)
      | Some fa \<Rightarrow> (case WriteBlock block_seq buffer (m_BlockSize m) fa of
          (written, fa) \<Rightarrow> (written, m\<lparr>m_FileAccess := Some fa\<rparr>)))"

subsection \<open>Reading what was written\<close>

lemma read_written: "read_at p (length d) (write_at p d c) = d"
  by (simp add: read_at_def write_at_def)

lemma read_untouched:
  assumes "length (read_at q n c) = n" and "q + n \<le> p \<or> p + length d \<le> q"
  shows "read_at q n (write_at p d c) = read_at q n c"
proof (cases "n = 0 \<or> d = []")
  case True
  then show ?thesis by (auto simp: read_at_def write_at_def)
next
  case False
  have fits: "q + n \<le> length c" using assms(1) False by (auto simp: read_at_def)
  from assms(2) show ?thesis
  proof
    assume before: "q + n \<le> p"
    have "take n (drop q (take p c @ rest)) = take n (drop q c)" for rest
    proof -
      have "take n (drop q (take p c)) = take n (drop q c)" using before by (simp add: drop_take min_def)
      moreover have "n \<le> length (drop q (take p c))" using fits before by simp
      ultimately show ?thesis using fits before by simp
    qed
    moreover obtain rest where "write_at p d c = take p c @ rest" using False by (auto simp: write_at_def)
    ultimately show ?thesis by (simp only: read_at_def)
  next
    assume "p + length d \<le> q"
    then show ?thesis using False fits by (simp add: read_at_def write_at_def)
  qed
qed

lemma os_write_append: "os_write b (os_write a f) = os_write (a @ b) f"
proof -
  have "write_at (p + length a) b (write_at p a c) = write_at p (a @ b) c" for p c
  proof (cases "p \<le> length c")
    case True
    then show ?thesis by (auto simp: write_at_def ac_simps)
  next
    case False
    then show ?thesis by (auto simp: write_at_def ac_simps)
  qed
  then show ?thesis by (simp add: os_write_def add.assoc)
qed

lemma write_pieces_all: "offset \<le> length buffer \<Longrightarrow> write_pieces offset buffer f = os_write (drop offset buffer) f"
proof (induction offset buffer f rule: write_pieces.induct)
  case (1 offset buffer f)
  show ?case
  proof (cases "offset < length buffer")
    case True
    let ?stop = "min (offset + 2147483647) (length buffer)"
    obtain k where k: "?stop = k + offset" using True by (metis add.commute le_Suc_ex min.bounded_iff le_add1 less_imp_le_nat)
    have "subslice offset ?stop buffer @ drop ?stop buffer = drop offset buffer"
      unfolding k subslice_def by (simp flip: drop_drop)
    then show ?thesis
      using True 1(1) [OF True refl] by (subst write_pieces.simps) (simp add: Let_def os_write_append)
  next
    case False
    then show ?thesis using 1(2) by (subst write_pieces.simps) (simp add: os_write_def write_at_def)
  qed
qed

subsection \<open>A file of blocks\<close>

lemma block_position:
  assumes "B < 2 ^ 31"
  shows "unat (ucast (s :: u32) * word_of_nat B :: u64) = unat s * B"
proof -
  have "unat s * B < 2 ^ 32 * 2 ^ 31" using unat_bound [of s] assms by (intro mult_strict_mono) simp_all
  moreover have "unat (word_of_nat B :: u64) = B" using assms by (simp add: unsigned_of_nat take_bit_nat_eq_self)
  moreover have "unat (ucast s :: u64) = unat s" by (rule unat_up)
  ultimately show ?thesis by (simp add: unat_mult_lem [THEN iffD1])
qed

lemma read_count:
  assumes "length r \<le> B" and "B < 2 ^ 31"
  shows "(word_of_nat (length r) :: i32) = word_of_nat B \<longleftrightarrow> length r = B"
  using assms by (simp add: word_unat_eq_iff unsigned_of_nat take_bit_nat_eq_self)

lemma fbm_read_file:
  assumes "m_Memory m = None" and "m_FileAccess m = Some fa" and "m_FileHandle fa = Some f" and "m_BaseOffset m = 0"
    and "m_BlockSize m < 2 ^ 31" and "length buffer = m_BlockSize m"
  shows "fbm_read s buffer m =
    (let r = read_at (unat s * m_BlockSize m) (m_BlockSize m) (f_Content f) in (length r = m_BlockSize m, put 0 r buffer))"
proof -
  let ?r = "read_at (unat s * m_BlockSize m) (m_BlockSize m) (f_Content f)"
  have "length ?r \<le> m_BlockSize m" by (simp add: read_at_def)
  from read_count [OF this assms(5)] show ?thesis
    using assms block_position [OF assms(5), of s] by (simp add: fbm_read_def ReadBlock_def ReadAt_def Let_def)
qed

text \<open>
  C37. A file of blocks is an array: through a manager whose file was opened for writing and whose base
  offset is zero every write of a block succeeds, reading the block then gives what was written, and
  every other block that could be read before reads the same, for any block numbers, also past the
  end of the file.
\<close>

theorem block_file_array:
  assumes "m_Memory m = None" and "m_FileAccess m = Some fa" and handle: "m_FileHandle fa = Some f" and writable: "f_Writable f"
    and "m_BaseOffset m = 0" and "m_BlockSize m < 2 ^ 31" and "m_BlockSize m \<le> length buffer" and buf: "length buffer' = m_BlockSize m"
    and "fbm_write s buffer m = (written, m')"
  shows "written \<and> fbm_read s buffer' m' = (True, take (m_BlockSize m) buffer) \<and>
    (\<forall>t x. t \<noteq> s \<longrightarrow> fbm_read t buffer' m = (True, x) \<longrightarrow> fbm_read t buffer' m' = (True, x))"
proof -
  let ?B = "m_BlockSize m" and ?d = "take (m_BlockSize m) buffer"
  note f = handle
  define f' where "f' = os_write ?d (os_seek (unat s * ?B) f)"
  let ?m' = "m\<lparr>m_FileAccess := Some (fa\<lparr>m_FileHandle := Some f'\<rparr>)\<rparr>"
  have w: "written" "m' = ?m'"
    using assms(2,6,7,9) f writable block_position [OF assms(6), of s]
    by (auto simp: fbm_write_def WriteBlock_def Let_def os_seek_def f'_def)
  have content: "f_Content f' = write_at (unat s * ?B) ?d (f_Content f)" by (simp add: f'_def os_write_def os_seek_def)
  have read': "fbm_read t buffer' m' = (let r = read_at (unat t * ?B) ?B (f_Content f') in (length r = ?B, put 0 r buffer'))" for t
    using fbm_read_file [of m' _ f' buffer'] assms w(2) buf by simp
  have len: "length ?d = ?B" using assms(7) by simp
  have "read_at (unat s * ?B) ?B (f_Content f') = ?d"
    using read_written [of "unat s * ?B" ?d "f_Content f"] len unfolding content by simp
  then have same: "fbm_read s buffer' m' = (True, ?d)" using read' len buf by (simp add: put_def)
  have "fbm_read t buffer' m' = (True, x)" if t: "t \<noteq> s" "fbm_read t buffer' m = (True, x)" for t x
  proof -
    from t(2) have r: "length (read_at (unat t * ?B) ?B (f_Content f)) = ?B" "x = put 0 (read_at (unat t * ?B) ?B (f_Content f)) buffer'"
      using fbm_read_file [OF assms(1,2) f assms(5,6) buf] by (auto simp: Let_def)
    have "unat t < unat s \<or> unat s < unat t" using t(1) by (metis linorder_neqE_nat word_unat_eq_iff)
    then have "unat t * ?B + ?B \<le> unat s * ?B \<or> unat s * ?B + length ?d \<le> unat t * ?B"
      unfolding len by (metis Suc_leI add.commute mult_Suc mult_le_mono1)
    from read_untouched [OF r(1) this] show ?thesis unfolding read' content using r by simp
  qed
  with w(1) same show ?thesis by blast
qed

theorem block_file_array_witness:
  "\<exists>m m'. fbm_openWrite (Some None) (FileBlockManager_new 2 0) = (True, m) \<and> fbm_write 3 [7, 8] m = (True, m') \<and>
     fbm_read 3 [0, 0] m' = (True, [7, 8])"
proof -
  let ?f = "\<lparr>f_Content = [], f_Cursor = 0, f_Writable = True\<rparr>"
  define m where "m = \<lparr>m_FileAccess = Some \<lparr>m_FileHandle = Some ?f, m_Position = 0\<rparr>,
    m_BlockSize = 2, m_BaseOffset = 0, m_Memory = None\<rparr>"
  have m: "fbm_openWrite (Some None) (FileBlockManager_new 2 0) = (True, m)" "m_Memory m = None"
    "m_FileAccess m = Some \<lparr>m_FileHandle = Some ?f, m_Position = 0\<rparr>" "m_BaseOffset m = 0" "m_BlockSize m = 2"
    unfolding m_def by (simp_all add: fbm_openWrite_def FileBlockManager_new_def fa_InitWrite_def FileAccess_new_def)
  obtain w m' where w: "fbm_write 3 [7, 8] m = (w, m')" by force
  from block_file_array [OF m(2,3) _ _ m(4), of ?f "[7, 8]" "[0, 0]", OF _ _ _ _ _ w] m w show ?thesis by auto
qed

text \<open>A manager opened for reading refuses every write and its file stays as it was.\<close>

lemma read_only_refuses:
  assumes "fbm_open (Some content) m = (opened, m1)" and "fbm_write s buffer m1 = (written, m2)"
  shows "opened \<and> \<not> written \<and>
    (\<exists>fa f. m_FileAccess m2 = Some fa \<and> m_FileHandle fa = Some f \<and> f_Content f = content)"
  using assms
  by (auto simp: fbm_open_def fa_Init_def FileAccess_new_def fbm_write_def WriteBlock_def os_seek_def Let_def split: if_splits)

lemma read_only_PutData:
  assumes "fa_Init (Some content) fa = (opened, fa1)" and "buffer \<noteq> []"
  shows "PutData buffer fa1 = (False, fa1)"
  using assms by (auto simp: fa_Init_def PutData_def)

text \<open>Reading adds the base offset, writing does not: with a base offset a block is not where it was written.\<close>

lemma write_ignores_base_offset:
  "fst (fbm_read 0 [0, 0] (snd (fbm_write 0 [7, 8] (snd (fbm_openWrite (Some None) (FileBlockManager_new 2 2)))))) = False"
  by (simp add: fbm_openWrite_def FileBlockManager_new_def fa_InitWrite_def FileAccess_new_def fbm_write_def WriteBlock_def
      os_write_def os_seek_def write_at_def fbm_read_def ReadBlock_def ReadAt_def read_at_def)

subsection \<open>A stream\<close>

lemma stream_roundtrip:
  assumes "m_FileHandle fa = Some f" and "f_Writable f" and "length d < 2 ^ 31" and "length buffer = length d"
    and "SetPosition p fa = (a, fa1)" and "PutData d fa1 = (b, fa2)" and "SetPosition p fa2 = (c, fa3)"
    and "GetData buffer (word_of_nat (length d)) fa3 = (n, x, fa4)"
  shows "a \<and> b \<and> c \<and> n = word_of_nat (length d) \<and> x = d"
proof -
  have len: "unat (word_of_nat (length d) :: i32) = length d" "\<not> (word_of_nat (length d) :: i32) <s 0"
    using assms(3)
    by (simp_all add: unsigned_of_nat take_bit_nat_eq_self word_sless_alt signed_of_nat signed_take_bit_int_eq_self)
  show ?thesis
    using assms len read_written [of "unat p" d "f_Content f"]
    by (cases "d = []")
      (auto simp: SetPosition_def PutData_def GetData_def ReadAt_def write_pieces_all os_write_def os_seek_def put_def Let_def read_at_def)
qed

text \<open>
  \<open>GetData\<close> moves the position of the \<open>FileAccess\<close> but not the cursor, \<open>PutData\<close> writes at the cursor: data
  written after a read lands at the start of what was read, and the next read leaves a gap.
\<close>

lemma write_after_read:
  assumes "fa_InitWrite (Some (Some [1, 2, 3, 4])) False FileAccess_new = (True, fa)" and "GetData [0, 0] 2 fa = (n, x, fa1)" and "PutData [9] fa1 = (w, fa2)"
  shows "x = [1, 2] \<and> f_Content (the (m_FileHandle fa2)) = [9, 2, 3, 4] \<and> m_Position fa2 = 3"
proof -
  have two: "\<not> (2 :: i32) <s 0" "(0 :: i32) <s 2" "scast (2 :: i32) = (2 :: u64)" by (simp_all add: word_sless_alt)
  show ?thesis
    using assms two
    by (auto simp: fa_InitWrite_def FileAccess_new_def GetData_def ReadAt_def read_at_def put_def PutData_def write_pieces_all os_write_def
        write_at_def Let_def)
qed

end
