(* ===== verification/FileLoad.thy ===== *)
theory FileLoad
  imports IndexFile FileAccess
begin

text \<open>
  Loading an index through its path: \<open>LoadFileTables\<close>, \<open>LoadDocData\<close>, \<open>LoadPathPrefixSidecar\<close> and
  \<open>LoadTermMphf\<close> of \<open>IndexAccess/IndexSerializer.rs\<close>, and what \<open>LoadIndex\<close> of \<open>IndexAccess/IndexContext.rs\<close>
  makes of them. The tables are read at once; the pages stay in the file behind the block caches, which
  \<open>IndexBlockTable::Init\<close> fills with the first pages.

  A file is the sequence of its bytes (no failures of the device), a path that cannot be opened is \<open>None\<close>.
  \<open>seek\<close> and \<open>read_exact\<close> are \<open>read_exact\<close> at a position. The conditional code for the browser is left out.

  The theorem: whatever the bytes of a file, an index that \<open>LoadFromBytes\<close> accepts is also loaded through
  its path, with the same header, tables and directories, and the caches over the file serve exactly the
  pages that the index in memory has.
\<close>

subsection \<open>Reading the tables\<close>

definition read_exact :: "nat \<Rightarrow> nat \<Rightarrow> bytes \<Rightarrow> bytes result" where
  "read_exact position n content =
     (if n = 0 \<or> position + n \<le> length content then Inr (read_at position n content) else Inl Io)"

fun read_each :: "(bytes \<Rightarrow> 'a option) \<Rightarrow> nat \<Rightarrow> bytes \<Rightarrow> nat \<Rightarrow> nat \<Rightarrow> 'a list result" where
  "read_each parse width content position 0 = Inr []"
| "read_each parse width content position (Suc n) =
     bind_result (read_exact position width content) (\<lambda>b.
     bind_result (ok_or_invalid (parse b)) (\<lambda>x.
     bind_result (read_each parse width content (position + width) n) (\<lambda>xs. Inr (x # xs))))"

definition open_file :: "bytes option \<Rightarrow> bytes result" where
  "open_file file = (case file of None \<Rightarrow> Inl Io | Some content \<Rightarrow> Inr content)"

definition LoadDocData ::
  "(u16 \<Rightarrow> f32_bits) \<Rightarrow> PostingStore \<Rightarrow> bytes \<Rightarrow> IndexFileHeader \<Rightarrow> (PostingStore \<times> bytes) result" where
  "LoadDocData DocDataDecodeScore store content header =
     bind_result (read_exact (unat (IFH_DocDataOffset header)) (unat (IFH_NumDocuments header) * DOC_REC_SIZE) content) (\<lambda>docdata.
     bind_result (DecodeDocData DocDataDecodeScore (IFH_NumDocuments header) docdata store) (\<lambda>store. Inr (store, docdata)))"

definition LoadFileTables ::
  "(u16 \<Rightarrow> f32_bits) \<Rightarrow> PostingStore \<Rightarrow> bytes option \<Rightarrow>
   (PostingStore \<times> IndexFileHeader \<times> HeadTermEntry list \<times> bytes) result" where
  "LoadFileTables DocDataDecodeScore store file =
     bind_result (open_file file) (\<lambda>content.
     bind_result (read_exact 0 INDEX_FILE_HEADER_SIZE content) (\<lambda>header_bytes.
     bind_result (header_parse header_bytes) (\<lambda>header.
     bind_result (validate_layout header (Some (word_of_nat (length content)))) (\<lambda>_.
     bind_result (read_each hte_from_bytes 32 content (unat (IFH_HeadTermEntryOffset header))
                    (unat (IFH_HeadTermEntryCount header))) (\<lambda>head.
     bind_result (LoadDocData DocDataDecodeScore store content header) (\<lambda>(store, docdata).
     Inr (store, header, head, docdata)))))))"

definition LoadPathPrefixSidecar :: "bytes option \<Rightarrow> (bytes \<times> rstr list) result" where
  "LoadPathPrefixSidecar file =
     bind_result (open_file file) (\<lambda>content.
     bind_result (read_exact INDEX_FILE_HEADER_SIZE PATH_PREFIX_SIDECAR_BYTES content) (\<lambda>sidecar.
     bind_result (DecodePathPrefixSidecar sidecar) (\<lambda>prefixes. Inr (sidecar, prefixes))))"

definition LoadTermMphf :: "bytes option \<Rightarrow> IndexFileHeader \<Rightarrow> (TermMphfHeader \<times> i32 list \<times> bytes list) result" where
  "LoadTermMphf file header =
     (if IFH_TermMphfHeaderCount header = 0 then Inr (TermMphfHeader_default, [], [])
      else if IFH_TermMphfHeaderCount header \<noteq> 1 \<or> IFH_TermMphfDisplacementCount header = 0 \<or>
              IFH_TermMphfEntryPageCount header = 0 then Inl InvalidFormat
      else bind_result (open_file file) (\<lambda>content.
           bind_result (read_exact (unat (IFH_TermMphfHeaderOffset header)) TERM_MPHF_HEADER_SIZE content) (\<lambda>header_bytes.
           bind_result (ok_or_invalid (mphf_from_bytes header_bytes)) (\<lambda>mphf_header.
           if TMH_Magic mphf_header \<noteq> TERM_MPHF_MAGIC then Inl InvalidFormat
           else bind_result (read_each (\<lambda>b. Some (u32_from_le b)) 4 content (unat (IFH_TermMphfDisplacementOffset header))
                  (unat (IFH_TermMphfDisplacementCount header))) (\<lambda>displacements.
                bind_result (read_each Some PAGE_SIZE content (unat (IFH_TermMphfEntryOffset header))
                  (unat (IFH_TermMphfEntryPageCount header))) (\<lambda>pages.
                Inr (mphf_header, displacements, pages)))))))"

subsection \<open>The pages of a file\<close>

definition opened_file :: "bytes \<Rightarrow> FileAccess" where
  "opened_file content = snd (fa_Init (Some content) FileAccess_new)"

text \<open>The first \<open>n\<close> pages in one read, and one page as the worker of the cache reads it.\<close>

definition file_window :: "bytes \<Rightarrow> u64 \<Rightarrow> nat \<Rightarrow> bytes list option" where
  "file_window content baseOffset n =
     (let byte_count = n * PAGE_SIZE;
          (ok, pages) = ReadBlock 0 (replicate byte_count 0) byte_count baseOffset (opened_file content)
      in if ok then Some (slices_at PAGE_SIZE pages 0 n) else None)"

definition file_page :: "bytes \<Rightarrow> u64 \<Rightarrow> u32 \<Rightarrow> bool \<times> bytes" where
  "file_page content baseOffset seq = ReadBlock seq (replicate PAGE_SIZE 0) PAGE_SIZE baseOffset (opened_file content)"

definition Init_file :: "rstr \<Rightarrow> bytes option \<Rightarrow> u64 \<Rightarrow> u32 \<Rightarrow> u32 \<Rightarrow> BlockCacheState result" where
  "Init_file name file baseOffset blockCount slotCount =
     (case Init_pool (if name = [] then None else Some (file \<noteq> None))
             (file_window (case file of None \<Rightarrow> [] | Some content \<Rightarrow> content) baseOffset) baseOffset blockCount slotCount of
        (None, pool) \<Rightarrow> Inr pool
      | (Some err, pool) \<Rightarrow> Inl Io)"

definition INDEX_BLOCK_CACHE_BYTES :: u64 where
  "INDEX_BLOCK_CACHE_BYTES = 100 * 1024 * 1024"

definition LEAF_TERM_CACHE_BYTES :: u64 where
  "LEAF_TERM_CACHE_BYTES = 100 * 1024 * 1024"

text \<open>The tables that \<open>LoadIndex\<close> installs.\<close>

definition LoadIndex_tables ::
  "(u16 \<Rightarrow> f32_bits) \<Rightarrow> u64 \<Rightarrow> (rstr \<Rightarrow> bytes option) \<Rightarrow> rstr \<Rightarrow> index_data result" where
  "LoadIndex_tables DocDataDecodeScore leafTermCacheBytes files name =
     bind_result (LoadFileTables DocDataDecodeScore PostingStore_new (files name)) (\<lambda>(store, header, head_term_entries, docdata).
     bind_result (LoadPathPrefixSidecar (files name)) (\<lambda>(pathPrefixSidecar, pathPrefixes).
     bind_result (LoadTermMphf (files name) header) (\<lambda>(mphfHeader, mphfDisplacements, mphfEntryPages).
     bind_result (Init_file name (files name) (IFH_IndexBlockOffset header) (ucast (IFH_IndexBlockCount header))
        (ucast (min (IFH_IndexBlockCount header) (INDEX_BLOCK_CACHE_BYTES div word_of_nat PAGE_SIZE)))) (\<lambda>index_pool.
     bind_result (Init_file name (files name) (IFH_LeafTermBlockOffset header) (ucast (IFH_LeafTermBlockCount header))
        (ucast (min (IFH_LeafTermBlockCount header) (leafTermCacheBytes div word_of_nat PAGE_SIZE)))) (\<lambda>leaf_pool.
     let table = IndexBlockTable_new\<lparr>m_IndexPool := index_pool, m_LeafTermPool := leaf_pool\<rparr>;
         table = SetHeadTermEntries head_term_entries table;
         table = (if IFH_TermMphfHeaderCount header > 0 then SetTermMphf mphfHeader mphfDisplacements mphfEntryPages table else table)
     in Inr \<lparr>x_Header = header, x_BlockTable = table, x_DocData = docdata, x_PathPrefixSidecar = pathPrefixSidecar,
             x_PathPrefixes = pathPrefixes\<rparr>)))))"

text \<open>A page as a reader of the loaded table gets it.\<close>

definition file_fetch :: "bytes \<Rightarrow> BlockCacheState \<Rightarrow> BlockAccessCounters \<Rightarrow> u32 \<Rightarrow> bytes option" where
  "file_fetch content pool c = fetch_block (Some (file_page content (BCP_BaseOffset pool))) (pool, c)"

subsection \<open>The sections of a file that passes the layout check\<close>

lemma layout_inside:
  assumes "validate_layout h (Some (word_of_nat (length data))) = Inr e"
  shows "unat (IFH_HeadTermEntryOffset h) = 82056"
    and "unat (IFH_HeadTermEntryOffset h) + unat (IFH_HeadTermEntryCount h) * 32 \<le> length data"
    and "unat (IFH_LeafTermBlockOffset h) + unat (IFH_LeafTermBlockCount h) * PAGE_SIZE \<le> length data"
    and "unat (IFH_DocDataOffset h) + unat (IFH_NumDocuments h) * DOC_REC_SIZE \<le> length data"
    and "unat (IFH_IndexBlockOffset h) + unat (IFH_IndexBlockCount h) * PAGE_SIZE \<le> length data"
    and "unat (IFH_TermMphfHeaderOffset h) + unat (IFH_TermMphfHeaderCount h) * TERM_MPHF_HEADER_SIZE \<le> length data"
    and "unat (IFH_TermMphfDisplacementOffset h) + unat (IFH_TermMphfDisplacementCount h) * 4 \<le> length data"
    and "unat (IFH_TermMphfEntryOffset h) + unat (IFH_TermMphfEntryPageCount h) * PAGE_SIZE \<le> length data"
    and "\<not> bad_counts h"
    and "unat (IFH_LeafTermBlockOffset h) + unat (IFH_LeafTermBlockCount h) * PAGE_SIZE < 2 ^ 64"
    and "unat (IFH_IndexBlockOffset h) + unat (IFH_IndexBlockCount h) * PAGE_SIZE < 2 ^ 64"
proof -
  have stop: "last (layout_ends h) \<le> length data" "last (layout_ends h) < 2 ^ 64"
    and offs: "map unat (header_offsets h) = butlast (layout_ends h)" and counts: "\<not> bad_counts h"
  proof -
    from assms have e: "e \<le> word_of_nat (length data)" "unat e = last (layout_ends h)" "last (layout_ends h) < 2 ^ 64"
      "map unat (header_offsets h) = butlast (layout_ends h)" "\<not> bad_counts h"
      by (auto simp: validate_layout_iff)
    have "unat (word_of_nat (length data) :: u64) \<le> length data" by (simp add: unsigned_of_nat take_bit_nat_less_eq_self)
    then show "last (layout_ends h) \<le> length data" "last (layout_ends h) < 2 ^ 64"
      "map unat (header_offsets h) = butlast (layout_ends h)" "\<not> bad_counts h"
      using e by (auto simp: word_le_nat_alt)
  qed
  then show "unat (IFH_HeadTermEntryOffset h) = 82056"
    "unat (IFH_HeadTermEntryOffset h) + unat (IFH_HeadTermEntryCount h) * 32 \<le> length data"
    "unat (IFH_LeafTermBlockOffset h) + unat (IFH_LeafTermBlockCount h) * PAGE_SIZE \<le> length data"
    "unat (IFH_DocDataOffset h) + unat (IFH_NumDocuments h) * DOC_REC_SIZE \<le> length data"
    "unat (IFH_IndexBlockOffset h) + unat (IFH_IndexBlockCount h) * PAGE_SIZE \<le> length data"
    "unat (IFH_TermMphfHeaderOffset h) + unat (IFH_TermMphfHeaderCount h) * TERM_MPHF_HEADER_SIZE \<le> length data"
    "unat (IFH_TermMphfDisplacementOffset h) + unat (IFH_TermMphfDisplacementCount h) * 4 \<le> length data"
    "unat (IFH_TermMphfEntryOffset h) + unat (IFH_TermMphfEntryPageCount h) * PAGE_SIZE \<le> length data"
    "\<not> bad_counts h"
    "unat (IFH_LeafTermBlockOffset h) + unat (IFH_LeafTermBlockCount h) * PAGE_SIZE < 2 ^ 64"
    "unat (IFH_IndexBlockOffset h) + unat (IFH_IndexBlockCount h) * PAGE_SIZE < 2 ^ 64"
    by (simp_all add: layout_ends_def header_offsets_def Let_def size_consts)
qed

lemma read_exact_slice: "position + n \<le> length content \<Longrightarrow> read_exact position n content = Inr (subslice position (position + n) content)"
  by (simp add: read_exact_def read_at_def slice_take_drop)

lemma read_each_decode:
  "position + n * width \<le> length content \<Longrightarrow> read_each parse width content position n = decode_each parse width content position n"
proof (induction n arbitrary: position)
  case (Suc n)
  then show ?case by (simp add: read_exact_slice add.assoc)
qed simp

lemma decode_each_slices:
  "position + n * width \<le> length content \<Longrightarrow> decode_each (\<lambda>b. Some (f b)) width content position n = Inr (map f (slices_at width content position n))"
proof (induction n arbitrary: position)
  case (Suc n)
  have "slices_at width content position (Suc n) = subslice position (position + width) content # slices_at width content (position + width) n"
    unfolding slices_at_def upt_conv_Cons [OF zero_less_Suc] map_Suc_upt [symmetric] by (simp add: algebra_simps)
  then show ?case using Suc by (simp add: ok_or_invalid_def add.assoc)
qed (simp add: slices_at_def)

subsection \<open>The caches over a file\<close>

text \<open>\<open>count\<close> pages from \<open>base\<close> on lie inside the file.\<close>

definition pages_inside :: "bytes \<Rightarrow> u64 \<Rightarrow> u32 \<Rightarrow> bool" where
  "pages_inside content base count \<longleftrightarrow>
     unat base + unat count * PAGE_SIZE \<le> length content \<and> unat base + unat count * PAGE_SIZE < 2 ^ 64"

definition page_of_file :: "bytes \<Rightarrow> u64 \<Rightarrow> nat \<Rightarrow> bytes" where
  "page_of_file content base i = subslice (unat base + i * PAGE_SIZE) (unat base + i * PAGE_SIZE + PAGE_SIZE) content"

lemma ReadBlock_opened:
  assumes "length buffer = B" and "B < 2 ^ 31" and "unat base + unat seq * B + B \<le> length content"
    and "unat base + unat seq * B < 2 ^ 64"
  shows "ReadBlock seq buffer B base (opened_file content) =
    (True, subslice (unat base + unat seq * B) (unat base + unat seq * B + B) content)"
proof -
  have "unat (base + ucast seq * word_of_nat B) = unat base + unat seq * B"
    using block_position [OF assms(2), of seq] assms(4) by (simp add: unat_add_lem [THEN iffD1])
  then show ?thesis
    using assms(1,3) by (simp add: ReadBlock_def ReadAt_def opened_file_def fa_Init_def read_at_def put_def Let_def slice_take_drop)
qed

lemma file_page_inside:
  assumes "pages_inside content base count" and "seq < count"
  shows "file_page content base seq = (True, page_of_file content base (unat seq))"
proof -
  have "(unat seq + 1) * PAGE_SIZE \<le> unat count * PAGE_SIZE" using assms(2) by (intro mult_right_mono) (simp_all add: word_less_nat_alt)
  then have "unat base + unat seq * PAGE_SIZE + PAGE_SIZE \<le> length content" "unat base + unat seq * PAGE_SIZE < 2 ^ 64"
    using assms(1) by (simp_all add: pages_inside_def)
  then show ?thesis by (simp add: file_page_def page_of_file_def ReadBlock_opened PAGE_SIZE_def)
qed

lemma file_window_inside:
  assumes "pages_inside content base count" and "n \<le> unat count" and "n \<le> 524287"
  shows "file_window content base n = Some (map (\<lambda>i. snd (file_page content base (word_of_nat i))) [0..<n])"
proof -
  have "n * PAGE_SIZE \<le> unat count * PAGE_SIZE" using assms(2) by (rule mult_right_mono) simp
  then have n: "unat base + n * PAGE_SIZE \<le> length content" "n * PAGE_SIZE < 2 ^ 31"
    using assms by (simp_all add: pages_inside_def PAGE_SIZE_def)
  have read: "ReadBlock 0 (replicate (n * PAGE_SIZE) 0) (n * PAGE_SIZE) base (opened_file content) =
      (True, subslice (unat base) (unat base + n * PAGE_SIZE) content)"
    using ReadBlock_opened [of "replicate (n * PAGE_SIZE) 0" "n * PAGE_SIZE" base 0 content] n unat_bound [of base] by simp
  have "slices_at PAGE_SIZE (subslice (unat base) (unat base + n * PAGE_SIZE) content) 0 n =
      map (\<lambda>i. snd (file_page content base (word_of_nat i))) [0..<n]"
    unfolding slices_at_def
  proof (rule map_cong [OF refl])
    fix i assume "i \<in> set [0..<n]"
    then have i: "i < n" by simp
    then have u: "unat (word_of_nat i :: u32) = i" using assms(3) by (intro unat32_of_nat) simp
    then have "(word_of_nat i :: u32) < count" using i assms(2) by (simp add: word_less_nat_alt)
    moreover have "(i + 1) * PAGE_SIZE \<le> n * PAGE_SIZE" using i by (intro mult_right_mono) simp_all
    ultimately show "subslice (0 + i * PAGE_SIZE) (0 + i * PAGE_SIZE + PAGE_SIZE) (subslice (unat base) (unat base + n * PAGE_SIZE) content) =
        snd (file_page content base (word_of_nat i))"
      using file_page_inside [OF assms(1), of "word_of_nat i"] u by (simp add: page_of_file_def slice_slice ac_simps)
  qed
  then show ?thesis by (simp add: file_window_def read Let_def)
qed

lemma Init_file_serves:
  assumes inside: "pages_inside content base count" and name: "name \<noteq> []" and slots: "unat slotCount \<le> 524287" "count = 0 \<or> slotCount \<noteq> 0"
  obtains pool where "Init_file name (Some content) base count slotCount = Inr pool" "BCP_TotalBlockCount pool = count"
    "\<And>c. source_file_ok (file_page content base, pool, c)"
proof -
  let ?n = "min slotCount count" and ?disk = "\<lambda>b. snd (file_page content base b)"
  let ?window = "\<lambda>k. if k = unat ?n then file_window content base k else None"
  have n: "unat ?n \<le> unat count" "unat ?n \<le> 524287" using slots(1) by (auto simp: min_def word_le_nat_alt)
  note window = file_window_inside [OF inside n]
  then have honest: "honest_window ?disk ?window" by (simp add: honest_window_def)
  have init: "Init_pool (Some True) (file_window content base) base count slotCount = Init_pool (Some True) ?window base count slotCount"
    by (simp add: Init_pool_def Let_def)
  define pool where "pool = snd (Init_pool (Some True) ?window base count slotCount)"
  have "fst (Init_pool (Some True) ?window base count slotCount) = None"
    using window by (simp add: Init_pool_def Let_def)
  then have pool: "Init_pool (Some True) ?window base count slotCount = (None, pool)"
    by (simp only: prod_eq_iff pool_def fst_conv snd_conv simp_thms)
  have "pool_wf ?disk [] [] pool" using honest pool by (rule Init_pool_wf)
  moreover have total: "BCP_TotalBlockCount pool = count"
    using pool window by (auto simp: Init_pool_def Let_def split: if_splits)
  moreover have "can_serve seq pool" if "seq < count" for seq
  proof -
    have "count \<noteq> 0" using that by auto
    then have "?n \<noteq> 0" using slots(2) by (auto simp: min_def)
    with pool window have s: "BCP_SlotCount pool = ?n" "BCP_EvictSlot pool = ?n"
      "\<exists>logic. BCP_LogicTable pool = Some logic"
      "BCP_SlotTable pool = Some (map (\<lambda>i. IndexSlotEntry_default\<lparr>BlockID := word_of_nat i\<rparr>) [0..<unat ?n])"
      by (auto simp: Init_pool_def Let_def split: if_splits)
    have "0 < unat ?n" using \<open>?n \<noteq> 0\<close> by (metis gr0I unat_eq_zero)
    then show ?thesis
      using s that total n(2) \<open>?n \<noteq> 0\<close> by (auto simp: can_serve_def list_ex_iff IndexSlotEntry_default_def)
  qed
  moreover have "disk_of (file_page content base, pool, c) = ?disk" for c by (simp add: disk_of_def fun_eq_iff)
  ultimately have "source_file_ok (file_page content base, pool, c)" for c
    using file_page_inside [OF inside] by (auto simp: source_file_ok_def intro!: exI [of _ "[]"])
  moreover have "Init_file name (Some content) base count slotCount = Inr pool"
    using name pool init by (simp add: Init_file_def)
  ultimately show ?thesis using that total by blast
qed

subsection \<open>The two ways to load\<close>

lemma decode_each_nth:
  "decode_each parse width data offset n = Inr xs \<Longrightarrow>
    length xs = n \<and> (\<forall>i < n. parse (subslice (offset + i * width) (offset + i * width + width) data) = Some (xs ! i))"
proof (induction n arbitrary: offset xs)
  case (Suc n)
  then obtain y ys where y: "parse (subslice offset (offset + width) data) = Some y" "xs = y # ys"
    "decode_each parse width data (offset + width) n = Inr ys"
    by (auto simp: bind_result_Inr ok_or_invalid_def split: if_splits option.splits)
  from Suc.IH [OF y(3)] y(1,2) show ?case by (auto simp: less_Suc_eq_0_disj algebra_simps)
qed simp

lemma concat_slices: "n * w \<le> length xs \<Longrightarrow> concat (map (\<lambda>i. subslice (i * w) (i * w + w) xs) [0..<n]) = take (n * w) xs"
proof (induction n)
  case (Suc n)
  then have "take (n * w + w) xs = take (n * w) xs @ take w (drop (n * w) xs)" by (simp add: take_add)
  with Suc show ?case by (simp add: subslice_def add.commute)
qed simp

lemma leaf_to_from_bytes:
  assumes "leaf_from_bytes page = Some b" and len: "length page = PAGE_SIZE"
  shows "leaf_to_bytes b = page"
proof -
  have b: "LTB_Directory b = map (\<lambda>i. u16_from_le (subslice (i * 2) (i * 2 + 2) page)) [0..<161]" "LTB_Data b = subslice 322 4096 page"
    using assms by (auto simp: leaf_from_bytes_def Let_def size_consts split: if_splits)
  have "map u16_to_le (LTB_Directory b) = map (\<lambda>i. subslice (i * 2) (i * 2 + 2) page) [0..<161]"
    unfolding b(1) map_map using len by (intro map_cong [OF refl]) (simp add: u16_to_from_le size_consts)
  then have "concat (map u16_to_le (LTB_Directory b)) = take 322 page" using concat_slices [of 161 2 page] len by (simp add: size_consts)
  then show ?thesis using len by (simp add: leaf_to_bytes_def b(2) subslice_def size_consts)
qed

lemma fetch_memory_all:
  assumes "length bs < 2 ^ 32"
  shows "fetch_block None (SetPoolMemory (Some bs), c) seq = (if unat seq < length bs then Some (bs ! unat seq) else None)"
proof -
  have ok: "source_memory_ok (bs, c)" using assms by (simp add: source_memory_ok_def)
  have "unat (word_of_nat (length bs) :: u32) = length bs" using assms by (rule unat32_of_nat)
  then show ?thesis using memory.fetch_page [OF ok, of seq] memory.fetch_beyond [OF ok, of seq] by (simp add: word_less_nat_alt)
qed

lemma fetch_file_all:
  assumes "source_file_ok (file_page content base, pool, c)" and "BCP_TotalBlockCount pool = count" and "pages_inside content base count"
  shows "fetch_block (Some (file_page content base)) (pool, c) seq =
    (if unat seq < unat count then Some (page_of_file content base (unat seq)) else None)"
proof (cases "seq < count")
  case True
  then show ?thesis
    using pool_file.fetch_page [OF assms(1), of seq] file_page_inside [OF assms(3) True] assms(2)
    by (simp add: disk_of_def word_less_nat_alt)
next
  case False
  then show ?thesis using pool_file.fetch_beyond [OF assms(1), of seq] assms(2) by (simp add: word_less_nat_alt)
qed

lemma Init_file_base: "Init_file name content base count slotCount = Inr pool \<Longrightarrow> BCP_BaseOffset pool = base"
  by (auto simp: Init_file_def Init_pool_def BlockCacheState_new_def Let_def split: if_splits option.splits prod.splits)

lemma same_pages:
  assumes "length bs = unat count" and "\<forall>i < length bs. bs ! i = page_of_file content base i"
    and "source_file_ok (file_page content base, pool, c)" "BCP_TotalBlockCount pool = count" "pages_inside content base count"
    and "BCP_BaseOffset pool = base"
  shows "file_fetch content pool c seq = fetch_block None (SetPoolMemory (Some bs), c') seq"
  unfolding file_fetch_def assms(6)
  using fetch_file_all [OF assms(3-5), of seq] fetch_memory_all [of bs c' seq] assms(1,2) unat_bound [of count] by auto

lemma section_pages:
  assumes "unat base + unat count * PAGE_SIZE \<le> length data" and "unat base + unat count * PAGE_SIZE < 2 ^ 64"
    and "\<not> count > (0xFFFFFFFF :: u64)"
  shows "pages_inside data base (ucast count)" and "unat (ucast count :: u32) = unat count"
proof -
  have "unat count < 2 ^ 32" using assms(3) by (simp add: not_less word_le_nat_alt)
  then show "unat (ucast count :: u32) = unat count" by (rule unat_down)
  then show "pages_inside data base (ucast count)" using assms(1,2) by (simp add: pages_inside_def)
qed

lemma cache_slots:
  assumes "PAGE_SIZE \<le> unat bytes" and "unat bytes < 2 ^ 31"
  shows "unat (ucast (min (count :: u64) (bytes div word_of_nat PAGE_SIZE)) :: u32) \<le> 524287"
    and "count = 0 \<or> (ucast (min count (bytes div word_of_nat PAGE_SIZE)) :: u32) \<noteq> 0"
proof -
  have d: "unat (bytes div word_of_nat PAGE_SIZE) = unat bytes div 4096" by (simp add: unat_div PAGE_SIZE_def)
  have m: "unat (min count (bytes div word_of_nat PAGE_SIZE)) = min (unat count) (unat bytes div 4096)"
    unfolding d [symmetric] by (simp add: min_def word_le_nat_alt)
  have small: "unat bytes div 4096 \<le> 524287" using assms(2) by simp
  then have u: "unat (ucast (min count (bytes div word_of_nat PAGE_SIZE)) :: u32) = min (unat count) (unat bytes div 4096)"
    unfolding m [symmetric] by (intro unat_down) (use m small in simp)
  then show "unat (ucast (min count (bytes div word_of_nat PAGE_SIZE)) :: u32) \<le> 524287" using small by simp
  have "0 < unat bytes div 4096" using assms(1) by (simp add: PAGE_SIZE_def div_greater_zero_iff)
  then show "count = 0 \<or> (ucast (min count (bytes div word_of_nat PAGE_SIZE)) :: u32) \<noteq> 0"
    using u by (metis min_def neq0_conv not_gr_zero unat_0 unat_eq_zero)
qed

lemma LoadTermMphf_decode:
  assumes "validate_layout h (Some (word_of_nat (length data))) = Inr e" and "decode_mphf h data = Inr m"
  shows "LoadTermMphf (Some data) h = Inr m" and "IFH_TermMphfHeaderCount h > 0 \<longleftrightarrow> fst (snd m) \<noteq> [] \<and> snd (snd m) \<noteq> []"
proof -
  note inside = layout_inside [OF assms(1)]
  have one: "IFH_TermMphfHeaderCount h = 0 \<or> IFH_TermMphfHeaderCount h = 1"
    using mphf_header_count [OF inside(9)] by (metis unat_0 unat_1 word_unat_eq_iff)
  show "LoadTermMphf (Some data) h = Inr m" 
  proof (cases "IFH_TermMphfHeaderCount h = 0")
    case True
    then show ?thesis using assms(2) by (simp add: LoadTermMphf_def decode_mphf_def)
  next
    case False
    then have h: "IFH_TermMphfHeaderCount h = 1" "IFH_TermMphfDisplacementCount h \<noteq> 0" "IFH_TermMphfEntryPageCount h \<noteq> 0"
      using one inside(9) by (auto simp: bad_counts_def)
    have pages: "read_each Some PAGE_SIZE data (unat (IFH_TermMphfEntryOffset h)) (unat (IFH_TermMphfEntryPageCount h)) =
        Inr (slices_at PAGE_SIZE data (unat (IFH_TermMphfEntryOffset h)) (unat (IFH_TermMphfEntryPageCount h)))"
      using decode_each_slices [OF inside(8), of id] by (simp add: read_each_decode [OF inside(8)])
    show ?thesis
      using assms(2) h inside(6)
      by (auto simp: LoadTermMphf_def decode_mphf_def Let_def open_file_def read_exact_slice read_each_decode [OF inside(7)]
          decode_each_slices [OF inside(7)] pages bind_result_Inr split: if_splits)
  qed
  show "IFH_TermMphfHeaderCount h > 0 \<longleftrightarrow> fst (snd m) \<noteq> [] \<and> snd (snd m) \<noteq> []"
  proof (cases "IFH_TermMphfHeaderCount h = 0")
    case True
    then show ?thesis using assms(2) by (auto simp: decode_mphf_def)
  next
    case False
    then have h: "IFH_TermMphfHeaderCount h = 1" "unat (IFH_TermMphfDisplacementCount h) \<noteq> 0" "unat (IFH_TermMphfEntryPageCount h) \<noteq> 0"
      using one inside(9) by (auto simp: bad_counts_def unat_eq_0)
    then show ?thesis
      using assms(2) False
      by (auto simp: decode_mphf_def Let_def bind_result_Inr word_gt_0 slices_at_def split: if_splits)
  qed
qed

text \<open>The index \<open>x\<close> with its pages behind the caches \<open>index_pool\<close> and \<open>leaf_pool\<close>.\<close>

definition with_pools :: "BlockCacheState \<Rightarrow> BlockCacheState \<Rightarrow> index_data \<Rightarrow> index_data" where
  "with_pools index_pool leaf_pool x =
     x\<lparr>x_BlockTable := (x_BlockTable x)\<lparr>m_IndexPool := index_pool, m_LeafTermPool := leaf_pool\<rparr>\<rparr>"

lemma LoadFromBytes_parts:
  assumes "LoadFromBytes decode data = Inr x"
  obtains e head leaf docdata prefixes index m where
    "header_parse data = Inr (x_Header x)" "validate_layout (x_Header x) (Some (word_of_nat (length data))) = Inr e"
    "\<not> INDEX_FILE_HEADER_SIZE + PATH_PREFIX_SIDECAR_BYTES > length data"
    "DecodePathPrefixSidecar (x_PathPrefixSidecar x) = Inr (x_PathPrefixes x)"
    "x_PathPrefixSidecar x = subslice INDEX_FILE_HEADER_SIZE (INDEX_FILE_HEADER_SIZE + PATH_PREFIX_SIDECAR_BYTES) data"
    "decode_each hte_from_bytes 32 data (unat (IFH_HeadTermEntryOffset (x_Header x))) (unat (IFH_HeadTermEntryCount (x_Header x))) = Inr head"
    "decode_each leaf_from_bytes PAGE_SIZE data (unat (IFH_LeafTermBlockOffset (x_Header x))) (unat (IFH_LeafTermBlockCount (x_Header x))) = Inr leaf"
    "x_DocData x = subslice (unat (IFH_DocDataOffset (x_Header x)))
       (unat (IFH_DocDataOffset (x_Header x)) + unat (IFH_NumDocuments (x_Header x)) * DOC_REC_SIZE) data"
    "decode_each Some PAGE_SIZE data (unat (IFH_IndexBlockOffset (x_Header x))) (unat (IFH_IndexBlockCount (x_Header x))) = Inr index"
    "decode_mphf (x_Header x) data = Inr m"
    "x_BlockTable x =
       (let table = SetHeadTermEntries head (SetBlockMemory (Some index) (Some (map leaf_to_bytes leaf)) IndexBlockTable_new)
        in if fst (snd m) \<noteq> [] \<and> snd (snd m) \<noteq> [] then SetTermMphf (fst m) (fst (snd m)) (snd (snd m)) table else table)"
  using assms
  by (auto simp: LoadFromBytes_def decode_file_def bind_result_Inr Let_def case_prod_beta split: if_splits)

lemma LoadFileTables_decode:
  assumes "header_parse data = Inr h" and layout: "validate_layout h (Some (word_of_nat (length data))) = Inr e"
    and "\<not> INDEX_FILE_HEADER_SIZE + PATH_PREFIX_SIDECAR_BYTES > length data"
    and "decode_each hte_from_bytes 32 data (unat (IFH_HeadTermEntryOffset h)) (unat (IFH_HeadTermEntryCount h)) = Inr head"
  shows "\<exists>store'. LoadFileTables decode store (Some data) = Inr (store', h, head,
    subslice (unat (IFH_DocDataOffset h)) (unat (IFH_DocDataOffset h) + unat (IFH_NumDocuments h) * DOC_REC_SIZE) data)"
proof -
  note inside = layout_inside [OF layout]
  let ?docs = "subslice (unat (IFH_DocDataOffset h)) (unat (IFH_DocDataOffset h) + unat (IFH_NumDocuments h) * DOC_REC_SIZE) data"
  have "length ?docs = unat (IFH_NumDocuments h) * DOC_REC_SIZE" using inside(4) by simp
  then obtain store' where docs: "DecodeDocData decode (IFH_NumDocuments h) ?docs store = Inr store'" by (simp add: DecodeDocData_def Let_def)
  have "136 \<le> length data" using assms(3) by (simp add: size_consts)
  then have "read_exact 0 INDEX_FILE_HEADER_SIZE data = Inr (subslice 0 136 data)" "header_parse (subslice 0 136 data) = Inr h"
    using assms(1) header_parse_prefix [of data] by (simp_all add: read_exact_slice size_consts)
  then have "LoadFileTables decode store (Some data) = Inr (store', h, head, ?docs)"
    using layout assms(4) docs
    by (simp add: LoadFileTables_def open_file_def LoadDocData_def read_each_decode [OF inside(2)] read_exact_slice [OF inside(4)])
  then show ?thesis by blast
qed

lemma LoadIndex_same:
  assumes load: "LoadFromBytes decode data = Inr x" and named: "files name = Some data" "name \<noteq> []"
    and cache: "PAGE_SIZE \<le> unat leafTermCacheBytes" "unat leafTermCacheBytes < 2 ^ 31"
  obtains index_pool leaf_pool where
    "LoadIndex_tables decode leafTermCacheBytes files name = Inr (with_pools index_pool leaf_pool x)"
    "\<And>c c'. file_fetch data index_pool c = fetch_block None (m_IndexPool (x_BlockTable x), c')"
    "\<And>c c'. file_fetch data leaf_pool c = fetch_block None (m_LeafTermPool (x_BlockTable x), c')"
    "BCP_TotalBlockCount leaf_pool = BCP_TotalBlockCount (m_LeafTermPool (x_BlockTable x))"
proof -
  let ?h = "x_Header x"
  from load obtain e head leaf docdata prefixes index m where p:
    "header_parse data = Inr ?h" "validate_layout ?h (Some (word_of_nat (length data))) = Inr e"
    "\<not> INDEX_FILE_HEADER_SIZE + PATH_PREFIX_SIDECAR_BYTES > length data"
    "DecodePathPrefixSidecar (x_PathPrefixSidecar x) = Inr (x_PathPrefixes x)"
    "x_PathPrefixSidecar x = subslice INDEX_FILE_HEADER_SIZE (INDEX_FILE_HEADER_SIZE + PATH_PREFIX_SIDECAR_BYTES) data"
    "decode_each hte_from_bytes 32 data (unat (IFH_HeadTermEntryOffset ?h)) (unat (IFH_HeadTermEntryCount ?h)) = Inr head"
    "decode_each leaf_from_bytes PAGE_SIZE data (unat (IFH_LeafTermBlockOffset ?h)) (unat (IFH_LeafTermBlockCount ?h)) = Inr leaf"
    "x_DocData x = subslice (unat (IFH_DocDataOffset ?h)) (unat (IFH_DocDataOffset ?h) + unat (IFH_NumDocuments ?h) * DOC_REC_SIZE) data"
    "decode_each Some PAGE_SIZE data (unat (IFH_IndexBlockOffset ?h)) (unat (IFH_IndexBlockCount ?h)) = Inr index"
    "decode_mphf ?h data = Inr m"
    "x_BlockTable x =
       (let table = SetHeadTermEntries head (SetBlockMemory (Some index) (Some (map leaf_to_bytes leaf)) IndexBlockTable_new)
        in if fst (snd m) \<noteq> [] \<and> snd (snd m) \<noteq> [] then SetTermMphf (fst m) (fst (snd m)) (snd (snd m)) table else table)"
    by (rule LoadFromBytes_parts) blast
  note inside = layout_inside [OF p(2)]
  note ix = section_pages [OF inside(5,11)] and lf = section_pages [OF inside(3,10)]
  have counts: "\<not> 0xFFFFFFFF < IFH_IndexBlockCount ?h" "\<not> 0xFFFFFFFF < IFH_LeafTermBlockCount ?h"
    using inside(9) by (auto simp: bad_counts_def)
  have own: "PAGE_SIZE \<le> unat INDEX_BLOCK_CACHE_BYTES" "unat INDEX_BLOCK_CACHE_BYTES < 2 ^ 31"
    by (simp_all add: INDEX_BLOCK_CACHE_BYTES_def PAGE_SIZE_def)
  have zero: "(ucast n :: u32) = 0 \<or> s \<noteq> 0" if "n = 0 \<or> s \<noteq> 0" for n :: u64 and s :: u32 using that by auto
  from Init_file_serves [OF ix(1) [OF counts(1)] named(2) cache_slots(1) [OF own] zero [OF cache_slots(2) [OF own]]]
  obtain index_pool where index_pool: "Init_file name (Some data) (IFH_IndexBlockOffset ?h) (ucast (IFH_IndexBlockCount ?h))
      (ucast (min (IFH_IndexBlockCount ?h) (INDEX_BLOCK_CACHE_BYTES div word_of_nat PAGE_SIZE))) = Inr index_pool"
    "BCP_TotalBlockCount index_pool = ucast (IFH_IndexBlockCount ?h)"
    "\<And>c. source_file_ok (file_page data (IFH_IndexBlockOffset ?h), index_pool, c)" by blast
  from Init_file_serves [OF lf(1) [OF counts(2)] named(2) cache_slots(1) [OF cache] zero [OF cache_slots(2) [OF cache]]]
  obtain leaf_pool where leaf_pool: "Init_file name (Some data) (IFH_LeafTermBlockOffset ?h) (ucast (IFH_LeafTermBlockCount ?h))
      (ucast (min (IFH_LeafTermBlockCount ?h) (leafTermCacheBytes div word_of_nat PAGE_SIZE))) = Inr leaf_pool"
    "BCP_TotalBlockCount leaf_pool = ucast (IFH_LeafTermBlockCount ?h)"
    "\<And>c. source_file_ok (file_page data (IFH_LeafTermBlockOffset ?h), leaf_pool, c)" by blast
  obtain store' where tables: "LoadFileTables decode PostingStore_new (Some data) = Inr (store', ?h, head, x_DocData x)"
    using LoadFileTables_decode [OF p(1-3,6), of decode PostingStore_new] p(8) by auto
  have sidecar: "LoadPathPrefixSidecar (Some data) = Inr (x_PathPrefixSidecar x, x_PathPrefixes x)"
    using p(3-5) by (simp add: LoadPathPrefixSidecar_def open_file_def read_exact_slice)
  note mphf = LoadTermMphf_decode [OF p(2,10)]
  have pools: "m_IndexPool (x_BlockTable x) = SetPoolMemory (Some index)"
    "m_LeafTermPool (x_BlockTable x) = SetPoolMemory (Some (map leaf_to_bytes leaf))"
    unfolding p(11) by (simp_all add: SetTermMphf_def SetBlockMemory_def SetHeadTermEntries_def ClearTermMphf_def Let_def)
  have load: "LoadIndex_tables decode leafTermCacheBytes files name = Inr (with_pools index_pool leaf_pool x)"
  proof -
    let ?t = "IndexBlockTable_new\<lparr>m_IndexPool := index_pool, m_LeafTermPool := leaf_pool\<rparr>"
    have "(if IFH_TermMphfHeaderCount ?h > 0 then SetTermMphf (fst m) (fst (snd m)) (snd (snd m)) (SetHeadTermEntries head ?t)
        else SetHeadTermEntries head ?t) = (x_BlockTable x)\<lparr>m_IndexPool := index_pool, m_LeafTermPool := leaf_pool\<rparr>"
      unfolding p(11) mphf(2) [symmetric]
      by (simp add: SetTermMphf_def SetBlockMemory_def SetHeadTermEntries_def ClearTermMphf_def Let_def)
    moreover have "with_pools index_pool leaf_pool x = \<lparr>x_Header = ?h,
        x_BlockTable = (x_BlockTable x)\<lparr>m_IndexPool := index_pool, m_LeafTermPool := leaf_pool\<rparr>, x_DocData = x_DocData x,
        x_PathPrefixSidecar = x_PathPrefixSidecar x, x_PathPrefixes = x_PathPrefixes x\<rparr>"
      by (simp add: with_pools_def)
    ultimately show ?thesis
      by (simp add: LoadIndex_tables_def named(1) tables sidecar mphf(1) index_pool(1) leaf_pool(1)
          case_prod_beta Let_def split: if_splits)
  qed
  have index: "file_fetch data index_pool c seq = fetch_block None (m_IndexPool (x_BlockTable x), c') seq" for seq c c'
    unfolding pools
    using decode_each_nth [OF p(9)] index_pool(2,3) ix [OF counts(1)] Init_file_base [OF index_pool(1)]
    by (intro same_pages [where count = "ucast (IFH_IndexBlockCount ?h)"]) (auto simp: page_of_file_def)
  have leaf: "file_fetch data leaf_pool c seq = fetch_block None (m_LeafTermPool (x_BlockTable x), c') seq" for seq c c'
    unfolding pools
  proof (rule same_pages [where count = "ucast (IFH_LeafTermBlockCount ?h)"])
    note l = decode_each_nth [OF p(7)]
    then show "length (map leaf_to_bytes leaf) = unat (ucast (IFH_LeafTermBlockCount ?h) :: u32)" using lf(2) [OF counts(2)] by simp
    show "\<forall>i < length (map leaf_to_bytes leaf). map leaf_to_bytes leaf ! i = page_of_file data (IFH_LeafTermBlockOffset ?h) i"
    proof (intro allI impI)
      fix i assume "i < length (map leaf_to_bytes leaf)"
      then have i: "i < length leaf" "i < unat (IFH_LeafTermBlockCount ?h)" using l by simp_all
      have "(i + 1) * PAGE_SIZE \<le> unat (IFH_LeafTermBlockCount ?h) * PAGE_SIZE" using i(2) by (intro mult_right_mono) simp_all
      then have "length (page_of_file data (IFH_LeafTermBlockOffset ?h) i) = PAGE_SIZE" using inside(3) by (simp add: page_of_file_def)
      then show "map leaf_to_bytes leaf ! i = page_of_file data (IFH_LeafTermBlockOffset ?h) i"
        using l i leaf_to_from_bytes by (simp add: page_of_file_def)
    qed
  qed (use leaf_pool(2,3) lf(1) [OF counts(2)] Init_file_base [OF leaf_pool(1)] in auto)
  have "BCP_TotalBlockCount leaf_pool = BCP_TotalBlockCount (m_LeafTermPool (x_BlockTable x))"
    unfolding pools using decode_each_nth [OF p(7)] leaf_pool(2) lf(2) [OF counts(2)]
    by (simp add: SetPoolMemory_def word_unat_eq_iff unsigned_of_nat)
  with that [OF load] index leaf show ?thesis by (simp add: fun_eq_iff)
qed

text \<open>
  C22. The two loaders agree: for arbitrary bytes, an index that \<open>LoadFromBytes\<close> accepts is also loaded by
  \<open>LoadIndex\<close> through a file with those bytes, with the same header, head entries, document table,
  directories and perfect hash, and each of the two caches over the file, of at least one page, serves exactly the pages that
  the index in memory serves.
\<close>

theorem LoadIndex_agrees:
  assumes "LoadFromBytes decode data = Inr x" and "files name = Some data" "name \<noteq> []"
    and "PAGE_SIZE \<le> unat leafTermCacheBytes" "unat leafTermCacheBytes < 2 ^ 31"
  shows "\<exists>index_pool leaf_pool. LoadIndex_tables decode leafTermCacheBytes files name = Inr (with_pools index_pool leaf_pool x) \<and>
    (\<forall>seq c c'. file_fetch data index_pool c seq = fetch_block None (m_IndexPool (x_BlockTable x), c') seq) \<and>
    (\<forall>seq c c'. file_fetch data leaf_pool c seq = fetch_block None (m_LeafTermPool (x_BlockTable x), c') seq)"
proof -
  from assms obtain index_pool leaf_pool where
    "LoadIndex_tables decode leafTermCacheBytes files name = Inr (with_pools index_pool leaf_pool x)"
    "\<And>c c'. file_fetch data index_pool c = fetch_block None (m_IndexPool (x_BlockTable x), c')"
    "\<And>c c'. file_fetch data leaf_pool c = fetch_block None (m_LeafTermPool (x_BlockTable x), c')"
    by (rule LoadIndex_same) blast
  then show ?thesis by (metis (no_types))
qed

lemma demo_file:
  obtains x data where "LoadFromBytes (\<lambda>_. 0) data = Inr x" "IFH_NumDocuments (x_Header x) = 1"
proof -
  from demo_built obtain r where r: "BuildBlocks demo_log2 demo_store = Some r"
    "length (BBR_IndexBlocks r) = 1" "length (BBR_LeafTermBlocks r) = 1" by blast
  then have "built_fits r" by (simp add: built_fits_def)
  note saved = file_demo_saved [OF r(1) this, where f32_ratio = "\<lambda>_ _. 0" and scores = zero_scores]
  from saved_loads [OF saved, where decode = "\<lambda>_. 0"] obtain x data where
    x: "BuildIndexData demo_log2 (\<lambda>_ _. 0) zero_scores file_demo = Some x" "LoadFromBytes (\<lambda>_. 0) data = Inr x" by blast
  from saved obtain x' data' where "BuildIndexData demo_log2 (\<lambda>_ _. 0) zero_scores file_demo = Some x'"
    "x_Header x' = built_header (\<lambda>_ _. 0) file_demo r (x_DocData x')" by (rule save_built) blast
  with x(1) have "IFH_NumDocuments (x_Header x) = 1" by (simp add: built_header_current StoreDocDataRecordCount_def file_demo_parts)
  with x(2) show ?thesis by (rule that)
qed

theorem LoadIndex_agrees_witness:
  "\<exists>x data index_pool leaf_pool. IFH_NumDocuments (x_Header x) = 1 \<and>
     LoadIndex_tables (\<lambda>_. 0) LEAF_TERM_CACHE_BYTES [str ''a.idx'' \<mapsto> data] (str ''a.idx'') = Inr (with_pools index_pool leaf_pool x)"
proof -
  obtain x data where x: "LoadFromBytes (\<lambda>_. 0) data = Inr x" "IFH_NumDocuments (x_Header x) = 1" by (rule demo_file)
  have "PAGE_SIZE \<le> unat LEAF_TERM_CACHE_BYTES" "unat LEAF_TERM_CACHE_BYTES < 2 ^ 31" "str ''a.idx'' \<noteq> []"
    by (simp_all add: LEAF_TERM_CACHE_BYTES_def PAGE_SIZE_def str_simps)
  from LoadIndex_agrees [OF x(1) _ this(3,1,2), of "[str ''a.idx'' \<mapsto> data]"] x(2) show ?thesis by auto
qed

text \<open>
  A cache size below one page, which \<open>SetLeafTermCacheBytes\<close> accepts, gives a cache without slots: the
  index loads and no leaf page is ever served.
\<close>

lemma cache_without_slots:
  assumes "leafTermCacheBytes < word_of_nat PAGE_SIZE"
    and "Init_file name (Some content) base count (ucast (min n (leafTermCacheBytes div word_of_nat PAGE_SIZE))) = Inr pool"
  shows "fetch_block (Some rd) (pool, c) seq = None"
proof -
  have "leafTermCacheBytes div word_of_nat PAGE_SIZE = 0"
    using assms(1) by (simp add: word_unat_eq_iff unat_div word_less_nat_alt PAGE_SIZE_def)
  then have "BCP_SlotCount pool = 0"
    using assms(2) by (auto simp: Init_file_def Init_pool_def Let_def split: if_splits option.splits prod.splits)
  then have "get_reserve seq (pool, c) = (RNone, pool, c)" by (simp add: get_reserve_def split: option.split)
  then show ?thesis by (simp add: fetch_block_def GetBlock_direct_def)
qed

end
