(* ===== verification/ContextLifecycle.thy ===== *)
theory ContextLifecycle
  imports IndexContext MergeFile FileLoad
begin

text \<open>
  The life of an index context (\<open>IndexAccess/IndexContext.rs\<close>): documents are added to the store, \<open>Build\<close>
  makes the index in memory, \<open>SaveIndex\<close> writes it to a file or publishes it as the delta of the loaded
  index, \<open>LoadIndex\<close> loads an index with its delta, \<open>Merge\<close> joins the two into one file.

  The state is the context together with the file system, a partial map from paths to bytes. A context
  that was loaded keeps its file open and reads the pages from it later, so that it has the path of that
  file (\<open>c_File\<close>): \<open>File::create\<close> on the same path truncates the very file it reads from. Failures
  of the device, the temporary files of \<open>Merge\<close>, the vector index and the search threads (theory
  \<open>SearchWorkers\<close>) are left out. A delta context has no delta of its own.
\<close>

subsection \<open>The state\<close>

type_synonym file_system = "rstr \<Rightarrow> bytes option"

definition index_empty :: index_data where
  "index_empty = \<lparr>x_Header = IndexFileHeader_zeroed, x_BlockTable = IndexBlockTable_new, x_DocData = [],
     x_PathPrefixSidecar = replicate PATH_PREFIX_SIDECAR_BYTES 0, x_PathPrefixes = []\<rparr>"

record context_core =
  c_Read :: index_data
  c_File :: "rstr option"
  c_Built :: bool
  c_LoadedFromDisk :: bool
  c_IndexPath :: "rstr option"
  c_LoadDelta :: bool
  c_LeafTermCacheBytes :: u64
  c_Store :: PostingStore
  c_Write :: index_data
  c_WriteBuilt :: bool

record context_state = context_core +
  c_Delta :: "context_core option"

definition core_new :: "rstr option \<Rightarrow> bool \<Rightarrow> context_core" where
  "core_new index_path load_delta = \<lparr>c_Read = index_empty, c_File = None, c_Built = False, c_LoadedFromDisk = False,
     c_IndexPath = index_path, c_LoadDelta = load_delta, c_LeafTermCacheBytes = LEAF_TERM_CACHE_BYTES,
     c_Store = PostingStore_new, c_Write = index_empty, c_WriteBuilt = False\<rparr>"

definition SetLeafTermCacheBytes :: "u64 \<Rightarrow> context_state \<Rightarrow> context_state" where
  "SetLeafTermCacheBytes bytes ctx =
     (let n = (if bytes > 0 then bytes else LEAF_TERM_CACHE_BYTES)
      in ctx\<lparr>c_LeafTermCacheBytes := n, c_Delta := map_option (\<lambda>d. d\<lparr>c_LeafTermCacheBytes := n\<rparr>) (c_Delta ctx)\<rparr>)"

subsection \<open>Loading\<close>

text \<open>\<open>DeltaIndexPath\<close>: the extension of the last component is kept behind \<open>.delta\<close>.\<close>

definition rfind :: "(u8 \<Rightarrow> bool) \<Rightarrow> rstr \<Rightarrow> nat option" where
  "rfind P s = (if list_ex P s then Some (length s - 1 - length (takeWhile (\<lambda>b. \<not> P b) (rev s))) else None)"

definition DeltaIndexPath :: "rstr \<Rightarrow> rstr" where
  "DeltaIndexPath name =
     (let slash = rfind is_path_sep name; dot = rfind (\<lambda>b. b = 0x2E) name
      in case dot of
           Some dot_pos \<Rightarrow>
             if (case slash of None \<Rightarrow> True | Some slash_pos \<Rightarrow> dot_pos > slash_pos)
             then take dot_pos name @ str ''.delta'' @ [0x2E] @ drop (dot_pos + 1) name
             else name @ str ''.delta.idx''
         | None \<Rightarrow> name @ str ''.delta.idx'')"

definition IsValidIndex :: "bytes option \<Rightarrow> bool" where
  "IsValidIndex f =
     (case f of None \<Rightarrow> False
      | Some content \<Rightarrow> (case read_exact 0 8 content of Inl _ \<Rightarrow> False | Inr header \<Rightarrow> header = INDEX_FILE_MAGIC))"

text \<open>\<open>LoadIndex\<close> up to the delta, which is the whole of it for a context that loads no delta.\<close>

definition load_core ::
  "(u16 \<Rightarrow> f32_bits) \<Rightarrow> file_system \<Rightarrow> rstr \<Rightarrow> 'a context_core_scheme \<Rightarrow> unit result \<times> 'a context_core_scheme" where
  "load_core DocDataDecodeScore files name ctx =
     (let ctx = ctx\<lparr>c_IndexPath := Some name\<rparr>
      in case LoadIndex_tables DocDataDecodeScore (c_LeafTermCacheBytes ctx) files name of
           Inl err \<Rightarrow> (Inl err, ctx)
         | Inr x \<Rightarrow> (Inr (), ctx\<lparr>c_Store := PostingStore_new, c_Read := x, c_File := Some name, c_Built := True,
                               c_LoadedFromDisk := True\<rparr>))"

definition core_documents :: "'a context_core_scheme \<Rightarrow> u64" where
  "core_documents ctx = IFH_NumDocuments (x_Header (c_Read ctx))"

definition LoadDeltaIndex :: "(u16 \<Rightarrow> f32_bits) \<Rightarrow> file_system \<Rightarrow> context_state \<Rightarrow> context_state" where
  "LoadDeltaIndex DocDataDecodeScore files ctx =
     (let ctx = ctx\<lparr>c_Delta := None\<rparr>
      in if \<not> c_LoadDelta ctx then ctx
         else case c_IndexPath ctx of
           None \<Rightarrow> ctx
         | Some indexPath \<Rightarrow>
             let deltaPath = DeltaIndexPath indexPath
             in if deltaPath = indexPath \<or> \<not> IsValidIndex (files deltaPath) then ctx
                else let delta = snd (load_core DocDataDecodeScore files deltaPath (core_new (Some deltaPath) False))
                     in if c_LoadedFromDisk delta \<and> core_documents delta > 0 then ctx\<lparr>c_Delta := Some delta\<rparr> else ctx)"

definition LoadIndex ::
  "(u16 \<Rightarrow> f32_bits) \<Rightarrow> file_system \<Rightarrow> rstr \<Rightarrow> context_state \<Rightarrow> unit result \<times> context_state" where
  "LoadIndex DocDataDecodeScore files name ctx =
     (case load_core DocDataDecodeScore files name (ctx\<lparr>c_Delta := None\<rparr>) of
        (Inl err, ctx) \<Rightarrow> (Inl err, ctx)
      | (Inr u, ctx) \<Rightarrow> (Inr u, LoadDeltaIndex DocDataDecodeScore files ctx))"

definition ReloadIndex :: "(u16 \<Rightarrow> f32_bits) \<Rightarrow> file_system \<Rightarrow> context_state \<Rightarrow> unit result \<times> context_state" where
  "ReloadIndex DocDataDecodeScore files ctx =
     (case c_IndexPath ctx of None \<Rightarrow> (Inl InvalidFormat, ctx) | Some name \<Rightarrow> LoadIndex DocDataDecodeScore files name ctx)"

text \<open>The constructor ignores an error of the load.\<close>

definition with_path_and_load_delta :: "(u16 \<Rightarrow> f32_bits) \<Rightarrow> file_system \<Rightarrow> rstr option \<Rightarrow> bool \<Rightarrow> context_state" where
  "with_path_and_load_delta DocDataDecodeScore files index_path load_delta =
     (let ctx = context_core.extend (core_new index_path load_delta) (context_state.fields None)
      in case index_path of None \<Rightarrow> ctx | Some name \<Rightarrow> snd (LoadIndex DocDataDecodeScore files name ctx))"

definition install :: "index_data \<Rightarrow> context_state \<Rightarrow> context_state" where
  "install x ctx = ctx\<lparr>c_Store := PostingStore_new, c_Read := x, c_File := None, c_Built := True, c_LoadedFromDisk := True\<rparr>"

definition ctx_LoadFromBytes :: "(u16 \<Rightarrow> f32_bits) \<Rightarrow> bytes \<Rightarrow> context_state \<Rightarrow> unit result \<times> context_state" where
  "ctx_LoadFromBytes DocDataDecodeScore data ctx =
     (let ctx = ctx\<lparr>c_Delta := None\<rparr>
      in case LoadFromBytes DocDataDecodeScore data of
           Inl err \<Rightarrow> (Inl err, ctx)
         | Inr x \<Rightarrow> (Inr (), install x ctx))"

text \<open>The two loaders for vector search only: no terms, the documents and their directories.\<close>

definition LoadVectorFromBytes :: "bytes \<Rightarrow> context_state \<Rightarrow> unit result \<times> context_state" where
  "LoadVectorFromBytes data ctx =
     (let ctx = ctx\<lparr>c_Delta := None\<rparr>;
          loaded = bind_result (header_parse data) (\<lambda>header.
            let sidecar_begin = INDEX_FILE_HEADER_SIZE; sidecar_end = sidecar_begin + PATH_PREFIX_SIDECAR_BYTES in
            if sidecar_end > length data then Inl InvalidFormat
            else let pathPrefixSidecar = subslice sidecar_begin sidecar_end data in
            bind_result (DecodePathPrefixSidecar pathPrefixSidecar) (\<lambda>pathPrefixes.
            bind_result (ok_or_invalid (checked_mul64 (IFH_NumDocuments header) (word_of_nat DOC_REC_SIZE))) (\<lambda>docdata_bytes.
            bind_result (ok_or_invalid (checked_add64 (IFH_DocDataOffset header) docdata_bytes)) (\<lambda>docdata_end.
            if unat docdata_end > length data then Inl InvalidFormat
            else Inr \<lparr>x_Header = header, x_BlockTable = IndexBlockTable_new,
                      x_DocData = subslice (unat (IFH_DocDataOffset header)) (unat docdata_end) data,
                      x_PathPrefixSidecar = pathPrefixSidecar, x_PathPrefixes = pathPrefixes\<rparr>))))
      in case loaded of Inl err \<Rightarrow> (Inl err, ctx) | Inr x \<Rightarrow> (Inr (), install x ctx))"

definition LoadVectorTables :: "bytes \<Rightarrow> bytes \<Rightarrow> context_state \<Rightarrow> unit result \<times> context_state" where
  "LoadVectorTables docdata pathPrefixSidecar ctx =
     (let ctx = ctx\<lparr>c_Delta := None\<rparr>
      in if length docdata mod DOC_REC_SIZE \<noteq> 0 \<or> length pathPrefixSidecar \<noteq> PATH_PREFIX_SIDECAR_BYTES
         then (Inl InvalidFormat, ctx)
         else case DecodePathPrefixSidecar pathPrefixSidecar of
           Inl err \<Rightarrow> (Inl err, ctx)
         | Inr pathPrefixes \<Rightarrow>
             (Inr (), install \<lparr>x_Header = IndexFileHeader_default\<lparr>IFH_NumDocuments := word_of_nat (length docdata div DOC_REC_SIZE)\<rparr>,
                x_BlockTable = IndexBlockTable_new, x_DocData = docdata, x_PathPrefixSidecar = pathPrefixSidecar,
                x_PathPrefixes = pathPrefixes\<rparr> ctx))"

subsection \<open>Adding and building\<close>

definition ids_end :: "'a context_core_scheme \<Rightarrow> u64" where
  "ids_end ctx = DocDataFirstDocId (x_DocData (c_Read ctx)) (core_documents ctx) + core_documents ctx"

definition ctx_AddDocument ::
  "(rstr \<Rightarrow> rstr list) \<Rightarrow> (rstr list \<Rightarrow> u32 list) \<times> (u32 list \<Rightarrow> bytes) \<Rightarrow> Document \<Rightarrow> bool \<Rightarrow> context_state \<Rightarrow> u64 \<times> context_state" where
  "ctx_AddDocument tokenize model doc buildVector ctx =
     (let (docId, store) = AddDocument tokenize model (ids_end ctx, map_option ids_end (c_Delta ctx)) doc buildVector (c_Store ctx)
      in (docId, ctx\<lparr>c_Store := store, c_WriteBuilt := False, c_Built := c_Built ctx \<and> c_LoadedFromDisk ctx\<rparr>))"

text \<open>\<open>None\<close> is a panic of \<open>BuildBlocks\<close>.\<close>

definition Build ::
  "(nat \<Rightarrow> rat) \<Rightarrow> (u64 \<Rightarrow> u64 \<Rightarrow> f32_bits) \<Rightarrow> (DocStats \<Rightarrow> doc_scores) \<Rightarrow> context_state \<Rightarrow> context_state option" where
  "Build log2_f64 f32_ratio scores ctx =
     (if c_Built ctx then Some ctx
      else if m_DocStats (c_Store ctx) = [] then Some (ctx\<lparr>c_LoadedFromDisk := False, c_Built := True\<rparr>)
      else map_option (\<lambda>x. ctx\<lparr>c_Read := x, c_File := None, c_Built := True\<rparr>)
             (BuildIndexData log2_f64 f32_ratio scores (c_Store ctx)))"

subsection \<open>Saving\<close>

definition build_write ::
  "(nat \<Rightarrow> rat) \<Rightarrow> (u64 \<Rightarrow> u64 \<Rightarrow> f32_bits) \<Rightarrow> (DocStats \<Rightarrow> doc_scores) \<Rightarrow> context_state \<Rightarrow> context_state option" where
  "build_write log2_f64 f32_ratio scores ctx =
     (if c_WriteBuilt ctx then Some ctx
      else if m_DocStats (c_Store ctx) = [] then Some (ctx\<lparr>c_WriteBuilt := True\<rparr>)
      else map_option (\<lambda>x. ctx\<lparr>c_Write := x, c_WriteBuilt := True\<rparr>)
             (BuildIndexData log2_f64 f32_ratio scores (c_Store ctx)))"

text \<open>What is reset before the file of the loaded index is overwritten.\<close>

definition drop_loaded :: "context_state \<Rightarrow> context_state" where
  "drop_loaded ctx =
     ctx\<lparr>c_Read := index_empty\<lparr>x_PathPrefixSidecar := replicate (length (x_PathPrefixSidecar (c_Read ctx))) 0\<rparr>,
         c_File := None, c_Built := False, c_LoadedFromDisk := False\<rparr>"

text \<open>The written index becomes the delta of the context, without another load.\<close>

definition publish_delta :: "rstr \<Rightarrow> context_state \<Rightarrow> context_state" where
  "publish_delta name ctx =
     ctx\<lparr>c_Delta := Some ((core_new None False)\<lparr>c_IndexPath := Some name, c_Read := c_Write ctx, c_Built := True,
                            c_LoadedFromDisk := True\<rparr>),
         c_Write := index_empty, c_WriteBuilt := False\<rparr>"

definition SaveIndex ::
  "(nat \<Rightarrow> rat) \<Rightarrow> (u64 \<Rightarrow> u64 \<Rightarrow> f32_bits) \<Rightarrow> (DocStats \<Rightarrow> doc_scores) \<Rightarrow> rstr \<Rightarrow> file_system \<Rightarrow> context_state \<Rightarrow>
   (unit result \<times> file_system \<times> context_state) option" where
  "SaveIndex log2_f64 f32_ratio scores name files ctx =
     (let savingDeltaIndex = (case c_IndexPath ctx of None \<Rightarrow> False | Some index_path \<Rightarrow> name = DeltaIndexPath index_path);
          overwritingLoadedIndex = (\<not> savingDeltaIndex \<and> c_LoadedFromDisk ctx \<and> c_IndexPath ctx = Some name);
          ctx = (if \<not> savingDeltaIndex then ctx\<lparr>c_IndexPath := Some name\<rparr> else ctx)
      in case build_write log2_f64 f32_ratio scores ctx of
           None \<Rightarrow> None
         | Some ctx \<Rightarrow>
             let ctx = (if overwritingLoadedIndex then drop_loaded ctx else ctx)
             in case Save (x_Header (c_Write ctx)) (x_BlockTable (c_Write ctx)) (x_DocData (c_Write ctx))
                       (x_PathPrefixSidecar (c_Write ctx)) of
                  Inl err \<Rightarrow> Some (Inl err, files, ctx)
                | Inr data \<Rightarrow>
                    Some (Inr (), files(name \<mapsto> data), if savingDeltaIndex then publish_delta name ctx else ctx))"

definition SaveIndexCurrent ::
  "(nat \<Rightarrow> rat) \<Rightarrow> (u64 \<Rightarrow> u64 \<Rightarrow> f32_bits) \<Rightarrow> (DocStats \<Rightarrow> doc_scores) \<Rightarrow> file_system \<Rightarrow> context_state \<Rightarrow>
   (unit result \<times> file_system \<times> context_state) option" where
  "SaveIndexCurrent log2_f64 f32_ratio scores files ctx =
     (case c_IndexPath ctx of
        None \<Rightarrow> Some (Inl InvalidFormat, files, ctx)
      | Some name \<Rightarrow> SaveIndex log2_f64 f32_ratio scores name files ctx)"

subsection \<open>The pages of a context, and merging\<close>

definition core_pages ::
  "(IndexBlockTable \<Rightarrow> BlockCacheState) \<Rightarrow> file_system \<Rightarrow> BlockAccessCounters \<Rightarrow> 'a context_core_scheme \<Rightarrow> u32 \<Rightarrow> bytes option" where
  "core_pages pool files c ctx =
     (case c_File ctx of
        None \<Rightarrow> fetch_block None (pool (x_BlockTable (c_Read ctx)), c)
      | Some name \<Rightarrow>
          (case files name of
             None \<Rightarrow> (\<lambda>_. None)
           | Some content \<Rightarrow> file_fetch content (pool (x_BlockTable (c_Read ctx))) c))"




subsection \<open>Paths\<close>

lemma rfind_bound: "rfind P s = Some i \<Longrightarrow> i < length s"
proof -
  assume "rfind P s = Some i"
  then have "i = length s - 1 - length (takeWhile (\<lambda>b. \<not> P b) (rev s))" "s \<noteq> []" by (auto simp: rfind_def split: if_splits)
  then show "i < length s" by (cases s) auto
qed

text \<open>The delta of an index is another file, but two indexes can share the path of their delta.\<close>

lemma DeltaIndexPath_other: "DeltaIndexPath name \<noteq> name"
proof -
  have "length name < length (DeltaIndexPath name)"
    by (auto simp: DeltaIndexPath_def Let_def str_simps dest: rfind_bound split: option.split)
  then show ?thesis by auto
qed

lemma DeltaIndexPath_not_empty [simp]: "DeltaIndexPath name \<noteq> []"
  by (auto simp: DeltaIndexPath_def Let_def str_simps split: option.split)

lemma DeltaIndexPath_shared: "DeltaIndexPath (str ''a'') = DeltaIndexPath (str ''a.idx'')"
  by (simp add: DeltaIndexPath_def rfind_def is_path_sep_def str_simps)

subsection \<open>What a context has loaded\<close>

text \<open>
  A context serves the index \<open>x\<close>: its tables are those of \<open>x\<close>, and the pages it reads, from memory or
  from the file it has open, are the pages of \<open>x\<close>.
\<close>

definition serves :: "file_system \<Rightarrow> index_data \<Rightarrow> 'a context_core_scheme \<Rightarrow> bool" where
  "serves files x ctx \<longleftrightarrow> c_Built ctx \<and>
     (\<exists>index_pool leaf_pool. c_Read ctx = with_pools index_pool leaf_pool x \<and>
        BCP_TotalBlockCount leaf_pool = BCP_TotalBlockCount (m_LeafTermPool (x_BlockTable x))) \<and>
     (\<forall>c c'. core_pages m_IndexPool files c ctx = index_fetch (x_BlockTable x) c') \<and>
     (\<forall>c c'. core_pages m_LeafTermPool files c ctx = leaf_fetch (x_BlockTable x) c')"

lemma with_pools_simps [simp]:
  "x_Header (with_pools ip lp x) = x_Header x" "x_DocData (with_pools ip lp x) = x_DocData x"
  "x_PathPrefixes (with_pools ip lp x) = x_PathPrefixes x"
  "x_BlockTable (with_pools ip lp x) = (x_BlockTable x)\<lparr>m_IndexPool := ip, m_LeafTermPool := lp\<rparr>"
  by (simp_all add: with_pools_def)

lemma with_own_pools: "with_pools (m_IndexPool (x_BlockTable x)) (m_LeafTermPool (x_BlockTable x)) x = x"
  by (simp add: with_pools_def)

lemma serves_tables:
  assumes "serves files x ctx"
  shows "c_Built ctx" and "x_Header (c_Read ctx) = x_Header x" and "x_DocData (c_Read ctx) = x_DocData x"
    and "x_PathPrefixes (c_Read ctx) = x_PathPrefixes x" and "core_documents ctx = IFH_NumDocuments (x_Header x)"
  using assms by (auto simp: serves_def core_documents_def)

lemma built_table_pages:
  assumes "built_fits r"
  shows "index_fetch (built_table r) c = page_list (BBR_IndexBlocks r)"
    and "leaf_fetch (built_table r) c = page_list (map leaf_to_bytes (BBR_LeafTermBlocks r))"
  using page_list_memory assms by (simp_all add: leaf_fetch_def index_fetch_def built_fits_def)

lemma serves_memory:
  assumes "c_Built ctx" and "c_Read ctx = x" and "c_File ctx = None" and "x_BlockTable x = built_table r" and "built_fits r"
  shows "serves files x ctx"
proof -
  have "\<exists>index_pool leaf_pool. x = with_pools index_pool leaf_pool x \<and>
      BCP_TotalBlockCount leaf_pool = BCP_TotalBlockCount (m_LeafTermPool (x_BlockTable x))"
    using with_own_pools [of x] by metis
  then show ?thesis
    using assms built_table_pages [OF assms(5), unfolded index_fetch_def leaf_fetch_def]
    by (simp add: serves_def core_pages_def index_fetch_def leaf_fetch_def)
qed


subsection \<open>Saving and loading\<close>

lemma core_pages_delta [simp]: "core_pages pool files c (ctx\<lparr>c_Delta := d\<rparr>) = core_pages pool files c ctx"
  by (simp add: core_pages_def split: option.split)

lemma serves_delta [simp]: "serves files x (ctx\<lparr>c_Delta := d\<rparr>) = serves files x ctx"
  by (simp add: serves_def)

lemma LoadDeltaIndex_core: "\<exists>d. LoadDeltaIndex decode files ctx = ctx\<lparr>c_Delta := d\<rparr>"
  by (force simp: LoadDeltaIndex_def Let_def split: option.splits)

lemma loaded_valid:
  assumes "LoadFromBytes decode data = Inr x"
  shows "IsValidIndex (Some data)"
proof -
  have "header_parse data = Inr (x_Header x)" using assms by (rule LoadFromBytes_parts) blast
  then have "8 \<le> length data" "subslice 0 8 data = INDEX_FILE_MAGIC"
    by (auto simp: header_parse_def INDEX_FILE_HEADER_SIZE_def split: if_splits)
  then show ?thesis by (simp add: IsValidIndex_def read_exact_slice)
qed

text \<open>A cache size that gives the leaf cache a slot; the default is one.\<close>

definition cache_fits :: "'a context_core_scheme \<Rightarrow> bool" where
  "cache_fits ctx \<longleftrightarrow> PAGE_SIZE \<le> unat (c_LeafTermCacheBytes ctx) \<and> unat (c_LeafTermCacheBytes ctx) < 2 ^ 31"

lemma cache_fits_new [simp]: "cache_fits (core_new p b)"
  by (simp add: cache_fits_def core_new_def LEAF_TERM_CACHE_BYTES_def PAGE_SIZE_def)

lemma cache_fits_update [simp]: "cache_fits (ctx\<lparr>c_Delta := d\<rparr>) = cache_fits ctx"
  by (simp add: cache_fits_def)

lemma load_core_serves:
  assumes "LoadFromBytes decode data = Inr x" and "files name = Some data" "name \<noteq> []" and "cache_fits ctx"
  obtains ctx' where "load_core decode files name ctx = (Inr (), ctx')" "serves files x ctx'" "c_LoadedFromDisk ctx'"
    "c_IndexPath ctx' = Some name" "c_LoadDelta ctx' = c_LoadDelta ctx"
    "c_Store ctx' = PostingStore_new" "c_Write ctx' = c_Write ctx" "c_WriteBuilt ctx' = c_WriteBuilt ctx" "cache_fits ctx'"
proof -
  from assms(4) have cache: "PAGE_SIZE \<le> unat (c_LeafTermCacheBytes ctx)" "unat (c_LeafTermCacheBytes ctx) < 2 ^ 31"
    by (simp_all add: cache_fits_def)
  from assms(1-3) cache obtain index_pool leaf_pool where
    load: "LoadIndex_tables decode (c_LeafTermCacheBytes ctx) files name = Inr (with_pools index_pool leaf_pool x)" and
    pages: "\<And>c c'. file_fetch data index_pool c = fetch_block None (m_IndexPool (x_BlockTable x), c')"
    "\<And>c c'. file_fetch data leaf_pool c = fetch_block None (m_LeafTermPool (x_BlockTable x), c')"
    "BCP_TotalBlockCount leaf_pool = BCP_TotalBlockCount (m_LeafTermPool (x_BlockTable x))"
    by (rule LoadIndex_same) blast
  let ?ctx = "ctx\<lparr>c_IndexPath := Some name, c_Store := PostingStore_new, c_Read := with_pools index_pool leaf_pool x,
      c_File := Some name, c_Built := True, c_LoadedFromDisk := True\<rparr>"
  have "load_core decode files name ctx = (Inr (), ?ctx)" by (simp add: load_core_def load)
  moreover have "serves files x ?ctx"
  proof -
    have "c_Read ?ctx = with_pools index_pool leaf_pool x" "c_Built ?ctx" by simp_all
    moreover have "core_pages m_IndexPool files c ?ctx = index_fetch (x_BlockTable x) c'"
      "core_pages m_LeafTermPool files c ?ctx = leaf_fetch (x_BlockTable x) c'" for c c'
      using pages assms(2) by (simp_all add: core_pages_def index_fetch_def leaf_fetch_def)
    ultimately show ?thesis using pages(3) unfolding serves_def by blast
  qed
  ultimately show ?thesis using cache by (intro that [of ?ctx]) (simp_all add: cache_fits_def)
qed

text \<open>The loaded context, and its delta: the index at the delta path if there is one with documents.\<close>

lemma LoadIndex_serves:
  assumes "LoadFromBytes decode data = Inr x" and "files name = Some data" "name \<noteq> []" and "cache_fits ctx"
  obtains ctx' where "LoadIndex decode files name ctx = (Inr (), ctx')" "serves files x ctx'" "c_LoadedFromDisk ctx'"
    "c_IndexPath ctx' = Some name" "c_LoadDelta ctx' = c_LoadDelta ctx" "c_Store ctx' = PostingStore_new"
    "c_Write ctx' = c_Write ctx" "c_WriteBuilt ctx' = c_WriteBuilt ctx" "cache_fits ctx'"
    "ctx' = LoadDeltaIndex decode files ctx'"
proof -
  have "cache_fits (ctx\<lparr>c_Delta := None\<rparr>)" using assms(4) by simp
  from load_core_serves [where files = files and name = name, OF assms(1-3) this] obtain loaded where l:
    "load_core decode files name (ctx\<lparr>c_Delta := None\<rparr>) = (Inr (), loaded)" "serves files x loaded" "c_LoadedFromDisk loaded"
    "c_IndexPath loaded = Some name" "c_LoadDelta loaded = c_LoadDelta ctx" "c_Store loaded = PostingStore_new"
    "c_Write loaded = c_Write ctx" "c_WriteBuilt loaded = c_WriteBuilt ctx" "cache_fits loaded" by auto
  obtain d where d: "LoadDeltaIndex decode files loaded = loaded\<lparr>c_Delta := d\<rparr>" using LoadDeltaIndex_core by blast
  have again: "LoadDeltaIndex decode files (loaded\<lparr>c_Delta := d\<rparr>) = loaded\<lparr>c_Delta := d\<rparr>"
    using d by (simp add: LoadDeltaIndex_def Let_def cong: option.case_cong if_cong)
  show ?thesis
    by (rule that [of "loaded\<lparr>c_Delta := d\<rparr>"]) (use l d again in \<open>simp_all add: LoadIndex_def\<close>)
qed

lemma LoadDeltaIndex_serves:
  assumes "LoadFromBytes decode data = Inr x" and "files (DeltaIndexPath base) = Some data" and "0 < IFH_NumDocuments (x_Header x)"
    and "c_IndexPath ctx = Some base" and "c_LoadDelta ctx"
  obtains delta where "LoadDeltaIndex decode files ctx = ctx\<lparr>c_Delta := Some delta\<rparr>" "serves files x delta"
    "c_Store delta = PostingStore_new"
proof -
  let ?d = "DeltaIndexPath base"
  have cache: "cache_fits (core_new (Some ?d) False)" by simp
  from load_core_serves [where files = files and name = ?d, OF assms(1,2) DeltaIndexPath_not_empty cache] obtain delta where
    d: "load_core decode files ?d (core_new (Some ?d) False) = (Inr (), delta)" "serves files x delta" "c_LoadedFromDisk delta"
      "c_Store delta = PostingStore_new"
    by auto
  have "core_documents delta > 0" using serves_tables(5) [OF d(2)] assms(3) by simp
  then have "LoadDeltaIndex decode files ctx = ctx\<lparr>c_Delta := Some delta\<rparr>"
    using assms(2,4,5) d(1,3) loaded_valid [OF assms(1)] DeltaIndexPath_other [of base]
    by (simp add: LoadDeltaIndex_def Let_def)
  then show ?thesis using d(2,4) by (rule that)
qed

lemma LoadIndex_file:
  assumes "LoadIndex decode files name ctx = (Inr (), loaded)"
  shows "c_File loaded = Some name"
proof -
  obtain x where x: "LoadIndex_tables decode (c_LeafTermCacheBytes ctx) files name = Inr x"
    using assms by (cases "LoadIndex_tables decode (c_LeafTermCacheBytes ctx) files name") (simp_all add: LoadIndex_def load_core_def)
  let ?core = "ctx\<lparr>c_Delta := None, c_IndexPath := Some name, c_Store := PostingStore_new, c_Read := x, c_File := Some name,
      c_Built := True, c_LoadedFromDisk := True\<rparr>"
  obtain d where "LoadDeltaIndex decode files ?core = ?core\<lparr>c_Delta := d\<rparr>" using LoadDeltaIndex_core by blast
  then have "loaded = ?core\<lparr>c_Delta := d\<rparr>" using assms x by (simp add: LoadIndex_def load_core_def)
  then show ?thesis by simp
qed

text \<open>What \<open>SaveIndex\<close> does with a store that was not built for writing yet.\<close>

definition fresh_write ::
  "(nat \<Rightarrow> rat) \<Rightarrow> (u64 \<Rightarrow> u64 \<Rightarrow> f32_bits) \<Rightarrow> (DocStats \<Rightarrow> doc_scores) \<Rightarrow> context_state \<Rightarrow> BuildBlocksResult \<Rightarrow> bool" where
  "fresh_write l f32_ratio scores ctx r \<longleftrightarrow>
     saved_build l f32_ratio scores (c_Store ctx) r \<and> m_DocStats (c_Store ctx) \<noteq> [] \<and> \<not> c_WriteBuilt ctx"

definition saving_delta :: "rstr \<Rightarrow> context_state \<Rightarrow> bool" where
  "saving_delta name ctx \<longleftrightarrow> (\<exists>base. c_IndexPath ctx = Some base \<and> name = DeltaIndexPath base)"

lemma SaveIndex_written:
  assumes "fresh_write l f32_ratio scores ctx r"
  obtains x data where "BuildIndexData l f32_ratio scores (c_Store ctx) = Some x" "x_BlockTable x = built_table r" "built_fits r"
    "IFH_NumDocuments (x_Header x) = StoreDocDataRecordCount (c_Store ctx)" "0 < IFH_NumDocuments (x_Header x)"
    "LoadFromBytes decode data = Inr x"
    "saving_delta name ctx \<Longrightarrow> SaveIndex l f32_ratio scores name files ctx =
       Some (Inr (), files(name \<mapsto> data), publish_delta name (ctx\<lparr>c_Write := x, c_WriteBuilt := True\<rparr>))"
    "\<not> saving_delta name ctx \<Longrightarrow> \<exists>ctx'. SaveIndex l f32_ratio scores name files ctx = Some (Inr (), files(name \<mapsto> data), ctx') \<and>
       c_IndexPath ctx' = Some name \<and> c_Store ctx' = c_Store ctx \<and> c_Write ctx' = x \<and> c_WriteBuilt ctx' \<and> c_Delta ctx' = c_Delta ctx"
proof -
  from assms have w: "saved_build l f32_ratio scores (c_Store ctx) r" "m_DocStats (c_Store ctx) \<noteq> []" "\<not> c_WriteBuilt ctx"
    by (simp_all add: fresh_write_def)
  from saved_loads [OF w(1), where decode = decode] obtain x data where x: "BuildIndexData l f32_ratio scores (c_Store ctx) = Some x"
    "Save (x_Header x) (x_BlockTable x) (x_DocData x) (x_PathPrefixSidecar x) = Inr data" "LoadFromBytes decode data = Inr x" by blast
  from w(1) obtain x' data' where "BuildIndexData l f32_ratio scores (c_Store ctx) = Some x'" "x_BlockTable x' = built_table r"
    "x_Header x' = built_header f32_ratio (c_Store ctx) r (x_DocData x')" by (rule save_built) blast
  with x(1) have t: "x_BlockTable x = built_table r" "x_Header x = built_header f32_ratio (c_Store ctx) r (x_DocData x)" by simp_all
  have fits: "built_fits r" using w(1) by (simp add: saved_build_def)
  have n: "IFH_NumDocuments (x_Header x) = StoreDocDataRecordCount (c_Store ctx)" unfolding t(2) by (simp add: built_header_current)
  have "docdata_store_ok (c_Store ctx)" using w(1) by (simp add: saved_build_def store_savable_def)
  from record_count_pos [OF this w(2)] n have pos: "0 < IFH_NumDocuments (x_Header x)" by (simp add: word_neq_0_conv)
  have build: "build_write l f32_ratio scores c = Some (c\<lparr>c_Write := x, c_WriteBuilt := True\<rparr>)"
    if "c_Store c = c_Store ctx" "c_WriteBuilt c = c_WriteBuilt ctx" for c
    using that w x(1) by (simp add: build_write_def)
  show ?thesis
  proof (rule that [OF x(1) t(1) fits n pos x(3)])
    assume "saving_delta name ctx"
    then obtain base where "c_IndexPath ctx = Some base" "name = DeltaIndexPath base" by (auto simp: saving_delta_def)
    then show "SaveIndex l f32_ratio scores name files ctx =
       Some (Inr (), files(name \<mapsto> data), publish_delta name (ctx\<lparr>c_Write := x, c_WriteBuilt := True\<rparr>))"
      by (simp add: SaveIndex_def build x(2))
  next
    assume "\<not> saving_delta name ctx"
    then have no: "\<not> (case c_IndexPath ctx of None \<Rightarrow> False | Some index_path \<Rightarrow> name = DeltaIndexPath index_path)"
      by (simp add: saving_delta_def split: option.split)
    let ?b = "ctx\<lparr>c_IndexPath := Some name, c_Write := x, c_WriteBuilt := True\<rparr>"
    let ?c = "if c_LoadedFromDisk ctx \<and> c_IndexPath ctx = Some name then drop_loaded ?b else ?b"
    have "SaveIndex l f32_ratio scores name files ctx = Some (Inr (), files(name \<mapsto> data), ?c)"
      using build [of "ctx\<lparr>c_IndexPath := Some name\<rparr>"] x(2) by (simp add: SaveIndex_def no drop_loaded_def)
    then show "\<exists>ctx'. SaveIndex l f32_ratio scores name files ctx = Some (Inr (), files(name \<mapsto> data), ctx') \<and>
       c_IndexPath ctx' = Some name \<and> c_Store ctx' = c_Store ctx \<and> c_Write ctx' = x \<and> c_WriteBuilt ctx' \<and> c_Delta ctx' = c_Delta ctx"
      by (intro exI [of _ ?c]) (simp add: drop_loaded_def)
  qed
qed

text \<open>
  C21. A saved index is loaded back: a context with documents in its store that were not written before
  saves them under any nonempty path, and whatever context then loads this path serves exactly the
  index that \<open>BuildIndexData\<close> makes of the store; no other file is touched. The loading context has a
  leaf cache of at least one page, and the store fits the format (\<open>saved_build\<close>).
\<close>

theorem saved_context_loads:
  assumes "fresh_write l f32_ratio scores ctx r" and "name \<noteq> []" and "cache_fits loader"
  shows "\<exists>x files' ctx' loaded. BuildIndexData l f32_ratio scores (c_Store ctx) = Some x \<and>
    SaveIndex l f32_ratio scores name files ctx = Some (Inr (), files', ctx') \<and> (\<forall>other. other \<noteq> name \<longrightarrow> files' other = files other) \<and>
    LoadIndex decode files' name loader = (Inr (), loaded) \<and> serves files' x loaded"
proof -
  obtain x data ctx' where x: "BuildIndexData l f32_ratio scores (c_Store ctx) = Some x" "LoadFromBytes decode data = Inr x"
    "SaveIndex l f32_ratio scores name files ctx = Some (Inr (), files(name \<mapsto> data), ctx')"
    using assms(1) by (rule SaveIndex_written [where name = name and files = files and decode = decode]) blast
  from LoadIndex_serves [OF x(2) _ assms(2,3), of "files(name \<mapsto> data)"] obtain loaded where
    "LoadIndex decode (files(name \<mapsto> data)) name loader = (Inr (), loaded)" "serves (files(name \<mapsto> data)) x loaded" by auto
  with x show ?thesis by auto
qed

subsection \<open>Publishing a delta\<close>

lemma serves_cong:
  assumes "serves files x ctx" and "c_Built ctx' = c_Built ctx" "c_Read ctx' = c_Read ctx" "c_File ctx' = c_File ctx"
    and "\<And>name. c_File ctx = Some name \<Longrightarrow> files' name = files name"
  shows "serves files' x ctx'"
proof -
  have "core_pages pool files' c ctx' = core_pages pool files c ctx" for pool c
    using assms(3-5) by (cases "c_File ctx") (simp_all add: core_pages_def split: option.split)
  then show ?thesis using assms(1-3) by (simp add: serves_def)
qed

text \<open>The index of the store is written to the delta path and becomes the delta; the loaded index is as it was.\<close>

lemma SaveIndex_delta:
  assumes w: "fresh_write l f32_ratio scores ctx r" and base: "c_IndexPath ctx = Some base"
  obtains x data saved delta where "BuildIndexData l f32_ratio scores (c_Store ctx) = Some x" "x_BlockTable x = built_table r"
    "IFH_NumDocuments (x_Header x) = StoreDocDataRecordCount (c_Store ctx)" "0 < IFH_NumDocuments (x_Header x)"
    "LoadFromBytes decode data = Inr x"
    "SaveIndex l f32_ratio scores (DeltaIndexPath base) files ctx = Some (Inr (), files(DeltaIndexPath base \<mapsto> data), saved)"
    "c_Delta saved = Some delta" "\<And>files'. serves files' x delta" "c_Store delta = PostingStore_new"
    "c_Built saved = c_Built ctx" "c_Read saved = c_Read ctx" "c_File saved = c_File ctx" "c_IndexPath saved = Some base"
    "c_LoadDelta saved = c_LoadDelta ctx" "c_Store saved = c_Store ctx" "cache_fits saved = cache_fits ctx" "\<not> c_WriteBuilt saved"
proof -
  let ?name = "DeltaIndexPath base"
  have saving: "saving_delta ?name ctx" using base by (simp add: saving_delta_def)
  obtain x data where x: "BuildIndexData l f32_ratio scores (c_Store ctx) = Some x" "x_BlockTable x = built_table r" "built_fits r"
    "IFH_NumDocuments (x_Header x) = StoreDocDataRecordCount (c_Store ctx)" "0 < IFH_NumDocuments (x_Header x)"
    "LoadFromBytes decode data = Inr x"
    "SaveIndex l f32_ratio scores ?name files ctx =
       Some (Inr (), files(?name \<mapsto> data), publish_delta ?name (ctx\<lparr>c_Write := x, c_WriteBuilt := True\<rparr>))"
    by (rule SaveIndex_written [where name = ?name and files = files and decode = decode, OF w]) (use saving in blast)
  let ?delta = "(core_new None False)\<lparr>c_IndexPath := Some ?name, c_Read := x, c_Built := True, c_LoadedFromDisk := True\<rparr>"
  have "serves files' x ?delta" for files' by (rule serves_memory [OF _ _ _ x(2,3)]) (simp_all add: core_new_def)
  with x(1,2,4-7) base show ?thesis
    by (intro that [of x data "publish_delta ?name (ctx\<lparr>c_Write := x, c_WriteBuilt := True\<rparr>)" ?delta])
      (simp_all add: publish_delta_def core_new_def cache_fits_def)
qed

text \<open>
  C20. Publishing a delta is loading it: when a context that loads deltas saves new documents, not
  written before, to the delta path of the loaded index, it gets, in memory, a delta that serves exactly
  the index of the store, while the loaded index is served as before; and reloading the context from
  the files gives the same index with the same delta. The leaf cache has at least one page.
\<close>

theorem published_delta_reloads:
  assumes w: "fresh_write l f32_ratio scores ctx r" and base: "c_IndexPath ctx = Some base" "base \<noteq> []" "c_LoadDelta ctx"
    and served: "serves files y ctx" "c_File ctx = Some base" and loads: "files base = Some data" "LoadFromBytes decode data = Inr y"
    and "cache_fits ctx"
  shows "\<exists>x files' saved delta again delta'. BuildIndexData l f32_ratio scores (c_Store ctx) = Some x \<and>
    SaveIndex l f32_ratio scores (DeltaIndexPath base) files ctx = Some (Inr (), files', saved) \<and>
    serves files' y saved \<and> c_Delta saved = Some delta \<and> serves files' x delta \<and>
    ReloadIndex decode files' saved = (Inr (), again) \<and>
    serves files' y again \<and> c_Delta again = Some delta' \<and> serves files' x delta'"
proof -
  from w base(1) obtain x delta_data saved delta where s: "BuildIndexData l f32_ratio scores (c_Store ctx) = Some x"
    "0 < IFH_NumDocuments (x_Header x)" "LoadFromBytes decode delta_data = Inr x"
    "SaveIndex l f32_ratio scores (DeltaIndexPath base) files ctx = Some (Inr (), files(DeltaIndexPath base \<mapsto> delta_data), saved)"
    "c_Delta saved = Some delta" "\<And>files'. serves files' x delta"
    "c_Built saved = c_Built ctx" "c_Read saved = c_Read ctx" "c_File saved = c_File ctx" "c_IndexPath saved = Some base"
    "c_LoadDelta saved = c_LoadDelta ctx" "cache_fits saved = cache_fits ctx"
    by (rule SaveIndex_delta [where files = files and decode = decode]) blast
  let ?files = "files(DeltaIndexPath base \<mapsto> delta_data)"
  note other = DeltaIndexPath_other [of base, symmetric]
  have saved: "serves ?files y saved" by (rule serves_cong [OF served(1) s(7-9)]) (use served(2) other in simp)
  have data: "?files base = Some data" "cache_fits saved" using loads(1) other s(12) assms(9) by simp_all
  from LoadIndex_serves [where files = ?files and name = base, OF loads(2) data(1) base(2) data(2)] obtain again where
    a: "LoadIndex decode ?files base saved = (Inr (), again)" "serves ?files y again" "c_IndexPath again = Some base"
      "c_LoadDelta again = c_LoadDelta saved" "again = LoadDeltaIndex decode ?files again" by blast
  have "c_LoadDelta again" using a(4) s(11) base(3) by simp
  with LoadDeltaIndex_serves [where files = ?files and base = base, OF s(3) _ s(2) a(3)] obtain delta' where
    "LoadDeltaIndex decode ?files again = again\<lparr>c_Delta := Some delta'\<rparr>" "serves ?files x delta'" by auto
  moreover from this(1) a(5) have "c_Delta again = Some delta'" by (metis context_state.select_convs(1) context_state.update_convs(1) context_state.surjective)
  moreover have "ReloadIndex decode ?files saved = (Inr (), again)" using a(1) s(10) by (simp add: ReloadIndex_def)
  ultimately show ?thesis using s(1,4-6) saved a(2) by blast
qed

subsection \<open>Two ways to lose an index\<close>


text \<open>What \<open>SaveIndex\<close> writes for a context that has built nothing.\<close>

lemma zeroed_header: "header_to_bytes IndexFileHeader_zeroed = replicate 136 0"
proof -
  have "le_nat n 0 = replicate n 0" for n by (induction n) simp_all
  then show ?thesis
    by (simp add: header_to_bytes_def IndexFileHeader_zeroed_def header_words_def u32_to_le_def u64_to_le_def
        replicate_add [symmetric] replicate_app_Cons_same)
qed

lemma Save_empty:
  defines "data \<equiv> replicate (INDEX_FILE_HEADER_SIZE + PATH_PREFIX_SIDECAR_BYTES) (0 :: u8)"
  shows "Save (x_Header index_empty) (x_BlockTable index_empty) (x_DocData index_empty) (x_PathPrefixSidecar index_empty) = Inr data"
    and "header_parse data = Inl InvalidFormat" and "INDEX_FILE_HEADER_SIZE \<le> length data"
proof -
  have bytes: "header_to_bytes IndexFileHeader_zeroed @ replicate PATH_PREFIX_SIDECAR_BYTES 0 = data"
    by (simp add: data_def zeroed_header INDEX_FILE_HEADER_SIZE_def replicate_add)
  have "is_zeroed IndexFileHeader_zeroed" by (simp add: is_zeroed_def zeroed_header list_all_iff)
  moreover have "m_HeadTermEntries IndexBlockTable_new = []" "LeafTermBlocks IndexBlockTable_new = []" "IndexBlocks IndexBlockTable_new = []"
    "m_TermMphfDisplacements IndexBlockTable_new = []" "m_TermMphfEntryPages IndexBlockTable_new = []"
    by (simp_all add: IndexBlockTable_new_def LeafTermBlocks_def IndexBlocks_def CopyPoolBlocks_def BlockCacheState_new_def)
  moreover have "IFH_NumDocuments IndexFileHeader_zeroed = 0" "IFH_HeadTermEntryCount IndexFileHeader_zeroed = 0"
    "IFH_LeafTermBlockCount IndexFileHeader_zeroed = 0" "IFH_IndexBlockCount IndexFileHeader_zeroed = 0"
    "IFH_TermMphfHeaderCount IndexFileHeader_zeroed = 0" "IFH_TermMphfDisplacementCount IndexFileHeader_zeroed = 0"
    "IFH_TermMphfEntryPageCount IndexFileHeader_zeroed = 0" by (simp_all add: IndexFileHeader_zeroed_def)
  ultimately show "Save (x_Header index_empty) (x_BlockTable index_empty) (x_DocData index_empty) (x_PathPrefixSidecar index_empty) = Inr data"
    by (simp add: Save_def index_empty_def save_sections_def ok_or_invalid_def checked_mul64_def list_ex_iff Let_def bytes)
  have "subslice 0 8 data = replicate 8 0" by (simp add: data_def INDEX_FILE_HEADER_SIZE_def subslice_def)
  moreover have "replicate 8 (0 :: u8) \<noteq> INDEX_FILE_MAGIC"
  proof
    assume "replicate 8 (0 :: u8) = INDEX_FILE_MAGIC"
    then have "hd (replicate 8 (0 :: u8)) = hd INDEX_FILE_MAGIC" by simp
    then show False by (simp add: INDEX_FILE_MAGIC_def str_simps)
  qed
  ultimately show "header_parse data = Inl InvalidFormat" by (simp add: header_parse_def)
  show "INDEX_FILE_HEADER_SIZE \<le> length data" by (simp add: data_def)
qed

text \<open>
  C35. Saving a context right after loading destroys the index: in a context that has built nothing for
  writing before, \<open>SaveIndexCurrent\<close> after a successful load reports success and replaces the file of
  the index by zeros, an empty header and an empty table of directories without a single term or
  document; no other file is touched, and loading that path, by whatever context, is then an error.
\<close>

theorem SaveIndexCurrent_destroys:
  assumes load: "LoadIndex decode files name ctx = (Inr (), loaded)"
    and fresh: "c_Write ctx = index_empty" "\<not> c_WriteBuilt ctx"
  shows "\<exists>files' saved. SaveIndexCurrent l f32_ratio scores files loaded = Some (Inr (), files', saved) \<and>
    files' = files(name \<mapsto> replicate (INDEX_FILE_HEADER_SIZE + PATH_PREFIX_SIDECAR_BYTES) 0) \<and>
    (\<forall>other. fst (LoadIndex decode files' name other) = Inl InvalidFormat)"
proof -
  obtain x where x: "LoadIndex_tables decode (c_LeafTermCacheBytes ctx) files name = Inr x"
    using load by (cases "LoadIndex_tables decode (c_LeafTermCacheBytes ctx) files name") (simp_all add: LoadIndex_def load_core_def)
  let ?core = "ctx\<lparr>c_Delta := None, c_IndexPath := Some name, c_Store := PostingStore_new, c_Read := x, c_File := Some name,
      c_Built := True, c_LoadedFromDisk := True\<rparr>"
  obtain d where "LoadDeltaIndex decode files ?core = ?core\<lparr>c_Delta := d\<rparr>" using LoadDeltaIndex_core by blast
  then have loaded: "loaded = ?core\<lparr>c_Delta := d\<rparr>" using load x by (simp add: LoadIndex_def load_core_def)
  let ?data = "replicate (INDEX_FILE_HEADER_SIZE + PATH_PREFIX_SIDECAR_BYTES) (0 :: u8)"
  let ?saved = "drop_loaded (loaded\<lparr>c_WriteBuilt := True\<rparr>)"
  have "SaveIndexCurrent l f32_ratio scores files loaded = Some (Inr (), files(name \<mapsto> ?data), ?saved)"
    using fresh Save_empty(1) DeltaIndexPath_other [of name]
    by (simp add: SaveIndexCurrent_def SaveIndex_def build_write_def loaded drop_loaded_def PostingStore_new_def Let_def)
  moreover have "fst (LoadIndex decode (files(name \<mapsto> ?data)) name other) = Inl InvalidFormat" for other
  proof -
    have "read_exact 0 INDEX_FILE_HEADER_SIZE ?data = Inr (subslice 0 136 ?data)"
      using Save_empty(3) read_exact_slice [of 0 136 ?data] by (simp add: INDEX_FILE_HEADER_SIZE_def)
    moreover have "header_parse (subslice 0 136 ?data) = Inl InvalidFormat"
      using Save_empty(2,3) header_parse_prefix [of ?data] by (simp add: INDEX_FILE_HEADER_SIZE_def)
    ultimately show ?thesis
      by (simp add: LoadIndex_def load_core_def LoadIndex_tables_def LoadFileTables_def open_file_def bind_result_def Let_def)
  qed
  ultimately show ?thesis by blast
qed

text \<open>
  The image for writing outlives its store. Once built, it is saved again whatever the store holds by
  then, as after documents were added through the writer of \<open>GetWriter\<close>; and loading another index
  replaces the store but keeps the image, so that the next save writes the documents of before.
\<close>

lemma stale_write_saved:
  assumes "c_WriteBuilt ctx"
    and "Save (x_Header (c_Write ctx)) (x_BlockTable (c_Write ctx)) (x_DocData (c_Write ctx)) (x_PathPrefixSidecar (c_Write ctx)) = Inr data"
  shows "\<exists>ctx'. SaveIndex l f32_ratio scores name files (ctx\<lparr>c_Store := store\<rparr>) = Some (Inr (), files(name \<mapsto> data), ctx')"
  using assms by (auto simp: SaveIndex_def build_write_def drop_loaded_def Let_def split: option.split)

lemma load_keeps_write:
  assumes "LoadIndex decode files name ctx = (result, loaded)"
  shows "c_Write loaded = c_Write ctx \<and> c_WriteBuilt loaded = c_WriteBuilt ctx"
proof (cases "LoadIndex_tables decode (c_LeafTermCacheBytes ctx) files name")
  case (Inl err)
  then have "loaded = ctx\<lparr>c_Delta := None, c_IndexPath := Some name\<rparr>"
    using assms by (simp add: LoadIndex_def load_core_def)
  then show ?thesis by simp
next
  case (Inr x)
  let ?core = "ctx\<lparr>c_Delta := None, c_IndexPath := Some name, c_Store := PostingStore_new, c_Read := x, c_File := Some name,
      c_Built := True, c_LoadedFromDisk := True\<rparr>"
  obtain d where "LoadDeltaIndex decode files ?core = ?core\<lparr>c_Delta := d\<rparr>" using LoadDeltaIndex_core by blast
  then have "loaded = ?core\<lparr>c_Delta := d\<rparr>" using assms Inr by (simp add: LoadIndex_def load_core_def)
  then show ?thesis by simp
qed

subsection \<open>Searching\<close>







text \<open>A store with postings only for documents it has, and bigrams only where their words are.\<close>

definition query_store :: "PostingStore \<Rightarrow> bool" where
  "query_store s \<longleftrightarrow> bigram_sound (docs_of s) \<and> (\<forall>key. docs_of s key \<subseteq> fst ` set (m_DocStats s)) \<and> docs_of s [] = {}"


text \<open>What the writer makes is such a store.\<close>

lemma written_query_store: "written tokenize s \<Longrightarrow> tokenizer_plain tokenize \<Longrightarrow> docs_of s [] = {} \<Longrightarrow> query_store s"
  using written_bigram_sound_docs written_docs_stats by (auto simp: query_store_def)





subsection \<open>Merging\<close>

text \<open>A context with a delta, in front of the indexes of two stores.\<close>

definition base_and_delta ::
  "(nat \<Rightarrow> rat) \<Rightarrow> (u64 \<Rightarrow> u64 \<Rightarrow> f32_bits) \<Rightarrow> (DocStats \<Rightarrow> doc_scores) \<Rightarrow> PostingStore \<Rightarrow> PostingStore \<Rightarrow> file_system \<Rightarrow>
   context_state \<Rightarrow> bool" where
  "base_and_delta l f32_ratio scores s1 s2 files ctx \<longleftrightarrow>
     (\<exists>x1 x2 r1 r2 delta. saved_build l f32_ratio scores s1 r1 \<and> BuildIndexData l f32_ratio scores s1 = Some x1 \<and> serves files x1 ctx \<and>
        saved_build l f32_ratio scores s2 r2 \<and> BuildIndexData l f32_ratio scores s2 = Some x2 \<and> serves files x2 delta \<and>
        c_Delta ctx = Some delta)"







subsection \<open>Two documents, saved, published and merged\<close>

definition empty_context :: context_state where
  "empty_context = context_core.extend (core_new None True) (context_state.fields None)"

lemma empty_context_simps [simp]:
  "c_Write empty_context = index_empty" "\<not> c_WriteBuilt empty_context" "c_LoadDelta empty_context" "cache_fits empty_context"
  by (simp_all add: empty_context_def cache_fits_def context_core.defs context_state.defs core_new_def LEAF_TERM_CACHE_BYTES_def PAGE_SIZE_def)

lemma one_store_fresh:
  assumes "d = 0 \<or> d = 1 \<or> d = 2" and "c_Store ctx = one_store d" "\<not> c_WriteBuilt ctx"
  obtains r where "fresh_write demo_log2 (\<lambda>_ _. 0) zero_scores ctx r"
proof -
  obtain r where "saved_build demo_log2 (\<lambda>_ _. 0) zero_scores (one_store d) r" using one_store_saved [OF assms(1)] by blast
  then show ?thesis using that assms(2,3) by (simp add: fresh_write_def one_store_parts)
qed

theorem saved_context_loads_witness:
  "\<exists>x files' ctx' loaded. BuildIndexData demo_log2 (\<lambda>_ _. 0) zero_scores (one_store 0) = Some x \<and>
     SaveIndex demo_log2 (\<lambda>_ _. 0) zero_scores (str ''a.idx'') (\<lambda>_. None) (empty_context\<lparr>c_Store := one_store 0\<rparr>) = Some (Inr (), files', ctx') \<and>
     LoadIndex (\<lambda>_. 0) files' (str ''a.idx'') empty_context = (Inr (), loaded) \<and> serves files' x loaded"
proof -
  obtain r where r: "fresh_write demo_log2 (\<lambda>_ _. 0) zero_scores (empty_context\<lparr>c_Store := one_store 0\<rparr>) r"
    by (rule one_store_fresh [of 0 "empty_context\<lparr>c_Store := one_store 0\<rparr>"]) simp_all
  have "str ''a.idx'' \<noteq> []" by (simp add: str_simps)
  from saved_context_loads [OF r this empty_context_simps(4), of "\<lambda>_. None" "\<lambda>_. 0"] show ?thesis by auto
qed

text \<open>A file with the first document, and a context that has loaded it.\<close>

lemma demo_loaded:
  obtains x data ctx where "BuildIndexData demo_log2 (\<lambda>_ _. 0) zero_scores (one_store 0) = Some x"
    "LoadFromBytes (\<lambda>_. 0) data = Inr x" "LoadIndex (\<lambda>_. 0) [str ''a.idx'' \<mapsto> data] (str ''a.idx'') empty_context = (Inr (), ctx)"
    "serves [str ''a.idx'' \<mapsto> data] x ctx" "c_IndexPath ctx = Some (str ''a.idx'')" "c_File ctx = Some (str ''a.idx'')"
    "c_LoadDelta ctx" "cache_fits ctx" "\<not> c_WriteBuilt ctx"
proof -
  obtain r where "saved_build demo_log2 (\<lambda>_ _. 0) zero_scores (one_store 0) r" using one_store_saved [of 0] by blast
  from saved_loads [OF this, where decode = "\<lambda>_. 0"] obtain x data where
    x: "BuildIndexData demo_log2 (\<lambda>_ _. 0) zero_scores (one_store 0) = Some x" "LoadFromBytes (\<lambda>_. 0) data = Inr x" by blast
  let ?files = "[str ''a.idx'' \<mapsto> data]"
  have "?files (str ''a.idx'') = Some data" "str ''a.idx'' \<noteq> []" by (simp_all add: str_simps)
  from LoadIndex_serves [where files = ?files and name = "str ''a.idx''", OF x(2) this empty_context_simps(4)] obtain ctx where
    l: "LoadIndex (\<lambda>_. 0) ?files (str ''a.idx'') empty_context = (Inr (), ctx)" "serves ?files x ctx" "c_IndexPath ctx = Some (str ''a.idx'')"
      "c_LoadDelta ctx = c_LoadDelta empty_context" "c_WriteBuilt ctx = c_WriteBuilt empty_context" "cache_fits ctx" by blast
  have "c_File ctx = Some (str ''a.idx'')" using LoadIndex_file [OF l(1)] by simp
  with that [OF x l(1-3)] l(4-6) show ?thesis by simp
qed

theorem SaveIndexCurrent_destroys_witness:
  "\<exists>data loaded files' saved. LoadIndex (\<lambda>_. 0) [str ''a.idx'' \<mapsto> data] (str ''a.idx'') empty_context = (Inr (), loaded) \<and>
     SaveIndexCurrent demo_log2 (\<lambda>_ _. 0) zero_scores [str ''a.idx'' \<mapsto> data] loaded = Some (Inr (), files', saved) \<and>
     fst (LoadIndex (\<lambda>_. 0) files' (str ''a.idx'') empty_context) = Inl InvalidFormat"
proof -
  obtain data ctx where "LoadIndex (\<lambda>_. 0) [str ''a.idx'' \<mapsto> data] (str ''a.idx'') empty_context = (Inr (), ctx)"
    by (rule demo_loaded) blast
  from this SaveIndexCurrent_destroys [OF this empty_context_simps(1,2), of demo_log2 "\<lambda>_ _. 0" zero_scores] show ?thesis by blast
qed

theorem published_delta_reloads_witness:
  "\<exists>files ctx files' saved delta again. c_Store ctx = one_store 1 \<and>
     SaveIndex demo_log2 (\<lambda>_ _. 0) zero_scores (DeltaIndexPath (str ''a.idx'')) files ctx = Some (Inr (), files', saved) \<and>
     c_Delta saved = Some delta \<and> ReloadIndex (\<lambda>_. 0) files' saved = (Inr (), again) \<and> c_Delta again \<noteq> None"
proof -
  obtain x data and ctx :: context_state where c: "LoadFromBytes (\<lambda>_. 0) data = Inr x" "serves [str ''a.idx'' \<mapsto> data] x ctx"
    "c_IndexPath ctx = Some (str ''a.idx'')" "c_File ctx = Some (str ''a.idx'')" "c_LoadDelta ctx" "cache_fits ctx" "\<not> c_WriteBuilt ctx"
    by (rule demo_loaded) blast
  let ?ctx = "ctx\<lparr>c_Store := one_store 1\<rparr>" and ?files = "[str ''a.idx'' \<mapsto> data]"
  have s: "serves ?files x ?ctx" by (rule serves_cong [OF c(2)]) simp_all
  obtain r where r: "fresh_write demo_log2 (\<lambda>_ _. 0) zero_scores ?ctx r" using one_store_fresh [of 1 ?ctx] c(7) by auto
  have "str ''a.idx'' \<noteq> []" "c_IndexPath ?ctx = Some (str ''a.idx'')" "c_LoadDelta ?ctx" "c_File ?ctx = Some (str ''a.idx'')"
    "?files (str ''a.idx'') = Some data" "cache_fits ?ctx" using c by (simp_all add: str_simps cache_fits_def)
  from published_delta_reloads [OF r this(2,1,3) s this(4,5) c(1) this(6)] obtain files' saved delta again delta' where
    "SaveIndex demo_log2 (\<lambda>_ _. 0) zero_scores (DeltaIndexPath (str ''a.idx'')) ?files ?ctx = Some (Inr (), files', saved)"
    "c_Delta saved = Some delta" "ReloadIndex (\<lambda>_. 0) files' saved = (Inr (), again)" "c_Delta again = Some delta'" by blast
  moreover have "c_Store ?ctx = one_store 1" by simp
  ultimately show ?thesis by blast
qed


text \<open>The index of the first document with the second as its delta.\<close>

lemma demo_published:
  obtains files ctx where "base_and_delta demo_log2 (\<lambda>_ _. 0) zero_scores (one_store 0) (one_store 1) files ctx" "cache_fits ctx"
proof -
  obtain x data and ctx :: context_state where c: "BuildIndexData demo_log2 (\<lambda>_ _. 0) zero_scores (one_store 0) = Some x" "serves [str ''a.idx'' \<mapsto> data] x ctx"
    "c_IndexPath ctx = Some (str ''a.idx'')" "c_File ctx = Some (str ''a.idx'')" "cache_fits ctx" "\<not> c_WriteBuilt ctx"
    by (rule demo_loaded) blast
  let ?ctx = "ctx\<lparr>c_Store := one_store 1\<rparr>" and ?files = "[str ''a.idx'' \<mapsto> data]"
  obtain r where r: "fresh_write demo_log2 (\<lambda>_ _. 0) zero_scores ?ctx r" using one_store_fresh [of 1 ?ctx] c(6) by auto
  have path: "c_IndexPath ?ctx = Some (str ''a.idx'')" using c(3) by simp
  from r path obtain y delta and saved :: context_state where s: "BuildIndexData demo_log2 (\<lambda>_ _. 0) zero_scores (c_Store ?ctx) = Some y"
    "c_Delta saved = Some delta" "\<And>files'. serves files' y delta" "c_Built saved = c_Built ?ctx" "c_Read saved = c_Read ?ctx"
    "c_File saved = c_File ?ctx" "cache_fits saved = cache_fits ?ctx"
    by (rule SaveIndex_delta [where files = ?files and decode = "\<lambda>_. 0"]) blast
  have served: "serves ?files x saved" by (rule serves_cong [OF c(2)]) (simp_all add: s)
  obtain r0 where r0: "saved_build demo_log2 (\<lambda>_ _. 0) zero_scores (one_store 0) r0" using one_store_saved [of 0] by blast
  have r1: "saved_build demo_log2 (\<lambda>_ _. 0) zero_scores (one_store 1) r" using r by (simp add: fresh_write_def)
  have "base_and_delta demo_log2 (\<lambda>_ _. 0) zero_scores (one_store 0) (one_store 1) ?files saved"
    unfolding base_and_delta_def using r0 r1 c(1) served s(1-3) by auto
  then show ?thesis using that s(7) c(5) by (simp add: cache_fits_def)
qed

lemma one_store_query: "query_store (one_store d)"
proof -
  have docs: "docs_of (one_store d) key = (if key = demo_key then {d} else {})" for key
    by (simp add: docs_of_entries entry_or_def one_store_parts one_list_def PostingList_default_def)
  have "a @ [BIGRAM_SEP] @ b @ s \<noteq> demo_key" if "s \<in> text_streams" for a b s
  proof
    assume "a @ [BIGRAM_SEP] @ b @ s = demo_key"
    then have "BIGRAM_SEP \<in> set demo_key" by (metis Un_iff list.set_intros(1) set_append)
    then show False by (simp add: demo_key_def BIGRAM_SEP_def)
  qed
  then show ?thesis by (simp add: query_store_def bigram_sound_def docs one_store_parts) (simp add: demo_key_def)
qed

subsection \<open>Ids and paths\<close>

text \<open>The first document added after a load is numbered behind the index and its delta.\<close>

lemma first_id_after_load:
  assumes "c_Store ctx = PostingStore_new" and "d_doc_id doc = 0xFFFFFFFFFFFFFFFF"
  shows "fst (ctx_AddDocument tok model doc b ctx) =
    (case c_Delta ctx of None \<Rightarrow> ids_end ctx | Some delta \<Rightarrow> max (ids_end ctx) (ids_end delta))"
  using assms by (simp add: ctx_AddDocument_def fst_AddDocument stored_id_def AllocateDocumentID_def PostingStore_new_def
      case_prod_beta split: option.split)

text \<open>
  The context remembers one path for two purposes. An index that was loaded from one path and saved to
  another one still reads its pages from the first; saving to the first then replaces the file that is
  read without dropping the loaded tables.
\<close>

lemma build_write_keeps:
  "build_write l f32_ratio scores ctx = Some ctx' \<Longrightarrow> c_File ctx' = c_File ctx \<and> c_Read ctx' = c_Read ctx \<and> c_Built ctx' = c_Built ctx"
  by (auto simp: build_write_def split: if_splits)

lemma open_file_overwritten:
  assumes "c_File ctx = Some name" and path: "c_IndexPath ctx = Some other" "other \<noteq> name" "name \<noteq> DeltaIndexPath other"
    and save: "SaveIndex l f32_ratio scores name files ctx = Some (Inr (), files', ctx')"
  shows "c_File ctx' = Some name \<and> c_Read ctx' = c_Read ctx \<and> c_Built ctx' = c_Built ctx \<and>
    Save (x_Header (c_Write ctx')) (x_BlockTable (c_Write ctx')) (x_DocData (c_Write ctx')) (x_PathPrefixSidecar (c_Write ctx')) =
      Inr (the (files' name))"
proof (cases "build_write l f32_ratio scores (ctx\<lparr>c_IndexPath := Some name\<rparr>)")
  case None
  then show ?thesis using save path by (simp add: SaveIndex_def)
next
  case (Some b)
  then have "SaveIndex l f32_ratio scores name files ctx =
      (case Save (x_Header (c_Write b)) (x_BlockTable (c_Write b)) (x_DocData (c_Write b)) (x_PathPrefixSidecar (c_Write b)) of
         Inl err \<Rightarrow> Some (Inl err, files, b) | Inr data \<Rightarrow> Some (Inr (), files(name \<mapsto> data), b))"
    using path by (simp add: SaveIndex_def)
  then show ?thesis using save build_write_keeps [OF Some] assms(1) by (auto split: sum.splits)
qed

end
