(* ===== verification/Stemmer.thy ===== *)
theory Stemmer
  imports Prelude
begin

text \<open>
  The English stemmer of \<open>Tokenizer/SmartTokenizer.rs\<close> (\<open>porter2_stem\<close> and its steps) on the bytes of
  a word of lower-case ASCII letters.

  Two accesses subtract from the length of the word (\<open>word.len() - 3\<close> in \<open>step_2\<close>, \<open>word.len() - 4\<close> in
  \<open>step_4\<close>, and the index of the letter before \<open>ogi\<close>); a subtraction below zero is a panic, \<open>None\<close>. All
  other indices run over the range of the word. The theorem: no word panics, and the stem is a
  nonempty word of lower-case letters, not longer than the word.
\<close>

subsection \<open>Vowels and regions\<close>

definition is_ascii_lowercase :: "u8 \<Rightarrow> bool" where
  "is_ascii_lowercase b \<longleftrightarrow> 0x61 \<le> b \<and> b \<le> 0x7A"

definition is_vowel :: "u8 \<Rightarrow> bool" where
  "is_vowel ch \<longleftrightarrow> ch \<in> set (str ''aeiouy'')"

definition is_vowel_at :: "bytes \<Rightarrow> nat \<Rightarrow> bool list \<Rightarrow> bool" where
  "is_vowel_at word index marked_y \<longleftrightarrow>
     is_vowel (word ! index) \<and> \<not> (word ! index = 0x79 \<and> index < length marked_y \<and> marked_y ! index)"

definition mark_consonant_y :: "bytes \<Rightarrow> bool list" where
  "mark_consonant_y word =
     fold (\<lambda>index marked.
         if word ! index = 0x79 \<and> (index = 0 \<or> is_vowel_at word (index - 1) marked) then marked[index := True] else marked)
       [0..<length word] (replicate (length word) False)"

definition starts_with :: "rstr \<Rightarrow> rstr \<Rightarrow> bool" where
  "starts_with word s \<longleftrightarrow> take (length s) word = s"

definition ends_with :: "rstr \<Rightarrow> rstr \<Rightarrow> bool" where
  "ends_with word s \<longleftrightarrow> length s \<le> length word \<and> drop (length word - length s) word = s"

definition special_r1 :: "rstr \<Rightarrow> nat" where
  "special_r1 word =
     (if starts_with word (str ''gener'') then 5
      else if starts_with word (str ''commun'') then 6
      else if starts_with word (str ''arsen'') then 5
      else 0)"

definition region_after_vowel_consonant :: "bytes \<Rightarrow> bool list \<Rightarrow> nat \<Rightarrow> nat \<Rightarrow> nat" where
  "region_after_vowel_consonant word marked_y start minimum =
     (if minimum > 0 then min minimum (length word)
      else case List.find (\<lambda>index. is_vowel_at word (index - 1) marked_y \<and> \<not> is_vowel_at word index marked_y)
                  [start + 1..<length word] of
             Some index \<Rightarrow> index + 1
           | None \<Rightarrow> length word)"

definition replace_suffix :: "rstr \<Rightarrow> rstr \<Rightarrow> rstr \<Rightarrow> rstr" where
  "replace_suffix word s replacement = take (length word - length s) word @ replacement"

definition suffix_in_region :: "rstr \<Rightarrow> rstr \<Rightarrow> nat \<Rightarrow> bool" where
  "suffix_in_region word s region \<longleftrightarrow> ends_with word s \<and> length word - length s \<ge> region"

definition contains_vowel :: "bytes \<Rightarrow> nat \<Rightarrow> bool list \<Rightarrow> bool" where
  "contains_vowel word stop marked_y \<longleftrightarrow> list_ex (\<lambda>index. is_vowel_at word index marked_y) [0..<stop]"

definition is_short_syllable :: "bytes \<Rightarrow> bool list \<Rightarrow> bool" where
  "is_short_syllable word marked_y \<longleftrightarrow>
     (if length word = 2 then is_vowel_at word 0 marked_y \<and> \<not> is_vowel_at word 1 marked_y
      else if length word < 3 then False
      else let end = length word - 1
           in \<not> is_vowel_at word (end - 2) marked_y \<and> is_vowel_at word (end - 1) marked_y \<and>
              \<not> is_vowel_at word end marked_y \<and> word ! end \<notin> set (str ''wxy''))"

text \<open>\<open>word[word.len() - k]\<close>: a panic when the word is shorter.\<close>

definition byte_back :: "bytes \<Rightarrow> nat \<Rightarrow> u8 option" where
  "byte_back word k = (if 0 < k \<and> k \<le> length word then Some (word ! (length word - k)) else None)"

subsection \<open>The steps\<close>

definition step_1a :: "rstr \<Rightarrow> bool list \<Rightarrow> rstr" where
  "step_1a word marked_y =
     (if ends_with word (str ''sses'') then replace_suffix word (str ''sses'') (str ''ss'')
      else if ends_with word (str ''ied'') \<or> ends_with word (str ''ies'') then
        replace_suffix word (drop (length word - 3) word) (if length word > 4 then str ''i'' else str ''ie'')
      else if ends_with word (str ''us'') \<or> ends_with word (str ''ss'') then word
      else if ends_with word (str ''s'') \<and> length word > 2 \<and>
              list_ex (\<lambda>index. is_vowel_at word index marked_y) [0..<length word - 2] then butlast word
      else word)"

definition double_endings :: "rstr list" where
  "double_endings = map str [''bb'', ''dd'', ''ff'', ''gg'', ''mm'', ''nn'', ''pp'', ''rr'', ''tt'']"

definition step_1b :: "rstr \<Rightarrow> nat \<Rightarrow> bool list \<Rightarrow> rstr" where
  "step_1b word r1 original_marked_y =
     (if suffix_in_region word (str ''eedly'') r1 then replace_suffix word (str ''eedly'') (str ''ee'')
      else if suffix_in_region word (str ''eed'') r1 then replace_suffix word (str ''eed'') (str ''ee'')
      else case List.find (ends_with word) (map str [''ingly'', ''edly'', ''ing'', ''ed'']) of
        None \<Rightarrow> word
      | Some s \<Rightarrow>
          let stem_length = length word - length s
          in if \<not> contains_vowel word stem_length original_marked_y then word
             else let word = take stem_length word
               in if ends_with word (str ''at'') \<or> ends_with word (str ''bl'') \<or> ends_with word (str ''iz'') then word @ str ''e''
                  else if list_ex (ends_with word) double_endings then butlast word
                  else if r1 \<ge> length word \<and> is_short_syllable word (mark_consonant_y word) then word @ str ''e''
                  else word)"

definition step_1c :: "rstr \<Rightarrow> bool list \<Rightarrow> rstr" where
  "step_1c word marked_y =
     (if length word \<le> 2 then word
      else if last word \<in> set (str ''yY'') \<and> \<not> is_vowel_at word (length word - 2) marked_y then butlast word @ str ''i''
      else word)"

definition step_2_rules :: "(rstr \<times> rstr) list" where
  "step_2_rules = map (\<lambda>(s, r). (str s, str r))
     [(''ization'', ''ize''), (''ational'', ''ate''), (''fulness'', ''ful''), (''ousness'', ''ous''), (''iveness'', ''ive''),
      (''tional'', ''tion''), (''biliti'', ''ble''), (''lessli'', ''less''), (''entli'', ''ent''), (''ation'', ''ate''),
      (''alism'', ''al''), (''aliti'', ''al''), (''ousli'', ''ous''), (''iviti'', ''ive''), (''fulli'', ''ful''),
      (''enci'', ''ence''), (''anci'', ''ance''), (''abli'', ''able''), (''izer'', ''ize''), (''ator'', ''ate''),
      (''alli'', ''al''), (''bli'', ''ble''), (''ogi'', ''og'')]"

definition step_2 :: "rstr \<Rightarrow> nat \<Rightarrow> rstr option" where
  "step_2 word r1 =
     (case List.find (\<lambda>(s, _). suffix_in_region word s r1) step_2_rules of
        Some (s, replacement) \<Rightarrow>
          if s \<noteq> str ''ogi'' then Some (replace_suffix word s replacement)
          else map_option (\<lambda>b. if b = 0x6C then replace_suffix word s replacement else word) (byte_back word 4)
      | None \<Rightarrow>
          if suffix_in_region word (str ''li'') r1 then
            map_option (\<lambda>preceding. if preceding \<in> set (str ''cdeghkmnrt'') then replace_suffix word (str ''li'') [] else word)
              (byte_back word 3)
          else Some word)"

definition step_3_rules :: "(rstr \<times> rstr) list" where
  "step_3_rules = map (\<lambda>(s, r). (str s, str r))
     [(''ational'', ''ate''), (''tional'', ''tion''), (''alize'', ''al''), (''icate'', ''ic''), (''iciti'', ''ic''),
      (''ical'', ''ic''), (''ful'', []), (''ness'', [])]"

definition step_3 :: "rstr \<Rightarrow> nat \<Rightarrow> nat \<Rightarrow> rstr" where
  "step_3 word r1 r2 =
     (case List.find (\<lambda>(s, _). suffix_in_region word s r1) step_3_rules of
        Some (s, replacement) \<Rightarrow> replace_suffix word s replacement
      | None \<Rightarrow> if suffix_in_region word (str ''ative'') r2 then replace_suffix word (str ''ative'') [] else word)"

definition step_4_suffixes :: "rstr list" where
  "step_4_suffixes = map str [''ement'', ''ance'', ''ence'', ''able'', ''ible'', ''ment'', ''ant'', ''ent'', ''ism'', ''ate'', ''iti'',
     ''ous'', ''ive'', ''ize'', ''al'', ''er'', ''ic'']"

definition step_4 :: "rstr \<Rightarrow> nat \<Rightarrow> rstr option" where
  "step_4 word r2 =
     (case List.find (\<lambda>s. suffix_in_region word s r2) step_4_suffixes of
        Some s \<Rightarrow> Some (replace_suffix word s [])
      | None \<Rightarrow>
          if suffix_in_region word (str ''ion'') r2 then
            map_option (\<lambda>preceding. if preceding \<in> set (str ''st'') then replace_suffix word (str ''ion'') [] else word)
              (byte_back word 4)
          else if suffix_in_region word (str ''ou'') r2 then Some (replace_suffix word (str ''ou'') [])
          else Some word)"

definition step_5 :: "rstr \<Rightarrow> nat \<Rightarrow> nat \<Rightarrow> bool list \<Rightarrow> rstr" where
  "step_5 word r1 r2 original_marked_y =
     (if ends_with word (str ''e'') then
        let e_position = length word - 1
        in if e_position \<ge> r2 then butlast word
           else if e_position \<ge> r1 then
             (let stem = take e_position word; marked = take (length stem) original_marked_y
              in if \<not> is_short_syllable stem marked then butlast word else word)
           else word
      else if ends_with word (str ''ll'') \<and> length word > r2 then butlast word
      else word)"

definition stem_exceptions :: "(rstr \<times> rstr) list" where
  "stem_exceptions = map (\<lambda>(s, r). (str s, str r))
     [(''skis'', ''ski''), (''skies'', ''sky''), (''dying'', ''die''), (''lying'', ''lie''), (''tying'', ''tie''), (''idly'', ''idl''),
      (''gently'', ''gentl''), (''ugly'', ''ugli''), (''early'', ''earli''), (''only'', ''onli''), (''singly'', ''singl''),
      (''sky'', ''sky''), (''news'', ''news''), (''howe'', ''howe''), (''atlas'', ''atlas''), (''cosmos'', ''cosmos''),
      (''bias'', ''bias''), (''andes'', ''andes'')]"

definition finished_after_1a :: "rstr list" where
  "finished_after_1a = map str [''inning'', ''outing'', ''canning'', ''herring'', ''earring'', ''proceed'', ''exceed'', ''succeed'']"

definition porter2_stem :: "rstr \<Rightarrow> rstr option" where
  "porter2_stem token =
     (case map_of stem_exceptions token of
        Some stem \<Rightarrow> Some stem
      | None \<Rightarrow>
          let marked_y = mark_consonant_y token;
              r1 = region_after_vowel_consonant token marked_y 0 (special_r1 token);
              r2 = region_after_vowel_consonant token marked_y r1 0;
              word = step_1a token marked_y
          in if word \<in> set finished_after_1a then Some word
             else case step_2 (step_1c (step_1b word r1 marked_y) marked_y) r1 of
                    None \<Rightarrow> None
                  | Some word \<Rightarrow>
                      (case step_4 (step_3 word r1 r2) r2 of
                         None \<Rightarrow> None
                       | Some word \<Rightarrow> Some (step_5 word r1 r2 marked_y)))"

definition StemEnglishToken :: "rstr \<Rightarrow> rstr option" where
  "StemEnglishToken token =
     (if token = [] \<or> \<not> list_all is_ascii_lowercase token then Some token else porter2_stem token)"

subsection \<open>Stems are words\<close>

definition word_within :: "nat \<Rightarrow> rstr \<Rightarrow> bool" where
  "word_within n w \<longleftrightarrow> w \<noteq> [] \<and> length w \<le> n \<and> list_all is_ascii_lowercase w"

lemma lower_take: "list_all is_ascii_lowercase w \<Longrightarrow> list_all is_ascii_lowercase (take k w)"
  by (auto simp: list_all_iff dest: in_set_takeD)

lemma word_within_butlast: "word_within n w \<Longrightarrow> 2 \<le> length w \<Longrightarrow> word_within n (butlast w)"
  by (cases w rule: rev_cases) (auto simp: word_within_def)

lemma word_within_replace:
  assumes "word_within n w" and "ends_with w s" and "list_all is_ascii_lowercase r" and "length r \<le> length s"
    and "r \<noteq> [] \<or> length s < length w"
  shows "word_within n (replace_suffix w s r)"
  using assms by (auto simp: word_within_def replace_suffix_def ends_with_def lower_take)

lemma word_within_region:
  assumes "word_within n w" and "suffix_in_region w s region" and "0 < region" and "list_all is_ascii_lowercase r"
    and "length r \<le> length s"
  shows "word_within n (replace_suffix w s r)"
  using assms by (intro word_within_replace) (auto simp: suffix_in_region_def ends_with_def)

text \<open>The rules replace a suffix by one that is not longer, in lower case.\<close>

lemma step_rules_ok:
  "\<forall>(s, r) \<in> set step_2_rules. list_all is_ascii_lowercase r \<and> length r \<le> length s"
  "\<forall>(s, r) \<in> set step_3_rules. list_all is_ascii_lowercase r \<and> length r \<le> length s"
  "\<forall>(s, r) \<in> set stem_exceptions. list_all is_ascii_lowercase r \<and> length r \<le> length s \<and> r \<noteq> []"
  by (simp_all add: step_2_rules_def step_3_rules_def stem_exceptions_def str_simps is_ascii_lowercase_def)

lemma find_SomeD: "List.find P xs = Some x \<Longrightarrow> x \<in> set xs \<and> P x"
  by (induction xs) (auto split: if_splits)

lemma region_pos: "word \<noteq> [] \<Longrightarrow> 0 < region_after_vowel_consonant word marked_y start minimum"
  by (auto simp: region_after_vowel_consonant_def split: option.splits)

lemma step_1a_within:
  assumes w: "word_within n w"
  shows "word_within n (step_1a w marked_y)"
proof -
  have 1: "word_within n (replace_suffix w (str ''sses'') (str ''ss''))" if "ends_with w (str ''sses'')"
    using w that by (intro word_within_replace) (simp_all add: str_simps is_ascii_lowercase_def)
  have 2: "word_within n (replace_suffix w (drop (length w - 3) w) (if length w > 4 then str ''i'' else str ''ie''))" if "3 \<le> length w"
    using w that by (intro word_within_replace) (simp_all add: str_simps is_ascii_lowercase_def ends_with_def)
  have 3: "3 \<le> length w" if "ends_with w (str ''ied'') \<or> ends_with w (str ''ies'')"
    using that by (auto simp: str_simps ends_with_def)
  have 4: "word_within n (butlast w)" if "2 < length w" using word_within_butlast [OF w] that by simp
  show ?thesis using w 1 2 3 4 by (auto simp: step_1a_def)
qed

lemma step_1b_within:
  assumes w: "word_within n w" and r1: "0 < r1"
  shows "word_within n (step_1b w r1 marked_y)"
proof (cases "suffix_in_region w (str ''eedly'') r1 \<or> suffix_in_region w (str ''eed'') r1")
  case True
  then show ?thesis
    using word_within_region [OF w _ r1] by (auto simp: step_1b_def str_simps is_ascii_lowercase_def)
next
  case eed: False
  show ?thesis
  proof (cases "List.find (ends_with w) (map str [''ingly'', ''edly'', ''ing'', ''ed''])")
    case None
    then show ?thesis using eed w by (simp add: step_1b_def)
  next
    case (Some s)
    from find_SomeD [OF Some] have s: "ends_with w s" "2 \<le> length s" by (auto simp: str_simps)
    let ?k = "length w - length s" and ?w = "take (length w - length s) w"
    show ?thesis
    proof (cases "contains_vowel w ?k marked_y")
      case False
      then show ?thesis using eed Some w by (simp add: step_1b_def)
    next
      case True
      then have "0 < ?k" by (cases "?k = 0") (auto simp: contains_vowel_def)
      then have len: "?w \<noteq> []" "length ?w + 2 \<le> n" "list_all is_ascii_lowercase ?w"
        using w s by (auto simp: word_within_def ends_with_def lower_take)
      have 1: "word_within n ?w" "word_within n (?w @ str ''e'')" using len by (auto simp: word_within_def str_simps is_ascii_lowercase_def)
      have 2: "word_within n (butlast ?w)" if "list_ex (ends_with ?w) double_endings"
      proof (rule word_within_butlast [OF 1(1)])
        from that show "2 \<le> length ?w" by (auto simp: list_ex_iff double_endings_def ends_with_def str_simps)
      qed
      show ?thesis using eed Some True 1 2 by (simp add: step_1b_def Let_def)
    qed
  qed
qed

lemma step_1c_within: "word_within n w \<Longrightarrow> word_within n (step_1c w marked_y)"
  by (cases w rule: rev_cases) (auto simp: step_1c_def word_within_def str_simps is_ascii_lowercase_def)

lemma region_length: "suffix_in_region w s region \<Longrightarrow> 0 < region \<Longrightarrow> length s < length w"
  by (auto simp: suffix_in_region_def)

lemma map_option_within:
  assumes "opt \<noteq> None" and "word_within n a" and "word_within n b"
  shows "\<exists>v. map_option (\<lambda>x. if P x then a else b) opt = Some v \<and> word_within n v"
  using assms by (cases opt) auto

lemma step_2_within:
  assumes w: "word_within n w" and r1: "0 < r1"
  shows "\<exists>v. step_2 w r1 = Some v \<and> word_within n v"
proof (cases "List.find (\<lambda>(s, _). suffix_in_region w s r1) step_2_rules")
  case (Some rule)
  obtain s r where rule: "rule = (s, r)" by force
  from find_SomeD [OF Some] rule have s: "(s, r) \<in> set step_2_rules" "suffix_in_region w s r1" by auto
  then have v: "word_within n (replace_suffix w s r)"
    using step_rules_ok(1) by (intro word_within_region [OF w s(2) r1]) auto
  have "byte_back w 4 \<noteq> None" if "s = str ''ogi''"
    using region_length [OF s(2) r1] that by (simp add: byte_back_def str_simps)
  then have "s = str ''ogi'' \<Longrightarrow> \<exists>u. map_option (\<lambda>b. if b = 0x6C then replace_suffix w s r else w) (byte_back w 4) = Some u \<and> word_within n u"
    using v w by (intro map_option_within) auto
  then show ?thesis using Some rule v by (auto simp: step_2_def)
next
  case None
  have "byte_back w 3 \<noteq> None \<and> word_within n (replace_suffix w (str ''li'') [])" if "suffix_in_region w (str ''li'') r1"
    using region_length [OF that r1] word_within_region [OF w that r1, of "[]"] by (simp add: byte_back_def str_simps)
  then show ?thesis using None w by (auto simp: step_2_def)
qed

lemma step_3_within:
  assumes w: "word_within n w" and r: "0 < r1" "0 < r2"
  shows "word_within n (step_3 w r1 r2)"
proof (cases "List.find (\<lambda>(s, _). suffix_in_region w s r1) step_3_rules")
  case (Some rule)
  obtain s r where rule: "rule = (s, r)" by force
  from find_SomeD [OF Some] rule have s: "(s, r) \<in> set step_3_rules" "suffix_in_region w s r1" by auto
  then have "word_within n (replace_suffix w s r)"
    using step_rules_ok(2) by (intro word_within_region [OF w s(2) r(1)]) auto
  then show ?thesis using Some rule by (simp add: step_3_def)
next
  case None
  then show ?thesis using w word_within_region [OF w _ r(2)] by (simp add: step_3_def)
qed

lemma step_4_within:
  assumes w: "word_within n w" and r2: "0 < r2"
  shows "\<exists>v. step_4 w r2 = Some v \<and> word_within n v"
proof -
  have cut: "word_within n (replace_suffix w s [])" if "suffix_in_region w s r2" for s
    using word_within_region [OF w that r2] by simp
  have four: "byte_back w 4 \<noteq> None" if "suffix_in_region w (str ''ion'') r2"
    using region_length [OF that r2] by (simp add: byte_back_def str_simps)
  show ?thesis
  proof (cases "List.find (\<lambda>s. suffix_in_region w s r2) step_4_suffixes")
    case None
    then show ?thesis using w cut map_option_within [OF four cut w] by (simp add: step_4_def)
  next
    case (Some s)
    then show ?thesis using cut find_SomeD [OF Some] by (simp add: step_4_def)
  qed
qed

lemma step_5_within:
  assumes w: "word_within n w" and r: "0 < r1" "0 < r2"
  shows "word_within n (step_5 w r1 r2 marked_y)"
proof -
  have "word_within n (butlast w)" if "r1 \<le> length w - 1 \<or> r2 \<le> length w - 1 \<or> r2 < length w"
    using that r by (intro word_within_butlast [OF w]) auto
  then show ?thesis using w by (auto simp: step_5_def Let_def)
qed

lemma porter2_stem_within:
  assumes w: "word_within n token"
  shows "\<exists>v. porter2_stem token = Some v \<and> word_within n v"
proof (cases "map_of stem_exceptions token")
  case (Some stem)
  from map_of_SomeD [OF this] have "list_all is_ascii_lowercase stem \<and> length stem \<le> length token \<and> stem \<noteq> []"
    using step_rules_ok(3) by blast
  then show ?thesis using Some w by (auto simp: porter2_stem_def word_within_def)
next
  case None
  define marked_y where "marked_y = mark_consonant_y token"
  define r1 where "r1 = region_after_vowel_consonant token marked_y 0 (special_r1 token)"
  define r2 where "r2 = region_after_vowel_consonant token marked_y r1 0"
  have ne: "token \<noteq> []" using w by (simp add: word_within_def)
  then have r: "0 < r1" "0 < r2" by (simp_all add: r1_def r2_def region_pos)
  let ?a = "step_1a token marked_y"
  note a = step_1a_within [OF w, of marked_y]
  from step_2_within [OF step_1c_within [OF step_1b_within [OF a r(1)]] r(1)] obtain v where
    v: "step_2 (step_1c (step_1b ?a r1 marked_y) marked_y) r1 = Some v" "word_within n v" by blast
  from step_4_within [OF step_3_within [OF v(2) r] r(2)] obtain u where
    u: "step_4 (step_3 v r1 r2) r2 = Some u" "word_within n u" by blast
  have "porter2_stem token = Some (if ?a \<in> set finished_after_1a then ?a else step_5 u r1 r2 marked_y)"
    using None v(1) u(1)
    by (simp add: porter2_stem_def Let_def marked_y_def [symmetric] r1_def [symmetric] r2_def [symmetric])
  then show ?thesis using a step_5_within [OF u(2) r] by auto
qed

text \<open>
  C39. Stemming is total and stays within the words: for every nonempty token of lower-case letters the
  stemmer returns without a panic (no suffix rule reads before the start of the word), and the stem is
  again a nonempty word of lower-case letters, not longer than the token. Other tokens are unchanged.
\<close>

theorem StemEnglishToken_word:
  "\<exists>stem. StemEnglishToken token = Some stem \<and>
    (if token \<noteq> [] \<and> list_all is_ascii_lowercase token
     then stem \<noteq> [] \<and> length stem \<le> length token \<and> list_all is_ascii_lowercase stem
     else stem = token)"
  using porter2_stem_within [of "length token" token] by (auto simp: StemEnglishToken_def word_within_def)

lemma stem_suggested: "StemEnglishToken (str ''suggested'') = Some (str ''suggest'')"
  by code_simp

lemma stem_skies: "StemEnglishToken (str ''skies'') = Some (str ''sky'')"
  by code_simp

text \<open>
  The rules of Snowball's step 1b leave a word alone when \<open>eed\<close> is its longest suffix but lies outside the
  first region. The code goes on to the suffix \<open>ed\<close>, so that short words in \<open>eed\<close> lose it.
\<close>

lemma stem_feed: "StemEnglishToken (str ''feed'') = Some (str ''fe'')" "StemEnglishToken (str ''need'') = Some (str ''ne'')"
  by code_simp+

end
