(* ===== verification/SmartTokenizer.thy ===== *)
theory SmartTokenizer
  imports Stemmer QueryRuntime
begin

text \<open>
  The tokenizer of \<open>Tokenizer/SmartTokenizer.rs\<close>. Normalisation (\<open>unicode_normalization\<close>) and word
  segmentation (\<open>icu_segmenter\<close>) are code of other packages, and the character tables of the standard
  library are data; the tokenizer takes all of them as an argument, the record \<open>unicode\<close>. A segment is a
  byte range of the normalised text; cutting it out panics when the range is not one of the text or
  not at character boundaries.

  The theorem: the tokenizer panics exactly when the segmentation gives such a range, and whatever
  these functions do, the tokens are nonempty and free of control characters, so that no token
  contains the separator of word pairs or the NUL at which the term lookup stops. This is what the
  writer and the query compiler rely on (\<open>tokenizer_clean\<close>).
\<close>

subsection \<open>Characters\<close>

text \<open>The characters of a UTF-8 string, as code points (\<open>str::chars\<close>), and back (\<open>String::push\<close>).\<close>

type_synonym rchar = u32

definition low_bits :: "nat \<Rightarrow> u8 \<Rightarrow> rchar" where
  "low_bits n b = ucast (take_bit n b)"

fun chars_of :: "rstr \<Rightarrow> rchar list" where
  "chars_of [] = []"
| "chars_of (a # s) =
     (if a < 0x80 then ucast a # chars_of s
      else case s of
        [] \<Rightarrow> []
      | b # t \<Rightarrow>
          if a < 0xE0 then (push_bit 6 (low_bits 5 a) OR low_bits 6 b) # chars_of t
          else case t of
            [] \<Rightarrow> []
          | c # u \<Rightarrow>
              if a < 0xF0 then (push_bit 12 (low_bits 4 a) OR push_bit 6 (low_bits 6 b) OR low_bits 6 c) # chars_of u
              else case u of
                [] \<Rightarrow> []
              | d # v \<Rightarrow> (push_bit 18 (low_bits 3 a) OR push_bit 12 (low_bits 6 b) OR push_bit 6 (low_bits 6 c) OR
                          low_bits 6 d) # chars_of v)"

definition cont_of :: "nat \<Rightarrow> rchar \<Rightarrow> u8" where
  "cont_of shift c = 0x80 OR take_bit 6 (ucast (drop_bit shift c))"

definition char_bytes :: "rchar \<Rightarrow> rstr" where
  "char_bytes c =
     (if c < 0x80 then [ucast c]
      else if c < 0x800 then [0xC0 OR ucast (drop_bit 6 c), cont_of 0 c]
      else if c < 0x10000 then [0xE0 OR ucast (drop_bit 12 c), cont_of 6 c, cont_of 0 c]
      else [0xF0 OR ucast (drop_bit 18 c), cont_of 12 c, cont_of 6 c, cont_of 0 c])"

definition in_ranges :: "(rchar \<times> rchar) list \<Rightarrow> rchar \<Rightarrow> bool" where
  "in_ranges ranges c \<longleftrightarrow> list_ex (\<lambda>(lo, hi). lo \<le> c \<and> c \<le> hi) ranges"

definition is_control :: "rchar \<Rightarrow> bool" where
  "is_control = in_ranges [(0, 0x1F), (0x7F, 0x9F)]"

definition is_unicode_format :: "rchar \<Rightarrow> bool" where
  "is_unicode_format = in_ranges
     [(0x00AD, 0x00AD), (0x0600, 0x0605), (0x061C, 0x061C), (0x06DD, 0x06DD), (0x070F, 0x070F),
      (0x0890, 0x0891), (0x08E2, 0x08E2), (0x180E, 0x180E), (0x200B, 0x200F), (0x202A, 0x202E),
      (0x2060, 0x2064), (0x2066, 0x206F), (0xFEFF, 0xFEFF), (0xFFF9, 0xFFFB), (0x110BD, 0x110BD),
      (0x110CD, 0x110CD), (0x13430, 0x1343F), (0x1BCA0, 0x1BCA3), (0x1D173, 0x1D17A),
      (0xE0001, 0xE0001), (0xE0020, 0xE007F)]"

definition is_private_use :: "rchar \<Rightarrow> bool" where
  "is_private_use = in_ranges [(0xE000, 0xF8FF), (0xF0000, 0xFFFFD), (0x100000, 0x10FFFD)]"

definition is_han_ideograph :: "rchar \<Rightarrow> bool" where
  "is_han_ideograph = in_ranges
     [(0x3006, 0x3007), (0x3400, 0x4DBF), (0x4E00, 0x9FFF), (0xF900, 0xFAFF), (0x20000, 0x2A6DF), (0x2A700, 0x2B73F),
      (0x2B740, 0x2B81F), (0x2B820, 0x2CEAF), (0x2CEB0, 0x2EE5F), (0x2F800, 0x2FA1F), (0x30000, 0x3347F)]"

definition is_variation_selector :: "rchar \<Rightarrow> bool" where
  "is_variation_selector = in_ranges [(0xFE00, 0xFE0F), (0xE0100, 0xE01EF)]"

subsection \<open>Tokens\<close>

definition IsIndexableToken :: "rstr \<Rightarrow> bool" where
  "IsIndexableToken token \<longleftrightarrow>
     \<not> (token = [] \<or> length token > 64) \<and>
     \<not> list_ex (\<lambda>ch. ch < 0x20 \<or> ch = 0x7F) token \<and>
     \<not> list_ex (\<lambda>value. is_control value \<or> is_unicode_format value \<or> is_private_use value) (chars_of token)"

fun han_loop :: "bool \<Rightarrow> rchar list \<Rightarrow> bool" where
  "han_loop saw_ideograph [] = saw_ideograph"
| "han_loop saw_ideograph (ch # chars) =
     (if is_han_ideograph ch then han_loop True chars
      else if \<not> saw_ideograph \<or> \<not> is_variation_selector ch then False
      else han_loop saw_ideograph chars)"

definition is_han_token :: "rstr \<Rightarrow> bool" where
  "is_han_token token = han_loop False (chars_of token)"

fun han_characters :: "rstr \<Rightarrow> rchar list \<Rightarrow> rstr list" where
  "han_characters current [] = (if current \<noteq> [] then [current] else [])"
| "han_characters current (ch # chars) =
     (if is_han_ideograph ch \<and> current \<noteq> [] then current # han_characters (char_bytes ch) chars
      else han_characters (current @ char_bytes ch) chars)"

definition append_han_characters :: "rstr \<Rightarrow> rstr list \<Rightarrow> rstr list" where
  "append_han_characters word tokens = tokens @ han_characters [] (chars_of word)"

text \<open>What the tokenizer takes from elsewhere.\<close>

record unicode =
  normalize_nfc :: "rstr \<Rightarrow> rstr"
  segments :: "rstr \<Rightarrow> (nat \<times> bool) list"
  to_lowercase :: "rchar \<Rightarrow> rchar list"
  is_alphabetic :: "rchar \<Rightarrow> bool"
  is_alphanumeric :: "rchar \<Rightarrow> bool"

definition eq_ignore_ascii_case :: "rstr \<Rightarrow> rstr \<Rightarrow> bool" where
  "eq_ignore_ascii_case a b \<longleftrightarrow> to_ascii_lowercase a = to_ascii_lowercase b"

definition lowercase_for_locale :: "unicode \<Rightarrow> rstr \<Rightarrow> rstr \<Rightarrow> rstr" where
  "lowercase_for_locale uc text_segment loc =
     (let chars = chars_of text_segment;
          turkic = list_ex (eq_ignore_ascii_case loc) (map str [''tr'', ''tr-tr'', ''az'', ''az-az''])
      in concat (map (\<lambda>index.
           let ch = chars ! index
           in if turkic \<and> ch = 0x49 then char_bytes 0x131
              else if turkic \<and> ch = 0x130 then char_bytes 0x69
              else if ch = 0x3A3 \<and> list_ex (is_alphabetic uc) (take index chars) \<and>
                      \<not> list_ex (is_alphabetic uc) (drop (index + 1) chars) then char_bytes 0x3C2
              else concat (map char_bytes (to_lowercase uc ch))) [0..<length chars]))"

text \<open>\<open>&s[a..b]\<close> of a \<open>str\<close>: a panic unless the range is in order and at character boundaries.\<close>

definition is_char_boundary :: "rstr \<Rightarrow> nat \<Rightarrow> bool" where
  "is_char_boundary s i \<longleftrightarrow>
     i = 0 \<or> i = length s \<or> (i < length s \<and> \<not> (0x80 \<le> s ! i \<and> s ! i < 0xC0))"

definition str_slice :: "rstr \<Rightarrow> nat \<Rightarrow> nat \<Rightarrow> rstr option" where
  "str_slice s a b =
     (if a \<le> b \<and> is_char_boundary s a \<and> is_char_boundary s b then Some (subslice a b s) else None)"

text \<open>The loop over the segments, \<open>start\<close> the end of the one before; \<open>None\<close> is a panic.\<close>

fun token_loop :: "unicode \<Rightarrow> rstr \<Rightarrow> rstr \<Rightarrow> nat \<Rightarrow> (nat \<times> bool) list \<Rightarrow> rstr list \<Rightarrow> rstr list option" where
  "token_loop uc loc normalized start [] tokens = Some tokens"
| "token_loop uc loc normalized start ((stop, word_like) # segs) tokens =
     (case str_slice normalized start stop of
        None \<Rightarrow> None
      | Some seg \<Rightarrow>
          let is_word_like = (word_like \<or> list_ex (is_alphanumeric uc) (chars_of seg))
          in if stop > start \<and> is_word_like then
               let word = lowercase_for_locale uc seg loc
               in if is_han_token word then token_loop uc loc normalized stop segs (append_han_characters word tokens)
                  else case StemEnglishToken word of
                         None \<Rightarrow> None
                       | Some word \<Rightarrow>
                           token_loop uc loc normalized stop segs (if IsIndexableToken word then tokens @ [word] else tokens)
             else token_loop uc loc normalized stop segs tokens)"

definition Tokenize :: "unicode \<Rightarrow> rstr \<Rightarrow> rstr \<Rightarrow> rstr list option" where
  "Tokenize uc loc input =
     (if input = [] then Some []
      else let normalized = normalize_nfc uc input
           in token_loop uc loc normalized 0 (segments uc normalized) [])"

subsection \<open>Tokens have no control characters\<close>

definition token_clean :: "rstr \<Rightarrow> bool" where
  "token_clean t \<longleftrightarrow> t \<noteq> [] \<and> (\<forall>b \<in> set t. 0x20 \<le> b \<and> b \<noteq> 0x7F)"

lemma high_bit: "0x80 \<le> 0x80 OR (b :: u8)" "0x80 \<le> 0xC0 OR b" "0x80 \<le> 0xE0 OR b" "0x80 \<le> 0xF0 OR b"
proof -
  have or: "m \<le> m OR (b :: u8)" for m by (simp add: word_le_def unsigned_or_eq or_greater_eq)
  show "0x80 \<le> 0x80 OR b" by (rule or)
  show "0x80 \<le> 0xC0 OR b" "0x80 \<le> 0xE0 OR b" "0x80 \<le> 0xF0 OR b"
    by (rule order_trans [OF _ or]; simp)+
qed

lemma char_bytes_high: "0x80 \<le> c \<Longrightarrow> b \<in> set (char_bytes c) \<Longrightarrow> 0x80 \<le> b"
  by (auto simp: char_bytes_def cont_of_def high_bit dest: leD split: if_splits)

lemma char_bytes_nonempty: "char_bytes c \<noteq> []"
  by (simp add: char_bytes_def)

lemma han_range: "is_han_ideograph c \<or> is_variation_selector c \<Longrightarrow> 0x80 \<le> c"
  by (auto simp: is_han_ideograph_def is_variation_selector_def in_ranges_def word_le_nat_alt)

lemma han_loop_range: "han_loop saw cs \<Longrightarrow> c \<in> set cs \<Longrightarrow> 0x80 \<le> c"
  by (induction saw cs rule: han_loop.induct) (auto split: if_splits dest: han_range [OF disjI1] han_range [OF disjI2])

lemma han_characters_high:
  assumes "\<forall>b \<in> set current. 0x80 \<le> b" and "\<forall>c \<in> set cs. 0x80 \<le> c" and "t \<in> set (han_characters current cs)"
  shows "t \<noteq> [] \<and> (\<forall>b \<in> set t. 0x80 \<le> b)"
  using assms
proof (induction current cs rule: han_characters.induct)
  case (2 current ch chars)
  have ch: "\<forall>b \<in> set (char_bytes ch). 0x80 \<le> b" "\<forall>c \<in> set chars. 0x80 \<le> c"
    using 2(4) char_bytes_high by auto
  show ?case
  proof (cases "is_han_ideograph ch \<and> current \<noteq> []")
    case True
    with 2(5) have "t = current \<or> t \<in> set (han_characters (char_bytes ch) chars)" by simp
    then show ?thesis using 2(1) [OF True ch] 2(3) True by blast
  next
    case False
    have "\<forall>b \<in> set (current @ char_bytes ch). 0x80 \<le> b" using 2(3) ch(1) by auto
    moreover have "t \<in> set (han_characters (current @ char_bytes ch) chars)" using 2(5) False by (simp only: han_characters.simps if_False)
    ultimately show ?thesis using 2(2) [OF False _ ch(2)] by blast
  qed
qed (simp split: if_splits)

lemma token_clean_high: "t \<noteq> [] \<Longrightarrow> \<forall>b \<in> set t. 0x80 \<le> b \<Longrightarrow> token_clean t"
  by (fastforce simp: token_clean_def word_le_nat_alt)

lemma append_han_clean:
  assumes "is_han_token word" and "\<forall>t \<in> set tokens. token_clean t"
  shows "\<forall>t \<in> set (append_han_characters word tokens). token_clean t"
proof -
  have "\<forall>c \<in> set (chars_of word). 0x80 \<le> c"
    using assms(1) han_loop_range by (auto simp: is_han_token_def)
  then show ?thesis
    using assms(2) han_characters_high [of "[]" "chars_of word"] token_clean_high
    by (auto simp: append_han_characters_def)
qed

lemma indexable_clean: "IsIndexableToken t \<Longrightarrow> token_clean t"
  by (auto simp: IsIndexableToken_def token_clean_def list_ex_iff not_less)

lemma StemEnglishToken_returns: "\<exists>stem. StemEnglishToken token = Some stem"
  using porter2_stem_within [of "length token" token] by (auto simp: StemEnglishToken_def word_within_def)

text \<open>The ends of the segments go forward and lie at character boundaries of the text.\<close>

fun cuts_ok :: "rstr \<Rightarrow> nat \<Rightarrow> (nat \<times> bool) list \<Rightarrow> bool" where
  "cuts_ok s start [] \<longleftrightarrow> True"
| "cuts_ok s start ((stop, word_like) # segs) \<longleftrightarrow> start \<le> stop \<and> is_char_boundary s stop \<and> cuts_ok s stop segs"

lemma token_loop_clean:
  "\<forall>t \<in> set tokens. token_clean t \<Longrightarrow> is_char_boundary normalized start \<Longrightarrow>
    (case token_loop uc loc normalized start segs tokens of
       None \<Rightarrow> \<not> cuts_ok normalized start segs
     | Some ts \<Rightarrow> cuts_ok normalized start segs \<and> (\<forall>t \<in> set ts. token_clean t))"
proof (induction segs arbitrary: start tokens)
  case Nil
  then show ?case by simp
next
  case (Cons seg segs)
  obtain stop like where seg: "seg = (stop, like)" by force
  show ?case
  proof (cases "start \<le> stop \<and> is_char_boundary normalized stop")
    case False
    then show ?thesis by (auto simp: seg str_slice_def)
  next
    case True
    let ?word = "lowercase_for_locale uc (subslice start stop normalized) loc"
    obtain w where w: "StemEnglishToken ?word = Some w" using StemEnglishToken_returns by blast
    have han: "is_han_token ?word \<Longrightarrow> \<forall>t \<in> set (append_han_characters ?word tokens). token_clean t"
      using append_han_clean Cons.prems(1) by blast
    have push: "\<forall>t \<in> set (if IsIndexableToken w then tokens @ [w] else tokens). token_clean t"
      using Cons.prems(1) indexable_clean by auto
    have slice: "str_slice normalized start stop = Some (subslice start stop normalized)"
      using True Cons.prems(2) by (simp add: str_slice_def)
    have stop: "is_char_boundary normalized stop" using True ..
    define toks where "toks = (if stop > start \<and> (like \<or> list_ex (is_alphanumeric uc) (chars_of (subslice start stop normalized)))
      then if is_han_token ?word then append_han_characters ?word tokens
        else if IsIndexableToken w then tokens @ [w] else tokens
      else tokens)"
    have step: "token_loop uc loc normalized start (seg # segs) tokens = token_loop uc loc normalized stop segs toks"
      unfolding toks_def by (auto simp: seg slice Let_def w)
    have clean: "\<forall>t \<in> set toks. token_clean t"
      using Cons.prems(1) han push unfolding toks_def by (cases "is_han_token ?word") simp_all
    have cuts: "cuts_ok normalized start (seg # segs) = cuts_ok normalized stop segs" using True by (simp add: seg)
    show ?thesis unfolding step cuts by (rule Cons.IH [OF clean stop])
  qed
qed

lemma Tokenize_cases:
  "case Tokenize uc loc input of
     None \<Rightarrow> input \<noteq> [] \<and> \<not> cuts_ok (normalize_nfc uc input) 0 (segments uc (normalize_nfc uc input))
   | Some tokens \<Rightarrow>
       (input = [] \<or> cuts_ok (normalize_nfc uc input) 0 (segments uc (normalize_nfc uc input))) \<and>
       (\<forall>t \<in> set tokens. token_clean t)"
  using token_loop_clean [where tokens = "[]" and normalized = "normalize_nfc uc input" and start = 0
      and uc = uc and loc = loc and segs = "segments uc (normalize_nfc uc input)"]
  by (auto simp: Tokenize_def Let_def is_char_boundary_def split: option.splits)


text \<open>
  The tokenizer as the writer and the compiler take it, over a segmenter that keeps its promise:
  \<open>icu_segmenter\<close> documents its iterator as the ascending break points of the text, as byte offsets
  of its UTF-8.
\<close>

definition segmenter_ok :: "unicode \<Rightarrow> bool" where
  "segmenter_ok uc \<longleftrightarrow> (\<forall>input. cuts_ok (normalize_nfc uc input) 0 (segments uc (normalize_nfc uc input)))"

definition smart_tokens :: "unicode \<Rightarrow> rstr \<Rightarrow> rstr \<Rightarrow> rstr list" where
  "smart_tokens uc loc input = the (Tokenize uc loc input)"

lemma smart_tokens_token_clean:
  assumes "segmenter_ok uc" and "t \<in> set (smart_tokens uc loc input)"
  shows "token_clean t"
  using Tokenize_cases [where uc = uc and loc = loc and input = input] assms
  by (auto simp: smart_tokens_def segmenter_ok_def split: option.splits)

lemma smart_tokens_clean:
  assumes "segmenter_ok uc"
  shows "tokenizer_clean (smart_tokens uc loc)"
proof -
  have "BIGRAM_SEP \<notin> set t \<and> 0 \<notin> set t" if "t \<in> set (smart_tokens uc loc input)" for t input
    using smart_tokens_token_clean [OF assms that] by (auto simp: token_clean_def BIGRAM_SEP_def)
  then show ?thesis by (simp add: tokenizer_clean_def tokenizer_plain_def plain_words_def nul_free_def)
qed

subsection \<open>One word\<close>

text \<open>A segmentation that takes the whole text as one word, with ASCII tables.\<close>

definition one_word :: unicode where
  "one_word = \<lparr>normalize_nfc = (\<lambda>s. s), segments = (\<lambda>s. [(length s, True)]),
     to_lowercase = (\<lambda>c. [if 0x41 \<le> c \<and> c \<le> 0x5A then c + 32 else c]),
     is_alphabetic = (\<lambda>c. 0x41 \<le> c), is_alphanumeric = (\<lambda>c. 0x30 \<le> c)\<rparr>"

lemma one_word_cuts: "segmenter_ok one_word"
  by (simp add: segmenter_ok_def one_word_def is_char_boundary_def)

text \<open>A segment that ends inside a character is a panic.\<close>

lemma Tokenize_inside_char:
  "Tokenize (one_word\<lparr>segments := (\<lambda>s. [(1, True)])\<rparr>) (str ''en'') [0xE4, 0xB8, 0xAD] = None"
  by code_simp

lemma one_word_eval:
  "Tokenize one_word (str ''en'') (str ''Suggested'') = Some [str ''suggest'']"
  "Tokenize one_word (str ''en'') (str ''a'') = Some [str ''a'']"
  "Tokenize one_word (str ''en'') [0xE4, 0xB8, 0xAD, 0xE5, 0x9B, 0xBD] = Some [[0xE4, 0xB8, 0xAD], [0xE5, 0x9B, 0xBD]]"
  by code_simp+

end
