(* ===== verification/Executor.thy ===== *)
theory Executor
  imports DocData Readers "HOL-Library.Multiset"
begin

text \<open>
  The search executor (\<open>Executor/IndexSearchExecutor.rs\<close>): it walks a reader to its end, scores every
  document and keeps the best \<open>topK\<close> of them.

  The score of a document is computed in floating point by the readers and from the document record;
  it is an argument, \<open>total_score\<close>, which takes the reader by mutable reference as \<open>GetScore\<close> does and
  so also gives the reader it leaves behind. Scores are values of a linear order, as \<open>f32\<close> values are
  when none is NaN. The binary heap of the standard library is a list in ascending order of the
  scores, the smallest first: \<open>push\<close> inserts, \<open>peek\<close> and \<open>pop\<close> take the first. Which of several
  smallest scores the heap gives up is not specified, and no theorem depends on it.

  A loop returns \<open>None\<close> when it does not end or panics (a document without a record). The theorems
  show that it returns for every reader that delivers finitely many documents with records.
\<close>

record 's SearchResult =
  res_doc_id :: u64
  res_score :: 's
  res_snippet :: rstr

definition TopKLimit :: "i32 \<Rightarrow> nat option" where
  "TopKLimit topK = (if 0 <s topK then Some (unat topK) else None)"

text \<open>The sort is stable and descending.\<close>

definition SortAndTruncate :: "nat option \<Rightarrow> ('s :: linorder) SearchResult list \<Rightarrow> 's SearchResult list" where
  "SortAndTruncate limit results =
     (let results = rev (sort_key res_score (rev results))
      in case limit of
           Some limit \<Rightarrow> if length results > limit then take limit results else results
         | None \<Rightarrow> results)"

text \<open>One result enters the heap, or the list when there is no limit.\<close>

definition keep_result ::
  "nat option \<Rightarrow> ('s :: linorder) SearchResult \<Rightarrow> 's SearchResult list \<times> 's SearchResult list \<Rightarrow>
   's SearchResult list \<times> 's SearchResult list" where
  "keep_result limit result = (\<lambda>(results, heap).
     case limit of
       Some limit \<Rightarrow>
         if length heap < limit then (results, insort_key res_score result heap)
         else if res_score result > res_score (hd heap) then (results, insort_key res_score result (tl heap))
         else (results, heap)
     | None \<Rightarrow> (results @ [result], heap))"

text \<open>The document under the reader, scored; the reader is left where the calls leave it.\<close>

definition visit ::
  "(u64 \<Rightarrow> bytes option) \<Rightarrow> (Dyn \<Rightarrow> bytes \<Rightarrow> 's \<times> Dyn) \<Rightarrow> Dyn \<Rightarrow> ('s SearchResult \<times> Dyn) option" where
  "visit GetEntry total_score reader =
     (let docId = d_Doc reader
      in case GetEntry docId of
           None \<Rightarrow> None
         | Some entry \<Rightarrow>
             let (score, reader) = total_score reader entry
             in (case d_Mask reader of
                   None \<Rightarrow> None
                 | Some (source, reader) \<Rightarrow>
                     Some (\<lparr>res_doc_id = MakeReaderDocumentID docId source, res_score = score, res_snippet = []\<rparr>, reader)))"

partial_function (option) execute_loop ::
  "(u64 \<Rightarrow> bytes option) \<Rightarrow> (Dyn \<Rightarrow> bytes \<Rightarrow> ('s :: linorder) \<times> Dyn) \<Rightarrow> nat option \<Rightarrow> Dyn \<Rightarrow>
   's SearchResult list \<times> 's SearchResult list \<Rightarrow> ('s SearchResult list \<times> 's SearchResult list) option" where
  "execute_loop GetEntry total_score limit reader acc =
     (if d_IsEnd reader then Some acc
      else case visit GetEntry total_score reader of
             None \<Rightarrow> None
           | Some (result, reader) \<Rightarrow>
               (case d_GoNext reader of
                  None \<Rightarrow> None
                | Some reader \<Rightarrow> execute_loop GetEntry total_score limit reader (keep_result limit result acc)))"

definition ExecuteWithVector ::
  "(u64 \<Rightarrow> bytes option) \<Rightarrow> (Dyn \<Rightarrow> bytes \<Rightarrow> ('s :: linorder) \<times> Dyn) \<Rightarrow> Dyn \<Rightarrow> i32 \<Rightarrow> 's SearchResult list option" where
  "ExecuteWithVector GetEntry total_score reader topK =
     (if d_IsEnd reader then Some []
      else let limit = TopKLimit topK
           in map_option (\<lambda>(results, heap). SortAndTruncate limit (if limit \<noteq> None then results @ heap else results))
                (execute_loop GetEntry total_score limit reader ([], [])))"

text \<open>\<open>ExecuteBounded\<close> stops after \<open>maxVisitedDocs\<close> documents.\<close>

partial_function (option) bounded_loop ::
  "(u64 \<Rightarrow> bytes option) \<Rightarrow> (Dyn \<Rightarrow> bytes \<Rightarrow> ('s :: linorder) \<times> Dyn) \<Rightarrow> nat option \<Rightarrow> u64 \<Rightarrow> u64 \<Rightarrow> Dyn \<Rightarrow>
   's SearchResult list \<times> 's SearchResult list \<Rightarrow> ('s SearchResult list \<times> 's SearchResult list) option" where
  "bounded_loop GetEntry total_score limit maxVisitedDocs visited reader acc =
     (if \<not> (\<not> d_IsEnd reader \<and> visited < maxVisitedDocs) then Some acc
      else case visit GetEntry total_score reader of
             None \<Rightarrow> None
           | Some (result, reader) \<Rightarrow>
               (case d_GoNext reader of
                  None \<Rightarrow> None
                | Some reader \<Rightarrow>
                    bounded_loop GetEntry total_score limit maxVisitedDocs (visited + 1) reader (keep_result limit result acc)))"

definition ExecuteBounded ::
  "(u64 \<Rightarrow> bytes option) \<Rightarrow> (Dyn \<Rightarrow> bytes \<Rightarrow> ('s :: linorder) \<times> Dyn) \<Rightarrow> Dyn \<Rightarrow> i32 \<Rightarrow> u64 \<Rightarrow> 's SearchResult list option" where
  "ExecuteBounded GetEntry total_score reader topK maxVisitedDocs =
     (if d_IsEnd reader \<or> maxVisitedDocs = 0 then Some []
      else let limit = TopKLimit topK
           in map_option (\<lambda>(results, heap). SortAndTruncate limit (if limit \<noteq> None then results @ heap else results))
                (bounded_loop GetEntry total_score limit maxVisitedDocs 0 reader ([], [])))"

subsection \<open>The best of a list\<close>

text \<open>
  \<open>best_of limit cs rs\<close>: the list \<open>rs\<close> is in descending order of scores, it has \<open>limit\<close> of the
  candidates \<open>cs\<close> or all when there are fewer, and no candidate left out scores higher than one kept.
\<close>

definition best_of :: "nat option \<Rightarrow> ('s :: linorder) SearchResult list \<Rightarrow> 's SearchResult list \<Rightarrow> bool" where
  "best_of limit cs rs \<longleftrightarrow>
     sorted_wrt (\<lambda>a b. res_score b \<le> res_score a) rs \<and>
     length rs = (case limit of Some k \<Rightarrow> min k (length cs) | None \<Rightarrow> length cs) \<and>
     (\<exists>rest. mset cs = mset rs + mset rest \<and> (\<forall>x \<in> set rs. \<forall>y \<in> set rest. res_score y \<le> res_score x))"

text \<open>What the loop has kept of the candidates \<open>cs\<close> so far.\<close>

definition kept_best :: "nat option \<Rightarrow> ('s :: linorder) SearchResult list \<Rightarrow> 's SearchResult list \<times> 's SearchResult list \<Rightarrow> bool" where
  "kept_best limit cs = (\<lambda>(results, heap).
     case limit of
       None \<Rightarrow> results = cs \<and> heap = []
     | Some k \<Rightarrow> results = [] \<and> sorted (map res_score heap) \<and> length heap = min k (length cs) \<and>
         (\<exists>rest. mset cs = mset heap + mset rest \<and> (\<forall>x \<in> set heap. \<forall>y \<in> set rest. res_score y \<le> res_score x)))"

lemma kept_bestI:
  assumes "sorted (map res_score heap)" and "length heap = min k (length cs)" and "mset cs = mset heap + mset rest"
    and "\<forall>x \<in> set heap. \<forall>y \<in> set rest. res_score y \<le> res_score x"
  shows "kept_best (Some k) cs ([], heap)"
  using assms by (auto simp: kept_best_def)

lemma kept_best_step:
  assumes "kept_best limit cs acc" and "limit \<noteq> Some 0"
  shows "kept_best limit (cs @ [c]) (keep_result limit c acc)"
proof (cases limit)
  case None
  then show ?thesis using assms by (cases acc) (simp add: kept_best_def keep_result_def)
next
  case (Some k)
  obtain results heap where acc: "acc = (results, heap)" by force
  with assms(1) Some obtain rest where h: "results = []" "sorted (map res_score heap)" "length heap = min k (length cs)"
    and rest: "mset cs = mset heap + mset rest" "\<forall>x \<in> set heap. \<forall>y \<in> set rest. res_score y \<le> res_score x"
    by (auto simp: kept_best_def)
  have "length cs = length heap + length rest" using arg_cong [OF rest(1), of size] by simp
  then have full: "length heap = k" if "rest \<noteq> []" using that h(3) by (auto simp: min_def split: if_splits)
  show ?thesis
  proof (cases "length heap < k")
    case True
    then have "rest = []" using full by blast
    then show ?thesis
      using Some acc h rest True
      by (auto simp: kept_best_def keep_result_def sorted_insort_key intro: exI [of _ "[]"])
  next
    case False
    then have k: "length heap = k" "k \<le> length cs" "heap \<noteq> []" using h(3) assms(2) Some by auto
    then obtain m hs where heap: "heap = m # hs" by (cases heap) auto
    have low: "\<forall>x \<in> set hs. res_score m \<le> res_score x" "sorted (map res_score hs)" using h(2) by (auto simp: heap)
    have m: "\<forall>y \<in> set rest. res_score y \<le> res_score m" using rest(2) by (simp add: heap)
    show ?thesis
    proof (cases "res_score c > res_score m")
      case True
      have "\<forall>x \<in> set (insort_key res_score c hs). \<forall>y \<in> set (m # rest). res_score y \<le> res_score x"
        using True low(1) rest(2) m by (auto simp: heap set_insort_key)
      moreover have "mset (cs @ [c]) = mset (insort_key res_score c hs) + mset (m # rest)" using rest(1) by (simp add: heap)
      ultimately have "kept_best (Some k) (cs @ [c]) ([], insort_key res_score c hs)"
        using k heap low(2) by (intro kept_bestI [where rest = "m # rest"]) (simp_all add: sorted_insort_key)
      then show ?thesis using Some acc h(1) k heap True by (simp add: keep_result_def)
    next
      case False
      have "\<forall>x \<in> set heap. \<forall>y \<in> set (c # rest). res_score y \<le> res_score x"
        using False low(1) rest(2) by (auto simp: heap)
      moreover have "mset (cs @ [c]) = mset heap + mset (c # rest)" using rest(1) by simp
      ultimately have "kept_best (Some k) (cs @ [c]) ([], heap)"
        using k h(2) by (intro kept_bestI [where rest = "c # rest"]) simp_all
      then show ?thesis using Some acc h(1) k heap False by (simp add: keep_result_def)
    qed
  qed
qed

lemma sorted_rev_wrt: "sorted (map f xs) \<Longrightarrow> sorted_wrt (\<lambda>a b. f b \<le> f a) (rev xs)"
  by (simp add: sorted_wrt_rev sorted_map)

lemma kept_best_sorted:
  assumes "kept_best limit cs (results, heap)"
  shows "best_of limit cs (SortAndTruncate limit (if limit \<noteq> None then results @ heap else results))"
proof (cases limit)
  case None
  then show ?thesis
    using assms sorted_rev_wrt [OF sorted_sort_key, of res_score "rev cs"]
    by (auto simp: kept_best_def best_of_def SortAndTruncate_def intro!: exI [of _ "[]"])
next
  case (Some k)
  with assms obtain rest where h: "results = []" "length heap = min k (length cs)"
    and rest: "mset cs = mset heap + mset rest" "\<forall>x \<in> set heap. \<forall>y \<in> set rest. res_score y \<le> res_score x"
    by (auto simp: kept_best_def)
  let ?rs = "rev (sort_key res_score (rev heap))"
  have "SortAndTruncate limit (if limit \<noteq> None then results @ heap else results) = ?rs"
    using Some h by (simp add: SortAndTruncate_def Let_def)
  moreover have "sorted_wrt (\<lambda>a b. res_score b \<le> res_score a) ?rs" by (intro sorted_rev_wrt sorted_sort_key)
  ultimately show ?thesis using Some h rest by (auto simp: best_of_def)
qed

lemma best_of_Nil: "best_of limit [] []"
  by (simp add: best_of_def split: option.split)

lemma TopKLimit_pos: "TopKLimit topK \<noteq> Some 0"
  by (auto simp: TopKLimit_def unat_eq_0)

subsection \<open>Walking a reader\<close>

text \<open>The results of all documents from a reader on, in the order in which the reader delivers them.\<close>

inductive scored ::
  "(u64 \<Rightarrow> bytes option) \<Rightarrow> (Dyn \<Rightarrow> bytes \<Rightarrow> 's \<times> Dyn) \<Rightarrow> Dyn \<Rightarrow> 's SearchResult list \<Rightarrow> bool"
  for GetEntry total_score where
  scored_end: "d_IsEnd reader \<Longrightarrow> scored GetEntry total_score reader []"
| scored_step: "\<not> d_IsEnd reader \<Longrightarrow> visit GetEntry total_score reader = Some (c, reader') \<Longrightarrow>
    d_GoNext reader' = Some reader'' \<Longrightarrow> scored GetEntry total_score reader'' cs \<Longrightarrow>
    scored GetEntry total_score reader (c # cs)"

text \<open>Scoring may move what a reader keeps beside its place, as the boost reader does, but not its place.\<close>

definition keeps_place :: "(Dyn \<Rightarrow> bytes \<Rightarrow> 's \<times> Dyn) \<Rightarrow> bool" where
  "keeps_place total_score \<longleftrightarrow> (\<forall>reader ds entry. reads reader ds \<longrightarrow> reads (snd (total_score reader entry)) ds)"

lemma visit_reads:
  assumes "reads reader (d # ds)" and "GetEntry d = Some entry" and "keeps_place total_score"
  shows "\<exists>c reader' reader''. visit GetEntry total_score reader = Some (c, reader') \<and> d_GoNext reader' = Some reader'' \<and>
    reads reader'' ds \<and> ReaderDocumentIDValue (res_doc_id c) = d AND READER_DOCID_VALUE_MASK \<and>
    res_score c = fst (total_score reader entry)"
proof -
  obtain score r1 where s: "total_score reader entry = (score, r1)" by force
  have doc: "d_Doc reader = d" using readsD(2) [OF assms(1)] by simp
  have "reads r1 (d # ds)" using assms(1,3) s unfolding keeps_place_def by (metis snd_conv)
  from readsD(5) [OF this] obtain m r2 where m: "d_Mask r1 = Some (m, r2)" "reads r2 (d # ds)" by blast
  from readsD(3) [OF m(2)] obtain r3 where "d_GoNext r2 = Some r3" "reads r3 ds" by auto
  with m s doc assms(2) show ?thesis by (simp add: visit_def Let_def MakeReaderDocumentID_parts)
qed

lemma scored_reads:
  assumes "reads reader ds" and "\<forall>d \<in> set ds. GetEntry d \<noteq> None" and "keeps_place total_score"
  shows "\<exists>cs. scored GetEntry total_score reader cs \<and>
    map (\<lambda>c. ReaderDocumentIDValue (res_doc_id c)) cs = map (\<lambda>d. d AND READER_DOCID_VALUE_MASK) ds"
  using assms
proof (induction ds arbitrary: reader)
  case Nil
  then show ?case using readsD(1) [OF Nil(1)] scored_end by fastforce
next
  case (Cons d ds)
  then obtain entry where entry: "GetEntry d = Some entry" by auto
  from visit_reads [where GetEntry = GetEntry, OF Cons.prems(1) entry Cons.prems(3)] obtain c r' r'' where
    v: "visit GetEntry total_score reader = Some (c, r')" "d_GoNext r' = Some r''" "reads r'' ds"
      "ReaderDocumentIDValue (res_doc_id c) = d AND READER_DOCID_VALUE_MASK" by blast
  from Cons.IH [OF v(3)] Cons.prems obtain cs where
    cs: "scored GetEntry total_score r'' cs" "map (\<lambda>c. ReaderDocumentIDValue (res_doc_id c)) cs = map (\<lambda>d. d AND READER_DOCID_VALUE_MASK) ds"
    by auto
  have "\<not> d_IsEnd reader" using readsD(1) [OF Cons.prems(1)] by simp
  from scored_step [OF this v(1,2) cs(1)] cs(2) v(4) show ?case by (intro exI [of _ "c # cs"]) simp
qed

lemma execute_loop_scored:
  assumes "scored GetEntry total_score reader cs" and "kept_best limit cs0 acc" and "limit \<noteq> Some 0"
  shows "\<exists>acc'. execute_loop GetEntry total_score limit reader acc = Some acc' \<and> kept_best limit (cs0 @ cs) acc'"
  using assms
proof (induction arbitrary: cs0 acc rule: scored.induct)
  case (scored_end reader)
  then show ?case by (subst execute_loop.simps) simp
next
  case (scored_step reader c r' r'' cs)
  have "kept_best limit (cs0 @ [c]) (keep_result limit c acc)" using kept_best_step scored_step.prems by blast
  from scored_step.IH [OF this scored_step.prems(2)] scored_step(1-3) show ?case by (subst execute_loop.simps) simp
qed

lemma bounded_loop_scored:
  assumes "scored GetEntry total_score reader cs" and "kept_best limit cs0 acc" and "limit \<noteq> Some 0" and "visited \<le> maxVisited"
  shows "\<exists>acc'. bounded_loop GetEntry total_score limit maxVisited visited reader acc = Some acc' \<and>
    kept_best limit (cs0 @ take (unat maxVisited - unat visited) cs) acc'"
  using assms
proof (induction arbitrary: cs0 acc visited rule: scored.induct)
  case (scored_end reader)
  then show ?case by (subst bounded_loop.simps) simp
next
  case (scored_step reader c r' r'' cs)
  show ?case
  proof (cases "visited < maxVisited")
    case False
    then have "visited = maxVisited" using scored_step.prems(3) by simp
    then show ?thesis using scored_step.prems(1) by (subst bounded_loop.simps) simp
  next
    case True
    have up: "unat (visited + 1) = unat visited + 1"
      using True unat_bound [of maxVisited] by (simp add: unat_word_ariths word_less_nat_alt)
    then have le: "visited + 1 \<le> maxVisited" using True by (simp add: word_le_nat_alt word_less_nat_alt)
    have left: "unat maxVisited - unat visited = Suc (unat maxVisited - unat (visited + 1))"
      using True up by (simp add: word_less_nat_alt)
    have "kept_best limit (cs0 @ [c]) (keep_result limit c acc)" using kept_best_step scored_step.prems by blast
    from scored_step.IH [OF this scored_step.prems(2) le] scored_step(1-3) True left
    show ?thesis by (subst bounded_loop.simps) simp
  qed
qed

lemma execute_best:
  assumes cs: "scored GetEntry total_score reader cs"
  shows "\<exists>rs. ExecuteWithVector GetEntry total_score reader topK = Some rs \<and> best_of (TopKLimit topK) cs rs"
proof -
  have start: "kept_best (TopKLimit topK) [] ([], [])" by (simp add: kept_best_def split: option.splits)
  from execute_loop_scored [OF cs start TopKLimit_pos] obtain results heap where
    loop: "execute_loop GetEntry total_score (TopKLimit topK) reader ([], []) = Some (results, heap)"
    and best: "kept_best (TopKLimit topK) cs (results, heap)" by auto
  show ?thesis
  proof (cases "d_IsEnd reader")
    case True
    then have "cs = []" using cs by (auto elim: scored.cases)
    then show ?thesis using True by (simp add: ExecuteWithVector_def best_of_Nil)
  next
    case False
    then show ?thesis using loop kept_best_sorted [OF best] by (simp add: ExecuteWithVector_def Let_def)
  qed
qed

text \<open>
  C32. The executor returns, and returns the best results: for a reader that delivers finitely many
  documents, all of which have a record, the results are in descending order of their scores, they are
  \<open>topK\<close> many or all when there are fewer or \<open>topK\<close> is not positive, and no document left out scores
  higher than one returned. The candidates are exactly the documents the reader delivers.
\<close>

theorem ExecuteWithVector_best:
  assumes "reads reader ds" and "\<forall>d \<in> set ds. GetEntry d \<noteq> None" and "keeps_place total_score"
  shows "\<exists>cs rs. scored GetEntry total_score reader cs \<and>
    map (\<lambda>c. ReaderDocumentIDValue (res_doc_id c)) cs = map (\<lambda>d. d AND READER_DOCID_VALUE_MASK) ds \<and>
    ExecuteWithVector GetEntry total_score reader topK = Some rs \<and> best_of (TopKLimit topK) cs rs"
  using scored_reads [OF assms] execute_best by blast

text \<open>
  With a bound on the documents visited the executor returns the best of the first
  \<open>maxVisitedDocs\<close> candidates of the same walk.
\<close>

theorem ExecuteBounded_best:
  assumes "reads reader ds" and "\<forall>d \<in> set ds. GetEntry d \<noteq> None" and "keeps_place total_score"
  shows "\<exists>cs rs. scored GetEntry total_score reader cs \<and> length cs = length ds \<and>
    ExecuteBounded GetEntry total_score reader topK maxVisitedDocs = Some rs \<and>
    best_of (TopKLimit topK) (take (unat maxVisitedDocs) cs) rs"
proof -
  from scored_reads [OF assms] obtain cs where cs: "scored GetEntry total_score reader cs" "length cs = length ds"
    by (metis length_map)
  have start: "kept_best (TopKLimit topK) [] ([], [])" by (simp add: kept_best_def split: option.splits)
  have "0 \<le> maxVisitedDocs" by simp
  from bounded_loop_scored [OF cs(1) start TopKLimit_pos this] obtain results heap where
    loop: "bounded_loop GetEntry total_score (TopKLimit topK) maxVisitedDocs 0 reader ([], []) = Some (results, heap)"
    and best: "kept_best (TopKLimit topK) (take (unat maxVisitedDocs) cs) (results, heap)" by auto
  show ?thesis
  proof (cases "d_IsEnd reader \<or> maxVisitedDocs = 0")
    case True
    then have "take (unat maxVisitedDocs) cs = []" using cs(1) by (auto elim: scored.cases)
    then have "best_of (TopKLimit topK) (take (unat maxVisitedDocs) cs) []" by (simp only: best_of_Nil)
    then show ?thesis using cs True by (auto simp: ExecuteBounded_def)
  next
    case False
    then show ?thesis using cs loop kept_best_sorted [OF best] by (auto simp: ExecuteBounded_def Let_def)
  qed
qed

subsection \<open>Three documents\<close>

text \<open>A reader over three documents, scored by their ids.\<close>

definition id_score :: "Dyn \<Rightarrow> bytes \<Rightarrow> u64 \<times> Dyn" where
  "id_score reader entry = (d_Doc reader, reader)"

lemma id_score_keeps: "keeps_place id_score"
  by (simp add: keeps_place_def id_score_def)

theorem ExecuteWithVector_best_witness:
  "\<exists>cs rs. scored (\<lambda>_. Some []) id_score demo_left cs \<and> map (\<lambda>c. ReaderDocumentIDValue (res_doc_id c)) cs = [3, 5, 7] \<and>
    ExecuteWithVector (\<lambda>_. Some []) id_score demo_left 2 = Some rs \<and> length rs = 2 \<and> best_of (Some 2) cs rs"
proof -
  have limit: "TopKLimit 2 = Some 2" by (simp add: TopKLimit_def word_sless_alt)
  have vals: "map (\<lambda>d :: u64. d AND READER_DOCID_VALUE_MASK) [3, 5, 7] = [3, 5, 7]"
    by (simp add: READER_DOCID_VALUE_MASK_def READER_DOCID_SOURCE_SHIFT_def)
  obtain cs rs where r: "scored (\<lambda>_. Some []) id_score demo_left cs" "map (\<lambda>c. ReaderDocumentIDValue (res_doc_id c)) cs = [3, 5, 7]"
    "ExecuteWithVector (\<lambda>_. Some []) id_score demo_left 2 = Some rs" "best_of (Some 2) cs rs"
    using ExecuteWithVector_best [OF demo_reads(1) _ id_score_keeps, of "\<lambda>_. Some []" 2] unfolding limit vals by auto
  moreover have "length rs = 2" using r(4) arg_cong [OF r(2), of length] by (simp add: best_of_def)
  ultimately show ?thesis by (intro exI [of _ cs] exI [of _ rs]) simp
qed

theorem ExecuteBounded_best_witness:
  "\<exists>cs rs. scored (\<lambda>_. Some []) id_score demo_left cs \<and> length cs = 3 \<and>
    ExecuteBounded (\<lambda>_. Some []) id_score demo_left 0 2 = Some rs \<and> best_of None (take 2 cs) rs"
proof -
  have limit: "TopKLimit 0 = None" by (simp add: TopKLimit_def)
  show ?thesis
    using ExecuteBounded_best [OF demo_reads(1) _ id_score_keeps, of "\<lambda>_. Some []" 0 2] unfolding limit by auto
qed

end
