(* ===== verification/SearchWorkers.thy ===== *)
theory SearchWorkers
  imports QueryRuntime Executor
begin

text \<open>
  The search workers of an index context (\<open>EnqueueWithMode\<close>, \<open>EnsureSearchWorkersStarted\<close>,
  \<open>StopSearchWorkers\<close>, \<open>SearchWorkerLoop\<close>, \<open>ExecuteSearchTask\<close> and \<open>SearchTask\<close> of
  \<open>IndexAccess/IndexContext.rs\<close>): threads that take tasks from a queue under a mutex, wait on a condition
  variable while it is empty, and answer each task over its own channel.

  The threads are a step relation over the shared state. A step is what a thread does in one critical
  section or between two of them. The context is borrowed mutably by its calls, so that there is one
  caller: while \<open>StopSearchWorkers\<close> waits for the threads it makes no other call. Notifications are sent
  after the mutex is released, so they are pending for a while; a thread may also wake up by itself, as
  the documentation of \<open>Condvar\<close> allows. A task whose execution panics ends its thread. The threads execute
  with the snapshot of the context that was taken when they were started, so that a run of the relation
  is one in which the context is not changed between a stop and the next start.

  The theorems: no task is lost or answered twice, no wake-up is missed, and the threads come to rest
  after finitely many steps with every task answered; after a stop request all of them have returned.
\<close>

subsection \<open>A task\<close>

record SearchTaskState =
  t_query :: rstr
  t_vector :: "u32 list"
  t_streams :: rstr
  t_top_k :: i32
  t_mode :: QueryCompileMode
  t_vector_ef_search :: nat
  t_reply :: nat

text \<open>\<open>docs\<close> are the document tables of the snapshot; a panic is \<open>None\<close>.\<close>

definition task_tree :: "(rstr \<Rightarrow> rstr list) \<Rightarrow> SearchTaskState \<Rightarrow> EvalTree" where
  "task_tree tokenize task =
     (let tree = (if t_query task = [] \<and> t_vector task \<noteq> [] then EvalTree_new None
                  else CompileWithMode tokenize (t_query task) (t_streams task) (t_mode task));
          tree = (if t_vector task \<noteq> [] then tree\<lparr>vector_query := t_vector task\<rparr> else tree)
      in tree\<lparr>vector_ef_search := t_vector_ef_search task\<rparr>)"

definition ExecuteSearchTask ::
  "(rstr \<Rightarrow> rstr list) \<Rightarrow> SearchRuntime \<Rightarrow> SearchRuntime option \<Rightarrow> doc_table list \<Rightarrow>
   (u32 list option \<Rightarrow> Dyn \<Rightarrow> bytes \<Rightarrow> ('s :: linorder) \<times> Dyn) \<Rightarrow> SearchTaskState \<Rightarrow> 's SearchResult list option" where
  "ExecuteSearchTask tokenize runtime delta docs total_score task =
     (let tree = task_tree tokenize task
      in if IsEmpty tree then Some []
         else
           let vq = (if HasTextQuery tree \<and> HasVectorQuery tree then Some (vector_query tree) else None)
           in case get_reader runtime delta tree of
                None \<Rightarrow> None
              | Some reader \<Rightarrow> ExecuteWithVector (GetDocDataEntry docs) (total_score vq) reader (t_top_k task))"

subsection \<open>The shared state\<close>

text \<open>
  A thread sleeps in \<open>cv.wait\<close>, is about to look at the queue, executes a task, or has ended. The replies
  are the contents of the channels, which are numbered in the order of their creation.
\<close>

datatype worker = Waiting | Running | Busy SearchTaskState | Ended

record 'r search_pool =
  p_queue :: "SearchTaskState list"
  p_stop :: bool
  p_workers :: "worker list"
  p_notify_one :: nat
  p_notify_all :: bool
  p_replies :: "(nat \<times> 'r) list"
  p_channels :: nat

definition pool_new :: "'r search_pool" where
  "pool_new = \<lparr>p_queue = [], p_stop = False, p_workers = [], p_notify_one = 0, p_notify_all = False, p_replies = [],
     p_channels = 0\<rparr>"

definition EnsureSearchWorkersStarted :: "nat \<Rightarrow> 'r search_pool \<Rightarrow> 'r search_pool" where
  "EnsureSearchWorkersStarted worker_count p =
     (if p_workers p \<noteq> [] then p
      else p\<lparr>p_stop := False, p_workers := replicate (max worker_count 1) Running\<rparr>)"

definition push_task :: "SearchTaskState \<Rightarrow> 'r search_pool \<Rightarrow> 'r search_pool" where
  "push_task task p = p\<lparr>p_queue := p_queue p @ [task], p_notify_one := p_notify_one p + 1, p_channels := p_channels p + 1\<rparr>"

definition new_task ::
  "rstr \<Rightarrow> u32 list \<Rightarrow> rstr \<Rightarrow> i32 \<Rightarrow> QueryCompileMode \<Rightarrow> nat \<Rightarrow> 'r search_pool \<Rightarrow> SearchTaskState" where
  "new_task query vector streams top_k mode efSearch p =
     \<lparr>t_query = query, t_vector = vector, t_streams = (if streams = [] then str ''AUTB'' else streams),
      t_top_k = top_k, t_mode = mode, t_vector_ef_search = efSearch, t_reply = p_channels p\<rparr>"

text \<open>The number that is returned stands for the receiver of the \<open>SearchTask\<close>.\<close>

definition EnqueueWithMode ::
  "rstr \<Rightarrow> u32 list \<Rightarrow> rstr \<Rightarrow> i32 \<Rightarrow> QueryCompileMode \<Rightarrow> nat \<Rightarrow> 'r search_pool \<Rightarrow> nat \<times> 'r search_pool" where
  "EnqueueWithMode query vector streams top_k mode efSearch p =
     (let p = EnsureSearchWorkersStarted 16 p; task = new_task query vector streams top_k mode efSearch p
      in (t_reply task, push_task task p))"

definition Enqueue :: "rstr \<Rightarrow> u32 list \<Rightarrow> rstr \<Rightarrow> i32 \<Rightarrow> 'r search_pool \<Rightarrow> nat \<times> 'r search_pool" where
  "Enqueue query vector streams top_k p = EnqueueWithMode query vector streams top_k WeakAndBigramBoostForDoc 1000 p"

text \<open>\<open>StopSearchWorkers\<close> in two steps: the request, and the return once every thread has been joined.\<close>

definition StopSearchWorkers_request :: "'r search_pool \<Rightarrow> 'r search_pool" where
  "StopSearchWorkers_request p = (if p_workers p = [] then p else p\<lparr>p_stop := True, p_notify_all := True\<rparr>)"

definition StopSearchWorkers_join :: "'r search_pool \<Rightarrow> 'r search_pool" where
  "StopSearchWorkers_join p = p\<lparr>p_workers := []\<rparr>"

definition joining :: "'r search_pool \<Rightarrow> bool" where
  "joining p \<longleftrightarrow> p_stop p \<and> p_workers p \<noteq> []"

definition all_ended :: "'r search_pool \<Rightarrow> bool" where
  "all_ended p \<longleftrightarrow> (\<forall>w \<in> set (p_workers p). w = Ended)"

fun busy_of :: "worker \<Rightarrow> SearchTaskState list" where
  "busy_of (Busy task) = [task]"
| "busy_of _ = []"

text \<open>
  A task owns the sender of its channel, and the queue or a thread owns the task. \<open>Wait\<close> blocks (\<open>None\<close>)
  while the channel is empty and its sender is alive; when the task was dropped without a reply, in a
  panic, it returns no results.
\<close>

definition sender_alive :: "nat \<Rightarrow> 'r search_pool \<Rightarrow> bool" where
  "sender_alive channel p \<longleftrightarrow> channel \<in> t_reply ` set (p_queue p @ concat (map busy_of (p_workers p)))"

definition SearchTask_Wait :: "nat \<Rightarrow> 'r list search_pool \<Rightarrow> 'r list option" where
  "SearchTask_Wait receiver p =
     (case map_of (p_replies p) receiver of
        Some results \<Rightarrow> Some results
      | None \<Rightarrow> if sender_alive receiver p then None else Some [])"

subsection \<open>The steps of the threads\<close>

definition set_worker :: "nat \<Rightarrow> worker \<Rightarrow> 'r search_pool \<Rightarrow> 'r search_pool" where
  "set_worker i w p = p\<lparr>p_workers := (p_workers p)[i := w]\<rparr>"

definition is_worker :: "nat \<Rightarrow> worker \<Rightarrow> 'r search_pool \<Rightarrow> bool" where
  "is_worker i w p \<longleftrightarrow> i < length (p_workers p) \<and> p_workers p ! i = w"

inductive worker_step :: "(SearchTaskState \<Rightarrow> 'r option) \<Rightarrow> 'r search_pool \<Rightarrow> 'r search_pool \<Rightarrow> bool" for execute where
  sleep: "is_worker i Running p \<Longrightarrow> p_queue p = [] \<Longrightarrow> \<not> p_stop p \<Longrightarrow> worker_step execute p (set_worker i Waiting p)"
| finish: "is_worker i Running p \<Longrightarrow> p_queue p = [] \<Longrightarrow> p_stop p \<Longrightarrow> worker_step execute p (set_worker i Ended p)"
| take_task: "is_worker i Running p \<Longrightarrow> p_queue p = task # rest \<Longrightarrow>
    worker_step execute p (set_worker i (Busy task) (p\<lparr>p_queue := rest\<rparr>))"
| reply: "is_worker i (Busy task) p \<Longrightarrow> execute task = Some results \<Longrightarrow>
    worker_step execute p (set_worker i Running (p\<lparr>p_replies := p_replies p @ [(t_reply task, results)]\<rparr>))"
| panic: "is_worker i (Busy task) p \<Longrightarrow> execute task = None \<Longrightarrow> worker_step execute p (set_worker i Ended p)"
| wake_one: "0 < p_notify_one p \<Longrightarrow> is_worker i Waiting p \<Longrightarrow>
    worker_step execute p (set_worker i Running (p\<lparr>p_notify_one := p_notify_one p - 1\<rparr>))"
| wake_none: "0 < p_notify_one p \<Longrightarrow> Waiting \<notin> set (p_workers p) \<Longrightarrow>
    worker_step execute p (p\<lparr>p_notify_one := p_notify_one p - 1\<rparr>)"
| wake_all: "p_notify_all p \<Longrightarrow>
    worker_step execute p (p\<lparr>p_notify_all := False, p_workers := map (\<lambda>w. if w = Waiting then Running else w) (p_workers p)\<rparr>)"

text \<open>
  The states of a context with its threads, and the tasks that were enqueued so far. A push happens
  after the threads were started, with steps of the threads in between.
\<close>

inductive pool_reach :: "(SearchTaskState \<Rightarrow> 'r option) \<Rightarrow> 'r search_pool \<Rightarrow> SearchTaskState list \<Rightarrow> bool" for execute where
  new: "pool_reach execute pool_new []"
| started: "pool_reach execute p ts \<Longrightarrow> \<not> joining p \<Longrightarrow> pool_reach execute (EnsureSearchWorkersStarted n p) ts"
| pushed: "pool_reach execute p ts \<Longrightarrow> \<not> joining p \<Longrightarrow> p_workers p \<noteq> [] \<Longrightarrow>
    task = new_task query vector streams top_k mode ef p \<Longrightarrow> pool_reach execute (push_task task p) (ts @ [task])"
| stop: "pool_reach execute p ts \<Longrightarrow> \<not> joining p \<Longrightarrow> pool_reach execute (StopSearchWorkers_request p) ts"
| joined: "pool_reach execute p ts \<Longrightarrow> joining p \<Longrightarrow> all_ended p \<Longrightarrow> pool_reach execute (StopSearchWorkers_join p) ts"
| stepped: "pool_reach execute p ts \<Longrightarrow> worker_step execute p q \<Longrightarrow> pool_reach execute q ts"
| spurious: "pool_reach execute p ts \<Longrightarrow> is_worker i Waiting p \<Longrightarrow> pool_reach execute (set_worker i Running p) ts"

subsection \<open>No task is lost\<close>

definition busy_tasks :: "'r search_pool \<Rightarrow> SearchTaskState multiset" where
  "busy_tasks p = mset (concat (map busy_of (p_workers p)))"

lemma mset_concat_update:
  assumes "i < length xs"
  shows "mset (concat (map f (xs[i := x]))) + mset (f (xs ! i)) = mset (concat (map f xs)) + mset (f x)"
proof -
  have "mset (concat (map f xs)) = mset (concat (map f (take i xs))) + mset (f (xs ! i)) + mset (concat (map f (drop (Suc i) xs)))"
    by (subst (1) id_take_nth_drop [OF assms]) simp
  then show ?thesis using assms by (simp add: upd_conv_take_nth_drop)
qed

lemma busy_tasks_set:
  assumes "is_worker i w p" and "p_workers p' = p_workers p"
  shows "busy_tasks (set_worker i w' p') + mset (busy_of w) = busy_tasks p + mset (busy_of w')"
  using assms mset_concat_update [of i "p_workers p" busy_of w'] by (simp add: busy_tasks_def set_worker_def is_worker_def)

lemma busy_tasks_wake: "mset (concat (map busy_of (map (\<lambda>w. if w = Waiting then Running else w) ws))) = mset (concat (map busy_of ws))"
  by (induction ws) auto

text \<open>Every task that was enqueued waits, is executed, was answered or was lost in a panic.\<close>

definition tasks_kept :: "(SearchTaskState \<Rightarrow> 'r option) \<Rightarrow> 'r search_pool \<Rightarrow> SearchTaskState list \<Rightarrow> bool" where
  "tasks_kept execute p ts \<longleftrightarrow> map t_reply ts = [0..<p_channels p] \<and>
     (\<exists>answered lost. mset ts = mset (p_queue p) + busy_tasks p + mset answered + lost \<and>
        map Some (map snd (p_replies p)) = map execute answered \<and> map fst (p_replies p) = map t_reply answered \<and>
        (\<forall>task \<in># lost. execute task = None))"

lemma tasks_keptI:
  assumes "map t_reply ts = [0..<p_channels p]" and "mset ts = mset (p_queue p) + busy_tasks p + mset answered + lost"
    and "map Some (map snd (p_replies p)) = map execute answered" "map fst (p_replies p) = map t_reply answered"
    and "\<forall>task \<in># lost. execute task = None"
  shows "tasks_kept execute p ts"
  using assms unfolding tasks_kept_def by blast

lemma tasks_kept_step:
  assumes "tasks_kept execute p ts" and "worker_step execute p q"
  shows "tasks_kept execute q ts"
proof -
  from assms(1) obtain answered lost where k: "map t_reply ts = [0..<p_channels p]"
    "mset ts = mset (p_queue p) + busy_tasks p + mset answered + lost"
    "map Some (map snd (p_replies p)) = map execute answered" "map fst (p_replies p) = map t_reply answered"
    "\<forall>task \<in># lost. execute task = None" by (auto simp: tasks_kept_def)
  from assms(2) show ?thesis
  proof cases
    case (sleep i)
    then show ?thesis using k busy_tasks_set [OF sleep(2) refl, of Waiting] by (intro tasks_keptI [of _ _ answered lost]) (simp_all add: set_worker_def)
  next
    case (finish i)
    then show ?thesis using k busy_tasks_set [OF finish(2) refl, of Ended] by (intro tasks_keptI [of _ _ answered lost]) (simp_all add: set_worker_def)
  next
    case (take_task i task rest)
    have "busy_tasks q = busy_tasks p + {#task#}"
      using busy_tasks_set [OF take_task(2), of "p\<lparr>p_queue := rest\<rparr>" "Busy task"] take_task(1) by simp
    then show ?thesis using k take_task by (intro tasks_keptI [of _ _ answered lost]) (simp_all add: set_worker_def)
  next
    case (reply i task results)
    have "busy_tasks q + {#task#} = busy_tasks p"
      using busy_tasks_set [OF reply(2), of "p\<lparr>p_replies := p_replies p @ [(t_reply task, results)]\<rparr>" Running] reply(1) by simp
    then show ?thesis using k reply by (intro tasks_keptI [of _ _ "answered @ [task]" lost]) (auto simp: set_worker_def)
  next
    case (panic i task)
    have "busy_tasks q + {#task#} = busy_tasks p" using busy_tasks_set [OF panic(2) refl, of Ended] panic(1) by simp
    then show ?thesis using k panic by (intro tasks_keptI [of _ _ answered "add_mset task lost"]) (auto simp: set_worker_def)
  next
    case (wake_one i)
    have "busy_tasks q = busy_tasks p"
      using busy_tasks_set [OF wake_one(3), of "p\<lparr>p_notify_one := p_notify_one p - 1\<rparr>" Running] wake_one(1) by simp
    then show ?thesis using k wake_one by (intro tasks_keptI [of _ _ answered lost]) (simp_all add: set_worker_def)
  next
    case wake_none
    then show ?thesis using k by (intro tasks_keptI [of _ _ answered lost]) (simp_all add: busy_tasks_def)
  next
    case wake_all
    then show ?thesis using k busy_tasks_wake [of "p_workers p"]
      by (intro tasks_keptI [of _ _ answered lost]) (simp_all add: busy_tasks_def)
  qed
qed

lemma tasks_kept_workers:
  assumes "tasks_kept execute p ts" and "busy_tasks q = busy_tasks p" and "p_queue q = p_queue p" "p_replies q = p_replies p"
    "p_channels q = p_channels p"
  shows "tasks_kept execute q ts"
  using assms unfolding tasks_kept_def by simp

lemma busy_tasks_ended: "all_ended p \<Longrightarrow> busy_tasks p = {#}"
  by (auto simp: busy_tasks_def all_ended_def)

lemma pool_reach_kept: "pool_reach execute p ts \<Longrightarrow> tasks_kept execute p ts"
proof (induction rule: pool_reach.induct)
  case new
  show ?case by (rule tasks_keptI [of _ _ "[]" "{#}"]) (simp_all add: pool_new_def busy_tasks_def)
next
  case (started p ts n)
  show ?case
    by (rule tasks_kept_workers [OF started.IH]) (auto simp: EnsureSearchWorkersStarted_def busy_tasks_def)
next
  case (pushed p ts task query vector streams top_k mode ef)
  then obtain answered lost where k: "map t_reply ts = [0..<p_channels p]"
    "mset ts = mset (p_queue p) + busy_tasks p + mset answered + lost"
    "map Some (map snd (p_replies p)) = map execute answered" "map fst (p_replies p) = map t_reply answered"
    "\<forall>task \<in># lost. execute task = None" by (auto simp: tasks_kept_def)
  then show ?case
    using pushed.hyps(4) by (intro tasks_keptI [of _ _ answered lost]) (simp_all add: push_task_def busy_tasks_def new_task_def)
next
  case (stop p ts)
  show ?case by (rule tasks_kept_workers [OF stop.IH]) (simp_all add: StopSearchWorkers_request_def busy_tasks_def)
next
  case (joined p ts)
  show ?case
    using busy_tasks_ended [OF joined.hyps(3)]
    by (intro tasks_kept_workers [OF joined.IH]) (simp_all add: StopSearchWorkers_join_def busy_tasks_def)
next
  case (stepped p ts q)
  then show ?case using tasks_kept_step by blast
next
  case (spurious p ts i)
  show ?case
    using busy_tasks_set [OF spurious.hyps(2) refl, of Running]
    by (intro tasks_kept_workers [OF spurious.IH]) (simp_all add: set_worker_def)
qed

text \<open>What the caller of a task gets: the results, or none after a panic.\<close>

definition task_answer :: "(SearchTaskState \<Rightarrow> 'r list option) \<Rightarrow> SearchTaskState \<Rightarrow> 'r list" where
  "task_answer execute task = (case execute task of Some results \<Rightarrow> results | None \<Rightarrow> [])"

lemma in_busy_of: "t \<in> set (concat (map busy_of ws)) \<longleftrightarrow> Busy t \<in> set ws"
proof -
  have "t \<in> set (busy_of w) \<longleftrightarrow> w = Busy t" for w by (cases w) auto
  then show ?thesis by auto
qed

lemma kept_answers:
  assumes kept: "tasks_kept execute p ts"
  shows "distinct (map fst (p_replies p))"
    and "t \<in> set ts \<Longrightarrow> SearchTask_Wait (t_reply t) p =
      (if t \<in> set (p_queue p) \<or> Busy t \<in> set (p_workers p) then None else Some (task_answer execute t))"
proof -
  from kept obtain answered lost where k: "map t_reply ts = [0..<p_channels p]"
    "mset ts = mset (p_queue p) + busy_tasks p + mset answered + lost"
    "map Some (map snd (p_replies p)) = map execute answered" "map fst (p_replies p) = map t_reply answered"
    "\<forall>task \<in># lost. execute task = None" by (auto simp: tasks_kept_def)
  obtain ls where ls: "mset ls = lost" using ex_mset by blast
  let ?open = "p_queue p @ concat (map busy_of (p_workers p))"
  have all: "mset ts = mset (?open @ answered @ ls)" using k(2) ls by (simp add: busy_tasks_def)
  then have "mset (map t_reply ts) = mset (map t_reply (?open @ answered @ ls))" by (simp only: mset_map)
  from mset_eq_imp_distinct_iff [OF this] k(1) have dist: "distinct (map t_reply (?open @ answered @ ls))" by simp
  then show keys: "distinct (map fst (p_replies p))" unfolding k(4) by simp
  have len: "length answered = length (p_replies p)" using k(4) by (metis length_map)
  have at: "fst (p_replies p ! i) = t_reply (answered ! i) \<and> Some (snd (p_replies p ! i)) = execute (answered ! i)"
    if "i < length (p_replies p)" for i
    using that len nth_map [of i "p_replies p" fst] nth_map [of i answered t_reply] k(3,4)
    by (metis (no_types, lifting) length_map nth_map)
  have found: "map_of (p_replies p) (t_reply t) = execute t" if t: "t \<in> set answered" for t
  proof -
    from t len obtain i where i: "i < length (p_replies p)" "answered ! i = t" by (metis in_set_conv_nth)
    with at [of i] have "p_replies p ! i = (t_reply t, snd (p_replies p ! i))" "execute t = Some (snd (p_replies p ! i))"
      by (simp_all add: prod_eq_iff)
    with keys nth_mem [OF i(1)] show ?thesis by simp
  qed
  have apart: "set (map t_reply ?open) \<inter> set (map t_reply answered) = {}" "set (map t_reply ?open) \<inter> set (map t_reply ls) = {}"
    "set (map t_reply answered) \<inter> set (map t_reply ls) = {}"
  proof -
    have "set ys \<inter> set ys' = {} \<and> set ys \<inter> set ys'' = {} \<and> set ys' \<inter> set ys'' = {}" if "distinct (ys @ ys' @ ys'')"
      for ys ys' ys'' :: "nat list" using that by auto
    from this [OF dist [unfolded map_append [of t_reply ?open] map_append [of t_reply answered]]]
    show "set (map t_reply ?open) \<inter> set (map t_reply answered) = {}" "set (map t_reply ?open) \<inter> set (map t_reply ls) = {}"
      "set (map t_reply answered) \<inter> set (map t_reply ls) = {}" by blast+
  qed
  have none: "map_of (p_replies p) (t_reply t) = None" if "t \<in> set ?open \<or> t \<in> set ls" for t
  proof -
    from that have "t_reply t \<in> set (map t_reply ?open) \<or> t_reply t \<in> set (map t_reply ls)" unfolding set_map by blast
    then have "t_reply t \<notin> set (map t_reply answered)" using apart(1,3) by blast
    then show ?thesis unfolding k(4) [symmetric] by (simp add: map_of_eq_None_iff)
  qed
  have closed: "\<not> sender_alive (t_reply t) p" if "t \<in> set answered \<or> t \<in> set ls" for t
  proof -
    from that have "t_reply t \<in> set (map t_reply answered) \<or> t_reply t \<in> set (map t_reply ls)" unfolding set_map by blast
    then show ?thesis using apart(1,2) unfolding sender_alive_def set_map by blast
  qed
  show "SearchTask_Wait (t_reply t) p =
      (if t \<in> set (p_queue p) \<or> Busy t \<in> set (p_workers p) then None else Some (task_answer execute t))"
    if "t \<in> set ts"
  proof -
    have opened: "t \<in> set (p_queue p) \<or> Busy t \<in> set (p_workers p) \<longleftrightarrow> t \<in> set ?open" using in_busy_of [of t] by auto
    from that mset_eq_setD [OF all] consider "t \<in> set ?open" | "t \<in> set answered" | "t \<in> set ls" by auto
    then show ?thesis
    proof cases
      case 1
      then have "sender_alive (t_reply t) p" unfolding sender_alive_def by (rule imageI)
      then show ?thesis unfolding opened using 1 none [of t] by (simp add: SearchTask_Wait_def)
    next
      case 2
      then have "execute t \<noteq> None" using k(3) by (metis (no_types, lifting) image_eqI image_iff list.set_map option.distinct(1))
      moreover have "t \<notin> set ?open" using 2 closed [of t] unfolding sender_alive_def by blast
      ultimately show ?thesis unfolding opened using found [OF 2] by (auto simp: SearchTask_Wait_def task_answer_def)
    next
      case 3
      then have "execute t = None" using k(5) ls by auto
      moreover have "t \<notin> set ?open" using 3 closed [of t] unfolding sender_alive_def by blast
      ultimately show ?thesis unfolding opened using 3 none [of t] closed [of t] by (simp add: SearchTask_Wait_def task_answer_def)
    qed
  qed
qed

subsection \<open>No wake-up is missed\<close>

definition count_running :: "'r search_pool \<Rightarrow> nat" where
  "count_running p = count_list (p_workers p) Running"

text \<open>
  While a thread sleeps, every task of the queue has a notification under way or a thread that is about
  to look; after a stop request the sleeping threads are going to be notified. As long as no execution
  panics, a thread ends only with the queue empty and after a stop request.
\<close>

definition wakeups_ok :: "'r search_pool \<Rightarrow> bool" where
  "wakeups_ok p \<longleftrightarrow> (Waiting \<in> set (p_workers p) \<longrightarrow> length (p_queue p) \<le> p_notify_one p + count_running p \<and>
     (p_stop p \<longrightarrow> p_notify_all p))"

definition ends_ok :: "'r search_pool \<Rightarrow> bool" where
  "ends_ok p \<longleftrightarrow> (Ended \<in> set (p_workers p) \<longrightarrow> p_stop p \<and> p_queue p = []) \<and> (p_workers p = [] \<longrightarrow> p_queue p = [])"

lemma count_list_update:
  "i < length xs \<Longrightarrow> count_list (xs[i := x]) y + (if xs ! i = y then 1 else 0) = count_list xs y + (if x = y then 1 else 0)"
proof (induction xs arbitrary: i)
  case (Cons a xs)
  show ?case
  proof (cases i)
    case (Suc j)
    with Cons.IH [of j] Cons.prems show ?thesis by (simp split: if_splits)
  qed simp
qed simp

lemma count_running_set:
  "is_worker i w p \<Longrightarrow> p_workers p' = p_workers p \<Longrightarrow>
   count_running (set_worker i w' p') + (if w = Running then 1 else 0) = count_running p + (if w' = Running then 1 else 0)"
  using count_list_update [of i "p_workers p" w' Running] by (simp add: count_running_def set_worker_def is_worker_def)

lemma in_set_update: "w \<in> set (xs[i := x]) \<Longrightarrow> w = x \<or> w \<in> set xs"
  using set_update_subset_insert by fastforce

lemma worker_in: "is_worker i w p \<Longrightarrow> w \<in> set (p_workers p)"
  by (auto simp: is_worker_def)

lemma wakeups_ok_step:
  assumes "wakeups_ok p" and "worker_step execute p q"
  shows "wakeups_ok q"
  using assms(2)
proof cases
  case (sleep i)
  then show ?thesis by (simp add: wakeups_ok_def set_worker_def)
next
  case (finish i)
  then show ?thesis
    using assms(1) count_running_set [OF finish(2) refl, of Ended]
    by (auto simp: wakeups_ok_def set_worker_def dest: in_set_update)
next
  case (take_task i task rest)
  then have "count_running q + 1 = count_running p"
    using count_running_set [OF take_task(2), of "p\<lparr>p_queue := rest\<rparr>" "Busy task"] by simp
  then show ?thesis
    using assms(1) take_task by (auto simp: wakeups_ok_def set_worker_def dest: in_set_update)
next
  case (reply i task results)
  then have "count_running q = count_running p + 1"
    using count_running_set [OF reply(2), of "p\<lparr>p_replies := p_replies p @ [(t_reply task, results)]\<rparr>" Running] by simp
  then show ?thesis
    using assms(1) reply by (auto simp: wakeups_ok_def set_worker_def dest: in_set_update)
next
  case (panic i task)
  then have "count_running q = count_running p" using count_running_set [OF panic(2) refl, of Ended] by simp
  then show ?thesis
    using assms(1) panic by (auto simp: wakeups_ok_def set_worker_def dest: in_set_update)
next
  case (wake_one i)
  then have "count_running q = count_running p + 1"
    using count_running_set [OF wake_one(3), of "p\<lparr>p_notify_one := p_notify_one p - 1\<rparr>" Running] by simp
  then show ?thesis
    using assms(1) wake_one worker_in [OF wake_one(3)] by (auto simp: wakeups_ok_def set_worker_def)
next
  case wake_none
  then show ?thesis by (simp add: wakeups_ok_def)
next
  case wake_all
  then show ?thesis by (auto simp: wakeups_ok_def)
qed

lemma ends_ok_step:
  assumes "ends_ok p" and "worker_step execute p q" and total: "\<And>t. Busy t \<in> set (p_workers p) \<Longrightarrow> execute t \<noteq> None"
  shows "ends_ok q"
  using assms(2)
proof cases
  case (panic i task)
  then show ?thesis using total worker_in by blast
next
  case wake_all
  then show ?thesis using assms(1) by (auto simp: ends_ok_def)
qed (use assms(1) in \<open>auto simp: ends_ok_def set_worker_def dest: in_set_update worker_in\<close>)

lemma pool_reach_wakeups: "pool_reach execute p ts \<Longrightarrow> wakeups_ok p"
proof (induction rule: pool_reach.induct)
  case new
  show ?case by (simp add: wakeups_ok_def pool_new_def)
next
  case (started p ts n)
  then show ?case by (auto simp: wakeups_ok_def EnsureSearchWorkersStarted_def)
next
  case (pushed p ts task query vector streams top_k mode ef)
  then show ?case by (auto simp: wakeups_ok_def push_task_def count_running_def)
next
  case (stop p ts)
  then show ?case by (auto simp: wakeups_ok_def StopSearchWorkers_request_def count_running_def)
next
  case (joined p ts)
  then show ?case by (simp add: wakeups_ok_def StopSearchWorkers_join_def)
next
  case (stepped p ts q)
  then show ?case using wakeups_ok_step by blast
next
  case (spurious p ts i)
  have "count_running (set_worker i Running p) = count_running p + 1"
    using count_running_set [OF spurious.hyps(2) refl, of Running] by simp
  then show ?case
    using spurious.IH worker_in [OF spurious.hyps(2)] by (auto simp: wakeups_ok_def set_worker_def)
qed

lemma busy_enqueued:
  assumes "pool_reach execute p ts" and "Busy t \<in> set (p_workers p)" shows "t \<in> set ts"
proof -
  from pool_reach_kept [OF assms(1)] obtain answered lost where
    "mset ts = mset (p_queue p) + busy_tasks p + mset answered + lost" by (auto simp: tasks_kept_def)
  moreover have "t \<in># busy_tasks p" using assms(2) unfolding busy_tasks_def by (force intro: bexI [of _ "Busy t"])
  ultimately have "t \<in># mset ts" by simp
  then show ?thesis by simp
qed

lemma pool_reach_ends:
  assumes "pool_reach execute p ts" and "\<forall>t \<in> set ts. execute t \<noteq> None"
  shows "ends_ok p"
  using assms
proof (induction rule: pool_reach.induct)
  case new
  show ?case by (simp add: ends_ok_def pool_new_def)
next
  case (started p ts n)
  then show ?case by (auto simp: ends_ok_def EnsureSearchWorkersStarted_def)
next
  case (pushed p ts task query vector streams top_k mode ef)
  then show ?case by (auto simp: ends_ok_def push_task_def joining_def)
next
  case (stop p ts)
  then show ?case by (auto simp: ends_ok_def StopSearchWorkers_request_def joining_def)
next
  case (joined p ts)
  then show ?case
    by (cases "p_workers p") (auto simp: ends_ok_def StopSearchWorkers_join_def joining_def all_ended_def)
next
  case (stepped p ts q)
  then show ?case using ends_ok_step busy_enqueued by blast
next
  case (spurious p ts i)
  then show ?case by (auto simp: ends_ok_def set_worker_def dest: in_set_update worker_in)
qed

subsection \<open>The threads come to rest\<close>

fun worker_work :: "worker \<Rightarrow> nat" where
  "worker_work Running = 1"
| "worker_work (Busy task) = 2"
| "worker_work _ = 0"

definition pool_work :: "'r search_pool \<Rightarrow> nat" where
  "pool_work p = 3 * length (p_queue p) + sum_list (map worker_work (p_workers p)) + 2 * p_notify_one p +
     (if p_notify_all p then length (p_workers p) + 1 else 0)"

lemma sum_list_set:
  fixes f :: "'a \<Rightarrow> nat"
  shows "i < length xs \<Longrightarrow> sum_list (map f (xs[i := x])) + f (xs ! i) = sum_list (map f xs) + f x"
  by (induction xs arbitrary: i) (auto split: nat.splits)

lemma worker_work_set:
  "is_worker i w p \<Longrightarrow> p_workers p' = p_workers p \<Longrightarrow>
   sum_list (map worker_work (p_workers (set_worker i w' p'))) + worker_work w = sum_list (map worker_work (p_workers p)) + worker_work w'"
  using sum_list_set [of i "p_workers p" worker_work w'] by (simp add: set_worker_def is_worker_def)

lemma worker_work_wake:
  "sum_list (map worker_work (map (\<lambda>w. if w = Waiting then Running else w) ws)) \<le> sum_list (map worker_work ws) + length ws"
  by (induction ws) auto

lemma set_worker_fields [simp]:
  "p_queue (set_worker i w p) = p_queue p" "p_notify_one (set_worker i w p) = p_notify_one p"
  "p_notify_all (set_worker i w p) = p_notify_all p" "p_stop (set_worker i w p) = p_stop p"
  "length (p_workers (set_worker i w p)) = length (p_workers p)"
  by (simp_all add: set_worker_def)

lemma pool_work_step:
  assumes "worker_step execute p q" shows "pool_work q < pool_work p"
  using assms
proof cases
  case (sleep i)
  then show ?thesis using worker_work_set [OF sleep(2) refl, of Waiting] by (simp add: pool_work_def)
next
  case (finish i)
  then show ?thesis using worker_work_set [OF finish(2) refl, of Ended] by (simp add: pool_work_def)
next
  case (take_task i task rest)
  then show ?thesis using worker_work_set [OF take_task(2), of "p\<lparr>p_queue := rest\<rparr>" "Busy task"] by (simp add: pool_work_def)
next
  case (reply i task results)
  then show ?thesis
    using worker_work_set [OF reply(2), of "p\<lparr>p_replies := p_replies p @ [(t_reply task, results)]\<rparr>" Running] by (simp add: pool_work_def)
next
  case (panic i task)
  then show ?thesis using worker_work_set [OF panic(2) refl, of Ended] by (simp add: pool_work_def)
next
  case (wake_one i)
  then show ?thesis
    using worker_work_set [OF wake_one(3), of "p\<lparr>p_notify_one := p_notify_one p - 1\<rparr>" Running] by (simp add: pool_work_def)
next
  case wake_none
  then show ?thesis by (simp add: pool_work_def)
next
  case wake_all
  then show ?thesis using worker_work_wake [of "p_workers p"] by (simp add: pool_work_def del: map_map)
qed

lemma pool_work_steps: "(worker_step execute ^^ n) p q \<Longrightarrow> n + pool_work q \<le> pool_work p"
proof (induction n arbitrary: q)
  case (Suc n)
  then obtain m where "(worker_step execute ^^ n) p m" "worker_step execute m q" by auto
  from Suc.IH [OF this(1)] pool_work_step [OF this(2)] show ?case by simp
qed simp

lemma pool_reach_steps: "pool_reach execute p ts \<Longrightarrow> (worker_step execute ^^ n) p q \<Longrightarrow> pool_reach execute q ts"
  by (induction n arbitrary: q) (auto intro: pool_reach.stepped)

lemma worker_at: "w \<in> set (p_workers p) \<Longrightarrow> \<exists>i. is_worker i w p"
  by (auto simp: is_worker_def in_set_conv_nth)

lemma resting_pool:
  assumes reach: "pool_reach execute p ts" and total: "\<forall>t \<in> set ts. execute t \<noteq> None" and rest: "\<nexists>q. worker_step execute p q"
  shows "p_queue p = []" and "w \<in> set (p_workers p) \<Longrightarrow> w = (if p_stop p then Ended else Waiting)"
proof -
  note inv = pool_reach_wakeups [OF reach] pool_reach_ends [OF reach total]
  have busy: "Busy t \<notin> set (p_workers p)" for t
    using rest total busy_enqueued [OF reach] worker_at worker_step.reply by (metis option.exhaust)
  have running: "Running \<notin> set (p_workers p)"
    using rest worker_at worker_step.sleep worker_step.finish worker_step.take_task by (metis neq_Nil_conv)
  have all: "\<not> p_notify_all p" using rest worker_step.wake_all by blast
  have one: "p_notify_one p = 0" using rest worker_at worker_step.wake_one worker_step.wake_none by (metis gr0I)
  have none: "count_running p = 0" using running by (simp add: count_running_def count_list_0_iff)
  have kinds: "w = Waiting \<or> w = Ended" if "w \<in> set (p_workers p)" for w using that busy running by (metis worker.exhaust)
  have "Waiting \<in> set (p_workers p) \<Longrightarrow> p_queue p = [] \<and> \<not> p_stop p" using inv(1) one none all by (simp add: wakeups_ok_def)
  moreover have "Ended \<in> set (p_workers p) \<Longrightarrow> p_queue p = [] \<and> p_stop p" "p_workers p = [] \<Longrightarrow> p_queue p = []"
    using inv(2) by (simp_all add: ends_ok_def)
  moreover have "p_workers p = [] \<or> (\<exists>w. w \<in> set (p_workers p))" by (cases "p_workers p") auto
  ultimately show "p_queue p = []" using kinds by blast
  show "w = (if p_stop p then Ended else Waiting)" if "w \<in> set (p_workers p)"
    using kinds [OF that] that \<open>Waiting \<in> set (p_workers p) \<Longrightarrow> p_queue p = [] \<and> \<not> p_stop p\<close>
      \<open>Ended \<in> set (p_workers p) \<Longrightarrow> p_queue p = [] \<and> p_stop p\<close> by auto
qed

subsection \<open>What a caller sees\<close>

text \<open>
  C16. Every search that was enqueued is accounted for, under every interleaving of the threads, the caller
  and spurious wake-ups, panics included: a channel gets at most one reply, a caller waits for its search
  exactly as long as it is queued or being executed, and what it then gets are the results of executing
  that very search, or no results when the execution panicked.
\<close>

theorem search_tasks_accounted:
  assumes "pool_reach execute p ts"
  shows "distinct (map fst (p_replies p)) \<and>
    (\<forall>t \<in> set ts. SearchTask_Wait (t_reply t) p =
      (if t \<in> set (p_queue p) \<or> Busy t \<in> set (p_workers p) then None else Some (task_answer execute t)))"
  using kept_answers [OF pool_reach_kept [OF assms]] by blast

lemma settled_answers:
  assumes "pool_reach execute p ts" and "\<forall>t \<in> set ts. execute t \<noteq> None" and "(worker_step execute ^^ n) p q"
    and rest: "\<nexists>q'. worker_step execute q q'"
  shows "(\<forall>t \<in> set ts. SearchTask_Wait (t_reply t) q = execute t) \<and> (p_stop q \<longrightarrow> all_ended q)"
proof -
  have reach: "pool_reach execute q ts" using assms(1,3) by (rule pool_reach_steps)
  note r = resting_pool [OF reach assms(2) rest]
  have "SearchTask_Wait (t_reply t) q = execute t" if t: "t \<in> set ts" for t
  proof -
    have "Busy t \<notin> set (p_workers q)" using r(2) [of "Busy t"] by (auto split: if_splits)
    then show ?thesis using kept_answers(2) [OF pool_reach_kept [OF reach] t] r(1) assms(2) t by (auto simp: task_answer_def)
  qed
  then show ?thesis using r(2) by (auto simp: all_ended_def)
qed

text \<open>
  C17. The threads come to rest and nobody waits for ever: from every reachable state, when no enqueued
  search panics, at most \<open>pool_work p\<close> steps of the threads follow until the next call of the caller (spurious
  wake-ups aside), and once no step is left every task that was enqueued has its answer; after a stop
  request all threads have then ended, so that \<open>StopSearchWorkers\<close> returns.
\<close>

theorem search_workers_settle:
  assumes "pool_reach execute p ts" and "\<forall>t \<in> set ts. execute t \<noteq> None" and "(worker_step execute ^^ n) p q"
  shows "n \<le> pool_work p \<and> ((\<nexists>q'. worker_step execute q q') \<longrightarrow>
    (\<forall>t \<in> set ts. SearchTask_Wait (t_reply t) q = execute t) \<and> (p_stop q \<longrightarrow> all_ended q))"
  using settled_answers [OF assms] pool_work_steps [OF assms(3)] by simp

subsection \<open>One search\<close>

lemma EnqueueWithMode_reach:
  assumes "pool_reach execute p ts" and "\<not> joining p"
  shows "pool_reach execute (snd (EnqueueWithMode query vector streams top_k mode ef p)) (ts @ [new_task query vector streams top_k mode ef p])"
proof -
  let ?p = "EnsureSearchWorkersStarted 16 p"
  have p: "\<not> joining ?p" "p_workers ?p \<noteq> []" "p_channels ?p = p_channels p"
    using assms(2) by (auto simp: EnsureSearchWorkersStarted_def joining_def)
  have task: "new_task query vector streams top_k mode ef p = new_task query vector streams top_k mode ef ?p"
    using p(3) by (simp add: new_task_def)
  have "pool_reach execute ?p ts" using assms by (rule pool_reach.started)
  from pool_reach.pushed [OF this p(1,2) task] show ?thesis by (simp add: EnqueueWithMode_def Let_def task)
qed

lemma new_not_joining: "\<not> joining pool_new"
  by (simp add: joining_def pool_new_def)

lemma pool_settles: "\<exists>n q. (worker_step execute ^^ n) p q \<and> (\<nexists>q'. worker_step execute q q')"
proof (induction "pool_work p" arbitrary: p rule: less_induct)
  case less
  show ?case
  proof (cases "\<exists>m. worker_step execute p m")
    case True
    then obtain m where m: "worker_step execute p m" by blast
    from less [OF pool_work_step [OF m]] obtain n q where
      "(worker_step execute ^^ n) m q" "\<nexists>q'. worker_step execute q q'" by blast
    with relpowp_Suc_I2 [OF m this(1)] show ?thesis by blast
  next
    case False
    then show ?thesis by (intro exI [of _ 0] exI [of _ p]) simp
  qed
qed

definition demo_execute :: "SearchTaskState \<Rightarrow> nat list option" where
  "demo_execute task = Some [length (t_query task)]"

definition demo_pool :: "nat list search_pool" where
  "demo_pool = snd (EnqueueWithMode (str ''a'') [] [] 10 Default 1000 pool_new)"

definition demo_task :: SearchTaskState where
  "demo_task = new_task (str ''a'') [] [] 10 Default 1000 (pool_new :: nat list search_pool)"

lemma demo_pool_reach: "pool_reach demo_execute demo_pool [demo_task]"
  unfolding demo_pool_def demo_task_def using EnqueueWithMode_reach [OF pool_reach.new new_not_joining] by fastforce

lemma demo_task_facts: "demo_execute demo_task = Some [1]" "t_reply demo_task = 0" "demo_task \<in> set (p_queue demo_pool)"
proof -
  show "demo_execute demo_task = Some [1]" "t_reply demo_task = 0"
    by (simp_all add: demo_execute_def demo_task_def new_task_def str_simps pool_new_def)
  show "demo_task \<in> set (p_queue demo_pool)"
    by (simp add: demo_pool_def demo_task_def EnqueueWithMode_def EnsureSearchWorkersStarted_def push_task_def new_task_def
        pool_new_def Let_def)
qed

theorem search_tasks_accounted_witness:
  "p_replies demo_pool = [] \<and> SearchTask_Wait 0 demo_pool = None"
proof -
  have "p_replies demo_pool = []"
    by (simp add: demo_pool_def EnqueueWithMode_def EnsureSearchWorkersStarted_def push_task_def pool_new_def Let_def)
  with search_tasks_accounted [OF demo_pool_reach] demo_task_facts(2,3) show ?thesis by simp
qed

theorem search_workers_settle_witness:
  "\<exists>n q. (worker_step demo_execute ^^ n) demo_pool q \<and> n \<le> pool_work demo_pool \<and> SearchTask_Wait 0 q = Some [1]"
proof -
  obtain n q where q: "(worker_step demo_execute ^^ n) demo_pool q" "\<nexists>q'. worker_step demo_execute q q'" using pool_settles by blast
  from search_workers_settle [OF demo_pool_reach _ q(1)] q demo_task_facts(1,2) show ?thesis by auto
qed

text \<open>A panic takes its thread with it: when all threads have ended that way, a search is enqueued and never answered.\<close>

lemma ended_pool_silent:
  assumes "all_ended p" and "worker_step execute p q"
  shows "all_ended q \<and> p_replies q = p_replies p \<and> p_queue q = p_queue p"
proof -
  have "w = Ended" if "is_worker i w p" for i w using assms(1) worker_in [OF that] by (simp add: all_ended_def)
  with assms(2,1) show ?thesis by cases (fastforce simp: all_ended_def)+
qed

lemma ended_pool_steps:
  "(worker_step execute ^^ n) p q \<Longrightarrow> all_ended p \<Longrightarrow> all_ended q \<and> p_replies q = p_replies p \<and> p_queue q = p_queue p"
proof (induction n arbitrary: q)
  case (Suc n)
  then obtain m where "(worker_step execute ^^ n) p m" "worker_step execute m q" by auto
  with Suc.IH [OF this(1) Suc.prems(2)] ended_pool_silent show ?case by fastforce
qed simp

lemma panics_silence:
  assumes "pool_reach execute p ts" and "\<not> joining p" and "p_workers p \<noteq> []" and "all_ended p"
    and "EnqueueWithMode query vector streams top_k mode ef p = (channel, p')" and "(worker_step execute ^^ n) p' q"
  shows "SearchTask_Wait channel q = None"
proof -
  let ?t = "new_task query vector streams top_k mode ef p"
  have p': "p' = push_task ?t p" "channel = t_reply ?t" using assms(3,5) by (auto simp: EnqueueWithMode_def EnsureSearchWorkersStarted_def Let_def)
  have reach: "pool_reach execute q (ts @ [?t])"
    using pool_reach_steps [OF _ assms(6)] EnqueueWithMode_reach [OF assms(1,2), of query vector streams top_k mode ef] assms(5) by simp
  have "all_ended p'" using assms(4) p'(1) by (simp add: all_ended_def push_task_def)
  from ended_pool_steps [OF assms(6) this] have "?t \<in> set (p_queue q)" using p'(1) by (simp add: push_task_def)
  with kept_answers(2) [OF pool_reach_kept [OF reach], of ?t] show ?thesis using p'(2) by simp
qed

end
