(* ===== verification/HashFunctions.thy ===== *)
theory HashFunctions
  imports Prelude
begin

text \<open>
  The hash functions of \<open>IndexAccess/HashFunctions.rs\<close> (three variants of MurmurHash3) and the element
  filter of \<open>IndexAccess/ElementFilter.rs\<close>, a Bloom filter with one byte per bit.

  The theorems: for every key the hash is a bijection of the seed, so that no two seeds ever agree, and
  in particular the two hashes of the code are never equal; the filter has no false negatives.
\<close>

subsection \<open>MurmurHash3, 32 bits\<close>

definition fmix32 :: "u32 \<Rightarrow> u32" where
  "fmix32 value =
     (let value = value XOR drop_bit 16 value;
          value = value * 0x85ebca6b;
          value = value XOR drop_bit 13 value;
          value = value * 0xc2b2ae35
      in value XOR drop_bit 16 value)"

definition fmix64 :: "u64 \<Rightarrow> u64" where
  "fmix64 value =
     (let value = value XOR drop_bit 33 value;
          value = value * 0xff51afd7ed558ccd;
          value = value XOR drop_bit 33 value;
          value = value * 0xc4ceb9fe1a85ec53
      in value XOR drop_bit 33 value)"

text \<open>The bytes of the key that do not fill a block are read one by one, the last first.\<close>

definition tail_byte :: "bytes \<Rightarrow> nat \<Rightarrow> nat \<Rightarrow> 'a :: len word \<Rightarrow> 'a word" where
  "tail_byte tail i shift k = (if length tail \<ge> i + 1 then k XOR push_bit shift (ucast (tail ! i)) else k)"

definition x86_32_block :: "bytes \<Rightarrow> nat \<Rightarrow> u32 \<Rightarrow> u32" where
  "x86_32_block key index h1 =
     (let k1 = u32_from_le (subslice (index * 4) (index * 4 + 4) key);
          k1 = word_rotl 15 (k1 * 0xcc9e2d51) * 0x1b873593;
          h1 = h1 XOR k1
      in word_rotl 13 h1 * 5 + 0xe6546b64)"

definition x86_32_tail :: "bytes \<Rightarrow> u32 \<Rightarrow> u32" where
  "x86_32_tail tail h1 =
     (let k1 = tail_byte tail 0 0 (tail_byte tail 1 8 (tail_byte tail 2 16 0))
      in if tail \<noteq> [] then h1 XOR word_rotl 15 (k1 * 0xcc9e2d51) * 0x1b873593 else h1)"

definition MurmurHash3_x86_32 :: "bytes \<Rightarrow> u32 \<Rightarrow> u32" where
  "MurmurHash3_x86_32 key seed =
     (let blocks = length key div 4;
          h1 = fold (x86_32_block key) [0..<blocks] seed;
          h1 = x86_32_tail (drop (blocks * 4) key) h1;
          h1 = h1 XOR word_of_nat (length key);
          h1 = h1 XOR drop_bit 16 h1;
          h1 = h1 * 0x85ebca6b;
          h1 = h1 XOR drop_bit 13 h1;
          h1 = h1 * 0xc2b2ae35
      in h1 XOR drop_bit 16 h1)"

text \<open>The results are \<open>i32\<close> in the code: the same bits.\<close>

definition Hash1 :: "bytes \<Rightarrow> i32" where
  "Hash1 key = MurmurHash3_x86_32 key 1"

definition Hash2 :: "bytes \<Rightarrow> i32" where
  "Hash2 key = MurmurHash3_x86_32 key 2"

definition HashMurmur3 :: "bytes \<Rightarrow> i32 \<Rightarrow> i32" where
  "HashMurmur3 key seed = MurmurHash3_x86_32 key seed"

definition HashCrypto :: "bytes \<Rightarrow> i32" where
  "HashCrypto key = 0"

subsection \<open>MurmurHash3, 128 bits in words of 32\<close>

type_synonym quad = "u32 \<times> u32 \<times> u32 \<times> u32"

definition mix1 :: "u32 \<Rightarrow> u32" where
  "mix1 k1 = word_rotl 15 (k1 * 0x239b961b) * 0xab0e9789"

definition mix2 :: "u32 \<Rightarrow> u32" where
  "mix2 k2 = word_rotl 16 (k2 * 0xab0e9789) * 0x38b34ae5"

definition mix3 :: "u32 \<Rightarrow> u32" where
  "mix3 k3 = word_rotl 17 (k3 * 0x38b34ae5) * 0xa1e38b93"

definition mix4 :: "u32 \<Rightarrow> u32" where
  "mix4 k4 = word_rotl 18 (k4 * 0xa1e38b93) * 0x239b961b"

definition x86_128_block :: "bytes \<Rightarrow> quad \<Rightarrow> quad" where
  "x86_128_block block = (\<lambda>(h1, h2, h3, h4).
     let h1 = (word_rotl 19 (h1 XOR mix1 (u32_from_le (subslice 0 4 block))) + h2) * 5 + 0x561ccd1b;
         h2 = (word_rotl 17 (h2 XOR mix2 (u32_from_le (subslice 4 8 block))) + h3) * 5 + 0x0bcaa747;
         h3 = (word_rotl 15 (h3 XOR mix3 (u32_from_le (subslice 8 12 block))) + h4) * 5 + 0x96cd1c35;
         h4 = (word_rotl 13 (h4 XOR mix4 (u32_from_le (subslice 12 16 block))) + h1) * 5 + 0x32ac3b17
     in (h1, h2, h3, h4))"

definition x86_128_tail :: "bytes \<Rightarrow> quad \<Rightarrow> quad" where
  "x86_128_tail tail = (\<lambda>(h1, h2, h3, h4).
     let k4 = tail_byte tail 12 0 (tail_byte tail 13 8 (tail_byte tail 14 16 0));
         k3 = tail_byte tail 8 0 (tail_byte tail 9 8 (tail_byte tail 10 16 (tail_byte tail 11 24 0)));
         k2 = tail_byte tail 4 0 (tail_byte tail 5 8 (tail_byte tail 6 16 (tail_byte tail 7 24 0)));
         k1 = tail_byte tail 0 0 (tail_byte tail 1 8 (tail_byte tail 2 16 (tail_byte tail 3 24 0)))
     in (if tail \<noteq> [] then h1 XOR mix1 k1 else h1,
         if length tail \<ge> 5 then h2 XOR mix2 k2 else h2,
         if length tail \<ge> 9 then h3 XOR mix3 k3 else h3,
         if length tail \<ge> 13 then h4 XOR mix4 k4 else h4))"

definition spread :: "quad \<Rightarrow> quad" where
  "spread = (\<lambda>(h1, h2, h3, h4). let h1 = h1 + h2 + h3 + h4 in (h1, h2 + h1, h3 + h1, h4 + h1))"

definition chunks16 :: "bytes \<Rightarrow> bytes list" where
  "chunks16 key = map (\<lambda>i. subslice (i * 16) (i * 16 + 16) key) [0..<length key div 16]"

definition MurmurHash3_x86_128 :: "bytes \<Rightarrow> u32 \<Rightarrow> quad" where
  "MurmurHash3_x86_128 key seed =
     (let state = fold x86_128_block (chunks16 key) (seed, seed, seed, seed);
          (h1, h2, h3, h4) = x86_128_tail (drop (length key div 16 * 16) key) state;
          len = word_of_nat (length key);
          (h1, h2, h3, h4) = spread (h1 XOR len, h2 XOR len, h3 XOR len, h4 XOR len)
      in spread (fmix32 h1, fmix32 h2, fmix32 h3, fmix32 h4))"

subsection \<open>MurmurHash3, 128 bits in words of 64\<close>

definition x64_mix1 :: "u64 \<Rightarrow> u64" where
  "x64_mix1 k1 = word_rotl 31 (k1 * 0x87c37b91114253d5) * 0x4cf5ad432745937f"

definition x64_mix2 :: "u64 \<Rightarrow> u64" where
  "x64_mix2 k2 = word_rotl 33 (k2 * 0x4cf5ad432745937f) * 0x87c37b91114253d5"

definition x64_128_block :: "bytes \<Rightarrow> u64 \<times> u64 \<Rightarrow> u64 \<times> u64" where
  "x64_128_block block = (\<lambda>(h1, h2).
     let h1 = (word_rotl 27 (h1 XOR x64_mix1 (u64_from_le (subslice 0 8 block))) + h2) * 5 + 0x52dce729;
         h2 = (word_rotl 31 (h2 XOR x64_mix2 (u64_from_le (subslice 8 16 block))) + h1) * 5 + 0x38495ab5
     in (h1, h2))"

definition x64_128_tail :: "bytes \<Rightarrow> u64 \<times> u64 \<Rightarrow> u64 \<times> u64" where
  "x64_128_tail tail = (\<lambda>(h1, h2).
     let k2 = fold (\<lambda>index k2. k2 XOR push_bit ((index - 8) * 8) (ucast (tail ! index))) [8..<length tail] 0;
         h2 = (if length tail \<ge> 9 then h2 XOR x64_mix2 k2 else h2);
         k1 = fold (\<lambda>index k1. k1 XOR push_bit (index * 8) (ucast (tail ! index))) [0..<min 8 (length tail)] 0;
         h1 = (if tail \<noteq> [] then h1 XOR x64_mix1 k1 else h1)
     in (h1, h2))"

definition x64_spread :: "u64 \<times> u64 \<Rightarrow> u64 \<times> u64" where
  "x64_spread = (\<lambda>(h1, h2). let h1 = h1 + h2; h2 = h2 + h1 in (h1, h2))"

definition MurmurHash3_x64_128 :: "bytes \<Rightarrow> u32 \<Rightarrow> u64 \<times> u64" where
  "MurmurHash3_x64_128 key seed =
     (let state = fold x64_128_block (chunks16 key) (ucast seed, ucast seed);
          (h1, h2) = x64_128_tail (drop (length key div 16 * 16) key) state;
          len = word_of_nat (length key);
          (h1, h2) = x64_spread (h1 XOR len, h2 XOR len)
      in x64_spread (fmix64 h1, fmix64 h2))"

subsection \<open>Steps that lose nothing\<close>

lemma mul_cancel: "c * d = 1 \<Longrightarrow> x * c = y * c \<longleftrightarrow> x = (y :: 'a :: len word)"
  by (metis mult.assoc mult.right_neutral)

lemma xor_cancel: "x XOR c = y XOR c \<longleftrightarrow> x = (y :: 'a :: len word)"
  by (metis xor.assoc xor.right_neutral xor_self_eq)

lemma rotl_cancel: "word_rotl n x = word_rotl n y \<longleftrightarrow> x = (y :: 'a :: len word)"
  by (metis word_rot_gal)

lemma xorshift_cancel:
  assumes "0 < n" shows "x XOR drop_bit n x = y XOR drop_bit n y \<longleftrightarrow> x = (y :: 'a :: len word)"
proof
  assume eq: "x XOR drop_bit n x = y XOR drop_bit n y"
  have "bit x i = bit y i" for i
  proof (induction "LENGTH('a) - i" arbitrary: i rule: less_induct)
    case less
    show ?case
    proof (cases "i < LENGTH('a)")
      case True
      then have "LENGTH('a) - (n + i) < LENGTH('a) - i" using assms by linarith
      from less.hyps [OF this] have up: "bit x (n + i) = bit y (n + i)" .
      have "bit (x XOR drop_bit n x) i = bit (y XOR drop_bit n y) i" using eq by simp
      then show ?thesis using up by (auto simp: bit_xor_iff bit_drop_bit_eq)
    next
      case False
      then show ?thesis using bit_imp_le_length by blast
    qed
  qed
  then show "x = y" by (simp add: bit_eq_iff)
qed simp

lemma five_cancel:
  "x * 5 = y * 5 \<longleftrightarrow> x = (y :: u32)" "v * 5 = w * 5 \<longleftrightarrow> v = (w :: u64)"
  using mul_cancel [of 5 "0xcccccccd :: u32" x y] mul_cancel [of 5 "0xcccccccccccccccd :: u64" v w] by simp_all

lemma fmix32_cancel: "fmix32 x = fmix32 y \<longleftrightarrow> x = y"
  using mul_cancel [of "0x85ebca6b" "0xa5cb9243 :: u32"] mul_cancel [of "0xc2b2ae35" "0x7ed1b41d :: u32"]
  by (simp add: fmix32_def Let_def xorshift_cancel)

lemma fmix64_cancel: "fmix64 x = fmix64 y \<longleftrightarrow> x = y"
  using mul_cancel [of "0xff51afd7ed558ccd" "0x4f74430c22a54005 :: u64"] mul_cancel [of "0xc4ceb9fe1a85ec53" "0x9cb4b2f8129337db :: u64"]
  by (simp add: fmix64_def Let_def xorshift_cancel)

lemmas step_cancel = xor_cancel rotl_cancel five_cancel fmix32_cancel fmix64_cancel

lemma fold_cancel: "(\<And>b x y. f b x = f b y \<longleftrightarrow> x = y) \<Longrightarrow> fold f bs x = fold f bs y \<longleftrightarrow> x = y"
  by (induction bs arbitrary: x y) simp_all

lemma x86_32_cancel:
  "x86_32_block key i x = x86_32_block key i y \<longleftrightarrow> x = y" "x86_32_tail tail x = x86_32_tail tail y \<longleftrightarrow> x = y"
  by (simp_all add: x86_32_block_def x86_32_tail_def Let_def step_cancel)

text \<open>The rounds of the wide variants: each word is scrambled, the next one is added, and the sum is scaled.\<close>

lemma pair_round:
  fixes f g s t :: "'a :: len word \<Rightarrow> 'a word"
  assumes "\<And>x y. f x = f y \<longleftrightarrow> x = y" "\<And>x y. g x = g y \<longleftrightarrow> x = y" "\<And>x y. s x = s y \<longleftrightarrow> x = y" "\<And>x y. t x = t y \<longleftrightarrow> x = y"
  shows "s (f h1 + h2) = s (f g1 + g2) \<and> t (g h2 + s (f h1 + h2)) = t (g g2 + s (f g1 + g2)) \<longleftrightarrow> h1 = g1 \<and> h2 = g2"
  by (auto simp: assms)

lemma quad_round:
  fixes f1 f2 f3 f4 s1 s2 s3 s4 :: "'a :: len word \<Rightarrow> 'a word"
  assumes "\<And>x y. f1 x = f1 y \<longleftrightarrow> x = y" "\<And>x y. f2 x = f2 y \<longleftrightarrow> x = y" "\<And>x y. f3 x = f3 y \<longleftrightarrow> x = y" "\<And>x y. f4 x = f4 y \<longleftrightarrow> x = y"
    and "\<And>x y. s1 x = s1 y \<longleftrightarrow> x = y" "\<And>x y. s2 x = s2 y \<longleftrightarrow> x = y" "\<And>x y. s3 x = s3 y \<longleftrightarrow> x = y" "\<And>x y. s4 x = s4 y \<longleftrightarrow> x = y"
  shows "s1 (f1 h1 + h2) = s1 (f1 g1 + g2) \<and> s2 (f2 h2 + h3) = s2 (f2 g2 + g3) \<and> s3 (f3 h3 + h4) = s3 (f3 g3 + g4) \<and>
    s4 (f4 h4 + s1 (f1 h1 + h2)) = s4 (f4 g4 + s1 (f1 g1 + g2)) \<longleftrightarrow> h1 = g1 \<and> h2 = g2 \<and> h3 = g3 \<and> h4 = g4"
  by (auto simp: assms)

lemma x86_128_cancel:
  "x86_128_block block q = x86_128_block block q' \<longleftrightarrow> q = q'" "x86_128_tail tail q = x86_128_tail tail q' \<longleftrightarrow> q = q'"
  "spread q = spread q' \<longleftrightarrow> q = q'"
proof -
  show "x86_128_block block q = x86_128_block block q' \<longleftrightarrow> q = q'"
  proof (cases q; cases q')
    fix h1 h2 h3 h4 g1 g2 g3 g4
    assume q: "q = (h1, h2, h3, h4)" "q' = (g1, g2, g3, g4)"
    show ?thesis
      unfolding q x86_128_block_def Let_def case_prod_conv prod.inject
      by (rule quad_round [where ?f1.0 = "\<lambda>h. word_rotl 19 (h XOR _)" and ?f2.0 = "\<lambda>h. word_rotl 17 (h XOR _)"
          and ?f3.0 = "\<lambda>h. word_rotl 15 (h XOR _)" and ?f4.0 = "\<lambda>h. word_rotl 13 (h XOR _)"
          and ?s1.0 = "\<lambda>h. h * 5 + _" and ?s2.0 = "\<lambda>h. h * 5 + _" and ?s3.0 = "\<lambda>h. h * 5 + _" and ?s4.0 = "\<lambda>h. h * 5 + _"])
        (simp_all add: step_cancel)
  qed
  show "x86_128_tail tail q = x86_128_tail tail q' \<longleftrightarrow> q = q'"
    by (auto simp: x86_128_tail_def Let_def step_cancel split: prod.splits)
  show "spread q = spread q' \<longleftrightarrow> q = q'"
  proof (cases q; cases q')
    fix h1 h2 h3 h4 g1 g2 g3 g4
    assume q: "q = (h1, h2, h3, h4)" "q' = (g1, g2, g3, g4)"
    have "h + s = g + s' \<longleftrightarrow> h = g" if "s = s'" for h g s s' :: u32 using that by simp
    then show ?thesis unfolding q spread_def Let_def case_prod_conv prod.inject by (metis add_right_cancel)
  qed
qed

lemma x64_128_cancel:
  "x64_128_block block q = x64_128_block block q' \<longleftrightarrow> q = q'" "x64_128_tail tail q = x64_128_tail tail q' \<longleftrightarrow> q = q'"
  "x64_spread q = x64_spread q' \<longleftrightarrow> q = q'"
proof -
  show "x64_128_block block q = x64_128_block block q' \<longleftrightarrow> q = q'"
  proof (cases q; cases q')
    fix h1 h2 g1 g2
    assume q: "q = (h1, h2)" "q' = (g1, g2)"
    show ?thesis
      unfolding q x64_128_block_def Let_def case_prod_conv prod.inject
      by (rule pair_round [where f = "\<lambda>h. word_rotl 27 (h XOR _)" and g = "\<lambda>h. word_rotl 31 (h XOR _)"
          and s = "\<lambda>h. h * 5 + _" and t = "\<lambda>h. h * 5 + _"]) (simp_all add: step_cancel)
  qed
  show "x64_128_tail tail q = x64_128_tail tail q' \<longleftrightarrow> q = q'"
    by (auto simp: x64_128_tail_def Let_def step_cancel split: prod.splits)
  show "x64_spread q = x64_spread q' \<longleftrightarrow> q = q'"
  proof (cases q; cases q')
    fix h1 h2 g1 g2
    assume q: "q = (h1, h2)" "q' = (g1, g2)"
    show ?thesis unfolding q x64_spread_def Let_def case_prod_conv prod.inject by (metis add_right_cancel)
  qed
qed

lemma x86_32_seed: "MurmurHash3_x86_32 key s = MurmurHash3_x86_32 key s' \<longleftrightarrow> s = s'"
proof -
  have "MurmurHash3_x86_32 key t = fmix32 (x86_32_tail (drop (length key div 4 * 4) key)
      (fold (x86_32_block key) [0..<length key div 4] t) XOR word_of_nat (length key))" for t
    by (simp add: MurmurHash3_x86_32_def fmix32_def Let_def)
  then show ?thesis by (simp add: step_cancel x86_32_cancel fold_cancel)
qed

lemma x86_128_seed: "MurmurHash3_x86_128 key s = MurmurHash3_x86_128 key s' \<longleftrightarrow> s = s'"
proof -
  let ?len = "word_of_nat (length key) :: u32"
  let ?all = "\<lambda>f (h1, h2, h3, h4). (f h1, f h2, f h3, f h4)"
  have all: "?all f q = ?all f q' \<longleftrightarrow> q = q'" if "\<And>x y. f x = f y \<longleftrightarrow> x = y" for f :: "u32 \<Rightarrow> u32" and q q'
    using that by (auto split: prod.splits)
  have "MurmurHash3_x86_128 key t = spread (?all fmix32 (spread (?all (\<lambda>h. h XOR ?len)
      (x86_128_tail (drop (length key div 16 * 16) key) (fold x86_128_block (chunks16 key) (t, t, t, t))))))" for t
    by (simp add: MurmurHash3_x86_128_def Let_def split: prod.splits)
  then show ?thesis by (simp only: x86_128_cancel fold_cancel [of x86_128_block] all step_cancel prod.inject simp_thms)
qed

lemma x64_128_seed: "MurmurHash3_x64_128 key s = MurmurHash3_x64_128 key s' \<longleftrightarrow> s = s'"
proof -
  let ?len = "word_of_nat (length key) :: u64"
  let ?all = "\<lambda>f (h1, h2). (f h1, f h2)"
  have all: "?all f q = ?all f q' \<longleftrightarrow> q = q'" if "\<And>x y. f x = f y \<longleftrightarrow> x = y" for f :: "u64 \<Rightarrow> u64" and q q'
    using that by (auto split: prod.splits)
  have up: "(ucast (x :: u32) :: u64) = ucast y \<longleftrightarrow> x = y" for x y
    unfolding word_unat_eq_iff [where 'a = 64] unat_up word_unat_eq_iff [where 'a = 32] ..
  have "MurmurHash3_x64_128 key t = x64_spread (?all fmix64 (x64_spread (?all (\<lambda>h. h XOR ?len)
      (x64_128_tail (drop (length key div 16 * 16) key) (fold x64_128_block (chunks16 key) (ucast t, ucast t))))))" for t
    by (simp add: MurmurHash3_x64_128_def Let_def split: prod.splits)
  then show ?thesis by (simp only: x64_128_cancel fold_cancel [of x64_128_block] all step_cancel prod.inject simp_thms up)
qed

text \<open>
  For every key each of the three hashes is injective in its seed: two seeds give the same hash
  only when they are equal, whatever the length of the key; so \<open>Hash1\<close> and \<open>Hash2\<close>, which differ in their
  seed, never agree.
\<close>

theorem murmur_seed_injective:
  "(MurmurHash3_x86_32 key s = MurmurHash3_x86_32 key s' \<longleftrightarrow> s = s') \<and>
   (MurmurHash3_x86_128 key s = MurmurHash3_x86_128 key s' \<longleftrightarrow> s = s') \<and>
   (MurmurHash3_x64_128 key s = MurmurHash3_x64_128 key s' \<longleftrightarrow> s = s') \<and> Hash1 key \<noteq> Hash2 key"
  by (simp add: x86_32_seed x86_128_seed x64_128_seed Hash1_def Hash2_def)

text \<open>Published values of the algorithm.\<close>

lemma murmur_known_values:
  "MurmurHash3_x86_32 [] 1 = 0x514e28b7" "MurmurHash3_x64_128 [] 0 = (0, 0)" "MurmurHash3_x86_128 [] 0 = (0, 0, 0, 0)"
  by (simp_all add: MurmurHash3_x86_32_def x86_32_tail_def MurmurHash3_x64_128_def chunks16_def x64_128_tail_def x64_spread_def
      fmix64_def MurmurHash3_x86_128_def x86_128_tail_def spread_def fmix32_def Let_def)

subsection \<open>The element filter\<close>

record ElementFilter =
  m_size :: i32
  m_FilterSpace :: bytes

definition ElementFilter_new :: "i32 \<Rightarrow> ElementFilter" where
  "ElementFilter_new n = \<lparr>m_size = n, m_FilterSpace = (if 0 <s n then replicate (unat n) 0 else [])\<rparr>"

definition ElementFilter_default :: ElementFilter where
  "ElementFilter_default = ElementFilter_new 24"

text \<open>\<open>None\<close> is the failure of the assertion.\<close>

definition with_memory :: "i32 \<Rightarrow> bytes \<Rightarrow> ElementFilter option" where
  "with_memory n memory =
     (if n \<le>s 0 \<or> length memory \<ge> unat n then Some \<lparr>m_size = n, m_FilterSpace = memory\<rparr> else None)"

definition filter_hash :: "rstr \<Rightarrow> u64" where
  "filter_hash value =
     fold (\<lambda>byte result. (result XOR ucast byte) * 1099511628211) (takeWhile (\<lambda>b. b \<noteq> 0) value) 14695981039346656037"

definition AddElement :: "rstr \<Rightarrow> ElementFilter \<Rightarrow> ElementFilter" where
  "AddElement element f =
     (if m_FilterSpace f = [] \<or> m_size f \<le>s 0 then f
      else let n1 = filter_hash element; n2 = n1 XOR drop_bit 17 n1; m = scast (m_size f) :: u64
           in f\<lparr>m_FilterSpace := (m_FilterSpace f)[unat (n1 mod m) := 1, unat (n2 mod m) := 1]\<rparr>)"

definition Contains :: "ElementFilter \<Rightarrow> rstr \<Rightarrow> bool" where
  "Contains f element \<longleftrightarrow>
     (if m_FilterSpace f = [] \<or> m_size f \<le>s 0 then True
      else let n1 = filter_hash element; n2 = n1 XOR drop_bit 17 n1; m = scast (m_size f) :: u64
           in m_FilterSpace f ! unat (n1 mod m) \<noteq> 0 \<and> m_FilterSpace f ! unat (n2 mod m) \<noteq> 0)"

text \<open>What the constructors promise; the indexes are then inside the memory.\<close>

definition filter_ok :: "ElementFilter \<Rightarrow> bool" where
  "filter_ok f \<longleftrightarrow> m_FilterSpace f = [] \<or> m_size f \<le>s 0 \<or> unat (m_size f) \<le> length (m_FilterSpace f)"

lemma with_memory_ok: "with_memory n memory = Some f \<Longrightarrow> filter_ok f"
  by (auto simp: with_memory_def filter_ok_def split: if_splits)

lemma uint_sint_pos: "0 < sint (w :: i32) \<Longrightarrow> sint w = uint w"
  using sint_lt [of w] by (simp only: uint_sint) (simp add: take_bit_int_eq_self)

lemma filter_index:
  assumes "filter_ok f" and "\<not> (m_FilterSpace f = [] \<or> m_size f \<le>s 0)"
  shows "unat (n mod (scast (m_size f) :: u64)) < length (m_FilterSpace f)"
proof -
  have pos: "0 < sint (m_size f)" using assms(2) by (simp add: word_sle_eq)
  then have "sint (m_size f) = uint (m_size f)" by (rule uint_sint_pos)
  then have "scast (m_size f) = (ucast (m_size f) :: u64)" by (simp only: scast_eq ucast_eq)
  moreover have "0 < uint (m_size f)" using pos uint_sint_pos [OF pos] by (simp only:)
  then have "0 < unat (m_size f)" by (simp only: unat_eq_nat_uint zero_less_nat_eq)
  moreover have "unat (ucast (m_size f) :: u64) = unat (m_size f)" by (rule unat_up)
  ultimately have dim: "unat (scast (m_size f) :: u64) = unat (m_size f)" "0 < unat (m_size f)" by simp_all
  then have "unat n mod unat (m_size f) < length (m_FilterSpace f)"
    using assms dim(2) mod_less_divisor [of "unat (m_size f)" "unat n"] unfolding filter_ok_def by linarith
  then show ?thesis using dim(1) by (simp add: unat_mod)
qed

lemma AddElement_keeps:
  assumes "filter_ok f"
  shows "filter_ok (AddElement e f)" and "Contains f x \<Longrightarrow> Contains (AddElement e f) x" and "Contains (AddElement e f) e"
proof -
  show "filter_ok (AddElement e f)" using assms by (auto simp: filter_ok_def AddElement_def Let_def)
  show "Contains (AddElement e f) x" if "Contains f x"
    using that filter_index [OF assms] by (auto simp: Contains_def AddElement_def Let_def nth_list_update split: if_splits)
  show "Contains (AddElement e f) e"
    using filter_index [OF assms] by (auto simp: Contains_def AddElement_def Let_def nth_list_update)
qed

lemma AddElements_keep: "filter_ok f \<Longrightarrow> Contains f x \<Longrightarrow> filter_ok (fold AddElement es f) \<and> Contains (fold AddElement es f) x"
  by (induction es arbitrary: f) (auto intro: AddElement_keeps)

text \<open>
  C38. The element filter has no false negatives: a filter over any memory contains every element that
  was ever added to it, whatever was added before and after.
\<close>

theorem filter_no_false_negatives:
  assumes "with_memory n memory = Some f" and "e \<in> set es"
  shows "Contains (fold AddElement es f) e"
proof -
  from assms(2) obtain before after where es: "es = before @ e # after" by (auto simp: in_set_conv_decomp)
  have "filter_ok (fold AddElement before f)"
    using with_memory_ok [OF assms(1)] by (induction before arbitrary: f) (auto intro: AddElement_keeps)
  note keeps = AddElement_keeps [OF this]
  from AddElements_keep [OF keeps(1) keeps(3)] show ?thesis by (simp add: es)
qed

theorem filter_no_false_negatives_witness:
  "\<exists>f. with_memory 24 (replicate 24 0) = Some f \<and> Contains (fold AddElement [str ''a'', str ''b''] f) (str ''a'')"
proof -
  obtain f where f: "with_memory 24 (replicate 24 0) = Some f" by (simp add: with_memory_def)
  from filter_no_false_negatives [OF f, of "str ''a''" "[str ''a'', str ''b'']"] f show ?thesis by simp
qed

end
