(* ===== verification/Spec2Isabelle.thy ===== *)
theory Spec2Isabelle
  imports ContextLifecycle SmartTokenizer SearchWorkers HashFunctions
begin

text \<open>
  A verification development for the search engine of MoonShot, the Rust crate under
  \<open>src/RustBlade/src\<close>. All paths below are relative to that directory.

  \<^bold>\<open>The program.\<close> Documents are cut into words, the words go into an in-memory store of posting
  lists, the store is laid out in pages of 4096 bytes and saved as one index file. A query string is
  compiled to an expression, the expression is turned into a tree of readers over the pages, and an
  executor walks the tree and keeps the best documents. The parts call each other in this order:

  \<^item> \<^emph>\<open>Words\<close>: \<open>Tokenizer/SmartTokenizer.rs\<close> (theories \<open>SmartTokenizer\<close> and, for the English stemmer,
    \<open>Stemmer\<close>).
  \<^item> \<^emph>\<open>Writing\<close>: \<open>IndexAccess/AdvancedIndexWriter.rs\<close> and \<open>AddDocument\<close> of
    \<open>IndexAccess/IndexContext.rs\<close> (theory \<open>IndexWriter\<close>) fill \<open>IndexAccess/PostingStore.rs\<close> (theory
    \<open>PostingStore\<close>, with the byte encoding of posting lists).
  \<^item> \<^emph>\<open>Laying out\<close>: \<open>BuildBlocks\<close> of \<open>IndexAccess/IndexSerializer.rs\<close> (theory \<open>BlockBuilder\<close>) makes index
    pages, leaf term pages and head entries; \<open>BuildTermMphf\<close> (theory \<open>TermMphf\<close>) the perfect hash;
    \<open>EncodeDocData\<close> of \<open>IndexContext.rs\<close> the document table (theories \<open>DocData\<close>, \<open>DocPath\<close>). The
    structures themselves and the file header are in \<open>IndexAccess/BlockTable.rs\<close> (theory
    \<open>IndexFormat\<close>).
  \<^item> \<^emph>\<open>The file\<close>: \<open>Save\<close>, \<open>decode\<close> and \<open>LoadFromBytes\<close> (theory \<open>IndexFile\<close>); loading through a path,
    with the tables of \<open>IndexSerializer.rs\<close> and the page caches over the file (theory \<open>FileLoad\<close>); open
    files and files of blocks, \<open>Utils/FileAccess.rs\<close> and \<open>IndexAccess/FileBlockManager.rs\<close> (theory
    \<open>FileAccess\<close>).
  \<^item> \<^emph>\<open>Pages in memory\<close>: the cache of \<open>BlockTable.rs\<close> with its pins, eviction and loads (theory
    \<open>BlockCache\<close>), and the lookup of a term through the head entries or the perfect hash (theory
    \<open>TermLookup\<close>).
  \<^item> \<^emph>\<open>Reading a posting list\<close>: \<open>IndexAccess/UnifiedDecoder.rs\<close> (theory \<open>UnifiedDecoder\<close>) under
    \<open>IndexAccess/AdvancedIndexReader.rs\<close> (theory \<open>AdvancedReader\<close>).
  \<^item> \<^emph>\<open>Queries\<close>: \<open>Compiler/EvalExpression.rs\<close> and \<open>Compiler/IndexSearchCompiler.rs\<close> (theory
    \<open>QueryCompiler\<close>); the composite readers of \<open>IndexAccess/IndexReaderImpl.rs\<close> (theory \<open>Readers\<close>);
    the construction of a reader tree by \<open>SearchRuntime\<close> and by the context itself in
    \<open>IndexContext.rs\<close> (theories \<open>QueryRuntime\<close> and \<open>IndexContext\<close>);
    \<open>Executor/IndexSearchExecutor.rs\<close> (theory \<open>Executor\<close>); the queue and the threads that run searches
    (theory \<open>SearchWorkers\<close>).
  \<^item> \<^emph>\<open>The life of an index\<close>: an \<open>IndexContext\<close> adds, builds, saves, publishes a delta, loads, reloads
    and merges (theory \<open>ContextLifecycle\<close>); the merge itself walks two dictionaries and writes new
    pages (theory \<open>IndexMerge\<close>), joins the document tables and writes the file (theory \<open>MergeFile\<close>).
  \<^item> \<^emph>\<open>Beside the index\<close>: the hashes and the element filter of \<open>IndexAccess/HashFunctions.rs\<close> and
    \<open>IndexAccess/ElementFilter.rs\<close> (theory \<open>HashFunctions\<close>).

  \<^bold>\<open>How code and model correspond.\<close> Names are those of the source; a struct is a record with the
  field names of the struct, an enum a datatype. A method that takes \<open>&mut self\<close> is a function to the
  new state. \<open>u8\<close> to \<open>u64\<close> and \<open>i32\<close> are words with their wrap-around; a \<open>usize\<close> that measures or
  indexes memory is a natural number. Strings are their UTF-8 bytes, hash maps association lists
  (no result depends on the order in which the code walks them). \<open>Result\<close> is a sum with the error
  on the left; a panic, and a loop that does not end, is \<open>None\<close>. The file system is a map from paths
  to bytes. Threads are step relations, one critical section a step: those of a page cache
  (\<open>cache_step\<close>) and those of the search workers (\<open>worker_step\<close>).

  \<^bold>\<open>Loops.\<close> A loop over data is a structurally recursive function or a function with a measure. The
  loops of the readers, of the executor and of the merge may run forever in principle; they are
  \<open>partial_function (option)\<close> and every theorem about them says that they return. There is no fuel. The
  search workers come to rest after at most \<open>pool_work\<close> steps, a measure of what is queued, running and
  notified that every step decreases.

  \<^bold>\<open>Interfaces.\<close> Three contracts are locales, each interpreted on the model of the code:
  \<open>block_source\<close> (theory \<open>BlockCache\<close>: what a caller of \<open>GetBlock\<close> may rely on; provided by the pool
  in memory and by the pool over a file), \<open>reader_impl\<close> (theory \<open>Readers\<close>: what a reader promises
  about the documents it delivers; provided by the term reader, the vector reader and the five
  composite readers) and \<open>term_source\<close> (theory \<open>QueryRuntime\<close>: what a runtime promises about the readers
  of its terms; provided by a freshly built index, \<open>built\<close>, and by a context that serves an index from
  memory or from its file, \<open>searched\<close> in theory \<open>ContextLifecycle\<close>). The results on default queries are
  proved once inside \<open>term_source\<close>.

  \<^bold>\<open>What the lemmas show.\<close>
  \<^item> \<^emph>\<open>Store and writer\<close>: every table has one entry per key and posting lists stay strictly ascending
    under every sequence of operations; \<open>AddPosting\<close> updates exactly one posting; \<open>Write\<close> and
    \<open>AddDocument\<close> record exactly the occurrences of words and adjacent words; a document id that is
    allocated is fresh.
  \<^item> \<^emph>\<open>Words\<close>: the stemmer returns for every token; the tokenizer panics exactly on segments that are not
    ranges of the text at character boundaries, and its tokens are free of control characters.
  \<^item> \<^emph>\<open>Formats\<close>: decoding inverts encoding for posting lists, headers, the path field, the side table
    of directories, the document table and the whole file; the header parser and the layout check
    are characterised with their errors; every proper prefix of a saved file is rejected; loading from
    bytes and loading through a path agree.
  \<^item> \<^emph>\<open>Cache\<close>: under every interleaving of the critical sections a pinned page keeps its contents
    (\<open>cache_step\<close>, \<open>cache_reachable\<close>, an invariant by rule induction), as long as the sequential get does
    not meet a slot that is being loaded, which the code does not check; \<open>GetBlock\<close> returns the page
    asked for.
  \<^item> \<^emph>\<open>Lookup\<close>: the binary search over head entries and a leaf page finds exactly the terms of the
    dictionary; the perfect hash finds the same, but for a collision of fingerprints.
  \<^item> \<^emph>\<open>Readers\<close>: a reader over the built pages delivers exactly the posting list under any sequence of
    \<open>GoNext\<close> and \<open>GoUntil\<close>; AND, OR, weak AND, NOT and BOOST deliver the intersection, the union, the
    documents with enough children, the difference and the base.
  \<^item> \<^emph>\<open>Queries\<close>: a plain query (theory \<open>QueryCompiler\<close>) stands for the documents that the documented
    syntax gives it. Plain queries leave out what the compiler does not do as documented: phrases,
    the keyword \<open>and\<close> and three things shown by theorems, field prefixes
    (\<open>field_constraint_not_binding\<close>), several excluded words (\<open>minus_terms_excluded_jointly\<close>) and
    parentheses (\<open>parentheses_ignored\<close>).
  \<^item> \<^emph>\<open>Workers\<close>: no task is lost and no channel gets two replies; without panics every task is answered;
    the workers' readers are those of the context, but for the vectors of a freshly loaded delta
    (\<open>workers_miss_delta_vectors\<close>).
  \<^item> \<^emph>\<open>Files\<close>: a block file opened for writing is an array of blocks, one opened for reading refuses
    writes; the filter never forgets an element.
  \<^item> \<^emph>\<open>Life\<close>: a saved index loads and serves what was built; a published delta is the delta that a reload
    finds; merging keeps postings, documents and the answers of plain queries, for stores that can be
    merged (frequency bytes below 128) and joined (ids that start at 0 and continue, paths the table can
    hold). What goes wrong otherwise is shown too: an index overwritten by an empty one
    (\<open>SaveIndexCurrent_destroys\<close>), a delta that cannot be merged (\<open>second_delta_rejected\<close>,
    \<open>offset_ids_rejected\<close>), lists cut inside a pair (\<open>split_inside_pair\<close>), a write image that outlives its
    store (\<open>stale_write_saved\<close>, \<open>load_keeps_write\<close>).
  \<^item> \<^emph>\<open>The whole\<close> (this theory): documents added, blocks built, a plain query compiled, its readers
    constructed and executed, directly or by the workers, give exactly the best of the documents the
    query asks for.

  \<^bold>\<open>Arguments.\<close> Code outside the crate or in floating point is an argument of the definitions that
  use it: Unicode normalisation, segmentation and character tables (record \<open>unicode\<close>; that the
  segmenter cuts forward at character boundaries is the hypothesis \<open>segmenter_ok\<close>), \<open>log2\<close> in the
  encoding of term frequencies, the scores of documents, averages of document lengths, the embedding
  model and the quantisation of its vectors, the search in the vector index, the read of a page from the
  file. The scores are a linear order, so that NaN is excluded.

  \<^bold>\<open>Not modelled.\<close>
  \<^item> Scoring (\<open>GetScore\<close>, \<open>DocDataScore\<close>, \<open>VectorScoreFeature\<close>) and the graph of the vector index
    (\<open>Embeddings/Embeddings.rs\<close>): arithmetic on \<open>f32\<close>. Which documents are added to it is modelled.
  \<^item> The ring that hands cache misses to the loading thread: the critical sections that thread runs are
    modelled. The counters of reads.
  \<^item> \<open>IndexAccess/MemOperation.rs\<close>: locked memory through system calls; failures of devices and the
    temporary files of the merge.
  \<^item> \<open>bin/moon.rs\<close>, \<open>bin/shennong.rs\<close>, \<open>Tools/moon_wasm/WasmApi.rs\<close>: command lines, the server and the
    browser binding.
\<close>

section \<open>From documents and a query string to the documents found\<close>

text \<open>The same for any tokenizer whose words have no control characters.\<close>

lemma search_default_any:
  assumes "tokenizer_clean tok" and "written tok (bi_store b)" and "built_index_ok b" and "query_plain tok query streams"
  shows "\<exists>r. get_reader (built_runtime b) None (Compile tok query streams) = Some r \<and>
    reads r (doc_order (query_docs tok (indexed_docs (bi_store b)) query streams))"
proof -
  have sound: "bigram_sound (indexed_docs (bi_store b))"
    using assms(1,2) by (intro indexed_bigram_sound written_bigram_sound_docs) (auto simp: tokenizer_clean_def)
  have "get_reader rt None tree = build_local_reader rt tree" for rt tree
    by (simp add: get_reader_def build_local_reader_def split: option.split)
  then show ?thesis
    using built.default_query_reads(1) [where i = b and tok = tok and query = query and streams = streams] assms sound by simp
qed

text \<open>
  C13. The whole path of a plain query in the default mode over a freshly built index: documents tokenized
  and added with \<open>AddDocument\<close>, blocks built from the store, the query string compiled with the same
  tokenizer and its readers constructed. Whatever the normalisation, the character tables and the
  segmentation of the tokenizer, as long as it cuts the text forward at character boundaries, the reader
  that comes out exists and delivers, in order, exactly the documents the query asks for: those that have,
  for some alternative between the words \<open>or\<close>, every word in one of the chosen streams and the excluded
  word in none of them (keys of more than 26 bytes are not indexed). A plain query has no quotation
  mark, parenthesis, colon or item \<open>and\<close> and excludes at most one word per alternative.
\<close>

theorem search_default_exact:
  assumes "segmenter_ok uc" and "written (smart_tokens uc loc) (bi_store b)" and "built_index_ok b"
    and "query_plain (smart_tokens uc loc) query streams"
  shows "\<exists>r. get_reader (built_runtime b) None (Compile (smart_tokens uc loc) query streams) = Some r \<and>
    reads r (doc_order (query_docs (smart_tokens uc loc) (indexed_docs (bi_store b)) query streams))"
  using search_default_any [OF smart_tokens_clean [OF assms(1)] assms(2-4)] .

subsection \<open>From the query to the best results\<close>

lemma built_entry:
  assumes ok: "docdata_store_ok s" and d: "d \<in> fst ` set (m_DocStats s)"
  shows "GetDocDataEntry [built_doc_table scores s] d \<noteq> None" and "d AND READER_DOCID_VALUE_MASK = d"
proof -
  from d obtain st where st: "(d, st) \<in> set (m_DocStats s)" by auto
  have "unat d < 2 ^ 32" using ok d by (auto simp: docdata_store_ok_def)
  then have id: "ReaderDocumentIDValue d = d" by (rule id_value)
  then show "d AND READER_DOCID_VALUE_MASK = d" by (simp add: ReaderDocumentIDValue_def)
  from find_record_built(1) [OF ok st, of scores] show "GetDocDataEntry [built_doc_table scores s] d \<noteq> None"
    by (auto simp: GetDocDataEntry_def id)
qed

lemma default_search_best:
  assumes "segmenter_ok uc" and "written (smart_tokens uc loc) (bi_store b)" and "built_index_ok b"
    and "docdata_store_ok (bi_store b)" and "query_plain (smart_tokens uc loc) query streams" and "keeps_place total_score"
  shows "\<exists>r cs rs. get_reader (built_runtime b) None (Compile (smart_tokens uc loc) query streams) = Some r \<and>
    scored (GetDocDataEntry [built_doc_table scores (bi_store b)]) total_score r cs \<and>
    map (\<lambda>c. ReaderDocumentIDValue (res_doc_id c)) cs =
      doc_order (query_docs (smart_tokens uc loc) (indexed_docs (bi_store b)) query streams) \<and>
    ExecuteWithVector (GetDocDataEntry [built_doc_table scores (bi_store b)]) total_score r topK = Some rs \<and>
    best_of (TopKLimit topK) cs rs"
proof -
  let ?s = "bi_store b" and ?entry = "GetDocDataEntry [built_doc_table scores (bi_store b)]"
  let ?D = "query_docs (smart_tokens uc loc) (indexed_docs ?s) query streams"
  from search_default_any [OF smart_tokens_clean [OF assms(1)] assms(2,3,5)] obtain r where
    r: "get_reader (built_runtime b) None (Compile (smart_tokens uc loc) query streams) = Some r" "reads r (doc_order ?D)" by blast
  have "indexed_docs ?s key \<subseteq> fst ` set (m_DocStats ?s)" for key
    using written_docs_stats [OF assms(2)] by (auto simp: indexed_docs_def)
  then have D: "?D \<subseteq> fst ` set (m_DocStats ?s)" by (rule query_docs_subset)
  then have set: "set (doc_order ?D) = ?D" by (intro set_doc_order finite_subset [OF D]) simp
  have entries: "\<forall>d \<in> set (doc_order ?D). ?entry d \<noteq> None" using built_entry(1) [OF assms(4) subsetD [OF D]] unfolding set by blast
  have "d AND READER_DOCID_VALUE_MASK = d" if "d \<in> set (doc_order ?D)" for d
    using built_entry(2) [OF assms(4) subsetD [OF D]] that unfolding set .
  then have ids: "map (\<lambda>d. d AND READER_DOCID_VALUE_MASK) (doc_order ?D) = doc_order ?D" by (rule map_idI)
  from scored_reads [OF r(2) entries assms(6), unfolded ids] obtain cs where
    cs: "scored ?entry total_score r cs" "map (\<lambda>c. ReaderDocumentIDValue (res_doc_id c)) cs = doc_order ?D" by blast
  from execute_best [OF cs(1)] obtain rs where "ExecuteWithVector ?entry total_score r topK = Some rs" "best_of (TopKLimit topK) cs rs"
    by blast
  with r(1) cs show ?thesis by blast
qed

text \<open>
  C14. A default search returns its best results: over a freshly built index of documents that were
  tokenized and added, a plain query compiled in the default mode gets a reader, every document it
  delivers has a record, and the executor comes to an end with the \<open>topK\<close> best scored of exactly the
  documents the query asks for, in descending order. The scores are a linear order (no NaN).
\<close>

theorem default_search_returns:
  assumes "segmenter_ok uc" and "written (smart_tokens uc loc) (bi_store b)" and "built_index_ok b"
    and "docdata_store_ok (bi_store b)" and "query_plain (smart_tokens uc loc) query streams" and "keeps_place total_score"
  shows "\<exists>r cs rs. get_reader (built_runtime b) None (Compile (smart_tokens uc loc) query streams) = Some r \<and>
    scored (GetDocDataEntry [built_doc_table scores (bi_store b)]) total_score r cs \<and>
    map (\<lambda>c. ReaderDocumentIDValue (res_doc_id c)) cs =
      doc_order (query_docs (smart_tokens uc loc) (indexed_docs (bi_store b)) query streams) \<and>
    ExecuteWithVector (GetDocDataEntry [built_doc_table scores (bi_store b)]) total_score r topK = Some rs \<and>
    best_of (TopKLimit topK) cs rs"
  using default_search_best [OF assms] .

subsection \<open>A search through the workers\<close>

text \<open>A search for a plain query in the default mode, without a vector.\<close>

definition plain_search :: "(rstr \<Rightarrow> rstr list) \<Rightarrow> SearchTaskState \<Rightarrow> bool" where
  "plain_search tokenize t \<longleftrightarrow> t_mode t = Default \<and> t_vector t = [] \<and> query_plain tokenize (t_query t) (t_streams t)"

definition task_docs :: "(rstr \<Rightarrow> rstr list) \<Rightarrow> PostingStore \<Rightarrow> SearchTaskState \<Rightarrow> u64 set" where
  "task_docs tokenize s t = query_docs tokenize (indexed_docs s) (t_query t) (t_streams t)"

text \<open>The results are the best of the scored documents of the task.\<close>

definition best_results ::
  "(u64 \<Rightarrow> bytes option) \<Rightarrow> (Dyn \<Rightarrow> bytes \<Rightarrow> ('s :: linorder) \<times> Dyn) \<Rightarrow> i32 \<Rightarrow> u64 set \<Rightarrow> 's SearchResult list \<Rightarrow> bool" where
  "best_results entry total_score topK D rs \<longleftrightarrow>
     (\<exists>r cs. scored entry total_score r cs \<and> map (\<lambda>c. ReaderDocumentIDValue (res_doc_id c)) cs = doc_order D \<and>
        best_of (TopKLimit topK) cs rs)"

lemma ExecuteSearchTask_best:
  assumes "segmenter_ok uc" and "written (smart_tokens uc loc) (bi_store b)" and "built_index_ok b" and "docdata_store_ok (bi_store b)"
    and plain: "plain_search (smart_tokens uc loc) t" and "keeps_place (total_score None)"
  shows "\<exists>rs. ExecuteSearchTask (smart_tokens uc loc) (built_runtime b) None [built_doc_table scores (bi_store b)] total_score t = Some rs \<and>
    best_results (GetDocDataEntry [built_doc_table scores (bi_store b)]) (total_score None) (t_top_k t)
      (task_docs (smart_tokens uc loc) (bi_store b) t) rs"
proof -
  let ?tree = "Compile (smart_tokens uc loc) (t_query t) (t_streams t)" and ?tt = "task_tree (smart_tokens uc loc) t"
  let ?entry = "GetDocDataEntry [built_doc_table scores (bi_store b)]"
  have p: "t_query t \<noteq> []" "t_mode t = Default" "t_vector t = []" "query_plain (smart_tokens uc loc) (t_query t) (t_streams t)"
    using plain by (simp_all add: plain_search_def query_plain_def)
  from default_search_best [OF assms(1-4) p(4) assms(6), of scores "t_top_k t"] obtain r cs rs where
    r: "get_reader (built_runtime b) None ?tree = Some r" "scored ?entry (total_score None) r cs"
      "map (\<lambda>c. ReaderDocumentIDValue (res_doc_id c)) cs = doc_order (task_docs (smart_tokens uc loc) (bi_store b) t)"
      "ExecuteWithVector ?entry (total_score None) r (t_top_k t) = Some rs" "best_of (TopKLimit (t_top_k t)) cs rs"
    unfolding task_docs_def by blast
  then have best: "best_results ?entry (total_score None) (t_top_k t) (task_docs (smart_tokens uc loc) (bi_store b) t) rs"
    unfolding best_results_def by blast
  have tree: "?tt = ?tree\<lparr>vector_ef_search := t_vector_ef_search t\<rparr>" by (simp add: task_tree_def p Compile_def)
  have novec: "\<not> HasVectorQuery ?tree" by (simp add: Compile_def CompileWithMode_def EvalTree_new_def HasVectorQuery_def Let_def)
  have same: "HasVectorQuery ?tt = HasVectorQuery ?tree" "HasTextQuery ?tt = HasTextQuery ?tree" "IsEmpty ?tt = IsEmpty ?tree"
    unfolding tree by (simp_all add: HasVectorQuery_def HasTextQuery_def IsEmpty_def)
  have reader: "get_reader (built_runtime b) None ?tt = get_reader (built_runtime b) None ?tree"
    using novec same by (simp add: get_reader_def build_local_reader_def tree split: option.split)
  show ?thesis
  proof (cases "IsEmpty ?tree")
    case True
    then have "open_advanced_reader (built_runtime b) [] = Some r" using r(1) by (simp add: get_reader_def)
    with built.open_empty [OF assms(3)] have "reads r []" by auto
    then have "d_IsEnd r" using readsD(1) by blast
    then have "rs = []" using r(4) by (simp add: ExecuteWithVector_def)
    then show ?thesis using True same best by (simp add: ExecuteSearchTask_def)
  next
    case False
    then show ?thesis using same novec reader r(1,4) best by (simp add: ExecuteSearchTask_def)
  qed
qed

text \<open>
  C15. A search handed to the workers is answered with its best results: over a freshly built index,
  under every interleaving of the caller and the threads, once the threads have come to rest (as they
  do, after finitely many steps) the channel of every enqueued search for a plain query in the default
  mode without a vector holds the \<open>topK\<close> best scored of exactly the documents the query asks for. The
  other searches may be any that do not panic.
\<close>

theorem enqueued_searches_answered:
  assumes "segmenter_ok uc" and "written (smart_tokens uc loc) (bi_store b)" and "built_index_ok b" and "docdata_store_ok (bi_store b)"
    and "keeps_place (total_score None)"
    and execute: "execute = ExecuteSearchTask (smart_tokens uc loc) (built_runtime b) None [built_doc_table scores (bi_store b)] total_score"
    and reach: "pool_reach execute p ts" and total: "\<forall>t \<in> set ts. plain_search (smart_tokens uc loc) t \<or> execute t \<noteq> None"
    and run: "(worker_step execute ^^ n) p q" and rest: "\<nexists>q'. worker_step execute q q'"
    and t: "t \<in> set ts" "plain_search (smart_tokens uc loc) t"
  shows "\<exists>rs. SearchTask_Wait (t_reply t) q = Some rs \<and>
    best_results (GetDocDataEntry [built_doc_table scores (bi_store b)]) (total_score None) (t_top_k t)
      (task_docs (smart_tokens uc loc) (bi_store b) t) rs"
proof -
  have best: "\<exists>rs. execute t = Some rs \<and> best_results (GetDocDataEntry [built_doc_table scores (bi_store b)]) (total_score None)
      (t_top_k t) (task_docs (smart_tokens uc loc) (bi_store b) t) rs" if "plain_search (smart_tokens uc loc) t" for t
    unfolding execute by (rule ExecuteSearchTask_best [OF assms(1-4) that]) (rule assms(5))
  with total have "\<forall>t \<in> set ts. execute t \<noteq> None" by fastforce
  from settled_answers [OF reach this run rest] t(1) have "SearchTask_Wait (t_reply t) q = execute t" by blast
  with best [OF t(2)] show ?thesis by simp
qed

subsection \<open>One document\<close>

text \<open>A document with the body \<open>a\<close>, stored, built and searched.\<close>

definition body_doc :: Document where
  "body_doc = \<lparr>d_doc_id = 5, d_path = [], d_url = [], d_title = [], d_body = str ''a'', d_anchor = [], d_meta = [],
     d_importance = 0\<rparr>"

definition word_tokens :: "rstr \<Rightarrow> rstr list" where
  "word_tokens = smart_tokens one_word (str ''en'')"

lemma word_tokens_eval: "word_tokens (str ''a'') = [str ''a'']" "word_tokens [] = []"
  by (simp_all add: word_tokens_def smart_tokens_def one_word_eval Tokenize_def [of _ _ "[]"])

lemma word_tokens_byte: "word_tokens [0x61] = [[0x61]]"
  using word_tokens_eval(1) by (simp add: str_simps)

definition body_store :: PostingStore where
  "body_store = snd (AddDocument word_tokens (\<lambda>_. [], \<lambda>_. []) (0, None) body_doc False PostingStore_new)"

definition body_index :: "BuildBlocksResult \<Rightarrow> built_index" where
  "body_index r = \<lparr>bi_log2 = demo_log2, bi_store = body_store, bi_result = r, bi_counters = counters0,
     bi_mode = FlatPruned, bi_vector = (\<lambda>_ _. [])\<rparr>"

lemma body_store_parts: "m_Postings body_store = m_Postings demo_store" "map fst (m_DocStats body_store) = [5]"
  "m_DocVectors body_store = []"
proof -
  have key: "str ''a'' @ str ''B'' = demo_key" "str ''a'' \<noteq> []" by (simp_all add: demo_key_def str_simps)
  have "snd (AddDocument word_tokens (\<lambda>_. [], \<lambda>_. []) (0, None) body_doc False PostingStore_new) =
      SetDocImportance 5 0 (AddStreamStats 5 (str ''B'' ! 0) 1 1 (AddDocTokens 5 1 (AddPosting demo_key 5 1 PostingStore_new)))"
    by (simp add: AddDocument_def body_doc_def Let_def word_tokens_eval Write_def unigrams_def bigrams_def bump_def entry_or_def key)
  then show "m_Postings body_store = m_Postings demo_store" "map fst (m_DocStats body_store) = [5]" "m_DocVectors body_store = []"
    by (simp_all add: body_store_def demo_store_def SetDocImportance_def AddStreamStats_def AddDocTokens_def upd_stats_def
        AddPosting_def PostingStore_new_def entry_or_def PostingList_default_def)
qed

lemma body_ids: "fst ` set (m_DocStats body_store) = {5}"
  using body_store_parts(2) by (metis empty_set list.simps(15) list.set_map)

lemma body_written: "written word_tokens body_store"
  unfolding body_store_def by (rule written_add [OF written_empty])

lemma body_index_ok: "BuildBlocks demo_log2 demo_store = Some r \<Longrightarrow> built_fits r \<Longrightarrow> built_index_ok (body_index r)"
proof -
  assume r: "BuildBlocks demo_log2 demo_store = Some r" "built_fits r"
  have "store_buildable demo_log2 body_store"
    using demo_buildable written_wf [OF body_written] by (simp add: store_buildable_def body_store_parts)
  moreover have "BuildBlocks demo_log2 body_store = Some r"
    using r(1) by (simp add: BuildBlocks_def body_store_parts)
  moreover have "StoreDocDataRecordCount body_store = 1" by (simp add: StoreDocDataRecordCount_def body_store_parts)
  ultimately show ?thesis
    using r(2)
    by (simp add: built_index_ok_def body_index_def body_store_parts demo_store_postings demo_key_def demo_list_def
        NO_MORE_DOCS_def)
qed

lemma body_streams: "ParseStreamSet (str ''B'') = [str ''B'']"
  by (simp add: ParseStreamSet_def str_simps stream_of_char_def map_filter_simps)

lemma body_clauses: "query_clauses word_tokens [str ''B''] (str ''a'') = [([\<lparr>qt_term = str ''a'', qt_streams = [str ''B'']\<rparr>], [])]"
  by (simp add: query_clauses_def split_raw_items_def str_simps is_ascii_whitespace_def is_or_token_def is_not_token_def
      to_ascii_lowercase_def add_raw_item_def field_and_item_def word_tokens_byte)

lemma body_query:
  "query_plain word_tokens (str ''a'') (str ''B'')" "query_docs word_tokens D (str ''a'') (str ''B'') = D demo_key"
proof -
  have "plain_text (str ''a'')"
    by (simp add: plain_text_def split_raw_items_def str_simps is_ascii_whitespace_def to_ascii_lowercase_def)
  then show "query_plain word_tokens (str ''a'') (str ''B'')"
    unfolding query_plain_def plain_clauses_def body_streams body_clauses by (simp add: str_simps)
  show "query_docs word_tokens D (str ''a'') (str ''B'') = D demo_key"
    unfolding query_docs_def body_streams body_clauses
    by (simp add: clause_docs_def conj_docs_def term_docs_def demo_key_def str_simps)
qed

lemma body_search:
  assumes "BuildBlocks demo_log2 demo_store = Some r" and "length (BBR_IndexBlocks r) = 1" and "length (BBR_LeafTermBlocks r) = 1"
  shows "built_index_ok (body_index r)" and "bi_store (body_index r) = body_store"
    and "query_docs word_tokens (indexed_docs (bi_store (body_index r))) (str ''a'') (str ''B'') = {5}"
proof -
  show "built_index_ok (body_index r)" using assms by (intro body_index_ok) (simp_all add: built_fits_def)
  show store: "bi_store (body_index r) = body_store" by (simp add: body_index_def)
  have "indexed_docs body_store demo_key = {5}"
    by (simp add: indexed_docs_def docs_of_entries entry_or_def body_store_parts demo_store_postings demo_key_def
        demo_list_def HEAD_TERM_KEY_MAX_def)
  then show "query_docs word_tokens (indexed_docs (bi_store (body_index r))) (str ''a'') (str ''B'') = {5}"
    unfolding body_query(2) store .
qed

theorem search_default_exact_witness:
  "\<exists>r rd. BuildBlocks demo_log2 demo_store = Some r \<and>
     get_reader (built_runtime (body_index r)) None (Compile word_tokens (str ''a'') (str ''B'')) = Some rd \<and> reads rd [5]"
proof -
  from demo_built obtain r where r: "BuildBlocks demo_log2 demo_store = Some r"
    "length (BBR_IndexBlocks r) = 1" "length (BBR_LeafTermBlocks r) = 1" by blast
  note b = body_search [OF r]
  from search_default_exact [OF one_word_cuts body_written [folded b(2), unfolded word_tokens_def] b(1) body_query(1) [unfolded word_tokens_def]] r(1)
  show ?thesis unfolding word_tokens_def [symmetric] b(3) by (auto simp: doc_order_def)
qed

theorem default_search_returns_witness:
  "\<exists>r rd cs rs. BuildBlocks demo_log2 demo_store = Some r \<and>
     get_reader (built_runtime (body_index r)) None (Compile word_tokens (str ''a'') (str ''B'')) = Some rd \<and>
     map (\<lambda>c. ReaderDocumentIDValue (res_doc_id c)) cs = [5] \<and>
     ExecuteWithVector (GetDocDataEntry [built_doc_table zero_scores body_store]) id_score rd 10 = Some rs \<and>
     best_of (TopKLimit 10) cs rs"
proof -
  from demo_built obtain r where r: "BuildBlocks demo_log2 demo_store = Some r"
    "length (BBR_IndexBlocks r) = 1" "length (BBR_LeafTermBlocks r) = 1" by blast
  note b = body_search [OF r]
  have "distinct (map fst (m_DocStats body_store))" using written_wf [OF body_written] by (simp add: store_wf_def)
  then have ok: "docdata_store_ok (bi_store (body_index r))"
    unfolding b(2) docdata_store_ok_def using body_ids by (simp add: body_store_parts(3) GetDocVector_def)
  have one: "sorted_list_of_set {5 :: u64} = [5]" by simp
  from default_search_returns [OF one_word_cuts body_written [folded b(2), unfolded word_tokens_def] b(1) ok body_query(1) [unfolded word_tokens_def]
      id_score_keeps, of zero_scores 10]
  show ?thesis unfolding word_tokens_def [symmetric] b(3) unfolding b(2) doc_order_def one
    by (elim exE conjE) (intro exI conjI, rule r(1))
qed

text \<open>One search for the word, answered by the workers.\<close>

definition body_execute :: "BuildBlocksResult \<Rightarrow> SearchTaskState \<Rightarrow> u64 SearchResult list option" where
  "body_execute r = ExecuteSearchTask word_tokens (built_runtime (body_index r)) None [built_doc_table zero_scores body_store] (\<lambda>_. id_score)"

theorem enqueued_searches_answered_witness:
  "\<exists>r p n q rs. BuildBlocks demo_log2 demo_store = Some r \<and>
     p = snd (EnqueueWithMode (str ''a'') [] (str ''B'') 10 Default 1000 pool_new) \<and>
     (worker_step (body_execute r) ^^ n) p q \<and> SearchTask_Wait 0 q = Some rs \<and>
     best_results (GetDocDataEntry [built_doc_table zero_scores body_store]) id_score 10 {5} rs"
proof -
  from demo_built obtain r where r: "BuildBlocks demo_log2 demo_store = Some r"
    "length (BBR_IndexBlocks r) = 1" "length (BBR_LeafTermBlocks r) = 1" by blast
  note b = body_search [OF r]
  have "distinct (map fst (m_DocStats body_store))" using written_wf [OF body_written] by (simp add: store_wf_def)
  then have ok: "docdata_store_ok (bi_store (body_index r))"
    unfolding b(2) docdata_store_ok_def using body_ids by (simp add: body_store_parts(3) GetDocVector_def)
  let ?t = "new_task (str ''a'') [] (str ''B'') 10 Default 1000 (pool_new :: u64 SearchResult list search_pool)"
  let ?p = "snd (EnqueueWithMode (str ''a'') [] (str ''B'') 10 Default 1000 pool_new)"
  have reach: "pool_reach (body_execute r) ?p [?t]"
    using EnqueueWithMode_reach [OF pool_reach.new new_not_joining] by fastforce
  have streams: "(if str ''B'' = [] then str ''AUTB'' else str ''B'') = str ''B''" by (simp add: str_simps)
  have task: "t_query ?t = str ''a''" "t_streams ?t = str ''B''" "t_mode ?t = Default" "t_vector ?t = []" "t_top_k ?t = 10" "t_reply ?t = 0"
    using streams by (simp_all add: new_task_def pool_new_def)
  have plain: "plain_search word_tokens ?t" using body_query(1) task by (simp add: plain_search_def)
  then have total: "\<forall>t \<in> set [?t]. plain_search word_tokens t \<or> body_execute r t \<noteq> None" by simp
  have docs: "task_docs word_tokens body_store ?t = {5}" using b(3) unfolding b(2) task_docs_def task .
  have t: "?t \<in> set [?t]" by simp
  obtain n q where q: "(worker_step (body_execute r) ^^ n) ?p q" "\<nexists>q'. worker_step (body_execute r) q q'" using pool_settles by blast
  from enqueued_searches_answered [OF one_word_cuts body_written [folded b(2), unfolded word_tokens_def] b(1) ok id_score_keeps
      body_execute_def [of r, folded b(2), unfolded word_tokens_def] reach total [unfolded word_tokens_def] q t plain [unfolded word_tokens_def]]
  obtain rs where "SearchTask_Wait 0 q = Some rs"
    "best_results (GetDocDataEntry [built_doc_table zero_scores body_store]) id_score 10 {5} rs"
    using docs task unfolding word_tokens_def [symmetric] b(2) by auto
  with r(1) q(1) show ?thesis by blast
qed

lemma body_docs:
  "indexed_docs body_store [0x61, 0x42] = {5}" "key \<noteq> [0x61, 0x42] \<Longrightarrow> indexed_docs body_store key = {}"
  by (simp_all add: indexed_docs_def docs_of_entries entry_or_def body_store_parts demo_store_postings demo_key_def
      demo_list_def HEAD_TERM_KEY_MAX_def PostingList_default_def)

theorem build_index_reader_exact_witness:
  "\<exists>r rd. BuildBlocks demo_log2 demo_store = Some r \<and>
     build_index_reader (built_runtime (body_index r)) (Some (NotN
       (OrN [TermN \<lparr>stream_key = [0x61, 0x42], word_span = 1\<rparr>, TermN \<lparr>stream_key = [0x61, 0x54], word_span = 1\<rparr>])
       (TermN \<lparr>stream_key = [0x62, 0x42], word_span = 1\<rparr>))) = Some rd \<and> reads rd [5]"
proof -
  from demo_built obtain r where r: "BuildBlocks demo_log2 demo_store = Some r"
    "length (BBR_IndexBlocks r) = 1" "length (BBR_LeafTermBlocks r) = 1" by blast
  then have ok: "built_index_ok (body_index r)" by (intro body_index_ok) (simp_all add: built_fits_def)
  let ?n = "NotN (OrN [TermN \<lparr>stream_key = [0x61, 0x42], word_span = 1\<rparr>, TermN \<lparr>stream_key = [0x61, 0x54], word_span = 1\<rparr>])
       (TermN \<lparr>stream_key = [0x62, 0x42], word_span = 1\<rparr>)"
  have "node_docs m h (indexed_docs (bi_store (body_index r))) ?n = {5}" for m h
    by (simp add: body_index_def body_docs)
  with build_index_reader_exact [OF ok, of ?n] r(1) show ?thesis by (auto simp: doc_order_def)
qed

subsection \<open>Two documents, before and after a merge\<close>


end
